(* ===== verification/Prelude.thy ===== *)
theory Prelude
  imports Main "HOL-Library.Word"
begin

text \<open>
  The vocabulary every theory of the development shares: machine integers, the named
  collections of simplification rules, and generic lemmas on lists, options and words.
  A C \<open>int\<close> or \<open>uint\<close> is a \<open>32 word\<close>: addition, subtraction and shifts wrap as they do
  on the target, and a signed reading is written \<open>sint\<close>.
\<close>

unbundle bit_operations_syntax

type_synonym i32 = "32 word"
type_synonym i8 = "8 word"

named_theorems fld_simps \<open>field extraction from packed words\<close>
named_theorems upd_simps \<open>what an update of a table leaves alone\<close>
named_theorems wf_intros \<open>preservation of well-formedness\<close>

section \<open>Lists\<close>

text \<open>The first index from \<open>i\<close> on whose element satisfies \<open>P\<close>: a C \<open>for\<close> loop with a \<open>return\<close>.\<close>

fun first_from :: "nat \<Rightarrow> ('a \<Rightarrow> bool) \<Rightarrow> 'a list \<Rightarrow> nat option" where
  "first_from i P [] = None"
| "first_from i P (x # xs) = (if P x then Some i else first_from (Suc i) P xs)"

lemma first_from_Some:
  "first_from i P xs = Some k \<Longrightarrow>
     i \<le> k \<and> k < i + length xs \<and> P (xs ! (k - i)) \<and> (\<forall>j < k - i. \<not> P (xs ! j))"
proof (induction xs arbitrary: i)
  case Nil
  then show ?case by simp
next
  case (Cons x xs)
  show ?case
  proof (cases "P x")
    case True
    with Cons.prems show ?thesis by simp
  next
    case False
    with Cons.prems have "first_from (Suc i) P xs = Some k" by simp
    from Cons.IH [OF this] have le: "Suc i \<le> k" "k < Suc i + length xs" "P (xs ! (k - Suc i))"
      and before: "\<forall>j < k - Suc i. \<not> P (xs ! j)" by auto
    have "k - i = Suc (k - Suc i)" using le by simp
    with le before False show ?thesis by (auto simp: nth_Cons split: nat.split)
  qed
qed

lemma first_from_None: "first_from i P xs = None \<longleftrightarrow> (\<forall>x \<in> set xs. \<not> P x)"
  by (induction xs arbitrary: i) auto

lemma first_from_0:
  assumes "first_from 0 P xs = Some k"
  shows "k < length xs" "P (xs ! k)" "\<And>j. j < k \<Longrightarrow> \<not> P (xs ! j)"
  using first_from_Some [OF assms] by auto

text \<open>A list grown by one element per step of a loop, read off at the first step.\<close>

lemma ex_append_Suc:
  "(\<exists>ws. xs' = xs @ ws \<and> length ws = Suc n \<and> (\<forall>i < Suc n. Q i (ws ! i))) \<longleftrightarrow>
   (\<exists>w. Q 0 w \<and> (\<exists>ws. xs' = xs @ w # ws \<and> length ws = n \<and> (\<forall>i < n. Q (Suc i) (ws ! i))))"
proof -
  have "(\<exists>ws. xs' = xs @ ws \<and> length ws = Suc n \<and> (\<forall>i < Suc n. Q i (ws ! i))) \<longleftrightarrow>
    (\<exists>w us. xs' = xs @ w # us \<and> length us = n \<and> (\<forall>i < Suc n. Q i ((w # us) ! i)))"
    by (auto simp: length_Suc_conv)
  then show ?thesis by (auto simp: All_less_Suc2)
qed

lemma funpow_three: "(f ^^ 3) x = f (f (f x))"
  by (simp add: numeral_3_eq_3)

lemma distinct_one: "set xs = {x} \<Longrightarrow> distinct xs \<Longrightarrow> xs = [x]"
  by (cases xs; cases "tl xs") auto

section \<open>Small numbers as C integers\<close>

lemma unat_of_nat32 [simp]: "t < 2 ^ 32 \<Longrightarrow> unat (of_nat t :: i32) = t"
  by (simp add: unat_of_nat)

lemma sint_of_nat32 [simp]: "t < 2 ^ 31 \<Longrightarrow> sint (of_nat t :: i32) = int t"
proof -
  assume t: "t < 2 ^ 31"
  then have "unat (of_nat t :: i32) = t" by simp
  then have "uint (of_nat t :: i32) = int t" by (metis of_nat_unat)
  then have "sint (of_nat t :: i32) = signed_take_bit 31 (int t)" by (simp add: sint_uint)
  also have "\<dots> = int t"
    using t by (intro signed_take_bit_int_eq_self) auto
  finally show ?thesis .
qed

lemma unat_lt32: "unat (w :: i32) < 4294967296"
proof -
  have "unat w < 2 ^ LENGTH(32)" by (rule unsigned_less)
  then show ?thesis by simp
qed

lemma unat_add32: "unat (a :: i32) + unat b < 4294967296 \<Longrightarrow> unat (a + b) = unat a + unat b"
  by (simp add: unat_word_ariths)

lemma small_sint: "unat (w :: i32) < 2 ^ 31 \<Longrightarrow> sint w = int (unat w)"
  using sint_of_nat32 [of "unat w"] by simp

section \<open>Results that may be errors\<close>

text \<open>\<open>call r f\<close> goes on with \<open>f\<close> unless \<open>r\<close> stopped the machine.\<close>

definition call :: "'e + 'a \<Rightarrow> ('a \<Rightarrow> 'e + 'b) \<Rightarrow> 'e + 'b" where
  "call r f = (case r of Inl e \<Rightarrow> Inl e | Inr x \<Rightarrow> f x)"

lemma call_simps [simp]: "call (Inl e) f = Inl e" "call (Inr x) f = f x"
  by (simp_all add: call_def)

lemma call_weak_cong: "r = r' \<Longrightarrow> call r f = call r' f"
  by simp

lemma call_eq_Inr: "call r f = Inr y \<longleftrightarrow> (\<exists>x. r = Inr x \<and> f x = Inr y)"
  by (simp add: call_def split: sum.splits)

lemma call_eq_Inl: "call r f = Inl e \<longleftrightarrow> r = Inl e \<or> (\<exists>x. r = Inr x \<and> f x = Inl e)"
  by (auto simp: call_def split: sum.splits)

text \<open>A loop over a table whose body may stop the machine.\<close>

primrec each :: "('x \<Rightarrow> 's \<Rightarrow> 'e + 's) \<Rightarrow> 'x list \<Rightarrow> 's \<Rightarrow> 'e + 's" where
  "each f [] s = Inr s"
| "each f (x # xs) s = call (f x s) (each f xs)"

lemma each_append: "each f (xs @ ys) s = call (each f xs s) (each f ys)"
  by (induction xs arbitrary: s) (simp_all add: call_def split: sum.splits)

lemma each_invariant:
  assumes "each f xs s = Inr s'" "P s" "\<And>x s s'. x \<in> set xs \<Longrightarrow> P s \<Longrightarrow> f x s = Inr s' \<Longrightarrow> P s'"
  shows "P s'"
  using assms by (induction xs arbitrary: s) (auto simp: call_eq_Inr)

section \<open>Errors that stop a kernel\<close>

text \<open>A panic, a null pointer that the code follows, or a loop that the code never leaves.\<close>

datatype kerror = Panic string | Fault | Diverge

type_synonym 'a kres = "kerror + 'a"

section \<open>Loops over arrays\<close>

text \<open>\<open>while (i < n && P(i)) i++;\<close>\<close>

function scan :: "(nat \<Rightarrow> bool) \<Rightarrow> nat \<Rightarrow> nat \<Rightarrow> nat" where
  "scan P n i = (if i < n \<and> P i then scan P n (Suc i) else i)"
  by pat_completeness auto
termination by (relation "measure (\<lambda>(P, n, i). n - i)") auto

declare scan.simps [simp del]

lemma scan_step: "i < n \<Longrightarrow> P i \<Longrightarrow> scan P n i = scan P n (Suc i)"
  "\<not> i < n \<Longrightarrow> scan P n i = i" "\<not> P i \<Longrightarrow> scan P n i = i"
  by (subst scan.simps, simp)+

lemma scan_bounds: "i \<le> n \<Longrightarrow> i \<le> scan P n i \<and> scan P n i \<le> n"
  by (induction P n i rule: scan.induct) (subst (1 2) scan.simps, force)

lemma scan_before: "i \<le> j \<Longrightarrow> j < scan P n i \<Longrightarrow> P j"
proof (induction P n i rule: scan.induct)
  case (1 P n i)
  show ?case
  proof (cases "i < n \<and> P i")
    case True
    then have "scan P n i = scan P n (Suc i)" by (subst scan.simps) simp
    with True 1 show ?thesis by (cases "i = j") auto
  next
    case False
    then have "scan P n i = i" by (subst scan.simps) auto
    with 1 show ?thesis by simp
  qed
qed

lemma scan_stops: "scan P n i < n \<Longrightarrow> \<not> P (scan P n i)"
  by (induction P n i rule: scan.induct) (subst (asm) (2) scan.simps, subst scan.simps, auto)

lemma scan_eqI:
  assumes "i \<le> k" "k \<le> n" "\<And>j. i \<le> j \<Longrightarrow> j < k \<Longrightarrow> P j" "k < n \<Longrightarrow> \<not> P k"
  shows "scan P n i = k"
proof -
  have "i \<le> n" using assms by simp
  note b = scan_bounds [OF this, of P]
  show ?thesis
  proof (rule ccontr)
    assume "scan P n i \<noteq> k"
    then consider "scan P n i < k" | "k < scan P n i" by linarith
    then show False
    proof cases
      case 1
      then show False using b assms(2) assms(3) [of "scan P n i"] scan_stops [of P n i] by auto
    next
      case 2
      then show False using b assms(1,4) scan_before [of i k P n] by auto
    qed
  qed
qed

text \<open>\<open>for (i = n; i > k; i--) a[i] = a[i-1];\<close> and \<open>for (i = k + 1; i < n; i++) a[i-1] = a[i];\<close>\<close>

definition shift_up :: "nat \<Rightarrow> nat \<Rightarrow> (nat \<Rightarrow> 'a) \<Rightarrow> nat \<Rightarrow> 'a" where
  "shift_up k n a = fold (\<lambda>i a. a(i := a (i - 1))) (rev [Suc k..<Suc n]) a"

definition shift_down :: "nat \<Rightarrow> nat \<Rightarrow> (nat \<Rightarrow> 'a) \<Rightarrow> nat \<Rightarrow> 'a" where
  "shift_down k n a = fold (\<lambda>i a. a(i - 1 := a i)) [Suc k..<n] a"

text \<open>\<open>for (i = k; i < n; i++) dst[i - d] = src[i];\<close>\<close>

definition copy_slots :: "nat \<Rightarrow> nat \<Rightarrow> nat \<Rightarrow> (nat \<Rightarrow> 'a) \<Rightarrow> (nat \<Rightarrow> 'a) \<Rightarrow> nat \<Rightarrow> 'a" where
  "copy_slots k n d src dst = fold (\<lambda>i dst. dst(i - d := src i)) [k..<n] dst"

text \<open>\<open>for (i = 0, j = 0; i < n; i++, j++) { if (j == k) j++; dst[j] = src[i]; }\<close>\<close>

definition spread_slots :: "nat \<Rightarrow> nat \<Rightarrow> (nat \<Rightarrow> 'a) \<Rightarrow> (nat \<Rightarrow> 'a) \<Rightarrow> nat \<Rightarrow> 'a" where
  "spread_slots k n src dst =
     snd (fold (\<lambda>i (j, dst). let j = (if j = k then Suc j else j) in (Suc j, dst(j := src i)))
       [0..<n] (0, dst))"

lemma shift_up_apply: "shift_up k n a j = (if k < j \<and> j \<le> n then a (j - 1) else a j)"
proof (induction n arbitrary: a)
  case 0
  then show ?case by (simp add: shift_up_def)
next
  case (Suc n)
  show ?case
  proof (cases "k \<le> n")
    case True
    then have "shift_up k (Suc n) a = shift_up k n (a(Suc n := a n))"
      by (simp add: shift_up_def)
    then show ?thesis using True by (auto simp: Suc)
  qed (auto simp: shift_up_def)
qed

lemma shift_down_apply: "shift_down k n a j = (if k \<le> j \<and> Suc j < n then a (Suc j) else a j)"
proof (induction n arbitrary: j)
  case 0
  then show ?case by (simp add: shift_down_def)
next
  case (Suc n)
  show ?case
  proof (cases "Suc k \<le> n")
    case True
    then have "shift_down k (Suc n) a = (shift_down k n a)(n - 1 := shift_down k n a n)"
      by (simp add: shift_down_def)
    then show ?thesis using True by (auto simp: Suc less_Suc_eq)
  qed (auto simp: shift_down_def)
qed

lemma copy_slots_apply:
  "d \<le> k \<Longrightarrow> copy_slots k n d src dst j = (if k \<le> j + d \<and> j + d < n then src (j + d) else dst j)"
proof (induction n arbitrary: j)
  case 0
  then show ?case by (simp add: copy_slots_def)
next
  case (Suc n)
  show ?case
  proof (cases "k \<le> n")
    case True
    then have "copy_slots k (Suc n) d src dst = (copy_slots k n d src dst)(n - d := src n)"
      by (simp add: copy_slots_def)
    then show ?thesis using True Suc.prems by (auto simp: Suc.IH [OF Suc.prems] less_Suc_eq)
  qed (auto simp: copy_slots_def)
qed

lemma spread_slots_apply:
  "spread_slots k n src dst j =
     (if j < k \<and> j < n then src j else if k < j \<and> j \<le> n then src (j - 1) else dst j)"
proof -
  define f where "f = (\<lambda>i (j, dst :: nat \<Rightarrow> 'a).
    let j = (if j = k then Suc j else j) in (Suc j, dst(j := src i)))"
  have "fold f [0..<n] (0, dst) = (if n \<le> k then n else Suc n,
     (\<lambda>j. if j < k \<and> j < n then src j else if k < j \<and> j \<le> n then src (j - 1) else dst j))"
    by (induction n) (auto simp: f_def Let_def fun_eq_iff less_Suc_eq)
  then show ?thesis by (simp add: spread_slots_def f_def)
qed

text \<open>\<open>for (j = 0; j < n; j++) dst[m + j] = src[j];\<close>\<close>

definition append_slots :: "nat \<Rightarrow> nat \<Rightarrow> (nat \<Rightarrow> 'a) \<Rightarrow> (nat \<Rightarrow> 'a) \<Rightarrow> nat \<Rightarrow> 'a" where
  "append_slots m n src dst = fold (\<lambda>j dst. dst(m + j := src j)) [0..<n] dst"

lemma append_slots_apply:
  "append_slots m n src dst j = (if m \<le> j \<and> j < m + n then src (j - m) else dst j)"
  by (induction n arbitrary: j) (auto simp: append_slots_def)

text \<open>The same loops as operations on the list of the first slots.\<close>

lemma shift_up_list:
  "k \<le> n \<Longrightarrow> map ((shift_up k n f)(k := x)) [0..<Suc n] =
     take k (map f [0..<n]) @ x # drop k (map f [0..<n])"
  by (rule nth_equalityI) (auto simp: shift_up_apply nth_append nth_Cons min_def
      intro!: arg_cong [of _ _ f] split: nat.split)

lemma spread_slots_list:
  "k \<le> n \<Longrightarrow> map ((spread_slots k n f z)(k := x)) [0..<Suc n] =
     take k (map f [0..<n]) @ x # drop k (map f [0..<n])"
  by (rule nth_equalityI) (auto simp: spread_slots_apply nth_append nth_Cons min_def
      intro!: arg_cong [of _ _ f] split: nat.split)

lemma shift_down_list:
  "k < n \<Longrightarrow> map (shift_down k n f) [0..<n - 1] =
     take k (map f [0..<n]) @ drop (Suc k) (map f [0..<n])"
  by (rule nth_equalityI) (auto simp: shift_down_apply nth_append min_def)

lemma copy_slots_list:
  "k \<le> n \<Longrightarrow> map (copy_slots k n k f g) [0..<n - k] = drop k (map f [0..<n])"
  by (rule nth_equalityI) (auto simp: copy_slots_apply add.commute)

lemma each_map: "each (\<lambda>i. f (g i)) xs s = each f (map g xs) s"
  by (induction xs arbitrary: s) (auto simp: call_def split: sum.splits)

end
