(* ===== verification/C_Stdio.thy ===== *)
theory C_Stdio
  imports Prelude
begin

text \<open>
  The functions of the C standard library the LC-2K tools call, as they use them:
  \<open>fgets\<close>, \<open>strchr\<close>/\<open>strlen\<close>/\<open>strcmp\<close> (as \<open>set\<close>, \<open>length\<close> and equality on strings),
  the scan sets of \<open>sscanf\<close>, \<open>sscanf "%d"\<close>, \<open>atoi\<close> and \<open>printf "%d"\<close>. A text file is
  the string of its remaining characters; files are assumed to hold no NUL byte. Number
  conversion is glibc's on a 64-bit \<open>long\<close>: the value saturates to 64 bits and the low 32
  bits are kept.
\<close>

abbreviation newline :: char where "newline \<equiv> CHR 0x0A"
abbreviation tab :: char where "tab \<equiv> CHR 0x09"
abbreviation carriage_return :: char where "carriage_return \<equiv> CHR 0x0D"

text \<open>\<open>fgets(line, n, f)\<close>: at most \<open>n - 1\<close> characters, up to and with the first newline;
  \<open>NULL\<close> (here \<open>None\<close>) exactly at end of file.\<close>

definition fgets_line :: "nat \<Rightarrow> string \<Rightarrow> string" where
  "fgets_line n s =
     (let p = take (n - 1) s in
      if newline \<in> set p then takeWhile (\<lambda>c. c \<noteq> newline) p @ [newline] else p)"

definition fgets :: "nat \<Rightarrow> string \<Rightarrow> (string \<times> string) option" where
  "fgets n s =
     (if s = [] then None
      else Some (fgets_line n s, drop (length (fgets_line n s)) s))"

definition is_space :: "char \<Rightarrow> bool" where
  "is_space c = (c \<in> {CHR '' '', CHR 0x09, CHR 0x0A, CHR 0x0B, CHR 0x0C, CHR 0x0D})"

definition is_digit_std :: "char \<Rightarrow> bool" where
  "is_digit_std c = (48 \<le> (of_char c :: nat) \<and> (of_char c :: nat) \<le> 57)"

definition digit_val :: "char \<Rightarrow> nat" where
  "digit_val c = (of_char c :: nat) - 48"

definition digit_char :: "nat \<Rightarrow> char" where
  "digit_char d = char_of (48 + d)"

definition digits_val :: "string \<Rightarrow> nat" where
  "digits_val ds = foldl (\<lambda>acc c. 10 * acc + digit_val c) 0 ds"

text \<open>Saturation of \<open>strtol\<close> to a 64-bit \<open>long\<close>, then the conversion to \<open>int\<close>.\<close>

definition long_to_int :: "int \<Rightarrow> i32" where
  "long_to_int n = word_of_int (max (- (2 ^ 63)) (min (2 ^ 63 - 1) n))"

text \<open>\<open>sscanf(s, "%d", &i)\<close>: \<open>None\<close> when it does not return 1.\<close>

definition scan_int :: "string \<Rightarrow> int option" where
  "scan_int s =
     (let r = dropWhile is_space s;
          neg = (r \<noteq> [] \<and> hd r = CHR ''-'');
          d = (if r \<noteq> [] \<and> (hd r = CHR ''-'' \<or> hd r = CHR ''+'') then tl r else r);
          ds = takeWhile is_digit_std d
      in if ds = [] then None
         else Some (if neg then - int (digits_val ds) else int (digits_val ds)))"

lemma scan_int_Nil [simp]: "scan_int [] = None"
  by (simp add: scan_int_def)

definition sscanf_d :: "string \<Rightarrow> i32 option" where
  "sscanf_d s = map_option long_to_int (scan_int s)"

text \<open>\<open>atoi(s)\<close> is 0 when there is no number.\<close>

definition atoi_std :: "string \<Rightarrow> i32" where
  "atoi_std s = (case sscanf_d s of None \<Rightarrow> 0 | Some i \<Rightarrow> i)"

text \<open>\<open>printf("%d", i)\<close>\<close>

fun nat_digits :: "nat \<Rightarrow> string" where
  "nat_digits n = (if n < 10 then [digit_char n] else nat_digits (n div 10) @ [digit_char (n mod 10)])"

declare nat_digits.simps [simp del]

definition print_int :: "int \<Rightarrow> string" where
  "print_int n = (if n < 0 then CHR ''-'' # nat_digits (nat (- n)) else nat_digits (nat n))"

section \<open>Lines\<close>

lemma fgets_line_nonempty: "s \<noteq> [] \<Longrightarrow> 2 \<le> n \<Longrightarrow> fgets_line n s \<noteq> []"
  by (auto simp: fgets_line_def Let_def)

lemma fgets_shrinks:
  "fgets n s = Some (l, r) \<Longrightarrow> 2 \<le> n \<Longrightarrow> length r < length s"
  using fgets_line_nonempty [of s n]
  by (auto simp: fgets_def split: if_splits)

lemma fgets_line_append:
  assumes "newline \<notin> set l" "length l < n - 1"
  shows "fgets_line n (l @ newline # r) = l @ [newline]"
proof -
  have p: "take (n - 1) (l @ newline # r) = l @ newline # take (n - 1 - length l - 1) r"
    using assms(2) by (cases "n - 1 - length l") (auto simp: take_Cons')
  have "takeWhile (\<lambda>c. c \<noteq> newline) (l @ newline # xs) = l" for xs
    using assms(1) by (subst takeWhile_append2) auto
  then show ?thesis unfolding fgets_line_def Let_def p by simp
qed

lemma fgets_append:
  assumes "newline \<notin> set l" "length l < n - 1"
  shows "fgets n (l @ newline # r) = Some (l @ [newline], r)"
  by (simp add: fgets_def fgets_line_append [OF assms])

lemma fgets_Nil [simp]: "fgets n [] = None"
  by (simp add: fgets_def)

section \<open>Numbers: printing then scanning\<close>

lemma digit_char_digit: "d < 10 \<Longrightarrow> is_digit_std (digit_char d)"
  by (simp add: is_digit_std_def digit_char_def of_char_of)

lemma digit_val_char: "d < 10 \<Longrightarrow> digit_val (digit_char d) = d"
  by (simp add: digit_val_def digit_char_def of_char_of)

lemma digits_val_snoc: "digits_val (ds @ [c]) = 10 * digits_val ds + digit_val c"
  by (simp add: digits_val_def)

lemma nat_digits_props:
  "nat_digits n \<noteq> [] \<and> (\<forall>c \<in> set (nat_digits n). is_digit_std c) \<and> digits_val (nat_digits n) = n"
proof (induction n rule: nat_digits.induct)
  case (1 n)
  show ?case
  proof (cases "n < 10")
    case True
    then show ?thesis
      by (simp add: nat_digits.simps [of n] digit_char_digit digits_val_def digit_val_char)
  next
    case False
    with 1 show ?thesis
      by (auto simp: nat_digits.simps [of n] digit_char_digit digits_val_snoc digit_val_char)
  qed
qed

lemma nat_digits_ne [simp]: "nat_digits n \<noteq> []"
  and nat_digits_digit: "c \<in> set (nat_digits n) \<Longrightarrow> is_digit_std c"
  and digits_val_nat_digits [simp]: "digits_val (nat_digits n) = n"
  using nat_digits_props [of n] by auto

lemma not_digit_newline [simp]: "\<not> is_digit_std newline"
  and not_space_minus [simp]: "\<not> is_space (CHR ''-'')"
  and not_digit_minus [simp]: "\<not> is_digit_std (CHR ''-'')"
  by (simp_all add: is_digit_std_def is_space_def)

lemma digit_cases: "is_digit_std c \<Longrightarrow> \<not> is_space c \<and> c \<noteq> CHR ''-'' \<and> c \<noteq> CHR ''+'' \<and> c \<noteq> newline"
  by (auto simp: is_digit_std_def is_space_def)

lemma takeWhile_digits: "takeWhile is_digit_std (nat_digits n @ newline # r) = nat_digits n"
  by (subst takeWhile_append2) (auto simp: nat_digits_digit)

lemma nat_digits_Cons: obtains c cs where "nat_digits n = c # cs" "is_digit_std c"
  by (metis list.exhaust list.set_intros(1) nat_digits_digit nat_digits_ne)

lemma scan_print_int: "scan_int (print_int n @ newline # r) = Some n"
proof (cases "n < 0")
  case True
  then show ?thesis
    by (simp add: scan_int_def print_int_def takeWhile_digits)
next
  case False
  obtain c cs where c: "nat_digits (nat n) = c # cs" "is_digit_std c" by (rule nat_digits_Cons)
  note tw = takeWhile_digits [of "nat n" r] digits_val_nat_digits [of "nat n"]
  have "dropWhile is_space (nat_digits (nat n) @ newline # r) = nat_digits (nat n) @ newline # r"
    using c digit_cases [OF c(2)] by simp
  moreover have "hd (nat_digits (nat n) @ newline # r) = c" using c by simp
  ultimately show ?thesis
    using False c digit_cases [OF c(2)] tw
    by (simp add: scan_int_def print_int_def Let_def)
qed

lemma newline_not_in_print_int: "newline \<notin> set (print_int n)"
  by (auto simp: print_int_def dest: nat_digits_digit)

lemma long_to_int_sint [simp]: "long_to_int (sint (w :: i32)) = w"
proof -
  have "- (2 ^ 31) \<le> sint w" "sint w < 2 ^ 31"
    using sint_ge [of w] sint_lt [of w] by simp_all
  then have "max (- (2 ^ 63)) (min (2 ^ 63 - 1) (sint w)) = sint w" by simp
  then show ?thesis by (simp add: long_to_int_def)
qed

lemma sscanf_print: "sscanf_d (print_int (sint (w :: i32)) @ newline # r) = Some w"
  by (simp add: sscanf_d_def scan_print_int)

text \<open>How long a printed number can be: 11 characters, so it fits any line buffer used here.\<close>

lemma length_nat_digits: "n < 10 ^ k \<Longrightarrow> 1 \<le> k \<Longrightarrow> length (nat_digits n) \<le> k"
proof (induction k arbitrary: n)
  case 0
  then show ?case by simp
next
  case (Suc k)
  show ?case
  proof (cases "n < 10")
    case True
    then show ?thesis by (simp add: nat_digits.simps [of n])
  next
    case False
    with Suc.prems have "n div 10 < 10 ^ k" by auto
    moreover from False Suc.prems have "1 \<le> k" by (cases k) auto
    ultimately have "length (nat_digits (n div 10)) \<le> k" by (rule Suc.IH)
    with False show ?thesis by (simp add: nat_digits.simps [of n])
  qed
qed

lemma length_print_int: "length (print_int (sint (w :: i32))) \<le> 11"
proof -
  have b: "- (2 ^ 31) \<le> sint w" "sint w < 2 ^ 31"
    using sint_ge [of w] sint_lt [of w] by simp_all
  have "nat (- sint w) < 10 ^ 10" "nat (sint w) < 10 ^ 10" using b by auto
  then have "length (nat_digits (nat (- sint w))) \<le> 10" "length (nat_digits (nat (sint w))) \<le> 10"
    by (auto intro!: length_nat_digits)
  then show ?thesis by (auto simp: print_int_def)
qed

end
