(* ===== verification/Assembler.thy ===== *)
theory Assembler
  imports C_Stdio
begin

text \<open>
  The LC-2K assembler, \<open>computer architecture/project1/assemble.c\<close>. The assembly file is
  read twice: the first pass of \<open>main\<close> collects one label per line (\<open>pass1\<close>), the second
  translates each line to a machine word (\<open>pass2\<close>, \<open>asm_line\<close>); every \<open>exit(1)\<close> is a
  value of \<open>asm_error\<close>. The array \<open>labels\<close> is the list of the rows written so far: every
  later row is still the empty string the static array starts with (\<open>label_at\<close>). Not modelled: the
  messages on standard output, and files with more than \<open>MAXLABEL\<close> lines.
\<close>

definition MAXLINELENGTH :: nat where "MAXLINELENGTH = 1000"
definition MAXLABEL :: nat where "MAXLABEL = 987654"

definition ADD :: i32 where "ADD = 0x00000000"
definition NOR :: i32 where "NOR = 0x00400000"
definition LW :: i32 where "LW = 0x00800000"
definition SW :: i32 where "SW = 0x00C00000"
definition BEQ :: i32 where "BEQ = 0x01000000"
definition JALR :: i32 where "JALR = 0x01400000"
definition HALT :: i32 where "HALT = 0x01800000"
definition NOOP :: i32 where "NOOP = 0x01C00000"

lemmas op_defs = ADD_def NOR_def LW_def SW_def BEQ_def JALR_def HALT_def NOOP_def

datatype asm_error =
    Line_too_long | Label_too_long | Duplicate_label string | Invalid_opcode
  | Invalid_R_arg | Invalid_I_arg | No_label string | Offset_range | Invalid_J_arg

section \<open>Label table\<close>

definition label_at :: "string list \<Rightarrow> nat \<Rightarrow> string" where
  "label_at labels i = (if i < length labels then labels ! i else '''')"

function find_idx_from :: "string list \<Rightarrow> string \<Rightarrow> nat \<Rightarrow> nat \<Rightarrow> int" where
  "find_idx_from labels l_name i ed =
     (if i < ed then
        if label_at labels i = l_name then int i else find_idx_from labels l_name (Suc i) ed
      else -1)"
  by pat_completeness auto
termination
  by (relation "measure (\<lambda>(labels, l_name, i, ed). ed - i)") auto

declare find_idx_from.simps [simp del]

definition find_idx :: "string list \<Rightarrow> string \<Rightarrow> nat \<Rightarrow> int" where
  "find_idx labels l_name ed = find_idx_from labels l_name 0 ed"

section \<open>Reading and parsing a line\<close>

record asm_fields =
  f_label :: string
  f_opcode :: string
  f_arg0 :: string
  f_arg1 :: string
  f_arg2 :: string

text \<open>The scan set \<open>[\t\n\r ]\<close> of both \<open>sscanf\<close> formats.\<close>

definition is_ws :: "char \<Rightarrow> bool" where
  "is_ws c = (c = tab \<or> c = newline \<or> c = carriage_return \<or> c = CHR '' '')"

text \<open>\<open>%*[\t\n\r ]%[^\t\n\r ]\<close> repeated: each repetition needs white space and then a token.\<close>

fun scan_tokens :: "nat \<Rightarrow> string \<Rightarrow> string list" where
  "scan_tokens 0 s = []"
| "scan_tokens (Suc k) s =
     (let r = dropWhile is_ws s;
          tok = takeWhile (\<lambda>c. \<not> is_ws c) r
      in if takeWhile is_ws s = [] \<or> tok = [] then []
         else tok # scan_tokens k (dropWhile (\<lambda>c. \<not> is_ws c) r))"

definition nth_tok :: "string list \<Rightarrow> nat \<Rightarrow> string" where
  "nth_tok ts i = (if i < length ts then ts ! i else '''')"

datatype read_result = Eof | Too_long | Read asm_fields string

definition parse_line :: "string \<Rightarrow> asm_fields" where
  "parse_line line =
     (let l = takeWhile (\<lambda>c. \<not> is_ws c) line;
          ts = scan_tokens 4 (drop (length l) line)
      in \<lparr>f_label = l, f_opcode = nth_tok ts 0, f_arg0 = nth_tok ts 1,
          f_arg1 = nth_tok ts 2, f_arg2 = nth_tok ts 3\<rparr>)"

definition readAndParse :: "string \<Rightarrow> read_result" where
  "readAndParse inFile =
     (case fgets MAXLINELENGTH inFile of
        None \<Rightarrow> Eof
      | Some (line, rest) \<Rightarrow>
          if newline \<notin> set line then Too_long else Read (parse_line line) rest)"

definition isNumber :: "string \<Rightarrow> bool" where
  "isNumber s = (scan_int s \<noteq> None)"

lemma readAndParse_shrinks: "readAndParse s = Read f r \<Longrightarrow> length r < length s"
  using fgets_shrinks [of MAXLINELENGTH s]
  by (auto simp: readAndParse_def MAXLINELENGTH_def split: option.splits prod.splits if_splits)

section \<open>First pass: the label table\<close>

function pass1 :: "string \<Rightarrow> string list \<Rightarrow> asm_error + string list" where
  "pass1 inFile labels =
     (case readAndParse inFile of
        Eof \<Rightarrow> Inr labels
      | Too_long \<Rightarrow> Inl Line_too_long
      | Read f rest \<Rightarrow>
          if 6 < length (f_label f) then Inl Label_too_long
          else if f_label f = '''' then pass1 rest (labels @ [''''])
          else if find_idx labels (f_label f) (MAXLABEL - 1) \<noteq> -1
            then Inl (Duplicate_label (f_label f))
          else pass1 rest (labels @ [f_label f]))"
  by pat_completeness auto
termination
  by (relation "measure (\<lambda>(inFile, labels). length inFile)") (auto dest: readAndParse_shrinks)

declare pass1.simps [simp del]

section \<open>Second pass: one machine word per line\<close>

text \<open>The operation's bits and its \<open>type\<close>: 1 R, 2 I, 3 J, 4 O, 5 \<open>.fill\<close>.\<close>

definition op_type :: "string \<Rightarrow> (i32 \<times> nat) option" where
  "op_type opc =
     (if opc = ''add'' then Some (ADD, 1)
      else if opc = ''nor'' then Some (NOR, 1)
      else if opc = ''lw'' then Some (LW, 2)
      else if opc = ''sw'' then Some (SW, 2)
      else if opc = ''beq'' then Some (BEQ, 2)
      else if opc = ''jalr'' then Some (JALR, 3)
      else if opc = ''noop'' then Some (NOOP, 4)
      else if opc = ''halt'' then Some (HALT, 4)
      else if opc = ''.fill'' then Some (0, 5)
      else None)"

definition asm_R :: "asm_fields \<Rightarrow> asm_error + i32" where
  "asm_R f =
     (if \<not> isNumber (f_arg0 f) \<or> \<not> isNumber (f_arg1 f) \<or> \<not> isNumber (f_arg2 f)
      then Inl Invalid_R_arg
      else Inr (push_bit 19 (atoi_std (f_arg0 f)) OR push_bit 16 (atoi_std (f_arg1 f)) OR atoi_std (f_arg2 f)))"

definition asm_offset :: "string list \<Rightarrow> i32 \<Rightarrow> i32 \<Rightarrow> asm_fields \<Rightarrow> asm_error + i32" where
  "asm_offset labels op pc f =
     (if isNumber (f_arg2 f) then Inr (atoi_std (f_arg2 f))
      else let offset = find_idx labels (f_arg2 f) (MAXLABEL - 1) in
        if offset = -1 then Inl (No_label (f_arg2 f))
        else if op = BEQ then Inr (word_of_int offset - (pc + 1))
        else Inr (word_of_int offset))"

definition asm_I :: "string list \<Rightarrow> i32 \<Rightarrow> i32 \<Rightarrow> asm_fields \<Rightarrow> asm_error + i32" where
  "asm_I labels op pc f =
     (if \<not> isNumber (f_arg0 f) \<or> \<not> isNumber (f_arg1 f) \<or> f_arg2 f = '''' then Inl Invalid_I_arg
      else case asm_offset labels op pc f of
        Inl e \<Rightarrow> Inl e
      | Inr offset \<Rightarrow>
          if sint offset < -32768 \<or> 32767 < sint offset then Inl Offset_range
          else
            let offset' = (if op = BEQ then offset AND 0x0000FFFF else offset) in
            Inr (push_bit 19 (atoi_std (f_arg0 f)) OR push_bit 16 (atoi_std (f_arg1 f)) OR offset'))"

definition asm_J :: "i32 \<Rightarrow> asm_fields \<Rightarrow> asm_error + i32" where
  "asm_J pc f =
     (if \<not> isNumber (f_arg0 f) \<or> \<not> isNumber (f_arg1 f) \<or> f_arg2 f = '''' then Inl Invalid_J_arg
      else Inr (push_bit 19 (atoi_std (f_arg0 f)) OR push_bit 16 (pc + 1)))"

text \<open>\<open>.fill\<close>: an unknown label prints an error, but the program goes on with -1.\<close>

definition asm_fill :: "string list \<Rightarrow> nat \<Rightarrow> asm_fields \<Rightarrow> i32" where
  "asm_fill labels line f =
     (if isNumber (f_arg0 f) then atoi_std (f_arg0 f)
      else word_of_int (find_idx labels (f_arg0 f) line))"

definition asm_line :: "string list \<Rightarrow> nat \<Rightarrow> asm_fields \<Rightarrow> asm_error + i32" where
  "asm_line labels line f =
     (let pc = (of_nat line :: i32) in
      case op_type (f_opcode f) of
        None \<Rightarrow> Inl Invalid_opcode
      | Some (op, ty) \<Rightarrow>
          (case (if ty = 1 then asm_R f
                 else if ty = 2 then asm_I labels op pc f
                 else if ty = 3 then asm_J pc f
                 else if ty = 4 then Inr 0
                 else Inr (asm_fill labels line f)) of
             Inl e \<Rightarrow> Inl e
           | Inr result \<Rightarrow> Inr (op OR result)))"

function pass2 :: "string list \<Rightarrow> string \<Rightarrow> i32 list \<Rightarrow> asm_error + i32 list" where
  "pass2 labels inFile vm =
     (case readAndParse inFile of
        Eof \<Rightarrow> Inr vm
      | Too_long \<Rightarrow> Inl Line_too_long
      | Read f rest \<Rightarrow>
          (case asm_line labels (length vm) f of
             Inl e \<Rightarrow> Inl e
           | Inr w \<Rightarrow> pass2 labels rest (vm @ [w])))"
  by pat_completeness auto
termination
  by (relation "measure (\<lambda>(labels, inFile, vm). length inFile)") (auto dest: readAndParse_shrinks)

declare pass2.simps [simp del]

text \<open>\<open>main\<close>: both passes (the file is rewound in between), then the words, one per line.\<close>

definition assemble :: "string \<Rightarrow> asm_error + i32 list" where
  "assemble inFile =
     (case pass1 inFile [] of Inl e \<Rightarrow> Inl e | Inr labels \<Rightarrow> pass2 labels inFile [])"

definition write_words :: "i32 list \<Rightarrow> string" where
  "write_words vm = concat (map (\<lambda>w. print_int (sint w) @ [newline]) vm)"

definition assemble_file :: "string \<Rightarrow> asm_error + string" where
  "assemble_file inFile = map_sum id write_words (assemble inFile)"

section \<open>The label table: lookups\<close>

lemma find_idx_from_spec:
  "(find_idx_from ls n i ed = -1 \<and> (\<forall>j. i \<le> j \<and> j < ed \<longrightarrow> label_at ls j \<noteq> n)) \<or>
   (\<exists>k. find_idx_from ls n i ed = int k \<and> i \<le> k \<and> k < ed \<and> label_at ls k = n \<and>
        (\<forall>j. i \<le> j \<and> j < k \<longrightarrow> label_at ls j \<noteq> n))"
proof (induction ls n i ed rule: find_idx_from.induct)
  case (1 ls n i ed)
  show ?case
  proof (cases "i < ed \<and> label_at ls i \<noteq> n")
    case True
    then have eq: "find_idx_from ls n i ed = find_idx_from ls n (Suc i) ed"
      by (simp add: find_idx_from.simps [of ls n i ed])
    have ext: "(\<forall>j. i \<le> j \<and> j < k \<longrightarrow> label_at ls j \<noteq> n) \<longleftrightarrow>
               (\<forall>j. Suc i \<le> j \<and> j < k \<longrightarrow> label_at ls j \<noteq> n)" for k
      using True by (metis Suc_leD le_antisym not_less_eq_eq)
    from 1 True consider "find_idx_from ls n (Suc i) ed = -1"
        "\<forall>j. Suc i \<le> j \<and> j < ed \<longrightarrow> label_at ls j \<noteq> n"
      | k where "find_idx_from ls n (Suc i) ed = int k" "Suc i \<le> k" "k < ed" "label_at ls k = n"
        "\<forall>j. Suc i \<le> j \<and> j < k \<longrightarrow> label_at ls j \<noteq> n"
      by blast
    then show ?thesis
    proof cases
      case 1
      then show ?thesis by (simp add: eq ext)
    next
      case 2
      then show ?thesis by (intro disjI2 exI [of _ k]) (simp add: eq ext)
    qed
  next
    case False
    then show ?thesis by (auto simp: find_idx_from.simps [of ls n i ed])
  qed
qed

lemma find_idx_spec:
  "(find_idx ls n ed = -1 \<and> (\<forall>j < ed. label_at ls j \<noteq> n)) \<or>
   (\<exists>k < ed. find_idx ls n ed = int k \<and> label_at ls k = n \<and> (\<forall>j < k. label_at ls j \<noteq> n))"
  using find_idx_from_spec [of ls n 0 ed] by (auto simp: find_idx_def)

lemma find_idx_eq:
  assumes "k < ed" "label_at ls k = n" "\<forall>j < k. label_at ls j \<noteq> n"
  shows "find_idx ls n ed = int k"
  using find_idx_spec [of ls n ed] assms by (metis nat_neq_iff)

lemma find_idx_absent:
  "(\<And>j. j < ed \<Longrightarrow> label_at ls j \<noteq> n) \<Longrightarrow> find_idx ls n ed = -1"
  using find_idx_spec [of ls n ed] by blast

lemma find_idx_code [code]:
  "find_idx ls n ed =
     (case first_from 0 (\<lambda>l. l = n) (take ed ls) of
        Some k \<Rightarrow> int k
      | None \<Rightarrow> if n = '''' \<and> length ls < ed then int (length ls) else -1)"
proof (cases "first_from 0 (\<lambda>l. l = n) (take ed ls)")
  case (Some k)
  then have "k < length ls" "k < ed" "ls ! k = n" and b: "\<And>j. j < k \<Longrightarrow> take ed ls ! j \<noteq> n"
    using first_from_0 [OF Some] by auto
  then have "find_idx ls n ed = int k"
    by (intro find_idx_eq) (auto simp: label_at_def)
  with Some show ?thesis by simp
next
  case None
  then have "n \<notin> set (take ed ls)" by (auto simp: first_from_None)
  then have no: "\<And>j. j < ed \<Longrightarrow> j < length ls \<Longrightarrow> ls ! j \<noteq> n"
    by (metis in_set_conv_nth length_take min_less_iff_conj nth_take)
  show ?thesis
  proof (cases "n = '''' \<and> length ls < ed")
    case True
    then have "find_idx ls n ed = int (length ls)"
      using no by (intro find_idx_eq) (auto simp: label_at_def)
    with None True show ?thesis by simp
  next
    case False
    then have "find_idx ls n ed = -1"
      using no by (intro find_idx_absent) (auto simp: label_at_def)
    with None False show ?thesis by simp
  qed
qed

text \<open>What the first pass guarantees of the table: labels are unique and short.\<close>

definition labels_ok :: "string list \<Rightarrow> bool" where
  "labels_ok ls = (distinct (filter (\<lambda>l. l \<noteq> '''') ls) \<and> (\<forall>l \<in> set ls. length l \<le> 6))"

lemma labels_ok_Nil [simp]: "labels_ok []"
  by (simp add: labels_ok_def)

lemma labels_ok_snoc:
  "labels_ok (ls @ [l]) \<longleftrightarrow> labels_ok ls \<and> length l \<le> 6 \<and> (l = '''' \<or> l \<notin> set ls)"
  by (auto simp: labels_ok_def)

lemma labels_ok_append: "labels_ok (ls @ ms) \<Longrightarrow> labels_ok ls"
  by (auto simp: labels_ok_def)

lemma labels_ok_nth_eq:
  "labels_ok ls \<Longrightarrow> i < length ls \<Longrightarrow> j < length ls \<Longrightarrow> ls ! i = ls ! j \<Longrightarrow> ls ! i \<noteq> '''' \<Longrightarrow> i = j"
proof (induction ls arbitrary: i j rule: rev_induct)
  case Nil
  then show ?case by simp
next
  case (snoc l ls)
  then have ok: "labels_ok ls" and new: "l = '''' \<or> l \<notin> set ls"
    by (auto simp: labels_ok_snoc)
  have "i < length ls \<Longrightarrow> j < length ls \<Longrightarrow> i = j"
    using snoc.IH [OF ok, of i j] snoc.prems by (simp add: nth_append)
  with snoc.prems new show ?case
    by (cases "i < length ls"; cases "j < length ls") (auto simp: nth_append)
qed

lemma find_idx_label:
  assumes "labels_ok ls" "i < length ls" "i < ed" "ls ! i \<noteq> ''''"
  shows "find_idx ls (ls ! i) ed = int i"
proof (rule find_idx_eq)
  show "\<forall>j < i. label_at ls j \<noteq> ls ! i"
    using assms by (metis label_at_def labels_ok_nth_eq less_irrefl less_trans)
qed (use assms in \<open>auto simp: label_at_def\<close>)

lemma find_idx_fresh:
  assumes "n \<noteq> ''''" "length ls \<le> ed"
  shows "find_idx ls n ed = -1 \<longleftrightarrow> n \<notin> set ls"
  using find_idx_spec [of ls n ed] assms
  by (auto simp: label_at_def in_set_conv_nth split: if_splits)

section \<open>Both passes against a specification\<close>

text \<open>The lines of a file, parsed; \<open>None\<close> if some line is too long.\<close>

function read_all :: "string \<Rightarrow> asm_fields list option" where
  "read_all inFile =
     (case readAndParse inFile of
        Eof \<Rightarrow> Some []
      | Too_long \<Rightarrow> None
      | Read f rest \<Rightarrow> map_option ((#) f) (read_all rest))"
  by pat_completeness auto
termination
  by (relation "measure length") (auto dest: readAndParse_shrinks)

declare read_all.simps [simp del]

lemma pass1_None: "read_all s = None \<Longrightarrow> pass1 s ls \<noteq> Inr ls'"
proof (induction s ls rule: pass1.induct)
  case (1 s ls)
  then show ?case
    by (subst pass1.simps, simp only: read_all.simps [of s])
      (auto split: read_result.splits)
qed

lemma pass1_spec:
  "read_all s = Some fs \<Longrightarrow> length ls + length fs \<le> MAXLABEL - 1 \<Longrightarrow> labels_ok ls \<Longrightarrow>
   pass1 s ls = Inr ls' \<longleftrightarrow> ls' = ls @ map f_label fs \<and> labels_ok (ls @ map f_label fs)"
proof (induction s ls arbitrary: fs rule: pass1.induct)
  case (1 s ls)
  show ?case
  proof (cases "readAndParse s")
    case Eof
    with 1 show ?thesis
      by (auto simp: pass1.simps [of s ls] read_all.simps [of s])
  next
    case Too_long
    with 1 show ?thesis by (simp add: read_all.simps [of s])
  next
    case (Read f r)
    with "1.prems"(1) obtain gs where gs: "read_all r = Some gs" "fs = f # gs"
      by (auto simp: read_all.simps [of s])
    let ?l = "f_label f"
    have fresh: "?l \<noteq> '''' \<Longrightarrow> find_idx ls ?l (MAXLABEL - 1) = -1 \<longleftrightarrow> ?l \<notin> set ls"
      using "1.prems"(2) gs by (intro find_idx_fresh) auto
    show ?thesis
    proof (cases "labels_ok (ls @ [?l])")
      case True
      then have step: "pass1 s ls = pass1 r (ls @ [?l])"
        using Read fresh by (auto simp: pass1.simps [of s ls] labels_ok_snoc)
      have IH: "pass1 r (ls @ [?l]) = Inr ls' \<longleftrightarrow>
          ls' = (ls @ [?l]) @ map f_label gs \<and> labels_ok ((ls @ [?l]) @ map f_label gs)"
        using "1.IH" Read gs "1.prems"(2) True fresh
        by (cases "?l = ''''") (auto simp: labels_ok_snoc)
      show ?thesis unfolding step IH using gs by simp
    next
      case False
      then have "pass1 s ls \<noteq> Inr ls'"
        using Read fresh "1.prems"(3) by (auto simp: pass1.simps [of s ls] labels_ok_snoc)
      moreover have "\<not> labels_ok (ls @ map f_label fs)"
        using False labels_ok_append [of "ls @ [?l]" "map f_label gs"] gs by auto
      ultimately show ?thesis by simp
    qed
  qed
qed

lemma pass2_spec:
  "read_all s = Some fs \<Longrightarrow>
   pass2 L s vm = Inr vm' \<longleftrightarrow>
     (\<exists>ws. vm' = vm @ ws \<and> length ws = length fs \<and>
        (\<forall>i < length fs. asm_line L (length vm + i) (fs ! i) = Inr (ws ! i)))"
proof (induction L s vm arbitrary: fs rule: pass2.induct)
  case (1 L s vm)
  show ?case
  proof (cases "readAndParse s")
    case Eof
    with 1 show ?thesis by (auto simp: pass2.simps [of L s] read_all.simps [of s])
  next
    case Too_long
    with 1 show ?thesis by (simp add: read_all.simps [of s])
  next
    case (Read f r)
    with "1.prems" obtain gs where gs: "read_all r = Some gs" "fs = f # gs"
      by (auto simp: read_all.simps [of s])
    show ?thesis
    proof (cases "asm_line L (length vm) f")
      case (Inl e)
      then show ?thesis using Read gs by (auto simp: pass2.simps [of L s])
    next
      case (Inr w)
      have step: "pass2 L s vm = pass2 L r (vm @ [w])"
        using Read Inr by (simp add: pass2.simps [of L s])
      have IH: "pass2 L r (vm @ [w]) = Inr vm' \<longleftrightarrow>
        (\<exists>ws. vm' = (vm @ [w]) @ ws \<and> length ws = length gs \<and>
          (\<forall>i < length gs. asm_line L (length (vm @ [w]) + i) (gs ! i) = Inr (ws ! i)))"
        by (rule "1.IH" [OF Read Inr gs(1)])
      show ?thesis unfolding step IH gs(2) using Inr
        by (simp add: ex_append_Suc [where Q = "\<lambda>i w. asm_line L (length vm + i) ((f # gs) ! i) = Inr w"])
    qed
  qed
qed

lemma assemble_iff:
  assumes "read_all inFile = Some fs" "length fs \<le> MAXLABEL - 1"
  shows "assemble inFile = Inr vm \<longleftrightarrow>
    labels_ok (map f_label fs) \<and> length vm = length fs \<and>
    (\<forall>i < length fs. asm_line (map f_label fs) i (fs ! i) = Inr (vm ! i))"
proof -
  have p1: "pass1 inFile [] = Inr ls \<longleftrightarrow> ls = map f_label fs \<and> labels_ok (map f_label fs)" for ls
    using pass1_spec [OF assms(1), of "[]"] assms(2) by simp
  have p2: "pass2 (map f_label fs) inFile [] = Inr vm \<longleftrightarrow>
    length vm = length fs \<and> (\<forall>i < length fs. asm_line (map f_label fs) i (fs ! i) = Inr (vm ! i))"
    using pass2_spec [OF assms(1), of "map f_label fs" "[]"] by simp
  show ?thesis
  proof (cases "pass1 inFile []")
    case (Inl e)
    with p1 have "\<not> labels_ok (map f_label fs)" by auto
    with Inl show ?thesis by (simp add: assemble_def)
  next
    case (Inr ls)
    with p1 [of ls] p2 show ?thesis by (auto simp: assemble_def)
  qed
qed

text \<open>C22: assembling a file succeeds exactly when every label is short and unique and every line
  translates against the complete label table; the output then holds the translation of line
  \<open>i\<close> at address \<open>i\<close>. The two file-reading loops of \<open>main\<close> compute this.\<close>

theorem assemble_correct:
  assumes "read_all inFile = Some fs" "length fs \<le> MAXLABEL - 1"
  shows "assemble inFile = Inr vm \<longleftrightarrow>
    labels_ok (map f_label fs) \<and> length vm = length fs \<and>
    (\<forall>i < length fs. asm_line (map f_label fs) i (fs ! i) = Inr (vm ! i))"
  by (rule assemble_iff [OF assms])

text \<open>The definitions a concrete line is evaluated with.\<close>

lemmas asm_eval = asm_line_def op_type_def asm_R_def asm_I_def asm_J_def asm_fill_def asm_offset_def
  isNumber_def atoi_std_def sscanf_d_def find_idx_code MAXLABEL_def op_defs

text \<open>A two-line program: \<open>lw\<close> of a labelled word, and the word.\<close>

definition demo_file :: string where
  "demo_file = '' lw 0 1 n'' @ newline # ''n .fill -7'' @ [newline]"

lemma demo_read:
  "read_all demo_file =
    Some [\<lparr>f_label = '''', f_opcode = ''lw'', f_arg0 = ''0'', f_arg1 = ''1'', f_arg2 = ''n''\<rparr>,
          \<lparr>f_label = ''n'', f_opcode = ''.fill'', f_arg0 = ''-7'', f_arg1 = '''', f_arg2 = ''''\<rparr>]"
  by code_simp

lemma demo_lines:
  "asm_line ['''', ''n''] 0
     \<lparr>f_label = '''', f_opcode = ''lw'', f_arg0 = ''0'', f_arg1 = ''1'', f_arg2 = ''n''\<rparr> = Inr 8454145"
  "asm_line ['''', ''n''] (Suc 0)
     \<lparr>f_label = ''n'', f_opcode = ''.fill'', f_arg0 = ''-7'', f_arg1 = '''', f_arg2 = ''''\<rparr> = Inr (-7)"
proof -
  have n: "scan_int ''0'' = Some 0" "scan_int ''1'' = Some 1" "scan_int ''n'' = None"
    "scan_int ''-7'' = Some (-7)" by code_simp+
  show "asm_line ['''', ''n''] 0
     \<lparr>f_label = '''', f_opcode = ''lw'', f_arg0 = ''0'', f_arg1 = ''1'', f_arg2 = ''n''\<rparr> = Inr 8454145"
    by (simp add: asm_eval n long_to_int_def)
  show "asm_line ['''', ''n''] (Suc 0)
     \<lparr>f_label = ''n'', f_opcode = ''.fill'', f_arg0 = ''-7'', f_arg1 = '''', f_arg2 = ''''\<rparr> = Inr (-7)"
    by (simp add: asm_eval n long_to_int_def)
qed

lemma demo_assembles: "assemble demo_file = Inr [8454145, -7]"
  by (subst assemble_iff [OF demo_read])
    (simp_all add: labels_ok_def All_less_Suc2 demo_lines MAXLABEL_def)

theorem assemble_correct_witness: "assemble demo_file = Inr [8454145, -7]"
  by (subst assemble_correct [OF demo_read])
    (simp_all add: labels_ok_def All_less_Suc2 demo_lines MAXLABEL_def)

text \<open>A file with a line of 999 characters or more is refused.\<close>

lemma assemble_too_long: "read_all inFile = None \<Longrightarrow> assemble inFile \<noteq> Inr vm"
  using pass1_None [of inFile "[]"] by (auto simp: assemble_def split: sum.splits)

section \<open>A written line is read back\<close>

definition token :: "string \<Rightarrow> bool" where
  "token t = (t \<noteq> [] \<and> (\<forall>c \<in> set t. \<not> is_ws c))"

definition print_line :: "asm_fields \<Rightarrow> string" where
  "print_line f = f_label f @ tab # f_opcode f @ tab # f_arg0 f @ tab # f_arg1 f @ tab # f_arg2 f"

lemma is_ws_simps [simp]: "is_ws tab" "is_ws newline"
  by (simp_all add: is_ws_def)

lemma token_newline: "token t \<Longrightarrow> newline \<notin> set t"
  by (metis is_ws_simps(2) token_def)

lemma takeWhile_token: "\<forall>c \<in> set t. \<not> is_ws c \<Longrightarrow> is_ws w \<Longrightarrow> takeWhile (\<lambda>c. \<not> is_ws c) (t @ w # r) = t"
  and dropWhile_token: "\<forall>c \<in> set t. \<not> is_ws c \<Longrightarrow> is_ws w \<Longrightarrow> dropWhile (\<lambda>c. \<not> is_ws c) (t @ w # r) = w # r"
  by (simp_all add: takeWhile_append2 dropWhile_append2)

lemma scan_token_step:
  assumes "token t" "is_ws w"
  shows "scan_tokens (Suc k) (tab # t @ w # r) = t # scan_tokens k (w # r)"
proof -
  obtain c cs where t: "t = c # cs" "\<not> is_ws c" using assms(1) by (cases t) (auto simp: token_def)
  have drop: "dropWhile is_ws (tab # t @ w # r) = t @ w # r" using t by simp
  show ?thesis
    using assms by (simp only: scan_tokens.simps Let_def drop)
      (simp add: takeWhile_token dropWhile_token token_def)
qed

lemma parse_print_line:
  assumes "\<forall>c \<in> set (f_label f). \<not> is_ws c" "token (f_opcode f)" "token (f_arg0 f)"
    "token (f_arg1 f)" "token (f_arg2 f)"
  shows "parse_line (print_line f @ [newline]) = f"
proof -
  have "scan_tokens 4 (tab # f_opcode f @ tab # f_arg0 f @ tab # f_arg1 f @ tab # f_arg2 f @ [newline])
    = [f_opcode f, f_arg0 f, f_arg1 f, f_arg2 f]"
    using assms(2-)
    by (simp add: numeral_eq_Suc scan_token_step scan_tokens.simps(1) del: scan_tokens.simps(2))
  moreover have "takeWhile (\<lambda>c. \<not> is_ws c) (print_line f @ [newline]) = f_label f"
    using assms(1) by (simp add: print_line_def takeWhile_token)
  ultimately show ?thesis
    by (simp add: parse_line_def Let_def nth_tok_def print_line_def)
qed

text \<open>C37: \<open>readAndParse\<close> returns exactly the five fields of a written line, and leaves the rest of
  the file.\<close>

theorem readAndParse_print_line:
  assumes "\<forall>c \<in> set (f_label f). \<not> is_ws c" "token (f_opcode f)" "token (f_arg0 f)"
    "token (f_arg1 f)" "token (f_arg2 f)" "length (print_line f) < 999"
  shows "readAndParse (print_line f @ newline # rest) = Read f rest"
proof -
  have "newline \<notin> set (f_label f)" using assms(1) by (metis is_ws_simps(2))
  with assms(2-5) have nl: "newline \<notin> set (print_line f)"
    by (simp add: print_line_def token_newline)
  have "fgets MAXLINELENGTH (print_line f @ newline # rest) = Some (print_line f @ [newline], rest)"
    using nl assms(6) by (intro fgets_append) (auto simp: MAXLINELENGTH_def)
  then show ?thesis
    using parse_print_line [OF assms(1-5)] by (simp add: readAndParse_def)
qed

theorem readAndParse_print_line_witness:
  "readAndParse (print_line \<lparr>f_label = ''go'', f_opcode = ''add'', f_arg0 = ''1'', f_arg1 = ''2'',
      f_arg2 = ''3''\<rparr> @ newline # ''x'') =
    Read \<lparr>f_label = ''go'', f_opcode = ''add'', f_arg0 = ''1'', f_arg1 = ''2'', f_arg2 = ''3''\<rparr> ''x''"
  by (rule readAndParse_print_line) code_simp+

end
