(* ===== verification/Lc2k_Fields.thy ===== *)
theory Lc2k_Fields
  imports Prelude
begin

text \<open>
  The layout of an LC-2K machine word, shared by the assembler, the simulator and the pipeline:
  operation in bits 24..22, two registers in bits 21..19 and 18..16, a 16-bit field below.
  \<open>packed\<close> is the layout as a word; the lemmas read each field back, with the C shifts and masks
  the tools use (\<open>>>\<close> on \<open>int\<close> is the arithmetic shift \<open>signed_drop_bit\<close>).
\<close>

definition packed :: "i32 \<Rightarrow> i32 \<Rightarrow> i32 \<Rightarrow> i32 \<Rightarrow> i32" where
  "packed opc a b x = push_bit 22 opc OR (push_bit 19 a OR push_bit 16 b OR x)"

definition fields_ok :: "i32 \<Rightarrow> i32 \<Rightarrow> i32 \<Rightarrow> i32 \<Rightarrow> bool" where
  "fields_ok opc a b x = (opc < 8 \<and> a < 8 \<and> b < 8 \<and> x < 65536)"

lemma seven_mask: "(7 :: i32) = mask 3" and ffff_mask: "(0xFFFF :: i32) = mask 16"
  by (simp_all add: mask_eq_exp_minus_1)

lemma bit_below: "(w :: i32) < 2 ^ k \<Longrightarrow> k < 32 \<Longrightarrow> bit w n \<Longrightarrow> n < k"
  by (metis bit_take_bit_iff less_mask_eq mask_eq_iff_w2p take_bit_eq_mask word_size)

lemma bit_field3: "(w :: i32) < 8 \<Longrightarrow> bit w n \<Longrightarrow> n < 3"
  using bit_below [of w 3 n] by simp

lemma bit_field16: "(w :: i32) < 65536 \<Longrightarrow> bit w n \<Longrightarrow> n < 16"
  using bit_below [of w 16 n] by simp

lemma signed_shift_and_mask:
  "n + m \<le> 32 \<Longrightarrow> signed_drop_bit n (w :: i32) AND mask m = drop_bit n w AND mask m"
  by (intro bit_word_eqI) (auto simp: bit_simps)


lemma packed_opcode:
  assumes "fields_ok opc a b x"
  shows "signed_drop_bit 22 (packed opc a b x) AND 7 = opc"
proof -
  have "drop_bit 22 (packed opc a b x) AND mask 3 = opc"
    using assms unfolding fields_ok_def packed_def
    by (intro bit_word_eqI) (auto simp: bit_simps dest: bit_field3 bit_field16)
  then show ?thesis by (simp add: seven_mask signed_shift_and_mask)
qed

lemma packed_r1:
  assumes "fields_ok opc a b x"
  shows "signed_drop_bit 19 (packed opc a b x) AND 7 = a"
proof -
  have "drop_bit 19 (packed opc a b x) AND mask 3 = a"
    using assms unfolding fields_ok_def packed_def
    by (intro bit_word_eqI) (auto simp: bit_simps dest: bit_field3 bit_field16)
  then show ?thesis by (simp add: seven_mask signed_shift_and_mask)
qed

lemma packed_r2:
  assumes "fields_ok opc a b x"
  shows "signed_drop_bit 16 (packed opc a b x) AND 7 = b"
proof -
  have "drop_bit 16 (packed opc a b x) AND mask 3 = b"
    using assms unfolding fields_ok_def packed_def
    by (intro bit_word_eqI) (auto simp: bit_simps dest: bit_field3 bit_field16)
  then show ?thesis by (simp add: seven_mask signed_shift_and_mask)
qed

lemma packed_offset:
  assumes "fields_ok opc a b x"
  shows "packed opc a b x AND 0xFFFF = x"
  using assms unfolding fields_ok_def packed_def ffff_mask
  by (intro bit_word_eqI) (auto simp: bit_simps dest: bit_field3 bit_field16)

lemma packed_dest:
  assumes "fields_ok opc a b x" "x < 8"
  shows "packed opc a b x AND 7 = x"
  using assms unfolding fields_ok_def packed_def seven_mask
  by (intro bit_word_eqI) (auto simp: bit_simps dest: bit_field3 bit_field16)

text \<open>Bits 31..25 are zero, so the arithmetic shift alone reads the operation.\<close>

lemma packed_shift22:
  assumes "fields_ok opc a b x"
  shows "signed_drop_bit 22 (packed opc a b x) = opc"
  using assms unfolding fields_ok_def packed_def
  by (intro bit_word_eqI) (auto simp: bit_simps dest: bit_field3 bit_field16)

lemma field_and_7: "fields_ok opc a b x \<Longrightarrow> opc AND 7 = opc"
  unfolding fields_ok_def seven_mask by (intro less_mask_eq) simp

lemmas packed_fields = field_and_7 packed_opcode packed_r1 packed_r2 packed_offset packed_dest packed_shift22

declare packed_fields [fld_simps]

section \<open>Sign extension of the 16-bit field\<close>

text \<open>\<open>convertNum\<close>, the same function in \<open>project1/simulator.c\<close> and \<open>project2/simulator.c\<close>.\<close>

definition convertNum :: "i32 \<Rightarrow> i32" where
  "convertNum num = (if num AND push_bit 15 1 \<noteq> 0 then num - push_bit 16 1 else num)"

lemma and_bit15: "num AND push_bit 15 (1 :: i32) \<noteq> 0 \<longleftrightarrow> bit num 15"
  by (simp only: bit_iff_and_push_bit_not_eq_0)

lemma convertNum_bit15: "convertNum num = (if bit num 15 then num - 65536 else num)"
  unfolding convertNum_def and_bit15 by simp

lemma convertNum_signed_take_bit:
  assumes "num < 65536"
  shows "convertNum num = signed_take_bit 15 num"
proof -
  have "take_bit 16 num = num"
    using assms less_mask_eq [of num 16] by (simp add: take_bit_eq_mask)
  then show ?thesis
    by (simp add: convertNum_bit15 signed_take_bit_code [of 15 num] Let_def
        mask_eq_exp_minus_1 minus_exp_eq_not_mask flip: ffff_mask)
qed

lemma signed_take_bit_id:
  assumes "-32768 \<le> sint (w :: i32)" "sint w \<le> 32767"
  shows "signed_take_bit 15 w = w"
proof -
  have "signed_take_bit 15 (word_of_int (sint w) :: i32) = word_of_int (signed_take_bit 15 (sint w))"
    by (rule signed_take_bit_of_int)
  also have "signed_take_bit 15 (sint w) = sint w"
    using assms by (intro signed_take_bit_int_eq_self) auto
  finally show ?thesis by simp
qed

lemma field16_range: "(w :: i32) AND 0xFFFF < 65536"
  using and_mask_less' [of 16 w] by (simp add: ffff_mask)

text \<open>Clearing the upper half and sign-extending again gives the number back.\<close>

lemma convertNum_field:
  assumes "-32768 \<le> sint (w :: i32)" "sint w \<le> 32767"
  shows "convertNum (w AND 0xFFFF) = w"
proof -
  have w16: "w AND 0xFFFF = take_bit 16 w" by (simp only: ffff_mask take_bit_eq_mask)
  have "take_bit 16 w < 65536" using field16_range [of w] unfolding w16 .
  then show ?thesis
    by (simp add: w16 convertNum_signed_take_bit signed_take_bit_take_bit signed_take_bit_id [OF assms])
qed

end
