(* ===== verification/Simulator.thy ===== *)
theory Simulator
  imports Assembler Lc2k_Fields
begin

text \<open>
  The LC-2K instruction-level simulator, \<open>computer architecture/project1/simulator.c\<close>:
  loading the machine-code file (\<open>load_mem\<close>), the decoder \<open>cvt\<close>, one turn of the \<open>switch\<close>
  (\<open>exec_instr\<close>) and the main loop (\<open>run\<close>). An array access outside \<open>mem\<close> or \<open>reg\<close>, which C
  leaves undefined, is the value \<open>None\<close>. The words of \<open>mem\<close> the file does not set are whatever
  the stack held, a parameter. A run is the sequence of the states \<open>printState\<close> is called on.
\<close>

definition NUMMEMORY :: nat where "NUMMEMORY = 65536"
definition NUMREGS :: nat where "NUMREGS = 8"

record decoded =
  opcode :: i32
  r1 :: i32
  r2 :: i32
  rd :: i32
  offset :: i32

definition cvt :: "i32 \<Rightarrow> decoded" where
  "cvt mc = \<lparr>opcode = signed_drop_bit 22 mc AND 7, r1 = signed_drop_bit 19 mc AND 7,
             r2 = signed_drop_bit 16 mc AND 7, rd = mc AND 7, offset = mc AND 0xFFFF\<rparr>"

record stateType =
  pc :: i32
  mem :: "nat \<Rightarrow> i32"
  reg :: "nat \<Rightarrow> i32"
  numMemory :: nat

section \<open>What is printed\<close>

definition print_d :: "i32 \<Rightarrow> string" where
  "print_d w = print_int (sint w)"

definition array_line :: "string \<Rightarrow> nat \<Rightarrow> i32 \<Rightarrow> string" where
  "array_line name i v =
     [tab, tab] @ name @ ''[ '' @ print_int (int i) @ '' ] '' @ print_d v @ [newline]"

definition printState :: "stateType \<Rightarrow> string" where
  "printState s =
     [newline] @ ''@@@'' @ [newline] @ ''state:'' @ [newline] @
     [tab] @ ''pc '' @ print_d (pc s) @ [newline] @
     [tab] @ ''memory:'' @ [newline] @
     concat (map (\<lambda>i. array_line ''mem'' i (mem s i)) [0..<numMemory s]) @
     [tab] @ ''registers:'' @ [newline] @
     concat (map (\<lambda>i. array_line ''reg'' i (reg s i)) [0..<NUMREGS]) @
     ''end state'' @ [newline]"

section \<open>Loading the machine-code file\<close>

datatype load_error = Read_error nat | Mem_overflow

function load_mem :: "string \<Rightarrow> i32 list \<Rightarrow> load_error + i32 list" where
  "load_mem inFile acc =
     (case fgets MAXLINELENGTH inFile of
        None \<Rightarrow> Inr acc
      | Some (line, rest) \<Rightarrow>
          if NUMMEMORY \<le> length acc then Inl Mem_overflow
          else case sscanf_d line of
            None \<Rightarrow> Inl (Read_error (length acc))
          | Some w \<Rightarrow> load_mem rest (acc @ [w]))"
  by pat_completeness auto
termination
  by (relation "measure (\<lambda>(inFile, acc). length inFile)")
    (auto dest: fgets_shrinks simp: MAXLINELENGTH_def)

declare load_mem.simps [simp del]

section \<open>One instruction\<close>

definition mem_ok :: "i32 \<Rightarrow> bool" where
  "mem_ok i = (0 \<le> sint i \<and> sint i < int NUMMEMORY)"

definition reg_ok :: "i32 \<Rightarrow> bool" where
  "reg_ok i = (0 \<le> sint i \<and> sint i < int NUMREGS)"

definition get_reg :: "stateType \<Rightarrow> i32 \<Rightarrow> i32" where
  "get_reg s i = reg s (unat i)"

definition set_reg :: "stateType \<Rightarrow> i32 \<Rightarrow> i32 \<Rightarrow> stateType" where
  "set_reg s i v = s\<lparr>reg := (reg s)(unat i := v)\<rparr>"

text \<open>The body of the \<open>switch\<close>: the new state and the flag \<open>ex\<close>. The operation has three bits,
  so the \<open>default\<close> branch is only reached for a number that is none of the eight.\<close>

definition exec_instr :: "stateType \<Rightarrow> (stateType \<times> bool) option" where
  "exec_instr s =
     (let d = cvt (mem s (unat (pc s))); a = get_reg s (r1 d); b = get_reg s (r2 d) in
      if opcode d = 0 then Some (set_reg s (rd d) (a + b), False)
      else if opcode d = 1 then Some (set_reg s (rd d) (NOT (a OR b)), False)
      else if opcode d = 2 then
        (let i = convertNum (a + offset d) in
         if mem_ok i then Some (set_reg s (r2 d) (mem s (unat i)), False) else None)
      else if opcode d = 3 then
        (let i = convertNum (a + offset d) in
         if reg_ok i then Some (set_reg s i b, False) else None)
      else if opcode d = 4 then
        Some (if a = b then s\<lparr>pc := pc s + convertNum (offset d)\<rparr> else s, False)
      else if opcode d = 5 then
        (let s' = set_reg s (r2 d) (pc s + 1) in
         Some (s'\<lparr>pc := get_reg s' (r1 d) - 1\<rparr>, False))
      else if opcode d = 6 then Some (s\<lparr>pc := pc s + 1\<rparr>, True)
      else Some (s, False))"

section \<open>The main loop\<close>

datatype run_status = Exited | Undefined | Out_of_fuel

text \<open>\<open>run fuel endline s\<close>: the states printed, in order, and how the run ended. \<open>HALT\<close> prints
  the state it leaves before the final increment of \<open>pc\<close>.\<close>

fun run :: "nat \<Rightarrow> i32 \<Rightarrow> stateType \<Rightarrow> stateType list \<times> run_status" where
  "run 0 endline s = ([], Out_of_fuel)"
| "run (Suc fuel) endline s =
     (if sint endline < sint (pc s) then ([s], Exited)
      else if \<not> mem_ok (pc s) then ([s], Undefined)
      else case exec_instr s of
        None \<Rightarrow> ([s], Undefined)
      | Some (s', ex) \<Rightarrow>
          if ex then ([s, s'], Exited)
          else let (tr, st) = run fuel endline (s'\<lparr>pc := pc s' + 1\<rparr>) in (s # tr, st))"

definition init_state :: "(nat \<Rightarrow> i32) \<Rightarrow> i32 list \<Rightarrow> stateType" where
  "init_state junk ws =
     \<lparr>pc = 0, mem = (\<lambda>i. if i < length ws then ws ! i else junk i), reg = (\<lambda>_. 0),
      numMemory = length ws\<rparr>"

definition simulate :: "(nat \<Rightarrow> i32) \<Rightarrow> nat \<Rightarrow> string \<Rightarrow> load_error + stateType list \<times> run_status" where
  "simulate junk fuel inFile =
     (case load_mem inFile [] of
        Inl e \<Rightarrow> Inl e
      | Inr ws \<Rightarrow> Inr (run fuel (of_nat (length ws - 1)) (init_state junk ws)))"

section \<open>Loading what the assembler wrote\<close>

lemma load_write_words:
  "length acc + length ws \<le> NUMMEMORY \<Longrightarrow> load_mem (write_words ws) acc = Inr (acc @ ws)"
proof (induction ws arbitrary: acc)
  case Nil
  then show ?case by (simp add: write_words_def load_mem.simps)
next
  case (Cons w ws)
  have "fgets MAXLINELENGTH (print_int (sint w) @ newline # write_words ws)
      = Some (print_int (sint w) @ [newline], write_words ws)"
    using length_print_int [of w]
    by (intro fgets_append) (auto simp: newline_not_in_print_int MAXLINELENGTH_def)
  moreover have "write_words (w # ws) = print_int (sint w) @ newline # write_words ws"
    by (simp add: write_words_def)
  ultimately show ?case
    using Cons sscanf_print [of w "[]"] by (subst load_mem.simps) simp
qed

text \<open>C28: the simulator loads exactly the words the assembler produced.\<close>

theorem load_assembled:
  assumes "assemble inFile = Inr vm" "length vm \<le> NUMMEMORY"
  shows "\<exists>out. assemble_file inFile = Inr out \<and> load_mem out [] = Inr vm"
  using assms load_write_words [of "[]" vm] by (simp add: assemble_file_def)

theorem load_assembled_witness:
  "\<exists>out. assemble_file demo_file = Inr out \<and> load_mem out [] = Inr [8454145, -7]"
  by (rule load_assembled [OF demo_assembles]) (simp add: NUMMEMORY_def)

section \<open>Decoding what the assembler encoded\<close>

text \<open>A numeric argument as the assembly file writes it.\<close>

definition num_arg :: "string \<Rightarrow> i32 \<Rightarrow> bool" where
  "num_arg s w = (sscanf_d s = Some w)"

lemma num_arg_simps:
  "num_arg s w \<Longrightarrow> isNumber s" "num_arg s w \<Longrightarrow> atoi_std s = w" "num_arg s w \<Longrightarrow> s \<noteq> ''''"
  by (auto simp: num_arg_def isNumber_def atoi_std_def sscanf_d_def)

lemma cvt_packed:
  "fields_ok opc a b x \<Longrightarrow> x < 8 \<Longrightarrow>
     cvt (packed opc a b x) = \<lparr>opcode = opc, r1 = a, r2 = b, rd = x, offset = x\<rparr>"
  by (simp add: cvt_def fld_simps)

lemma cvt_packed_sel:
  assumes "fields_ok opc a b x"
  shows "opcode (cvt (packed opc a b x)) = opc" "r1 (cvt (packed opc a b x)) = a"
    "r2 (cvt (packed opc a b x)) = b" "offset (cvt (packed opc a b x)) = x"
  using assms by (simp_all add: cvt_def fld_simps)

lemma op_packed:
  "ADD OR w = push_bit 22 0 OR w" "NOR OR w = push_bit 22 1 OR w" "LW OR w = push_bit 22 2 OR w"
  "SW OR w = push_bit 22 3 OR w" "BEQ OR w = push_bit 22 4 OR w" "JALR OR w = push_bit 22 5 OR w"
  "HALT OR w = push_bit 22 6 OR w" "NOOP OR w = push_bit 22 7 OR w"
  by (simp_all add: op_defs)

lemma asm_R_packed:
  assumes "op_type (f_opcode f) = Some (push_bit 22 opc, 1)"
    and "num_arg (f_arg0 f) a" "num_arg (f_arg1 f) b" "num_arg (f_arg2 f) d"
  shows "asm_line labels line f = Inr (packed opc a b d)"
  using assms by (simp add: asm_line_def asm_R_def num_arg_simps packed_def or.assoc)

text \<open>An R-type line with registers below 8 decodes to its operation and its registers.\<close>

theorem r_type_decodes:
  assumes "f_opcode f = (if nor then ''nor'' else ''add'')"
    and "num_arg (f_arg0 f) a" "num_arg (f_arg1 f) b" "num_arg (f_arg2 f) d"
    and "a < 8" "b < 8" "d < 8"
  shows "\<exists>w. asm_line labels line f = Inr w \<and>
    opcode (cvt w) = (if nor then 1 else 0) \<and> r1 (cvt w) = a \<and> r2 (cvt w) = b \<and> rd (cvt w) = d"
proof -
  let ?o = "(if nor then 1 else 0) :: i32"
  have "op_type (f_opcode f) = Some (push_bit 22 ?o, 1)"
    using assms(1) by (simp add: op_type_def op_defs)
  note asm = asm_R_packed [OF this assms(2-4)]
  have ok: "fields_ok ?o a b d"
    using assms(5-7) by (auto simp: fields_ok_def unat_arith_simps)
  show ?thesis
    using cvt_packed [OF ok assms(7)] asm by auto
qed

theorem r_type_decodes_witness:
  "\<exists>w. asm_line [] 0 \<lparr>f_label = '''', f_opcode = ''nor'', f_arg0 = ''1'', f_arg1 = ''2'',
      f_arg2 = ''3''\<rparr> = Inr w \<and>
    opcode (cvt w) = 1 \<and> r1 (cvt w) = 1 \<and> r2 (cvt w) = 2 \<and> rd (cvt w) = 3"
proof -
  have n: "num_arg ''1'' 1" "num_arg ''2'' 2" "num_arg ''3'' 3" by code_simp+
  show ?thesis
    using r_type_decodes [of "\<lparr>f_label = '''', f_opcode = ''nor'', f_arg0 = ''1'', f_arg1 = ''2'',
      f_arg2 = ''3''\<rparr>" True 1 2 3 "[]" 0] n by simp
qed

lemma asm_beq_packed:
  assumes "asm_line labels line f = Inr w" "f_opcode f = ''beq''"
    and "num_arg (f_arg0 f) a" "num_arg (f_arg1 f) b" "\<not> isNumber (f_arg2 f)"
    and "find_idx labels (f_arg2 f) (MAXLABEL - 1) = int t"
  shows "\<exists>off. off = of_nat t - (of_nat line + 1) \<and> -32768 \<le> sint off \<and> sint off \<le> 32767 \<and>
    w = packed 4 a b (off AND 0xFFFF)"
  using assms
  by (auto simp: asm_line_def op_type_def asm_I_def asm_offset_def num_arg_simps packed_def Let_def
      BEQ_def split: if_splits)

lemma exec_beq:
  assumes "mem s (unat (pc s)) = packed 4 a b (off AND 0xFFFF)" "a < 8" "b < 8"
    and "-32768 \<le> sint off" "sint off \<le> 32767"
  shows "exec_instr s =
    Some (if get_reg s a = get_reg s b then s\<lparr>pc := pc s + off\<rparr> else s, False)"
proof -
  have ok: "fields_ok 4 a b (off AND 0xFFFF)"
    using assms(2,3) field16_range [of off] by (simp add: fields_ok_def)
  show ?thesis
    using cvt_packed_sel [OF ok] convertNum_field [OF assms(4,5)] assms(1)
    by (simp add: exec_instr_def Let_def)
qed

text \<open>C24: a \<open>beq\<close> assembled with a label, if the assembler accepts it, makes the simulator
  continue at the line that carries the label when the registers are equal, and at the next line
  otherwise (\<open>pc\<close> is incremented once more after the \<open>switch\<close>).\<close>

theorem beq_reaches_label:
  assumes "asm_line labels line f = Inr w" "f_opcode f = ''beq''"
    and "num_arg (f_arg0 f) a" "num_arg (f_arg1 f) b" "\<not> isNumber (f_arg2 f)" "a < 8" "b < 8"
    and "labels_ok labels" "t < length labels" "t < MAXLABEL - 1" "labels ! t = f_arg2 f"
    and "f_arg2 f \<noteq> ''''"
    and "pc s = of_nat line" "mem s (unat (pc s)) = w"
  shows "\<exists>s'. exec_instr s = Some (s', False) \<and>
    pc s' + 1 = (if get_reg s a = get_reg s b then of_nat t else of_nat line + 1)"
proof -
  have "find_idx labels (f_arg2 f) (MAXLABEL - 1) = int t"
    using find_idx_label [OF assms(8-10)] assms(11,12) by simp
  from asm_beq_packed [OF assms(1-5) this] obtain off
    where off: "off = of_nat t - (of_nat line + 1)" "-32768 \<le> sint off" "sint off \<le> 32767"
      and w: "w = packed 4 a b (off AND 0xFFFF)" by auto
  from exec_beq [of s a b off] assms(6,7,14) w off(2,3)
  have "exec_instr s = Some (if get_reg s a = get_reg s b then s\<lparr>pc := pc s + off\<rparr> else s, False)"
    by simp
  with off(1) assms(13) show ?thesis by auto
qed

theorem beq_reaches_label_witness:
  "\<exists>s'. exec_instr \<lparr>pc = 1, mem = (\<lambda>_. 16908286), reg = (\<lambda>_. 0), numMemory = 2\<rparr> = Some (s', False) \<and>
    pc s' + 1 = 0"
proof -
  let ?f = "\<lparr>f_label = '''', f_opcode = ''beq'', f_arg0 = ''0'', f_arg1 = ''1'', f_arg2 = ''start''\<rparr>"
  let ?s = "\<lparr>pc = 1, mem = (\<lambda>_. 16908286 :: i32), reg = (\<lambda>_. 0), numMemory = 2\<rparr>"
  have n: "num_arg ''0'' 0" "num_arg ''1'' 1" "scan_int ''0'' = Some 0" "scan_int ''1'' = Some 1"
    "scan_int ''start'' = None" by code_simp+
  have asm: "asm_line [''start'', ''''] 1 ?f = Inr 16908286"
    using n(3-) by (simp add: asm_eval long_to_int_def)
  show ?thesis
    using beq_reaches_label [OF asm, of 0 1 0 ?s] n
    by (simp add: isNumber_def labels_ok_def MAXLABEL_def get_reg_def)
qed

text \<open>A \<open>lw\<close> whose base register holds 0, assembled with a label at a line below 32768, loads the
  word at the label's address into its second register.\<close>

theorem lw_loads_label:
  assumes "asm_line labels line f = Inr w" "f_opcode f = ''lw''"
    and "num_arg (f_arg0 f) a" "num_arg (f_arg1 f) b" "\<not> isNumber (f_arg2 f)" "a < 8" "b < 8"
    and "labels_ok labels" "t < length labels" "t < 32768" "labels ! t = f_arg2 f"
    and "f_arg2 f \<noteq> ''''"
    and "mem s (unat (pc s)) = w" "get_reg s a = 0"
  shows "exec_instr s = Some (set_reg s b (mem s t), False)"
proof -
  let ?o = "of_nat t :: i32"
  have "find_idx labels (f_arg2 f) (MAXLABEL - 1) = int t"
    using find_idx_label [OF assms(8,9)] assms(10-12) by (simp add: MAXLABEL_def)
  with assms(1-5) have w: "w = packed 2 a b ?o"
    by (auto simp: asm_line_def op_type_def asm_I_def asm_offset_def num_arg_simps packed_def
        Let_def op_defs split: if_splits)
  have u: "unat ?o = t" using assms(10) by simp
  then have small: "?o < 65536" and nneg: "sint ?o = int t"
    using assms(10) by (simp_all add: word_less_nat_alt)
  have ok: "fields_ok 2 a b ?o" using assms(6,7) small by (simp add: fields_ok_def)
  have "convertNum ?o = ?o"
    using convertNum_field [of ?o] nneg assms(10) small less_mask_eq [of ?o 16]
    by (simp add: ffff_mask)
  then show ?thesis
    using cvt_packed_sel [OF ok] assms(13,14) w u nneg assms(10)
    by (simp add: exec_instr_def Let_def mem_ok_def NUMMEMORY_def)
qed

theorem lw_loads_label_witness:
  "exec_instr \<lparr>pc = 0, mem = (\<lambda>i. if i = 0 then 8454145 else 5), reg = (\<lambda>_. 0), numMemory = 2\<rparr> =
    Some (set_reg \<lparr>pc = 0, mem = (\<lambda>i. if i = 0 then 8454145 else 5), reg = (\<lambda>_. 0), numMemory = 2\<rparr>
      1 5, False)"
proof -
  let ?s = "\<lparr>pc = 0, mem = (\<lambda>i. if i = 0 then 8454145 else 5 :: i32), reg = (\<lambda>_. 0), numMemory = 2\<rparr>"
  have n: "num_arg ''0'' 0" "num_arg ''1'' 1" "scan_int ''n'' = None" by code_simp+
  show ?thesis
    using lw_loads_label [OF demo_lines(1), of 0 1 1 ?s] n
    by (simp add: isNumber_def labels_ok_def get_reg_def)
qed

section \<open>Where the tools depart from the LC-2K architecture\<close>

lemma exec_instr_mem: "exec_instr s = Some (s', ex) \<Longrightarrow> mem s' = mem s"
  by (auto simp: exec_instr_def set_reg_def Let_def split: if_splits)

lemma run_mem: "run fuel endline s = (tr, st) \<Longrightarrow> s' \<in> set tr \<Longrightarrow> mem s' = mem s"
proof (induction fuel arbitrary: s tr st)
  case 0
  then show ?case by simp
next
  case (Suc fuel)
  show ?case
  proof (cases "sint endline < sint (pc s) \<or> \<not> mem_ok (pc s)")
    case True
    with Suc.prems show ?thesis by (auto split: if_splits)
  next
    case False
    note go = this
    show ?thesis
    proof (cases "exec_instr s")
      case None
      with go Suc.prems show ?thesis by auto
    next
      case (Some p)
      obtain u ex where p: "p = (u, ex)" by (cases p)
      obtain tr2 st2 where r: "run fuel endline (u\<lparr>pc := pc u + 1\<rparr>) = (tr2, st2)"
        by (cases "run fuel endline (u\<lparr>pc := pc u + 1\<rparr>)")
      have mu: "mem u = mem s" using exec_instr_mem Some p by auto
      have "s' = s \<or> s' = u \<or> s' \<in> set tr2"
        using Suc.prems go Some p r by (auto split: if_splits)
      with mu Suc.IH [OF r] show ?thesis by auto
    qed
  qed
qed

text \<open>C38: no program changes memory. \<open>sw\<close> stores into the register array (its address has to be
  a register number, otherwise the access is out of bounds), so every state a run prints has the
  memory that was loaded.\<close>

theorem stores_never_reach_memory:
  assumes "simulate junk fuel inFile = Inr (tr, st)" "load_mem inFile [] = Inr ws" "s \<in> set tr"
  shows "mem s = mem (init_state junk ws)"
  using assms run_mem [of fuel "of_nat (length ws - 1)" "init_state junk ws" tr st s]
  by (auto simp: simulate_def)

theorem stores_never_reach_memory_witness:
  "\<exists>tr. simulate (\<lambda>_. 0) 3 (write_words [12648451, 25165824]) = Inr (tr, Exited) \<and> length tr = 3 \<and>
    mem (tr ! 1) = mem (init_state (\<lambda>_. 0) [12648451, 25165824])"
proof -
  let ?ws = "[12648451, 25165824 :: i32]"
  have l: "load_mem (write_words ?ws) [] = Inr ?ws"
    using load_write_words [of "[]" ?ws] by (simp add: NUMMEMORY_def)
  obtain tr where tr: "simulate (\<lambda>_. 0) 3 (write_words ?ws) = Inr (tr, Exited)" "length tr = 3"
    using l by (simp add: simulate_def init_state_def numeral_3_eq_3 exec_instr_def cvt_def mem_ok_def
        reg_ok_def NUMMEMORY_def NUMREGS_def convertNum_def Let_def get_reg_def set_reg_def)
  then have "tr ! 1 \<in> set tr" by simp
  from stores_never_reach_memory [OF tr(1) l this] tr show ?thesis by auto
qed

text \<open>The second register of \<open>jalr\<close> is not encoded: the assembler writes the address of the
  next line into the field that names the register the simulator saves the return address in.\<close>

theorem jalr_ignores_second_register:
  assumes "f_opcode f = ''jalr''" "num_arg (f_arg0 f) a" "num_arg (f_arg1 f) b" "f_arg2 f \<noteq> ''''"
    and "a < 8" "line < 7"
  shows "\<exists>w. asm_line labels line f = Inr w \<and> opcode (cvt w) = 5 \<and> r1 (cvt w) = a \<and>
    r2 (cvt w) = of_nat (line + 1)"
proof -
  let ?b = "of_nat line + 1 :: i32"
  have "line + 1 < 2 ^ 32" using assms(6) by simp
  then have "unat (of_nat (line + 1) :: i32) = line + 1" by (rule unat_of_nat32)
  then have "unat ?b = line + 1" by (simp add: add.commute)
  then have "?b < 8" using assms(6) by (simp add: word_less_nat_alt)
  then have ok: "fields_ok 5 a ?b 0" using assms(5) by (simp add: fields_ok_def)
  have "asm_line labels line f = Inr (packed 5 a ?b 0)"
    using assms(1-4)
    by (simp add: asm_line_def op_type_def asm_J_def num_arg_simps packed_def JALR_def)
  then show ?thesis using cvt_packed_sel [OF ok] by simp
qed

theorem jalr_ignores_second_register_witness:
  "\<exists>w. asm_line [] 2 \<lparr>f_label = '''', f_opcode = ''jalr'', f_arg0 = ''4'', f_arg1 = ''7'',
      f_arg2 = ''x''\<rparr> = Inr w \<and> opcode (cvt w) = 5 \<and> r1 (cvt w) = 4 \<and> r2 (cvt w) = 3"
proof -
  have n: "num_arg ''4'' 4" "num_arg ''7'' 7" by code_simp+
  show ?thesis
    using jalr_ignores_second_register [of "\<lparr>f_label = '''', f_opcode = ''jalr'', f_arg0 = ''4'',
      f_arg1 = ''7'', f_arg2 = ''x''\<rparr>" 4 7 2 "[]"] n by simp
qed

text \<open>\<open>.fill\<close> with a label that is defined on its own line or later yields the word -1 instead
  of the label's address: the search stops before the current line and its failure does not stop the
  assembler.\<close>

theorem fill_forward_label:
  assumes "f_opcode f = ''.fill''" "\<not> isNumber (f_arg0 f)" "f_arg0 f \<noteq> ''''"
    and "labels_ok labels" "t < length labels" "labels ! t = f_arg0 f" "line \<le> t"
  shows "asm_line labels line f = Inr (-1)"
proof -
  have "label_at labels j \<noteq> f_arg0 f" if "j < line" for j
    using that assms by (metis label_at_def labels_ok_nth_eq leD less_le_trans)
  then have "find_idx labels (f_arg0 f) line = -1" by (rule find_idx_absent)
  with assms(1,2) show ?thesis by (simp add: asm_line_def op_type_def asm_fill_def)
qed

theorem fill_forward_label_witness:
  "asm_line ['''', ''n''] 0 \<lparr>f_label = '''', f_opcode = ''.fill'', f_arg0 = ''n'', f_arg1 = '''',
      f_arg2 = ''''\<rparr> = Inr (-1)"
proof -
  have "scan_int ''n'' = None" by code_simp
  then show ?thesis
    by (intro fill_forward_label [where t = 1]) (simp_all add: isNumber_def labels_ok_def)
qed

lemma negative_high_bits:
  assumes "-32768 \<le> sint (w :: i32)" "sint w < 0" "15 \<le> n" "n < 32"
  shows "bit w n"
proof -
  have b31: "bit w 31" using assms(2) bit_last_iff [of w] by simp
  have eq: "signed_take_bit 15 w = w" using assms(1,2) by (intro signed_take_bit_id) auto
  have *: "bit w m = bit w 15" if "15 \<le> m" "m < 32" for m
  proof -
    have "bit (signed_take_bit 15 w) m = bit w 15"
      using that by (simp add: bit_signed_take_bit_iff min.absorb1)
    then show ?thesis unfolding eq .
  qed
  from b31 have "bit w 15" using * [of 31] by simp
  then show ?thesis using * [OF assms(3,4)] by simp
qed

lemma all_ones_field:
  assumes "\<And>n. 16 \<le> n \<Longrightarrow> n < 32 \<Longrightarrow> bit (w :: i32) n" "16 \<le> m" "m \<le> 22"
  shows "signed_drop_bit m w AND 7 = 7"
  unfolding seven_mask using assms by (intro bit_word_eqI) (auto simp: bit_simps min_def)

text \<open>A numeric negative offset of \<open>lw\<close> or \<open>sw\<close> is not cut to 16 bits (only \<open>beq\<close>'s is), and
  its sign bits overwrite the operation and both registers: the word decodes as \<open>noop\<close>.\<close>

theorem negative_offset_destroys_opcode:
  assumes "f_opcode f = (if st then ''sw'' else ''lw'')"
    and "num_arg (f_arg0 f) a" "num_arg (f_arg1 f) b" "num_arg (f_arg2 f) off"
    and "-32768 \<le> sint off" "sint off < 0"
  shows "\<exists>w. asm_line labels line f = Inr w \<and> opcode (cvt w) = 7 \<and> r1 (cvt w) = 7 \<and> r2 (cvt w) = 7"
proof -
  let ?w = "(if st then SW else LW) OR (push_bit 19 a OR push_bit 16 b OR off)"
  have "asm_line labels line f = Inr ?w"
    using assms
    by (auto simp: asm_line_def op_type_def asm_I_def asm_offset_def num_arg_simps Let_def op_defs)
  moreover have "bit ?w n" if "16 \<le> n" "n < 32" for n
    using negative_high_bits [OF assms(5,6)] that by (simp add: bit_or_iff)
  then have "signed_drop_bit m ?w AND 7 = 7" if "16 \<le> m" "m \<le> 22" for m
    using that by (intro all_ones_field)
  ultimately show ?thesis by (simp add: cvt_def)
qed

theorem negative_offset_destroys_opcode_witness:
  "\<exists>w. asm_line [] 0 \<lparr>f_label = '''', f_opcode = ''lw'', f_arg0 = ''1'', f_arg1 = ''2'',
      f_arg2 = ''-1''\<rparr> = Inr w \<and> opcode (cvt w) = 7 \<and> r1 (cvt w) = 7 \<and> r2 (cvt w) = 7"
proof -
  have n: "num_arg ''1'' 1" "num_arg ''2'' 2" "num_arg ''-1'' (-1)" by code_simp+
  show ?thesis
    using negative_offset_destroys_opcode [of "\<lparr>f_label = '''', f_opcode = ''lw'', f_arg0 = ''1'',
      f_arg1 = ''2'', f_arg2 = ''-1''\<rparr>" False 1 2 "-1" "[]" 0] n by simp
qed

section \<open>Fuel\<close>

text \<open>More fuel never changes a run that ended.\<close>

lemma run_fuel_mono:
  "run fuel endline s = (tr, st) \<Longrightarrow> st \<noteq> Out_of_fuel \<Longrightarrow> run (fuel + k) endline s = (tr, st)"
proof (induction fuel arbitrary: s tr st)
  case 0
  then show ?case by simp
next
  case (Suc fuel)
  then show ?case
    by (auto split: if_splits option.splits prod.splits)
qed

end
