(* ===== verification/Pipeline.thy ===== *)
theory Pipeline
  imports Simulator
begin

text \<open>
  The LC-2K pipeline simulator, \<open>computer architecture/project2/simulator.c\<close>. One turn of the
  loop of \<open>main\<close> is \<open>cycle\<close>: the five stages read the old state and write the new one, in the
  order of the source (a taken branch in MEM overwrites what IF, ID and EX wrote). The latches are
  records with the source's fields. An access outside an array, undefined in C, is \<open>None\<close>.
  The latch fields \<open>main\<close> does not initialise are a parameter of the initial state.

  The second half states what a pipeline is for: \<open>flush\<close> completes the instructions in flight, and
  a cycle without a data hazard is a step of the sequential machine \<open>isa_step\<close> (or a stutter, when
  it fetches behind a taken branch or a halt).
\<close>

section \<open>State\<close>

record IFIDType =
  IFID_instr :: i32
  IFID_pcPlus1 :: i32

record IDEXType =
  IDEX_instr :: i32
  IDEX_pcPlus1 :: i32
  IDEX_readRegA :: i32
  IDEX_readRegB :: i32
  IDEX_offset :: i32

record EXMEMType =
  EXMEM_instr :: i32
  EXMEM_branchTarget :: i32
  EXMEM_aluResult :: i32
  EXMEM_readRegB :: i32

record MEMWBType =
  MEMWB_instr :: i32
  MEMWB_writeData :: i32

record WBENDType =
  WBEND_instr :: i32
  WBEND_writeData :: i32

record pipeState =
  p_pc :: i32
  instrMem :: "nat \<Rightarrow> i32"
  dataMem :: "nat \<Rightarrow> i32"
  p_reg :: "nat \<Rightarrow> i32"
  p_numMemory :: nat
  IFID :: IFIDType
  IDEX :: IDEXType
  EXMEM :: EXMEMType
  MEMWB :: MEMWBType
  WBEND :: WBENDType
  cycles :: i32

definition NOOPINSTRUCTION :: i32 where "NOOPINSTRUCTION = 0x1c00000"

definition field0 :: "i32 \<Rightarrow> i32" where
  "field0 instruction = signed_drop_bit 19 instruction AND 7"

definition field1 :: "i32 \<Rightarrow> i32" where
  "field1 instruction = signed_drop_bit 16 instruction AND 7"

definition field2 :: "i32 \<Rightarrow> i32" where
  "field2 instruction = instruction AND 0xFFFF"

definition p_opcode :: "i32 \<Rightarrow> i32" where
  "p_opcode instruction = signed_drop_bit 22 instruction"

section \<open>The stages of one cycle\<close>

definition stage_IF :: "pipeState \<Rightarrow> pipeState \<Rightarrow> pipeState option" where
  "stage_IF s n =
     (if mem_ok (p_pc s)
      then Some (n\<lparr>IFID := \<lparr>IFID_instr = instrMem s (unat (p_pc s)), IFID_pcPlus1 = p_pc s + 1\<rparr>,
                   p_pc := p_pc n + 1\<rparr>)
      else None)"

definition stage_ID :: "pipeState \<Rightarrow> pipeState \<Rightarrow> pipeState" where
  "stage_ID s n =
     (let i = IFID_instr (IFID s) in
      n\<lparr>IDEX := \<lparr>IDEX_instr = i, IDEX_pcPlus1 = IFID_pcPlus1 (IFID s),
                 IDEX_readRegA = p_reg s (unat (field0 i)),
                 IDEX_readRegB = p_reg s (unat (field1 i)),
                 IDEX_offset = convertNum (field2 i)\<rparr>\<rparr>)"

text \<open>The ALU result; an instruction that is none of these leaves the old value in the latch.\<close>

definition alu :: "pipeState \<Rightarrow> i32" where
  "alu s =
     (let opc = p_opcode (IDEX_instr (IDEX s));
          aluInput0 = IDEX_readRegA (IDEX s);
          aluInput1 = (if opc = 2 \<or> opc = 3 then IDEX_offset (IDEX s) else IDEX_readRegB (IDEX s))
      in if opc = 0 then aluInput0 + aluInput1
         else if opc = 1 then NOT (aluInput0 OR aluInput1)
         else if opc = 4 then aluInput0 - aluInput1
         else if opc = 2 \<or> opc = 3 then aluInput0 + aluInput1
         else EXMEM_aluResult (EXMEM s))"

definition stage_EX :: "pipeState \<Rightarrow> pipeState \<Rightarrow> pipeState" where
  "stage_EX s n =
     n\<lparr>EXMEM := \<lparr>EXMEM_instr = IDEX_instr (IDEX s),
                 EXMEM_branchTarget = IDEX_pcPlus1 (IDEX s) + IDEX_offset (IDEX s),
                 EXMEM_aluResult = alu s,
                 EXMEM_readRegB = IDEX_readRegB (IDEX s)\<rparr>\<rparr>"

definition squash :: "pipeState \<Rightarrow> pipeState \<Rightarrow> pipeState" where
  "squash s n =
     n\<lparr>p_pc := EXMEM_branchTarget (EXMEM s),
       EXMEM := \<lparr>EXMEM_instr = NOOPINSTRUCTION, EXMEM_branchTarget = 0, EXMEM_aluResult = 0,
                 EXMEM_readRegB = 0\<rparr>,
       IDEX := \<lparr>IDEX_instr = NOOPINSTRUCTION, IDEX_pcPlus1 = 0, IDEX_readRegA = 0,
                IDEX_readRegB = 0, IDEX_offset = 0\<rparr>,
       IFID := \<lparr>IFID_instr = NOOPINSTRUCTION, IFID_pcPlus1 = 0\<rparr>\<rparr>"

definition stage_MEM :: "pipeState \<Rightarrow> pipeState \<Rightarrow> pipeState option" where
  "stage_MEM s n =
     (let e = EXMEM s; opc = p_opcode (EXMEM_instr e);
          n1 = n\<lparr>MEMWB := (MEMWB n)\<lparr>MEMWB_instr := EXMEM_instr e\<rparr>\<rparr> in
      if opc = 0 \<or> opc = 1 then
        Some (n1\<lparr>MEMWB := (MEMWB n1)\<lparr>MEMWB_writeData := EXMEM_aluResult e\<rparr>\<rparr>)
      else if opc = 2 then
        (if mem_ok (EXMEM_aluResult e)
         then Some (n1\<lparr>MEMWB := (MEMWB n1)\<lparr>MEMWB_writeData := dataMem s (unat (EXMEM_aluResult e))\<rparr>\<rparr>)
         else None)
      else if opc = 3 then
        (if mem_ok (EXMEM_aluResult e)
         then Some (n1\<lparr>dataMem := (dataMem n1)(unat (EXMEM_aluResult e) := EXMEM_readRegB e)\<rparr>)
         else None)
      else if opc = 4 \<and> EXMEM_aluResult e = 0 then Some (squash s n1)
      else Some n1)"

definition stage_WB :: "pipeState \<Rightarrow> pipeState \<Rightarrow> pipeState option" where
  "stage_WB s n =
     (let w = MEMWB s; opc = p_opcode (MEMWB_instr w);
          n1 = n\<lparr>WBEND := \<lparr>WBEND_instr = MEMWB_instr w, WBEND_writeData = MEMWB_writeData w\<rparr>\<rparr> in
      if opc = 2 then
        Some (n1\<lparr>p_reg := (p_reg n1)(unat (field1 (MEMWB_instr w)) := MEMWB_writeData w)\<rparr>)
      else if opc = 0 \<or> opc = 1 then
        (if reg_ok (field2 (MEMWB_instr w))
         then Some (n1\<lparr>p_reg := (p_reg n1)(unat (field2 (MEMWB_instr w)) := MEMWB_writeData w)\<rparr>)
         else None)
      else Some n1)"

definition cycle :: "pipeState \<Rightarrow> pipeState option" where
  "cycle s =
     (case stage_IF s (s\<lparr>cycles := cycles s + 1\<rparr>) of
        None \<Rightarrow> None
      | Some n1 \<Rightarrow>
          (case stage_MEM s (stage_EX s (stage_ID s n1)) of
             None \<Rightarrow> None
           | Some n2 \<Rightarrow> stage_WB s n2))"

section \<open>What is printed\<close>

definition opcodeString :: "i32 \<Rightarrow> string" where
  "opcodeString instr =
     (if p_opcode instr = 0 then ''add''
      else if p_opcode instr = 1 then ''nor''
      else if p_opcode instr = 2 then ''lw''
      else if p_opcode instr = 3 then ''sw''
      else if p_opcode instr = 4 then ''beq''
      else if p_opcode instr = 5 then ''jalr''
      else if p_opcode instr = 6 then ''halt''
      else if p_opcode instr = 7 then ''noop''
      else ''data'')"

definition printInstruction :: "i32 \<Rightarrow> string" where
  "printInstruction instr =
     opcodeString instr @ '' '' @ print_d (field0 instr) @ '' '' @ print_d (field1 instr) @ '' '' @
     print_d (field2 instr) @ [newline]"

definition field_line :: "string \<Rightarrow> i32 \<Rightarrow> string" where
  "field_line name v = [tab, tab] @ name @ '' '' @ print_d v @ [newline]"

definition instruction_line :: "string \<Rightarrow> i32 \<Rightarrow> string" where
  "instruction_line latch i =
     [tab] @ latch @ '':'' @ [newline, tab, tab] @ ''instruction '' @ printInstruction i"

definition p_printState :: "pipeState \<Rightarrow> string" where
  "p_printState s =
     [newline] @ ''@@@'' @ [newline] @ ''state before cycle '' @ print_d (cycles s) @ '' starts'' @ [newline] @
     [tab] @ ''pc '' @ print_d (p_pc s) @ [newline] @
     [tab] @ ''data memory:'' @ [newline] @
     concat (map (\<lambda>i. array_line ''dataMem'' i (dataMem s i)) [0..<p_numMemory s]) @
     [tab] @ ''registers:'' @ [newline] @
     concat (map (\<lambda>i. array_line ''reg'' i (p_reg s i)) [0..<NUMREGS]) @
     instruction_line ''IFID'' (IFID_instr (IFID s)) @
     field_line ''pcPlus1'' (IFID_pcPlus1 (IFID s)) @
     instruction_line ''IDEX'' (IDEX_instr (IDEX s)) @
     field_line ''pcPlus1'' (IDEX_pcPlus1 (IDEX s)) @
     field_line ''readRegA'' (IDEX_readRegA (IDEX s)) @
     field_line ''readRegB'' (IDEX_readRegB (IDEX s)) @
     field_line ''offset'' (IDEX_offset (IDEX s)) @
     instruction_line ''EXMEM'' (EXMEM_instr (EXMEM s)) @
     field_line ''branchTarget'' (EXMEM_branchTarget (EXMEM s)) @
     field_line ''aluResult'' (EXMEM_aluResult (EXMEM s)) @
     field_line ''readRegB'' (EXMEM_readRegB (EXMEM s)) @
     instruction_line ''MEMWB'' (MEMWB_instr (MEMWB s)) @
     field_line ''writeData'' (MEMWB_writeData (MEMWB s)) @
     instruction_line ''WBEND'' (WBEND_instr (WBEND s)) @
     field_line ''writeData'' (WBEND_writeData (WBEND s))"

section \<open>The main loop\<close>

definition halted :: "pipeState \<Rightarrow> bool" where
  "halted s = (p_opcode (MEMWB_instr (MEMWB s)) = 6)"

text \<open>The states \<open>printState\<close> shows, in order, and how the run ended; the last state printed
  before \<open>machine halted\<close> is the final one.\<close>

fun p_run :: "nat \<Rightarrow> pipeState \<Rightarrow> pipeState list \<times> run_status" where
  "p_run 0 s = ([], Out_of_fuel)"
| "p_run (Suc fuel) s =
     (if halted s then ([s], Exited)
      else case cycle s of
        None \<Rightarrow> ([s], Undefined)
      | Some s' \<Rightarrow> (let (tr, st) = p_run fuel s' in (s # tr, st)))"

definition p_init :: "pipeState \<Rightarrow> i32 list \<Rightarrow> pipeState" where
  "p_init junk ws =
     junk\<lparr>p_pc := 0, cycles := 0, p_reg := (\<lambda>i. if i < NUMREGS then 0 else p_reg junk i),
       instrMem := (\<lambda>i. if i < length ws then ws ! i else instrMem junk i),
       dataMem := (\<lambda>i. if i < length ws then ws ! i else dataMem junk i),
       p_numMemory := length ws,
       IFID := (IFID junk)\<lparr>IFID_instr := NOOPINSTRUCTION\<rparr>,
       IDEX := (IDEX junk)\<lparr>IDEX_instr := NOOPINSTRUCTION\<rparr>,
       EXMEM := (EXMEM junk)\<lparr>EXMEM_instr := NOOPINSTRUCTION\<rparr>,
       MEMWB := (MEMWB junk)\<lparr>MEMWB_instr := NOOPINSTRUCTION\<rparr>,
       WBEND := (WBEND junk)\<lparr>WBEND_instr := NOOPINSTRUCTION\<rparr>\<rparr>"

definition p_simulate :: "pipeState \<Rightarrow> nat \<Rightarrow> string \<Rightarrow> load_error + pipeState list \<times> run_status" where
  "p_simulate junk fuel inFile =
     (case load_mem inFile [] of
        Inl e \<Rightarrow> Inl e
      | Inr ws \<Rightarrow> Inr (p_run fuel (p_init junk ws)))"

text \<open>Everything \<open>main\<close> prints from the loaded words on, for a run that ends.\<close>

definition p_output :: "pipeState \<Rightarrow> nat \<Rightarrow> i32 list \<Rightarrow> string" where
  "p_output junk fuel ws =
     (let (tr, st) = p_run fuel (p_init junk ws) in
      print_int (int (length ws)) @ '' memory words'' @ [newline, tab] @ ''instruction memory:'' @ [newline] @
      concat (map (\<lambda>i. [tab, tab] @ ''instrMem[ '' @ print_int (int i) @ '' ] '' @ printInstruction (ws ! i))
        [0..<length ws]) @
      concat (map p_printState tr) @
      (if st = Exited
       then ''machine halted'' @ [newline] @ ''total of '' @ print_d (cycles (last tr)) @
            '' cycles executed'' @ [newline]
       else []))"

section \<open>The sequential machine\<close>

text \<open>What the pipeline is meant to compute: one instruction at a time on registers and data
  memory. \<open>Halt\<close> is the result of \<open>halt\<close>; a branch that is taken goes to its target.\<close>

datatype control = Next | Goto i32 | Halt

type_synonym isa_store = "(nat \<Rightarrow> i32) \<times> (nat \<Rightarrow> i32)"

definition writeback :: "i32 \<Rightarrow> i32 \<Rightarrow> (nat \<Rightarrow> i32) \<Rightarrow> nat \<Rightarrow> i32" where
  "writeback i v r =
     (if p_opcode i = 2 then r(unat (field1 i) := v)
      else if p_opcode i = 0 \<or> p_opcode i = 1 then r(unat (field2 i) := v)
      else r)"

text \<open>An instruction that left EX: ALU result \<open>v\<close>, second operand \<open>b\<close>, branch target \<open>t\<close>.\<close>

definition mem_effect :: "i32 \<Rightarrow> i32 \<Rightarrow> i32 \<Rightarrow> i32 \<Rightarrow> isa_store \<Rightarrow> control \<times> isa_store" where
  "mem_effect i v b t rm =
     (let (r, m) = rm; opc = p_opcode i in
      if opc = 0 \<or> opc = 1 then (Next, writeback i v r, m)
      else if opc = 2 then (Next, writeback i (m (unat v)) r, m)
      else if opc = 3 then (Next, r, m(unat v := b))
      else if opc = 4 \<and> v = 0 then (Goto t, r, m)
      else if opc = 6 then (Halt, r, m)
      else (Next, r, m))"

definition alu_op :: "i32 \<Rightarrow> i32 \<Rightarrow> i32 \<Rightarrow> i32 \<Rightarrow> i32" where
  "alu_op i a b off =
     (let opc = p_opcode i in
      if opc = 0 then a + b
      else if opc = 1 then NOT (a OR b)
      else if opc = 4 then a - b
      else a + off)"

definition ex_effect :: "i32 \<Rightarrow> i32 \<Rightarrow> i32 \<Rightarrow> i32 \<Rightarrow> i32 \<Rightarrow> isa_store \<Rightarrow> control \<times> isa_store" where
  "ex_effect i p a b off rm = mem_effect i (alu_op i a b off) b (p + off) rm"

text \<open>A whole instruction \<open>i\<close> whose successor is at \<open>p\<close>.\<close>

definition instr_effect :: "i32 \<Rightarrow> i32 \<Rightarrow> isa_store \<Rightarrow> control \<times> isa_store" where
  "instr_effect i p rm =
     ex_effect i p (fst rm (unat (field0 i))) (fst rm (unat (field1 i))) (convertNum (field2 i)) rm"

text \<open>The machine's state: where it is (\<open>None\<close> once halted), registers and memory.\<close>

type_synonym isaState = "i32 option \<times> isa_store"

definition continue_at :: "i32 \<Rightarrow> control \<Rightarrow> i32 option" where
  "continue_at p c = (case c of Next \<Rightarrow> Some p | Goto t \<Rightarrow> Some t | Halt \<Rightarrow> None)"

definition isa_step :: "(nat \<Rightarrow> i32) \<Rightarrow> isaState \<Rightarrow> isaState" where
  "isa_step im st =
     (case st of
        (None, rm) \<Rightarrow> (None, rm)
      | (Some p, rm) \<Rightarrow>
          (let (c, rm') = instr_effect (im (unat p)) (p + 1) rm in (continue_at (p + 1) c, rm')))"

section \<open>Completing the instructions in flight\<close>

definition then_do :: "control \<times> isa_store \<Rightarrow> (isa_store \<Rightarrow> control \<times> isa_store) \<Rightarrow> control \<times> isa_store" where
  "then_do x f = (case x of (Next, rm) \<Rightarrow> f rm | _ \<Rightarrow> x)"

definition do_MEMWB :: "pipeState \<Rightarrow> control \<times> isa_store" where
  "do_MEMWB s =
     (let w = MEMWB s in
      if p_opcode (MEMWB_instr w) = 6 then (Halt, p_reg s, dataMem s)
      else (Next, writeback (MEMWB_instr w) (MEMWB_writeData w) (p_reg s), dataMem s))"

definition do_EXMEM :: "pipeState \<Rightarrow> isa_store \<Rightarrow> control \<times> isa_store" where
  "do_EXMEM s =
     (let e = EXMEM s in
      mem_effect (EXMEM_instr e) (EXMEM_aluResult e) (EXMEM_readRegB e) (EXMEM_branchTarget e))"

definition do_IDEX :: "pipeState \<Rightarrow> isa_store \<Rightarrow> control \<times> isa_store" where
  "do_IDEX s =
     (let d = IDEX s in
      ex_effect (IDEX_instr d) (IDEX_pcPlus1 d) (IDEX_readRegA d) (IDEX_readRegB d) (IDEX_offset d))"

definition do_IFID :: "pipeState \<Rightarrow> isa_store \<Rightarrow> control \<times> isa_store" where
  "do_IFID s = instr_effect (IFID_instr (IFID s)) (IFID_pcPlus1 (IFID s))"

definition upto_IDEX :: "pipeState \<Rightarrow> control \<times> isa_store" where
  "upto_IDEX s = then_do (then_do (do_MEMWB s) (do_EXMEM s)) (do_IDEX s)"

definition in_flight :: "pipeState \<Rightarrow> control \<times> isa_store" where
  "in_flight s = then_do (upto_IDEX s) (do_IFID s)"

text \<open>The architectural state a pipeline state stands for: everything in flight completed, in
  order, with what follows a taken branch or a halt dropped.\<close>

definition flush :: "pipeState \<Rightarrow> isaState" where
  "flush s = (let (c, rm) = in_flight s in (continue_at (p_pc s) c, rm))"

text \<open>A data hazard: the instruction in ID reads a register that an older one in flight has not
  written yet (and is not dropped by a branch or halt ahead of it).\<close>

definition reg_reads :: "i32 \<Rightarrow> nat set" where
  "reg_reads i =
     (if p_opcode i \<in> {0, 1, 3, 4} then {unat (field0 i), unat (field1 i)}
      else if p_opcode i = 2 then {unat (field0 i)} else {})"

definition reg_writes :: "i32 \<Rightarrow> nat set" where
  "reg_writes i =
     (if p_opcode i = 2 then {unat (field1 i)}
      else if p_opcode i \<in> {0, 1} then {unat (field2 i)} else {})"

definition no_hazard :: "pipeState \<Rightarrow> bool" where
  "no_hazard s =
     (fst (upto_IDEX s) = Next \<longrightarrow>
        reg_reads (IFID_instr (IFID s)) \<inter>
          (reg_writes (MEMWB_instr (MEMWB s)) \<union> reg_writes (EXMEM_instr (EXMEM s)) \<union> reg_writes (IDEX_instr (IDEX s)))
        = {})"

section \<open>A cycle refines a step\<close>

lemma writeback_other: "x \<notin> reg_writes i \<Longrightarrow> writeback i v r x = r x"
  by (auto simp: writeback_def reg_writes_def)

lemma mem_effect_other:
  "mem_effect i v b t (r, m) = (c, r', m') \<Longrightarrow> x \<notin> reg_writes i \<Longrightarrow> r' x = r x"
  by (auto simp: mem_effect_def Let_def writeback_other split: if_splits)

lemma ex_effect_other:
  "ex_effect i p a b off (r, m) = (c, r', m') \<Longrightarrow> x \<notin> reg_writes i \<Longrightarrow> r' x = r x"
  by (auto simp: ex_effect_def dest: mem_effect_other)

text \<open>Only the registers an instruction reads matter to it.\<close>

lemma ex_effect_reads:
  assumes "\<forall>x \<in> reg_reads i. ra x = rb x"
  shows "ex_effect i p (ra (unat (field0 i))) (ra (unat (field1 i))) (convertNum (field2 i)) rm =
         ex_effect i p (rb (unat (field0 i))) (rb (unat (field1 i))) (convertNum (field2 i)) rm"
  using assms
  by (auto simp: ex_effect_def mem_effect_def alu_op_def reg_reads_def Let_def split: prod.splits)

lemma noop_opcode [simp]: "p_opcode NOOPINSTRUCTION = 7"
  by (simp add: p_opcode_def NOOPINSTRUCTION_def)

lemma noop_effect [simp]: "mem_effect NOOPINSTRUCTION v b t rm = (Next, rm)"
  "ex_effect NOOPINSTRUCTION p a b off rm = (Next, rm)"
  "instr_effect NOOPINSTRUCTION p rm = (Next, rm)"
  "writeback NOOPINSTRUCTION v r = r"
  by (simp_all add: mem_effect_def ex_effect_def instr_effect_def writeback_def split: prod.splits)

definition beq_taken :: "pipeState \<Rightarrow> bool" where
  "beq_taken s = (p_opcode (EXMEM_instr (EXMEM s)) = 4 \<and> EXMEM_aluResult (EXMEM s) = 0)"

definition wb_regs :: "pipeState \<Rightarrow> nat \<Rightarrow> i32" where
  "wb_regs s = writeback (MEMWB_instr (MEMWB s)) (MEMWB_writeData (MEMWB s)) (p_reg s)"

lemma stage_WB_Some:
  "stage_WB s n = Some s' \<Longrightarrow>
     s' = n\<lparr>WBEND := \<lparr>WBEND_instr = MEMWB_instr (MEMWB s), WBEND_writeData = MEMWB_writeData (MEMWB s)\<rparr>,
            p_reg := writeback (MEMWB_instr (MEMWB s)) (MEMWB_writeData (MEMWB s)) (p_reg n)\<rparr>"
  by (auto simp: stage_WB_def writeback_def Let_def split: if_splits)

text \<open>The state MEM sees in the cycle's new state.\<close>

definition before_MEM :: "pipeState \<Rightarrow> pipeState" where
  "before_MEM s =
     stage_EX s (stage_ID s (s\<lparr>cycles := cycles s + 1,
       IFID := \<lparr>IFID_instr = instrMem s (unat (p_pc s)), IFID_pcPlus1 = p_pc s + 1\<rparr>,
       p_pc := p_pc s + 1\<rparr>))"

lemma before_MEM_fields [simp]:
  "p_pc (before_MEM s) = p_pc s + 1" "p_reg (before_MEM s) = p_reg s"
  "dataMem (before_MEM s) = dataMem s" "instrMem (before_MEM s) = instrMem s"
  "IFID (before_MEM s) = \<lparr>IFID_instr = instrMem s (unat (p_pc s)), IFID_pcPlus1 = p_pc s + 1\<rparr>"
  "IDEX (before_MEM s) = IDEX (stage_ID s s)" "EXMEM (before_MEM s) = EXMEM (stage_EX s s)"
  by (simp_all add: before_MEM_def stage_ID_def stage_EX_def Let_def)

lemma cycle_Some:
  assumes "cycle s = Some s'"
  obtains n where "stage_MEM s (before_MEM s) = Some n"
    "s' = n\<lparr>WBEND := \<lparr>WBEND_instr = MEMWB_instr (MEMWB s), WBEND_writeData = MEMWB_writeData (MEMWB s)\<rparr>,
            p_reg := writeback (MEMWB_instr (MEMWB s)) (MEMWB_writeData (MEMWB s)) (p_reg n)\<rparr>"
proof -
  from assms obtain n where "stage_MEM s (before_MEM s) = Some n" "stage_WB s n = Some s'"
    by (auto simp: cycle_def stage_IF_def before_MEM_def split: option.splits if_splits)
  with stage_WB_Some that show thesis by blast
qed

lemma stage_MEM_taken:
  "stage_MEM s n = Some n' \<Longrightarrow> beq_taken s \<Longrightarrow>
     n' = squash s (n\<lparr>MEMWB := (MEMWB n)\<lparr>MEMWB_instr := EXMEM_instr (EXMEM s)\<rparr>\<rparr>)"
  by (auto simp: stage_MEM_def beq_taken_def Let_def)

lemma stage_MEM_not_taken:
  "stage_MEM s n = Some n' \<Longrightarrow> \<not> beq_taken s \<Longrightarrow>
     n' = n\<lparr>MEMWB := MEMWB n', dataMem := dataMem n'\<rparr>"
  by (auto simp: stage_MEM_def beq_taken_def Let_def split: if_splits)

lemma cycle_taken:
  assumes "cycle s = Some s'" "beq_taken s"
  shows "p_pc s' = EXMEM_branchTarget (EXMEM s)" "IFID_instr (IFID s') = NOOPINSTRUCTION"
    "IDEX_instr (IDEX s') = NOOPINSTRUCTION" "EXMEM_instr (EXMEM s') = NOOPINSTRUCTION"
    "MEMWB_instr (MEMWB s') = EXMEM_instr (EXMEM s)" "p_reg s' = wb_regs s"
    "dataMem s' = dataMem s" "instrMem s' = instrMem s"
  using assms
  by (auto elim!: cycle_Some dest!: stage_MEM_taken simp: wb_regs_def squash_def)

lemma cycle_not_taken:
  assumes "cycle s = Some s'" "\<not> beq_taken s"
  shows "p_pc s' = p_pc s + 1"
    "IFID s' = \<lparr>IFID_instr = instrMem s (unat (p_pc s)), IFID_pcPlus1 = p_pc s + 1\<rparr>"
    "IDEX s' = IDEX (stage_ID s s)" "EXMEM s' = EXMEM (stage_EX s s)" "p_reg s' = wb_regs s"
    "instrMem s' = instrMem s"
proof -
  from assms(1) obtain n where n: "stage_MEM s (before_MEM s) = Some n"
    and s': "s' = n\<lparr>WBEND := \<lparr>WBEND_instr = MEMWB_instr (MEMWB s), WBEND_writeData = MEMWB_writeData (MEMWB s)\<rparr>,
            p_reg := writeback (MEMWB_instr (MEMWB s)) (MEMWB_writeData (MEMWB s)) (p_reg n)\<rparr>"
    by (rule cycle_Some)
  from stage_MEM_not_taken [OF n assms(2)]
  obtain w d where n': "n = (before_MEM s)\<lparr>MEMWB := w, dataMem := d\<rparr>" by blast
  show "p_pc s' = p_pc s + 1"
    "IFID s' = \<lparr>IFID_instr = instrMem s (unat (p_pc s)), IFID_pcPlus1 = p_pc s + 1\<rparr>"
    "IDEX s' = IDEX (stage_ID s s)" "EXMEM s' = EXMEM (stage_EX s s)" "p_reg s' = wb_regs s"
    "instrMem s' = instrMem s"
    unfolding s' n' wb_regs_def by simp_all
qed

lemma stage_MEM_effect:
  assumes "stage_MEM s n = Some n'" "\<not> beq_taken s" "dataMem n = dataMem s"
  shows "do_EXMEM s (r, dataMem s) =
    (if p_opcode (MEMWB_instr (MEMWB n')) = 6 then Halt else Next,
     writeback (MEMWB_instr (MEMWB n')) (MEMWB_writeData (MEMWB n')) r, dataMem n')"
  using assms
  by (auto simp: stage_MEM_def beq_taken_def Let_def do_EXMEM_def mem_effect_def writeback_def split: if_splits)

lemma cycle_MEMWB:
  assumes "cycle s = Some s'" "\<not> beq_taken s"
  shows "do_MEMWB s' = do_EXMEM s (wb_regs s, dataMem s)"
proof -
  from assms(1) obtain n where n: "stage_MEM s (before_MEM s) = Some n"
    and s': "s' = n\<lparr>WBEND := \<lparr>WBEND_instr = MEMWB_instr (MEMWB s), WBEND_writeData = MEMWB_writeData (MEMWB s)\<rparr>,
            p_reg := writeback (MEMWB_instr (MEMWB s)) (MEMWB_writeData (MEMWB s)) (p_reg n)\<rparr>"
    by (rule cycle_Some)
  have "MEMWB s' = MEMWB n" "dataMem s' = dataMem n" unfolding s' by simp_all
  then show ?thesis
    using stage_MEM_effect [OF n assms(2), of "p_reg s'"] cycle_not_taken(5) [OF assms]
    by (auto simp: do_MEMWB_def Let_def writeback_def split: if_splits)
qed

lemma alu_effect: "EXMEM s' = EXMEM (stage_EX s s) \<Longrightarrow> do_EXMEM s' = do_IDEX s"
  by (rule ext)
    (auto simp: do_EXMEM_def do_IDEX_def ex_effect_def stage_EX_def alu_def alu_op_def mem_effect_def Let_def
      split: prod.splits)

lemma upto_IDEX_writes:
  assumes "upto_IDEX s = (Next, r, m)"
    and "x \<notin> reg_writes (MEMWB_instr (MEMWB s)) \<union> reg_writes (EXMEM_instr (EXMEM s)) \<union> reg_writes (IDEX_instr (IDEX s))"
  shows "r x = p_reg s x"
proof -
  from assms(1) obtain r1 m1 r2 m2 where
    "do_MEMWB s = (Next, r1, m1)" "do_EXMEM s (r1, m1) = (Next, r2, m2)" "do_IDEX s (r2, m2) = (Next, r, m)"
    by (auto simp: upto_IDEX_def then_do_def split: prod.splits control.splits)
  then have "r1 x = p_reg s x" "r2 x = r1 x" "r x = r2 x"
    using assms(2)
    by (auto simp: do_MEMWB_def do_EXMEM_def do_IDEX_def Let_def writeback_other
        dest: mem_effect_other ex_effect_other split: if_splits)
  then show ?thesis by simp
qed

lemma do_IDEX_next:
  assumes "cycle s = Some s'" "\<not> beq_taken s" "no_hazard s" "upto_IDEX s = (Next, r, m)"
  shows "do_IDEX s' (r, m) = do_IFID s (r, m)"
proof -
  let ?i = "IFID_instr (IFID s)"
  have "\<forall>x \<in> reg_reads ?i. p_reg s x = r x"
    using assms(3,4) upto_IDEX_writes [OF assms(4)] by (force simp: no_hazard_def)
  from ex_effect_reads [OF this, of "IFID_pcPlus1 (IFID s)" "(r, m)"]
  show ?thesis
    by (simp add: do_IDEX_def do_IFID_def instr_effect_def cycle_not_taken(3) [OF assms(1,2)] stage_ID_def Let_def)
qed

lemma then_do_Next [simp]: "then_do (Next, rm) f = f rm"
  and then_do_Goto [simp]: "then_do (Goto t, rm) f = (Goto t, rm)"
  and then_do_Halt [simp]: "then_do (Halt, rm) f = (Halt, rm)"
  by (simp_all add: then_do_def)

lemma in_flight_next:
  assumes "cycle s = Some s'" "\<not> beq_taken s" "no_hazard s" "\<not> halted s"
  shows "in_flight s' = then_do (in_flight s) (instr_effect (instrMem s (unat (p_pc s))) (p_pc s + 1))"
proof -
  have wb: "do_MEMWB s = (Next, wb_regs s, dataMem s)"
    using assms(4) by (simp add: do_MEMWB_def halted_def wb_regs_def Let_def)
  have ex: "upto_IDEX s = then_do (do_MEMWB s') (do_EXMEM s')"
    by (simp add: upto_IDEX_def wb cycle_MEMWB [OF assms(1,2)] alu_effect [OF cycle_not_taken(4) [OF assms(1,2)]])
  have "upto_IDEX s' = then_do (upto_IDEX s) (do_IDEX s')"
    unfolding ex by (simp add: upto_IDEX_def)
  also have "\<dots> = in_flight s"
  proof -
    obtain c r m where "upto_IDEX s = (c, r, m)" by (cases "upto_IDEX s")
    then show ?thesis
      using do_IDEX_next [OF assms(1-3), of r m] by (cases c) (auto simp: in_flight_def)
  qed
  finally have "upto_IDEX s' = in_flight s" .
  moreover have "do_IFID s' = instr_effect (instrMem s (unat (p_pc s))) (p_pc s + 1)"
    by (simp add: do_IFID_def cycle_not_taken(2) [OF assms(1,2)])
  ultimately show ?thesis by (simp add: in_flight_def)
qed

lemma flush_taken:
  assumes "cycle s = Some s'" "beq_taken s" "\<not> halted s"
  shows "flush s' = flush s" "fst (in_flight s) \<noteq> Next"
proof -
  have wb: "do_MEMWB s = (Next, wb_regs s, dataMem s)"
    using assms(3) by (simp add: do_MEMWB_def halted_def wb_regs_def Let_def)
  have "do_EXMEM s (wb_regs s, dataMem s) = (Goto (EXMEM_branchTarget (EXMEM s)), wb_regs s, dataMem s)"
    using assms(2) by (simp add: do_EXMEM_def mem_effect_def beq_taken_def Let_def)
  then have fl: "in_flight s = (Goto (EXMEM_branchTarget (EXMEM s)), wb_regs s, dataMem s)"
    by (simp add: in_flight_def upto_IDEX_def wb)
  then show "fst (in_flight s) \<noteq> Next" by simp
  note c = cycle_taken [OF assms(1,2)]
  have "in_flight s' = (Next, wb_regs s, dataMem s)"
    using c assms(2)
    by (simp add: in_flight_def upto_IDEX_def do_MEMWB_def do_EXMEM_def do_IDEX_def do_IFID_def
        Let_def beq_taken_def writeback_def)
  with fl c(1) show "flush s' = flush s" by (simp add: flush_def continue_at_def)
qed

lemma flush_not_taken:
  assumes "cycle s = Some s'" "\<not> beq_taken s" "no_hazard s" "\<not> halted s"
  shows "flush s' = (if fst (in_flight s) = Next then isa_step (instrMem s) (flush s) else flush s)"
proof -
  obtain c rm where "in_flight s = (c, rm)" by (cases "in_flight s") auto
  then show ?thesis
    using in_flight_next [OF assms] cycle_not_taken(1) [OF assms(1,2)]
    by (cases c) (auto simp: flush_def isa_step_def continue_at_def split: prod.splits)
qed

lemma flush_cycle:
  assumes "cycle s = Some s'" "no_hazard s" "\<not> halted s"
  shows "flush s' = (if fst (in_flight s) = Next then isa_step (instrMem s) (flush s) else flush s)"
  using flush_taken [OF assms(1)] flush_not_taken [OF assms(1)] assms(2,3) by (cases "beq_taken s") auto

lemma flush_halted: "halted s \<Longrightarrow> flush s = (None, p_reg s, dataMem s)"
  by (simp add: flush_def in_flight_def upto_IDEX_def do_MEMWB_def halted_def Let_def continue_at_def)

lemma in_flight_init: "in_flight (p_init junk ws) = (Next, p_reg (p_init junk ws), dataMem (p_init junk ws))"
  by (simp add: in_flight_def upto_IDEX_def do_MEMWB_def do_EXMEM_def do_IDEX_def do_IFID_def
      p_init_def Let_def)

lemma flush_init: "flush (p_init junk ws) = (Some 0, p_reg (p_init junk ws), dataMem (p_init junk ws))"
  by (simp add: flush_def in_flight_init continue_at_def) (simp add: p_init_def)

lemma cycle_instrMem: "cycle s = Some s' \<Longrightarrow> instrMem s' = instrMem s"
  using cycle_taken(8) cycle_not_taken(6) by blast

lemma p_run_reaches:
  "p_run fuel s = (tr, Exited) \<Longrightarrow> \<forall>u \<in> set tr. no_hazard u \<Longrightarrow>
     tr \<noteq> [] \<and> halted (last tr) \<and> (\<exists>k. (isa_step (instrMem s) ^^ k) (flush s) = flush (last tr))"
proof (induction fuel arbitrary: s tr)
  case 0
  then show ?case by simp
next
  case (Suc fuel)
  show ?case
  proof (cases "halted s")
    case True
    with Suc.prems show ?thesis by (auto intro: exI [of _ 0])
  next
    case False
    with Suc.prems obtain s' tr' where c: "cycle s = Some s'" and r: "p_run fuel s' = (tr', Exited)"
      and tr: "tr = s # tr'"
      by (auto split: option.splits prod.splits)
    from Suc.IH [OF r] Suc.prems(2) tr obtain k where
      ne: "tr' \<noteq> []" "halted (last tr')"
      and k: "(isa_step (instrMem s') ^^ k) (flush s') = flush (last tr')" by auto
    have "\<exists>j. (isa_step (instrMem s) ^^ j) (flush s) = flush s'"
      using flush_cycle [OF c _ False] Suc.prems(2) tr
      by (auto intro: exI [of _ 0] exI [of _ 1])
    then obtain j where "(isa_step (instrMem s) ^^ j) (flush s) = flush s'" ..
    with k have "(isa_step (instrMem s) ^^ (k + j)) (flush s) = flush (last tr')"
      by (simp add: funpow_add cycle_instrMem [OF c])
    with ne tr show ?thesis by auto
  qed
qed

text \<open>A junk state for concrete runs: everything zero.\<close>

definition zero_state :: pipeState where
  "zero_state = \<lparr>p_pc = 0, instrMem = (\<lambda>_. 0), dataMem = (\<lambda>_. 0), p_reg = (\<lambda>_. 0), p_numMemory = 0,
     IFID = \<lparr>IFID_instr = 0, IFID_pcPlus1 = 0\<rparr>,
     IDEX = \<lparr>IDEX_instr = 0, IDEX_pcPlus1 = 0, IDEX_readRegA = 0, IDEX_readRegB = 0, IDEX_offset = 0\<rparr>,
     EXMEM = \<lparr>EXMEM_instr = 0, EXMEM_branchTarget = 0, EXMEM_aluResult = 0, EXMEM_readRegB = 0\<rparr>,
     MEMWB = \<lparr>MEMWB_instr = 0, MEMWB_writeData = 0\<rparr>,
     WBEND = \<lparr>WBEND_instr = 0, WBEND_writeData = 0\<rparr>, cycles = 0\<rparr>"



text \<open>A cycle on a state given field by field, for concrete runs.\<close>

lemma cycle_fields:
  "cycle \<lparr>p_pc = a, instrMem = im, dataMem = dm, p_reg = r, p_numMemory = nm,
     IFID = \<lparr>IFID_instr = fi, IFID_pcPlus1 = fp\<rparr>,
     IDEX = \<lparr>IDEX_instr = di, IDEX_pcPlus1 = dp, IDEX_readRegA = da, IDEX_readRegB = db, IDEX_offset = dof\<rparr>,
     EXMEM = \<lparr>EXMEM_instr = ei, EXMEM_branchTarget = et, EXMEM_aluResult = ev, EXMEM_readRegB = eb\<rparr>,
     MEMWB = \<lparr>MEMWB_instr = wi, MEMWB_writeData = wd\<rparr>, WBEND = we, cycles = c\<rparr> =
   (if mem_ok a \<and> (p_opcode ei = 2 \<or> p_opcode ei = 3 \<longrightarrow> mem_ok ev) \<and>
       (p_opcode wi = 0 \<or> p_opcode wi = 1 \<longrightarrow> reg_ok (field2 wi))
    then Some
      (if p_opcode ei = 4 \<and> ev = 0
       then \<lparr>p_pc = et, instrMem = im, dataMem = dm, p_reg = writeback wi wd r, p_numMemory = nm,
         IFID = \<lparr>IFID_instr = NOOPINSTRUCTION, IFID_pcPlus1 = 0\<rparr>,
         IDEX = \<lparr>IDEX_instr = NOOPINSTRUCTION, IDEX_pcPlus1 = 0, IDEX_readRegA = 0, IDEX_readRegB = 0,
           IDEX_offset = 0\<rparr>,
         EXMEM = \<lparr>EXMEM_instr = NOOPINSTRUCTION, EXMEM_branchTarget = 0, EXMEM_aluResult = 0,
           EXMEM_readRegB = 0\<rparr>,
         MEMWB = \<lparr>MEMWB_instr = ei, MEMWB_writeData = wd\<rparr>,
         WBEND = \<lparr>WBEND_instr = wi, WBEND_writeData = wd\<rparr>, cycles = c + 1\<rparr>
       else \<lparr>p_pc = a + 1, instrMem = im,
         dataMem = (if p_opcode ei = 3 then dm(unat ev := eb) else dm),
         p_reg = writeback wi wd r, p_numMemory = nm,
         IFID = \<lparr>IFID_instr = im (unat a), IFID_pcPlus1 = a + 1\<rparr>,
         IDEX = \<lparr>IDEX_instr = fi, IDEX_pcPlus1 = fp, IDEX_readRegA = r (unat (field0 fi)),
           IDEX_readRegB = r (unat (field1 fi)), IDEX_offset = convertNum (field2 fi)\<rparr>,
         EXMEM = \<lparr>EXMEM_instr = di, EXMEM_branchTarget = dp + dof,
           EXMEM_aluResult = (if p_opcode di \<in> {0, 1, 2, 3, 4} then alu_op di da db dof else ev),
           EXMEM_readRegB = db\<rparr>,
         MEMWB = \<lparr>MEMWB_instr = ei, MEMWB_writeData =
           (if p_opcode ei = 0 \<or> p_opcode ei = 1 then ev
            else if p_opcode ei = 2 then dm (unat ev) else wd)\<rparr>,
         WBEND = \<lparr>WBEND_instr = wi, WBEND_writeData = wd\<rparr>, cycles = c + 1\<rparr>)
    else None)"
  by (simp add: cycle_def stage_IF_def stage_ID_def stage_EX_def stage_MEM_def stage_WB_def squash_def
      alu_def alu_op_def writeback_def Let_def)

lemma p_run_numeral: "p_run (numeral v) s =
     (if halted s then ([s], Exited)
      else case cycle s of
        None \<Rightarrow> ([s], Undefined)
      | Some s' \<Rightarrow> (let (tr, st) = p_run (pred_numeral v) s' in (s # tr, st)))"
  by (simp add: numeral_eq_Suc)

lemmas pipe_eval = cycle_fields halted_def field0_def field1_def field2_def p_opcode_def convertNum_def
  mem_ok_def reg_ok_def NUMMEMORY_def NUMREGS_def NOOPINSTRUCTION_def alu_op_def writeback_def
  p_init_def zero_state_def p_run_numeral

text \<open>C6: in a cycle without a data hazard the pipeline, its instructions in flight completed, makes
  one step of the sequential machine, or none when the fetched instruction follows a taken branch or a
  halt that is still in flight.\<close>

theorem cycle_refines_isa_step:
  assumes "cycle s = Some s'" "no_hazard s" "\<not> halted s"
  shows "flush s' = (if fst (in_flight s) = Next then isa_step (instrMem s) (flush s) else flush s)"
  by (rule flush_cycle [OF assms])

theorem cycle_refines_isa_step_witness:
  "\<exists>s'. cycle (p_init zero_state [8454146, 25165824, 7]) = Some s' \<and>
    flush s' = isa_step (instrMem (p_init zero_state [8454146, 25165824, 7]))
      (flush (p_init zero_state [8454146, 25165824, 7]))"
proof -
  let ?s = "p_init zero_state [8454146, 25165824, 7]"
  obtain s' where c: "cycle ?s = Some s'"
    by (simp add: pipe_eval)
  have "reg_reads NOOPINSTRUCTION = {}" by (simp add: reg_reads_def)
  then have "no_hazard ?s" "\<not> halted ?s" by (simp_all add: no_hazard_def halted_def p_init_def)
  moreover have "fst (in_flight ?s) = Next" by (simp add: in_flight_init)
  ultimately have "flush s' = isa_step (instrMem ?s) (flush ?s)"
    using cycle_refines_isa_step [OF c] by simp
  with c show ?thesis by blast
qed

text \<open>C1: when a program runs to \<open>machine halted\<close> with no data hazard on the way, the registers and
  the data memory it ends with are those of the sequential machine at its \<open>halt\<close>.\<close>

theorem pipeline_run_correct:
  assumes "p_run fuel (p_init junk ws) = (tr, Exited)" "\<forall>u \<in> set tr. no_hazard u"
  shows "\<exists>k. (isa_step (instrMem (p_init junk ws)) ^^ k)
      (Some 0, p_reg (p_init junk ws), dataMem (p_init junk ws)) =
    (None, p_reg (last tr), dataMem (last tr))"
  using p_run_reaches [OF assms] by (auto simp: flush_init flush_halted)

lemmas hazard_eval = no_hazard_def reg_reads_def reg_writes_def upto_IDEX_def do_MEMWB_def then_do_def
  do_EXMEM_def do_IDEX_def mem_effect_def ex_effect_def Let_def

lemma demo_run: "\<exists>tr. p_run 6 (p_init zero_state [8454146, 25165824, 7]) = (tr, Exited) \<and>
    (\<forall>u \<in> set tr. no_hazard u) \<and> p_reg (last tr) 1 = 7"
  by (simp add: pipe_eval hazard_eval cong: option.case_cong_weak prod.case_cong_weak)

theorem pipeline_run_correct_witness:
  "\<exists>tr k. p_run 6 (p_init zero_state [8454146, 25165824, 7]) = (tr, Exited) \<and> p_reg (last tr) 1 = 7 \<and>
    (isa_step (instrMem (p_init zero_state [8454146, 25165824, 7])) ^^ k)
      (Some 0, p_reg (p_init zero_state [8454146, 25165824, 7]),
        dataMem (p_init zero_state [8454146, 25165824, 7])) =
    (None, p_reg (last tr), dataMem (last tr))"
  using demo_run pipeline_run_correct by blast

text \<open>The condition on hazards is needed. In \<open>lw 0 1 n; add 1 1 2; halt\<close> the \<open>add\<close> reads
  register 1 before the load has written it: the pipeline halts with 0 in register 2 where the
  sequential machine computes 14.\<close>

theorem load_use_hazard:
  "\<exists>tr. p_run 7 (p_init zero_state [8454147, 589826, 25165824, 7]) = (tr, Exited) \<and> p_reg (last tr) 2 = 0 \<and>
    fst (snd ((isa_step (instrMem (p_init zero_state [8454147, 589826, 25165824, 7])) ^^ 3)
      (Some 0, p_reg (p_init zero_state [8454147, 589826, 25165824, 7]),
        dataMem (p_init zero_state [8454147, 589826, 25165824, 7])))) 2 = 14"
proof -
  let ?s = "p_init zero_state [8454147, 589826, 25165824, 7]"
  have "\<exists>tr. p_run 7 ?s = (tr, Exited) \<and> p_reg (last tr) 2 = 0"
    by (simp add: pipe_eval cong: option.case_cong_weak prod.case_cong_weak)
  moreover have "fst (snd ((isa_step (instrMem ?s) ^^ 3) (Some 0, p_reg ?s, dataMem ?s))) 2 = 14"
    by (simp add: pipe_eval isa_step_def instr_effect_def ex_effect_def mem_effect_def continue_at_def
        Let_def funpow_three)
  ultimately show ?thesis by blast
qed

section \<open>The listing of an assembled instruction\<close>

text \<open>The pipeline's listing of an assembled R-type or numeric I-type line is the line again:
  the mnemonic and the three numbers, as long as each fits its field.\<close>

theorem listing_of_assembled_line:
  assumes "f_opcode f \<in> {''add'', ''nor'', ''lw'', ''sw'', ''beq''}"
    and "num_arg (f_arg0 f) a" "num_arg (f_arg1 f) b" "num_arg (f_arg2 f) x"
    and "a < 8" "b < 8" "x < 32768"
  shows "\<exists>w. asm_line labels line f = Inr w \<and>
    printInstruction w = f_opcode f @ '' '' @ print_d a @ '' '' @ print_d b @ '' '' @ print_d x @ [newline]"
proof -
  have u: "unat x < 32768" using assms(7) by (simp add: word_less_nat_alt)
  then have x16: "x < 65536" by (simp add: word_less_nat_alt)
  have "sint x = int (unat x)" using u by (intro small_sint) simp
  with u have x7: "sint x \<le> 32767" "0 \<le> sint x" by linarith+
  have xm: "x AND 0xFFFF = x" using less_mask_eq [of x 16] x16 by (simp add: ffff_mask)
  have enc: "\<exists>opc. fields_ok opc a b x \<and> asm_line labels line f = Inr (packed opc a b x) \<and>
      opcodeString (packed opc a b x) = f_opcode f"
  proof -
    have ok: "opc < 8 \<Longrightarrow> fields_ok opc a b x" for opc
      using assms(5,6) x16 by (simp add: fields_ok_def)
    from assms(1) consider "f_opcode f = ''add''" | "f_opcode f = ''nor''" | "f_opcode f = ''lw''"
      | "f_opcode f = ''sw''" | "f_opcode f = ''beq''" by auto
    then show ?thesis
    proof cases
      case 1
      then show ?thesis using assms(2-4) ok [of 0] packed_shift22 [OF ok [of 0]]
        by (intro exI [of _ 0]) (simp add: asm_line_def op_type_def asm_R_def num_arg_simps packed_def
            opcodeString_def p_opcode_def op_defs)
    next
      case 2
      then show ?thesis using assms(2-4) ok [of 1] packed_shift22 [OF ok [of 1]]
        by (intro exI [of _ 1]) (simp add: asm_line_def op_type_def asm_R_def num_arg_simps packed_def
            opcodeString_def p_opcode_def op_defs)
    next
      case 3
      then show ?thesis using assms(2-4) x7 ok [of 2] packed_shift22 [OF ok [of 2]]
        by (intro exI [of _ 2]) (simp add: asm_line_def op_type_def asm_I_def asm_offset_def num_arg_simps
            packed_def opcodeString_def p_opcode_def op_defs)
    next
      case 4
      then show ?thesis using assms(2-4) x7 ok [of 3] packed_shift22 [OF ok [of 3]]
        by (intro exI [of _ 3]) (simp add: asm_line_def op_type_def asm_I_def asm_offset_def num_arg_simps
            packed_def opcodeString_def p_opcode_def op_defs)
    next
      case 5
      then show ?thesis using assms(2-4) x7 xm ok [of 4] packed_shift22 [OF ok [of 4]]
        by (intro exI [of _ 4]) (simp add: asm_line_def op_type_def asm_I_def asm_offset_def num_arg_simps
            packed_def opcodeString_def p_opcode_def op_defs)
    qed
  qed
  then show ?thesis
    by (auto simp: printInstruction_def field0_def field1_def field2_def fld_simps)
qed


theorem listing_of_assembled_line_witness:
  "\<exists>w. asm_line [] 0 \<lparr>f_label = '''', f_opcode = ''lw'', f_arg0 = ''1'', f_arg1 = ''2'', f_arg2 = ''30''\<rparr> =
      Inr w \<and>
    printInstruction w = ''lw'' @ '' '' @ print_d 1 @ '' '' @ print_d 2 @ '' '' @ print_d 30 @ [newline]"
proof -
  have n: "num_arg ''1'' 1" "num_arg ''2'' 2" "num_arg ''30'' 30" by code_simp+
  show ?thesis
    using listing_of_assembled_line [of "\<lparr>f_label = '''', f_opcode = ''lw'', f_arg0 = ''1'',
      f_arg1 = ''2'', f_arg2 = ''30''\<rparr>" 1 2 30 "[]" 0] n by simp
qed

end
