(* ===== verification/Kalloc.thy ===== *)
theory Kalloc
  imports Prelude
begin

text \<open>
  The physical page allocator of the xv6 kernel (\<open>kalloc.c\<close> with the constants of
  \<open>memlayout.h\<close> and \<open>mmu.h\<close>).  Kernel memory is a map from word-aligned kernel virtual
  addresses to 32-bit words; the free list lives inside the free pages, as in the code.
  A locked section is one atomic step: the locks themselves are not modelled.  The linker
  symbols \<open>end\<close> and \<open>data\<close> are fields of the state that no operation changes.
\<close>

section \<open>Addresses and pages\<close>

definition PGSIZE :: i32 where "PGSIZE = 4096"
definition KERNBASE :: i32 where "KERNBASE = 0x80000000"
definition EXTMEM :: i32 where "EXTMEM = 0x100000"
definition PHYSTOP :: i32 where "PHYSTOP = 0xE000000"
definition DEVSPACE :: i32 where "DEVSPACE = 0xFE000000"
definition KERNLINK :: i32 where "KERNLINK = KERNBASE + EXTMEM"

definition V2P :: "i32 \<Rightarrow> i32" where "V2P a = a - KERNBASE"
definition P2V :: "i32 \<Rightarrow> i32" where "P2V a = a + KERNBASE"

definition PGROUNDUP :: "i32 \<Rightarrow> i32" where
  "PGROUNDUP sz = (sz + PGSIZE - 1) AND NOT (PGSIZE - 1)"
definition PGROUNDDOWN :: "i32 \<Rightarrow> i32" where
  "PGROUNDDOWN a = a AND NOT (PGSIZE - 1)"

lemma V2P_P2V [simp]: "V2P (P2V a) = a" and P2V_V2P [simp]: "P2V (V2P a) = a"
  by (simp_all add: V2P_def P2V_def)

section \<open>State\<close>

record phys =
  kmem :: "i32 \<Rightarrow> i32"
  freelist :: i32
  kend :: i32
  kdata :: i32

definition store :: "i32 \<Rightarrow> i32 \<Rightarrow> 'a phys_scheme \<Rightarrow> 'a phys_scheme" where
  "store a v s = s\<lparr>kmem := (kmem s)(a := v)\<rparr>"

text \<open>\<open>memset(v, c, PGSIZE)\<close> on a page, \<open>c\<close> given as the word of four bytes \<open>c\<close>, and
  \<open>memmove(v, src, PGSIZE)\<close> of a whole page.\<close>

definition memset_page :: "i32 \<Rightarrow> i32 \<Rightarrow> 'a phys_scheme \<Rightarrow> 'a phys_scheme" where
  "memset_page v c s = s\<lparr>kmem := (\<lambda>a. if PGROUNDDOWN a = v then c else kmem s a)\<rparr>"

definition memmove_page :: "i32 \<Rightarrow> i32 \<Rightarrow> 'a phys_scheme \<Rightarrow> 'a phys_scheme" where
  "memmove_page v src s =
     s\<lparr>kmem := (\<lambda>a. if PGROUNDDOWN a = v then kmem s (src + (a - v)) else kmem s a)\<rparr>"

section \<open>Operations\<close>

definition kfree :: "i32 \<Rightarrow> 'a phys_scheme \<Rightarrow> ('a phys_scheme) kres" where
  "kfree v s =
     (if v mod PGSIZE \<noteq> 0 \<or> v < kend s \<or> PHYSTOP \<le> V2P v then Inl (Panic ''kfree'')
      else let s1 = memset_page v 0x01010101 s; s2 = store v (freelist s1) s1
        in Inr (s2\<lparr>freelist := v\<rparr>))"

definition kalloc :: "'a phys_scheme \<Rightarrow> i32 \<times> 'a phys_scheme" where
  "kalloc s =
     (let r = freelist s in
      if r \<noteq> 0 then (r, s\<lparr>freelist := kmem s r\<rparr>) else (r, s))"

lemma kfree_addr:
  assumes "kfree p s = Inr s'"
  shows "p < 0x8E000000"
proof -
  from assms have "V2P p < PHYSTOP" by (auto simp: kfree_def split: if_splits)
  then have "unat (p - 0x80000000) < 0xE000000"
    by (simp add: V2P_def KERNBASE_def PHYSTOP_def word_less_nat_alt)
  then show "p < 0x8E000000"
    by (simp add: word_less_nat_alt unat_sub_if_size word_size split: if_splits)
qed

function freerange_loop :: "i32 \<Rightarrow> i32 \<Rightarrow> 'a phys_scheme \<Rightarrow> ('a phys_scheme) kres" where
  "freerange_loop p vend s =
     (if p + PGSIZE \<le> vend
      then (case kfree p s of Inl e \<Rightarrow> Inl e | Inr s' \<Rightarrow> freerange_loop (p + PGSIZE) vend s')
      else Inr s)"
  by pat_completeness auto
termination
proof (relation "measure (\<lambda>(p, vend, s). 2 ^ 32 - unat p)", goal_cases)
  case 1
  then show ?case by simp
next
  case (2 p vend s s')
  from kfree_addr [OF 2(2)] have "unat p < 0x8E000000" by (simp add: word_less_nat_alt)
  moreover from this have "unat (p + PGSIZE) = unat p + 4096"
    by (simp add: PGSIZE_def unat_word_ariths)
  ultimately show ?case by simp
qed

declare freerange_loop.simps [simp del]

definition freerange :: "i32 \<Rightarrow> i32 \<Rightarrow> 'a phys_scheme \<Rightarrow> ('a phys_scheme) kres" where
  "freerange vstart vend s = freerange_loop (PGROUNDUP vstart) vend s"

section \<open>Page arithmetic\<close>

definition aligned :: "i32 \<Rightarrow> bool" where "aligned a \<longleftrightarrow> a mod PGSIZE = 0"

lemma PGROUNDDOWN_bits: "PGROUNDDOWN a = push_bit 12 (drop_bit 12 a)"
proof -
  have "PGSIZE - 1 = mask 12" by (simp add: PGSIZE_def mask_eq_decr_exp)
  then show ?thesis
    unfolding PGROUNDDOWN_def
    by (intro bit_word_eqI) (auto simp: bit_simps)
qed

lemma unat_PGROUNDDOWN: "unat (PGROUNDDOWN a) = unat a div 4096 * 4096"
proof -
  have [simp]: "take_bit 32 (unat a) = unat a"
    using unat_lt32 [of a] by (intro take_bit_nat_eq_self) simp
  have "unat (PGROUNDDOWN a) = take_bit 32 (push_bit 12 (drop_bit 12 (unat a)))"
    by (simp add: PGROUNDDOWN_bits unsigned_push_bit_eq unsigned_drop_bit_eq)
  also have "push_bit 12 (drop_bit 12 (unat a)) = unat a div 4096 * 4096"
    by (simp add: push_bit_eq_mult drop_bit_eq_div)
  also have "take_bit 32 (unat a div 4096 * 4096) = unat a div 4096 * 4096"
  proof (rule take_bit_nat_eq_self)
    have "unat a div 4096 * 4096 \<le> unat a" by simp
    then show "unat a div 4096 * 4096 < 2 ^ 32" using unat_lt32 [of a] by simp
  qed
  finally show ?thesis .
qed

lemma aligned_unat: "aligned a \<longleftrightarrow> unat a mod 4096 = 0"
  by (simp add: aligned_def PGSIZE_def word_unat_eq_iff unat_mod_distrib)

lemma aligned_PGROUNDDOWN: "aligned a \<longleftrightarrow> PGROUNDDOWN a = a"
proof -
  have "unat a mod 4096 = 0 \<longleftrightarrow> unat a div 4096 * 4096 = unat a" by (metis dvd_div_mult_self dvd_triv_right mod_0_imp_dvd mod_mult_self2_is_0)
  then show ?thesis by (simp add: aligned_unat word_unat_eq_iff unat_PGROUNDDOWN)
qed

lemma aligned_round_down [simp]: "aligned (PGROUNDDOWN a)"
  by (simp add: aligned_unat unat_PGROUNDDOWN)

lemma PGROUNDDOWN_aligned [simp]: "aligned a \<Longrightarrow> PGROUNDDOWN a = a"
  by (simp add: aligned_PGROUNDDOWN)

lemma PGROUNDDOWN_word:
  assumes "aligned d" "unat i < 4096"
  shows "PGROUNDDOWN (d + i) = d"
proof -
  obtain k where k: "unat d = 4096 * k" using assms(1) by (auto simp: aligned_unat)
  have "unat d < 2 ^ 32" using unat_lt32 [of d] by simp
  with k assms(2) have "k < 1048576" by simp
  with k assms(2) have "unat (d + i) = 4096 * k + unat i"
    by (simp add: unat_word_ariths)
  with k assms(2) show ?thesis by (simp add: word_unat_eq_iff unat_PGROUNDDOWN)
qed

section \<open>The free list as a pool of pages\<close>

text \<open>A page that \<open>kfree\<close> accepts.\<close>

definition frame :: "'a phys_scheme \<Rightarrow> i32 \<Rightarrow> bool" where
  "frame s v \<longleftrightarrow> aligned v \<and> kend s \<le> v \<and> V2P v < PHYSTOP"

primrec linked :: "(i32 \<Rightarrow> i32) \<Rightarrow> i32 \<Rightarrow> i32 list \<Rightarrow> bool" where
  "linked m p [] \<longleftrightarrow> p = 0"
| "linked m p (x # xs) \<longleftrightarrow> p = x \<and> x \<noteq> 0 \<and> linked m (m x) xs"

definition free_pages :: "'a phys_scheme \<Rightarrow> i32 list \<Rightarrow> bool" where
  "free_pages s ps \<longleftrightarrow> linked (kmem s) (freelist s) ps \<and> distinct ps \<and> (\<forall>p \<in> set ps. frame s p)"

lemma frame_nonzero: "frame s v \<Longrightarrow> v \<noteq> 0"
  by (auto simp: frame_def V2P_def KERNBASE_def PHYSTOP_def word_less_nat_alt)

lemma linked_cong: "(\<And>x. x \<in> set xs \<Longrightarrow> m' x = m x) \<Longrightarrow> linked m' p xs = linked m p xs"
  by (induction xs arbitrary: p) auto

text \<open>What the pool promises to the rest of the kernel: a stack of distinct good pages.\<close>

locale page_pool =
  fixes pool :: "'s \<Rightarrow> i32 list \<Rightarrow> bool"
    and ok :: "'s \<Rightarrow> i32 \<Rightarrow> bool"
    and give :: "i32 \<Rightarrow> 's \<Rightarrow> 's kres"
    and grab :: "'s \<Rightarrow> i32 \<times> 's"
  assumes ok_nonzero: "ok s v \<Longrightarrow> v \<noteq> 0"
    and pool_distinct: "pool s ps \<Longrightarrow> distinct ps"
    and pool_ok: "pool s ps \<Longrightarrow> p \<in> set ps \<Longrightarrow> ok s p"
    and grab_Nil: "pool s [] \<Longrightarrow> grab s = (0, s)"
    and grab_Cons: "pool s (p # ps) \<Longrightarrow> \<exists>s'. grab s = (p, s') \<and> pool s' ps \<and> ok s' = ok s"
    and give_ok: "pool s ps \<Longrightarrow> ok s v \<Longrightarrow> v \<notin> set ps \<Longrightarrow>
                    \<exists>s'. give v s = Inr s' \<and> pool s' (v # ps) \<and> ok s' = ok s"
begin

lemma grab_zero: "pool s ps \<Longrightarrow> fst (grab s) = 0 \<longleftrightarrow> ps = []"
  using grab_Nil grab_Cons [of s "hd ps" "tl ps"] pool_ok ok_nonzero
  by (cases ps) (auto, metis fst_conv list.set_intros(1))

lemma grab_fresh:
  assumes "pool s ps" "grab s = (p, s')" "p \<noteq> 0"
  shows "ps = p # tl ps \<and> pool s' (tl ps) \<and> p \<notin> set (tl ps) \<and> ok s p \<and> ok s' = ok s"
proof (cases ps)
  case Nil
  with assms grab_Nil show ?thesis by auto
next
  case (Cons q qs)
  with grab_Cons [of s q qs] assms obtain "q = p" "pool s' qs" "ok s' = ok s" by auto
  with Cons pool_distinct [OF assms(1)] pool_ok [OF assms(1), of q] show ?thesis by simp
qed

lemma grab_give:
  assumes "pool s (p # ps)"
  shows "\<exists>s' s''. grab s = (p, s') \<and> give p s' = Inr s'' \<and> pool s'' (p # ps)"
proof -
  obtain s' where s': "grab s = (p, s')" "pool s' ps" "ok s' = ok s"
    using grab_Cons [OF assms] by auto
  have "ok s' p" "p \<notin> set ps"
    using pool_ok [OF assms, of p] pool_distinct [OF assms] s'(3) by auto
  with give_ok [OF s'(2)] s'(1) show ?thesis by blast
qed

end

lemma memset_page_kmem [simp]:
  "kmem (memset_page v c s) a = (if PGROUNDDOWN a = v then c else kmem s a)"
  "freelist (memset_page v c s) = freelist s" "kend (memset_page v c s) = kend s"
  by (simp_all add: memset_page_def)

lemma store_kmem [simp]:
  "kmem (store a v s) = (kmem s)(a := v)"
  "freelist (store a v s) = freelist s" "kend (store a v s) = kend s"
  by (simp_all add: store_def)

lemma memmove_page_kmem [simp]:
  "kmem (memmove_page v src s) a =
     (if PGROUNDDOWN a = v then kmem s (src + (a - v)) else kmem s a)"
  "freelist (memmove_page v src s) = freelist s" "kend (memmove_page v src s) = kend s"
  by (simp_all add: memmove_page_def)

lemma kfree_frame: "frame s v \<Longrightarrow>
    kfree v s = Inr ((store v (freelist s) (memset_page v 0x01010101 s))\<lparr>freelist := v\<rparr>)"
  unfolding frame_def aligned_def by (simp add: kfree_def Let_def not_less not_le)

lemma kfree_not_frame: "\<not> frame s v \<Longrightarrow> kfree v s = Inl (Panic ''kfree'')"
  unfolding frame_def aligned_def by (simp add: kfree_def not_less not_le)

lemma kfree_pool:
  assumes "free_pages s ps" "frame s v" "v \<notin> set ps"
  shows "\<exists>s'. kfree v s = Inr s' \<and> free_pages s' (v # ps) \<and> frame s' = frame s"
proof -
  let ?s = "(store v (freelist s) (memset_page v 0x01010101 s))\<lparr>freelist := v\<rparr>"
  have v: "PGROUNDDOWN v = v" using assms(2) by (simp add: frame_def)
  have "linked (kmem ?s) (freelist s) ps = linked (kmem s) (freelist s) ps"
    using assms by (intro linked_cong) (auto simp: free_pages_def frame_def)
  moreover have "frame ?s = frame s" by (rule ext) (simp add: frame_def)
  ultimately have "free_pages ?s (v # ps)"
    using assms frame_nonzero [OF assms(2)] by (simp add: free_pages_def v)
  with kfree_frame [OF assms(2)] \<open>frame ?s = frame s\<close> show ?thesis by blast
qed

interpretation kpool: page_pool free_pages frame kfree kalloc
proof (unfold_locales, goal_cases)
  case (1 s v) then show ?case by (rule frame_nonzero)
next
  case (2 s ps) then show ?case by (simp add: free_pages_def)
next
  case (3 s ps p) then show ?case by (simp add: free_pages_def)
next
  case (4 s) then show ?case by (simp add: free_pages_def kalloc_def)
next
  case (5 s p ps)
  let ?s = "s\<lparr>freelist := kmem s p\<rparr>"
  have "frame ?s = frame s" by (rule ext) (simp add: frame_def)
  with 5 show ?case by (auto simp: free_pages_def kalloc_def Let_def)
next
  case (6 s ps v) then show ?case by (rule kfree_pool)
qed

lemma free_pages_cong:
  assumes "\<And>p. p \<in> set ps \<Longrightarrow> kmem s' p = kmem s p" "freelist s' = freelist s" "kend s' = kend s"
  shows "free_pages s' ps = free_pages s ps"
proof -
  have "frame s' = frame s" using assms(3) by (intro ext) (simp add: frame_def)
  moreover have "linked (kmem s') (freelist s') ps = linked (kmem s) (freelist s) ps"
    unfolding assms(2) by (rule linked_cong) (rule assms(1))
  ultimately show ?thesis by (simp add: free_pages_def)
qed

lemma free_pages_aligned: "free_pages s ps \<Longrightarrow> p \<in> set ps \<Longrightarrow> aligned p"
  by (simp add: free_pages_def frame_def)

lemma free_pages_store [upd_simps]:
  assumes "PGROUNDDOWN a \<notin> set ps"
  shows "free_pages (store a v s) ps = free_pages s ps"
proof (cases "\<forall>p \<in> set ps. aligned p")
  case True
  with assms show ?thesis by (intro free_pages_cong) auto
next
  case False
  then show ?thesis by (meson free_pages_aligned)
qed

lemma free_pages_memset [upd_simps]:
  assumes "v \<notin> set ps"
  shows "free_pages (memset_page v c s) ps = free_pages s ps"
proof (cases "\<forall>p \<in> set ps. aligned p")
  case True
  with assms show ?thesis by (intro free_pages_cong) auto
next
  case False
  then show ?thesis by (meson free_pages_aligned)
qed

section \<open>Filling the pool at boot\<close>

definition pages_from :: "i32 \<Rightarrow> nat \<Rightarrow> i32 list" where
  "pages_from p n = map (\<lambda>i. p + of_nat i * PGSIZE) [0..<n]"

lemma pages_from_0 [simp]: "pages_from p 0 = []"
  by (simp add: pages_from_def)

lemma pages_from_Suc: "pages_from p (Suc n) = p # pages_from (p + PGSIZE) n"
proof -
  have "map (\<lambda>i. p + of_nat i * PGSIZE) [0..<Suc n] =
        p # map ((\<lambda>i. p + of_nat i * PGSIZE) \<circ> Suc) [0..<n]"
    by (subst upt_conv_Cons) (simp_all add: map_Suc_upt [symmetric] del: upt_Suc)
  also have "map ((\<lambda>i. p + of_nat i * PGSIZE) \<circ> Suc) [0..<n] = pages_from (p + PGSIZE) n"
    by (simp add: pages_from_def algebra_simps)
  finally show ?thesis by (simp add: pages_from_def)
qed

lemma pages_from_nth:
  assumes "unat p + n * 4096 \<le> 4294967296" "i < n"
  shows "unat (p + of_nat i * PGSIZE) = unat p + i * 4096"
proof -
  have i: "i * 4096 < n * 4096" using assms(2) by simp
  with assms(1) have "i * 4096 < 4294967296" by linarith
  then have "unat (of_nat i * PGSIZE :: i32) = i * 4096"
    by (simp add: PGSIZE_def unat_word_ariths unat_of_nat)
  with i assms(1) show ?thesis by (subst unat_add32) auto
qed

lemma pages_from_member:
  assumes "q \<in> set (pages_from p n)" "unat p + n * 4096 \<le> 4294967296"
  obtains i where "i < n" "unat q = unat p + i * 4096"
  using assms pages_from_nth [OF assms(2)] by (auto simp: pages_from_def)

lemma pages_from_distinct:
  assumes "unat p + n * 4096 \<le> 4294967296"
  shows "distinct (pages_from p n)"
proof -
  have "inj_on (\<lambda>i. p + of_nat i * PGSIZE) {0..<n}"
  proof (rule inj_onI)
    fix i j assume "i \<in> {0..<n}" "j \<in> {0..<n}" "p + of_nat i * PGSIZE = p + of_nat j * PGSIZE"
    then have "unat p + i * 4096 = unat p + j * 4096"
      by (metis assms atLeastLessThan_iff pages_from_nth)
    then show "i = j" by simp
  qed
  then show ?thesis by (simp add: pages_from_def distinct_map)
qed

lemma frame_unat:
  "frame s p \<longleftrightarrow> unat p mod 4096 = 0 \<and> unat (kend s) \<le> unat p \<and>
     0x80000000 \<le> unat p \<and> unat p < 0x8E000000" if "KERNBASE \<le> kend s"
proof -
  have "V2P p < PHYSTOP \<longleftrightarrow> unat p < 0x8E000000" if "0x80000000 \<le> unat p"
  proof -
    have "unat (p - 0x80000000) = unat p - 0x80000000"
      using that by (simp add: unat_sub_if_size word_size)
    with that show ?thesis by (simp add: V2P_def KERNBASE_def PHYSTOP_def word_less_nat_alt, arith)
  qed
  moreover have "unat (kend s) \<ge> 0x80000000" using that by (simp add: KERNBASE_def word_le_nat_alt)
  ultimately show ?thesis by (auto simp: frame_def aligned_unat word_le_nat_alt)
qed

lemma freerange_loop_pool:
  assumes "free_pages s ps" "unat vend = unat p + n * 4096 + r" "r < 4096"
    and "unat vend \<le> 0x8E000000" "set (pages_from p n) \<inter> set ps = {}"
    and "aligned p" "KERNBASE \<le> kend s" "kend s \<le> p"
  shows "\<exists>s'. freerange_loop p vend s = Inr s' \<and> free_pages s' (rev (pages_from p n) @ ps)"
  using assms
proof (induction n arbitrary: p s ps)
  case 0
  then have "unat (p + PGSIZE) = unat p + 4096" by (subst unat_add32) (auto simp: PGSIZE_def)
  with 0 have "\<not> p + PGSIZE \<le> vend" by (simp add: word_le_nat_alt)
  with 0 show ?case by (subst freerange_loop.simps) simp
next
  case (Suc n)
  have step: "unat (p + PGSIZE) = unat p + 4096"
    using Suc.prems by (subst unat_add32) (auto simp: PGSIZE_def)
  then have le: "p + PGSIZE \<le> vend" using Suc.prems by (simp add: word_le_nat_alt)
  have fr: "frame s p" unfolding frame_unat [OF Suc.prems(7)]
    using Suc.prems by (simp add: aligned_unat word_le_nat_alt KERNBASE_def)
  have "p \<notin> set ps" using Suc.prems(5) by (simp add: pages_from_Suc)
  from kfree_pool [OF Suc.prems(1) fr this] obtain s1 where
    s1: "kfree p s = Inr s1" "free_pages s1 (p # ps)" "frame s1 = frame s" by auto
  have kend: "kend s1 = kend s" using s1(1) fr by (auto simp: kfree_frame)
  have "p \<notin> set (pages_from (p + PGSIZE) n)"
  proof
    assume *: "p \<in> set (pages_from (p + PGSIZE) n)"
    have "unat (p + PGSIZE) + n * 4096 \<le> 4294967296" using step Suc.prems(2,4) by simp
    from pages_from_member [OF * this] step show False by auto
  qed
  then have dis: "set (pages_from (p + PGSIZE) n) \<inter> set (p # ps) = {}"
    using Suc.prems(5) by (auto simp: pages_from_Suc)
  have al: "aligned (p + PGSIZE)" using Suc.prems(6) step by (simp add: aligned_unat)
  have kp: "kend s1 \<le> p + PGSIZE" using Suc.prems(8) step kend by (simp add: word_le_nat_alt)
  have "unat vend = unat (p + PGSIZE) + n * 4096 + r" using step Suc.prems(2) by simp
  from Suc.IH [OF s1(2) this Suc.prems(3,4) dis al _ kp] kend Suc.prems(7)
  have "\<exists>s'. freerange_loop (p + PGSIZE) vend s1 = Inr s' \<and>
          free_pages s' (rev (pages_from (p + PGSIZE) n) @ p # ps)" by simp
  with le s1(1) show ?case by (subst freerange_loop.simps) (simp add: pages_from_Suc)
qed

text \<open>C39: \<open>kinit1\<close>'s and \<open>kinit2\<close>'s \<open>freerange\<close> puts every whole page between the two addresses on
  the free list, the last one first, and loses none of the pages that were already free.\<close>

theorem freerange_fills_pool:
  assumes "free_pages s ps" "KERNBASE \<le> kend s" "kend s \<le> PGROUNDUP vstart"
    and "PGROUNDUP vstart \<le> vend" "unat vend \<le> 0x8E000000"
    and "set (pages_from (PGROUNDUP vstart) ((unat vend - unat (PGROUNDUP vstart)) div 4096)) \<inter> set ps = {}"
  shows "\<exists>s'. freerange vstart vend s = Inr s' \<and>
    free_pages s' (rev (pages_from (PGROUNDUP vstart) ((unat vend - unat (PGROUNDUP vstart)) div 4096)) @ ps)"
proof -
  let ?p = "PGROUNDUP vstart" and ?n = "(unat vend - unat (PGROUNDUP vstart)) div 4096"
  have "PGROUNDUP vstart = PGROUNDDOWN (vstart + PGSIZE - 1)"
    unfolding PGROUNDUP_def PGROUNDDOWN_def ..
  then have al: "aligned ?p" by simp
  have "unat vend = unat ?p + (unat vend - unat ?p)" using assms(4) by (simp add: word_le_nat_alt)
  also have "\<dots> = unat ?p + ?n * 4096 + (unat vend - unat ?p) mod 4096" by simp
  finally have v: "unat vend = unat ?p + ?n * 4096 + (unat vend - unat ?p) mod 4096" .
  show ?thesis unfolding freerange_def
    by (rule freerange_loop_pool [OF assms(1) v _ assms(5,6) al assms(2,3)]) simp
qed

theorem freerange_fills_pool_witness:
  "\<exists>s'. freerange 0x80200001 0x80203800 \<lparr>kmem = (\<lambda>_. 0), freelist = 0, kend = 0x80200000, kdata = 0x80108000\<rparr> = Inr s' \<and>
     free_pages s' [0x80202000, 0x80201000]"
proof -
  let ?s = "\<lparr>kmem = (\<lambda>_. 0), freelist = 0, kend = 0x80200000, kdata = 0x80108000\<rparr> :: phys"
  have p: "PGROUNDUP 0x80200001 = 0x80201000" by (simp add: PGROUNDUP_def PGSIZE_def)
  have n: "(unat (0x80203800 :: i32) - unat (PGROUNDUP 0x80200001)) div 4096 = 2" by (simp add: p)
  have l: "pages_from (PGROUNDUP 0x80200001) 2 = [0x80201000, 0x80202000]"
    by (simp add: p pages_from_def PGSIZE_def numeral_2_eq_2)
  have "free_pages ?s []" by (simp add: free_pages_def)
  from freerange_fills_pool [OF this, of "0x80200001" "0x80203800", unfolded n l]
  show ?thesis by (simp add: p KERNBASE_def)
qed

end
