(* ===== verification/Vm.thy ===== *)
theory Vm
  imports Kalloc
begin

text \<open>
  Page tables (\<open>vm.c\<close>): a page directory is a page of the memory of \<open>Kalloc\<close>, and every
  operation reads and writes its words.  An \<open>int\<close> result is an \<open>int\<close>; a loop over
  addresses that would wrap past \<open>2 ^ 32\<close> never ends in the code and is \<open>Diverge\<close> here.
  \<open>seginit\<close> and the segment registers are not modelled.
\<close>

section \<open>Page table entries\<close>

definition PDX :: "i32 \<Rightarrow> i32" where "PDX va = drop_bit 22 va AND 0x3FF"
definition PTX :: "i32 \<Rightarrow> i32" where "PTX va = drop_bit 12 va AND 0x3FF"
definition PGADDR :: "i32 \<Rightarrow> i32 \<Rightarrow> i32 \<Rightarrow> i32" where
  "PGADDR d t off = push_bit 22 d OR push_bit 12 t OR off"

definition PTE_P :: i32 where "PTE_P = 1"
definition PTE_W :: i32 where "PTE_W = 2"
definition PTE_U :: i32 where "PTE_U = 4"
definition PTE_ADDR :: "i32 \<Rightarrow> i32" where "PTE_ADDR pte = pte AND NOT 0xFFF"
definition PTE_FLAGS :: "i32 \<Rightarrow> i32" where "PTE_FLAGS pte = pte AND 0xFFF"

definition present :: "i32 \<Rightarrow> bool" where "present pte \<longleftrightarrow> pte AND PTE_P \<noteq> 0"

section \<open>Operations\<close>

text \<open>The address of the entry for \<open>va\<close>, 0 for the null pointer.\<close>

definition walkpgdir :: "i32 \<Rightarrow> i32 \<Rightarrow> bool \<Rightarrow> 'a phys_scheme \<Rightarrow> i32 \<times> 'a phys_scheme" where
  "walkpgdir pgdir va alloc s =
     (let pde = pgdir + 4 * PDX va in
      if present (kmem s pde) then (P2V (PTE_ADDR (kmem s pde)) + 4 * PTX va, s)
      else if \<not> alloc then (0, s)
      else let (pgtab, s1) = kalloc s in
        if pgtab = 0 then (0, s1)
        else let s2 = memset_page pgtab 0 s1;
                 s3 = store pde (V2P pgtab OR PTE_P OR PTE_W OR PTE_U) s2
          in (pgtab + 4 * PTX va, s3))"

text \<open>The loop of \<open>mappages\<close>, with as much fuel as there are pages after \<open>a\<close>.\<close>

primrec mappages_loop ::
  "nat \<Rightarrow> i32 \<Rightarrow> i32 \<Rightarrow> i32 \<Rightarrow> i32 \<Rightarrow> i32 \<Rightarrow> 'a phys_scheme \<Rightarrow> (int \<times> 'a phys_scheme) kres" where
  "mappages_loop 0 pgdir a final pa perm s = Inl Diverge"
| "mappages_loop (Suc n) pgdir a final pa perm s =
     (case walkpgdir pgdir a True s of (pte, s1) \<Rightarrow>
      if pte = 0 then Inr (-1, s1)
      else if present (kmem s1 pte) then Inl (Panic ''remap'')
      else let s2 = store pte (pa OR perm OR PTE_P) s1 in
        if a = final then Inr (0, s2)
        else mappages_loop n pgdir (a + PGSIZE) final (pa + PGSIZE) perm s2)"

definition mappages ::
  "i32 \<Rightarrow> i32 \<Rightarrow> i32 \<Rightarrow> i32 \<Rightarrow> i32 \<Rightarrow> 'a phys_scheme \<Rightarrow> (int \<times> 'a phys_scheme) kres" where
  "mappages pgdir va sz pa perm s =
     (let a = PGROUNDDOWN va; final = PGROUNDDOWN (va + sz - 1) in
      mappages_loop (Suc (unat (final - a) div 4096)) pgdir a final pa perm s)"

function deallocuvm_loop :: "i32 \<Rightarrow> i32 \<Rightarrow> i32 \<Rightarrow> 'a phys_scheme \<Rightarrow> ('a phys_scheme) kres" where
  "deallocuvm_loop pgdir a oldsz s =
     (if \<not> a < oldsz then Inr s
      else let pte = fst (walkpgdir pgdir a False s) in
        if pte = 0 then
          let a' = PGADDR (PDX a + 1) 0 0 - PGSIZE + PGSIZE in
          if a' \<le> a then Inl Diverge else deallocuvm_loop pgdir a' oldsz s
        else
          case (if present (kmem s pte)
                then let pa = PTE_ADDR (kmem s pte) in
                  if pa = 0 then Inl (Panic ''kfree'')
                  else call (kfree (P2V pa) s) (\<lambda>s1. Inr (store pte 0 s1))
                else Inr s) of
            Inl e \<Rightarrow> Inl e
          | Inr s1 \<Rightarrow>
              if a + PGSIZE \<le> a then Inl Diverge else deallocuvm_loop pgdir (a + PGSIZE) oldsz s1)"
  by pat_completeness auto
termination
  by (relation "measure (\<lambda>(pgdir, a, oldsz, s). 2 ^ 32 - unat a)")
    (auto simp: not_le word_less_nat_alt intro!: diff_less_mono2 less_trans [OF _ unat_lt32])

declare deallocuvm_loop.simps [simp del]

definition deallocuvm :: "i32 \<Rightarrow> i32 \<Rightarrow> i32 \<Rightarrow> 'a phys_scheme \<Rightarrow> (i32 \<times> 'a phys_scheme) kres" where
  "deallocuvm pgdir oldsz newsz s =
     (if oldsz \<le> newsz then Inr (oldsz, s)
      else call (deallocuvm_loop pgdir (PGROUNDUP newsz) oldsz s) (\<lambda>s1. Inr (newsz, s1)))"

function allocuvm_loop ::
  "i32 \<Rightarrow> i32 \<Rightarrow> i32 \<Rightarrow> i32 \<Rightarrow> 'a phys_scheme \<Rightarrow> (i32 \<times> 'a phys_scheme) kres" where
  "allocuvm_loop pgdir a oldsz newsz s =
     (if \<not> a < newsz then Inr (newsz, s)
      else case kalloc s of (mem, s1) \<Rightarrow>
        if mem = 0 then call (deallocuvm pgdir newsz oldsz s1) (\<lambda>(_, s2). Inr (0, s2))
        else case mappages pgdir a PGSIZE (V2P mem) (PTE_W OR PTE_U) (memset_page mem 0 s1) of
          Inl e \<Rightarrow> Inl e
        | Inr (r, s2) \<Rightarrow>
            if r < 0 then
              call (deallocuvm pgdir newsz oldsz s2) (\<lambda>(_, s3).
              call (kfree mem s3) (\<lambda>s4. Inr (0, s4)))
            else if a + PGSIZE \<le> a then Inl Diverge
            else allocuvm_loop pgdir (a + PGSIZE) oldsz newsz s2)"
  by pat_completeness auto
termination
  by (relation "measure (\<lambda>(pgdir, a, oldsz, newsz, s). 2 ^ 32 - unat a)")
    (auto simp: not_le word_less_nat_alt intro!: diff_less_mono2 less_trans [OF _ unat_lt32])

declare allocuvm_loop.simps [simp del]

definition allocuvm :: "i32 \<Rightarrow> i32 \<Rightarrow> i32 \<Rightarrow> 'a phys_scheme \<Rightarrow> (i32 \<times> 'a phys_scheme) kres" where
  "allocuvm pgdir oldsz newsz s =
     (if KERNBASE \<le> newsz then Inr (0, s)
      else if newsz < oldsz then Inr (oldsz, s)
      else allocuvm_loop pgdir (PGROUNDUP oldsz) oldsz newsz s)"

text \<open>The second half of \<open>freevm\<close>: the page-table pages, directory entries \<open>i\<close> to 1023.\<close>

primrec free_tables :: "nat \<Rightarrow> i32 \<Rightarrow> i32 \<Rightarrow> 'a phys_scheme \<Rightarrow> ('a phys_scheme) kres" where
  "free_tables 0 pgdir i s = Inr s"
| "free_tables (Suc n) pgdir i s =
     (let pde = kmem s (pgdir + 4 * i) in
      if present pde
      then call (kfree (P2V (PTE_ADDR pde)) s) (free_tables n pgdir (i + 1))
      else free_tables n pgdir (i + 1) s)"

definition freevm :: "i32 \<Rightarrow> 'a phys_scheme \<Rightarrow> ('a phys_scheme) kres" where
  "freevm pgdir s =
     (if pgdir = 0 then Inl (Panic ''freevm: no pgdir'')
      else call (deallocuvm pgdir KERNBASE 0 s) (\<lambda>(_, s1).
           call (free_tables 1024 pgdir 0 s1) (kfree pgdir)))"

definition kmap :: "'a phys_scheme \<Rightarrow> (i32 \<times> i32 \<times> i32 \<times> i32) list" where
  "kmap s =
     [(KERNBASE, 0, EXTMEM, PTE_W),
      (KERNLINK, V2P KERNLINK, V2P (kdata s), 0),
      (kdata s, V2P (kdata s), PHYSTOP, PTE_W),
      (DEVSPACE, DEVSPACE, 0, PTE_W)]"

primrec map_kernel ::
  "(i32 \<times> i32 \<times> i32 \<times> i32) list \<Rightarrow> i32 \<Rightarrow> 'a phys_scheme \<Rightarrow> (i32 \<times> 'a phys_scheme) kres" where
  "map_kernel [] pgdir s = Inr (pgdir, s)"
| "map_kernel (k # ks) pgdir s =
     (case k of (virt, phys_start, phys_end, perm) \<Rightarrow>
      call (mappages pgdir virt (phys_end - phys_start) phys_start perm s) (\<lambda>(r, s1).
      if r < 0 then call (freevm pgdir s1) (\<lambda>s2. Inr (0, s2))
      else map_kernel ks pgdir s1))"

definition setupkvm :: "'a phys_scheme \<Rightarrow> (i32 \<times> 'a phys_scheme) kres" where
  "setupkvm s =
     (case kalloc s of (pgdir, s1) \<Rightarrow>
      if pgdir = 0 then Inr (0, s1)
      else let s2 = memset_page pgdir 0 s1 in
        if DEVSPACE < P2V PHYSTOP then Inl (Panic ''PHYSTOP too high'')
        else map_kernel (kmap s2) pgdir s2)"

definition clearpteu :: "i32 \<Rightarrow> i32 \<Rightarrow> 'a phys_scheme \<Rightarrow> ('a phys_scheme) kres" where
  "clearpteu pgdir uva s =
     (let pte = fst (walkpgdir pgdir uva False s) in
      if pte = 0 then Inl (Panic ''clearpteu'')
      else Inr (store pte (kmem s pte AND NOT PTE_U) s))"

text \<open>The loop of \<open>copyuvm\<close>: \<open>Inr (False, _)\<close> is the jump to \<open>bad\<close>.\<close>

function copyuvm_loop ::
  "i32 \<Rightarrow> i32 \<Rightarrow> i32 \<Rightarrow> i32 \<Rightarrow> 'a phys_scheme \<Rightarrow> (bool \<times> 'a phys_scheme) kres" where
  "copyuvm_loop pgdir d i sz s =
     (if \<not> i < sz then Inr (True, s)
      else let pte = fst (walkpgdir pgdir i False s) in
        if pte = 0 then Inl (Panic ''copyuvm: pte should exist'')
        else if \<not> present (kmem s pte) then
          if i + PGSIZE \<le> i then Inl Diverge else copyuvm_loop pgdir d (i + PGSIZE) sz s
        else let pa = PTE_ADDR (kmem s pte); flags = PTE_FLAGS (kmem s pte) in
          case kalloc s of (mem, s1) \<Rightarrow>
          if mem = 0 then Inr (False, s1)
          else case mappages d i PGSIZE (V2P mem) flags (memmove_page mem (P2V pa) s1) of
            Inl e \<Rightarrow> Inl e
          | Inr (r, s2) \<Rightarrow>
              if r < 0 then Inr (False, s2)
              else if i + PGSIZE \<le> i then Inl Diverge
              else copyuvm_loop pgdir d (i + PGSIZE) sz s2)"
  by pat_completeness auto
termination
  by (relation "measure (\<lambda>(pgdir, d, i, sz, s). 2 ^ 32 - unat i)")
    (auto simp: not_le word_less_nat_alt intro!: diff_less_mono2 less_trans [OF _ unat_lt32])

declare copyuvm_loop.simps [simp del]

definition copyuvm :: "i32 \<Rightarrow> i32 \<Rightarrow> 'a phys_scheme \<Rightarrow> (i32 \<times> 'a phys_scheme) kres" where
  "copyuvm pgdir sz s =
     call (setupkvm s) (\<lambda>(d, s1).
     if d = 0 then Inr (0, s1)
     else call (copyuvm_loop pgdir d 0 sz s1) (\<lambda>(ok, s2).
       if ok then Inr (d, s2) else call (freevm d s2) (\<lambda>s3. Inr (0, s3))))"

definition uva2ka :: "i32 \<Rightarrow> i32 \<Rightarrow> 'a phys_scheme \<Rightarrow> i32 kres" where
  "uva2ka pgdir uva s =
     (let pte = fst (walkpgdir pgdir uva False s) in
      if pte = 0 then Inl Fault
      else if kmem s pte AND PTE_P = 0 then Inr 0
      else if kmem s pte AND PTE_U = 0 then Inr 0
      else Inr (P2V (PTE_ADDR (kmem s pte))))"

text \<open>Bytes within the words of memory, lowest byte first.\<close>

definition load_byte :: "'a phys_scheme \<Rightarrow> i32 \<Rightarrow> i8" where
  "load_byte s a = ucast (drop_bit (8 * unat (a AND 3)) (kmem s (a AND NOT 3)))"

definition store_byte :: "i32 \<Rightarrow> i8 \<Rightarrow> 'a phys_scheme \<Rightarrow> 'a phys_scheme" where
  "store_byte a b s =
     (let k = 8 * unat (a AND 3); w = kmem s (a AND NOT 3) in
      store (a AND NOT 3) (w AND NOT (push_bit k 0xFF) OR push_bit k (ucast b)) s)"

primrec store_bytes :: "i32 \<Rightarrow> i8 list \<Rightarrow> 'a phys_scheme \<Rightarrow> 'a phys_scheme" where
  "store_bytes a [] s = s"
| "store_bytes a (b # bs) s = store_bytes (a + 1) bs (store_byte a b s)"

definition inituvm :: "i32 \<Rightarrow> i8 list \<Rightarrow> 'a phys_scheme \<Rightarrow> ('a phys_scheme) kres" where
  "inituvm pgdir init s =
     (if 4096 \<le> length init then Inl (Panic ''inituvm: more than a page'')
      else case kalloc s of (mem, s1) \<Rightarrow>
        if mem = 0 then Inl Fault
        else call (mappages pgdir 0 PGSIZE (V2P mem) (PTE_W OR PTE_U) (memset_page mem 0 s1))
          (\<lambda>(_, s2). Inr (store_bytes mem init s2)))"

text \<open>How many bytes \<open>copyout\<close> writes into the page of \<open>va\<close>.\<close>

definition in_page :: "i32 \<Rightarrow> nat" where
  "in_page va = unat (PGSIZE - (va - PGROUNDDOWN va))"

lemma in_page_pos: "0 < in_page va"
proof -
  have le: "unat (PGROUNDDOWN va) \<le> unat va" by (simp add: unat_PGROUNDDOWN)
  have "unat (va - PGROUNDDOWN va) = unat va - unat va div 4096 * 4096"
    using le by (simp add: unat_sub_if_size word_size unat_PGROUNDDOWN)
  then have "unat (va - PGROUNDDOWN va) < 4096"
    by (simp add: minus_div_mult_eq_mod)
  then show ?thesis
    by (simp add: in_page_def PGSIZE_def unat_sub_if_size word_size)
qed

function copyout :: "i32 \<Rightarrow> i32 \<Rightarrow> i8 list \<Rightarrow> 'a phys_scheme \<Rightarrow> (int \<times> 'a phys_scheme) kres" where
  "copyout pgdir va buf s =
     (if buf = [] then Inr (0, s)
      else let va0 = PGROUNDDOWN va; n = min (in_page va) (length buf) in
        case uva2ka pgdir va0 s of
          Inl e \<Rightarrow> Inl e
        | Inr pa0 \<Rightarrow>
            if pa0 = 0 then Inr (-1, s)
            else copyout pgdir (va0 + PGSIZE) (drop n buf)
                   (store_bytes (pa0 + (va - va0)) (take n buf) s))"
  by pat_completeness auto
termination
  by (relation "measure (\<lambda>(pgdir, va, buf, s). length buf)") (auto simp: in_page_pos)

declare copyout.simps [simp del]

section \<open>Entries and addresses\<close>

lemma PDX_less [simp]: "unat (PDX va) < 1024" and PTX_less [simp]: "unat (PTX va) < 1024"
proof -
  have *: "unat (w AND 0x3FF :: i32) < 1024" for w
  proof -
    have "(w AND 0x3FF) = take_bit 10 w" by (simp add: take_bit_eq_mask mask_eq_decr_exp)
    then have "unat (w AND 0x3FF) = take_bit 10 (unat w)" by (simp add: unsigned_take_bit_eq)
    then show ?thesis by (simp add: take_bit_eq_mod)
  qed
  show "unat (PDX va) < 1024" "unat (PTX va) < 1024" by (simp_all add: PDX_def PTX_def *)
qed

lemma unat_times4: "unat i < 1024 \<Longrightarrow> unat (4 * i :: i32) = 4 * unat i"
  by (simp add: unat_word_ariths)

lemma entry_page [simp]: "aligned d \<Longrightarrow> unat i < 1024 \<Longrightarrow> PGROUNDDOWN (d + 4 * i) = d"
  by (rule PGROUNDDOWN_word) (simp_all add: unat_times4)

lemma times4_inj [simp]:
  "unat i < 1024 \<Longrightarrow> unat j < 1024 \<Longrightarrow> (4 * i = 4 * (j :: i32)) = (i = j)"
  by (simp only: word_unat_eq_iff unat_times4) simp

lemma entry_inj [simp]:
  "unat i < 1024 \<Longrightarrow> unat j < 1024 \<Longrightarrow> (d + 4 * i = d + 4 * (j :: i32)) = (i = j)"
  by simp

lemma and_mask10: "(w AND 0x3FF :: i32) = take_bit 10 w"
  by (simp add: take_bit_eq_mask mask_eq_decr_exp)

lemma page_of_indices: "PGROUNDDOWN va = push_bit 22 (PDX va) OR push_bit 12 (PTX va)"
  unfolding PGROUNDDOWN_bits PDX_def PTX_def and_mask10
  by (rule bit_word_eqI) (auto simp: bit_simps)

lemma indices_of_page:
  "PDX (PGROUNDDOWN va) = PDX va" "PTX (PGROUNDDOWN va) = PTX va"
  unfolding PGROUNDDOWN_bits PDX_def PTX_def and_mask10
  by (rule bit_word_eqI, auto simp: bit_simps)+

lemma same_page:
  "PDX va = PDX va' \<and> PTX va = PTX va' \<longleftrightarrow> PGROUNDDOWN va = PGROUNDDOWN va'"
  by (metis page_of_indices indices_of_page)

lemma aligned_bits: "aligned a \<longleftrightarrow> take_bit 12 a = 0"
  by (simp add: aligned_def PGSIZE_def take_bit_eq_mod)

lemma PTE_ADDR_page: "PTE_ADDR x = PGROUNDDOWN x"
  by (simp add: PTE_ADDR_def PGROUNDDOWN_def PGSIZE_def)

lemma aligned_PTE_ADDR [simp]: "aligned (PTE_ADDR x)"
  by (simp add: PTE_ADDR_page)

lemma aligned_add: "aligned b \<Longrightarrow> aligned (a + b) = aligned a"
proof -
  assume b: "aligned b"
  have "(4096 :: nat) dvd 4294967296" by (rule dvdI [of _ _ 1048576]) simp
  then have "unat (a + b) mod 4096 = (unat a + unat b) mod 4096"
    by (simp add: unat_word_ariths mod_mod_cancel)
  also have "\<dots> = unat a mod 4096"
    using b by (metis add.right_neutral aligned_unat mod_add_right_eq)
  finally show ?thesis by (simp add: aligned_unat)
qed

lemma aligned_V2P [simp]: "aligned (V2P a) = aligned a"
  and aligned_P2V [simp]: "aligned (P2V a) = aligned a"
proof -
  have K: "aligned KERNBASE" by (simp add: aligned_unat KERNBASE_def)
  have "V2P a = a + KERNBASE" by (simp add: V2P_def KERNBASE_def)
  with K show "aligned (V2P a) = aligned a" "aligned (P2V a) = aligned a"
    by (simp_all add: P2V_def aligned_add)
qed

lemma PTE_ADDR_flags [simp]:
  assumes "aligned a" "take_bit 12 f = f"
  shows "PTE_ADDR (a OR f) = a"
proof (rule bit_word_eqI)
  fix n assume n: "n < LENGTH(32)"
  have a: "bit a n \<Longrightarrow> 12 \<le> n" using assms(1) n
    by (metis aligned_bits bit_0_eq bit_take_bit_iff bot_apply bot_bool_def linorder_not_le)
  have f: "bit f n \<Longrightarrow> n < 12" using assms(2) by (metis bit_take_bit_iff)
  show "bit (PTE_ADDR (a OR f)) n = bit a n"
    using a f n by (auto simp: PTE_ADDR_page PGROUNDDOWN_bits bit_simps)
qed

lemma present_or [simp]: "present (a OR PTE_P)" "present (a OR PTE_P OR b)"
  and not_present_0 [simp]: "\<not> present 0"
proof -
  have *: "present x \<longleftrightarrow> bit x 0" for x by (simp add: present_def PTE_P_def and_one_eq bit_0 odd_iff_mod_2_eq_one)
  show "present (a OR PTE_P)" "present (a OR PTE_P OR b)" "\<not> present 0"
    by (simp_all add: * bit_simps PTE_P_def)
qed

section \<open>Well-formed page tables\<close>

definition pde_at :: "'a phys_scheme \<Rightarrow> i32 \<Rightarrow> i32 \<Rightarrow> i32" where
  "pde_at s d i = kmem s (d + 4 * i)"
definition tab_at :: "'a phys_scheme \<Rightarrow> i32 \<Rightarrow> i32 \<Rightarrow> i32" where
  "tab_at s d i = P2V (PTE_ADDR (pde_at s d i))"
definition entry :: "'a phys_scheme \<Rightarrow> i32 \<Rightarrow> i32 \<Rightarrow> i32" where
  "entry s d va = tab_at s d (PDX va) + 4 * PTX va"

text \<open>What the hardware finds for \<open>va\<close>: the entry, if both levels are present.\<close>

definition mapping :: "'a phys_scheme \<Rightarrow> i32 \<Rightarrow> i32 \<Rightarrow> i32 option" where
  "mapping s d va =
     (if present (pde_at s d (PDX va)) \<and> present (kmem s (entry s d va))
      then Some (kmem s (entry s d va)) else None)"

definition tables :: "'a phys_scheme \<Rightarrow> i32 \<Rightarrow> i32 set" where
  "tables s d = {tab_at s d i |i. unat i < 1024 \<and> present (pde_at s d i)}"

definition tables_distinct :: "'a phys_scheme \<Rightarrow> i32 \<Rightarrow> bool" where
  "tables_distinct s d \<longleftrightarrow>
     (\<forall>i j. unat i < 1024 \<and> unat j < 1024 \<and> present (pde_at s d i) \<and> present (pde_at s d j) \<and>
        tab_at s d i = tab_at s d j \<longrightarrow> i = j)"

text \<open>The directory \<open>d\<close> and its tables are good pages, all different, neither free
  (\<open>ps\<close>) nor among the pages \<open>U\<close> that something else uses.\<close>

definition pt_ok :: "'a phys_scheme \<Rightarrow> i32 \<Rightarrow> i32 list \<Rightarrow> i32 set \<Rightarrow> bool" where
  "pt_ok s d ps U \<longleftrightarrow>
     free_pages s ps \<and> frame s d \<and> (\<forall>t \<in> tables s d. frame s t) \<and> d \<notin> tables s d \<and>
     tables_distinct s d \<and> (insert d (tables s d)) \<inter> (set ps \<union> U) = {} \<and> set ps \<inter> U = {}"

text \<open>\<open>s'\<close> differs from \<open>s\<close> in the free list and in pages outside \<open>U\<close> only.\<close>

definition same_on :: "i32 set \<Rightarrow> 'a phys_scheme \<Rightarrow> 'a phys_scheme \<Rightarrow> bool" where
  "same_on U s s' \<longleftrightarrow>
     kend s' = kend s \<and> kdata s' = kdata s \<and> phys.more s' = phys.more s \<and>
     (\<forall>a. PGROUNDDOWN a \<in> U \<longrightarrow> kmem s' a = kmem s a)"

lemma same_on_refl [simp]: "same_on U s s"
  by (simp add: same_on_def)

lemma same_on_trans: "same_on U s s' \<Longrightarrow> same_on U s' s'' \<Longrightarrow> same_on U s s''"
  by (simp add: same_on_def)

lemma same_on_mono: "same_on V s s' \<Longrightarrow> U \<subseteq> V \<Longrightarrow> same_on U s s'"
  by (auto simp: same_on_def)

lemma same_on_frame: "same_on U s s' \<Longrightarrow> frame s' = frame s"
  by (rule ext) (simp add: same_on_def frame_def)

lemma same_on_updates [upd_simps]:
  "PGROUNDDOWN a \<notin> U \<Longrightarrow> same_on U s (store a v s)"
  "p \<notin> U \<Longrightarrow> same_on U s (memset_page p c s)"
  "p \<notin> U \<Longrightarrow> same_on U s (memmove_page p q s)"
  "same_on U s (s\<lparr>freelist := x\<rparr>)"
  by (auto simp: same_on_def store_def memset_page_def memmove_page_def)

lemma pt_okD:
  assumes "pt_ok s d ps U"
  shows "free_pages s ps" "aligned d" "d \<notin> set ps" "d \<notin> U" "set ps \<inter> U = {}"
    "\<And>i. unat i < 1024 \<Longrightarrow> present (pde_at s d i) \<Longrightarrow>
       aligned (tab_at s d i) \<and> tab_at s d i \<noteq> 0 \<and> tab_at s d i \<noteq> d \<and> tab_at s d i \<notin> set ps \<and>
       tab_at s d i \<notin> U \<and> frame s (tab_at s d i)"
proof -
  show "free_pages s ps" using assms unfolding pt_ok_def by blast
  show "aligned d" using assms unfolding pt_ok_def frame_def by blast
  show "d \<notin> set ps" "d \<notin> U" "set ps \<inter> U = {}" using assms unfolding pt_ok_def by blast+
  fix i :: i32 assume "unat i < 1024" "present (pde_at s d i)"
  then have t: "tab_at s d i \<in> tables s d" by (auto simp: tables_def)
  with assms have f: "frame s (tab_at s d i)" unfolding pt_ok_def by blast
  have "d \<notin> tables s d" and dis: "insert d (tables s d) \<inter> (set ps \<union> U) = {}"
    using assms unfolding pt_ok_def by blast+
  with t have "tab_at s d i \<noteq> d" by metis
  moreover have "tab_at s d i \<notin> set ps" "tab_at s d i \<notin> U" using t dis by blast+
  moreover note f
  ultimately show "aligned (tab_at s d i) \<and> tab_at s d i \<noteq> 0 \<and> tab_at s d i \<noteq> d \<and>
      tab_at s d i \<notin> set ps \<and> tab_at s d i \<notin> U \<and> frame s (tab_at s d i)"
    using frame_nonzero [OF f] by (simp add: frame_def)
qed

lemma pt_ok_table_inj:
  "pt_ok s d ps U \<Longrightarrow> unat i < 1024 \<Longrightarrow> unat j < 1024 \<Longrightarrow> present (pde_at s d i) \<Longrightarrow>
     present (pde_at s d j) \<Longrightarrow> (tab_at s d i = tab_at s d j) = (i = j)"
  unfolding pt_ok_def tables_distinct_def by blast

lemma aligned_tab [simp]: "aligned (tab_at s d i)"
  by (simp add: tab_at_def)

lemma entry_props:
  assumes "pt_ok s d ps U" "present (pde_at s d (PDX va))"
  shows "PGROUNDDOWN (entry s d va) = tab_at s d (PDX va)" "entry s d va \<noteq> 0"
proof -
  show "PGROUNDDOWN (entry s d va) = tab_at s d (PDX va)" by (simp add: entry_def)
  moreover have "tab_at s d (PDX va) \<noteq> 0" using pt_okD(6) [OF assms(1) _ assms(2)] by simp
  moreover have "PGROUNDDOWN 0 = 0" by (simp add: PGROUNDDOWN_def)
  ultimately show "entry s d va \<noteq> 0" by metis
qed

lemma walkpgdir_look:
  "walkpgdir d va False s = (if present (pde_at s d (PDX va)) then entry s d va else 0, s)"
  by (simp add: walkpgdir_def pde_at_def entry_def tab_at_def Let_def)

text \<open>Storing at the entry of \<open>va\<close> changes what \<open>va\<close>'s page maps to, and nothing else.\<close>

lemma pde_at_store:
  assumes "aligned d" "PGROUNDDOWN a \<noteq> d" "unat i < 1024"
  shows "pde_at (store a v s) d i = pde_at s d i"
  using assms entry_page [OF assms(1,3)] by (auto simp: pde_at_def)

lemma pt_ok_cong:
  assumes "pt_ok s d ps U" "\<And>i. unat i < 1024 \<Longrightarrow> pde_at s' d i = pde_at s d i"
    "frame s' = frame s" "free_pages s' ps"
  shows "pt_ok s' d ps U"
proof -
  have t: "\<And>i. unat i < 1024 \<Longrightarrow> tab_at s' d i = tab_at s d i" by (simp add: tab_at_def assms(2))
  have "tables s' d = tables s d" unfolding tables_def using t assms(2) by (metis (no_types, lifting))
  moreover have "tables_distinct s' d"
    using pt_ok_table_inj [OF assms(1)] assms(2) t unfolding tables_distinct_def
    by (simp cong: conj_cong)
  ultimately show ?thesis using assms(1,3,4) unfolding pt_ok_def by simp
qed

lemma store_entry:
  fixes v :: i32
  assumes ok: "pt_ok s d ps U" and pr: "present (pde_at s d (PDX va))"
  defines "s' \<equiv> store (entry s d va) v s"
  shows "pt_ok s' d ps U" "same_on U s s'"
    "mapping s' d va' = (if PGROUNDDOWN va' = PGROUNDDOWN va
       then if present v then Some v else None else mapping s d va')"
proof -
  let ?t = "tab_at s d (PDX va)"
  note t = pt_okD(6) [OF ok _ pr]
  have e: "PGROUNDDOWN (entry s d va) = ?t" using entry_props [OF ok pr] by simp
  have pd: "\<And>i. unat i < 1024 \<Longrightarrow> pde_at s' d i = pde_at s d i"
    unfolding s'_def using e t pt_okD(2) [OF ok] by (simp add: pde_at_store)
  have "free_pages s' ps" using e t pt_okD(1) [OF ok] unfolding s'_def by (simp add: free_pages_store)
  then show "pt_ok s' d ps U" by (intro pt_ok_cong [OF ok pd])
    (auto simp: s'_def frame_def intro!: ext)
  show "same_on U s s'" using e t unfolding s'_def by (intro same_on_updates) simp
  have en: "\<And>w. entry s' d w = entry s d w" by (simp add: entry_def tab_at_def pd)
  show "mapping s' d va' = (if PGROUNDDOWN va' = PGROUNDDOWN va
       then if present v then Some v else None else mapping s d va')"
  proof (cases "present (pde_at s d (PDX va'))")
    case True
    have "entry s d va' = entry s d va \<longleftrightarrow> PDX va' = PDX va \<and> PTX va' = PTX va"
    proof
      assume *: "entry s d va' = entry s d va"
      then have "tab_at s d (PDX va') = tab_at s d (PDX va)"
        using entry_props(1) [OF ok True] e by simp
      then have "PDX va' = PDX va" using pt_ok_table_inj [OF ok _ _ True pr] by simp
      with * entry_inj [of "PTX va'" "PTX va" "tab_at s d (PDX va)"]
      show "PDX va' = PDX va \<and> PTX va' = PTX va" by (simp only: entry_def PTX_less)
    qed (simp add: entry_def)
    with True same_page [of va' va] show ?thesis
      unfolding mapping_def en pd [OF PDX_less] by (simp add: s'_def)
  next
    case False
    with pr same_page [of va' va] show ?thesis
      unfolding mapping_def en pd [OF PDX_less] by (auto simp: s'_def)
  qed
qed

lemma kalloc_cases:
  assumes "free_pages s ps" "kalloc s = (p, s')"
  obtains (empty) "ps = []" "p = 0" "s' = s"
  | (page) qs where "ps = p # qs" "p \<noteq> 0" "s' = s\<lparr>freelist := kmem s p\<rparr>" "free_pages s' qs"
      "p \<notin> set qs" "frame s p"
proof (cases ps)
  case Nil
  with kpool.grab_Nil [of s] assms that(1) show ?thesis by simp
next
  case (Cons q qs)
  with kpool.grab_Cons [of s q qs] assms have q: "p = q" "free_pages s' qs" by auto
  moreover have "frame s q" "q \<notin> set qs" using assms(1) Cons by (auto simp: free_pages_def)
  moreover have "s' = s\<lparr>freelist := kmem s p\<rparr>" using assms(2) q(1) frame_nonzero [OF \<open>frame s q\<close>]
    by (auto simp: kalloc_def Let_def split: if_splits)
  ultimately show ?thesis using Cons frame_nonzero that(2) by blast
qed

lemma flags_small [simp]:
  "take_bit 12 PTE_P = PTE_P" "take_bit 12 PTE_W = PTE_W" "take_bit 12 PTE_U = PTE_U"
  "take_bit 12 (PTE_FLAGS x) = PTE_FLAGS x"
proof -
  have "PTE_FLAGS x = take_bit 12 x"
    by (simp add: PTE_FLAGS_def take_bit_eq_mask mask_eq_decr_exp)
  then show "take_bit 12 (PTE_FLAGS x) = PTE_FLAGS x" by simp
qed (simp_all add: PTE_P_def PTE_W_def PTE_U_def)

lemma take_bit_or_eq [simp]:
  "take_bit n a = a \<Longrightarrow> take_bit n b = b \<Longrightarrow> take_bit n (a OR b :: i32) = a OR b"
  by (simp add: take_bit_or)

lemma walkpgdir_alloc:
  assumes ok: "pt_ok s d ps U" and w: "walkpgdir d va True s = (pte, s')"
  obtains (full) "pte = 0" "ps = []" "s' = s"
  | (found) ps' where "\<exists>k. ps' = drop k ps" "pt_ok s' d ps' U" "present (pde_at s' d (PDX va))"
      "pte = entry s' d va" "same_on U s s'" "mapping s' d = mapping s d"
proof (cases "present (pde_at s d (PDX va))")
  case True
  with w have "pte = entry s d va" "s' = s"
    by (auto simp: walkpgdir_def pde_at_def entry_def tab_at_def Let_def)
  with that(2) [of ps] ok True show ?thesis by (metis drop0 same_on_refl)
next
  case False
  obtain t s1 where t: "kalloc s = (t, s1)" by (cases "kalloc s") auto
  show ?thesis
  proof (rule kalloc_cases [OF pt_okD(1) [OF ok] t])
    assume "ps = []" "t = 0" "s1 = s"
    with w False t that(1) show ?thesis by (simp add: walkpgdir_def pde_at_def)
  next
    fix qs assume qs: "ps = t # qs" "t \<noteq> 0" "s1 = s\<lparr>freelist := kmem s t\<rparr>" "free_pages s1 qs"
      "t \<notin> set qs" "frame s t"
    let ?e = "V2P t OR PTE_P OR PTE_W OR PTE_U"
    have pte: "pte = t + 4 * PTX va" and s': "s' = store (d + 4 * PDX va) ?e (memset_page t 0 s1)"
      using w False t qs(2) by (auto simp: walkpgdir_def pde_at_def Let_def)
    have td: "t \<noteq> d" "t \<notin> U" using pt_okD(3,5) [OF ok] qs(1) by auto
    have al: "aligned t" "aligned d" using qs(6) pt_okD(2) [OF ok] by (auto simp: frame_def)
    have pd: "pde_at s' d i = (if i = PDX va then ?e else pde_at s d i)" if "unat i < 1024" for i
      using that td al by (simp add: s' pde_at_def qs(3))
    have tab: "tab_at s' d i = (if i = PDX va then t else tab_at s d i)" if "unat i < 1024" for i
      using that al by (simp add: tab_at_def pd)
    have told: "tab_at s d i \<noteq> t" "tab_at s d i \<noteq> d" "tab_at s d i \<notin> set ps" "tab_at s d i \<notin> U"
      "frame s (tab_at s d i)" if "unat i < 1024" "present (pde_at s d i)" for i
      using pt_okD(6) [OF ok that] qs(1) by auto
    have fr: "frame s' = frame s" by (rule ext) (simp add: s' frame_def qs(3))
    have tabs: "tables s' d = insert t (tables s d)"
    proof -
      have "tables s' d = {if i = PDX va then t else tab_at s d i |i.
          unat i < 1024 \<and> (i = PDX va \<or> present (pde_at s d i))}"
        unfolding tables_def using pd tab by (auto cong: conj_cong)
      also have "\<dots> = insert t (tables s d)"
        unfolding tables_def using False by (auto, metis)
      finally show ?thesis .
    qed
    have "free_pages s' qs" unfolding s' using qs td pt_okD(3) [OF ok] al
      by (simp add: free_pages_store free_pages_memset)
    moreover have "tables_distinct s' d"
      unfolding tables_distinct_def using pt_ok_table_inj [OF ok] told(1) told(1) [THEN not_sym]
      by (auto simp: pd tab split: if_splits)
    ultimately have ok': "pt_ok s' d qs U"
      using ok td qs(1,5,6) unfolding pt_ok_def fr tabs by auto
    have "mapping s' d va' = mapping s d va'" for va'
    proof (cases "PDX va' = PDX va")
      case True
      have "t + 4 * PTX va' \<noteq> d + 4 * PDX va"
        using td(1) al entry_page [of t "PTX va'"] entry_page [of d "PDX va"] by (metis PDX_less PTX_less)
      then have "kmem s' (t + 4 * PTX va') = 0" using al by (simp add: s')
      with True False show ?thesis by (simp add: mapping_def entry_def pd tab)
    next
      case other: False
      show ?thesis
      proof (cases "present (pde_at s d (PDX va'))")
        case True
        let ?a = "tab_at s d (PDX va') + 4 * PTX va'"
        have "PGROUNDDOWN ?a = tab_at s d (PDX va')" by simp
        then have "PGROUNDDOWN ?a \<noteq> t" "?a \<noteq> d + 4 * PDX va"
          using told(1,2) [OF PDX_less True] al by (metis, metis PDX_less entry_page)
        then have "kmem s' ?a = kmem s ?a" by (simp add: s' qs(3))
        with other show ?thesis by (simp add: mapping_def entry_def pd tab)
      qed (use other in \<open>simp add: mapping_def pd\<close>)
    qed
    then have "mapping s' d = mapping s d" by (rule ext)
    moreover have "same_on U s s'" using td pt_okD(4) [OF ok] al
      unfolding s' qs(3) by (auto simp: same_on_def store_def memset_page_def)
    moreover have "\<exists>k. qs = drop k ps" using qs(1) by (metis drop0 drop_Suc_Cons)
    ultimately show ?thesis using that(2) [of qs] ok' pte by (simp add: pd entry_def tab)
  qed
qed

section \<open>Mapping pages\<close>

lemma mappages_page:
  assumes "aligned va"
  shows "mappages d va PGSIZE pa perm s =
    (case walkpgdir d va True s of (pte, s1) \<Rightarrow>
       if pte = 0 then Inr (-1, s1)
       else if present (kmem s1 pte) then Inl (Panic ''remap'')
       else Inr (0, store pte (pa OR perm OR PTE_P) s1))"
proof -
  have "PGROUNDDOWN (va + 4095) = va" using assms by (rule PGROUNDDOWN_word) simp
  moreover have "va + PGSIZE - 1 = va + 4095" by (simp add: PGSIZE_def)
  ultimately have "PGROUNDDOWN (va + PGSIZE - 1) = va" by metis
  with assms show ?thesis by (simp add: mappages_def Let_def split: prod.splits)
qed

lemma mappages_cases:
  assumes ok: "pt_ok s d ps U" and al: "aligned va" and r: "mappages d va PGSIZE pa perm s = Inr (r, s')"
  obtains (full) "r = -1" "ps = []" "s' = s"
  | (mapped) ps' where "r = 0" "\<exists>k. ps' = drop k ps" "pt_ok s' d ps' U" "same_on U s s'"
      "mapping s d va = None"
      "\<And>w. mapping s' d w = (if PGROUNDDOWN w = va then Some (pa OR perm OR PTE_P) else mapping s d w)"
proof -
  obtain pte s1 where w: "walkpgdir d va True s = (pte, s1)" by (cases "walkpgdir d va True s") auto
  show ?thesis
  proof (rule walkpgdir_alloc [OF ok w])
    assume "pte = 0" "ps = []" "s1 = s"
    with r w that(1) show ?thesis by (simp add: mappages_page [OF al])
  next
    fix ps' assume f: "\<exists>k. ps' = drop k ps" "pt_ok s1 d ps' U" "present (pde_at s1 d (PDX va))"
      "pte = entry s1 d va" "same_on U s s1" "mapping s1 d = mapping s d"
    let ?v = "pa OR perm OR PTE_P"
    have nz: "pte \<noteq> 0" using entry_props(2) [OF f(2,3)] f(4) by simp
    with r w have np: "\<not> present (kmem s1 pte)" and r0: "r = 0" and s': "s' = store (entry s1 d va) ?v s1"
      by (auto simp: mappages_page [OF al] f(4) split: if_splits)
    note se = store_entry [OF f(2,3), where v = ?v]
    have "mapping s1 d va = None" using np f(4) by (simp add: mapping_def)
    then have 1: "mapping s d va = None" using f(6) by simp
    have "present ?v" using present_or(1) [of "pa OR perm"] by (simp add: or.assoc)
    then have 2: "mapping s' d w = (if PGROUNDDOWN w = va then Some ?v else mapping s d w)" for w
      using se(3) [of w] al f(6) by (simp add: s')
    show ?thesis
      using that(2) [OF r0 f(1) _ _ 1 2] se(1,2) same_on_trans [OF f(5)] by (simp add: s')
  qed
qed

lemma mapping_page: "mapping s d (PGROUNDDOWN va) = mapping s d va"
  by (simp add: mapping_def entry_def indices_of_page)

text \<open>A user page as \<open>allocuvm\<close> maps it, and its frame filled with zeros.\<close>

definition user_pte :: "i32 \<Rightarrow> i32" where "user_pte q = V2P q OR (PTE_W OR PTE_U) OR PTE_P"

definition zero_page :: "'a phys_scheme \<Rightarrow> i32 \<Rightarrow> bool" where
  "zero_page s q \<longleftrightarrow> (\<forall>w. PGROUNDDOWN w = q \<longrightarrow> kmem s w = 0)"

lemma zero_page_same_on: "same_on U s s' \<Longrightarrow> q \<in> U \<Longrightarrow> zero_page s' q = zero_page s q"
  by (auto simp: zero_page_def same_on_def)

lemma pt_ok_grab:
  assumes "pt_ok s d (p # qs) U" "kalloc s = (p, s1)"
  shows "pt_ok (s1::'a phys_scheme) d qs (insert p U)" "same_on (- set [p]) s s1" "mapping s1 d = mapping s d"
proof -
  have k: "s1 = s\<lparr>freelist := kmem s p\<rparr>" "free_pages s1 qs" "p \<notin> set qs" "frame s p"
    using kalloc_cases [OF pt_okD(1) [OF assms(1)] assms(2)] by auto
  have f: "frame s1 = frame s" by (rule ext) (simp add: k(1) frame_def)
  have p: "pde_at s1 d = pde_at s d" by (rule ext) (simp add: pde_at_def k(1))
  have t: "tab_at s1 d = tab_at s d" by (rule ext) (simp add: tab_at_def p)
  have "tables s1 d = tables s d" "tables_distinct s1 d = tables_distinct s d"
    by (simp_all add: tables_def tables_distinct_def p t)
  then show "pt_ok s1 d qs (insert p U)"
    using assms(1) k(2,3) unfolding pt_ok_def f by auto
  show "same_on (- set [p]) s s1" by (simp add: k(1) upd_simps)
  show "mapping s1 d = mapping s d"
    by (rule ext) (simp add: mapping_def entry_def p t, simp add: k(1))
qed

lemma pt_ok_outside:
  assumes ok: "pt_ok s d ps U" and q: "q \<in> U" and same: "same_on (- {q}) s s'" "freelist s' = freelist s"
  shows "pt_ok s' d ps U" "mapping s' d = mapping s d"
proof -
  have al: "\<And>p. p \<in> set ps \<Longrightarrow> aligned p" using pt_okD(1) [OF ok] free_pages_aligned by blast
  have k: "kmem s' a = kmem s a" if "PGROUNDDOWN a \<noteq> q" for a using same that by (simp add: same_on_def)
  have p: "pde_at s' d i = pde_at s d i" if "unat i < 1024" for i
    unfolding pde_at_def using pt_okD(2,4) [OF ok] q that by (intro k) auto
  have "free_pages s' ps = free_pages s ps"
    using al pt_okD(5) [OF ok] q same by (intro free_pages_cong k) (auto simp: same_on_def)
  then show "pt_ok s' d ps U"
    using pt_ok_cong [OF ok p] same_on_frame [OF same(1)] pt_okD(1) [OF ok] by simp
  show "mapping s' d = mapping s d"
  proof (rule ext)
    fix va
    have t: "entry s' d va = entry s d va" by (simp add: entry_def tab_at_def p)
    show "mapping s' d va = mapping s d va"
    proof (cases "present (pde_at s d (PDX va))")
      case True
      then have "PGROUNDDOWN (entry s d va) \<noteq> q"
        using entry_props(1) [OF ok True] pt_okD(6) [OF ok _ True] q by auto
      then show ?thesis by (simp add: mapping_def t p k)
    qed (simp add: mapping_def p)
  qed
qed

section \<open>Growing an address space\<close>

text \<open>The pages \<open>vas\<close> are mapped to the fresh frames \<open>qs\<close>, zeroed; nothing else changed.\<close>

definition grown :: "'a phys_scheme \<Rightarrow> 'a phys_scheme \<Rightarrow> i32 \<Rightarrow> i32 list \<Rightarrow> i32 list \<Rightarrow> bool" where
  "grown s s' d vas qs \<longleftrightarrow>
     length qs = length vas \<and>
     (\<forall>k < length vas. mapping s d (vas ! k) = None \<and> mapping s' d (vas ! k) = Some (user_pte (qs ! k)) \<and>
        zero_page s' (qs ! k)) \<and>
     (\<forall>va. PGROUNDDOWN va \<notin> set vas \<longrightarrow> mapping s' d va = mapping s d va)"

definition page_count :: "i32 \<Rightarrow> i32 \<Rightarrow> nat" where
  "page_count a b = (unat b - unat a + 4095) div 4096"

lemma page_count_0: "\<not> a < b \<longleftrightarrow> page_count a b = 0"
  by (auto simp: page_count_def word_less_nat_alt)

lemma page_count_bound: "unat a + page_count a b * 4096 \<le> max (unat a) (unat b) + 4095"
proof -
  have "page_count a b * 4096 \<le> unat b - unat a + 4095"
    unfolding page_count_def by (rule div_times_less_eq_dividend)
  then show ?thesis by linarith
qed

lemma page_count_step:
  assumes "a < b" "b < KERNBASE"
  shows "unat (a + PGSIZE) = unat a + 4096" "a < a + PGSIZE"
    "page_count a b = Suc (page_count (a + PGSIZE) b)"
proof -
  show u: "unat (a + PGSIZE) = unat a + 4096"
    using assms by (subst unat_add32) (auto simp: PGSIZE_def KERNBASE_def word_less_nat_alt)
  then show "a < a + PGSIZE" by (simp add: word_less_nat_alt)
  have "unat a < unat b" using assms by (simp add: word_less_nat_alt)
  from less_imp_add_positive [OF this] obtain x where x: "unat b = unat a + x" "0 < x" by metis
  have "page_count a b = (x + 4095) div 4096" by (simp add: page_count_def x(1))
  moreover have "page_count (a + PGSIZE) b = (x - 4096 + 4095) div 4096"
    by (simp add: page_count_def u x(1))
  moreover have "(x + 4095) div 4096 = Suc ((x - 4096 + 4095) div 4096)"
  proof (cases "x < 4096")
    case True
    then have "(x + 4095) div 4096 = 1" using x(2) by (intro div_nat_eqI) auto
    with True show ?thesis by simp
  next
    case False
    then obtain y where "x = 4096 + y" using le_Suc_ex not_less by blast
    then show ?thesis by (simp add: div_add_self1)
  qed
  ultimately show "page_count a b = Suc (page_count (a + PGSIZE) b)" by metis
qed

lemma grown_Nil: "grown s s d [] []"
  by (simp add: grown_def)

lemma grown_Cons:
  assumes 1: "mapping s d va = None"
    "\<And>w. mapping s1 d w = (if PGROUNDDOWN w = va then Some (user_pte q) else mapping s d w)"
    and al: "aligned va" and 2: "grown s1 s' d vas qs" "va \<notin> set vas" "\<forall>v \<in> set vas. aligned v"
    and z: "zero_page s' q"
  shows "grown s s' d (va # vas) (q # qs)"
proof -
  have "mapping s1 d (vas ! k) = mapping s d (vas ! k)" if "k < length vas" for k
    using 1(2) [of "vas ! k"] 2(2,3) that by (metis PGROUNDDOWN_aligned nth_mem)
  moreover have "mapping s' d va = Some (user_pte q)"
    using 1(2) [of va] 2(1,2) al by (simp add: grown_def)
  ultimately show ?thesis
    using assms by (auto simp: grown_def nth_Cons split: nat.split)
qed

lemma pages_from_aligned: "aligned a \<Longrightarrow> v \<in> set (pages_from a n) \<Longrightarrow> aligned v"
proof (induction n arbitrary: a)
  case (Suc n)
  have "aligned PGSIZE" by (simp add: aligned_def PGSIZE_def)
  then have "aligned (a + PGSIZE)" using Suc.prems(1) by (simp add: aligned_add)
  with Suc show ?case by (auto simp: pages_from_Suc)
qed simp

lemma allocuvm_loop_grows:
  assumes "allocuvm_loop d a old new s = Inr (r, s')" "r \<noteq> 0" "pt_ok s d ps U" "aligned a" "new < KERNBASE"
  shows "r = new \<and> (\<exists>ps' qs. pt_ok s' d ps' (U \<union> set qs) \<and> distinct qs \<and> set qs \<subseteq> set ps \<and>
     same_on U s s' \<and> grown s s' d (pages_from a (page_count a new)) qs)"
  using assms
proof (induction "page_count a new" arbitrary: a s ps U)
  case 0
  then have "\<not> a < new" by (simp add: page_count_0)
  with 0 have "r = new" "s' = s" by (simp_all add: allocuvm_loop.simps [of d a])
  with 0 show ?case using grown_Nil by (metis Un_empty_right distinct.simps(1) empty_set empty_subsetI
        pages_from_0 same_on_refl)
next
  case (Suc n)
  then have lt: "a < new" using page_count_0 [of a new] by auto
  note st = page_count_step [OF lt Suc.prems(5)]
  obtain mem s1 where k: "kalloc s = (mem, s1)" by (cases "kalloc s") auto
  have mem: "mem \<noteq> 0"
    using Suc.prems(1,2) lt k by (auto simp: allocuvm_loop.simps [of d a] call_eq_Inr)
  obtain qs0 where qs0: "ps = mem # qs0" "frame s mem"
    using kalloc_cases [OF pt_okD(1) [OF Suc.prems(3)] k] mem by metis
  let ?s1 = "memset_page mem 0 s1"
  note g = pt_ok_grab [OF Suc.prems(3) [unfolded qs0(1)] k]
  have so1: "same_on (- {mem}) s1 ?s1" by (simp add: upd_simps)
  note o1 = pt_ok_outside [OF g(1) insertI1 so1 memset_page_kmem(2)]
  have mU: "mem \<notin> U" using pt_okD(5) [OF Suc.prems(3)] qs0(1) by auto
  have sU1: "same_on U s ?s1"
    using same_on_trans [OF g(2) [simplified] so1] mU by (rule_tac same_on_mono) auto
  have z1: "zero_page ?s1 mem" by (simp add: zero_page_def)
  obtain r1 s2 where m: "mappages d a PGSIZE (V2P mem) (PTE_W OR PTE_U) ?s1 = Inr (r1, s2)"
    using Suc.prems(1) lt k mem by (auto simp: allocuvm_loop.simps [of d a] split: sum.splits)
  have r1: "r1 \<noteq> -1"
    using Suc.prems(1,2) lt k mem m by (auto simp: allocuvm_loop.simps [of d a] call_eq_Inr split: if_splits)
  obtain ps' where ps': "r1 = 0" "\<exists>k. ps' = drop k qs0" "pt_ok s2 d ps' (insert mem U)"
      "same_on (insert mem U) ?s1 s2" "mapping ?s1 d a = None"
      "\<And>w. mapping s2 d w = (if PGROUNDDOWN w = a then Some (user_pte mem) else mapping ?s1 d w)"
    using mappages_cases [OF o1(1) Suc.prems(4) m] r1 unfolding user_pte_def by metis
  have rec: "allocuvm_loop d (a + PGSIZE) old new s2 = Inr (r, s')"
    using Suc.prems(1) lt k mem m ps'(1) st(2) by (simp add: allocuvm_loop.simps [of d a] split: if_splits)
  have al': "aligned (a + PGSIZE)" using Suc.prems(4) st(1) by (simp add: aligned_unat)
  have n: "n = page_count (a + PGSIZE) new" using Suc.hyps(2) st(3) by simp
  from Suc.hyps(1) [OF n rec Suc.prems(2) ps'(3) al' Suc.prems(5)]
  obtain ps'' qs where IH: "r = new" "pt_ok s' d ps'' (insert mem U \<union> set qs)" "distinct qs"
      "set qs \<subseteq> set ps'" "same_on (insert mem U) s2 s'" "grown s2 s' d (pages_from (a + PGSIZE) n) qs"
    unfolding n by blast
  have bound: "unat (a + PGSIZE) + n * 4096 \<le> 4294967296"
    using page_count_bound [of "a + PGSIZE" new] st(1) Suc.prems(5) lt unfolding n
    by (simp add: KERNBASE_def word_less_nat_alt)
  have notin: "a \<notin> set (pages_from (a + PGSIZE) n)"
  proof
    assume "a \<in> set (pages_from (a + PGSIZE) n)"
    then obtain i where "unat a = unat (a + PGSIZE) + i * 4096" using pages_from_member [OF _ bound] by metis
    with st(1) show False by simp
  qed
  have als: "\<forall>v \<in> set (pages_from (a + PGSIZE) n). aligned v"
    using al' pages_from_aligned by blast
  have mz: "zero_page s' mem"
    using z1 zero_page_same_on [OF ps'(4), of mem] zero_page_same_on [OF IH(5), of mem] by simp
  have map1: "mapping s d a = None"
    "\<And>w. mapping s2 d w = (if PGROUNDDOWN w = a then Some (user_pte mem) else mapping s d w)"
    using ps'(5,6) o1(2) g(3) by simp_all
  have "grown s s' d (pages_from a (page_count a new)) (mem # qs)"
    using grown_Cons [OF map1 Suc.prems(4) IH(6) notin als mz] by (simp add: st(3) n pages_from_Suc)
  moreover have "mem \<notin> set qs" "set (mem # qs) \<subseteq> set ps"
    using IH(4) ps'(2) qs0(1) kalloc_cases [OF pt_okD(1) [OF Suc.prems(3)] k] mem
    by (auto dest: in_set_dropD)
  moreover have "same_on U s s'"
    using same_on_trans [OF sU1] same_on_trans [OF ps'(4) IH(5)] same_on_mono by blast
  moreover have "insert mem U \<union> set qs = U \<union> set (mem # qs)" by auto
  with IH(2) have "pt_ok s' d ps'' (U \<union> set (mem # qs))" by metis
  ultimately show ?case using IH(1,3) by (intro conjI exI [of _ ps''] exI [of _ "mem # qs"]) auto
qed

section \<open>Shrinking an address space\<close>

definition frame_of :: "i32 \<Rightarrow> i32" where "frame_of pte = P2V (PTE_ADDR pte)"

lemma frame_of_user_pte [simp]: "aligned q \<Longrightarrow> frame_of (user_pte q) = q"
  by (simp add: frame_of_def user_pte_def or.assoc)

definition between :: "i32 \<Rightarrow> i32 \<Rightarrow> i32 \<Rightarrow> bool" where
  "between lo hi va \<longleftrightarrow> lo \<le> PGROUNDDOWN va \<and> PGROUNDDOWN va < hi"

text \<open>The pages mapped in a range have frames of their own, all in use (\<open>U\<close>).\<close>

definition range_ok :: "'a phys_scheme \<Rightarrow> i32 \<Rightarrow> i32 set \<Rightarrow> i32 \<Rightarrow> i32 \<Rightarrow> bool" where
  "range_ok s d U lo hi \<longleftrightarrow>
     (\<forall>va pte. between lo hi va \<longrightarrow> mapping s d va = Some pte \<longrightarrow>
        frame_of pte \<in> U \<and> frame s (frame_of pte) \<and> PTE_ADDR pte \<noteq> 0) \<and>
     (\<forall>va va' pte pte'. between lo hi va \<longrightarrow> between lo hi va' \<longrightarrow> mapping s d va = Some pte \<longrightarrow>
        mapping s d va' = Some pte' \<longrightarrow> frame_of pte = frame_of pte' \<longrightarrow> PGROUNDDOWN va = PGROUNDDOWN va')"

definition range_frames :: "'a phys_scheme \<Rightarrow> i32 \<Rightarrow> i32 \<Rightarrow> i32 \<Rightarrow> i32 set" where
  "range_frames s d lo hi = {frame_of pte |va pte. between lo hi va \<and> mapping s d va = Some pte}"

lemma pt_ok_give:
  assumes ok: "pt_ok s d ps U" and v: "v \<in> U" "frame s v"
  obtains s1 where "kfree v s = Inr s1" "pt_ok s1 d (v # ps) (U - {v})" "mapping s1 d = mapping s d"
    "same_on (- {v}) s s1" "\<And>i. unat i < 1024 \<Longrightarrow> pde_at s1 d i = pde_at s d i"
proof -
  let ?s = "(store v (freelist s) (memset_page v 0x01010101 s))\<lparr>freelist := v\<rparr>"
  have k: "kfree v s = Inr ?s" by (rule kfree_frame [OF v(2)])
  have "v \<notin> set ps" using pt_okD(5) [OF ok] v(1) by auto
  from kfree_pool [OF pt_okD(1) [OF ok] v(2) this] k
  have fp: "free_pages ?s (v # ps)" "frame ?s = frame s" by auto
  have al: "PGROUNDDOWN v = v" using v(2) by (simp add: frame_def)
  have so: "same_on (- {v}) s ?s" using al by (auto simp: same_on_def store_def memset_page_def)
  define s0 where "s0 = ?s\<lparr>freelist := freelist s\<rparr>"
  have so0: "same_on (- {v}) s s0" and f0: "freelist s0 = freelist s"
    using so by (auto simp: s0_def same_on_def)
  note o = pt_ok_outside [OF ok v(1) so0 f0]
  have p: "pde_at ?s d = pde_at s0 d" by (rule ext) (simp add: pde_at_def s0_def)
  have t: "tab_at ?s d = tab_at s0 d" by (rule ext) (simp add: tab_at_def p)
  have ts: "tables ?s d = tables s0 d" "tables_distinct ?s d = tables_distinct s0 d"
    by (simp_all add: tables_def tables_distinct_def p t)
  have f: "frame ?s = frame s0" by (rule ext) (simp add: frame_def s0_def)
  have "pt_ok ?s d (v # ps) (U - {v})"
    using o(1) fp(1) v(1) \<open>v \<notin> set ps\<close> unfolding pt_ok_def ts f by auto
  moreover have km: "kmem ?s = kmem s0" by (simp add: s0_def)
  have "mapping ?s d = mapping s0 d"
    by (rule ext) (simp only: mapping_def entry_def p t km)
  moreover have "pde_at ?s d i = pde_at s d i" if "unat i < 1024" for i
  proof -
    have "PGROUNDDOWN (d + 4 * i) \<noteq> v" using pt_okD(2,4) [OF ok] v(1) that by auto
    with so show ?thesis by (simp add: pde_at_def same_on_def)
  qed
  ultimately show ?thesis using that [OF k] o(2) so by simp
qed

lemma PDX_div: "unat (PDX va) = unat va div 4194304"
proof -
  have "unat (PDX va) = take_bit 10 (drop_bit 22 (unat va))"
    by (simp add: PDX_def and_mask10 unsigned_take_bit_eq unsigned_drop_bit_eq
        take_bit_drop_bit take_bit_nat_eq_self unat_lt32)
  also have "\<dots> = unat va div 4194304"
    using unat_lt32 [of va] by (simp add: drop_bit_eq_div take_bit_eq_mod)
  finally show ?thesis .
qed

lemma next_table:
  assumes "a < KERNBASE"
  shows "unat (PGADDR (PDX a + 1) 0 0) = (unat a div 4194304 + 1) * 4194304"
proof -
  have "unat a div 4194304 < 512" using assms by (simp add: KERNBASE_def word_less_nat_alt)
  then have u: "unat (PDX a + 1) = unat a div 4194304 + 1" "unat a div 4194304 + 1 < 1024"
    by (simp_all add: PDX_div unat_word_ariths)
  have "unat (push_bit 22 (PDX a + 1)) = take_bit 32 (push_bit 22 (unat (PDX a + 1)))"
    by (simp add: unsigned_push_bit_eq)
  also have "\<dots> = (unat a div 4194304 + 1) * 4194304"
    using u(2) by (simp only: u(1) push_bit_eq_mult) (simp add: take_bit_nat_eq_self)
  finally show ?thesis by (simp add: PGADDR_def)
qed

lemma between_step:
  assumes "aligned a" "a < hi" "hi \<le> KERNBASE"
  shows "between a hi va \<longleftrightarrow> PGROUNDDOWN va = a \<or> between (a + PGSIZE) hi va"
    "unat (a + PGSIZE) = unat a + 4096"
proof -
  show u: "unat (a + PGSIZE) = unat a + 4096"
    using assms by (subst unat_add32) (auto simp: PGSIZE_def KERNBASE_def word_less_nat_alt word_le_nat_alt)
  obtain k where k: "unat a = 4096 * k" using assms(1) by (auto simp: aligned_unat)
  have p: "unat (PGROUNDDOWN va) = 4096 * (unat va div 4096)" by (simp add: unat_PGROUNDDOWN)
  have "a \<le> PGROUNDDOWN va \<longleftrightarrow> PGROUNDDOWN va = a \<or> a + PGSIZE \<le> PGROUNDDOWN va"
    unfolding word_le_nat_alt word_unat_eq_iff u k p by simp linarith
  with assms(2) show "between a hi va \<longleftrightarrow> PGROUNDDOWN va = a \<or> between (a + PGSIZE) hi va"
    by (auto simp: between_def)
qed

lemma range_ok_mono: "range_ok s d U a hi \<Longrightarrow> (\<And>va. between b hi va \<Longrightarrow> between a hi va) \<Longrightarrow> range_ok s d U b hi"
  unfolding range_ok_def by blast

lemma between_table:
  assumes "a < KERNBASE" "between a hi va" "\<not> between (PGADDR (PDX a + 1) 0 0) hi va"
  shows "PDX va = PDX a"
proof -
  from assms(2,3) have "unat a \<le> unat (PGROUNDDOWN va)"
    "unat (PGROUNDDOWN va) < (unat a div 4194304 + 1) * 4194304"
    by (auto simp: between_def next_table [OF assms(1)] word_le_nat_alt not_le)
  then have "unat (PGROUNDDOWN va) div 4194304 = unat a div 4194304"
    by (intro div_nat_eqI) auto
  then have "unat (PDX (PGROUNDDOWN va)) = unat (PDX a)" by (simp add: PDX_div)
  then show ?thesis by (simp add: indices_of_page word_unat_eq_iff)
qed

lemma deallocuvm_loop_shrinks:
  assumes "pt_ok s d ps U" "range_ok s d U a hi" "aligned a" "hi \<le> KERNBASE"
  shows "\<exists>s' fs. deallocuvm_loop d a hi s = Inr s' \<and> pt_ok s' d (fs @ ps) (U - set fs) \<and>
     set fs = range_frames s d a hi \<and>
     (\<forall>va. mapping s' d va = (if between a hi va then None else mapping s d va)) \<and>
     same_on (U - set fs) s s'"
  using assms
proof (induction "2 ^ 32 - unat a" arbitrary: a s ps U rule: less_induct)
  case less
  note ok = less.prems(1) and rg = less.prems(2) and al = less.prems(3)
  show ?case
  proof (cases "a < hi")
    case False
    then have "\<not> between a hi va" for va by (auto simp: between_def)
    with False less.prems show ?thesis
      by (intro exI [of _ s] exI [of _ "[]"]) (simp add: deallocuvm_loop.simps [of d a] range_frames_def)
  next
    case lt: True
    then have ak: "a < KERNBASE" using less.prems(4) by simp
    show ?thesis
    proof (cases "present (pde_at s d (PDX a))")
      case False
      let ?b = "PGADDR (PDX a + 1) 0 0"
      have ub: "unat ?b = (unat a div 4194304 + 1) * 4194304" by (rule next_table [OF ak])
      have lb: "unat a < unat ?b" unfolding ub using dividend_less_div_times [of 4194304 "unat a"] by simp
      have eq: "deallocuvm_loop d a hi s = deallocuvm_loop d ?b hi s"
        using lt False lb
        by (subst deallocuvm_loop.simps) (simp add: walkpgdir_look Let_def word_le_nat_alt not_le)
      have sub: "between ?b hi va \<Longrightarrow> between a hi va" for va
        using lb unfolding between_def by (meson less_imp_le order_trans word_less_nat_alt)
      have none: "mapping s d va = None" if "between a hi va" "\<not> between ?b hi va" for va
        using between_table [OF ak that] False by (simp add: mapping_def)
      have "aligned ?b" unfolding aligned_unat ub by (simp add: mod_mult_left_eq)
      moreover have "2 ^ 32 - unat ?b < 2 ^ 32 - unat a" using lb unat_lt32 [of ?b] by simp
      ultimately obtain s' fs where r: "deallocuvm_loop d ?b hi s = Inr s'" "pt_ok s' d (fs @ ps) (U - set fs)"
          "set fs = range_frames s d ?b hi"
          "\<forall>va. mapping s' d va = (if between ?b hi va then None else mapping s d va)"
          "same_on (U - set fs) s s'"
        using less.hyps [OF _ ok range_ok_mono [OF rg sub] _ less.prems(4)] by blast
      have "range_frames s d ?b hi = range_frames s d a hi"
        unfolding range_frames_def using sub none by (metis option.distinct(1))
      moreover have "\<forall>va. mapping s' d va = (if between a hi va then None else mapping s d va)"
        using r(4) sub none by (metis (full_types))
      ultimately show ?thesis using r(1,2,3,5) eq by (intro exI [of _ s'] exI [of _ fs]) simp
    next
      case True
      let ?e = "entry s d a"
      note st = between_step [OF al lt less.prems(4)]
      have nz: "?e \<noteq> 0" using entry_props(2) [OF ok True] .
      have al': "aligned (a + PGSIZE)" using al st(2) by (simp add: aligned_unat)
      have na: "\<not> a + PGSIZE \<le> a" using st(2) by (simp add: word_le_nat_alt)
      have me: "2 ^ 32 - unat (a + PGSIZE) < 2 ^ 32 - unat a"
        using st(2) unat_lt32 [of "a + PGSIZE"] by simp
      have ba: "between a hi a" using al lt by (simp add: between_def)
      have nb: "PGROUNDDOWN va \<noteq> a" if "between (a + PGSIZE) hi va" for va
        using that na by (auto simp: between_def)
      have sub: "between (a + PGSIZE) hi va \<Longrightarrow> between a hi va" for va using st(1) by blast
      show ?thesis
      proof (cases "present (kmem s ?e)")
        case False
        then have none: "mapping s d va = None" if "PGROUNDDOWN va = a" for va
          using mapping_page [of s d va] that by (simp add: mapping_def)
        have eq: "deallocuvm_loop d a hi s = deallocuvm_loop d (a + PGSIZE) hi s"
          using lt True False nz na by (subst deallocuvm_loop.simps) (simp add: walkpgdir_look Let_def)
        obtain s' fs where r: "deallocuvm_loop d (a + PGSIZE) hi s = Inr s'" "pt_ok s' d (fs @ ps) (U - set fs)"
          "set fs = range_frames s d (a + PGSIZE) hi"
          "\<forall>va. mapping s' d va = (if between (a + PGSIZE) hi va then None else mapping s d va)"
          "same_on (U - set fs) s s'"
          using less.hyps [OF me ok range_ok_mono [OF rg sub] al' less.prems(4)] by blast
        have "range_frames s d (a + PGSIZE) hi = range_frames s d a hi"
          unfolding range_frames_def using st(1) none by (metis option.distinct(1))
        moreover have "\<forall>va. mapping s' d va = (if between a hi va then None else mapping s d va)"
          using r(4) st(1) none by (metis (full_types))
        ultimately show ?thesis using r(1,2,3,5) eq by (intro exI [of _ s'] exI [of _ fs]) simp
      next
        case pr: True
        let ?v = "frame_of (kmem s ?e)"
        have m: "mapping s d a = Some (kmem s ?e)" using True pr by (simp add: mapping_def)
        have v: "?v \<in> U" "frame s ?v" "PTE_ADDR (kmem s ?e) \<noteq> 0"
          using rg ba m unfolding range_ok_def by blast+
        obtain s1 where s1: "kfree ?v s = Inr s1" "pt_ok s1 d (?v # ps) (U - {?v})"
            "mapping s1 d = mapping s d" "same_on (- {?v}) s s1"
            "\<And>i. unat i < 1024 \<Longrightarrow> pde_at s1 d i = pde_at s d i"
          using pt_ok_give [OF ok v(1,2)] by metis
        have e1: "entry s1 d a = ?e" "present (pde_at s1 d (PDX a))"
          using True by (simp_all add: entry_def tab_at_def s1(5))
        let ?s2 = "store ?e 0 s1"
        note se = store_entry [OF s1(2) e1(2), where v = 0, unfolded e1(1)]
        have m2: "mapping ?s2 d va = (if PGROUNDDOWN va = a then None else mapping s d va)" for va
          using se(3) [of va] al by (simp add: s1(3))
        have eq: "deallocuvm_loop d a hi s = deallocuvm_loop d (a + PGSIZE) hi ?s2"
          using lt True pr nz na v(3) s1(1)
          by (subst deallocuvm_loop.simps) (simp add: walkpgdir_look Let_def frame_of_def)
        have so: "same_on (U - {?v}) s ?s2"
          using same_on_trans [OF same_on_mono [OF s1(4)] se(2)] by blast
        have old: "mapping s d va = Some pte" "between a hi va" "frame_of pte \<noteq> ?v"
          if "between (a + PGSIZE) hi va" "mapping ?s2 d va = Some pte" for va pte
        proof -
          show 1: "mapping s d va = Some pte" "between a hi va"
            using m2 [of va] that nb [OF that(1)] sub by simp_all
          show "frame_of pte \<noteq> ?v"
            using rg 1 m ba nb [OF that(1)] al unfolding range_ok_def by (metis PGROUNDDOWN_aligned)
        qed
        have rg2: "range_ok ?s2 d (U - {?v}) (a + PGSIZE) hi"
        proof -
          have "frame_of pte \<in> U - {?v} \<and> frame s (frame_of pte) \<and> PTE_ADDR pte \<noteq> 0"
            if "between (a + PGSIZE) hi va" "mapping ?s2 d va = Some pte" for va pte
            using rg old [OF that] unfolding range_ok_def by blast
          moreover have "PGROUNDDOWN va = PGROUNDDOWN va'"
            if "between (a + PGSIZE) hi va" "between (a + PGSIZE) hi va'" "mapping ?s2 d va = Some pte"
              "mapping ?s2 d va' = Some pte'" "frame_of pte = frame_of pte'" for va va' pte pte'
            using rg old(1,2) [OF that(1,3)] old(1,2) [OF that(2,4)] that(5) unfolding range_ok_def by blast
          ultimately show ?thesis unfolding range_ok_def same_on_frame [OF so] by blast
        qed
        obtain s' fs where r: "deallocuvm_loop d (a + PGSIZE) hi ?s2 = Inr s'"
          "pt_ok s' d (fs @ ?v # ps) (U - {?v} - set fs)"
          "set fs = range_frames ?s2 d (a + PGSIZE) hi"
          "\<forall>va. mapping s' d va = (if between (a + PGSIZE) hi va then None else mapping ?s2 d va)"
          "same_on (U - {?v} - set fs) ?s2 s'"
          using less.hyps [OF me se(1) rg2 al' less.prems(4)] by blast
        have "range_frames ?s2 d (a + PGSIZE) hi \<union> {?v} = range_frames s d a hi"
        proof (intro equalityI subsetI)
          fix x assume "x \<in> range_frames ?s2 d (a + PGSIZE) hi \<union> {?v}"
          then show "x \<in> range_frames s d a hi" using old m ba unfolding range_frames_def by blast
        next
          fix x assume "x \<in> range_frames s d a hi"
          then obtain va pte where x: "x = frame_of pte" "between a hi va" "mapping s d va = Some pte"
            unfolding range_frames_def by blast
          show "x \<in> range_frames ?s2 d (a + PGSIZE) hi \<union> {?v}"
          proof (cases "PGROUNDDOWN va = a")
            case True
            with x(3) m mapping_page [of s d va] show ?thesis by (simp add: x(1))
          next
            case False
            with x m2 [of va] st(1) [of va] show ?thesis unfolding range_frames_def by auto
          qed
        qed
        moreover have "\<forall>va. mapping s' d va = (if between a hi va then None else mapping s d va)"
          using r(4) m2 st(1) by simp
        moreover have "U - {?v} - set fs = U - set (fs @ [?v])" by auto
        moreover have "same_on (U - set (fs @ [?v])) s s'"
          using same_on_trans [OF same_on_mono [OF so] r(5)] calculation(3) by (metis Diff_subset)
        ultimately show ?thesis using r(1,2,3) eq
          by (intro exI [of _ s'] exI [of _ "fs @ [?v]"]) simp
      qed
    qed
  qed
qed

section \<open>The contracts of growing and shrinking\<close>

lemma PGROUNDUP_down: "PGROUNDUP a = PGROUNDDOWN (a + 4095)"
proof -
  have "a + PGSIZE - 1 = a + 4095" by (simp add: PGSIZE_def)
  then show ?thesis unfolding PGROUNDUP_def PGROUNDDOWN_def by metis
qed

lemma PGROUNDUP_props:
  assumes "unat a < 4294963200"
  shows "aligned (PGROUNDUP a)" "unat (PGROUNDUP a) = (unat a + 4095) div 4096 * 4096"
proof -
  have e: "PGROUNDUP a = PGROUNDDOWN (a + 4095)" by (rule PGROUNDUP_down)
  then show "aligned (PGROUNDUP a)" by simp
  have "unat (a + 4095) = unat a + 4095" using assms by (subst unat_add32) auto
  then show "unat (PGROUNDUP a) = (unat a + 4095) div 4096 * 4096" by (simp add: e unat_PGROUNDDOWN)
qed

lemma aligned_PGROUNDUP [simp]: "aligned (PGROUNDUP a)"
proof -
  have "PGROUNDUP a = PGROUNDDOWN (a + 4095)" by (rule PGROUNDUP_down)
  then show ?thesis by simp
qed

lemma allocuvm_grows_aux:
  assumes "allocuvm d old new s = Inr (new, s')" "pt_ok s d ps U" "old < new"
  shows "\<exists>ps' qs. pt_ok s' d ps' (U \<union> set qs) \<and> distinct qs \<and> set qs \<subseteq> set ps \<and> same_on U s s' \<and>
     grown s s' d (pages_from (PGROUNDUP old) (page_count (PGROUNDUP old) new)) qs"
proof -
  have nz: "new \<noteq> 0" using assms(3) by auto
  with assms(1,3) have "new < KERNBASE" "allocuvm_loop d (PGROUNDUP old) old new s = Inr (new, s')"
    by (auto simp: allocuvm_def split: if_splits)
  then show ?thesis using allocuvm_loop_grows [OF _ nz assms(2) aligned_PGROUNDUP] by blast
qed

text \<open>C26: When \<open>allocuvm\<close> returns the new size, every page from the old size up to the new one, and
  no other, has become mapped: to a frame of its own taken from the free list, filled with zeros,
  writable by the user. Nothing that was in use (\<open>U\<close>) changed, and the page table is still
  well formed.\<close>

theorem allocuvm_grows:
  assumes "allocuvm d old new s = Inr (new, s')" "pt_ok s d ps U" "old < new"
  shows "\<exists>ps' qs. pt_ok s' d ps' (U \<union> set qs) \<and> distinct qs \<and> set qs \<subseteq> set ps \<and> same_on U s s' \<and>
     grown s s' d (pages_from (PGROUNDUP old) (page_count (PGROUNDUP old) new)) qs"
  using assms by (rule allocuvm_grows_aux)

lemma deallocuvm_shrinks_aux:
  assumes "pt_ok s d ps U" "range_ok s d U (PGROUNDUP new) old" "new < old" "old \<le> KERNBASE"
  shows "\<exists>s' fs. deallocuvm d old new s = Inr (new, s') \<and> pt_ok s' d (fs @ ps) (U - set fs) \<and>
     set fs = range_frames s d (PGROUNDUP new) old \<and>
     (\<forall>va. mapping s' d va = (if between (PGROUNDUP new) old va then None else mapping s d va)) \<and>
     same_on (U - set fs) s s'"
proof -
  obtain s' fs where "deallocuvm_loop d (PGROUNDUP new) old s = Inr s'" "pt_ok s' d (fs @ ps) (U - set fs)"
    "set fs = range_frames s d (PGROUNDUP new) old"
    "\<forall>va. mapping s' d va = (if between (PGROUNDUP new) old va then None else mapping s d va)"
    "same_on (U - set fs) s s'"
    using deallocuvm_loop_shrinks [OF assms(1,2) aligned_PGROUNDUP assms(4)] by metis
  moreover have "\<not> old \<le> new" using assms(3) by simp
  ultimately show ?thesis by (intro exI [of _ s'] exI [of _ fs]) (simp add: deallocuvm_def)
qed

text \<open>C27: \<open>deallocuvm\<close> never panics on a well-formed address space below \<open>KERNBASE\<close>: it unmaps exactly
  the pages from the new size to the old one and puts exactly their frames on the free list.\<close>

theorem deallocuvm_shrinks:
  assumes "pt_ok s d ps U" "range_ok s d U (PGROUNDUP new) old" "new < old" "old \<le> KERNBASE"
  shows "\<exists>s' fs. deallocuvm d old new s = Inr (new, s') \<and> pt_ok s' d (fs @ ps) (U - set fs) \<and>
     set fs = range_frames s d (PGROUNDUP new) old \<and>
     (\<forall>va. mapping s' d va = (if between (PGROUNDUP new) old va then None else mapping s d va)) \<and>
     same_on (U - set fs) s s'"
  using assms by (rule deallocuvm_shrinks_aux)

lemma between_pages:
  assumes "aligned a" "hi < KERNBASE"
  shows "between a hi va \<longleftrightarrow> PGROUNDDOWN va \<in> set (pages_from a (page_count a hi))"
  using assms(1)
proof (induction "page_count a hi" arbitrary: a)
  case 0
  then have "\<not> a < hi" by (simp add: page_count_0)
  with 0 show ?case by (auto simp: between_def)
next
  case (Suc n)
  then have lt: "a < hi" using page_count_0 [of a hi] by auto
  note st = page_count_step [OF lt assms(2)]
  have al: "aligned (a + PGSIZE)" using Suc.prems st(1) by (simp add: aligned_unat)
  have n: "n = page_count (a + PGSIZE) hi" using Suc.hyps(2) st(3) by simp
  have "hi \<le> KERNBASE" using assms(2) by simp
  from between_step(1) [OF Suc.prems lt this, of va] Suc.hyps(1) [OF n al]
  show ?case unfolding st(3) pages_from_Suc by simp
qed

lemma grown_range:
  assumes g: "grown s s' d (pages_from a (page_count a hi)) qs" and a: "aligned a" and hi: "hi < KERNBASE"
    and qs: "distinct qs" "\<forall>q \<in> set qs. frame s' q" and k: "KERNBASE < kend s'"
  shows "range_ok s' d (U \<union> set qs) a hi" "range_frames s' d a hi = set qs"
    "\<And>va. between a hi va \<Longrightarrow> mapping s d va = None"
    "\<And>va. \<not> between a hi va \<Longrightarrow> mapping s' d va = mapping s d va"
proof -
  let ?vas = "pages_from a (page_count a hi)"
  have len: "length qs = length ?vas" using g by (simp add: grown_def)
  have al: "aligned q" "V2P q \<noteq> 0" if "q \<in> set qs" for q
  proof -
    have f: "frame s' q" using qs(2) that by simp
    then show "aligned q" by (simp add: frame_def)
    have "KERNBASE < q" using f k by (auto simp: frame_def)
    then show "V2P q \<noteq> 0" by (auto simp: V2P_def)
  qed
  have at: "\<exists>k < length ?vas. ?vas ! k = PGROUNDDOWN va \<and> mapping s d va = None \<and> mapping s' d va = Some (user_pte (qs ! k))"
    if "between a hi va" for va
  proof -
    from that have "PGROUNDDOWN va \<in> set ?vas" by (simp add: between_pages [OF a hi])
    then obtain k where "k < length ?vas" "?vas ! k = PGROUNDDOWN va" by (auto simp: in_set_conv_nth)
    with g show ?thesis unfolding grown_def by (metis mapping_page)
  qed
  show "mapping s d va = None" if "between a hi va" for va using at [OF that] by blast
  show "mapping s' d va = mapping s d va" if "\<not> between a hi va" for va
    using that g by (simp add: between_pages [OF a hi] grown_def)
  have fo: "frame_of (user_pte (qs ! k)) = qs ! k" "PTE_ADDR (user_pte (qs ! k)) = V2P (qs ! k)"
    if "k < length ?vas" for k
    using al(1) [of "qs ! k"] that len by (auto simp: user_pte_def frame_of_def or.assoc)
  show "range_ok s' d (U \<union> set qs) a hi"
    unfolding range_ok_def
  proof (intro conjI allI impI)
    fix va pte assume b: "between a hi va" "mapping s' d va = Some pte"
    with at obtain k where k: "k < length ?vas" "pte = user_pte (qs ! k)" by fastforce
    then have "qs ! k \<in> set qs" using len by simp
    with fo [OF k(1)] k(2) qs(2) al(2)
    show "frame_of pte \<in> U \<union> set qs" "frame s' (frame_of pte)" "PTE_ADDR pte \<noteq> 0" by simp_all
  next
    fix va va' pte pte'
    assume b: "between a hi va" "between a hi va'" "mapping s' d va = Some pte" "mapping s' d va' = Some pte'"
      and e: "frame_of pte = frame_of pte'"
    from at [OF b(1)] b(3) obtain k where k: "k < length ?vas" "?vas ! k = PGROUNDDOWN va" "pte = user_pte (qs ! k)"
      by auto
    from at [OF b(2)] b(4) obtain j where j: "j < length ?vas" "?vas ! j = PGROUNDDOWN va'" "pte' = user_pte (qs ! j)"
      by auto
    have "qs ! k = qs ! j" using e fo(1) k j by simp
    then have "k = j" using k(1) j(1) qs(1) len by (simp add: nth_eq_iff_index_eq)
    with k j show "PGROUNDDOWN va = PGROUNDDOWN va'" by simp
  qed
  show "range_frames s' d a hi = set qs"
  proof (intro equalityI subsetI)
    fix x assume "x \<in> range_frames s' d a hi"
    then obtain va pte where x: "x = frame_of pte" "between a hi va" "mapping s' d va = Some pte"
      unfolding range_frames_def by blast
    from at [OF x(2)] x(3) fo(1) x(1) len show "x \<in> set qs" by auto
  next
    fix x assume "x \<in> set qs"
    then obtain k where k: "k < length ?vas" "x = qs ! k" using len by (auto simp: in_set_conv_nth)
    let ?va = "?vas ! k"
    have "?va \<in> set ?vas" using k(1) by simp
    moreover from this have "PGROUNDDOWN ?va = ?va" using pages_from_aligned [OF a] by simp
    ultimately have "between a hi ?va" by (simp add: between_pages [OF a hi])
    moreover have "mapping s' d ?va = Some (user_pte x)" using g k by (simp add: grown_def)
    ultimately show "x \<in> range_frames s' d a hi"
      unfolding range_frames_def using fo(1) [OF k(1)] k(2) by (metis (mono_tags, lifting) mem_Collect_eq)
  qed
qed

text \<open>Growing an address space and shrinking it back restores every mapping, leaves everything in use
  untouched, and the frames that were taken are free again.\<close>

theorem grow_shrink_roundtrip:
  assumes "allocuvm d old new s = Inr (new, s')" "pt_ok s d ps U" "old < new" "KERNBASE < kend s"
  shows "\<exists>s'' ps''. deallocuvm d new old s' = Inr (old, s'') \<and> mapping s'' d = mapping s d \<and>
     pt_ok s'' d ps'' U \<and> same_on U s s''"
proof -
  obtain ps' qs where g: "pt_ok s' d ps' (U \<union> set qs)" "distinct qs" "set qs \<subseteq> set ps" "same_on U s s'"
    "grown s s' d (pages_from (PGROUNDUP old) (page_count (PGROUNDUP old) new)) qs"
    using allocuvm_grows_aux [OF assms(1-3)] by metis
  have hi: "new < KERNBASE" using assms(1,3) by (auto simp: allocuvm_def split: if_splits)
  have fr: "\<forall>q \<in> set qs. frame s' q" using same_on_frame [OF g(4)] g(3) pt_okD(1) [OF assms(2)]
    by (auto simp: free_pages_def)
  have ke: "KERNBASE < kend s'" using g(4) assms(4) by (simp add: same_on_def)
  note r = grown_range [OF g(5) aligned_PGROUNDUP hi g(2) fr ke]
  obtain s'' fs where d: "deallocuvm d new old s' = Inr (old, s'')" "pt_ok s'' d (fs @ ps') (U \<union> set qs - set fs)"
    "set fs = set qs" "\<forall>va. mapping s'' d va = (if between (PGROUNDUP old) new va then None else mapping s' d va)"
    "same_on (U \<union> set qs - set fs) s' s''"
    using deallocuvm_shrinks_aux [OF g(1) r(1) assms(3) less_imp_le [OF hi]] unfolding r(2) by metis
  have "set qs \<inter> U = {}" using g(3) pt_okD(5) [OF assms(2)] by auto
  then have U: "U \<union> set qs - set fs = U" using d(3) by auto
  have "mapping s'' d = mapping s d" by (rule ext) (simp add: d(4) r(3,4))
  with d(1,2,5) same_on_trans [OF g(4)] show ?thesis unfolding U by blast
qed

text \<open>A small machine: an empty directory and three free pages.\<close>

definition vm_ex :: phys where
  "vm_ex = \<lparr>kmem = (\<lambda>_. 0)(0x80400000 := 0x80401000, 0x80401000 := 0x80402000),
            freelist = 0x80400000, kend = 0x80200000, kdata = 0x80108000\<rparr>"

lemma vm_ex_ok: "pt_ok vm_ex 0x80300000 [0x80400000, 0x80401000, 0x80402000] {}"
proof -
  have p: "pde_at vm_ex 0x80300000 i = 0" if "unat i < 1024" for i
  proof -
    have "PGROUNDDOWN (0x80300000 + 4 * i) = 0x80300000"
      using that by (intro entry_page) (simp_all add: aligned_unat)
    moreover have "PGROUNDDOWN 0x80400000 \<noteq> 0x80300000" "PGROUNDDOWN 0x80401000 \<noteq> 0x80300000"
      by (simp_all add: PGROUNDDOWN_def PGSIZE_def)
    ultimately have "0x80300000 + 4 * i \<noteq> 0x80400000" "0x80300000 + 4 * i \<noteq> 0x80401000" by metis+
    then show ?thesis by (simp add: pde_at_def vm_ex_def)
  qed
  have t: "tables vm_ex 0x80300000 = {}" "tables_distinct vm_ex 0x80300000"
    unfolding tables_def tables_distinct_def by (auto simp: p)
  have f: "free_pages vm_ex [0x80400000, 0x80401000, 0x80402000]"
    by (simp add: free_pages_def frame_def vm_ex_def aligned_unat V2P_def KERNBASE_def PHYSTOP_def)
  have d: "frame vm_ex 0x80300000"
    by (simp add: frame_def vm_ex_def aligned_unat V2P_def KERNBASE_def PHYSTOP_def)
  show ?thesis unfolding pt_ok_def using t f d by simp
qed

lemma vm_ex_alloc: "\<exists>s'. allocuvm 0x80300000 0 4096 vm_ex = Inr (4096, s')"
proof -
  have "aligned 0" by (simp add: aligned_unat)
  note m = mappages_page [OF this, unfolded PGSIZE_def]
  show ?thesis
    apply (simp add: allocuvm_def KERNBASE_def PGROUNDUP_def PGSIZE_def)
    apply (subst allocuvm_loop.simps)
    apply (simp add: kalloc_def vm_ex_def Let_def m walkpgdir_def PDX_def PTX_def)
    apply (simp add: PGSIZE_def m walkpgdir_def PDX_def PTX_def Let_def kalloc_def PGROUNDDOWN_def)
    apply (simp add: allocuvm_loop.simps [of _ 4096])
    done
qed

theorem allocuvm_grows_witness:
  "\<exists>s' ps' qs. allocuvm 0x80300000 0 4096 vm_ex = Inr (4096, s') \<and>
     pt_ok s' 0x80300000 ps' ({} \<union> set qs) \<and>
     grown vm_ex s' 0x80300000 (pages_from (PGROUNDUP 0) (page_count (PGROUNDUP 0) 4096)) qs"
proof -
  have lt: "(0 :: i32) < 4096" by simp
  obtain s' where s': "allocuvm 0x80300000 0 4096 vm_ex = Inr (4096, s')" using vm_ex_alloc by blast
  from allocuvm_grows [OF s' vm_ex_ok lt] s' show ?thesis by blast
qed

theorem grow_shrink_roundtrip_witness:
  "\<exists>s' s'' ps''. allocuvm 0x80300000 0 4096 vm_ex = Inr (4096, s') \<and>
     deallocuvm 0x80300000 4096 0 s' = Inr (0, s'') \<and> mapping s'' 0x80300000 = mapping vm_ex 0x80300000 \<and>
     pt_ok s'' 0x80300000 ps'' {}"
proof -
  have lt: "(0 :: i32) < 4096" and k: "KERNBASE < kend vm_ex" by (simp_all add: KERNBASE_def vm_ex_def)
  obtain s' where s': "allocuvm 0x80300000 0 4096 vm_ex = Inr (4096, s')" using vm_ex_alloc by blast
  from grow_shrink_roundtrip [OF s' vm_ex_ok lt k] s' show ?thesis by blast
qed

theorem deallocuvm_shrinks_witness:
  "\<exists>(s :: phys) s' q ps'. mapping s 0x80300000 0 = Some (user_pte q) \<and> deallocuvm 0x80300000 4096 0 s = Inr (0, s') \<and>
     mapping s' 0x80300000 0 = None \<and> pt_ok s' 0x80300000 (q # ps') {}"
proof -
  have lt: "(0 :: i32) < 4096" "4096 \<le> KERNBASE" and hi: "4096 < KERNBASE" and a: "aligned 0"
    by (simp_all add: KERNBASE_def aligned_unat)
  obtain s where s: "allocuvm 0x80300000 0 4096 vm_ex = Inr (4096, s)" using vm_ex_alloc by blast
  have pc: "PGROUNDUP 0 = 0" "page_count 0 4096 = 1"
    by (simp_all add: PGROUNDUP_def PGSIZE_def page_count_def)
  obtain ps' qs where g: "pt_ok s 0x80300000 ps' ({} \<union> set qs)" "distinct qs"
    "set qs \<subseteq> set [0x80400000, 0x80401000, 0x80402000]" "same_on {} vm_ex s"
    "grown vm_ex s 0x80300000 (pages_from 0 (page_count 0 4096)) qs"
    using allocuvm_grows_aux [OF s vm_ex_ok lt(1)] unfolding pc(1) by metis
  from g(5) have l: "length qs = 1" by (simp add: grown_def pc(2) pages_from_def)
  then obtain q where q: "qs = [q]" by (cases qs) auto
  have "free_pages vm_ex [0x80400000, 0x80401000, 0x80402000]" using vm_ex_ok by (rule pt_okD)
  then have fr: "\<forall>q \<in> set qs. frame s q" using same_on_frame [OF g(4)] g(3) by (auto simp: free_pages_def)
  have ke: "KERNBASE < kend s" using g(4) by (simp add: same_on_def vm_ex_def KERNBASE_def)
  note r = grown_range [OF g(5) a hi g(2) fr ke]
  from deallocuvm_shrinks [OF g(1), of 0 4096, unfolded pc(1), OF r(1) [where U = "{}"] lt] r(2)
  obtain s' fs where d: "deallocuvm 0x80300000 4096 0 s = Inr (0, s')"
    "pt_ok s' 0x80300000 (fs @ ps') ({} \<union> set qs - set fs)" "set fs = {q}"
    "mapping s' 0x80300000 0 = (if between 0 4096 0 then None else mapping s 0x80300000 0)"
    unfolding q by auto
  have "free_pages s' (fs @ ps')" using d(2) by (rule pt_okD)
  then have "distinct fs" by (simp add: free_pages_def)
  with d(3) have f: "fs = [q]" by (rule distinct_one)
  have "between 0 4096 0" by (simp add: between_def PGROUNDDOWN_def)
  moreover have "mapping s 0x80300000 0 = Some (user_pte q)"
    using g(5) by (simp add: grown_def pc(2) q pages_from_def)
  moreover have "pt_ok s' 0x80300000 (q # ps') {}" using d(2) by (simp add: f q)
  ultimately show ?thesis using d(1,4) by (intro exI conjI) simp_all
qed

section \<open>What the operations on memory leave alone\<close>

text \<open>Every operation of this theory changes memory and the free list only: \<open>phys.more\<close>, which is
  all the rest of an extended state, stays, and so do the linker symbols.\<close>

definition rest :: "'a phys_scheme \<Rightarrow> i32 \<times> i32 \<times> 'a" where
  "rest s = (kend s, kdata s, phys.more s)"

named_theorems rest_dests \<open>operations that keep the rest of the state\<close>

lemma rest_updates [simp]:
  "rest (store a v s) = rest s" "rest (memset_page p c s) = rest s"
  "rest (memmove_page p q s) = rest s" "rest (s\<lparr>freelist := x\<rparr>) = rest s"
  by (simp_all add: rest_def store_def memset_page_def memmove_page_def)

lemma store_bytes_rest [simp]: "rest (store_bytes a bs s) = rest s"
  by (induction bs arbitrary: a s) (simp_all add: store_byte_def Let_def)

lemma kalloc_rest [rest_dests]: "kalloc s = (p, s') \<Longrightarrow> rest s' = rest s"
  by (auto simp: kalloc_def Let_def split: if_splits)

lemma kfree_rest [rest_dests]: "kfree p s = Inr s' \<Longrightarrow> rest s' = rest s"
  by (auto simp: kfree_def Let_def split: if_splits)

lemma walkpgdir_rest [rest_dests]: "walkpgdir d va al s = (pte, s') \<Longrightarrow> rest s' = rest s"
  using kalloc_rest [of s]
  by (auto simp: walkpgdir_def Let_def split: if_splits prod.splits)

lemma mappages_loop_rest: "mappages_loop n d a l pa perm s = Inr (r, s') \<Longrightarrow> rest s' = rest s"
proof (induction n arbitrary: a pa s)
  case (Suc n)
  obtain pte s1 where w: "walkpgdir d a True s = (pte, s1)" by (cases "walkpgdir d a True s") auto
  from walkpgdir_rest [OF w] Suc w show ?case
    by (auto simp: Let_def split: if_splits dest!: Suc.IH)
qed simp

lemma mappages_rest [rest_dests]: "mappages d va sz pa perm s = Inr (r, s') \<Longrightarrow> rest s' = rest s"
  unfolding mappages_def Let_def by (rule mappages_loop_rest)

lemma deallocuvm_loop_rest: "deallocuvm_loop d a hi s = Inr s' \<Longrightarrow> rest s' = rest s"
proof (induction d a hi s rule: deallocuvm_loop.induct)
  case (1 d a hi s)
  note IH = 1(1,2)
  from 1(3) show ?case
    apply (subst (asm) deallocuvm_loop.simps)
    apply (simp add: Let_def call_eq_Inr split: if_splits sum.splits)
    apply (auto dest!: IH [rotated -1] dest: kfree_rest)
    done
qed

lemma deallocuvm_rest [rest_dests]: "deallocuvm d old new s = Inr (r, s') \<Longrightarrow> rest s' = rest s"
  by (auto simp: deallocuvm_def call_eq_Inr split: if_splits dest: deallocuvm_loop_rest)

lemma allocuvm_loop_rest: "allocuvm_loop d a old new s = Inr (r, s') \<Longrightarrow> rest s' = rest s"
proof (induction d a old new s rule: allocuvm_loop.induct)
  case (1 d a old new s)
  obtain mem s1 where k: "kalloc s = (mem, s1)" by (cases "kalloc s") auto
  note IH = 1(1) [OF _ k [symmetric] _ _ refl]
  from 1(2) k show ?case
    apply (subst (asm) allocuvm_loop.simps)
    apply (auto simp: call_eq_Inr split: if_splits sum.splits prod.splits
      dest!: IH [rotated -1])
    apply (auto dest!: rest_dests)
    done
qed

lemma allocuvm_rest [rest_dests]: "allocuvm d old new s = Inr (r, s') \<Longrightarrow> rest s' = rest s"
  by (auto simp: allocuvm_def split: if_splits dest: allocuvm_loop_rest)

lemma free_tables_rest: "free_tables n d i s = Inr s' \<Longrightarrow> rest s' = rest s"
  by (induction n arbitrary: i s) (auto simp: Let_def call_eq_Inr split: if_splits dest: kfree_rest)

lemma freevm_rest [rest_dests]: "freevm d s = Inr s' \<Longrightarrow> rest s' = rest s"
  by (auto simp: freevm_def call_eq_Inr split: if_splits dest!: free_tables_rest rest_dests)

lemma map_kernel_rest: "map_kernel ks d s = Inr (r, s') \<Longrightarrow> rest s' = rest s"
proof (induction ks arbitrary: s)
  case (Cons k ks)
  from Cons.prems show ?case
    by (cases k) (auto simp: call_eq_Inr split: if_splits dest!: Cons.IH freevm_rest mappages_rest)
qed simp

lemma setupkvm_rest [rest_dests]: "setupkvm s = Inr (d, s') \<Longrightarrow> rest s' = rest s"
proof -
  assume r: "setupkvm s = Inr (d, s')"
  obtain p s1 where k: "kalloc s = (p, s1)" by (cases "kalloc s") auto
  from r k kalloc_rest [OF k] show ?thesis
    by (auto simp: setupkvm_def Let_def split: if_splits dest: map_kernel_rest)
qed

lemma clearpteu_rest [rest_dests]: "clearpteu d va s = Inr s' \<Longrightarrow> rest s' = rest s"
  by (auto simp: clearpteu_def Let_def split: if_splits)

lemma copyuvm_loop_rest: "copyuvm_loop d d' i sz s = Inr (r, s') \<Longrightarrow> rest s' = rest s"
proof (induction d d' i sz s rule: copyuvm_loop.induct)
  case (1 d d' i sz s)
  obtain mem s1 where k: "kalloc s = (mem, s1)" by (cases "kalloc s") auto
  note IH = 1(1) [OF _ refl] 1(2) [OF _ refl _ _ refl refl k [symmetric] _ _ refl]
  from 1(3) k show ?case
    apply (subst (asm) copyuvm_loop.simps)
    apply (auto simp: Let_def split: if_splits sum.splits prod.splits
      dest!: IH [rotated -1])
    apply (auto dest!: rest_dests)
    done
qed

lemma copyuvm_rest [rest_dests]: "copyuvm d sz s = Inr (r, s') \<Longrightarrow> rest s' = rest s"
  by (auto simp: copyuvm_def call_eq_Inr split: if_splits dest!: copyuvm_loop_rest rest_dests)

lemma inituvm_rest [rest_dests]: "inituvm d init s = Inr s' \<Longrightarrow> rest s' = rest s"
  by (auto simp: inituvm_def call_eq_Inr split: if_splits prod.splits dest!: rest_dests)

lemma copyout_rest [rest_dests]: "copyout d va buf s = Inr (r, s') \<Longrightarrow> rest s' = rest s"
proof (induction d va buf s rule: copyout.induct)
  case (1 d va buf s)
  note IH = 1(1)
  from 1(2) show ?case
    apply (subst (asm) copyout.simps)
    apply (auto simp: Let_def split: if_splits sum.splits dest!: IH [rotated -1])
    done
qed

end
