(* ===== verification/Proc.thy ===== *)
theory Proc
  imports Vm
begin

text \<open>
  Processes of the xv6 kernel with light-weight threads (\<open>proc.h\<close>, \<open>proc.c\<close>, and the counters
  of \<open>file.c\<close> and \<open>fs.c\<close> they touch).  A \<open>struct proc *\<close> is an index into the process table or
  \<open>None\<close> for the null pointer.  One processor, interrupts off inside the kernel: a locked section
  is one step.  The trap frame, which the code keeps at the top of the kernel stack, is a field of
  the process here.  Signed counters are integers.
\<close>

section \<open>State\<close>

definition NPROC :: nat where "NPROC = 64"
definition NOFILE_t :: nat where "NOFILE_t = 16"
definition NFILE_t :: nat where "NFILE_t = 100"
definition KSTACKSIZE :: i32 where "KSTACKSIZE = 4096"

datatype procstate = UNUSED | EMBRYO | SLEEPING | RUNNABLE | RUNNING | ZOMBIE

text \<open>What a process sleeps on: a process, the tick counter, an end of a pipe, or some other address.\<close>

datatype chan = No_chan | Chan_proc nat | Chan_ticks | Chan_nread i32 | Chan_nwrite i32 | Chan_other i32

fun chan_of :: "nat option \<Rightarrow> chan" where
  "chan_of None = No_chan"
| "chan_of (Some i) = Chan_proc i"

record trapframe =
  tf_edi :: i32  tf_esi :: i32  tf_ebp :: i32  tf_ebx :: i32
  tf_edx :: i32  tf_ecx :: i32  tf_eax :: i32
  tf_es :: i32  tf_ds :: i32  tf_trapno :: i32
  tf_eip :: i32  tf_cs :: i32  tf_eflags :: i32  tf_esp :: i32  tf_ss :: i32

definition tf_zero :: trapframe where
  "tf_zero = \<lparr>tf_edi = 0, tf_esi = 0, tf_ebp = 0, tf_ebx = 0, tf_edx = 0, tf_ecx = 0, tf_eax = 0,
     tf_es = 0, tf_ds = 0, tf_trapno = 0, tf_eip = 0, tf_cs = 0, tf_eflags = 0, tf_esp = 0, tf_ss = 0\<rparr>"

text \<open>\<open>struct mem\<close>: the stack of thread stacks that can be used again.\<close>

record empty_mem =
  mem_size :: nat
  mem_data :: "i32 list"

record proc =
  p_sz :: i32
  p_pgdir :: i32
  p_kstack :: i32
  p_state :: procstate
  p_pid :: int
  p_parent :: "nat option"
  p_tf :: trapframe
  p_context :: i32
  p_chan :: chan
  p_killed :: bool
  p_ofile :: "nat option list"
  p_cwd :: "nat option"
  p_name :: string
  p_ticks :: i32
  p_level :: int
  p_priority :: int
  p_last_out :: bool
  p_out :: bool
  p_tid :: int
  p_master :: "nat option"
  p_retval :: i32
  p_vir_add :: i32
  p_empty_mem :: empty_mem

datatype filetype = FD_NONE | FD_PIPE | FD_INODE

record kfile =
  f_type :: filetype
  f_ref :: int
  f_readable :: bool
  f_writable :: bool
  f_pipe :: i32
  f_ip :: nat
  f_off :: i32

record pipe =
  pi_data :: "i8 list"
  pi_nread :: i32
  pi_nwrite :: i32
  pi_readopen :: bool
  pi_writeopen :: bool

record kernel = phys +
  ptable :: "proc list"
  nextpid :: int
  nexttid :: int
  initproc :: "nat option"
  cpu_proc :: "nat option"
  ticks :: i32
  cr3 :: i32
  kpgdir :: i32
  trapret :: i32
  forkret :: i32
  ftable :: "kfile list"
  iref :: "nat \<Rightarrow> int"
  pipes :: "i32 \<Rightarrow> pipe"
  qu_arr :: "nat option list"
  qu_front :: nat
  qu_rear :: nat

definition proc_at :: "kernel \<Rightarrow> nat \<Rightarrow> proc" where
  "proc_at s i = ptable s ! i"

definition upd_proc :: "nat \<Rightarrow> (proc \<Rightarrow> proc) \<Rightarrow> kernel \<Rightarrow> kernel" where
  "upd_proc i f s = s\<lparr>ptable := (ptable s)[i := f (ptable s ! i)]\<rparr>"

text \<open>The result of a call that may give up the processor: \<open>Blocked\<close> leaves the caller asleep, and
  it goes on with the same call when it is scheduled again; \<open>Exited\<close> never returns.\<close>

datatype 'a outcome = Returns 'a | Blocked | Exited

section \<open>Memory seen through the current page table\<close>

text \<open>A read or write by the kernel of an address of the current address space; an address that is
  not mapped, or a write to a read-only page, is a fault in the kernel.\<close>

definition user_addr :: "kernel \<Rightarrow> i32 \<Rightarrow> bool \<Rightarrow> i32 kres" where
  "user_addr s va write =
     (case mapping s (P2V (cr3 s)) va of
        None \<Rightarrow> Inl Fault
      | Some pte \<Rightarrow>
          if write \<and> pte AND PTE_W = 0 then Inl Fault
          else Inr (frame_of pte + (va - PGROUNDDOWN va)))"

definition user_byte :: "kernel \<Rightarrow> i32 \<Rightarrow> i8 kres" where
  "user_byte s va = call (user_addr s va False) (\<lambda>a. Inr (load_byte s a))"

definition user_word :: "kernel \<Rightarrow> i32 \<Rightarrow> i32 kres" where
  "user_word s va =
     (if va AND 3 = 0 then call (user_addr s va False) (\<lambda>a. Inr (kmem s a))
      else call (user_byte s va) (\<lambda>b0. call (user_byte s (va + 1)) (\<lambda>b1.
           call (user_byte s (va + 2)) (\<lambda>b2. call (user_byte s (va + 3)) (\<lambda>b3.
           Inr (ucast b0 OR push_bit 8 (ucast b1) OR push_bit 16 (ucast b2) OR push_bit 24 (ucast b3)))))))"

definition user_store_byte :: "i32 \<Rightarrow> i8 \<Rightarrow> kernel \<Rightarrow> kernel kres" where
  "user_store_byte va b s = call (user_addr s va True) (\<lambda>a. Inr (store_byte a b s))"

definition user_store :: "i32 \<Rightarrow> i32 \<Rightarrow> kernel \<Rightarrow> kernel kres" where
  "user_store va w s =
     (if va AND 3 = 0 then call (user_addr s va True) (\<lambda>a. Inr (store a w s))
      else each (\<lambda>k. user_store_byte (va + of_nat k) (ucast (drop_bit (8 * k) w))) [0, 1, 2, 3] s)"

section \<open>The processor\<close>

definition myproc :: "kernel \<Rightarrow> nat option" where "myproc s = cpu_proc s"

text \<open>\<open>with_curproc\<close> names the process behind \<open>myproc()\<close>; following a null \<open>myproc()\<close> is a fault.\<close>

definition with_curproc :: "kernel \<Rightarrow> (nat \<Rightarrow> 'a kres) \<Rightarrow> 'a kres" where
  "with_curproc s f = (case myproc s of None \<Rightarrow> Inl Fault | Some c \<Rightarrow> f c)"

definition switchkvm :: "kernel \<Rightarrow> kernel" where
  "switchkvm s = s\<lparr>cr3 := V2P (kpgdir s)\<rparr>"

definition switchuvm :: "nat option \<Rightarrow> kernel \<Rightarrow> kernel kres" where
  "switchuvm p s =
     (case p of None \<Rightarrow> Inl (Panic ''switchuvm: no process'')
      | Some i \<Rightarrow>
          if p_kstack (proc_at s i) = 0 then Inl (Panic ''switchuvm: no kstack'')
          else if p_pgdir (proc_at s i) = 0 then Inl (Panic ''switchuvm: no pgdir'')
          else Inr (s\<lparr>cr3 := V2P (p_pgdir (proc_at s i))\<rparr>))"

section \<open>Sleeping and waking\<close>

text \<open>\<open>sched\<close> up to the switch to the scheduler.\<close>

definition sched :: "kernel \<Rightarrow> kernel kres" where
  "sched s = with_curproc s (\<lambda>c.
     if p_state (proc_at s c) = RUNNING then Inl (Panic ''sched running'') else Inr s)"

definition yield :: "kernel \<Rightarrow> kernel kres" where
  "yield s = with_curproc s (\<lambda>c. sched (upd_proc c (\<lambda>p. p\<lparr>p_state := RUNNABLE\<rparr>) s))"

text \<open>\<open>sleep\<close> up to the switch, and what it does once the process runs again.\<close>

definition sleep :: "chan \<Rightarrow> kernel \<Rightarrow> kernel kres" where
  "sleep ch s =
     (case myproc s of None \<Rightarrow> Inl (Panic ''sleep'')
      | Some c \<Rightarrow> sched (upd_proc c (\<lambda>p. p\<lparr>p_chan := ch, p_state := SLEEPING\<rparr>) s))"

definition sleep_resume :: "nat \<Rightarrow> kernel \<Rightarrow> kernel" where
  "sleep_resume c = upd_proc c (\<lambda>p. p\<lparr>p_chan := No_chan\<rparr>)"

definition wake :: "chan \<Rightarrow> proc \<Rightarrow> proc" where
  "wake ch p = (if p_state p = SLEEPING \<and> p_chan p = ch then p\<lparr>p_state := RUNNABLE\<rparr> else p)"

definition wakeup1 :: "chan \<Rightarrow> kernel \<Rightarrow> kernel" where
  "wakeup1 ch s = s\<lparr>ptable := map (wake ch) (ptable s)\<rparr>"

definition wakeup :: "chan \<Rightarrow> kernel \<Rightarrow> kernel" where
  "wakeup ch s = wakeup1 ch s"

definition kill :: "int \<Rightarrow> kernel \<Rightarrow> int \<times> kernel" where
  "kill pid s =
     (case first_from 0 (\<lambda>p. p_pid p = pid) (ptable s) of
        None \<Rightarrow> (-1, s)
      | Some i \<Rightarrow> (0, upd_proc i (\<lambda>p. p\<lparr>p_killed := True,
            p_state := (if p_state p = SLEEPING then RUNNABLE else p_state p)\<rparr>) s))"

section \<open>Priorities\<close>

text \<open>\<open>p->parent->pid\<close>: through a null parent the kernel reads the word at offset 16 of the address
  space that is loaded.\<close>

definition parent_pid :: "kernel \<Rightarrow> proc \<Rightarrow> int kres" where
  "parent_pid s p =
     (case p_parent p of Some j \<Rightarrow> Inr (p_pid (proc_at s j))
      | None \<Rightarrow> call (user_word s 16) (\<lambda>w. Inr (sint w)))"

primrec setpriority_scan :: "nat list \<Rightarrow> int \<Rightarrow> int \<Rightarrow> kernel \<Rightarrow> (int \<times> kernel) kres" where
  "setpriority_scan [] in_pid new_priority s = Inr (-1, s)"
| "setpriority_scan (i # js) in_pid new_priority s =
     (if p_pid (proc_at s i) = in_pid then
        (case myproc s of
           None \<Rightarrow> setpriority_scan js in_pid new_priority s
         | Some c \<Rightarrow> call (parent_pid s (proc_at s i)) (\<lambda>pp.
             if pp = p_pid (proc_at s c)
             then Inr (0, upd_proc i (\<lambda>p. p\<lparr>p_priority := new_priority\<rparr>) s)
             else setpriority_scan js in_pid new_priority s))
      else setpriority_scan js in_pid new_priority s)"

definition setpriority :: "int \<Rightarrow> int \<Rightarrow> kernel \<Rightarrow> (int \<times> kernel) kres" where
  "setpriority in_pid new_priority s =
     (if new_priority < 0 \<or> 10 < new_priority then Inr (-2, s)
      else setpriority_scan [0..<length (ptable s)] in_pid new_priority s)"

definition getlev :: "kernel \<Rightarrow> int kres" where
  "getlev s = with_curproc s (\<lambda>c. Inr (p_level (proc_at s c)))"

section \<open>Allocating a process\<close>

text \<open>The initial contents of the kernel stack: \<open>trapret\<close> below the trap frame (76 bytes), below it
  the context, five words with \<open>forkret\<close> as \<open>eip\<close>.\<close>

definition init_context :: "i32 \<Rightarrow> kernel \<Rightarrow> i32 \<times> kernel" where
  "init_context kstack s =
     (let sp0 = kstack + KSTACKSIZE - 76; sp1 = sp0 - 4; sp2 = sp1 - 20;
          s1 = store sp1 (trapret s) s;
          s2 = fold (\<lambda>k. store (sp2 + 4 * of_nat k) 0) [0..<5] s1
      in (sp2, store (sp2 + 16) (forkret s2) s2))"

definition empty_mem_zero :: empty_mem where
  "empty_mem_zero = \<lparr>mem_size = 0, mem_data = replicate NPROC 0\<rparr>"

definition allocproc :: "kernel \<Rightarrow> (nat option \<times> kernel) kres" where
  "allocproc s =
     (case first_from 0 (\<lambda>p. p_state p = UNUSED) (ptable s) of
        None \<Rightarrow> Inr (None, s)
      | Some i \<Rightarrow>
          let pid = nextpid s;
              s1 = upd_proc i (\<lambda>p. p\<lparr>p_state := EMBRYO, p_pid := pid, p_last_out := False,
                     p_out := False, p_ticks := 0, p_level := 0\<rparr>) (s\<lparr>nextpid := pid + 1\<rparr>)
          in call (setpriority pid 0 s1) (\<lambda>(_, s2).
            case kalloc s2 of (k, s3) \<Rightarrow>
            let s4 = upd_proc i (\<lambda>p. p\<lparr>p_kstack := k\<rparr>) s3 in
            if k = 0 then Inr (None, upd_proc i (\<lambda>p. p\<lparr>p_state := UNUSED\<rparr>) s4)
            else case init_context k s4 of (ctx, s5) \<Rightarrow>
              Inr (Some i, upd_proc i (\<lambda>p. p\<lparr>p_context := ctx, p_master := None, p_tid := 0,
                     p_empty_mem := empty_mem_zero\<rparr>) s5)))"

section \<open>References to files and directories\<close>

text \<open>Of the inode layer only the reference counts matter here: \<open>idup\<close>, and of \<open>iput\<close> its last
  step; freeing an unlinked inode on disk is not part of this state.\<close>

definition idup_t :: "nat option \<Rightarrow> kernel \<Rightarrow> kernel kres" where
  "idup_t ip s =
     (case ip of None \<Rightarrow> Inl Fault | Some i \<Rightarrow> Inr (s\<lparr>iref := (iref s)(i := iref s i + 1)\<rparr>))"

definition iput_t :: "nat option \<Rightarrow> kernel \<Rightarrow> kernel kres" where
  "iput_t ip s =
     (case ip of None \<Rightarrow> Inl Fault | Some i \<Rightarrow> Inr (s\<lparr>iref := (iref s)(i := iref s i - 1)\<rparr>))"

definition upd_file_t :: "nat \<Rightarrow> (kfile \<Rightarrow> kfile) \<Rightarrow> kernel \<Rightarrow> kernel" where
  "upd_file_t i f s = s\<lparr>ftable := (ftable s)[i := f (ftable s ! i)]\<rparr>"

definition filealloc_t :: "kernel \<Rightarrow> nat option \<times> kernel" where
  "filealloc_t s =
     (case first_from 0 (\<lambda>f. f_ref f = 0) (ftable s) of
        None \<Rightarrow> (None, s)
      | Some i \<Rightarrow> (Some i, upd_file_t i (\<lambda>f. f\<lparr>f_ref := 1\<rparr>) s))"

definition filedup_t :: "nat \<Rightarrow> kernel \<Rightarrow> kernel kres" where
  "filedup_t i s =
     (if f_ref (ftable s ! i) < 1 then Inl (Panic ''filedup'')
      else Inr (upd_file_t i (\<lambda>f. f\<lparr>f_ref := f_ref f + 1\<rparr>) s))"

definition upd_pipe_t :: "i32 \<Rightarrow> (pipe \<Rightarrow> pipe) \<Rightarrow> kernel \<Rightarrow> kernel" where
  "upd_pipe_t a f s = s\<lparr>pipes := (pipes s)(a := f (pipes s a))\<rparr>"

definition pipeclose_t :: "i32 \<Rightarrow> bool \<Rightarrow> kernel \<Rightarrow> kernel kres" where
  "pipeclose_t a writable s =
     (let s1 = (if writable then wakeup (Chan_nread a) (upd_pipe_t a (\<lambda>p. p\<lparr>pi_writeopen := False\<rparr>) s)
                else wakeup (Chan_nwrite a) (upd_pipe_t a (\<lambda>p. p\<lparr>pi_readopen := False\<rparr>) s))
      in if \<not> pi_readopen (pipes s1 a) \<and> \<not> pi_writeopen (pipes s1 a) then kfree a s1 else Inr s1)"

definition fileclose_t :: "nat \<Rightarrow> kernel \<Rightarrow> kernel kres" where
  "fileclose_t i s =
     (let f = ftable s ! i in
      if f_ref f < 1 then Inl (Panic ''fileclose'')
      else if 0 < f_ref f - 1 then Inr (upd_file_t i (\<lambda>f. f\<lparr>f_ref := f_ref f - 1\<rparr>) s)
      else let s1 = upd_file_t i (\<lambda>f. f\<lparr>f_ref := 0, f_type := FD_NONE\<rparr>) s in
        case f_type f of
          FD_PIPE \<Rightarrow> pipeclose_t (f_pipe f) (f_writable f) s1
        | FD_INODE \<Rightarrow> iput_t (Some (f_ip f)) s1
        | FD_NONE \<Rightarrow> Inr s1)"

text \<open>The loops over \<open>ofile\<close>: duplicate those of \<open>src\<close> for \<open>dst\<close>; close those of \<open>c\<close>.\<close>

definition dup_ofile :: "nat \<Rightarrow> nat \<Rightarrow> nat \<Rightarrow> kernel \<Rightarrow> kernel kres" where
  "dup_ofile src dst fd s =
     (case p_ofile (proc_at s src) ! fd of
        None \<Rightarrow> Inr s
      | Some f \<Rightarrow> call (filedup_t f s) (\<lambda>s1.
          Inr (upd_proc dst (\<lambda>p. p\<lparr>p_ofile := (p_ofile p)[fd := Some f]\<rparr>) s1)))"

definition close_ofile :: "nat \<Rightarrow> nat \<Rightarrow> kernel \<Rightarrow> kernel kres" where
  "close_ofile c fd s =
     (case p_ofile (proc_at s c) ! fd of
        None \<Rightarrow> Inr s
      | Some f \<Rightarrow> call (fileclose_t f s) (\<lambda>s1.
          Inr (upd_proc c (\<lambda>p. p\<lparr>p_ofile := (p_ofile p)[fd := None]\<rparr>) s1)))"

text \<open>\<open>safestrcpy\<close> into a name of 16 bytes.\<close>

definition safestrcpy16 :: "string \<Rightarrow> string" where
  "safestrcpy16 t = take 15 (takeWhile (\<lambda>c. c \<noteq> CHR 0x00) t)"

section \<open>Reading and updating the table\<close>

lemma length_upd_proc [simp]: "length (ptable (upd_proc i f s)) = length (ptable s)"
  by (simp add: upd_proc_def)

lemma proc_at_upd_proc:
  "proc_at (upd_proc i f s) j = (if j = i \<and> i < length (ptable s) then f (proc_at s i) else proc_at s j)"
  by (cases "i < length (ptable s)") (auto simp: proc_at_def upd_proc_def nth_list_update list_update_beyond not_less)

lemma upd_proc_other [simp]:
  "cpu_proc (upd_proc i f s) = cpu_proc s" "initproc (upd_proc i f s) = initproc s"
  "nextpid (upd_proc i f s) = nextpid s" "nexttid (upd_proc i f s) = nexttid s"
  "ticks (upd_proc i f s) = ticks s" "cr3 (upd_proc i f s) = cr3 s"
  "kmem (upd_proc i f s) = kmem s" "freelist (upd_proc i f s) = freelist s" "kend (upd_proc i f s) = kend s"
  "ftable (upd_proc i f s) = ftable s" "iref (upd_proc i f s) = iref s" "pipes (upd_proc i f s) = pipes s"
  "qu_arr (upd_proc i f s) = qu_arr s" "qu_front (upd_proc i f s) = qu_front s"
  "qu_rear (upd_proc i f s) = qu_rear s"
  by (simp_all add: upd_proc_def)

lemma proc_at_fields [simp]:
  "proc_at (s\<lparr>cpu_proc := a\<rparr>) i = proc_at s i" "proc_at (s\<lparr>cr3 := b\<rparr>) i = proc_at s i"
  "proc_at (s\<lparr>nextpid := c\<rparr>) i = proc_at s i" "proc_at (s\<lparr>nexttid := c\<rparr>) i = proc_at s i"
  "proc_at (s\<lparr>initproc := a\<rparr>) i = proc_at s i" "proc_at (s\<lparr>ticks := b\<rparr>) i = proc_at s i"
  "proc_at (s\<lparr>iref := d\<rparr>) i = proc_at s i" "proc_at (s\<lparr>freelist := b\<rparr>) i = proc_at s i"
  "proc_at (s\<lparr>kmem := e\<rparr>) i = proc_at s i" "proc_at (upd_file_t j g s) i = proc_at s i"
  "proc_at (upd_pipe_t b h s) i = proc_at s i" "proc_at (store b b' s) i = proc_at s i"
  by (simp_all add: proc_at_def upd_file_t_def upd_pipe_t_def store_def)

lemma restD:
  assumes "rest s' = rest (s :: kernel)"
  shows "ptable s' = ptable s" "cpu_proc s' = cpu_proc s" "nextpid s' = nextpid s" "nexttid s' = nexttid s"
    "initproc s' = initproc s" "ticks s' = ticks s" "cr3 s' = cr3 s" "ftable s' = ftable s"
    "iref s' = iref s" "pipes s' = pipes s" "qu_arr s' = qu_arr s" "qu_front s' = qu_front s"
    "qu_rear s' = qu_rear s" "kend s' = kend s" "proc_at s' = proc_at s"
  using assms by (cases s; cases s'; simp add: rest_def proc_at_def fun_eq_iff)+

section \<open>Who runs\<close>

text \<open>Only the process of the processor is \<open>RUNNING\<close>.  \<open>quiet s0 s\<close>: since \<open>s0\<close> the kernel
  has not switched, and no process has become \<open>RUNNING\<close>.\<close>

definition running_ok :: "kernel \<Rightarrow> bool" where
  "running_ok s \<longleftrightarrow> (\<forall>i < length (ptable s). p_state (proc_at s i) = RUNNING \<longrightarrow> cpu_proc s = Some i)"

definition quiet :: "kernel \<Rightarrow> kernel \<Rightarrow> bool" where
  "quiet s0 s \<longleftrightarrow> cpu_proc s = cpu_proc s0 \<and> length (ptable s) = length (ptable s0) \<and>
     (\<forall>i < length (ptable s0). p_state (proc_at s i) = RUNNING \<longrightarrow> p_state (proc_at s0 i) = RUNNING)"

named_theorems quiet_intros \<open>steps that start no process\<close>

lemma quiet_refl [simp, quiet_intros]: "quiet s s"
  by (simp add: quiet_def)

lemma quiet_trans: "quiet s0 s1 \<Longrightarrow> quiet s1 s2 \<Longrightarrow> quiet s0 s2"
  by (auto simp: quiet_def)

lemma quiet_running_ok: "quiet s0 s \<Longrightarrow> running_ok s0 \<Longrightarrow> running_ok s"
  by (auto simp: quiet_def running_ok_def)

lemma quiet_upd [quiet_intros]:
  "quiet s0 s \<Longrightarrow> (p_state (f (proc_at s i)) = RUNNING \<longrightarrow> p_state (proc_at s i) = RUNNING) \<Longrightarrow>
     quiet s0 (upd_proc i f s)"
  by (auto simp: quiet_def proc_at_upd_proc)

lemma quiet_rest:
  assumes "rest s' = rest s"
  shows "quiet s0 s' = quiet s0 s"
  by (simp add: quiet_def restD [OF assms])

lemma quiet_fields [simp]:
  "quiet s0 (s\<lparr>nextpid := x\<rparr>) = quiet s0 s" "quiet s0 (s\<lparr>nexttid := x\<rparr>) = quiet s0 s"
  "quiet s0 (s\<lparr>initproc := y\<rparr>) = quiet s0 s" "quiet s0 (s\<lparr>ticks := t\<rparr>) = quiet s0 s"
  "quiet s0 (s\<lparr>cr3 := c\<rparr>) = quiet s0 s" "quiet s0 (s\<lparr>iref := r\<rparr>) = quiet s0 s"
  "quiet s0 (upd_file_t i g s) = quiet s0 s" "quiet s0 (upd_pipe_t a h s) = quiet s0 s"
  "quiet s0 (s\<lparr>kmem := m\<rparr>) = quiet s0 s" "quiet s0 (store a w s) = quiet s0 s"
  by (simp_all add: quiet_def proc_at_def upd_file_t_def upd_pipe_t_def store_def)

lemma wakeup1_proc:
  "i < length (ptable s) \<Longrightarrow> proc_at (wakeup1 ch s) i = wake ch (proc_at s i)"
  by (simp add: wakeup1_def proc_at_def)

lemma wakeup1_other [simp]:
  "length (ptable (wakeup1 ch s)) = length (ptable s)" "cpu_proc (wakeup1 ch s) = cpu_proc s"
  "initproc (wakeup1 ch s) = initproc s" "nextpid (wakeup1 ch s) = nextpid s" "pipes (wakeup1 ch s) = pipes s"
  "ticks (wakeup1 ch s) = ticks s" "ftable (wakeup1 ch s) = ftable s" "iref (wakeup1 ch s) = iref s"
  "kmem (wakeup1 ch s) = kmem s" "freelist (wakeup1 ch s) = freelist s" "kend (wakeup1 ch s) = kend s"
  by (simp_all add: wakeup1_def)

lemma quiet_wakeup [quiet_intros]: "quiet s0 s \<Longrightarrow> quiet s0 (wakeup1 ch s)" "quiet s0 s \<Longrightarrow> quiet s0 (wakeup ch s)"
  by (auto simp: quiet_def wakeup1_proc wakeup_def wake_def split: if_splits)

lemma with_curproc_Inr: "with_curproc s f = Inr y \<longleftrightarrow> (\<exists>c. cpu_proc s = Some c \<and> f c = Inr y)"
  by (simp add: with_curproc_def myproc_def split: option.splits)

lemma switchuvm_quiet: "switchuvm p s = Inr s' \<Longrightarrow> quiet s0 s' = quiet s0 s"
  by (auto simp: switchuvm_def split: option.splits if_splits)

lemma sched_Inr: "sched s = Inr s' \<longleftrightarrow>
    s' = s \<and> (\<exists>c. cpu_proc s = Some c \<and> p_state (proc_at s c) \<noteq> RUNNING)"
  by (auto simp: sched_def with_curproc_Inr)

lemma sleep_quiet: "sleep ch s = Inr s' \<Longrightarrow> quiet s0 s \<Longrightarrow> quiet s0 s'"
  by (auto simp: sleep_def sched_Inr split: option.splits intro!: quiet_intros)

lemma yield_quiet: "yield s = Inr s' \<Longrightarrow> quiet s0 s \<Longrightarrow> quiet s0 s'"
  by (auto simp: yield_def with_curproc_Inr sched_Inr intro!: quiet_intros)

lemma kill_quiet: "kill pid s = (r, s') \<Longrightarrow> quiet s0 s \<Longrightarrow> quiet s0 s'"
  by (auto simp: kill_def split: option.splits if_splits intro!: quiet_intros)

lemma setpriority_scan_quiet: "setpriority_scan js p q s = Inr (r, s') \<Longrightarrow> quiet s0 s \<Longrightarrow> quiet s0 s'"
  by (induction js) (auto simp: call_eq_Inr split: if_splits option.splits intro!: quiet_intros)

lemma setpriority_quiet: "setpriority p q s = Inr (r, s') \<Longrightarrow> quiet s0 s \<Longrightarrow> quiet s0 s'"
  by (auto simp: setpriority_def split: if_splits dest: setpriority_scan_quiet)

lemma init_context_rest: "init_context k s = (c, s') \<Longrightarrow> rest s' = rest s"
proof -
  have *: "rest (fold (\<lambda>k. store (f k) 0) ks s) = rest s" for f and ks :: "nat list" and s :: kernel
    by (induction ks arbitrary: s) simp_all
  show "init_context k s = (c, s') \<Longrightarrow> rest s' = rest s"
    by (auto simp: init_context_def Let_def *)
qed

lemma allocproc_quiet:
  assumes "allocproc s = Inr (r, s')" "quiet s0 s"
  shows "quiet s0 s'"
proof (cases "first_from 0 (\<lambda>p. p_state p = UNUSED) (ptable s)")
  case None
  with assms show ?thesis by (simp add: allocproc_def)
next
  case (Some i)
  define s1 where "s1 = upd_proc i (\<lambda>p. p\<lparr>p_state := EMBRYO, p_pid := nextpid s, p_last_out := False,
      p_out := False, p_ticks := 0, p_level := 0\<rparr>) (s\<lparr>nextpid := nextpid s + 1\<rparr>)"
  have q1: "quiet s0 s1" unfolding s1_def using assms(2) by (intro quiet_intros) simp_all
  from assms(1) Some obtain x s2 where p: "setpriority (nextpid s) 0 s1 = Inr (x, s2)"
    unfolding allocproc_def s1_def by (auto simp: Let_def call_eq_Inr)
  obtain k s3 where k: "kalloc s2 = (k, s3)" by (cases "kalloc s2") auto
  have q3: "quiet s0 s3" using setpriority_quiet [OF p q1] quiet_rest [OF kalloc_rest [OF k]] by simp
  let ?s4 = "upd_proc i (\<lambda>p. p\<lparr>p_kstack := k\<rparr>) s3"
  obtain c s5 where c: "init_context k ?s4 = (c, s5)" by (cases "init_context k ?s4") auto
  have q5: "quiet s0 s5" using q3 by (subst quiet_rest [OF init_context_rest [OF c]]) (rule quiet_upd, simp_all)
  have "allocproc s = Inr (if k = 0 then (None, upd_proc i (\<lambda>p. p\<lparr>p_state := UNUSED\<rparr>) ?s4)
      else (Some i, upd_proc i (\<lambda>p. p\<lparr>p_context := c, p_master := None, p_tid := 0,
                     p_empty_mem := empty_mem_zero\<rparr>) s5))"
    unfolding allocproc_def using Some p [unfolded s1_def] k c by (simp add: Let_def)
  with assms(1) q3 q5 show ?thesis by (auto split: if_splits intro!: quiet_intros)
qed

lemma quiet_from_rest: "rest s' = rest s \<Longrightarrow> \<forall>q. quiet q s \<longrightarrow> quiet q s'"
  by (simp add: quiet_rest [of s' s])

named_theorems quiet_dests \<open>what an operation that returned tells about running processes\<close>

lemmas quiet_memory [quiet_dests] =
  kfree_rest [THEN quiet_from_rest] freevm_rest [THEN quiet_from_rest] setupkvm_rest [THEN quiet_from_rest]
  copyuvm_rest [THEN quiet_from_rest] allocuvm_rest [THEN quiet_from_rest]
  deallocuvm_rest [THEN quiet_from_rest] inituvm_rest [THEN quiet_from_rest]
  copyout_rest [THEN quiet_from_rest] clearpteu_rest [THEN quiet_from_rest] kalloc_rest [THEN quiet_from_rest]

lemma quiet_process [quiet_dests]:
  "sleep ch s = Inr s' \<Longrightarrow> \<forall>q. quiet q s \<longrightarrow> quiet q s'"
  "yield s = Inr s' \<Longrightarrow> \<forall>q. quiet q s \<longrightarrow> quiet q s'"
  "kill pid s = (r, s') \<Longrightarrow> \<forall>q. quiet q s \<longrightarrow> quiet q s'"
  "setpriority a b s = Inr (r, s') \<Longrightarrow> \<forall>q. quiet q s \<longrightarrow> quiet q s'"
  "allocproc s = Inr (o', s') \<Longrightarrow> \<forall>q. quiet q s \<longrightarrow> quiet q s'"
  "switchuvm p s = Inr s' \<Longrightarrow> \<forall>q. quiet q s \<longrightarrow> quiet q s'"
  by (blast intro: sleep_quiet yield_quiet kill_quiet setpriority_quiet allocproc_quiet switchuvm_quiet [THEN iffD2])+

lemma idup_quiet [quiet_dests]: "idup_t ip s = Inr s' \<Longrightarrow> \<forall>q. quiet q s \<longrightarrow> quiet q s'"
  by (auto simp: idup_t_def split: option.splits)

lemma iput_quiet [quiet_dests]: "iput_t ip s = Inr s' \<Longrightarrow> \<forall>q. quiet q s \<longrightarrow> quiet q s'"
  by (auto simp: iput_t_def split: option.splits)

lemma filedup_quiet [quiet_dests]: "filedup_t f s = Inr s' \<Longrightarrow> \<forall>q. quiet q s \<longrightarrow> quiet q s'"
  by (auto simp: filedup_t_def split: if_splits)

lemma pipeclose_quiet [quiet_dests]: "pipeclose_t a w s = Inr s' \<Longrightarrow> \<forall>q. quiet q s \<longrightarrow> quiet q s'"
  by (auto simp: pipeclose_t_def Let_def quiet_wakeup split: if_splits dest!: quiet_dests)

lemma fileclose_quiet [quiet_dests]: "fileclose_t f s = Inr s' \<Longrightarrow> \<forall>q. quiet q s \<longrightarrow> quiet q s'"
  by (auto simp: fileclose_t_def Let_def split: if_splits filetype.splits dest!: quiet_dests)

lemma dup_ofile_quiet: "dup_ofile src dst fd s = Inr s' \<Longrightarrow> \<forall>q. quiet q s \<longrightarrow> quiet q s'"
  by (auto simp: dup_ofile_def call_eq_Inr quiet_upd split: option.splits dest!: quiet_dests)

lemma close_ofile_quiet: "close_ofile c fd s = Inr s' \<Longrightarrow> \<forall>q. quiet q s \<longrightarrow> quiet q s'"
  by (auto simp: close_ofile_def call_eq_Inr quiet_upd split: option.splits dest!: quiet_dests)

lemma each_quiet:
  assumes "each f xs s = Inr s'" "\<And>x s s'. f x s = Inr s' \<Longrightarrow> \<forall>q. quiet q s \<longrightarrow> quiet q s'"
  shows "\<forall>q. quiet q s \<longrightarrow> quiet q s'"
proof (intro allI impI)
  fix q assume "quiet q s"
  then show "quiet q s'"
    using each_invariant [where P = "quiet q", OF assms(1)] assms(2) by blast
qed

lemma user_store_quiet [quiet_dests]:
  assumes "user_store va w s = Inr s'"
  shows "\<forall>q. quiet q s \<longrightarrow> quiet q s'"
proof (cases "va AND 3 = 0")
  case True
  with assms show ?thesis by (auto simp: user_store_def call_eq_Inr)
next
  case False
  then have e: "each (\<lambda>k. user_store_byte (va + of_nat k) (ucast (drop_bit (8 * k) w))) [0, 1, 2, 3] s = Inr s'"
    using assms by (simp add: user_store_def del: each.simps)
  show ?thesis
    by (rule each_quiet [OF e]) (auto simp: user_store_byte_def call_eq_Inr store_byte_def Let_def)
qed

lemmas quiet_ofiles [quiet_dests] =
  each_quiet [where f = "dup_ofile src dst" for src dst, OF _ dup_ofile_quiet]
  each_quiet [where f = "close_ofile c" for c, OF _ close_ofile_quiet]

section \<open>Small machines for examples\<close>

definition proc_ex :: "int \<Rightarrow> procstate \<Rightarrow> int \<Rightarrow> int \<Rightarrow> proc" where
  "proc_ex pid st level prio =
     \<lparr>p_sz = 0, p_pgdir = 0x80300000, p_kstack = 0x80310000, p_state = st, p_pid = pid, p_parent = None, p_tf = tf_zero,
      p_context = 0, p_chan = No_chan, p_killed = False, p_ofile = replicate NOFILE_t None, p_cwd = Some 0,
      p_name = '''', p_ticks = 0, p_level = level, p_priority = prio, p_last_out = False, p_out = False,
      p_tid = 0, p_master = None, p_retval = 0, p_vir_add = 0, p_empty_mem = empty_mem_zero\<rparr>"

definition machine :: "proc list \<Rightarrow> kernel" where
  "machine ps =
     \<lparr>kmem = (\<lambda>_. 0), freelist = 0, kend = 0x80200000, kdata = 0x80108000, ptable = ps, nextpid = 10, nexttid = 1,
      initproc = Some 0, cpu_proc = None, ticks = 0, cr3 = 0, kpgdir = 0, trapret = 0, forkret = 0,
      ftable = [], iref = (\<lambda>_. 1), pipes = (\<lambda>_. \<lparr>pi_data = replicate 512 0, pi_nread = 0, pi_nwrite = 0,
        pi_readopen = False, pi_writeopen = False\<rparr>),
      qu_arr = replicate 81 None, qu_front = 0, qu_rear = 0\<rparr>"

lemma machine_fields [simp]:
  "ptable (machine ps) = ps" "proc_at (machine ps) i = ps ! i" "cpu_proc (machine ps) = None"
  "nextpid (machine ps) = 10" "initproc (machine ps) = Some 0" "ticks (machine ps) = 0"
  "freelist (machine ps) = 0" "cr3 (machine ps) = 0"
  by (simp_all add: machine_def proc_at_def)

lemma proc_ex_fields [simp]:
  "p_pid (proc_ex a b c d) = a" "p_state (proc_ex a b c d) = b" "p_level (proc_ex a b c d) = c"
  "p_priority (proc_ex a b c d) = d" "p_last_out (proc_ex a b c d) = False" "p_parent (proc_ex a b c d) = None"
  "p_tid (proc_ex a b c d) = 0" "p_master (proc_ex a b c d) = None" "p_killed (proc_ex a b c d) = False"
  "p_pgdir (proc_ex a b c d) = 0x80300000" "p_kstack (proc_ex a b c d) = 0x80310000"
  "p_chan (proc_ex a b c d) = No_chan" "p_ticks (proc_ex a b c d) = 0" "p_sz (proc_ex a b c d) = 0"
  by (simp_all add: proc_ex_def)

end
