(* ===== verification/Threads.thy ===== *)
theory Threads
  imports Proc
begin

text \<open>
  The life of processes and threads (\<open>proc.c\<close>) and the thread part of \<open>exec.c\<close>: creation, exit,
  waiting, joining.  A thread is a slot of the process table with \<open>master\<close> set; it shares the
  master's page directory and has the master's pid.  A call that sleeps is one pass of its loop
  that ends in \<open>Blocked\<close>; \<open>begin_op\<close> and \<open>end_op\<close> only touch the disk log and are left out.
\<close>

section \<open>The first process\<close>

definition userinit :: "i8 list \<Rightarrow> nat option \<Rightarrow> kernel \<Rightarrow> kernel kres" where
  "userinit initcode root s =
     call (allocproc s) (\<lambda>(np, s1).
     let s2 = s1\<lparr>initproc := np\<rparr> in
     case np of None \<Rightarrow> Inl Fault
     | Some p \<Rightarrow>
       call (setupkvm s2) (\<lambda>(dir, s3).
       let s4 = upd_proc p (\<lambda>q. q\<lparr>p_pgdir := dir\<rparr>) s3 in
       if dir = 0 then Inl (Panic ''userinit: out of memory?'')
       else call (inituvm dir initcode s4) (\<lambda>s5.
         Inr (upd_proc p (\<lambda>q. q\<lparr>p_sz := PGSIZE,
                p_tf := tf_zero\<lparr>tf_cs := 0x1B, tf_ds := 0x23, tf_es := 0x23, tf_ss := 0x23,
                          tf_eflags := 0x200, tf_esp := PGSIZE, tf_eip := 0\<rparr>,
                p_name := ''initcode'', p_cwd := root, p_state := RUNNABLE\<rparr>) s5))))"

section \<open>Growing\<close>

text \<open>The size of an address space belongs to the master.\<close>

definition sz_owner :: "kernel \<Rightarrow> nat \<Rightarrow> nat" where
  "sz_owner s c = (case p_master (proc_at s c) of None \<Rightarrow> c | Some m \<Rightarrow> m)"

definition growproc :: "i32 \<Rightarrow> kernel \<Rightarrow> (i32 \<times> kernel) kres" where
  "growproc n s = with_curproc s (\<lambda>c.
     let p = sz_owner s c; prev_sz = p_sz (proc_at s p); dir = p_pgdir (proc_at s c) in
     call (if 0 < sint n then allocuvm dir prev_sz (prev_sz + n) s
           else if sint n < 0 then deallocuvm dir prev_sz (prev_sz + n) s
           else Inr (prev_sz, s))
       (\<lambda>(sz, s1).
        if n \<noteq> 0 \<and> sz = 0 then Inr (-1, s1)
        else call (switchuvm (Some c) (upd_proc p (\<lambda>q. q\<lparr>p_sz := sz\<rparr>) s1)) (\<lambda>s2.
          Inr (prev_sz, s2))))"

section \<open>Fork\<close>

definition fork :: "kernel \<Rightarrow> (int \<times> kernel) kres" where
  "fork s = with_curproc s (\<lambda>c.
     call (allocproc s) (\<lambda>(a, s1).
     case a of None \<Rightarrow> Inr (-1, s1)
     | Some np \<Rightarrow>
       call (if 0 < p_tid (proc_at s1 c)
             then (case p_master (proc_at s1 c) of None \<Rightarrow> Inl Fault
                   | Some m \<Rightarrow> copyuvm (p_pgdir (proc_at s1 c)) (p_sz (proc_at s1 m)) s1)
             else copyuvm (p_pgdir (proc_at s1 c)) (p_sz (proc_at s1 c)) s1)
       (\<lambda>(dir, s2).
        let s3 = upd_proc np (\<lambda>p. p\<lparr>p_pgdir := dir\<rparr>) s2 in
        if dir = 0 then
          call (kfree (p_kstack (proc_at s3 np)) s3) (\<lambda>s4.
          Inr (-1, upd_proc np (\<lambda>p. p\<lparr>p_state := UNUSED, p_kstack := 0\<rparr>) s4))
        else
          let cp = proc_at s3 c;
              s4 = upd_proc np (\<lambda>p. p\<lparr>p_sz := p_sz cp, p_tf := (p_tf cp)\<lparr>tf_eax := 0\<rparr>,
                     p_parent := Some c\<rparr>) s3 in
          call (each (dup_ofile c np) [0..<NOFILE_t] s4) (\<lambda>s5.
          call (idup_t (p_cwd cp) s5) (\<lambda>s6.
          Inr (p_pid (proc_at s6 np),
            upd_proc np (\<lambda>p. p\<lparr>p_cwd := p_cwd cp, p_name := safestrcpy16 (p_name cp),
              p_state := RUNNABLE\<rparr>) s6))))))"

section \<open>Exit\<close>

text \<open>The fields that free a slot, as \<open>exit\<close>, \<open>wait\<close> and \<open>thread_join\<close> reset them.\<close>

definition free_slot :: "proc \<Rightarrow> proc" where
  "free_slot p = p\<lparr>p_kstack := 0, p_killed := False, p_state := UNUSED, p_pid := 0,
                   p_parent := None, p_name := ''''\<rparr>"

text \<open>\<open>empty_mem.data[empty_mem.size++] = vir_add\<close>; the array has 64 places.\<close>

definition push_empty :: "nat \<Rightarrow> i32 \<Rightarrow> kernel \<Rightarrow> kernel kres" where
  "push_empty m va s =
     (let e = p_empty_mem (proc_at s m) in
      if length (mem_data e) \<le> mem_size e then Inl Fault
      else Inr (upd_proc m (\<lambda>p. p\<lparr>p_empty_mem :=
        \<lparr>mem_size = mem_size e + 1, mem_data = (mem_data e)[mem_size e := va]\<rparr>\<rparr>) s))"

text \<open>One slot in \<open>exit\<close>'s pass over the threads of \<open>c\<close>; the flag is \<open>thread_exist\<close>.\<close>

definition exit_thread :: "nat \<Rightarrow> nat \<Rightarrow> bool \<times> kernel \<Rightarrow> (bool \<times> kernel) kres" where
  "exit_thread c i st =
     (case st of (thread_exist, s) \<Rightarrow>
      let p = proc_at s i in
      if p_master p \<noteq> Some c then Inr (thread_exist, s)
      else if p_state p = ZOMBIE then
        call (kfree (p_kstack p) s) (\<lambda>s1.
        call (push_empty c (p_vir_add p) s1) (\<lambda>s2.
        Inr (thread_exist, upd_proc i (\<lambda>q. (free_slot q)\<lparr>p_master := None\<rparr>) s2)))
      else Inr (True, wakeup1 (Chan_proc i) (upd_proc i (\<lambda>q. q\<lparr>p_killed := True\<rparr>) s)))"

text \<open>Pass abandoned children to init.\<close>

definition reparent :: "nat \<Rightarrow> nat \<Rightarrow> kernel \<Rightarrow> kernel" where
  "reparent c i s =
     (if p_parent (proc_at s i) = Some c then
        let s1 = upd_proc i (\<lambda>q. q\<lparr>p_parent := initproc s\<rparr>) s in
        if p_state (proc_at s1 i) = ZOMBIE then wakeup1 (chan_of (initproc s)) s1 else s1
      else s)"

definition exit_rest :: "nat \<Rightarrow> kernel \<Rightarrow> (unit outcome \<times> kernel) kres" where
  "exit_rest c s =
     call (each (close_ofile c) [0..<NOFILE_t] s) (\<lambda>s1.
     call (iput_t (p_cwd (proc_at s1 c)) s1) (\<lambda>s2.
     let s3 = upd_proc c (\<lambda>p. p\<lparr>p_cwd := None\<rparr>) s2; cp = proc_at s3 c;
         s4 = (if p_tid cp = 0 then wakeup1 (chan_of (p_parent cp)) s3
               else case p_master cp of None \<Rightarrow> s3
                 | Some m \<Rightarrow> wakeup1 (Chan_proc m) (upd_proc m (\<lambda>p. p\<lparr>p_killed := True\<rparr>) s3));
         s5 = fold (reparent c) [0..<length (ptable s4)] s4
     in call (sched (upd_proc c (\<lambda>p. p\<lparr>p_state := ZOMBIE\<rparr>) s5)) (\<lambda>s6. Inr (Exited, s6))))"

definition exit :: "kernel \<Rightarrow> (unit outcome \<times> kernel) kres" where
  "exit s = with_curproc s (\<lambda>c.
     if initproc s = Some c then Inl (Panic ''init exiting'')
     else if p_tid (proc_at s c) = 0 then
       call (each (exit_thread c) [0..<length (ptable s)] (False, s)) (\<lambda>(thread_exist, s1).
       if thread_exist then call (sleep (Chan_proc c) s1) (\<lambda>s2. Inr (Blocked, s2))
       else exit_rest c s1)
     else exit_rest c s)"

section \<open>Wait\<close>

definition wait :: "kernel \<Rightarrow> (int outcome \<times> kernel) kres" where
  "wait s = with_curproc s (\<lambda>c.
     case first_from 0 (\<lambda>p. p_parent p = Some c \<and> p_state p = ZOMBIE) (ptable s) of
       Some i \<Rightarrow>
         let p = proc_at s i in
         call (kfree (p_kstack p) s) (\<lambda>s1.
         call (freevm (p_pgdir p) (upd_proc i (\<lambda>q. q\<lparr>p_kstack := 0\<rparr>) s1)) (\<lambda>s2.
         Inr (Returns (p_pid p), upd_proc i free_slot s2)))
     | None \<Rightarrow>
         if (\<forall>p \<in> set (ptable s). p_parent p \<noteq> Some c) \<or> p_killed (proc_at s c)
         then Inr (Returns (-1), s)
         else call (sleep (Chan_proc c) s) (\<lambda>s1. Inr (Blocked, s1)))"

section \<open>Threads\<close>

text \<open>The stack of a new thread: a place given back by an earlier thread, or the top of the space.\<close>

definition thread_place :: "nat \<Rightarrow> kernel \<Rightarrow> i32 \<times> kernel" where
  "thread_place m s =
     (let mp = proc_at s m; e = p_empty_mem mp in
      if mem_size e = 0 then (p_sz mp, upd_proc m (\<lambda>p. p\<lparr>p_sz := p_sz p + 2 * PGSIZE\<rparr>) s)
      else (mem_data e ! (mem_size e - 1),
            upd_proc m (\<lambda>p. p\<lparr>p_empty_mem := e\<lparr>mem_size := mem_size e - 1\<rparr>\<rparr>) s))"

definition thread_create :: "i32 \<Rightarrow> i32 \<Rightarrow> i32 \<Rightarrow> kernel \<Rightarrow> (int \<times> kernel) kres" where
  "thread_create thread start_routine arg s = with_curproc s (\<lambda>c.
     let m = sz_owner s c in
     call (allocproc s) (\<lambda>(a, s1).
     case a of None \<Rightarrow> Inr (-1, s1)
     | Some np \<Rightarrow>
       let tid = nexttid s1;
           s2 = upd_proc np (\<lambda>p. p\<lparr>p_tid := tid, p_master := Some m, p_pid := p_pid (proc_at s1 m)\<rparr>)
                  (s1\<lparr>nexttid := tid + 1\<rparr>);
           dir = p_pgdir (proc_at s2 m)
       in case thread_place m s2 of (vir_add, s3) \<Rightarrow>
       call (allocuvm dir vir_add (vir_add + 2 * PGSIZE) s3) (\<lambda>(sz, s4).
       let s5 = upd_proc np (\<lambda>p. p\<lparr>p_tf := p_tf (proc_at s4 m)\<rparr>) s4 in
       call (each (dup_ofile m np) [0..<NOFILE_t] s5) (\<lambda>s6.
       call (idup_t (p_cwd (proc_at s6 m)) s6) (\<lambda>s7.
       let s8 = upd_proc np (\<lambda>p. p\<lparr>p_cwd := p_cwd (proc_at s7 m),
                  p_name := safestrcpy16 (p_name (proc_at s7 m))\<rparr>) s7;
           sp = sz - 4 in
       call (user_store sp arg s8) (\<lambda>s9.
       let s10 = upd_proc np (\<lambda>p. p\<lparr>p_sz := sz,
                   p_tf := (p_tf p)\<lparr>tf_eip := start_routine, tf_esp := sp - 4\<rparr>,
                   p_pgdir := dir, p_vir_add := vir_add\<rparr>) s9 in
       call (user_store thread (word_of_int tid) s10) (\<lambda>s11.
       Inr (0, upd_proc np (\<lambda>p. p\<lparr>p_state := RUNNABLE\<rparr>) s11))))))))"

definition thread_exit :: "i32 \<Rightarrow> kernel \<Rightarrow> (unit outcome \<times> kernel) kres" where
  "thread_exit ret_val s = with_curproc s (\<lambda>c.
     call (each (close_ofile c) [0..<NOFILE_t] s) (\<lambda>s1.
     call (iput_t (p_cwd (proc_at s1 c)) s1) (\<lambda>s2.
     let s3 = upd_proc c (\<lambda>p. p\<lparr>p_cwd := None, p_retval := ret_val\<rparr>) s2;
         s4 = wakeup1 (chan_of (p_master (proc_at s3 c))) s3
     in call (sched (upd_proc c (\<lambda>p. p\<lparr>p_state := ZOMBIE\<rparr>) s4)) (\<lambda>s5. Inr (Exited, s5)))))"

definition thread_join :: "i32 \<Rightarrow> i32 \<Rightarrow> kernel \<Rightarrow> (int outcome \<times> kernel) kres" where
  "thread_join thread retval s = with_curproc s (\<lambda>c.
     if p_master (proc_at s c) \<noteq> None then Inr (Returns (-1), s)
     else case first_from 0 (\<lambda>p. word_of_int (p_tid p) = thread \<and> p_state p = ZOMBIE) (ptable s) of
       Some i \<Rightarrow>
         let p = proc_at s i in
         call (user_store retval (p_retval p) s) (\<lambda>s1.
         call (kfree (p_kstack p) s1) (\<lambda>s2.
         case p_master p of None \<Rightarrow> Inl Fault
         | Some m \<Rightarrow>
           call (push_empty m (p_vir_add p) s2) (\<lambda>s3.
           call (deallocuvm (p_pgdir p) (p_sz p) (p_vir_add p)
                   (upd_proc i (\<lambda>q. (free_slot q)\<lparr>p_master := None\<rparr>) s3)) (\<lambda>(_, s4).
           Inr (Returns 0, s4)))))
     | None \<Rightarrow>
         if p_killed (proc_at s c) then Inr (Returns (-1), s)
         else call (sleep (Chan_proc c) s) (\<lambda>s1. Inr (Blocked, s1)))"

definition thread_kill :: "nat \<Rightarrow> kernel \<Rightarrow> kernel kres" where
  "thread_kill pp s = with_curproc s (\<lambda>c.
     let cur_pid = p_pid (proc_at s pp) in
     if p_killed (proc_at s c) then Inr s
     else Inr (fold (\<lambda>i s. if i \<noteq> pp \<and> cur_pid = p_pid (proc_at s i)
                 then upd_proc i (\<lambda>p. p\<lparr>p_state := SLEEPING, p_killed := True, p_chan := No_chan\<rparr>) s
                 else s) [0..<length (ptable s)] s))"

text \<open>The pass of \<open>thread_wakeup\<close>; the flag is \<open>isemp\<close>.\<close>

definition wake_sibling :: "nat \<Rightarrow> int \<Rightarrow> nat \<Rightarrow> bool \<times> kernel \<Rightarrow> bool \<times> kernel" where
  "wake_sibling pp cur_pid i st =
     (case st of (isemp, s) \<Rightarrow>
      let p = proc_at s i in
      if p_state p = SLEEPING \<and> p_pid p = cur_pid \<and> i \<noteq> pp then
        if p_parent p \<noteq> None
        then (False, upd_proc i (\<lambda>q. q\<lparr>p_parent := Some pp, p_state := RUNNABLE\<rparr>) s)
        else (isemp, upd_proc i (\<lambda>q. q\<lparr>p_state := RUNNABLE\<rparr>) s)
      else (isemp, s))"

definition thread_wakeup :: "nat \<Rightarrow> kernel \<Rightarrow> (unit outcome \<times> kernel) kres" where
  "thread_wakeup pp s =
     (case fold (wake_sibling pp (p_pid (proc_at s pp))) [0..<length (ptable s)] (True, s) of
        (isemp, s1) \<Rightarrow>
          if isemp then Inr (Returns (), s1)
          else call (wait s1) (\<lambda>(r, s2).
            Inr (case r of Returns _ \<Rightarrow> Returns () | Blocked \<Rightarrow> Blocked | Exited \<Rightarrow> Exited, s2)))"

section \<open>The thread part of exec\<close>

text \<open>A thread that calls \<open>exec\<close> becomes a process of its own, and its siblings are put to sleep;
  \<open>prev_tid\<close> is returned with the state.\<close>

definition exec_promote :: "kernel \<Rightarrow> (int \<times> kernel) kres" where
  "exec_promote s = with_curproc s (\<lambda>c.
     let cp = proc_at s c in
     call (case p_master cp of
        None \<Rightarrow> Inr (0, s)
      | Some m \<Rightarrow> Inr (p_tid cp, upd_proc c (\<lambda>p. p\<lparr>p_parent := p_parent (proc_at s m),
            p_master := None, p_tid := 0\<rparr>) s))
     (\<lambda>(prev_tid, s1). call (thread_kill c s1) (\<lambda>s2. Inr (prev_tid, s2))))"

text \<open>Pushing the argument strings and the \<open>ustack\<close> words; \<open>None\<close> is the jump to \<open>bad\<close>.\<close>

definition MAXARG :: nat where "MAXARG = 32"

definition word_bytes :: "i32 \<Rightarrow> i8 list" where
  "word_bytes w = [ucast w, ucast (drop_bit 8 w), ucast (drop_bit 16 w), ucast (drop_bit 24 w)]"

primrec push_args ::
  "i8 list list \<Rightarrow> i32 \<Rightarrow> i32 \<Rightarrow> i32 list \<Rightarrow> kernel \<Rightarrow> ((i32 \<times> i32 list) option \<times> kernel) kres" where
  "push_args [] dir sp ustack s = Inr (Some (sp, ustack), s)"
| "push_args (a # as) dir sp ustack s =
     (if MAXARG \<le> length ustack then Inr (None, s)
      else let sp' = (sp - (of_nat (length a) + 1)) AND NOT 3 in
        call (copyout dir sp' (a @ [0]) s) (\<lambda>(r, s1).
        if r < 0 then Inr (None, s1) else push_args as dir sp' (ustack @ [sp']) s1))"

definition exec_stack :: "i8 list list \<Rightarrow> i32 \<Rightarrow> i32 \<Rightarrow> kernel \<Rightarrow> (i32 option \<times> kernel) kres" where
  "exec_stack argv dir sz s =
     call (push_args argv dir sz [] s) (\<lambda>(r, s1).
     case r of None \<Rightarrow> Inr (None, s1)
     | Some (sp, ptrs) \<Rightarrow>
       let argc = of_nat (length ptrs) :: i32;
           ustack = [0xffffffff, argc, sp - (argc + 1) * 4] @ ptrs @ [0];
           sp' = sp - (3 + argc + 1) * 4
       in call (copyout dir sp' (concat (map word_bytes ustack)) s1) (\<lambda>(r, s2).
          if r < 0 then Inr (None, s2) else Inr (Some sp', s2)))"

text \<open>The user stack: two pages above the image, the lower one a guard.\<close>

definition exec_user_stack :: "i32 \<Rightarrow> i32 \<Rightarrow> kernel \<Rightarrow> (i32 \<times> kernel) kres" where
  "exec_user_stack dir sz s =
     (let sz1 = PGROUNDUP sz in
      call (allocuvm dir sz1 (sz1 + 2 * PGSIZE) s) (\<lambda>(sz2, s1).
      if sz2 = 0 then Inr (0, s1)
      else call (clearpteu dir (sz2 - 2 * PGSIZE) s1) (\<lambda>s2. Inr (sz2, s2))))"

definition exec_commit ::
  "string \<Rightarrow> i32 \<Rightarrow> i32 \<Rightarrow> i32 \<Rightarrow> i32 \<Rightarrow> int \<Rightarrow> kernel \<Rightarrow> (unit outcome \<times> kernel) kres" where
  "exec_commit last_name dir sz entry_pc sp prev_tid s = with_curproc s (\<lambda>c.
     let oldpgdir = p_pgdir (proc_at s c);
         s1 = upd_proc c (\<lambda>p. p\<lparr>p_name := safestrcpy16 last_name, p_pgdir := dir, p_sz := sz,
                p_tf := (p_tf p)\<lparr>tf_eip := entry_pc, tf_esp := sp\<rparr>\<rparr>) s in
     call (switchuvm (Some c) s1) (\<lambda>s2.
     call (if prev_tid = 0 then freevm oldpgdir s2 else Inr s2) (\<lambda>s3. thread_wakeup c s3)))"

definition exec_bad :: "i32 \<Rightarrow> kernel \<Rightarrow> (unit outcome \<times> kernel) kres" where
  "exec_bad dir s = with_curproc s (\<lambda>c.
     call (if dir \<noteq> 0 then freevm dir s else Inr s) (\<lambda>s1. thread_wakeup c s1))"

section \<open>No operation starts a process\<close>

lemma push_empty_quiet [quiet_dests]: "push_empty m va s = Inr s' \<Longrightarrow> \<forall>q. quiet q s \<longrightarrow> quiet q s'"
  by (auto simp: push_empty_def Let_def quiet_upd split: if_splits)

lemma growproc_quiet [quiet_dests]: "growproc n s = Inr (r, s') \<Longrightarrow> \<forall>q. quiet q s \<longrightarrow> quiet q s'"
  by (auto simp: growproc_def Let_def with_curproc_Inr call_eq_Inr quiet_upd split: if_splits dest!: quiet_dests)

lemma fork_quiet [quiet_dests]: "fork s = Inr (r, s') \<Longrightarrow> \<forall>q. quiet q s \<longrightarrow> quiet q s'"
  by (auto simp: fork_def Let_def with_curproc_Inr call_eq_Inr quiet_upd
      split: if_splits option.splits dest!: quiet_dests)

lemma exit_thread_quiet:
  "exit_thread c i (b, s) = Inr (b', s') \<Longrightarrow> \<forall>q. quiet q s \<longrightarrow> quiet q s'"
  by (auto simp: exit_thread_def Let_def call_eq_Inr quiet_upd quiet_wakeup free_slot_def
      split: if_splits dest!: quiet_dests)

lemma exit_threads_quiet [quiet_dests]:
  "each (exit_thread c) js (b, s) = Inr (b', s') \<Longrightarrow> \<forall>q. quiet q s \<longrightarrow> quiet q s'"
proof (induction js arbitrary: b s)
  case (Cons j js)
  from Cons.prems obtain b1 s1 where "exit_thread c j (b, s) = Inr (b1, s1)"
    "each (exit_thread c) js (b1, s1) = Inr (b', s')" by (auto simp: call_eq_Inr)
  from exit_thread_quiet [OF this(1)] Cons.IH [OF this(2)] show ?case by blast
qed simp

lemma fold_quiet: "(\<And>x s. quiet q s \<Longrightarrow> quiet q (f x s)) \<Longrightarrow> quiet q s \<Longrightarrow> quiet q (fold f xs s)"
  by (induction xs arbitrary: s) auto

lemma reparent_quiet: "quiet q s \<Longrightarrow> quiet q (fold (reparent c) js s)"
  by (rule fold_quiet) (auto simp: reparent_def Let_def quiet_upd quiet_wakeup)

lemma exit_rest_quiet [quiet_dests]: "exit_rest c s = Inr (r, s') \<Longrightarrow> \<forall>q. quiet q s \<longrightarrow> quiet q s'"
  by (auto simp: exit_rest_def Let_def call_eq_Inr sched_Inr quiet_upd quiet_wakeup reparent_quiet
      split: if_splits option.splits dest!: quiet_dests)

lemma exit_quiet [quiet_dests]: "exit s = Inr (r, s') \<Longrightarrow> \<forall>q. quiet q s \<longrightarrow> quiet q s'"
  by (auto simp: exit_def with_curproc_Inr call_eq_Inr split: if_splits dest!: quiet_dests)

lemma wait_quiet [quiet_dests]: "wait s = Inr (r, s') \<Longrightarrow> \<forall>q. quiet q s \<longrightarrow> quiet q s'"
  by (auto simp: wait_def Let_def with_curproc_Inr call_eq_Inr quiet_upd free_slot_def
      split: if_splits option.splits dest!: quiet_dests)

lemma thread_place_quiet: "thread_place m s = (va, s') \<Longrightarrow> \<forall>q. quiet q s \<longrightarrow> quiet q s'"
  by (auto simp: thread_place_def Let_def quiet_upd split: if_splits)

lemma case_prod_Inr: "(case p of (a, b) \<Rightarrow> f a b) = Inr y \<longleftrightarrow> (\<exists>a b. p = (a, b) \<and> f a b = Inr y)"
  by (cases p) auto

lemma thread_create_quiet [quiet_dests]:
  "thread_create t f a s = Inr (r, s') \<Longrightarrow> \<forall>q. quiet q s \<longrightarrow> quiet q s'"
  by (auto simp: thread_create_def Let_def with_curproc_Inr call_eq_Inr quiet_upd case_prod_Inr
      split: option.splits dest!: thread_place_quiet quiet_dests)

lemma thread_exit_quiet [quiet_dests]: "thread_exit v s = Inr (r, s') \<Longrightarrow> \<forall>q. quiet q s \<longrightarrow> quiet q s'"
  by (auto simp: thread_exit_def Let_def with_curproc_Inr call_eq_Inr sched_Inr quiet_upd quiet_wakeup
      dest!: quiet_dests)

lemma thread_join_quiet [quiet_dests]: "thread_join t p s = Inr (r, s') \<Longrightarrow> \<forall>q. quiet q s \<longrightarrow> quiet q s'"
  by (auto simp: thread_join_def Let_def with_curproc_Inr call_eq_Inr quiet_upd free_slot_def
      split: if_splits option.splits dest!: quiet_dests)

lemma thread_kill_quiet [quiet_dests]: "thread_kill pp s = Inr s' \<Longrightarrow> \<forall>q. quiet q s \<longrightarrow> quiet q s'"
  by (auto simp: thread_kill_def with_curproc_Inr quiet_upd split: if_splits intro!: fold_quiet)

lemma wake_sibling_quiet:
  "quiet q s \<Longrightarrow> fold (wake_sibling pp pid) js (b, s) = (b', s') \<Longrightarrow> quiet q s'"
proof (induction js arbitrary: b s)
  case (Cons j js)
  obtain b1 s1 where st: "wake_sibling pp pid j (b, s) = (b1, s1)" by (cases "wake_sibling pp pid j (b, s)") auto
  then have "quiet q s1" using Cons.prems(1) by (auto simp: wake_sibling_def Let_def quiet_upd split: if_splits)
  with Cons st show ?case by auto
qed simp

lemma thread_wakeup_quiet [quiet_dests]:
  "thread_wakeup pp s = Inr (r, s') \<Longrightarrow> \<forall>q. quiet q s \<longrightarrow> quiet q s'"
  by (auto simp: thread_wakeup_def call_eq_Inr split: if_splits prod.splits
      dest: wake_sibling_quiet dest!: quiet_dests)

end
