(* ===== verification/Scheduler.thy ===== *)
theory Scheduler
  imports Threads
begin

text \<open>
  The three schedulers of \<open>proc.c\<close> (\<open>MULTILEVEL_SCHED\<close>, \<open>MLFQ_SCHED\<close>, \<open>DEFAULT\<close>), one turn of
  the endless loop each, and the ring buffer of odd-pid processes.  What a process does between
  being switched to and switching back is the argument \<open>run\<close>.
\<close>

section \<open>The queue of odd processes\<close>

definition QSIZE :: nat where "QSIZE = 80"

definition qu_in :: "nat \<Rightarrow> kernel \<Rightarrow> bool kres" where
  "qu_in a s =
     (case first_from 0 (\<lambda>i. qu_arr s ! i = None \<or>
             (\<exists>j. qu_arr s ! i = Some j \<and> p_pid (proc_at s j) = p_pid (proc_at s a)))
             [qu_front s..<qu_rear s] of
        None \<Rightarrow> Inr False
      | Some k \<Rightarrow> if qu_arr s ! (qu_front s + k) = None then Inl Fault else Inr True)"

definition qu_push :: "nat \<Rightarrow> kernel \<Rightarrow> kernel kres" where
  "qu_push a s = call (qu_in a s) (\<lambda>b.
     if b then Inr s
     else Inr (s\<lparr>qu_arr := (qu_arr s)[qu_rear s mod QSIZE := Some a],
                 qu_rear := (qu_rear s + 1) mod QSIZE\<rparr>))"

definition qu_pop :: "kernel \<Rightarrow> kernel" where
  "qu_pop s =
     (if qu_front s = qu_rear s then s
      else s\<lparr>qu_arr := (qu_arr s)[qu_front s := None], qu_front := (qu_front s + 1) mod QSIZE\<rparr>)"

definition qu_get :: "kernel \<Rightarrow> nat option" where
  "qu_get s = (if qu_front s = qu_rear s then None else qu_arr s ! qu_front s)"

definition qu_emp :: "kernel \<Rightarrow> bool" where
  "qu_emp s \<longleftrightarrow> qu_front s = qu_rear s"

section \<open>Switching to a process\<close>

definition dispatch :: "(kernel \<Rightarrow> kernel kres) \<Rightarrow> nat \<Rightarrow> kernel \<Rightarrow> kernel kres" where
  "dispatch run i s =
     call (switchuvm (Some i) (s\<lparr>cpu_proc := Some i\<rparr>)) (\<lambda>s1.
     call (run (upd_proc i (\<lambda>p. p\<lparr>p_state := RUNNING\<rparr>) s1)) (\<lambda>s2. Inr (switchkvm s2)))"

definition idle :: "kernel \<Rightarrow> kernel" where "idle s = s\<lparr>cpu_proc := None\<rparr>"

section \<open>MULTILEVEL_SCHED\<close>

definition even_exist :: "kernel \<Rightarrow> bool" where
  "even_exist s \<longleftrightarrow>
     (\<exists>p \<in> set (ptable s). p_pid p \<noteq> 2 \<and> p_pid p mod 2 = 0 \<and> p_state p = RUNNABLE)"

definition multilevel_visit ::
  "(kernel \<Rightarrow> kernel kres) \<Rightarrow> bool \<Rightarrow> nat \<Rightarrow> kernel \<Rightarrow> kernel kres" where
  "multilevel_visit run ev i s =
     (let p = proc_at s i in
      if p_state p \<noteq> RUNNABLE then Inr s
      else if p_pid p = 1 \<or> p_pid p = 2 \<or> (ev \<and> p_pid p mod 2 = 0)
        then call (dispatch run i s) (\<lambda>s1. Inr (idle s1))
      else if ev \<or> p_pid p mod 2 = 1 then qu_push i s
      else Inr s)"

definition multilevel_round :: "(kernel \<Rightarrow> kernel kres) \<Rightarrow> kernel \<Rightarrow> kernel kres" where
  "multilevel_round run s =
     (let ev = even_exist s in
      call (each (multilevel_visit run ev) [0..<length (ptable s)] s) (\<lambda>s1.
      if \<not> ev \<and> \<not> qu_emp s1 then
        case qu_get s1 of None \<Rightarrow> Inr s1
        | Some nxt_odd \<Rightarrow>
            if p_state (proc_at s1 nxt_odd) \<noteq> RUNNABLE then Inr (qu_pop s1)
            else dispatch run nxt_odd s1
      else Inr s1))"

section \<open>MLFQ_SCHED\<close>

text \<open>One step of the scan for the process to run.\<close>

definition mlfq_better :: "kernel \<Rightarrow> nat \<Rightarrow> nat option \<Rightarrow> nat option" where
  "mlfq_better s i tmp =
     (let p = proc_at s i in
      if p_state p \<noteq> RUNNABLE then tmp
      else if p_pid p = 1 then Some i
      else case tmp of
        None \<Rightarrow> Some i
      | Some t \<Rightarrow>
          if p_last_out p then tmp
          else if p_level p = p_level (proc_at s t) then
            if p_priority (proc_at s t) < p_priority p then Some i else tmp
          else if p_level p < p_level (proc_at s t) then Some i
          else tmp)"

definition mlfq_pick :: "kernel \<Rightarrow> nat option" where
  "mlfq_pick s = fold (mlfq_better s) [0..<length (ptable s)] None"

text \<open>One turn, with the scheduler's local variable \<open>prev\<close>.\<close>

definition mlfq_round ::
  "(kernel \<Rightarrow> kernel kres) \<Rightarrow> nat option \<Rightarrow> kernel \<Rightarrow> (nat option \<times> kernel) kres" where
  "mlfq_round run prev s =
     (case (case prev of Some i \<Rightarrow> Some i | None \<Rightarrow> mlfq_pick s) of
        None \<Rightarrow> Inr (prev, s)
      | Some t \<Rightarrow>
          if p_state (proc_at s t) \<noteq> RUNNABLE then Inr (prev, s)
          else let prev_lev = p_level (proc_at s t) in
            call (dispatch run t s) (\<lambda>s1.
            let q = proc_at s1 t in
            Inr (if prev_lev \<noteq> p_level q \<or> p_last_out q \<or> p_state q \<noteq> RUNNABLE
                 then None else Some t, idle s1)))"

section \<open>DEFAULT\<close>

definition default_visit :: "(kernel \<Rightarrow> kernel kres) \<Rightarrow> nat \<Rightarrow> kernel \<Rightarrow> kernel kres" where
  "default_visit run i s =
     (if p_state (proc_at s i) \<noteq> RUNNABLE then Inr s
      else call (dispatch run i s) (\<lambda>s1. Inr (idle s1)))"

definition default_round :: "(kernel \<Rightarrow> kernel kres) \<Rightarrow> kernel \<Rightarrow> kernel kres" where
  "default_round run s = each (default_visit run) [0..<length (ptable s)] s"

section \<open>The choice of the MLFQ scheduler\<close>

text \<open>The scheduler's order: the smaller level first, then the larger priority.\<close>

datatype rank = Rank (rank_level: int) (rank_prio: int)

instantiation rank :: linorder
begin

definition less_eq_rank :: "rank \<Rightarrow> rank \<Rightarrow> bool" where
  "a \<le> b \<longleftrightarrow> rank_level a < rank_level b \<or> rank_level a = rank_level b \<and> rank_prio b \<le> rank_prio a"

definition less_rank :: "rank \<Rightarrow> rank \<Rightarrow> bool" where
  "a < b \<longleftrightarrow> rank_level a < rank_level b \<or> rank_level a = rank_level b \<and> rank_prio b < rank_prio a"

instance
  by standard (auto simp: less_eq_rank_def less_rank_def intro: rank.expand)

end

definition rank_of :: "proc \<Rightarrow> rank" where "rank_of p = Rank (p_level p) (p_priority p)"

definition runnable :: "kernel \<Rightarrow> nat \<Rightarrow> bool" where
  "runnable s i \<longleftrightarrow> i < length (ptable s) \<and> p_state (proc_at s i) = RUNNABLE"

lemma mlfq_better_rank:
  "mlfq_better s i tmp =
     (if p_state (proc_at s i) \<noteq> RUNNABLE then tmp
      else if p_pid (proc_at s i) = 1 \<or> tmp = None then Some i
      else if \<not> p_last_out (proc_at s i) \<and> rank_of (proc_at s i) < rank_of (proc_at s (the tmp)) then Some i
      else tmp)"
  by (auto simp: mlfq_better_def Let_def rank_of_def less_rank_def split: option.splits)

text \<open>What the scan has found after \<open>n\<close> slots.\<close>

definition scanned :: "kernel \<Rightarrow> nat \<Rightarrow> nat option \<Rightarrow> bool" where
  "scanned s n tmp \<longleftrightarrow>
     (case tmp of
        None \<Rightarrow> \<forall>i < n. \<not> runnable s i
      | Some t \<Rightarrow> t < n \<and> runnable s t \<and>
          (p_last_out (proc_at s t) \<longrightarrow> p_pid (proc_at s t) = 1 \<or> (\<forall>i < t. \<not> runnable s i)) \<and>
          (\<forall>i < n. runnable s i \<longrightarrow> \<not> p_last_out (proc_at s i) \<longrightarrow>
             (\<forall>j < n. i < j \<longrightarrow> runnable s j \<longrightarrow> p_pid (proc_at s j) \<noteq> 1) \<longrightarrow>
             rank_of (proc_at s t) \<le> rank_of (proc_at s i)))"

lemma scanned_step:
  assumes "scanned s n tmp" "n < length (ptable s)"
  shows "scanned s (Suc n) (mlfq_better s n tmp)"
proof (cases "runnable s n")
  case False
  with assms show ?thesis
    by (auto simp: mlfq_better_rank scanned_def runnable_def less_Suc_eq split: option.splits)
next
  case run: True
  then have st: "p_state (proc_at s n) = RUNNABLE" by (simp add: runnable_def)
  show ?thesis
  proof (cases tmp)
    case None
    with run st assms show ?thesis
      by (auto simp: mlfq_better_rank scanned_def less_Suc_eq)
  next
    case (Some t)
    with assms(1) have t: "t < n" "runnable s t"
      "p_last_out (proc_at s t) \<longrightarrow> p_pid (proc_at s t) = 1 \<or> (\<forall>i < t. \<not> runnable s i)"
      and best: "\<And>i. i < n \<Longrightarrow> runnable s i \<Longrightarrow> \<not> p_last_out (proc_at s i) \<Longrightarrow>
             (\<forall>j < n. i < j \<longrightarrow> runnable s j \<longrightarrow> p_pid (proc_at s j) \<noteq> 1) \<Longrightarrow>
             rank_of (proc_at s t) \<le> rank_of (proc_at s i)"
      by (auto simp: scanned_def)
    consider (init) "p_pid (proc_at s n) = 1"
      | (better) "p_pid (proc_at s n) \<noteq> 1" "\<not> p_last_out (proc_at s n)"
          "rank_of (proc_at s n) < rank_of (proc_at s t)"
      | (keep) "p_pid (proc_at s n) \<noteq> 1"
          "p_last_out (proc_at s n) \<or> rank_of (proc_at s t) \<le> rank_of (proc_at s n)"
      by fastforce
    then show ?thesis
    proof cases
      case init
      then have "mlfq_better s n tmp = Some n" using st by (simp add: mlfq_better_rank)
      moreover have "rank_of (proc_at s n) \<le> rank_of (proc_at s i)"
        if "i < Suc n" "\<forall>j < Suc n. i < j \<longrightarrow> runnable s j \<longrightarrow> p_pid (proc_at s j) \<noteq> 1" for i
        using that init run by (metis less_Suc_eq order_refl)
      ultimately show ?thesis using run init by (auto simp: scanned_def)
    next
      case better
      then have m: "mlfq_better s n tmp = Some n" using st Some by (simp add: mlfq_better_rank)
      have "rank_of (proc_at s n) \<le> rank_of (proc_at s i)"
        if i: "i < Suc n" "runnable s i" "\<not> p_last_out (proc_at s i)"
          "\<forall>j < Suc n. i < j \<longrightarrow> runnable s j \<longrightarrow> p_pid (proc_at s j) \<noteq> 1" for i
      proof (cases "i = n")
        case False
        with i have "rank_of (proc_at s t) \<le> rank_of (proc_at s i)" by (intro best) auto
        with better(3) show ?thesis by simp
      qed simp
      with m run better(2) show ?thesis by (auto simp: scanned_def)
    next
      case keep
      then have m: "mlfq_better s n tmp = Some t" using st Some by (auto simp: mlfq_better_rank)
      have "rank_of (proc_at s t) \<le> rank_of (proc_at s i)"
        if i: "i < Suc n" "runnable s i" "\<not> p_last_out (proc_at s i)"
          "\<forall>j < Suc n. i < j \<longrightarrow> runnable s j \<longrightarrow> p_pid (proc_at s j) \<noteq> 1" for i
      proof (cases "i = n")
        case True
        with keep(2) i(3) show ?thesis by auto
      next
        case False
        with i show ?thesis by (intro best) auto
      qed
      with m t show ?thesis by (auto simp: scanned_def)
    qed
  qed
qed

lemma scanned_fold: "n \<le> length (ptable s) \<Longrightarrow> scanned s n (fold (mlfq_better s) [0..<n] None)"
proof (induction n)
  case 0
  show ?case by (simp add: scanned_def)
next
  case (Suc n)
  then show ?case using scanned_step [of s n] by simp
qed

lemma mlfq_pick_scanned: "scanned s (length (ptable s)) (mlfq_pick s)"
  unfolding mlfq_pick_def by (rule scanned_fold) simp

lemma mlfq_pick_None: "mlfq_pick s = None \<longleftrightarrow> (\<forall>i. \<not> runnable s i)"
proof -
  have len: "runnable s i \<Longrightarrow> i < length (ptable s)" for i by (simp add: runnable_def)
  show ?thesis
    using mlfq_pick_scanned [of s] len by (cases "mlfq_pick s") (auto simp: scanned_def)
qed

text \<open>A best choice: it is runnable, and no runnable process that has quantum left, and behind which
  there is no runnable process with pid 1 in the table, is in a smaller level or has a larger priority
  in the same level; a process that has used up its quantum in the last queue is pid 1 or the first
  runnable process of the table.\<close>

definition best_choice :: "kernel \<Rightarrow> nat \<Rightarrow> bool" where
  "best_choice s t \<longleftrightarrow> runnable s t \<and>
     (\<forall>i. runnable s i \<and> \<not> p_last_out (proc_at s i) \<and>
          (\<forall>j. i < j \<and> runnable s j \<longrightarrow> p_pid (proc_at s j) \<noteq> 1) \<longrightarrow>
          p_level (proc_at s t) < p_level (proc_at s i) \<or>
          p_level (proc_at s t) = p_level (proc_at s i) \<and> p_priority (proc_at s i) \<le> p_priority (proc_at s t)) \<and>
     (p_last_out (proc_at s t) \<longrightarrow> p_pid (proc_at s t) = 1 \<or> (\<forall>i < t. \<not> runnable s i))"

lemma mlfq_pick_best: "mlfq_pick s = Some t \<Longrightarrow> best_choice s t"
  using mlfq_pick_scanned [of s]
  by (auto simp: best_choice_def scanned_def rank_of_def less_eq_rank_def runnable_def)

text \<open>C17: One turn of the MLFQ scheduler.  Without a process kept from the turn before it runs a best
  choice, and nothing exactly when no process is runnable; a process that was kept runs again,
  whoever else is runnable, and the turn is empty if it is not runnable.  The process that ran
  is kept for the next turn exactly if it came back runnable, in its level and with quantum left.
  A best choice has used up its quantum only if it is init or no process before it in the table is
  runnable; the README would never schedule it, and look for the best process each time.\<close>

theorem mlfq_turn:
  assumes "mlfq_round run prev s = Inr (prev', s')"
  shows "(prev = None \<and> (\<forall>i. \<not> runnable s i) \<or> (\<exists>t. prev = Some t \<and> p_state (proc_at s t) \<noteq> RUNNABLE)) \<and>
      prev' = prev \<and> s' = s \<or>
    (\<exists>t s1. (prev = None \<and> best_choice s t \<or> prev = Some t \<and> p_state (proc_at s t) = RUNNABLE) \<and>
      dispatch run t s = Inr s1 \<and> s' = idle s1 \<and>
      prev' = (if p_level (proc_at s1 t) = p_level (proc_at s t) \<and> \<not> p_last_out (proc_at s1 t) \<and>
                  p_state (proc_at s1 t) = RUNNABLE then Some t else None))"
proof -
  have turn: "?thesis" if "(case prev of Some i \<Rightarrow> Some i | None \<Rightarrow> mlfq_pick s) = Some t"
    "p_state (proc_at s t) = RUNNABLE" "prev = None \<longrightarrow> best_choice s t" for t
  proof -
    from assms that(1,2) obtain s1 where "dispatch run t s = Inr s1" "s' = idle s1"
      "prev' = (if p_level (proc_at s t) \<noteq> p_level (proc_at s1 t) \<or> p_last_out (proc_at s1 t) \<or>
                   p_state (proc_at s1 t) \<noteq> RUNNABLE then None else Some t)"
      by (auto simp: mlfq_round_def Let_def call_eq_Inr)
    moreover have "prev = None \<or> prev = Some t" using that(1) by (cases prev) auto
    ultimately show ?thesis using that(2,3) by (intro disjI2 exI [of _ t] exI [of _ s1]) auto
  qed
  show ?thesis
  proof (cases prev)
    case None
    show ?thesis
    proof (cases "mlfq_pick s")
      case pick: None
      then show ?thesis using assms None mlfq_pick_None [of s] by (simp add: mlfq_round_def)
    next
      case (Some t)
      then have "best_choice s t" by (rule mlfq_pick_best)
      then show ?thesis using None Some by (intro turn [of t]) (auto simp: best_choice_def runnable_def)
    qed
  next
    case (Some t)
    show ?thesis
    proof (cases "p_state (proc_at s t) = RUNNABLE")
      case True
      then show ?thesis using Some by (intro turn [of t]) auto
    next
      case False
      then have "prev' = prev \<and> s' = s" using assms Some by (simp add: mlfq_round_def)
      then show ?thesis using False Some by (intro disjI1) blast
    qed
  qed
qed


text \<open>Of two runnable processes the one in the smaller level runs; it yields and is kept.\<close>

theorem mlfq_turn_witness:
  "\<exists>s1. mlfq_round (\<lambda>s. Inr (upd_proc 2 (\<lambda>p. p\<lparr>p_state := RUNNABLE\<rparr>) s)) None
       (machine [proc_ex 1 SLEEPING 0 0, proc_ex 3 RUNNABLE 2 9, proc_ex 4 RUNNABLE 1 0]) = Inr (Some 2, s1) \<and>
     best_choice (machine [proc_ex 1 SLEEPING 0 0, proc_ex 3 RUNNABLE 2 9, proc_ex 4 RUNNABLE 1 0]) 2"
proof -
  let ?s = "machine [proc_ex 1 SLEEPING 0 0, proc_ex 3 RUNNABLE 2 9, proc_ex 4 RUNNABLE 1 0]"
  let ?run = "\<lambda>s. Inr (upd_proc 2 (\<lambda>p. p\<lparr>p_state := RUNNABLE\<rparr>) s)"
  have p: "mlfq_pick ?s = Some 2"
    by (simp add: mlfq_pick_def machine_def proc_ex_def proc_at_def mlfq_better_def upt_rec numeral_2_eq_2)
  have r: "runnable ?s 1" by (simp add: runnable_def machine_def proc_ex_def proc_at_def)
  have "\<exists>s1. mlfq_round ?run None ?s = Inr (Some 2, s1)"
    unfolding mlfq_round_def p
    by (simp add: dispatch_def switchuvm_def machine_def proc_ex_def proc_at_def upd_proc_def switchkvm_def
        V2P_def KERNBASE_def Let_def)
  then obtain s1 where s1: "mlfq_round ?run None ?s = Inr (Some 2, s1)" by blast
  from mlfq_turn [OF this] r have "best_choice ?s 2" by (auto split: if_splits)
  with s1 show ?thesis by blast
qed


end
