(* ===== verification/Trap.thy ===== *)
theory Trap
  imports Scheduler
begin

text \<open>
  Entry into the kernel: system call arguments (\<open>syscall.c\<close>), the process system calls
  (\<open>sysproc.c\<close>), the time accounting of the timer interrupt and the rest of \<open>trap\<close>
  (\<open>trap.c\<close>).  The file system calls of \<open>sysfile.c\<close> and the device interrupt handlers are
  arguments.  \<open>k\<close> is the build constant \<open>MLFQ_K\<close>; \<open>mlfq\<close> says whether \<open>MLFQ_SCHED\<close> is defined.
\<close>

section \<open>Arguments\<close>

text \<open>An \<open>int\<close> argument from the user stack; \<open>None\<close> stands for the result -1.\<close>

definition fetchint_t :: "i32 \<Rightarrow> kernel \<Rightarrow> i32 option kres" where
  "fetchint_t addr s = with_curproc s (\<lambda>c.
     if p_sz (proc_at s c) \<le> addr \<or> p_sz (proc_at s c) < addr + 4 then Inr None
     else call (user_word s addr) (\<lambda>w. Inr (Some w)))"

definition argint_t :: "nat \<Rightarrow> kernel \<Rightarrow> i32 option kres" where
  "argint_t n s = with_curproc s (\<lambda>c. fetchint_t (tf_esp (p_tf (proc_at s c)) + 4 + 4 * of_nat n) s)"

text \<open>\<open>with_args ns s f\<close> fetches the arguments \<open>ns\<close> in this order and returns -1 if one fails.\<close>

primrec with_args ::
  "nat list \<Rightarrow> kernel \<Rightarrow> (i32 list \<Rightarrow> (i32 outcome \<times> kernel) kres) \<Rightarrow> (i32 outcome \<times> kernel) kres" where
  "with_args [] s f = f []"
| "with_args (n # ns) s f =
     call (argint_t n s) (\<lambda>a. case a of None \<Rightarrow> Inr (Returns (-1), s)
       | Some w \<Rightarrow> with_args ns s (\<lambda>ws. f (w # ws)))"

definition ret_int :: "(int \<times> kernel) kres \<Rightarrow> (i32 outcome \<times> kernel) kres" where
  "ret_int r = call r (\<lambda>(v, s). Inr (Returns (word_of_int v), s))"

fun map_outcome :: "('a \<Rightarrow> 'b) \<Rightarrow> 'a outcome \<Rightarrow> 'b outcome" where
  "map_outcome f (Returns x) = Returns (f x)"
| "map_outcome f Blocked = Blocked"
| "map_outcome f Exited = Exited"

definition ret_outcome :: "('a \<Rightarrow> i32) \<Rightarrow> ('a outcome \<times> kernel) kres \<Rightarrow> (i32 outcome \<times> kernel) kres" where
  "ret_outcome f r = call r (\<lambda>(v, s). Inr (map_outcome f v, s))"

section \<open>System calls of processes\<close>

definition sys_fork where "sys_fork s = ret_int (fork s)"
definition sys_exit where "sys_exit s = ret_outcome (\<lambda>_. 0) (exit s)"
definition sys_wait where "sys_wait s = ret_outcome word_of_int (wait s)"

definition sys_kill where
  "sys_kill s = with_args [0] s (\<lambda>as. ret_int (Inr (kill (sint (as ! 0)) s)))"

definition sys_getpid where
  "sys_getpid s = with_curproc s (\<lambda>c. Inr (Returns (word_of_int (p_pid (proc_at s c)) :: i32), s))"

definition sys_getppid where
  "sys_getppid s = with_curproc s (\<lambda>c.
     call (parent_pid s (proc_at s c)) (\<lambda>pp. Inr (Returns (word_of_int pp :: i32), s)))"

text \<open>\<open>yield\<close> has made the caller runnable when this is \<open>Blocked\<close>; the call then returns 0.\<close>

definition sys_yield where
  "sys_yield s = call (yield s) (\<lambda>s1. Inr (Blocked :: i32 outcome, s1))"

definition sys_getlev where
  "sys_getlev s = call (getlev s) (\<lambda>l. Inr (Returns (word_of_int l :: i32), s))"

definition sys_sbrk where
  "sys_sbrk s = with_args [0] s (\<lambda>as.
     call (growproc (as ! 0) s) (\<lambda>(addr, s1).
     if sint addr < 0 then Inr (Returns (-1), s1)
     else call (growproc (as ! 0) s1) (\<lambda>(r, s2).
       if sint r < 0 then Inr (Returns (-1), s2) else Inr (Returns addr, s2))))"

text \<open>One pass of the loop of \<open>sys_sleep\<close>, with the tick count at the start.\<close>

definition sys_sleep_pass :: "i32 \<Rightarrow> i32 \<Rightarrow> kernel \<Rightarrow> (i32 outcome \<times> kernel) kres" where
  "sys_sleep_pass ticks0 n s =
     (if ticks s - ticks0 < n then with_curproc s (\<lambda>c.
        if p_killed (proc_at s c) then Inr (Returns (-1), s)
        else call (sleep Chan_ticks s) (\<lambda>s1. Inr (Blocked, s1)))
      else Inr (Returns 0, s))"

definition sys_sleep where
  "sys_sleep s = with_args [0] s (\<lambda>as. sys_sleep_pass (ticks s) (as ! 0) s)"

definition sys_uptime where "sys_uptime s = (Inr (Returns (ticks s), s) :: (i32 outcome \<times> kernel) kres)"

definition sys_setpriority where
  "sys_setpriority s = with_args [0, 1] s (\<lambda>as. ret_int (setpriority (sint (as ! 0)) (sint (as ! 1)) s))"

definition sys_thread_create where
  "sys_thread_create s = with_args [2, 0, 1] s (\<lambda>as. ret_int (thread_create (as ! 1) (as ! 2) (as ! 0) s))"

definition sys_thread_exit where
  "sys_thread_exit s = with_args [0] s (\<lambda>as. ret_outcome (\<lambda>_. 0) (thread_exit (as ! 0) s))"

definition sys_thread_join where
  "sys_thread_join s = with_args [0, 1] s (\<lambda>as. ret_outcome word_of_int (thread_join (as ! 0) (as ! 1) s))"

text \<open>The table of system calls; \<open>other\<close> are those of \<open>sysfile.c\<close> and \<open>sys_testfunc\<close>.\<close>

definition syscall_table ::
  "(i32 \<Rightarrow> kernel \<Rightarrow> (i32 outcome \<times> kernel) kres) \<Rightarrow> i32 \<Rightarrow> kernel \<Rightarrow> (i32 outcome \<times> kernel) kres" where
  "syscall_table other num =
     (if num = 1 then sys_fork else if num = 2 then sys_exit else if num = 3 then sys_wait
      else if num = 6 then sys_kill else if num = 11 then sys_getpid else if num = 12 then sys_sbrk
      else if num = 13 then sys_sleep else if num = 14 then sys_uptime else if num = 22 then sys_getppid
      else if num = 23 then sys_yield else if num = 24 then sys_getlev
      else if num = 25 then sys_setpriority else if num = 27 then sys_thread_create
      else if num = 28 then sys_thread_exit else if num = 29 then sys_thread_join
      else other num)"

definition set_eax :: "nat \<Rightarrow> i32 \<Rightarrow> kernel \<Rightarrow> kernel" where
  "set_eax c v = upd_proc c (\<lambda>p. p\<lparr>p_tf := (p_tf p)\<lparr>tf_eax := v\<rparr>\<rparr>)"

definition reset_level :: "nat \<Rightarrow> kernel \<Rightarrow> kernel" where
  "reset_level c = upd_proc c (\<lambda>p. p\<lparr>p_level := 0, p_ticks := 0\<rparr>)"

definition syscall ::
  "bool \<Rightarrow> (i32 \<Rightarrow> kernel \<Rightarrow> (i32 outcome \<times> kernel) kres) \<Rightarrow> kernel \<Rightarrow> (unit outcome \<times> kernel) kres" where
  "syscall mlfq other s = with_curproc s (\<lambda>c.
     let num = tf_eax (p_tf (proc_at s c));
         s1 = (if mlfq \<and> (num = 23 \<or> num = 13) then reset_level c s else s)
     in if 0 < sint num \<and> sint num < 30 then
          call (syscall_table other num s1) (\<lambda>(r, s2).
            Inr (case r of Returns v \<Rightarrow> (Returns (), set_eax c v s2)
                 | Blocked \<Rightarrow> (Blocked, s2) | Exited \<Rightarrow> (Exited, s2)))
        else Inr (Returns (), set_eax c (-1) s1))"

section \<open>The timer\<close>

definition clock :: "kernel \<Rightarrow> kernel" where
  "clock s = wakeup Chan_ticks (s\<lparr>ticks := ticks s + 1\<rparr>)"

text \<open>The accounting of one timer interrupt for the running process.\<close>

definition mlfq_tick :: "int \<Rightarrow> i32 \<Rightarrow> proc \<Rightarrow> proc" where
  "mlfq_tick k now p =
     (let p1 = p\<lparr>p_ticks := p_ticks p + 1\<rparr>;
          p2 = (if now mod 100 = 0 \<and> 0 < p_pid p1
                then p1\<lparr>p_level := 0, p_ticks := 0, p_last_out := False\<rparr> else p1)
      in if \<not> p_last_out p2 \<and> word_of_int (4 * p_level p2 + 2) \<le> p_ticks p2 then
           if p_level p2 < k - 1 then p2\<lparr>p_level := p_level p2 + 1, p_ticks := 0\<rparr>
           else p2\<lparr>p_last_out := True\<rparr>
         else p2)"

section \<open>Traps\<close>

definition T_SYSCALL :: i32 where "T_SYSCALL = 64"
definition T_IRQ0 :: i32 where "T_IRQ0 = 32"

definition killed_exit :: "kernel \<Rightarrow> (kernel \<Rightarrow> (unit outcome \<times> kernel) kres) \<Rightarrow> (unit outcome \<times> kernel) kres" where
  "killed_exit s f = with_curproc s (\<lambda>c. if p_killed (proc_at s c) then exit s else f s)"

text \<open>The last two lines of \<open>trap\<close>, which also run when a process that yielded runs again.\<close>

definition trap_end :: "trapframe \<Rightarrow> kernel \<Rightarrow> (unit outcome \<times> kernel) kres" where
  "trap_end tf s =
     (case myproc s of
        Some c \<Rightarrow> if p_killed (proc_at s c) \<and> tf_cs tf AND 3 = 3 then exit s else Inr (Returns (), s)
      | None \<Rightarrow> Inr (Returns (), s))"

text \<open>After the interrupt itself: exit if killed, yield on a clock tick (\<open>Blocked\<close>).\<close>

definition trap_tail ::
  "bool \<Rightarrow> int \<Rightarrow> trapframe \<Rightarrow> kernel \<Rightarrow> (unit outcome \<times> kernel) kres" where
  "trap_tail mlfq k tf s =
     (case myproc s of
        None \<Rightarrow> trap_end tf s
      | Some c \<Rightarrow>
          if p_killed (proc_at s c) \<and> tf_cs tf AND 3 = 3 then exit s
          else if p_state (proc_at s c) = RUNNING \<and> tf_trapno tf = T_IRQ0 then
            call (yield (if mlfq then upd_proc c (mlfq_tick k (ticks s)) s else s)) (\<lambda>s1. Inr (Blocked, s1))
          else trap_end tf s)"

definition trap ::
  "bool \<Rightarrow> int \<Rightarrow> (i32 \<Rightarrow> kernel \<Rightarrow> (i32 outcome \<times> kernel) kres) \<Rightarrow> (i32 \<Rightarrow> kernel \<Rightarrow> kernel kres) \<Rightarrow>
     trapframe \<Rightarrow> kernel \<Rightarrow> (unit outcome \<times> kernel) kres" where
  "trap mlfq k other device tf s =
     (let n = tf_trapno tf in
      if n = T_SYSCALL \<or> n = 128 then
        killed_exit s (\<lambda>s1. with_curproc s1 (\<lambda>c.
        call (syscall mlfq other (upd_proc c (\<lambda>p. p\<lparr>p_tf := tf\<rparr>) s1)) (\<lambda>(r, s2).
        case r of
          Returns _ \<Rightarrow> killed_exit s2 (\<lambda>s3. Inr (Returns (), s3))
        | _ \<Rightarrow> Inr (r, s2))))
      else if n = T_IRQ0 then trap_tail mlfq k tf (clock s)
      else if n = T_IRQ0 + 14 \<or> n = T_IRQ0 + 1 \<or> n = T_IRQ0 + 4 then
        call (device n s) (trap_tail mlfq k tf)
      else if n = T_IRQ0 + 15 \<or> n = T_IRQ0 + 7 \<or> n = T_IRQ0 + 31 then trap_tail mlfq k tf s
      else case myproc s of
          None \<Rightarrow> Inl (Panic ''trap'')
        | Some c \<Rightarrow>
            if tf_cs tf AND 3 = 0 then Inl (Panic ''trap'')
            else trap_tail mlfq k tf (upd_proc c (\<lambda>p. p\<lparr>p_killed := True\<rparr>) s))"

section \<open>Runs of the kernel\<close>





text \<open>The handlers of the devices and the calls of \<open>sysfile.c\<close> act on the process table by \<open>wakeup\<close> and
  \<open>sleep\<close>: a handler wakes the sleepers on some channels, and a call wakes, returns or sleeps.\<close>

definition device_wakes :: "chan list \<Rightarrow> i32 \<Rightarrow> kernel \<Rightarrow> kernel kres" where
  "device_wakes chs n s = Inr (fold wakeup chs s)"

datatype file_end = Gives i32 | Waits_on chan

definition file_call :: "chan list \<Rightarrow> file_end \<Rightarrow> i32 \<Rightarrow> kernel \<Rightarrow> (i32 outcome \<times> kernel) kres" where
  "file_call chs e n s =
     (let s1 = fold wakeup chs s
      in case e of Gives v \<Rightarrow> Inr (Returns v, s1) | Waits_on ch \<Rightarrow> call (sleep ch s1) (\<lambda>s2. Inr (Blocked, s2)))"








lemma mlfq_tick_state [simp]: "p_state (mlfq_tick k now p) = p_state p"
  by (simp add: mlfq_tick_def Let_def)







text \<open>One processor is either in the scheduler or in a process.  The scheduler, of any of the three
  kinds, turns to a runnable process by the first half of \<open>dispatch\<close>; \<open>sched\<close>, which panics for a
  running process, leads back to it, and it may then forget the process.  A process takes a trap or
  goes on behind a sleep; a device interrupts the scheduler or a process.\<close>

datatype cpu_mode = In_scheduler | In_process

inductive kstep :: "bool \<Rightarrow> int \<Rightarrow> cpu_mode \<times> kernel \<Rightarrow> cpu_mode \<times> kernel \<Rightarrow> bool" for mlfq :: bool and k :: int where
  switch: "\<lbrakk> runnable s i; switchuvm (Some i) (s\<lparr>cpu_proc := Some i\<rparr>) = Inr s1 \<rbrakk>
    \<Longrightarrow> kstep mlfq k (In_scheduler, s) (In_process, upd_proc i (\<lambda>p. p\<lparr>p_state := RUNNING\<rparr>) s1)"
| switch_back: "sched s = Inr s1 \<Longrightarrow> kstep mlfq k (In_process, s) (In_scheduler, switchkvm s1)"
| forget: "kstep mlfq k (In_scheduler, s) (In_scheduler, idle s)"
| trapped: "trap mlfq k (file_call chs e) (device_wakes devs) tf s = Inr (r, s') \<Longrightarrow> kstep mlfq k (m, s) (m, s')"
| goes_on: "cpu_proc s = Some c \<Longrightarrow> kstep mlfq k (In_process, s) (In_process, sleep_resume c s)"
| continues: "file_call chs e n s = Inr (r, s') \<Longrightarrow> kstep mlfq k (In_process, s) (In_process, s')"
| returns: "trap_end tf s = Inr (r, s') \<Longrightarrow> kstep mlfq k (In_process, s) (In_process, s')"
| elsewhere: "\<lbrakk> ptable s' = ptable s; cpu_proc s' = cpu_proc s \<rbrakk> \<Longrightarrow> kstep mlfq k (m, s) (m, s')"









section \<open>The quanta of the MLFQ scheduler\<close>

definition tick_ok :: "int \<Rightarrow> proc \<Rightarrow> bool" where
  "tick_ok k p \<longleftrightarrow> 0 \<le> p_level p \<and> p_level p < k \<and>
     (p_last_out p \<or> int (unat (p_ticks p)) < 4 * p_level p + 2)"

lemma quantum_word:
  assumes "0 \<le> l" "l < 2 ^ 28"
  shows "word_of_int (4 * l + 2) \<le> (t :: i32) \<longleftrightarrow> 4 * l + 2 \<le> int (unat t)"
proof -
  have "uint (word_of_int (4 * l + 2) :: i32) = 4 * l + 2"
    using assms by (subst uint_word_of_int) (simp add: mod_pos_pos_trivial)
  then show ?thesis by (simp add: word_le_def)
qed

text \<open>C36: The accounting of the MLFQ scheduler keeps every process in one of the \<open>k\<close> queues, and below the
  quantum \<open>4 * level + 2\<close> of its queue unless it is marked as having used up the last queue.\<close>

theorem mlfq_tick_keeps_bounds:
  assumes "tick_ok k p" "k < 2 ^ 28"
  shows "tick_ok k (mlfq_tick k now p)"
proof -
  define p2 where "p2 = (let p1 = p\<lparr>p_ticks := p_ticks p + 1\<rparr> in
    if now mod 100 = 0 \<and> 0 < p_pid p1 then p1\<lparr>p_level := 0, p_ticks := 0, p_last_out := False\<rparr> else p1)"
  have lev: "0 \<le> p_level p2" "p_level p2 < k" using assms(1) by (auto simp: p2_def tick_ok_def Let_def)
  have "mlfq_tick k now p = (if \<not> p_last_out p2 \<and> word_of_int (4 * p_level p2 + 2) \<le> p_ticks p2 then
           if p_level p2 < k - 1 then p2\<lparr>p_level := p_level p2 + 1, p_ticks := 0\<rparr>
           else p2\<lparr>p_last_out := True\<rparr>
         else p2)"
    unfolding mlfq_tick_def p2_def Let_def ..
  moreover have "word_of_int (4 * p_level p2 + 2) \<le> p_ticks p2 \<longleftrightarrow> 4 * p_level p2 + 2 \<le> int (unat (p_ticks p2))"
    using lev assms(2) by (intro quantum_word) auto
  ultimately show ?thesis using lev by (auto simp: tick_ok_def not_le)
qed

theorem mlfq_tick_keeps_bounds_witness:
  "tick_ok 3 (mlfq_tick 3 7 ((proc_ex 5 RUNNING 1 0)\<lparr>p_ticks := 5\<rparr>)) \<and>
   p_level (mlfq_tick 3 7 ((proc_ex 5 RUNNING 1 0)\<lparr>p_ticks := 5\<rparr>)) = 2"
proof -
  have "tick_ok 3 ((proc_ex 5 RUNNING 1 0)\<lparr>p_ticks := 5\<rparr>)" by (simp add: tick_ok_def)
  from mlfq_tick_keeps_bounds [OF this, of 7] show ?thesis by (simp add: mlfq_tick_def)
qed

end
