(* ===== verification/Bpt_Disk.thy ===== *)
theory Bpt_Disk
  imports Prelude
begin

text \<open>
  The storage layer of the on-disk B+ tree (\<open>bpt.h\<close> and lines 10 to 119 of \<open>bpt.c\<close>): the
  table file, its header and pages, and the free-page list.  A file is its header and the list
  of pages behind it.  \<open>sizeof(H_P)\<close> is 4096 and \<open>sizeof(page)\<close> is 4240, so that the page
  with number \<open>i\<close> starts at offset \<open>4096 + 4240 * i\<close>; an access that starts anywhere else
  overlaps two of them and stops the model as \<open>Torn_page\<close>.  Keys are compared and never
  computed with, so an \<open>int\<close> stands for \<open>int64_t\<close>; offsets and counters are \<open>nat\<close>.  The two
  arrays that share a union are two fields: a page is used as one of the two from its reset on.
\<close>

section \<open>Pages\<close>

definition LEAF_MAX :: nat where "LEAF_MAX = 3"
definition INTERNAL_MAX :: nat where "INTERNAL_MAX = 24"

record rcd =
  rkey :: int
  logical_del :: int
  rvalue :: string

record inter_record =
  ikey :: int
  p_offset :: nat

record page =
  parent_page_offset :: nat
  is_leaf :: bool
  num_of_keys :: nat
  next_offset :: nat
  b_f :: "nat \<Rightarrow> inter_record"
  records :: "nat \<Rightarrow> rcd"

record header_page =
  fpo :: nat
  rpo :: nat
  num_of_pages :: nat

definition zero_rcd :: rcd where
  "zero_rcd = \<lparr>rkey = 0, logical_del = 0, rvalue = []\<rparr>"

definition zero_inter :: inter_record where
  "zero_inter = \<lparr>ikey = 0, p_offset = 0\<rparr>"

definition blank_page :: page where
  "blank_page = \<lparr>parent_page_offset = 0, is_leaf = False, num_of_keys = 0, next_offset = 0,
     b_f = (\<lambda>_. zero_inter), records = (\<lambda>_. zero_rcd)\<rparr>"

text \<open>The table: the file, and the copies of its header and of its root that the program keeps.\<close>

record table =
  disk_hp :: header_page
  pages :: "page list"
  hp :: header_page
  rt :: "page option"

text \<open>What stops the program: a null page that is followed, an access across two pages, an index
  outside an array, a string that overruns its buffer, a loop that is never left.\<close>

datatype bpt_error = Null_page | Torn_page | Stray_index | Overrun | Diverges

section \<open>Reading and writing pages\<close>

definition page_off :: "nat \<Rightarrow> nat" where
  "page_off i = 4096 + 4240 * i"

definition page_no :: "nat \<Rightarrow> nat option" where
  "page_no off =
     (if 4096 \<le> off \<and> (off - 4096) mod 4240 = 0 then Some ((off - 4096) div 4240) else None)"

lemma page_no_off [simp]: "page_no (page_off i) = Some i"
  by (simp add: page_no_def page_off_def)

lemma page_no_Some: "page_no off = Some i \<longleftrightarrow> off = page_off i"
  by (auto simp: page_no_def page_off_def split: if_splits)

lemma page_off_inj [simp]: "page_off i = page_off j \<longleftrightarrow> i = j"
  by (simp add: page_off_def)

lemma page_off_pos [simp]: "page_off i \<noteq> 0" "0 < page_off i"
  by (simp_all add: page_off_def)

text \<open>\<open>None\<close> is the null pointer of a short read; the file that holds only a header is short at
  offset 0.\<close>

definition load_page :: "nat \<Rightarrow> table \<Rightarrow> bpt_error + page option" where
  "load_page off s =
     (case page_no off of
        Some i \<Rightarrow> Inr (if i < length (pages s) then Some (pages s ! i) else None)
      | None \<Rightarrow> if off = 0 \<and> pages s = [] then Inr None else Inl Torn_page)"

text \<open>\<open>load_page\<close> where the code follows the result without a test.\<close>

definition load :: "nat \<Rightarrow> table \<Rightarrow> bpt_error + page" where
  "load off s = call (load_page off s) (\<lambda>p. case p of None \<Rightarrow> Inl Null_page | Some p \<Rightarrow> Inr p)"

text \<open>\<open>pwrite(fd, p, sizeof(page), off)\<close>; past the end of the file the gap reads as zeros.\<close>

definition pwrite_page :: "nat \<Rightarrow> page \<Rightarrow> table \<Rightarrow> bpt_error + table" where
  "pwrite_page off p s =
     (case page_no off of
        None \<Rightarrow> Inl Torn_page
      | Some i \<Rightarrow> Inr (s\<lparr>pages :=
          (if i < length (pages s) then (pages s)[i := p]
           else pages s @ replicate (i - length (pages s)) blank_page @ [p])\<rparr>))"

text \<open>\<open>pwrite(fd, hp, sizeof(H_P), 0)\<close> writes the header, \<open>pwrite(fd, hp, sizeof(hp), 0)\<close> only the
  eight bytes of its first field; both are followed by \<open>free(hp); hp = load_header(0);\<close>.\<close>

definition load_header :: "table \<Rightarrow> header_page" where
  "load_header s = disk_hp s"

definition pwrite_hp :: "table \<Rightarrow> table" where
  "pwrite_hp s = (let s1 = s\<lparr>disk_hp := hp s\<rparr> in s1\<lparr>hp := load_header s1\<rparr>)"

definition pwrite_fpo :: "table \<Rightarrow> table" where
  "pwrite_fpo s =
     (let s1 = s\<lparr>disk_hp := (disk_hp s)\<lparr>fpo := fpo (hp s)\<rparr>\<rparr> in s1\<lparr>hp := load_header s1\<rparr>)"

section \<open>Opening a table\<close>

text \<open>What is found under the path: nothing, a file shorter than a header, or a table.\<close>

datatype table_file = No_file | Short_file | Table_file header_page "page list"

definition open_table :: "table_file \<Rightarrow> bpt_error + int \<times> table" where
  "open_table f =
     (let zero = \<lparr>fpo = 0, rpo = 0, num_of_pages = 0\<rparr> in
      case f of
        No_file \<Rightarrow>
          let h = zero\<lparr>fpo := 0, num_of_pages := 1, rpo := 0\<rparr>
          in Inr (0, pwrite_hp \<lparr>disk_hp = zero, pages = [], hp = h, rt = None\<rparr>)
      | Short_file \<Rightarrow> Inr (- 1, \<lparr>disk_hp = zero, pages = [], hp = zero, rt = None\<rparr>)
      | Table_file h ps \<Rightarrow>
          let s = \<lparr>disk_hp = h, pages = ps, hp = h, rt = None\<rparr>
          in call (load_page (rpo (hp s)) s) (\<lambda>r. Inr (0, s\<lparr>rt := r\<rparr>)))"

section \<open>Free pages\<close>

definition reset :: "nat \<Rightarrow> table \<Rightarrow> bpt_error + table" where
  "reset off s =
     pwrite_page off (blank_page\<lparr>parent_page_offset := 0, is_leaf := False, num_of_keys := 0,
       next_offset := 0\<rparr>) s"

definition freetouse :: "nat \<Rightarrow> table \<Rightarrow> bpt_error + table" where
  "freetouse off s =
     call (load off s) (\<lambda>p.
       pwrite_page off (p\<lparr>parent_page_offset := 0, is_leaf := False, num_of_keys := 0,
         next_offset := 0\<rparr>) s)"

definition usetofree :: "nat \<Rightarrow> table \<Rightarrow> bpt_error + table" where
  "usetofree wbf s =
     call (load wbf s) (\<lambda>utf.
     call (pwrite_page wbf (utf\<lparr>parent_page_offset := fpo (hp s), is_leaf := False,
             num_of_keys := 0, next_offset := 0\<rparr>) s) (\<lambda>s.
     Inr (pwrite_fpo (s\<lparr>hp := (hp s)\<lparr>fpo := wbf\<rparr>\<rparr>))))"

definition new_page :: "table \<Rightarrow> bpt_error + nat \<times> table" where
  "new_page s =
     (if fpo (hp s) \<noteq> 0 then
        let newp = fpo (hp s) in
        call (load newp s) (\<lambda>np.
        let s = pwrite_fpo (s\<lparr>hp := (hp s)\<lparr>fpo := parent_page_offset np\<rparr>\<rparr>) in
        call (freetouse newp s) (\<lambda>s. Inr (newp, s)))
      else
        let newp = page_off (length (pages s)) in
        call (reset newp s) (\<lambda>s.
        Inr (newp, pwrite_hp (s\<lparr>hp := (hp s)\<lparr>num_of_pages := num_of_pages (hp s) + 1\<rparr>\<rparr>))))"

end
