(* ===== verification/Bpt.thy ===== *)
theory Bpt
  imports Bpt_Disk
begin

text \<open>
  The operations of the B+ tree (\<open>bpt.c\<close> from line 121): search, insertion with splits that
  climb to the root, and deletion, which marks a record of a leaf that would become too small
  instead of removing it.  A search that visits more pages than the file has repeats one and
  never ends, so the fuel of a search is one more than the number of pages; a split or a merge
  climbs one level per call, and gets the same fuel.
\<close>

section \<open>Search\<close>

definition search_fuel :: "table \<Rightarrow> nat" where
  "search_fuel s = Suc (length (pages s))"

text \<open>The child of an internal page on the way to \<open>key\<close>.\<close>

definition child_for :: "int \<Rightarrow> page \<Rightarrow> nat" where
  "child_for key p =
     (let i = scan (\<lambda>i. key \<ge> ikey (b_f p i)) (num_of_keys p) 0
      in if i = 0 then next_offset p else p_offset (b_f p (i - 1)))"

fun descend :: "nat \<Rightarrow> int \<Rightarrow> nat \<Rightarrow> table \<Rightarrow> bpt_error + nat" where
  "descend 0 key loc s = Inl Diverges"
| "descend (Suc n) key loc s =
     call (load loc s) (\<lambda>p. if is_leaf p then Inr loc else descend n key (child_for key p) s)"

definition find_leaf :: "int \<Rightarrow> table \<Rightarrow> bpt_error + nat" where
  "find_leaf key s =
     (case rt s of None \<Rightarrow> Inr 0 | Some _ \<Rightarrow> descend (search_fuel s) key (rpo (hp s)) s)"

definition db_find :: "int \<Rightarrow> table \<Rightarrow> bpt_error + string option" where
  "db_find key s =
     call (find_leaf key s) (\<lambda>fin.
     call (load fin s) (\<lambda>p.
       let i = scan (\<lambda>i. rkey (records p i) \<noteq> key) (num_of_keys p) 0
       in if logical_del (records p i) = 1 then Inr None
          else if i = num_of_keys p then Inr None
          else Inr (Some (rvalue (records p i)))))"

section \<open>Insertion\<close>

definition cut :: "nat \<Rightarrow> nat" where
  "cut n = (if n mod 2 = 0 then n div 2 else n div 2 + 1)"

definition start_new_file :: "rcd \<Rightarrow> table \<Rightarrow> bpt_error + table" where
  "start_new_file r s =
     call (new_page s) (\<lambda>(ro, s).
     call (load ro s) (\<lambda>root.
     let s = pwrite_hp (s\<lparr>hp := (hp s)\<lparr>rpo := ro\<rparr>\<rparr>);
         root = root\<lparr>num_of_keys := 1, is_leaf := True, records := (records root)(0 := r)\<rparr>
     in call (pwrite_page (rpo (hp s)) root s) (\<lambda>s.
        call (load_page (rpo (hp s)) s) (\<lambda>r. Inr (s\<lparr>rt := r\<rparr>)))))"

definition insert_into_leaf :: "nat \<Rightarrow> rcd \<Rightarrow> table \<Rightarrow> bpt_error + table" where
  "insert_into_leaf leaf inst s =
     call (load leaf s) (\<lambda>p.
       let ip = scan (\<lambda>i. rkey (records p i) < rkey inst) (num_of_keys p) 0;
           rs = (shift_up ip (num_of_keys p) (records p))(ip := inst)
       in pwrite_page leaf (p\<lparr>records := rs, num_of_keys := num_of_keys p + 1\<rparr>) s)"

definition get_left_index :: "nat \<Rightarrow> table \<Rightarrow> bpt_error + int" where
  "get_left_index left s =
     call (load left s) (\<lambda>child.
     call (load (parent_page_offset child) s) (\<lambda>parent.
       if left = next_offset parent then Inr (- 1)
       else let i = scan (\<lambda>i. p_offset (b_f parent i) \<noteq> left) (num_of_keys parent) 0
            in if i = num_of_keys parent then Inr (- 10) else Inr (int i)))"

definition insert_into_new_root :: "nat \<Rightarrow> int \<Rightarrow> nat \<Rightarrow> table \<Rightarrow> bpt_error + table" where
  "insert_into_new_root old key newp s =
     call (new_page s) (\<lambda>(new_root, s).
     call (load new_root s) (\<lambda>nr.
     let nr = nr\<lparr>b_f := (b_f nr)(0 := \<lparr>ikey = key, p_offset = newp\<rparr>), next_offset := old,
                num_of_keys := num_of_keys nr + 1\<rparr>
     in call (load old s) (\<lambda>left.
     call (load newp s) (\<lambda>right.
     call (pwrite_page new_root nr s) (\<lambda>s.
     call (pwrite_page old (left\<lparr>parent_page_offset := new_root\<rparr>) s) (\<lambda>s.
     call (pwrite_page newp (right\<lparr>parent_page_offset := new_root\<rparr>) s) (\<lambda>s.
     call (load_page new_root s) (\<lambda>nr.
     Inr (pwrite_hp (s\<lparr>rt := nr, hp := (hp s)\<lparr>rpo := new_root\<rparr>\<rparr>))))))))))"

text \<open>A \<open>left_index\<close> of -10 writes in front of the array.\<close>

definition insert_into_internal :: "nat \<Rightarrow> int \<Rightarrow> int \<Rightarrow> nat \<Rightarrow> table \<Rightarrow> bpt_error + table" where
  "insert_into_internal bumo left_index key newp s =
     call (load bumo s) (\<lambda>parent.
     if left_index + 1 < 0 then Inl Stray_index
     else
       let k = nat (left_index + 1);
           bf = (shift_up k (num_of_keys parent) (b_f parent))(k := \<lparr>ikey = key, p_offset = newp\<rparr>);
           parent = parent\<lparr>b_f := bf, num_of_keys := num_of_keys parent + 1\<rparr>
       in call (pwrite_page bumo parent s) (\<lambda>s.
          if bumo = rpo (hp s) then call (load_page bumo s) (\<lambda>r. Inr (s\<lparr>rt := r\<rparr>))
          else Inr s))"

text \<open>\<open>child->parent_page_offset = par\<close>, in the file.\<close>

definition set_parent :: "nat \<Rightarrow> nat \<Rightarrow> table \<Rightarrow> bpt_error + table" where
  "set_parent par child s =
     call (load child s) (\<lambda>ch. pwrite_page child (ch\<lparr>parent_page_offset := par\<rparr>) s)"

text \<open>\<open>insert_into_internal_as\<close> up to its last call: the separator that moves up and the page to
  its right.\<close>

definition split_internal ::
    "nat \<Rightarrow> int \<Rightarrow> int \<Rightarrow> nat \<Rightarrow> table \<Rightarrow> bpt_error + (int \<times> nat) \<times> table" where
  "split_internal bumo left_index key newp s =
     call (load bumo s) (\<lambda>old_parent.
     if left_index + 1 < 0 then Inl Stray_index
     else
       let k = nat (left_index + 1);
           temp = (spread_slots k (num_of_keys old_parent) (b_f old_parent) (\<lambda>_. zero_inter))
                    (k := \<lparr>ikey = key, p_offset = newp\<rparr>);
           split = cut INTERNAL_MAX
       in call (new_page s) (\<lambda>(new_p, s).
          call (load new_p s) (\<lambda>new_parent.
          let old_parent = old_parent\<lparr>num_of_keys := split,
                b_f := copy_slots 0 split 0 temp (b_f old_parent)\<rparr>;
              k_prime = ikey (temp split);
              new_parent = new_parent\<lparr>next_offset := p_offset (temp split),
                num_of_keys := num_of_keys new_parent + (INTERNAL_MAX - split),
                b_f := copy_slots (split + 1) (INTERNAL_MAX + 1) (split + 1) temp (b_f new_parent),
                parent_page_offset := parent_page_offset old_parent\<rparr>
          in call (set_parent new_p (next_offset new_parent) s) (\<lambda>s.
             call (each (\<lambda>i. set_parent new_p (p_offset (b_f new_parent i)))
                    [0..<num_of_keys new_parent] s) (\<lambda>s.
             call (pwrite_page bumo old_parent s) (\<lambda>s.
             call (pwrite_page new_p new_parent s) (\<lambda>s.
             Inr ((k_prime, new_p), s))))))))"

fun insert_into_parent :: "nat \<Rightarrow> nat \<Rightarrow> int \<Rightarrow> nat \<Rightarrow> table \<Rightarrow> bpt_error + table"
and insert_into_internal_as :: "nat \<Rightarrow> nat \<Rightarrow> int \<Rightarrow> int \<Rightarrow> nat \<Rightarrow> table \<Rightarrow> bpt_error + table" where
  "insert_into_parent 0 old key newp s = Inl Diverges"
| "insert_into_parent (Suc n) old key newp s =
     call (load old s) (\<lambda>left.
     let bumo = parent_page_offset left
     in if bumo = 0 then insert_into_new_root old key newp s
        else call (get_left_index old s) (\<lambda>left_index.
          call (load bumo s) (\<lambda>parent.
          if num_of_keys parent < INTERNAL_MAX
          then insert_into_internal bumo left_index key newp s
          else insert_into_internal_as n bumo left_index key newp s)))"
| "insert_into_internal_as n bumo left_index key newp s =
     call (split_internal bumo left_index key newp s) (\<lambda>((k_prime, new_p), s).
       insert_into_parent n bumo k_prime new_p s)"

text \<open>\<open>insert_into_leaf_as\<close> up to its last call.\<close>

definition split_leaf :: "nat \<Rightarrow> rcd \<Rightarrow> table \<Rightarrow> bpt_error + (int \<times> nat) \<times> table" where
  "split_leaf leaf inst s =
     call (new_page s) (\<lambda>(new_leaf, s).
     call (load new_leaf s) (\<lambda>nl.
     call (load leaf s) (\<lambda>ol.
     let ii = scan (\<lambda>i. rkey (records ol i) < rkey inst) LEAF_MAX 0;
         temp = (spread_slots ii (num_of_keys ol) (records ol) (\<lambda>_. zero_rcd))(ii := inst);
         split = cut LEAF_MAX;
         zero_key = (\<lambda>i rs. rs(i := (rs i)\<lparr>rkey := 0\<rparr>));
         ol = ol\<lparr>records := copy_slots 0 split 0 temp (records ol), num_of_keys := split\<rparr>;
         nl = nl\<lparr>is_leaf := True,
                records := copy_slots split (LEAF_MAX + 1) split temp (records nl),
                num_of_keys := num_of_keys nl + (LEAF_MAX + 1 - split)\<rparr>;
         nl = nl\<lparr>next_offset := next_offset ol\<rparr>;
         ol = ol\<lparr>next_offset := new_leaf\<rparr>;
         ol = ol\<lparr>records := fold zero_key [num_of_keys ol..<LEAF_MAX] (records ol)\<rparr>;
         nl = nl\<lparr>records := fold zero_key [num_of_keys nl..<LEAF_MAX] (records nl)\<rparr>;
         nl = nl\<lparr>parent_page_offset := parent_page_offset ol\<rparr>;
         new_key = rkey (records nl 0)
     in call (pwrite_page new_leaf nl s) (\<lambda>s.
        call (pwrite_page leaf ol s) (\<lambda>s.
        Inr ((new_key, new_leaf), s))))))"

definition insert_into_leaf_as :: "nat \<Rightarrow> rcd \<Rightarrow> table \<Rightarrow> bpt_error + table" where
  "insert_into_leaf_as leaf inst s =
     call (split_leaf leaf inst s) (\<lambda>((new_key, new_leaf), s).
       insert_into_parent (search_fuel s) leaf new_key new_leaf s)"

section \<open>Deletion\<close>

definition remove_entry_from_page :: "int \<Rightarrow> nat \<Rightarrow> table \<Rightarrow> bpt_error + table" where
  "remove_entry_from_page key deloff s =
     call (load deloff s) (\<lambda>lp.
     let refresh = (\<lambda>s. if deloff = rpo (hp s)
                        then call (load_page deloff s) (\<lambda>r. Inr (s\<lparr>rt := r\<rparr>)) else Inr s)
     in if is_leaf lp then
          let i = scan (\<lambda>i. rkey (records lp i) \<noteq> key) 31 0 in
          if i = 31 then Inl Stray_index
          else if int (num_of_keys lp) - 1 < int (cut LEAF_MAX)
          then pwrite_page deloff
                 (lp\<lparr>records := (records lp)(i := (records lp i)\<lparr>logical_del := 1\<rparr>)\<rparr>) s
          else call (pwrite_page deloff
                 (lp\<lparr>records := shift_down i (num_of_keys lp) (records lp),
                     num_of_keys := num_of_keys lp - 1\<rparr>) s) refresh
        else
          let i = scan (\<lambda>i. ikey (b_f lp i) \<noteq> key) 248 0 in
          if i = 248 then Inl Stray_index
          else call (pwrite_page deloff
                 (lp\<lparr>b_f := shift_down i (num_of_keys lp) (b_f lp),
                     num_of_keys := num_of_keys lp - 1\<rparr>) s) refresh)"

definition adjust_root :: "nat \<Rightarrow> table \<Rightarrow> bpt_error + table" where
  "adjust_root deloff s =
     (case rt s of
        None \<Rightarrow> Inl Null_page
      | Some root \<Rightarrow>
          if num_of_keys root > 0 then Inr s
          else if \<not> is_leaf root then
            let nr = next_offset root in
            call (load nr s) (\<lambda>nroot.
            call (usetofree (rpo (hp s)) s) (\<lambda>s.
            let s = pwrite_hp (s\<lparr>hp := (hp s)\<lparr>rpo := nr\<rparr>\<rparr>)
            in call (pwrite_page nr (nroot\<lparr>parent_page_offset := 0\<rparr>) s) (\<lambda>s.
               call (load_page nr s) (\<lambda>r. Inr (s\<lparr>rt := r\<rparr>)))))
          else
            call (usetofree (rpo (hp s)) (s\<lparr>rt := None\<rparr>)) (\<lambda>s.
            Inr (pwrite_fpo (s\<lparr>hp := (hp s)\<lparr>rpo := 0\<rparr>\<rparr>))))"

definition redistribute_pages ::
    "nat \<Rightarrow> int \<Rightarrow> nat \<Rightarrow> nat \<Rightarrow> int \<Rightarrow> nat \<Rightarrow> table \<Rightarrow> bpt_error + table" where
  "redistribute_pages need_more nbor_index nbor_off par_off k_prime k_prime_index s =
     call (load need_more s) (\<lambda>need.
     call (load nbor_off s) (\<lambda>nbor.
     call (load par_off s) (\<lambda>parent.
     let n = num_of_keys need; m = num_of_keys nbor;
         new_key = (\<lambda>k. parent\<lparr>b_f := (b_f parent)
            (k_prime_index := (b_f parent k_prime_index)\<lparr>ikey := k\<rparr>)\<rparr>);
         finish = (\<lambda>need nbor parent s.
           call (pwrite_page par_off parent s) (\<lambda>s.
           call (pwrite_page nbor_off (nbor\<lparr>num_of_keys := m - 1\<rparr>) s) (\<lambda>s.
           pwrite_page need_more (need\<lparr>num_of_keys := n + 1\<rparr>) s)))
     in if nbor_index \<noteq> -2 then
          if \<not> is_leaf need then
            let bf = (shift_up 0 n (b_f need))
                       (0 := \<lparr>ikey = k_prime, p_offset = next_offset need\<rparr>);
                child = p_offset (b_f nbor (m - 1))
            in call (set_parent need_more child s)
                 (finish (need\<lparr>b_f := bf, next_offset := child\<rparr>) nbor
                    (new_key (ikey (b_f nbor (m - 1)))))
          else
            let rs = (shift_up 0 n (records need))(0 := records nbor (m - 1));
                nrs = (records nbor)(m - 1 := (records nbor (m - 1))\<lparr>rkey := 0\<rparr>)
            in finish (need\<lparr>records := rs\<rparr>) (nbor\<lparr>records := nrs\<rparr>)
                 (new_key (rkey (rs 0))) s
        else
          if is_leaf need then
            let rs = (records need)(n := records nbor 0);
                nrs = shift_down 0 m (records nbor)
            in finish (need\<lparr>records := rs\<rparr>) (nbor\<lparr>records := nrs\<rparr>)
                 (new_key (rkey (nrs 0))) s
          else
            let child = next_offset nbor;
                bf = (b_f need)(n := \<lparr>ikey = k_prime, p_offset = child\<rparr>)
            in call (set_parent need_more child s)
                 (finish (need\<lparr>b_f := bf\<rparr>)
                    (nbor\<lparr>next_offset := p_offset (b_f nbor 0), b_f := shift_down 0 m (b_f nbor)\<rparr>)
                    (new_key (ikey (b_f nbor 0)))))))"

text \<open>\<open>coalesce_pages\<close> up to its call of \<open>delete_entry\<close>: the page that is to be freed.\<close>

definition merge_pages ::
    "nat \<Rightarrow> int \<Rightarrow> nat \<Rightarrow> nat \<Rightarrow> int \<Rightarrow> table \<Rightarrow> bpt_error + nat \<times> table" where
  "merge_pages will_be_coal nbor_index nbor_off par_off k_prime s =
     (let (newp, wbf) =
        (if nbor_index = -2 then (will_be_coal, nbor_off) else (nbor_off, will_be_coal)) in
      call (load wbf s) (\<lambda>wbc.
      call (load newp s) (\<lambda>nbor.
      call (load par_off s) (\<lambda>parent.
      let point = num_of_keys nbor; le = num_of_keys wbc
      in if \<not> is_leaf wbc then
           let bf = (b_f nbor)(point := \<lparr>ikey = k_prime, p_offset = next_offset wbc\<rparr>);
               nbor = nbor\<lparr>b_f := append_slots (point + 1) le (b_f wbc) bf,
                       num_of_keys := point + 1 + le\<rparr>
           in call (each (\<lambda>i. set_parent newp (p_offset (b_f nbor i)))
                     [point..<num_of_keys nbor] s) (\<lambda>s.
              call (pwrite_page newp nbor s) (\<lambda>s. Inr (wbf, s)))
         else
           let nbor = nbor\<lparr>records := append_slots point le (records wbc) (records nbor),
                       num_of_keys := point + le, next_offset := next_offset wbc\<rparr>
           in call (pwrite_page newp nbor s) (\<lambda>s. Inr (wbf, s))))))"

fun delete_entry :: "nat \<Rightarrow> int \<Rightarrow> nat \<Rightarrow> table \<Rightarrow> bpt_error + table"
and coalesce_pages :: "nat \<Rightarrow> nat \<Rightarrow> int \<Rightarrow> nat \<Rightarrow> nat \<Rightarrow> int \<Rightarrow> table \<Rightarrow> bpt_error + table" where
  "delete_entry 0 key deloff s = Inl Diverges"
| "delete_entry (Suc fuel) key deloff s =
     call (remove_entry_from_page key deloff s) (\<lambda>s.
     if deloff = rpo (hp s) then adjust_root deloff s
     else
       call (load deloff s) (\<lambda>not_enough.
       let check = (if is_leaf not_enough then cut LEAF_MAX else cut INTERNAL_MAX) in
       if num_of_keys not_enough \<ge> check then Inr s
       else
         let parent_offset = parent_page_offset not_enough in
         call (load parent_offset s) (\<lambda>parent.
         let (neighbor_index, neighbor_offset, k_prime, k_prime_index) =
               (if next_offset parent = deloff
                then (-2, p_offset (b_f parent 0), ikey (b_f parent 0), 0)
                else if p_offset (b_f parent 0) = deloff
                then (-1, next_offset parent, ikey (b_f parent 0), 0)
                else
                  let i = scan (\<lambda>i. p_offset (b_f parent i) \<noteq> deloff) (num_of_keys parent + 1) 0
                  in (int i - 1, p_offset (b_f parent (i - 1)), ikey (b_f parent i), i))
         in call (load neighbor_offset s) (\<lambda>neighbor.
            let max = (if is_leaf not_enough then LEAF_MAX else INTERNAL_MAX - 1);
                why = num_of_keys neighbor + num_of_keys not_enough
            in if why \<le> max
               then coalesce_pages fuel deloff neighbor_index neighbor_offset parent_offset k_prime s
               else redistribute_pages deloff neighbor_index neighbor_offset parent_offset
                      k_prime k_prime_index s))))"
| "coalesce_pages fuel will_be_coal nbor_index nbor_off par_off k_prime s =
     call (merge_pages will_be_coal nbor_index nbor_off par_off k_prime s) (\<lambda>(wbf, s).
     call (delete_entry fuel k_prime par_off s) (usetofree wbf))"

definition db_delete :: "int \<Rightarrow> table \<Rightarrow> bpt_error + int \<times> table" where
  "db_delete key s =
     (case rt s of
        None \<Rightarrow> Inl Null_page
      | Some root \<Rightarrow>
          if num_of_keys root = 0 then Inr (- 1, s)
          else call (db_find key s) (\<lambda>check.
            case check of
              None \<Rightarrow> Inr (- 1, s)
            | Some _ \<Rightarrow> call (find_leaf key s) (\<lambda>deloff.
                call (delete_entry (search_fuel s) key deloff s) (\<lambda>s. Inr (0, s)))))"

text \<open>\<open>db_insert\<close> copies the value into the 120 bytes of the record without a bound.  The records
  that are marked deleted are read from the copy \<open>leafp\<close>, which also decides about the split.\<close>

definition purge :: "nat \<Rightarrow> page \<Rightarrow> table \<Rightarrow> bpt_error + table" where
  "purge leaf leafp s =
     (if num_of_keys leafp \<ge> LEAF_MAX
      then each (\<lambda>i s. if logical_del (records leafp i) = 1
                       then delete_entry (search_fuel s) (rkey (records leafp i)) leaf s else Inr s)
             [0..<num_of_keys leafp] s
      else Inr s)"

definition db_insert :: "int \<Rightarrow> string \<Rightarrow> table \<Rightarrow> bpt_error + int \<times> table" where
  "db_insert key val s =
     (if length val \<ge> 120 then Inl Overrun
      else
        let nr = \<lparr>rkey = key, logical_del = 0, rvalue = val\<rparr> in
        case rt s of
          None \<Rightarrow> call (start_new_file nr s) (\<lambda>s. Inr (0, s))
        | Some _ \<Rightarrow>
            call (db_find key s) (\<lambda>dupcheck.
            if dupcheck \<noteq> None then Inr (- 1, s)
            else
              call (find_leaf key s) (\<lambda>leaf.
              call (load leaf s) (\<lambda>leafp.
              call (purge leaf leafp s) (\<lambda>s.
              if num_of_keys leafp < LEAF_MAX
              then call (insert_into_leaf leaf nr s) (\<lambda>s. Inr (0, s))
              else call (insert_into_leaf_as leaf nr s) (\<lambda>s. Inr (0, s)))))))"

end
