(* ===== verification/Bpt_Tree.thy ===== *)
theory Bpt_Tree
  imports Bpt "HOL-Library.Multiset"
begin


section \<open>What a page says\<close>

datatype view = Leaf_view nat "rcd list" | Node_view nat "nat list" "int list"

definition view_of :: "page \<Rightarrow> view" where
  "view_of p =
     (if is_leaf p then Leaf_view (parent_page_offset p) (map (records p) [0..<num_of_keys p])
      else Node_view (parent_page_offset p)
             (next_offset p # map (\<lambda>i. p_offset (b_f p i)) [0..<num_of_keys p])
             (map (\<lambda>i. ikey (b_f p i)) [0..<num_of_keys p]))"

definition view_at :: "table \<Rightarrow> nat \<Rightarrow> view option" where
  "view_at s a =
     (case page_no a of None \<Rightarrow> None
      | Some i \<Rightarrow> if i < length (pages s) then Some (view_of (pages s ! i)) else None)"

fun reparent_view :: "nat \<Rightarrow> view \<Rightarrow> view" where
  "reparent_view par (Leaf_view _ rs) = Leaf_view par rs"
| "reparent_view par (Node_view _ cs ks) = Node_view par cs ks"

text \<open>What a write of pages leaves alone.\<close>

definition same_rest :: "table \<Rightarrow> table \<Rightarrow> bool" where
  "same_rest s s' \<longleftrightarrow> hp s' = hp s \<and> disk_hp s' = disk_hp s \<and> rt s' = rt s \<and>
     length (pages s') = length (pages s)"

lemma same_rest_refl [simp]: "same_rest s s"
  by (simp add: same_rest_def)

lemma same_rest_trans: "same_rest s s' \<Longrightarrow> same_rest s' s'' \<Longrightarrow> same_rest s s''"
  by (simp add: same_rest_def)

lemma load_iff: "load a s = Inr p \<longleftrightarrow> (\<exists>i < length (pages s). a = page_off i \<and> p = pages s ! i)"
  by (auto simp: load_def load_page_def call_eq_Inr page_no_Some split: option.splits if_splits)

lemma view_loadE:
  assumes "view_at s a = Some v"
  obtains p where "load a s = Inr p" "load_page a s = Inr (Some p)" "view_of p = v"
  using assms
  by (force simp: load_def load_page_def view_at_def split: option.splits if_splits)

lemma view_pos: "view_at s a = Some v \<Longrightarrow> a \<noteq> 0"
  by (auto simp: view_at_def page_no_Some split: option.splits)

lemma view_fresh: "view_at s (page_off (length (pages s))) = None"
  by (simp add: view_at_def)

lemma pwrite_viewE:
  assumes "view_at s a \<noteq> None"
  obtains s' where "pwrite_page a p s = Inr s'" "view_at s' = (view_at s)(a \<mapsto> view_of p)"
    "same_rest s s'"
proof -
  from assms obtain i where i: "a = page_off i" "i < length (pages s)"
    by (auto simp: view_at_def page_no_Some split: option.splits if_splits)
  let ?s = "s\<lparr>pages := (pages s)[i := p]\<rparr>"
  have "pwrite_page a p s = Inr ?s" using i by (simp add: pwrite_page_def)
  moreover have "view_at ?s = (view_at s)(a \<mapsto> view_of p)"
    using i by (auto simp: view_at_def page_no_Some fun_eq_iff nth_list_update split: option.splits)
  ultimately show ?thesis using that [of ?s] by (simp add: same_rest_def)
qed

lemma new_page_viewE:
  assumes "fpo (hp s) = 0"
  obtains b s' where "new_page s = Inr (b, s')" "b = page_off (length (pages s))"
    "view_at s' = (view_at s)(b \<mapsto> Node_view 0 [0] [])" "load b s' = Inr blank_page"
    "fpo (hp s') = 0" "rpo (hp s') = rpo (hp s)" "disk_hp s' = hp s'" "rt s' = rt s"
    "pages s' = pages s @ [blank_page]"
proof -
  let ?b = "page_off (length (pages s))"
  let ?h = "(hp s)\<lparr>num_of_pages := num_of_pages (hp s) + 1\<rparr>"
  let ?s = "s\<lparr>pages := pages s @ [blank_page], hp := ?h, disk_hp := ?h\<rparr>"
  have z: "blank_page\<lparr>parent_page_offset := 0, is_leaf := False, num_of_keys := 0, next_offset := 0\<rparr>
     = blank_page" by (simp add: blank_page_def)
  have "new_page s = Inr (?b, ?s)"
    using assms z by (simp add: new_page_def Let_def reset_def pwrite_page_def pwrite_hp_def load_header_def)
  moreover have "view_at ?s = (view_at s)(?b \<mapsto> Node_view 0 [0] [])"
    by (auto simp: view_at_def page_no_Some fun_eq_iff nth_append view_of_def blank_page_def
        split: option.splits)
  moreover have "load ?b ?s = Inr blank_page"
    by (auto simp: load_iff)
  ultimately show ?thesis
    using assms that [of ?b ?s] by auto
qed

lemma set_parent_viewE:
  assumes "view_at s c = Some v"
  obtains s' where "set_parent par c s = Inr s'" "view_at s' = (view_at s)(c \<mapsto> reparent_view par v)"
    "same_rest s s'"
proof -
  from assms obtain p where p: "load c s = Inr p" "view_of p = v" by (elim view_loadE) auto
  have "view_of (p\<lparr>parent_page_offset := par\<rparr>) = reparent_view par v"
    using p(2) by (auto simp: view_of_def)
  then show ?thesis
    using p(1) assms pwrite_viewE [of s c "p\<lparr>parent_page_offset := par\<rparr>"] that
    by (auto simp: set_parent_def)
qed

lemma each_set_parent_viewE:
  assumes "distinct cs" "\<And>c. c \<in> set cs \<Longrightarrow> view_at s c \<noteq> None"
  shows "\<exists>s'. each (set_parent par) cs s = Inr s' \<and> same_rest s s' \<and>
    view_at s' = (\<lambda>a. if a \<in> set cs then map_option (reparent_view par) (view_at s a) else view_at s a)"
  using assms
proof (induction cs arbitrary: s)
  case Nil
  then show ?case by simp
next
  case (Cons c cs)
  then obtain v where v: "view_at s c = Some v" by force
  then obtain s1 where s1: "set_parent par c s = Inr s1"
      "view_at s1 = (view_at s)(c \<mapsto> reparent_view par v)" "same_rest s s1"
    by (elim set_parent_viewE)
  have "\<And>x. x \<in> set cs \<Longrightarrow> view_at s1 x \<noteq> None" using Cons.prems s1(2) by auto
  with Cons.IH [of s1] Cons.prems(1) obtain s2 where s2: "each (set_parent par) cs s1 = Inr s2"
      "same_rest s1 s2"
      "view_at s2 = (\<lambda>a. if a \<in> set cs then map_option (reparent_view par) (view_at s1 a) else view_at s1 a)"
    by auto
  have "each (set_parent par) (c # cs) s = Inr s2" using s1 s2 by simp
  moreover have "view_at s2 =
      (\<lambda>a. if a \<in> set (c # cs) then map_option (reparent_view par) (view_at s a) else view_at s a)"
    using Cons.prems(1) v by (auto simp: s1(2) s2(3) fun_eq_iff)
  ultimately show ?case using same_rest_trans [OF s1(3) s2(2)] by blast
qed

section \<open>Trees of pages\<close>

datatype bnode = Leaf nat "rcd list" | Node nat "bnode list" "int list"

fun off :: "bnode \<Rightarrow> nat" where
  "off (Leaf a rs) = a"
| "off (Node a cs ks) = a"

fun offs :: "bnode \<Rightarrow> nat list" where
  "offs (Leaf a rs) = [a]"
| "offs (Node a cs ks) = a # concat (map offs cs)"

text \<open>The records of the leaves, in order.\<close>

fun leaves :: "bnode \<Rightarrow> rcd list list" where
  "leaves (Leaf a rs) = [rs]"
| "leaves (Node a cs ks) = concat (map leaves cs)"

text \<open>Records and separators in order: a record with key \<open>k\<close> counts as \<open>2 * k + 1\<close>, a separator
  \<open>k\<close> as \<open>2 * k\<close>, so that a strictly sorted list says that what is left of a separator is
  smaller and what is right of it is not.\<close>

fun weave :: "int list list \<Rightarrow> int list \<Rightarrow> int list" where
  "weave [] ks = []"
| "weave (x # xs) [] = x @ weave xs []"
| "weave (x # xs) (k # ks) = x @ 2 * k # weave xs ks"

definition key_rank :: "rcd \<Rightarrow> int" where "key_rank r = 2 * rkey r + 1"

fun flat :: "bnode \<Rightarrow> int list" where
  "flat (Leaf a rs) = map key_rank rs"
| "flat (Node a cs ks) = weave (map flat cs) ks"

fun wfn :: "bnode \<Rightarrow> bool" where
  "wfn (Leaf a rs) \<longleftrightarrow> length rs \<le> LEAF_MAX"
| "wfn (Node a cs ks) \<longleftrightarrow>
     length cs = Suc (length ks) \<and> length ks \<le> INTERNAL_MAX \<and> (\<forall>c \<in> set cs. wfn c)"

text \<open>What the file says when it holds a tree below a parent.\<close>

fun top :: "nat \<Rightarrow> bnode \<Rightarrow> view" where
  "top par (Leaf a rs) = Leaf_view par rs"
| "top par (Node a cs ks) = Node_view par (map off cs) ks"

fun below :: "bnode \<Rightarrow> (nat \<times> view) list" where
  "below (Leaf a rs) = []"
| "below (Node a cs ks) = concat (map (\<lambda>c. (off c, top a c) # below c) cs)"

definition expected :: "nat \<Rightarrow> bnode \<Rightarrow> (nat \<times> view) list" where
  "expected par t = (off t, top par t) # below t"

definition holds :: "table \<Rightarrow> (nat \<times> view) list \<Rightarrow> bool" where
  "holds s E \<longleftrightarrow> (\<forall>x \<in> set E. view_at s (fst x) = Some (snd x))"

lemma holds_simps [simp]:
  "holds s []" "holds s ((a, v) # E) \<longleftrightarrow> view_at s a = Some v \<and> holds s E"
  "holds s (E @ F) \<longleftrightarrow> holds s E \<and> holds s F"
  by (auto simp: holds_def)

lemma holds_concat: "holds s (concat (map f xs)) \<longleftrightarrow> (\<forall>x \<in> set xs. holds s (f x))"
  by (induction xs) auto

lemma holds_frame:
  "holds s E \<Longrightarrow> (\<And>a. a \<in> fst ` set E \<Longrightarrow> view_at s' a = view_at s a) \<Longrightarrow> holds s' E"
  by (auto simp: holds_def)

lemma reparent_top [simp]: "reparent_view par' (top par t) = top par' t"
  by (cases t) auto

lemma below_Node: "below (Node a cs ks) = concat (map (expected a) cs)"
proof -
  have "expected a = (\<lambda>c. (off c, top a c) # below c)" by (simp add: fun_eq_iff expected_def)
  then show ?thesis by simp
qed

declare below.simps(2) [simp del]

lemma offs_expected: "map fst (expected par t) = offs t"
proof (induction t arbitrary: par)
  case (Node a cs ks)
  then have "map (map fst \<circ> expected a) cs = map offs cs" by simp
  then have "map fst (below (Node a cs ks)) = concat (map offs cs)"
    by (simp only: below_Node map_concat map_map)
  then show ?case by (simp add: expected_def)
qed (simp add: expected_def)

lemma offs_below: "offs t = off t # map fst (below t)"
  using offs_expected [of 0 t] by (simp add: expected_def)

lemma off_in_offs [simp]: "off t \<in> set (offs t)"
  by (cases t) auto

lemma holds_pos: "holds s (expected par t) \<Longrightarrow> off t \<noteq> 0"
  by (auto simp: expected_def dest: view_pos)

lemma holds_offs: "holds s (expected par t) \<Longrightarrow> a \<in> set (offs t) \<Longrightarrow> view_at s a \<noteq> None"
proof -
  assume h: "holds s (expected par t)" and "a \<in> set (offs t)"
  then have "a \<in> fst ` set (expected par t)" by (simp flip: offs_expected [of par t])
  with h show "view_at s a \<noteq> None" by (auto simp: holds_def)
qed

section \<open>Paths\<close>

text \<open>A path from a subtree to the root, innermost page first: what is left and what is right of
  the hole.\<close>

datatype path_frame = Frame nat "(bnode \<times> int) list" "(int \<times> bnode) list"

fun plug :: "path_frame \<Rightarrow> bnode \<Rightarrow> bnode" where
  "plug (Frame a ls rs) t =
     Node a (map fst ls @ t # map snd rs) (map snd ls @ map fst rs)"

fun plugs :: "path_frame list \<Rightarrow> bnode \<Rightarrow> bnode" where
  "plugs [] t = t"
| "plugs (f # fs) t = plugs fs (plug f t)"

text \<open>The hole filled with two subtrees and the separator between them.\<close>

fun plug_two :: "path_frame \<Rightarrow> bnode \<Rightarrow> int \<Rightarrow> bnode \<Rightarrow> bnode" where
  "plug_two (Frame a ls rs) l k r =
     Node a (map fst ls @ l # r # map snd rs) (map snd ls @ k # map fst rs)"

fun frame_off :: "path_frame \<Rightarrow> nat" where
  "frame_off (Frame a ls rs) = a"

fun par_of :: "path_frame list \<Rightarrow> nat" where
  "par_of [] = 0"
| "par_of (f # fs) = frame_off f"

fun wff :: "path_frame \<Rightarrow> bool" where
  "wff (Frame a ls rs) \<longleftrightarrow> length ls + length rs \<le> INTERNAL_MAX \<and>
     (\<forall>(c, k) \<in> set ls. wfn c) \<and> (\<forall>(k, c) \<in> set rs. wfn c)"

fun frame_exp :: "nat \<Rightarrow> nat \<Rightarrow> path_frame \<Rightarrow> (nat \<times> view) list" where
  "frame_exp par h (Frame a ls rs) =
     (a, Node_view par (map (off \<circ> fst) ls @ h # map (off \<circ> snd) rs) (map snd ls @ map fst rs))
     # concat (map (expected a \<circ> fst) ls) @ concat (map (expected a \<circ> snd) rs)"

fun path_exp :: "nat \<Rightarrow> path_frame list \<Rightarrow> (nat \<times> view) list" where
  "path_exp h [] = []"
| "path_exp h (f # fs) = frame_exp (par_of fs) h f @ path_exp (frame_off f) fs"

fun lflat :: "path_frame list \<Rightarrow> int list" where
  "lflat [] = []"
| "lflat (Frame a ls rs # fs) = lflat fs @ concat (map (\<lambda>(c, k). flat c @ [2 * k]) ls)"

fun rflat :: "path_frame list \<Rightarrow> int list" where
  "rflat [] = []"
| "rflat (Frame a ls rs # fs) = concat (map (\<lambda>(k, c). 2 * k # flat c) rs) @ rflat fs"

fun lleaves :: "path_frame list \<Rightarrow> rcd list list" where
  "lleaves [] = []"
| "lleaves (Frame a ls rs # fs) = lleaves fs @ concat (map (leaves \<circ> fst) ls)"

fun rleaves :: "path_frame list \<Rightarrow> rcd list list" where
  "rleaves [] = []"
| "rleaves (Frame a ls rs # fs) = concat (map (leaves \<circ> snd) rs) @ rleaves fs"

lemma frame_off_simps [simp]:
  "off (plug f t) = frame_off f" "off (plug_two f l k r) = frame_off f"
  by (cases f; simp)+

lemma weave_left:
  "weave (map (flat \<circ> fst) ls @ xs) (map snd ls @ ks) =
     concat (map (\<lambda>(c, k). flat c @ [2 * k]) ls) @ weave xs ks"
  by (induction ls) auto

lemma weave_right:
  "weave (x # map (flat \<circ> snd) rs) (map fst rs) = x @ concat (map (\<lambda>(k, c). 2 * k # flat c) rs)"
  by (induction rs arbitrary: x) auto

lemma weave_split:
  "length xs = Suc (length ks) \<Longrightarrow> weave (xs @ ys) (ks @ k # ks') = weave xs ks @ 2 * k # weave ys ks'"
proof (induction ks arbitrary: xs)
  case Nil
  then obtain x where "xs = [x]" by (auto simp: length_Suc_conv)
  then show ?case by simp
next
  case (Cons c ks)
  then obtain x xs' where "xs = x # xs'" "length xs' = Suc (length ks)" by (auto simp: length_Suc_conv)
  with Cons.IH [of xs'] show ?case by simp
qed

lemma flat_plug: "flat (plug f t) = lflat [f] @ flat t @ rflat [f]"
  by (cases f) (simp add: weave_left weave_right)

lemma flat_plug_two: "flat (plug_two f l k r) = lflat [f] @ flat l @ [2 * k] @ flat r @ rflat [f]"
  by (cases f) (simp add: weave_left weave_right)

lemma lflat_Cons: "lflat (f # fs) = lflat fs @ lflat [f]"
  and rflat_Cons: "rflat (f # fs) = rflat [f] @ rflat fs"
  by (cases f; simp)+

lemma lleaves_Cons: "lleaves (f # fs) = lleaves fs @ lleaves [f]"
  and rleaves_Cons: "rleaves (f # fs) = rleaves [f] @ rleaves fs"
  by (cases f; simp)+

lemma leaves_plug: "leaves (plug f t) = lleaves [f] @ leaves t @ rleaves [f]"
  by (cases f) (simp add: comp_def)

lemma leaves_plug_two: "leaves (plug_two f l k r) = lleaves [f] @ leaves l @ leaves r @ rleaves [f]"
  by (cases f) (simp add: comp_def)

lemma flat_plugs: "flat (plugs C t) = lflat C @ flat t @ rflat C"
proof (induction C arbitrary: t)
  case (Cons f C)
  then show ?case by (simp add: flat_plug lflat_Cons [of f C] rflat_Cons [of f C])
qed simp

lemma leaves_plugs: "leaves (plugs C t) = lleaves C @ leaves t @ rleaves C"
proof (induction C arbitrary: t)
  case (Cons f C)
  then show ?case by (simp add: leaves_plug lleaves_Cons [of f C] rleaves_Cons [of f C])
qed simp

lemma wfn_plug: "wfn (plug f t) \<longleftrightarrow> wff f \<and> wfn t"
  by (cases f) (auto simp: ball_Un case_prod_unfold)

lemma wfn_plugs: "wfn (plugs C t) \<longleftrightarrow> list_all wff C \<and> wfn t"
  by (induction C arbitrary: t) (auto simp: wfn_plug)

lemma mset_plug:
  "mset (expected par (plug f t)) = mset (frame_exp par (off t) f @ expected (frame_off f) t)"
proof (cases f)
  case (Frame a ls rs)
  let ?cs = "map fst ls @ t # map snd rs" and ?ks = "map snd ls @ map fst rs"
  have "expected par (plug f t) = (a, Node_view par (map off ?cs) ?ks) # concat (map (expected a) ?cs)"
    unfolding Frame plug.simps by (simp add: expected_def [of par] below_Node)
  then show ?thesis using Frame by simp
qed

lemma mset_plugs:
  "mset (expected 0 (plugs C t)) = mset (path_exp (off t) C @ expected (par_of C) t)"
proof (induction C arbitrary: t)
  case (Cons f C)
  have "mset (expected 0 (plugs (f # C) t)) =
      mset (path_exp (frame_off f) C) + mset (expected (par_of C) (plug f t))"
    using Cons.IH [of "plug f t"] by simp
  then show ?case by (simp only: mset_plug mset_append path_exp.simps par_of.simps add_ac)
qed simp

lemma holds_mset: "mset E = mset F \<Longrightarrow> holds s E \<longleftrightarrow> holds s F"
  by (drule mset_eq_setD) (simp add: holds_def)

lemma holds_plugs:
  "holds s (expected 0 (plugs C t)) \<longleftrightarrow>
     holds s (path_exp (off t) C) \<and> holds s (expected (par_of C) t)"
  using holds_mset [OF mset_plugs, of s C t] by simp

lemma distinct_plugs:
  "distinct (offs (plugs C t)) \<longleftrightarrow> distinct (map fst (path_exp (off t) C) @ offs t)"
proof -
  have "mset (map fst (expected 0 (plugs C t))) =
      mset (map fst (path_exp (off t) C) @ map fst (expected (par_of C) t))"
    by (simp only: mset_map mset_plugs flip: map_append)
  then have "mset (offs (plugs C t)) = mset (map fst (path_exp (off t) C) @ offs t)"
    by (simp only: offs_expected)
  then show ?thesis by (rule mset_eq_imp_distinct_iff)
qed

lemma off_plugs: "off (plugs C t) = (if C = [] then off t else frame_off (last C))"
  by (induction C arbitrary: t) auto

lemma path_exp_hole: "map fst (path_exp h C) = map fst (path_exp h' C)"
proof (cases C)
  case (Cons f D)
  then show ?thesis by (cases f) simp
qed simp

section \<open>Splits that climb to the root\<close>

definition rooted :: "table \<Rightarrow> nat \<Rightarrow> bool" where
  "rooted s a \<longleftrightarrow> fpo (hp s) = 0 \<and> rpo (hp s) = a \<and> disk_hp s = hp s \<and>
     (\<exists>p. rt s = Some p \<and> 0 < num_of_keys p)"

definition tree_at :: "table \<Rightarrow> bnode \<Rightarrow> bool" where
  "tree_at s t \<longleftrightarrow> holds s (expected 0 t) \<and> distinct (offs t) \<and> wfn t \<and> rooted s (off t)"

text \<open>A tree with a hole at the end of a path, and the two subtrees that are to fill it.\<close>

definition pending :: "table \<Rightarrow> path_frame list \<Rightarrow> bnode \<Rightarrow> int \<Rightarrow> bnode \<Rightarrow> bool" where
  "pending s C l k r \<longleftrightarrow> holds s (path_exp (off l) C) \<and> holds s (expected (par_of C) l) \<and>
     holds s (expected (par_of C) r) \<and> distinct (map fst (path_exp (off l) C) @ offs l @ offs r) \<and>
     list_all wff C \<and> wfn l \<and> wfn r \<and> rooted s (off (plugs C l))"

lemma rooted_same_rest: "same_rest s s' \<Longrightarrow> rooted s a \<Longrightarrow> rooted s' a"
  by (simp add: same_rest_def rooted_def)

fun parent_of :: "view \<Rightarrow> nat" where
  "parent_of (Leaf_view par rs) = par"
| "parent_of (Node_view par cs ks) = par"

lemma parent_of_view [simp]: "parent_of (view_of p) = parent_page_offset p"
  by (simp add: view_of_def)

lemma parent_of_top [simp]: "parent_of (top par t) = par"
  by (cases t) auto

lemma view_of_Node:
  "view_of p = Node_view par cs ks \<Longrightarrow>
     \<not> is_leaf p \<and> parent_page_offset p = par \<and> num_of_keys p = length ks \<and>
     cs = next_offset p # map (\<lambda>i. p_offset (b_f p i)) [0..<length ks] \<and>
     ks = map (\<lambda>i. ikey (b_f p i)) [0..<length ks]"
  by (auto simp: view_of_def split: if_splits)

lemma view_of_Leaf:
  "view_of p = Leaf_view par rs \<Longrightarrow>
     is_leaf p \<and> parent_page_offset p = par \<and> num_of_keys p = length rs \<and>
     rs = map (records p) [0..<length rs]"
  by (auto simp: view_of_def split: if_splits)

lemma nth_map_upt: "xs = map f [0..<length xs] \<Longrightarrow> i < length xs \<Longrightarrow> f i = xs ! i"
  by (metis add_0 diff_zero length_upt nth_map nth_upt)

lemma get_left_index_view:
  assumes "view_at s h = Some v" "parent_of v = a" "view_at s a = Some (Node_view par (xs @ h # ys) ks)"
    and "h \<notin> set xs"
  shows "get_left_index h s = Inr (int (length xs) - 1)"
proof -
  obtain c where c: "load h s = Inr c" "parent_page_offset c = a"
    using assms(1,2) by (elim view_loadE) auto
  obtain p where p: "load a s = Inr p" "view_of p = Node_view par (xs @ h # ys) ks"
    using assms(3) by (elim view_loadE)
  note pv = view_of_Node [OF p(2)]
  show ?thesis
  proof (cases xs)
    case Nil
    then show ?thesis using c p pv by (simp add: get_left_index_def)
  next
    case (Cons x zs)
    then have tl: "zs @ h # ys = map (\<lambda>i. p_offset (b_f p i)) [0..<length ks]" using pv by simp
    then have len: "length (zs @ h # ys) = length ks" by (metis diff_zero length_map length_upt)
    then have nth: "p_offset (b_f p i) = (zs @ h # ys) ! i" if "i < length ks" for i
      using that tl by simp
    have "scan (\<lambda>i. p_offset (b_f p i) \<noteq> h) (num_of_keys p) 0 = length zs"
    proof (rule scan_eqI)
      fix j
      assume "j < length zs"
      then show "p_offset (b_f p j) \<noteq> h" using len nth [of j] assms(4) Cons
        by (auto simp: nth_append dest: nth_mem)
    qed (use pv len nth in auto)
    moreover have "h \<noteq> next_offset p" using pv Cons assms(4) by auto
    moreover have "length zs < length ks" using len by simp
    ultimately show ?thesis using c p pv Cons by (simp add: get_left_index_def Let_def)
  qed
qed

lemma view_of_inserted:
  assumes "view_of p = Node_view par cs ks" "j \<le> length ks"
    and "bf = (shift_up j (length ks) (b_f p))(j := \<lparr>ikey = k, p_offset = c\<rparr>)"
  shows "view_of (p\<lparr>b_f := bf, num_of_keys := num_of_keys p + 1\<rparr>) =
    Node_view par (take (Suc j) cs @ c # drop (Suc j) cs) (take j ks @ k # drop j ks)"
proof -
  note pv = view_of_Node [OF assms(1)]
  let ?m = "map (b_f p) [0..<length ks]"
  have bf: "map bf [0..<Suc (length ks)] = take j ?m @ \<lparr>ikey = k, p_offset = c\<rparr> # drop j ?m"
    using assms(2,3) by (simp only: shift_up_list)
  from pv have "ks = map (\<lambda>i. ikey (b_f p i)) [0..<length ks]" by blast
  then have ki: "map ikey ?m = ks" unfolding map_map comp_def by (rule sym)
  have po: "map p_offset ?m = tl cs" using pv by (simp add: comp_def)
  have "map (\<lambda>i. ikey (bf i)) [0..<Suc (length ks)] = map ikey (map bf [0..<Suc (length ks)])"
    by (simp del: upt_Suc)
  also have "\<dots> = take j ks @ k # drop j ks"
    unfolding bf by (simp add: ki flip: take_map drop_map del: map_map)
  finally have k: "map (\<lambda>i. ikey (bf i)) [0..<Suc (length ks)] = take j ks @ k # drop j ks" .
  have "map (\<lambda>i. p_offset (bf i)) [0..<Suc (length ks)] = map p_offset (map bf [0..<Suc (length ks)])"
    by (simp del: upt_Suc)
  also have "\<dots> = take j (tl cs) @ c # drop j (tl cs)"
    unfolding bf by (simp add: po flip: take_map drop_map del: map_map)
  finally have "map (\<lambda>i. p_offset (bf i)) [0..<Suc (length ks)] = take j (tl cs) @ c # drop j (tl cs)" .
  then show ?thesis using k pv by (cases cs) (auto simp: view_of_def simp del: upt_Suc)
qed

lemma insert_into_internal_view:
  assumes "view_at s a = Some (Node_view par cs ks)" "j \<le> length ks" "rooted s ra"
  obtains s' where "insert_into_internal a (int j - 1) k c s = Inr s'" "rooted s' ra"
    "view_at s' = (view_at s)(a \<mapsto>
       Node_view par (take (Suc j) cs @ c # drop (Suc j) cs) (take j ks @ k # drop j ks))"
proof -
  obtain p where p: "load a s = Inr p" "view_of p = Node_view par cs ks"
    using assms(1) by (elim view_loadE)
  note pv = view_of_Node [OF p(2)]
  let ?bf = "(shift_up j (length ks) (b_f p))(j := \<lparr>ikey = k, p_offset = c\<rparr>)"
  let ?p = "p\<lparr>b_f := ?bf, num_of_keys := num_of_keys p + 1\<rparr>"
  note vi = view_of_inserted [OF p(2) assms(2), of ?bf k c, simplified]
  obtain s1 where s1: "pwrite_page a ?p s = Inr s1" "view_at s1 = (view_at s)(a \<mapsto> view_of ?p)"
      "same_rest s s1"
    using assms(1) by (elim pwrite_viewE [of s a ?p, rotated]) simp
  have r1: "rooted s1 ra" using rooted_same_rest [OF s1(3) assms(3)] .
  have "view_at s1 a = Some (view_of ?p)" using s1(2) by simp
  then obtain q where q: "load_page a s1 = Inr (Some q)" "view_of q = view_of ?p"
    by (elim view_loadE)
  have "num_of_keys q = Suc (length ks)"
    using q(2) vi view_of_Node [of q] by fastforce
  then have r2: "rooted (s1\<lparr>rt := Some q\<rparr>) ra" using r1 by (simp add: rooted_def)
  have v2: "view_at (s1\<lparr>rt := Some q\<rparr>) = view_at s1"
    by (simp add: view_at_def fun_eq_iff split: option.split)
  let ?s = "if a = rpo (hp s1) then s1\<lparr>rt := Some q\<rparr> else s1"
  have "insert_into_internal a (int j - 1) k c s = Inr ?s"
    using p(1) pv s1(1) q(1) by (auto simp: insert_into_internal_def Let_def)
  then show ?thesis
    using that [of ?s] r1 r2 v2 s1(2) vi by (auto split: if_splits)
qed


text \<open>The slots of the page and the new one, as the temporary array has them.\<close>

lemma temp_slots:
  assumes "view_of p = Node_view par cs ks" "j \<le> length ks"
    and "temp = (spread_slots j (length ks) (b_f p) z)(j := \<lparr>ikey = k, p_offset = c\<rparr>)"
  shows "map (\<lambda>i. ikey (temp i)) [0..<Suc (length ks)] = take j ks @ k # drop j ks"
    and "map (\<lambda>i. p_offset (temp i)) [0..<Suc (length ks)] = take j (tl cs) @ c # drop j (tl cs)"
proof -
  note pv = view_of_Node [OF assms(1)]
  let ?m = "map (b_f p) [0..<length ks]"
  have t: "map temp [0..<Suc (length ks)] = take j ?m @ \<lparr>ikey = k, p_offset = c\<rparr> # drop j ?m"
    using assms(2,3) by (simp only: spread_slots_list)
  from pv have "ks = map (\<lambda>i. ikey (b_f p i)) [0..<length ks]" by blast
  then have ki: "map ikey ?m = ks" unfolding map_map comp_def by (rule sym)
  have po: "map p_offset ?m = tl cs" using pv by (simp add: comp_def)
  have "map (\<lambda>i. ikey (temp i)) [0..<Suc (length ks)] = map ikey (map temp [0..<Suc (length ks)])"
    by (simp del: upt_Suc)
  also have "\<dots> = take j ks @ k # drop j ks"
    unfolding t by (simp add: ki flip: take_map drop_map del: map_map)
  finally show "map (\<lambda>i. ikey (temp i)) [0..<Suc (length ks)] = take j ks @ k # drop j ks" .
  have "map (\<lambda>i. p_offset (temp i)) [0..<Suc (length ks)] = map p_offset (map temp [0..<Suc (length ks)])"
    by (simp del: upt_Suc)
  also have "\<dots> = take j (tl cs) @ c # drop j (tl cs)"
    unfolding t by (simp add: po flip: take_map drop_map del: map_map)
  finally show "map (\<lambda>i. p_offset (temp i)) [0..<Suc (length ks)] =
    take j (tl cs) @ c # drop j (tl cs)" .
qed

lemma map_upt_take: "m \<le> n \<Longrightarrow> map f [0..<m] = take m (map f [0..<n])"
  by (simp add: take_map)

lemma map_upt_drop: "m \<le> n \<Longrightarrow> map (\<lambda>i. f (i + m)) [0..<n - m] = drop m (map f [0..<n])"
  by (rule nth_equalityI) (auto simp: add.commute)

lemma split_internal_view:
  assumes s: "view_at s a = Some (Node_view par cs ks)" and len: "length ks = INTERNAL_MAX"
    "length cs = Suc (length ks)" "j \<le> length ks" and root: "rooted s ra"
    and cs': "cs' = take (Suc j) cs @ c # drop (Suc j) cs" and ks': "ks' = take j ks @ k # drop j ks"
    and kids: "distinct (drop 13 cs')" "a \<notin> set (drop 13 cs')"
      "\<And>x. x \<in> set (drop 13 cs') \<Longrightarrow> view_at s x \<noteq> None"
  obtains b s' where "split_internal a (int j - 1) k c s = Inr ((ks' ! 12, b), s')" "rooted s' ra"
    "b = page_off (length (pages s))" "length (pages s') = Suc (length (pages s))"
    "view_at s' = (\<lambda>x. if x = b then Some (Node_view par (drop 13 cs') (drop 13 ks'))
       else if x = a then Some (Node_view par (take 13 cs') (take 12 ks'))
       else if x \<in> set (drop 13 cs') then map_option (reparent_view b) (view_at s x) else view_at s x)"
proof -
  have cut: "cut INTERNAL_MAX = 12" and IM: "INTERNAL_MAX = 24" by (simp_all add: cut_def INTERNAL_MAX_def)
  obtain p where p: "load a s = Inr p" "view_of p = Node_view par cs ks"
    using s by (elim view_loadE)
  note pv = view_of_Node [OF p(2)]
  define temp where "temp = (spread_slots j (length ks) (b_f p) (\<lambda>_. zero_inter))
    (j := \<lparr>ikey = k, p_offset = c\<rparr>)"
  have l25: "Suc (length ks) = 25" using len IM by simp
  obtain h us where cs: "cs = h # us" "length us = 24" using len IM by (cases cs) auto
  have j: "j \<le> 24" using len IM by simp
  have cs'': "cs' = h # take j us @ c # drop j us" using cs cs' by simp
  have tk: "map (\<lambda>i. ikey (temp i)) [0..<25] = ks'"
    and tc: "map (\<lambda>i. p_offset (temp i)) [0..<25] = tl cs'"
    using temp_slots [OF p(2) len(3) temp_def] unfolding l25 ks' cs'' cs(1) by simp_all
  obtain b s1 where s1: "new_page s = Inr (b, s1)" "b = page_off (length (pages s))"
      "view_at s1 = (view_at s)(b \<mapsto> Node_view 0 [0] [])" "load b s1 = Inr blank_page"
      "fpo (hp s1) = 0" "rpo (hp s1) = rpo (hp s)" "disk_hp s1 = hp s1" "rt s1 = rt s"
      "pages s1 = pages s @ [blank_page]"
    using root new_page_viewE [of s] by (auto simp: rooted_def)
  have fresh: "view_at s b = None" using s1(2) view_fresh by simp
  then have ba: "b \<noteq> a" using s by auto
  have bk: "b \<notin> set (drop 13 cs')" using kids(3) [of b] fresh by blast
  have "view_at s1 x \<noteq> None" if "x \<in> set (drop 13 cs')" for x using kids(3) that s1(3) by auto
  from each_set_parent_viewE [OF kids(1) this, of b] obtain s2 where
    s2: "each (set_parent b) (drop 13 cs') s1 = Inr s2" "same_rest s1 s2"
      "view_at s2 = (\<lambda>x. if x \<in> set (drop 13 cs') then map_option (reparent_view b) (view_at s1 x)
         else view_at s1 x)" by auto
  let ?old = "p\<lparr>num_of_keys := 12, b_f := copy_slots 0 12 0 temp (b_f p)\<rparr>"
  let ?new = "blank_page\<lparr>next_offset := p_offset (temp 12), num_of_keys := 12,
    b_f := copy_slots 13 25 13 temp (b_f blank_page), parent_page_offset := par\<rparr>"
  have len': "length cs' = 26" "length ks' = 25" using cs j len IM unfolding cs'' ks' by auto
  have k12: "ikey (temp 12) = ks' ! 12" and c12: "p_offset (temp 12) = cs' ! 13"
    using arg_cong [OF tk, of "\<lambda>xs. xs ! 12"] arg_cong [OF tc, of "\<lambda>xs. xs ! 12"] len'
    by (simp_all add: nth_tl)
  have left: "view_of ?old = Node_view par (take 13 cs') (take 12 ks')"
  proof -
    have "map (\<lambda>i. ikey (copy_slots 0 12 0 temp (b_f p) i)) [0..<12] = take 12 ks'"
      "map (\<lambda>i. p_offset (copy_slots 0 12 0 temp (b_f p) i)) [0..<12] = take 12 (tl cs')"
      unfolding tk [symmetric] tc [symmetric] by (rule nth_equalityI; simp add: copy_slots_apply)+
    moreover have "take 13 cs' = h # take 12 (tl cs')" unfolding cs'' by (simp add: take_Cons')
    ultimately show ?thesis using pv cs by (simp add: view_of_def)
  qed
  have nk: "map (\<lambda>i. ikey (copy_slots 13 25 13 temp (b_f blank_page) i)) [0..<12] = drop 13 ks'"
    and nc: "map (\<lambda>i. p_offset (copy_slots 13 25 13 temp (b_f blank_page) i)) [0..<12] = drop 14 cs'"
  proof -
    have "drop 14 cs' = drop 13 (tl cs')" unfolding cs'' by simp
    then show "map (\<lambda>i. ikey (copy_slots 13 25 13 temp (b_f blank_page) i)) [0..<12] = drop 13 ks'"
      "map (\<lambda>i. p_offset (copy_slots 13 25 13 temp (b_f blank_page) i)) [0..<12] = drop 14 cs'"
      unfolding tk [symmetric] tc [symmetric]
      by (auto intro!: nth_equalityI simp: copy_slots_apply add.commute)
  qed
  have d13: "drop 13 cs' = cs' ! 13 # drop 14 cs'"
    using len' Cons_nth_drop_Suc [of 13 cs'] by simp
  have right: "view_of ?new = Node_view par (drop 13 cs') (drop 13 ks')"
    using nk nc c12 d13 by (simp add: view_of_def blank_page_def)
  have "view_at s2 a \<noteq> None" using kids(2) s s1(3) s2(3) ba by simp
  then obtain s3 where s3: "pwrite_page a ?old s2 = Inr s3"
      "view_at s3 = (view_at s2)(a \<mapsto> view_of ?old)" "same_rest s2 s3"
    by (elim pwrite_viewE)
  have "view_at s3 b \<noteq> None" using ba bk s1(3) s2(3) s3(2) by simp
  then obtain s4 where s4: "pwrite_page b ?new s3 = Inr s4"
      "view_at s4 = (view_at s3)(b \<mapsto> view_of ?new)" "same_rest s3 s4"
    by (elim pwrite_viewE)
  from s2(1) obtain s1' where s1': "set_parent b (cs' ! 13) s1 = Inr s1'"
      "each (set_parent b) (drop 14 cs') s1' = Inr s2"
    unfolding d13 by (auto simp: call_eq_Inr)
  have "each (\<lambda>i. set_parent b (p_offset (copy_slots 13 25 13 temp (b_f blank_page) i))) [0..<12] s1'
      = Inr s2"
    using s1'(2) nc by (subst each_map [of "set_parent b"]) simp
  moreover have "(spread_slots j 24 (b_f p) (\<lambda>_. zero_inter))(j := \<lparr>ikey = k, p_offset = c\<rparr>) = temp"
    using temp_def len IM by simp
  moreover have "num_of_keys p = 24" "parent_page_offset p = par" using pv len IM by simp_all
  ultimately have "split_internal a (int j - 1) k c s = Inr ((ks' ! 12, b), s4)"
    using p(1) s1(1,4) s1'(1) s3(1) s4(1) k12 c12
    unfolding split_internal_def IM
    by (simp add: Let_def blank_page_def cut [unfolded IM] cong: let_weak_cong call_weak_cong)
  moreover have "rooted s4 ra"
  proof -
    have "rooted s1 ra" using root s1 by (simp add: rooted_def)
    then show ?thesis using s2(2) s3(3) s4(3) rooted_same_rest by blast
  qed
  moreover have "length (pages s4) = Suc (length (pages s))"
    using s1(9) s2(2) s3(3) s4(3) by (simp add: same_rest_def)
  moreover have "view_at s4 = (\<lambda>x. if x = b then Some (Node_view par (drop 13 cs') (drop 13 ks'))
       else if x = a then Some (Node_view par (take 13 cs') (take 12 ks'))
       else if x \<in> set (drop 13 cs') then map_option (reparent_view b) (view_at s x) else view_at s x)"
    using s1(3) s2(3) s3(2) s4(2) left right ba bk by (auto simp: fun_eq_iff)
  ultimately show thesis using that s1(2) by blast
qed

lemma below_not_off:
  "distinct (concat (map offs cs)) \<Longrightarrow> c \<in> set cs \<Longrightarrow> x \<in> fst ` set (below c) \<Longrightarrow> x \<notin> off ` set cs"
proof (induction cs)
  case (Cons d cs)
  have sub: "fst ` set (below e) \<subseteq> set (offs e)" for e by (auto simp: offs_below [of e])
  have d: "off d \<notin> fst ` set (below d)" "set (offs d) \<inter> (\<Union>e \<in> set cs. set (offs e)) = {}"
    using Cons.prems(1) by (auto simp: offs_below [of d])
  show ?case
  proof (cases "c \<in> set cs")
    case True
    with Cons have "x \<notin> off ` set cs" by simp
    moreover have "x \<in> (\<Union>e \<in> set cs. set (offs e))" using True Cons.prems(3) sub by blast
    then have "x \<noteq> off d" using d(2) off_in_offs [of d] by blast
    ultimately show ?thesis by simp
  next
    case False
    then have "c = d" using Cons.prems(2) by simp
    then have x: "x \<in> fst ` set (below d)" using Cons.prems(3) by simp
    then have "x \<notin> off ` set cs" using d(2) sub [of d] off_in_offs by blast
    moreover have "x \<noteq> off d" using x d(1) by blast
    ultimately show ?thesis by simp
  qed
qed simp

text \<open>The children of a page after their parent offsets were changed.\<close>

lemma holds_reparented:
  assumes "holds s (concat (map (expected a) cs))" "distinct (concat (map offs cs))"
    and "\<And>x. x \<in> set (concat (map offs cs)) \<Longrightarrow> view_at s' x =
      (if x \<in> off ` set cs then map_option (reparent_view b) (view_at s x) else view_at s x)"
  shows "holds s' (concat (map (expected b) cs))"
  unfolding holds_concat
proof
  fix c
  assume c: "c \<in> set cs"
  with assms(1) have h: "view_at s (off c) = Some (top a c)" "holds s (below c)"
    by (auto simp: holds_concat expected_def)
  have "off c \<in> set (concat (map offs cs))" using c by force
  then have "view_at s' (off c) = Some (top b c)"
    using assms(3) [of "off c"] c h(1) by simp
  moreover have "holds s' (below c)"
  proof (rule holds_frame [OF h(2)])
    fix x
    assume x: "x \<in> fst ` set (below c)"
    then have "x \<in> set (offs c)" by (auto simp: offs_below [of c])
    then have "x \<in> set (concat (map offs cs))" using c by auto
    then show "view_at s' x = view_at s x"
      using assms(3) below_not_off [OF assms(2) c x] by simp
  qed
  ultimately show "holds s' (expected b c)" by (simp add: expected_def)
qed

lemma insert_into_new_root_ok:
  assumes "pending s [] l k r"
  obtains b s' where "insert_into_new_root (off l) k (off r) s = Inr s'" "tree_at s' (Node b [l, r] [k])"
proof -
  have hl: "holds s (expected 0 l)" and hr: "holds s (expected 0 r)" and d: "distinct (offs l @ offs r)"
    and w: "wfn l" "wfn r" and root: "rooted s (off l)"
    using assms by (simp_all add: pending_def)
  obtain b s1 where s1: "new_page s = Inr (b, s1)" "b = page_off (length (pages s))"
      "view_at s1 = (view_at s)(b \<mapsto> Node_view 0 [0] [])" "load b s1 = Inr blank_page"
      "fpo (hp s1) = 0" "rpo (hp s1) = rpo (hp s)" "disk_hp s1 = hp s1" "rt s1 = rt s"
      "pages s1 = pages s @ [blank_page]"
    using root new_page_viewE [of s] by (auto simp: rooted_def)
  have fresh: "b \<notin> set (offs l @ offs r)"
    using holds_offs [OF hl, of b] holds_offs [OF hr, of b] view_fresh [of s] s1(2) by auto
  then have nb: "off l \<noteq> b" "off r \<noteq> b" using off_in_offs [of l] off_in_offs [of r] by auto
  have lr: "off l \<noteq> off r"
    using d off_in_offs [of l] off_in_offs [of r] by (metis IntI distinct_append empty_iff)
  have vl: "view_at s1 (off l) = Some (top 0 l)" and vr: "view_at s1 (off r) = Some (top 0 r)"
    using hl hr nb s1(3) by (simp_all add: expected_def)
  obtain pl where pl: "load (off l) s1 = Inr pl" "view_of pl = top 0 l" using vl by (elim view_loadE)
  obtain pr where pr: "load (off r) s1 = Inr pr" "view_of pr = top 0 r" using vr by (elim view_loadE)
  have re: "view_of (p\<lparr>parent_page_offset := b\<rparr>) = reparent_view b (view_of p)" for p
    by (simp add: view_of_def)
  let ?nr = "blank_page\<lparr>b_f := (b_f blank_page)(0 := \<lparr>ikey = k, p_offset = off r\<rparr>),
    next_offset := off l, num_of_keys := 1\<rparr>"
  have vn: "view_of ?nr = Node_view 0 [off l, off r] [k]" by (simp add: view_of_def blank_page_def)
  obtain s2 where s2: "pwrite_page b ?nr s1 = Inr s2" "view_at s2 = (view_at s1)(b \<mapsto> view_of ?nr)"
      "same_rest s1 s2" using s1(3) by (elim pwrite_viewE [of s1 b ?nr, rotated]) simp
  obtain s3 where s3: "pwrite_page (off l) (pl\<lparr>parent_page_offset := b\<rparr>) s2 = Inr s3"
      "view_at s3 = (view_at s2)(off l \<mapsto> top b l)" "same_rest s2 s3"
    using pwrite_viewE [of s2 "off l" "pl\<lparr>parent_page_offset := b\<rparr>"] vl nb s2(2) pl(2)
    by (auto simp: re)
  obtain s4 where s4: "pwrite_page (off r) (pr\<lparr>parent_page_offset := b\<rparr>) s3 = Inr s4"
      "view_at s4 = (view_at s3)(off r \<mapsto> top b r)" "same_rest s3 s4"
    using pwrite_viewE [of s3 "off r" "pr\<lparr>parent_page_offset := b\<rparr>"] vr nb s2(2) s3(2) pr(2)
      lr [symmetric]
    by (auto simp: re)
  have "view_at s4 b = Some (Node_view 0 [off l, off r] [k])"
    using nb s2(2) s3(2) s4(2) vn by simp
  then obtain q where q: "load_page b s4 = Inr (Some q)" "view_of q = Node_view 0 [off l, off r] [k]"
    by (elim view_loadE)
  have nq: "num_of_keys q = 1" using view_of_Node [OF q(2)] by simp
  let ?s = "pwrite_hp (s4\<lparr>rt := Some q, hp := (hp s4)\<lparr>rpo := b\<rparr>\<rparr>)"
  have "insert_into_new_root (off l) k (off r) s = Inr ?s"
    using s1(1,4) pl(1) pr(1) s2(1) s3(1) s4(1) q(1)
    by (simp add: insert_into_new_root_def Let_def blank_page_def)
  moreover have v: "view_at ?s = view_at s4"
    by (simp add: view_at_def fun_eq_iff pwrite_hp_def load_header_def split: option.split)
  have "rooted ?s b"
    using s1(5) s2(3) s3(3) s4(3) nq by (simp add: rooted_def same_rest_def pwrite_hp_def load_header_def)
  moreover have "holds s4 (concat (map (expected b) [l, r]))"
  proof (rule holds_reparented)
    show "holds s (concat (map (expected 0) [l, r]))" using hl hr by simp
    show "distinct (concat (map offs [l, r]))" using d by simp
    fix x
    assume "x \<in> set (concat (map offs [l, r]))"
    then have "x \<noteq> b" using fresh by auto
    then show "view_at s4 x = (if x \<in> off ` set [l, r] then map_option (reparent_view b) (view_at s x)
        else view_at s x)"
      using lr nb vl vr s1(3) s2(2) s3(2) s4(2) by auto
  qed
  then have "holds ?s (expected 0 (Node b [l, r] [k]))"
    using \<open>view_at s4 b = _\<close> by (simp add: expected_def [of 0] below_Node holds_def v)
  moreover have "distinct (offs (Node b [l, r] [k]))" using fresh d by auto
  moreover have "wfn (Node b [l, r] [k])" using w by (simp add: INTERNAL_MAX_def)
  ultimately show thesis using that by (auto simp: tree_at_def)
qed


lemma distinct_off: "distinct (concat (map offs cs)) \<Longrightarrow> distinct (map off cs)"
proof (induction cs)
  case (Cons c cs)
  then have d: "set (offs c) \<inter> (\<Union>e \<in> set cs. set (offs e)) = {}" by auto
  have "off c \<notin> off ` set cs"
  proof
    assume "off c \<in> off ` set cs"
    then obtain e where e: "e \<in> set cs" "off c = off e" by auto
    then have "off c \<in> set (offs e)" by simp
    then show False using d e(1) off_in_offs [of c] by blast
  qed
  then show ?case using Cons by auto
qed simp

lemma off_plugs_cong: "off t = off t' \<Longrightarrow> off (plugs C t) = off (plugs C t')"
  by (simp add: off_plugs)

lemma view_frame_holds:
  "view_at s' = (view_at s)(a \<mapsto> v) \<Longrightarrow> a \<notin> fst ` set E \<Longrightarrow> holds s E \<Longrightarrow> holds s' E"
  by (erule holds_frame) auto

text \<open>What a pending insertion says about the innermost page of its path.\<close>

lemma pending_Frame:
  assumes "pending s (Frame a ls rs # D) l k r"
  defines "cst \<equiv> map fst ls @ l # r # map snd rs"
  shows "view_at s a = Some (Node_view (par_of D) (map (off \<circ> fst) ls @ off l # map (off \<circ> snd) rs)
      (map snd ls @ map fst rs))"
    and "holds s (concat (map (expected a) cst))" "holds s (path_exp a D)"
    and "distinct (a # concat (map offs cst) @ map fst (path_exp a D))"
    and "list_all wff D" "\<forall>c \<in> set cst. wfn c" "length ls + length rs \<le> INTERNAL_MAX"
    and "rooted s (off (plugs D (plug (Frame a ls rs) l)))"
proof -
  note p = assms(1) [unfolded pending_def]
  from p show "view_at s a = Some (Node_view (par_of D) (map (off \<circ> fst) ls @ off l # map (off \<circ> snd) rs)
      (map snd ls @ map fst rs))" by simp
  from p show "holds s (concat (map (expected a) cst))" by (simp add: cst_def)
  from p show "holds s (path_exp a D)" by simp
  from p have "distinct (a # map fst (concat (map (expected a \<circ> fst) ls)) @
      map fst (concat (map (expected a \<circ> snd) rs)) @ map fst (path_exp a D) @ offs l @ offs r)"
    by simp
  moreover have "map fst (concat (map (expected a \<circ> fst) ls)) = concat (map (offs \<circ> fst) ls)"
    "map fst (concat (map (expected a \<circ> snd) rs)) = concat (map (offs \<circ> snd) rs)"
    by (simp_all add: map_concat comp_def offs_expected)
  ultimately show "distinct (a # concat (map offs cst) @ map fst (path_exp a D))"
    by (auto simp: cst_def)
  from p show "list_all wff D" "\<forall>c \<in> set cst. wfn c" "length ls + length rs \<le> INTERNAL_MAX"
    "rooted s (off (plugs D (plug (Frame a ls rs) l)))"
    by (auto simp: cst_def)
qed

lemma pending_split:
  assumes kids: "holds s (concat (map (expected a) (tk @ dr)))" and path: "holds s (path_exp a D)"
    and dist: "distinct (a # concat (map offs (tk @ dr)) @ map fst (path_exp a D))"
    and a: "view_at s a \<noteq> None" and b: "view_at s b = None"
    and s': "view_at s' = (\<lambda>x. if x = b then Some (Node_view (par_of D) (map off dr) k2)
         else if x = a then Some (Node_view (par_of D) (map off tk) k1)
         else if x \<in> set (map off dr) then map_option (reparent_view b) (view_at s x)
         else view_at s x)"
    and wf: "list_all wff D" "\<forall>c \<in> set (tk @ dr). wfn c" "length tk = Suc (length k1)"
      "length dr = Suc (length k2)" "length k1 \<le> INTERNAL_MAX" "length k2 \<le> INTERNAL_MAX"
    and root: "rooted s' (off (plugs D t))" "off t = a"
  shows "pending s' D (Node a tk k1) k (Node b dr k2)"
proof -
  have sub: "off ` set dr \<subseteq> set (concat (map offs dr))" by auto
  have kb: "b \<notin> set (concat (map offs (tk @ dr)))"
  proof
    assume "b \<in> set (concat (map offs (tk @ dr)))"
    then obtain c where "c \<in> set (tk @ dr)" "b \<in> set (offs c)" by auto
    then show False using kids b holds_offs [of s a c b] by (auto simp: holds_concat)
  qed
  have pb: "b \<notin> fst ` set (path_exp a D)" using path b by (auto simp: holds_def)
  have ab: "a \<noteq> b" using a b by auto
  have fst_kids: "fst ` set (concat (map (expected a) cs)) = set (concat (map offs cs))" for cs
    by (auto simp: offs_expected [of a, symmetric])
  have "holds s' (path_exp a D)"
  proof (rule holds_frame [OF path])
    fix x
    assume x: "x \<in> fst ` set (path_exp a D)"
    then have "x \<noteq> a" "x \<noteq> b" "x \<notin> set (concat (map offs dr))" using dist pb by auto
    then show "view_at s' x = view_at s x" using sub by (auto simp: s')
  qed
  moreover have "holds s' (concat (map (expected a) tk))"
  proof (rule holds_frame)
    show "holds s (concat (map (expected a) tk))" using kids by simp
    fix x
    assume "x \<in> fst ` set (concat (map (expected a) tk))"
    then have x: "x \<in> set (concat (map offs tk))" unfolding fst_kids .
    then have "x \<noteq> a" "x \<noteq> b" "x \<notin> set (concat (map offs dr))" using dist kb by auto
    then show "view_at s' x = view_at s x" using sub by (auto simp: s')
  qed
  moreover have "holds s' (concat (map (expected b) dr))"
  proof (rule holds_reparented)
    show "holds s (concat (map (expected a) dr))" using kids by simp
    show "distinct (concat (map offs dr))" using dist by simp
    fix x
    assume "x \<in> set (concat (map offs dr))"
    then have "x \<noteq> a" "x \<noteq> b" using dist kb by auto
    then show "view_at s' x = (if x \<in> off ` set dr then map_option (reparent_view b) (view_at s x)
        else view_at s x)" by (simp add: s')
  qed
  moreover have "distinct (map fst (path_exp a D) @ offs (Node a tk k1) @ offs (Node b dr k2))"
    using dist kb pb ab by auto
  ultimately show ?thesis
    using wf root ab off_plugs_cong [of t "Node a tk k1" D]
    unfolding pending_def by (simp add: expected_def [of _ "Node _ _ _"] below_Node s')
qed

lemma insert_into_parent_ok:
  assumes "pending s C l k r" "length C < n"
  shows "\<exists>s' t'. insert_into_parent n (off l) k (off r) s = Inr s' \<and> tree_at s' t' \<and>
    flat t' = lflat C @ flat l @ [2 * k] @ flat r @ rflat C \<and>
    leaves t' = lleaves C @ leaves l @ leaves r @ rleaves C"
  using assms
proof (induction C arbitrary: s l k r n)
  case Nil
  then obtain m where n: "n = Suc m" by (cases n) auto
  obtain b s' where s': "insert_into_new_root (off l) k (off r) s = Inr s'" "tree_at s' (Node b [l, r] [k])"
    using insert_into_new_root_ok [OF Nil.prems(1)] .
  have "view_at s (off l) = Some (top 0 l)" using Nil.prems(1) by (simp add: pending_def expected_def)
  then obtain p where "load (off l) s = Inr p" "parent_page_offset p = 0"
    by (elim view_loadE) (metis parent_of_top parent_of_view)
  then have "insert_into_parent n (off l) k (off r) s = Inr s'" using s'(1) n by simp
  moreover have "flat (Node b [l, r] [k]) = lflat [] @ flat l @ [2 * k] @ flat r @ rflat []" by simp
  moreover have "leaves (Node b [l, r] [k]) = lleaves [] @ leaves l @ leaves r @ rleaves []" by simp
  ultimately show ?case using s'(2) by blast
next
  case (Cons f D)
  obtain m where n: "n = Suc m" "length D < m" using Cons.prems(2) by (cases n) auto
  obtain a ls rs where f: "f = Frame a ls rs" by (cases f)
  define cst where "cst = map fst ls @ l # r # map snd rs"
  define kst where "kst = map snd ls @ k # map fst rs"
  let ?xs = "map (off \<circ> fst) ls" and ?ys = "map (off \<circ> snd) rs" and ?ks = "map snd ls @ map fst rs"
  note pF = pending_Frame [OF Cons.prems(1) [unfolded f], folded cst_def]
  have two: "plug_two f l k r = Node a cst kst" by (simp add: f cst_def kst_def)
  have lens: "length cst = Suc (length kst)" "length kst = Suc (length ls + length rs)"
    by (simp_all add: cst_def kst_def)
  have dk: "distinct (concat (map offs cst))" and ak: "a \<notin> set (concat (map offs cst))"
    and dp: "a \<notin> fst ` set (path_exp a D)"
    "set (concat (map offs cst)) \<inter> fst ` set (path_exp a D) = {}" "distinct (map fst (path_exp a D))"
    using pF(4) by auto
  have vl: "view_at s (off l) = Some (top a l)" using pF(2) by (simp add: cst_def expected_def)
  obtain pl where pl: "load (off l) s = Inr pl" "parent_page_offset pl = a"
    using vl by (elim view_loadE) (metis parent_of_top parent_of_view)
  obtain p where p: "load a s = Inr p" "view_of p = Node_view (par_of D) (?xs @ off l # ?ys) ?ks"
    using pF(1) by (elim view_loadE)
  have np: "num_of_keys p = length ls + length rs" using view_of_Node [OF p(2)] by simp
  have a0: "a \<noteq> 0" using view_pos [OF pF(1)] .
  have "off l \<notin> set ?xs" using distinct_off [OF dk] by (simp add: cst_def)
  then have gl: "get_left_index (off l) s = Inr (int (length ls) - 1)"
    using get_left_index_view [OF vl parent_of_top pF(1)] by simp
  have cs': "take (Suc (length ls)) (?xs @ off l # ?ys) @ off r # drop (Suc (length ls)) (?xs @ off l # ?ys)
      = map off cst"
    and ks': "take (length ls) ?ks @ k # drop (length ls) ?ks = kst"
    by (simp_all add: cst_def kst_def)
  show ?case
  proof (cases "length ls + length rs < INTERNAL_MAX")
    case True
    obtain s' where s': "insert_into_internal a (int (length ls) - 1) k (off r) s = Inr s'"
      "rooted s' (off (plugs D (plug f l)))"
      "view_at s' = (view_at s)(a \<mapsto> Node_view (par_of D) (map off cst) kst)"
      using insert_into_internal_view [OF pF(1), of "length ls" _ k "off r"] pF(8) f
      unfolding cs' ks' by auto
    have "insert_into_parent n (off l) k (off r) s = Inr s'"
      using n pl a0 gl p(1) np True s'(1) by simp
    moreover have "tree_at s' (plugs D (plug_two f l k r))"
      unfolding tree_at_def
    proof (intro conjI)
      have "holds s' (path_exp a D)" using view_frame_holds [OF s'(3) dp(1) pF(3)] .
      moreover have "holds s' (concat (map (expected a) cst))"
      proof (rule view_frame_holds [OF s'(3) _ pF(2)])
        have "fst ` set (concat (map (expected a) cst)) = set (concat (map offs cst))"
          by (auto simp: offs_expected [of a, symmetric])
        then show "a \<notin> fst ` set (concat (map (expected a) cst))" using ak by simp
      qed
      ultimately show "holds s' (expected 0 (plugs D (plug_two f l k r)))"
        using s'(3) unfolding holds_plugs two by (simp add: expected_def [of _ "Node _ _ _"] below_Node)
      show "distinct (offs (plugs D (plug_two f l k r)))"
        using pF(4) unfolding distinct_plugs two by auto
      show "wfn (plugs D (plug_two f l k r))"
        using pF(5,6) lens True unfolding wfn_plugs two by simp
      show "rooted s' (off (plugs D (plug_two f l k r)))"
        using s'(2) off_plugs_cong [of "plug f l" "plug_two f l k r" D] f by simp
    qed
    moreover have "flat (plugs D (plug_two f l k r)) =
        lflat (f # D) @ flat l @ [2 * k] @ flat r @ rflat (f # D)"
      by (simp add: flat_plugs flat_plug_two lflat_Cons [of f D] rflat_Cons [of f D])
    moreover have "leaves (plugs D (plug_two f l k r)) = lleaves (f # D) @ leaves l @ leaves r @ rleaves (f # D)"
      by (simp add: leaves_plugs leaves_plug_two lleaves_Cons [of f D] rleaves_Cons [of f D])
    ultimately show ?thesis by blast
  next
    case False
    then have full: "length ls + length rs = INTERNAL_MAX" using pF(7) by simp
    have kids: "distinct (drop 13 (map off cst))" "a \<notin> set (drop 13 (map off cst))"
      "\<And>x. x \<in> set (drop 13 (map off cst)) \<Longrightarrow> view_at s x \<noteq> None"
    proof -
      show "distinct (drop 13 (map off cst))" using distinct_off [OF dk] by (rule distinct_drop)
      have sub: "off ` set cst \<subseteq> set (concat (map offs cst))" by auto
      have in_cst: "x \<in> off ` set cst" if "x \<in> set (drop 13 (map off cst))" for x
        using in_set_dropD [OF that] by simp
      then show "a \<notin> set (drop 13 (map off cst))" using ak sub by blast
      show "view_at s x \<noteq> None" if "x \<in> set (drop 13 (map off cst))" for x
        using in_cst [OF that] pF(2) by (auto simp: holds_concat expected_def)
    qed
    obtain b s' where s': "split_internal a (int (length ls) - 1) k (off r) s = Inr ((kst ! 12, b), s')"
      "rooted s' (off (plugs D (plug f l)))" "b = page_off (length (pages s))"
      "length (pages s') = Suc (length (pages s))"
      "view_at s' = (\<lambda>x. if x = b then Some (Node_view (par_of D) (drop 13 (map off cst)) (drop 13 kst))
         else if x = a then Some (Node_view (par_of D) (take 13 (map off cst)) (take 12 kst))
         else if x \<in> set (drop 13 (map off cst)) then map_option (reparent_view b) (view_at s x)
         else view_at s x)"
      using split_internal_view [OF pF(1) _ _ _ pF(8) cs' [symmetric] ks' [symmetric] kids] full f by auto
    let ?l = "Node a (take 13 cst) (take 12 kst)" and ?r = "Node b (drop 13 cst) (drop 13 kst)"
    have cst: "take 13 cst @ drop 13 cst = cst" by simp
    have "pending s' D ?l (kst ! 12) ?r"
    proof (rule pending_split [where s = s and t = "plug f l"])
      show "view_at s' = (\<lambda>x. if x = b then Some (Node_view (par_of D) (map off (drop 13 cst)) (drop 13 kst))
         else if x = a then Some (Node_view (par_of D) (map off (take 13 cst)) (take 12 kst))
         else if x \<in> set (map off (drop 13 cst)) then map_option (reparent_view b) (view_at s x)
         else view_at s x)" using s'(5) by (simp only: take_map drop_map)
      show "view_at s b = None" using s'(3) view_fresh by simp
    qed (use pF s'(2) lens full f in \<open>simp_all only: cst, simp_all add: INTERNAL_MAX_def\<close>)
    from Cons.IH [OF this n(2)] obtain s'' t' where
      t': "insert_into_parent m a (kst ! 12) b s' = Inr s''" "tree_at s'' t'"
        "flat t' = lflat D @ flat ?l @ [2 * kst ! 12] @ flat ?r @ rflat D"
        "leaves t' = lleaves D @ leaves ?l @ leaves ?r @ rleaves D"
      by auto
    have "insert_into_parent n (off l) k (off r) s = Inr s''"
      using n pl a0 gl p(1) np full s'(1) t'(1) by simp
    moreover have k12: "kst = take 12 kst @ kst ! 12 # drop 13 kst"
      using lens full Cons_nth_drop_Suc [of 12 kst] by (simp add: INTERNAL_MAX_def)
    have "flat ?l @ [2 * kst ! 12] @ flat ?r = weave (map flat (take 13 cst @ drop 13 cst)) kst"
      using lens full
      by (subst (3) k12, subst map_append, subst weave_split) (simp_all add: INTERNAL_MAX_def)
    then have "flat ?l @ [2 * kst ! 12] @ flat ?r = flat (plug_two f l k r)" by (simp add: two)
    then have "flat t' = lflat (f # D) @ flat l @ [2 * k] @ flat r @ rflat (f # D)"
      using t'(3) by (simp add: flat_plug_two lflat_Cons [of f D] rflat_Cons [of f D])
    moreover have "leaves ?l @ leaves ?r = leaves (plug_two f l k r)"
      by (simp add: two flip: concat_append map_append)
    then have "leaves t' = lleaves (f # D) @ leaves l @ leaves r @ rleaves (f # D)"
      using t'(4) by (simp add: leaves_plug_two lleaves_Cons [of f D] rleaves_Cons [of f D])
    ultimately show ?thesis using t'(2) by blast
  qed
qed

end
