(* ===== verification/Bpt_Spec.thy ===== *)
theory Bpt_Spec
  imports Bpt_Tree
begin

text \<open>
  What the operations of the B+ tree do to the records of a well-formed table: a search reads
  them, an insertion adds one, a deletion marks or removes one.  The invariant \<open>table_ok\<close> ties
  the file to a tree whose records and separators are strictly sorted.
\<close>

section \<open>Well-formed tables\<close>

definition recs :: "bnode \<Rightarrow> rcd list" where
  "recs t = concat (leaves t)"

text \<open>A leaf other than the root holds at least \<open>cut(LEAF_MAX)\<close> records, the root at least one.\<close>

fun roomy :: "bnode \<Rightarrow> bool" where
  "roomy (Leaf a rs) \<longleftrightarrow> rs \<noteq> []"
| "roomy (Node a cs ks) \<longleftrightarrow> (\<forall>l \<in> set (leaves (Node a cs ks)). cut LEAF_MAX \<le> length l)"

definition table_ok :: "table \<Rightarrow> bnode \<Rightarrow> bool" where
  "table_ok s t \<longleftrightarrow> tree_at s t \<and> sorted_wrt (<) (flat t) \<and> roomy t"

text \<open>What the records say about a key.\<close>

definition lookup :: "int \<Rightarrow> rcd list \<Rightarrow> string option" where
  "lookup key rs =
     (case find (\<lambda>r. rkey r = key) rs of None \<Rightarrow> None
      | Some r \<Rightarrow> if logical_del r = 1 then None else Some (rvalue r))"

lemma in_weave: "x \<in> set xs \<Longrightarrow> xs \<in> set ys \<Longrightarrow> x \<in> set (weave ys ks)"
  by (induction ys ks rule: weave.induct) auto

lemma leaves_flat: "l \<in> set (leaves t) \<Longrightarrow> r \<in> set l \<Longrightarrow> key_rank r \<in> set (flat t)"
proof (induction t)
  case (Node a cs ks)
  then obtain c where c: "c \<in> set cs" "l \<in> set (leaves c)" by auto
  with Node have "key_rank r \<in> set (flat c)" by blast
  then show ?case using c(1) in_weave [of _ "flat c" "map flat cs"] by auto
qed simp

lemma lleaves_flat: "l \<in> set (lleaves C) \<Longrightarrow> r \<in> set l \<Longrightarrow> key_rank r \<in> set (lflat C)"
  by (induction C rule: lflat.induct) (auto dest: leaves_flat)

lemma rleaves_flat: "l \<in> set (rleaves C) \<Longrightarrow> r \<in> set l \<Longrightarrow> key_rank r \<in> set (rflat C)"
  by (induction C rule: rflat.induct) (fastforce dest: leaves_flat)+

lemma recs_plugs_Leaf: "recs (plugs C (Leaf a rs)) = concat (lleaves C) @ rs @ concat (rleaves C)"
  by (simp add: recs_def leaves_plugs)

lemma find_append_None: "find P xs = None \<Longrightarrow> find P (xs @ ys) = find P ys"
  by (induction xs) auto

lemma find_append_right: "find P ys = None \<Longrightarrow> find P (xs @ ys) = find P xs"
  by (induction xs) auto

section \<open>Search\<close>

lemma plugs_append: "plugs (C @ [f]) t = plug f (plugs C t)"
  by (induction C arbitrary: t) auto

lemma flat_append: "lflat (C @ [f]) = lflat [f] @ lflat C" "rflat (C @ [f]) = rflat C @ rflat [f]"
proof (induction C)
  case (Cons g C)
  case 1
  show ?case using Cons.IH(1) by (simp add: lflat_Cons [of g "C @ [f]"] lflat_Cons [of g C])
next
  case (Cons g C)
  case 2
  show ?case using Cons.IH(2) by (simp add: rflat_Cons [of g "C @ [f]"] rflat_Cons [of g C])
qed simp_all

text \<open>The path \<open>C\<close> to a subtree is the way to \<open>key\<close>.\<close>

definition on_way :: "int \<Rightarrow> path_frame list \<Rightarrow> bool" where
  "on_way key C \<longleftrightarrow> (\<forall>x \<in> set (lflat C). x < 2 * key + 1) \<and> (\<forall>x \<in> set (rflat C). 2 * key + 1 < x)"

lemma on_way_append: "on_way key (C @ [f]) \<longleftrightarrow> on_way key C \<and> on_way key [f]"
  by (auto simp: on_way_def flat_append)

definition frame_at :: "nat \<Rightarrow> nat \<Rightarrow> bnode list \<Rightarrow> int list \<Rightarrow> path_frame" where
  "frame_at i a cs ks = Frame a (zip (take i cs) (take i ks)) (zip (drop i ks) (drop (Suc i) cs))"

lemma sorted_head: "sorted_wrt (<) (y # zs) \<Longrightarrow> x \<in> set (y # zs) \<Longrightarrow> y \<le> (x :: int)"
  by auto

lemma sorted_last: "sorted_wrt (<) (zs @ [y]) \<Longrightarrow> x \<in> set (zs @ [y]) \<Longrightarrow> x \<le> (y :: int)"
  by (auto simp: sorted_wrt_append)

lemma plug_frame_at:
  "length cs = Suc (length ks) \<Longrightarrow> i \<le> length ks \<Longrightarrow> plug (frame_at i a cs ks) (cs ! i) = Node a cs ks"
  by (simp add: frame_at_def id_take_nth_drop [symmetric])

lemma on_way_frame_at:
  assumes "length cs = Suc (length ks)" "i \<le> length ks" "sorted_wrt (<) (flat (Node a cs ks))"
    and "0 < i \<Longrightarrow> ks ! (i - 1) \<le> key" "i < length ks \<Longrightarrow> key < ks ! i"
  shows "on_way key [frame_at i a cs ks]"
proof -
  let ?f = "frame_at i a cs ks"
  have "flat (Node a cs ks) = lflat [?f] @ flat (cs ! i) @ rflat [?f]"
    using flat_plug [of ?f "cs ! i"] plug_frame_at [OF assms(1,2)] by simp
  then have s: "sorted_wrt (<) (lflat [?f])" "sorted_wrt (<) (rflat [?f])"
    using assms(3) by (auto simp: sorted_wrt_append)
  have "x < 2 * key + 1" if x: "x \<in> set (lflat [?f])" for x
  proof (cases i)
    case 0
    then show ?thesis using x by (simp add: frame_at_def)
  next
    case (Suc j)
    have "lflat [?f] = concat (map (\<lambda>(c, k). flat c @ [2 * k]) (zip (take j cs) (take j ks))) @
        flat (cs ! j) @ [2 * ks ! j]" (is "_ = ?u")
      using Suc assms(1,2) by (simp add: frame_at_def take_Suc_conv_app_nth)
    then have "x \<le> 2 * ks ! j"
      using sorted_last [of "_ @ flat (cs ! j)"] s(1) x by (metis append_assoc)
    then show ?thesis using assms(4) Suc by simp
  qed
  moreover have "2 * key + 1 < x" if x: "x \<in> set (rflat [?f])" for x
  proof (cases "i < length ks")
    case False
    then show ?thesis using x by (simp add: frame_at_def)
  next
    case True
    then have "zip (drop i ks) (drop (Suc i) cs) =
        (ks ! i, cs ! Suc i) # zip (drop (Suc i) ks) (drop (Suc (Suc i)) cs)"
      using assms(1) by (simp flip: Cons_nth_drop_Suc)
    then have "rflat [?f] = 2 * ks ! i # flat (cs ! Suc i) @
        concat (map (\<lambda>(k, c). 2 * k # flat c) (zip (drop (Suc i) ks) (drop (Suc (Suc i)) cs)))"
      by (simp add: frame_at_def)
    then have "2 * ks ! i \<le> x" using sorted_head s(2) x by metis
    then show ?thesis using assms(5) True by simp
  qed
  ultimately show ?thesis by (simp add: on_way_def)
qed

lemma child_for_view:
  assumes "view_of p = Node_view par (map off cs) ks" "length cs = Suc (length ks)"
  obtains i where "child_for key p = off (cs ! i)" "i \<le> length ks"
    "0 < i \<Longrightarrow> ks ! (i - 1) \<le> key" "i < length ks \<Longrightarrow> key < ks ! i"
proof -
  note pv = view_of_Node [OF assms(1)]
  let ?i = "scan (\<lambda>i. key \<ge> ikey (b_f p i)) (num_of_keys p) 0"
  have b: "?i \<le> length ks" using scan_bounds [of 0 "num_of_keys p"] pv by simp
  have k: "ikey (b_f p i) = ks ! i" if "i < length ks" for i
    using pv nth_map_upt [of ks "\<lambda>i. ikey (b_f p i)" i] that by blast
  have c: "p_offset (b_f p i) = off (cs ! Suc i)" if "i < length ks" for i
  proof -
    have "tl (map off cs) = map (\<lambda>i. p_offset (b_f p i)) [0..<length ks]" using pv by (metis list.sel(3))
    then have "tl (map off cs) ! i = p_offset (b_f p i)" using that by simp
    then show ?thesis using that assms(2) by (simp add: nth_tl)
  qed
  show thesis
  proof (rule that [of ?i])
    have "next_offset p = off (cs ! 0)" using pv assms(2) by (cases cs) auto
    moreover have "p_offset (b_f p (?i - 1)) = off (cs ! ?i)" if "?i \<noteq> 0"
      using that b c [of "?i - 1"] by simp
    ultimately show "child_for key p = off (cs ! ?i)"
      unfolding child_for_def Let_def by (cases "?i = 0") simp_all
    show "ks ! (?i - 1) \<le> key" if "0 < ?i"
    proof -
      have "key \<ge> ikey (b_f p (?i - 1))"
        by (rule scan_before [of 0 _ "\<lambda>i. key \<ge> ikey (b_f p i)" "num_of_keys p"]) (use that in simp_all)
      then show ?thesis using that b k [of "?i - 1"] by simp
    qed
    show "key < ks ! ?i" if "?i < length ks"
    proof -
      have "\<not> key \<ge> ikey (b_f p ?i)" by (rule scan_stops) (use that pv in simp)
      then show ?thesis using that k [of ?i] by simp
    qed
  qed (rule b)
qed

lemma child_offs_le: "c \<in> set cs \<Longrightarrow> length (offs c) \<le> length (concat (map offs cs))"
  by (induction cs) auto

lemma descend_ok:
  assumes "holds s (expected par t)" "wfn t" "sorted_wrt (<) (flat t)" "length (offs t) \<le> n"
  shows "\<exists>C a rs. t = plugs C (Leaf a rs) \<and> descend n key (off t) s = Inr a \<and> on_way key C"
  using assms
proof (induction t arbitrary: par n)
  case (Leaf a rs)
  then obtain m where n: "n = Suc m" by (cases n) auto
  from Leaf.prems(1) obtain p where "load a s = Inr p" "view_of p = Leaf_view par rs"
    by (auto simp: expected_def elim: view_loadE)
  then have "descend n key (off (Leaf a rs)) s = Inr a" using n view_of_Leaf by fastforce
  moreover have "Leaf a rs = plugs [] (Leaf a rs)" "on_way key []" by (simp_all add: on_way_def)
  ultimately show ?case by blast
next
  case (Node a cs ks)
  then obtain m where n: "n = Suc m" by (cases n) auto
  from Node.prems(1) obtain p where p: "load a s = Inr p" "view_of p = Node_view par (map off cs) ks"
    by (auto simp: expected_def elim: view_loadE)
  have len: "length cs = Suc (length ks)" using Node.prems(2) by simp
  obtain i where i: "child_for key p = off (cs ! i)" "i \<le> length ks"
      "0 < i \<Longrightarrow> ks ! (i - 1) \<le> key" "i < length ks \<Longrightarrow> key < ks ! i"
    using child_for_view [OF p(2) len] by metis
  let ?f = "frame_at i a cs ks"
  have w: "on_way key [?f]" using on_way_frame_at [OF len i(2) Node.prems(3) i(3,4)] by simp
  have c: "cs ! i \<in> set cs" using i(2) len by simp
  have "holds s (expected a (cs ! i))"
    using Node.prems(1) c by (auto simp: expected_def [of par] below_Node holds_concat)
  moreover have "wfn (cs ! i)" using Node.prems(2) c by simp
  moreover have "sorted_wrt (<) (flat (cs ! i))"
    using Node.prems(3) flat_plug [of ?f "cs ! i"] plug_frame_at [OF len i(2), of a]
    by (simp add: sorted_wrt_append)
  moreover have "length (offs (cs ! i)) \<le> m"
  proof -
    have "length (offs (cs ! i)) \<le> length (concat (map offs cs))" using c by (rule child_offs_le)
    then show ?thesis using Node.prems(4) n by simp
  qed
  ultimately obtain C b rs where C: "cs ! i = plugs C (Leaf b rs)"
      "descend m key (off (cs ! i)) s = Inr b" "on_way key C"
    using Node.IH [OF c] by blast
  have "Node a cs ks = plugs (C @ [?f]) (Leaf b rs)"
    using plug_frame_at [OF len i(2), of a] C(1) by (simp add: plugs_append)
  moreover have "descend n key (off (Node a cs ks)) s = Inr b"
    using n p(1) i(1) C(2) view_of_Node [OF p(2)] by simp
  moreover have "on_way key (C @ [?f])" using C(3) w by (simp add: on_way_append)
  ultimately show ?case by blast
qed


lemma holds_length:
  assumes "holds s E" "distinct (map fst E)"
  shows "length E \<le> length (pages s)"
proof -
  have "fst ` set E \<subseteq> page_off ` {..<length (pages s)}"
  proof
    fix a
    assume "a \<in> fst ` set E"
    with assms(1) have "view_at s a \<noteq> None" by (auto simp: holds_def)
    then show "a \<in> page_off ` {..<length (pages s)}"
      by (auto simp: view_at_def page_no_Some split: option.splits if_splits)
  qed
  then have "card (fst ` set E) \<le> card (page_off ` {..<length (pages s)})"
    by (intro card_mono) auto
  also have "\<dots> \<le> length (pages s)" using card_image_le [of "{..<length (pages s)}" page_off] by simp
  finally show ?thesis using distinct_card [OF assms(2)] by simp
qed

lemma offs_le_pages:
  "holds s (expected par t) \<Longrightarrow> distinct (offs t) \<Longrightarrow> length (offs t) \<le> length (pages s)"
  using holds_length [of s "expected par t"] by (metis length_map offs_expected)

lemma find_leaf_ok:
  assumes "table_ok s t"
  obtains C a rs where "t = plugs C (Leaf a rs)" "find_leaf key s = Inr a" "on_way key C"
proof -
  have "holds s (expected 0 t)" "wfn t" "sorted_wrt (<) (flat t)" "distinct (offs t)"
    and r: "rooted s (off t)"
    using assms by (simp_all add: table_ok_def tree_at_def)
  then obtain C a rs where "t = plugs C (Leaf a rs)" "descend (search_fuel s) key (off t) s = Inr a"
      "on_way key C"
    using descend_ok [of s 0 t "search_fuel s" key] offs_le_pages [of s 0 t]
    by (auto simp: search_fuel_def)
  then show thesis using that r by (auto simp: find_leaf_def rooted_def)
qed

lemma leaf_at_plugs:
  assumes "holds s (expected 0 (plugs C (Leaf a rs)))"
  obtains p where "load a s = Inr p" "view_of p = Leaf_view (par_of C) rs"
    "view_at s a = Some (Leaf_view (par_of C) rs)"
  using assms unfolding holds_plugs by (auto simp: expected_def elim: view_loadE)

lemma on_way_keys:
  assumes "on_way key C"
  shows "\<And>r. r \<in> set (concat (lleaves C)) \<Longrightarrow> rkey r < key"
    and "\<And>r. r \<in> set (concat (rleaves C)) \<Longrightarrow> key < rkey r"
  using assms by (auto simp: on_way_def key_rank_def dest!: lleaves_flat rleaves_flat)

lemma lookup_on_way:
  assumes "on_way key C"
  shows "lookup key (recs (plugs C (Leaf a rs))) = lookup key rs"
proof -
  have l: "find (\<lambda>r. rkey r = key) (concat (lleaves C)) = None"
    and r: "find (\<lambda>r. rkey r = key) (concat (rleaves C)) = None"
    using on_way_keys [OF assms] by (auto simp: find_None_iff)
  show ?thesis
    by (simp add: lookup_def recs_plugs_Leaf find_append_None [OF l] find_append_right [OF r])
qed

lemma lookup_scan:
  assumes "i = scan (\<lambda>i. rkey (f i) \<noteq> key) n 0"
  shows "lookup key (map f [0..<n]) =
    (if i = n then None else if logical_del (f i) = 1 then None else Some (rvalue (f i)))"
proof -
  have i: "i \<le> n" "\<And>j. j < i \<Longrightarrow> rkey (f j) \<noteq> key" "i < n \<Longrightarrow> rkey (f i) = key"
    using scan_bounds [of 0 n] scan_before [of 0 _ "\<lambda>i. rkey (f i) \<noteq> key" n]
      scan_stops [of "\<lambda>i. rkey (f i) \<noteq> key" n 0] by (auto simp: assms)
  have "[0..<n] = [0..<i] @ [i..<n]" using i(1) upt_add_eq_append [of 0 i "n - i"] by simp
  moreover have "find (\<lambda>r. rkey r = key) (map f [0..<i]) = None"
    using i(2) by (auto simp: find_None_iff)
  ultimately have "lookup key (map f [0..<n]) = lookup key (map f [i..<n])"
    by (simp add: lookup_def find_append_None)
  then show ?thesis using i(1,3) by (cases "i = n") (auto simp: lookup_def upt_conv_Cons)
qed

lemma db_find_ok:
  assumes "table_ok s t"
  shows "db_find key s = Inr (lookup key (recs t))"
proof -
  obtain C a rs where C: "t = plugs C (Leaf a rs)" "find_leaf key s = Inr a" "on_way key C"
    using find_leaf_ok [OF assms] .
  obtain p where p: "load a s = Inr p" "view_of p = Leaf_view (par_of C) rs"
    using assms C(1) by (auto simp: table_ok_def tree_at_def elim: leaf_at_plugs)
  note pv = view_of_Leaf [OF p(2)]
  have "lookup key (recs t) = lookup key (map (records p) [0..<num_of_keys p])"
    using lookup_on_way [OF C(3), of a rs] C(1) pv by metis
  then show ?thesis using C(2) p(1) by (simp add: db_find_def Let_def lookup_scan [OF refl])
qed

section \<open>Changing one leaf\<close>

lemma replace_leaf:
  assumes "tree_at s (plugs C (Leaf a rs))" "view_at s' = (view_at s)(a \<mapsto> Leaf_view (par_of C) rs')"
    and "rooted s' (off (plugs C (Leaf a rs)))" "length rs' \<le> LEAF_MAX"
  shows "tree_at s' (plugs C (Leaf a rs'))"
proof -
  have h: "holds s (path_exp a C)" and d: "distinct (map fst (path_exp a C) @ [a])"
    and w: "list_all wff C"
    using assms(1) by (simp_all add: tree_at_def holds_plugs distinct_plugs wfn_plugs)
  have "a \<notin> fst ` set (path_exp a C)" using d by auto
  then have "holds s' (path_exp a C)" using view_frame_holds [OF assms(2) _ h] by simp
  then show ?thesis
    using d w assms(2-4) off_plugs_cong [of "Leaf a rs" "Leaf a rs'" C]
    unfolding tree_at_def holds_plugs distinct_plugs wfn_plugs
    by (simp add: expected_def [of _ "Leaf _ _"])
qed

lemma sorted_replace:
  assumes "sorted_wrt (<) (lflat C @ map key_rank rs @ rflat C)" "on_way key C"
    and "sorted_wrt (<) (map key_rank rs')" "\<And>r. r \<in> set rs' \<Longrightarrow> r \<in> set rs \<or> rkey r = key"
  shows "sorted_wrt (<) (lflat C @ map key_rank rs' @ rflat C)"
proof -
  have *: "(\<forall>x \<in> set (lflat C). x < key_rank r) \<and> (\<forall>x \<in> set (rflat C). key_rank r < x)"
    if "r \<in> set rs'" for r
    using assms(4) [OF that]
  proof
    assume "r \<in> set rs"
    then show ?thesis using assms(1) by (auto simp: sorted_wrt_append)
  next
    assume "rkey r = key"
    then show ?thesis using assms(2) by (simp add: on_way_def key_rank_def)
  qed
  have "x < key_rank r" if "x \<in> set (lflat C)" "r \<in> set rs'" for x r
    using * [OF that(2)] that(1) by blast
  moreover have "key_rank r < x" if "x \<in> set (rflat C)" "r \<in> set rs'" for x r
    using * [OF that(2)] that(1) by blast
  ultimately show ?thesis using assms(1,3) by (auto simp: sorted_wrt_append)
qed

lemma rank_less: "rkey x < rkey y \<Longrightarrow> key_rank x < key_rank y"
  by (simp add: key_rank_def)

lemma insert_position:
  assumes "rs = map f [0..<n]" "sorted_wrt (<) (map key_rank rs)" "rkey r \<notin> rkey ` set rs"
    and "ip = scan (\<lambda>i. rkey (f i) < rkey r) n 0"
  shows "ip \<le> n" "sorted_wrt (<) (map key_rank (take ip rs @ r # drop ip rs))"
proof -
  show ip: "ip \<le> n" using scan_bounds [of 0 n] assms(4) by simp
  have len: "length rs = n" using assms(1) by simp
  have l: "rkey x < rkey r" if x: "x \<in> set (take ip rs)" for x
  proof -
    have "take ip rs = map f [0..<ip]" using assms(1) ip by (simp add: take_map)
    then obtain j where "j < ip" "x = f j" using x by auto
    then show ?thesis using scan_before [of 0 j "\<lambda>i. rkey (f i) < rkey r" n] assms(4) by simp
  qed
  have g: "rkey r < rkey x" if x: "x \<in> set (drop ip rs)" for x
  proof (cases "ip < n")
    case True
    then have e: "drop ip rs = f ip # drop (Suc ip) rs"
      using Cons_nth_drop_Suc [of ip rs] len assms(1) by simp
    have "\<not> rkey (f ip) < rkey r" using scan_stops [of "\<lambda>i. rkey (f i) < rkey r" n 0] True assms(4) by simp
    moreover have "f ip \<in> set rs" using assms(1) True by simp
    then have "rkey (f ip) \<noteq> rkey r" using assms(3) by (metis imageI)
    moreover have "sorted_wrt (<) (map key_rank (take ip rs) @ map key_rank (drop ip rs))"
      using assms(2) by (simp flip: map_append)
    then have "rkey (f ip) \<le> rkey x" using x e by (auto simp: sorted_wrt_append key_rank_def)
    ultimately show ?thesis by simp
  qed (use x len in simp)
  have "sorted_wrt (<) (map key_rank (take ip rs) @ map key_rank (drop ip rs))"
    using assms(2) by (simp flip: map_append)
  then show "sorted_wrt (<) (map key_rank (take ip rs @ r # drop ip rs))"
    using l g rank_less by (auto simp: sorted_wrt_append)
qed

lemma lookup_insert:
  assumes "rkey r \<notin> rkey ` set xs"
  shows "lookup k (xs @ r # ys) =
    (if k = rkey r then if logical_del r = 1 then None else Some (rvalue r) else lookup k (xs @ ys))"
proof (cases "k = rkey r")
  case True
  then have "find (\<lambda>r. rkey r = k) xs = None" using assms by (auto simp: find_None_iff image_iff)
  then show ?thesis using True by (simp add: lookup_def find_append_None)
next
  case False
  then have "find (\<lambda>x. rkey x = k) (xs @ r # ys) = find (\<lambda>x. rkey x = k) (xs @ ys)"
    by (induction xs) auto
  then show ?thesis using False by (simp add: lookup_def)
qed

lemma insert_into_leaf_ok:
  assumes "tree_at s (plugs C (Leaf a rs))" "length rs < LEAF_MAX"
    and "load a s = Inr p" "ip = scan (\<lambda>i. rkey (records p i) < rkey r) (length rs) 0"
  obtains s' where "insert_into_leaf a r s = Inr s'"
    "tree_at s' (plugs C (Leaf a (take ip rs @ r # drop ip rs)))"
proof -
  have h: "holds s (expected 0 (plugs C (Leaf a rs)))"
    and r: "rooted s (off (plugs C (Leaf a rs)))" using assms(1) by (simp_all add: tree_at_def)
  from leaf_at_plugs [OF h] assms(3)
  have p: "view_of p = Leaf_view (par_of C) rs" and va: "view_at s a \<noteq> None" by auto
  note pv = view_of_Leaf [OF p]
  have ip: "ip \<le> length rs" using assms(4) scan_bounds [of 0 "length rs"] by simp
  let ?p = "p\<lparr>records := (shift_up ip (length rs) (records p))(ip := r), num_of_keys := Suc (length rs)\<rparr>"
  have "map (records p) [0..<length rs] = rs" using pv by metis
  then have v: "view_of ?p = Leaf_view (par_of C) (take ip rs @ r # drop ip rs)"
    using shift_up_list [OF ip, of "records p" r] pv by (simp add: view_of_def del: upt_Suc)
  obtain s' where s': "pwrite_page a ?p s = Inr s'" "view_at s' = (view_at s)(a \<mapsto> view_of ?p)"
      "same_rest s s'" using va by (elim pwrite_viewE)
  have "insert_into_leaf a r s = Inr s'"
    using assms(3,4) pv s'(1) by (simp add: insert_into_leaf_def Let_def)
  moreover have "tree_at s' (plugs C (Leaf a (take ip rs @ r # drop ip rs)))"
    by (rule replace_leaf [OF assms(1)])
      (use s'(2) v rooted_same_rest [OF s'(3) r] assms(2) ip in \<open>simp_all add: Suc_leI\<close>)
  ultimately show thesis using that by blast
qed

lemma fold_zero_key:
  "fold (\<lambda>i rs. rs(i := (rs i)\<lparr>rkey := 0\<rparr>)) [m..<n] f j =
     (if m \<le> j \<and> j < n then (f j)\<lparr>rkey := 0\<rparr> else f j)"
  by (induction n arbitrary: j) (auto simp: less_Suc_eq)

lemma path_length: "length C \<le> length (path_exp h C)"
proof (induction C arbitrary: h)
  case (Cons f C)
  then show ?case by (cases f) (simp add: le_SucI trans_le_add2)
qed simp

lemma path_fuel:
  assumes "holds s (path_exp h C)" "distinct (map fst (path_exp h C))"
  shows "length C \<le> length (pages s)"
  using holds_length [OF assms] path_length le_trans by blast


lemma split_leaf_ok:
  assumes "tree_at s (plugs C (Leaf a rs))" "length rs = LEAF_MAX"
    and "load a s = Inr p" "ip = scan (\<lambda>i. rkey (records p i) < rkey r) (length rs) 0"
    and "rs' = take ip rs @ r # drop ip rs"
  obtains b s' where "split_leaf a r s = Inr ((rkey (rs' ! 2), b), s')"
    "pending s' C (Leaf a (take 2 rs')) (rkey (rs' ! 2)) (Leaf b (drop 2 rs'))"
    "length (pages s') = Suc (length (pages s))"
proof -
  have h: "holds s (path_exp a C)" and d: "distinct (map fst (path_exp a C) @ [a])"
    and w: "list_all wff C" and root: "rooted s (off (plugs C (Leaf a rs)))"
    and ht: "holds s (expected 0 (plugs C (Leaf a rs)))"
    using assms(1) by (simp_all add: tree_at_def holds_plugs distinct_plugs wfn_plugs)
  from leaf_at_plugs [OF ht] assms(3)
  have p: "view_of p = Leaf_view (par_of C) rs" and va: "view_at s a = Some (Leaf_view (par_of C) rs)"
    by auto
  note pv = view_of_Leaf [OF p]
  have len: "length rs = 3" and LM: "LEAF_MAX = 3" using assms(2) by (simp_all add: LEAF_MAX_def)
  have cut: "cut 3 = 2" by (simp add: cut_def)
  have ip: "ip \<le> 3" using assms(4) scan_bounds [of 0 "length rs"] len by simp
  have len': "length rs' = 4" using len ip assms(5) by simp
  define temp where "temp = (spread_slots ip 3 (records p) (\<lambda>_. zero_rcd))(ip := r)"
  have "map (records p) [0..<3] = rs" using pv len by metis
  then have t: "map temp [0..<4] = rs'"
    using spread_slots_list [OF ip, of "records p" "\<lambda>_. zero_rcd" r] assms(5) temp_def by simp
  then have rs': "rs' = [temp 0, temp 1, temp 2, temp 3]"
    by (simp add: upt_conv_Cons numeral_2_eq_2 numeral_3_eq_3)
  obtain b s1 where s1: "new_page s = Inr (b, s1)" "b = page_off (length (pages s))"
      "view_at s1 = (view_at s)(b \<mapsto> Node_view 0 [0] [])" "load b s1 = Inr blank_page"
      "fpo (hp s1) = 0" "rpo (hp s1) = rpo (hp s)" "disk_hp s1 = hp s1" "rt s1 = rt s"
      "pages s1 = pages s @ [blank_page]"
    using root new_page_viewE [of s] by (auto simp: rooted_def)
  have fresh: "view_at s b = None" using s1(2) view_fresh by simp
  then have ba: "b \<noteq> a" using va by auto
  have bp: "b \<notin> fst ` set (path_exp a C)" using h fresh by (auto simp: holds_def)
  have va1: "view_at s1 a = Some (Leaf_view (par_of C) rs)" using va ba s1(3) by simp
  obtain q where q: "load a s1 = Inr q" "view_of q = Leaf_view (par_of C) rs"
    using va1 by (elim view_loadE)
  have "load a s1 = Inr p" using assms(3) s1(9) by (auto simp: load_iff nth_append)
  then have qp: "q = p" using q(1) by simp
  let ?zk = "\<lambda>i rs. rs(i := (rs i)\<lparr>rkey := 0\<rparr>)"
  let ?ol = "p\<lparr>num_of_keys := 2, next_offset := b,
    records := fold ?zk [2..<3] (copy_slots 0 2 0 temp (records p))\<rparr>"
  let ?nl = "blank_page\<lparr>is_leaf := True, records := fold ?zk [2..<3] (copy_slots 2 4 2 temp (\<lambda>_. zero_rcd)),
    num_of_keys := 2, next_offset := next_offset p, parent_page_offset := par_of C\<rparr>"
  have vo: "view_of ?ol = Leaf_view (par_of C) (take 2 rs')"
    using pv rs' by (simp add: view_of_def fold_zero_key copy_slots_apply upt_conv_Cons)
  have vn: "view_of ?nl = Leaf_view (par_of C) (drop 2 rs')"
    using rs' by (simp add: view_of_def blank_page_def fold_zero_key copy_slots_apply upt_conv_Cons
        numeral_2_eq_2 numeral_3_eq_3)
  obtain s2 where s2: "pwrite_page b ?nl s1 = Inr s2" "view_at s2 = (view_at s1)(b \<mapsto> view_of ?nl)"
      "same_rest s1 s2" using s1(3) by (elim pwrite_viewE [of s1 b ?nl, rotated]) simp
  obtain s3 where s3: "pwrite_page a ?ol s2 = Inr s3" "view_at s3 = (view_at s2)(a \<mapsto> view_of ?ol)"
      "same_rest s2 s3" using va1 s2(2) ba by (elim pwrite_viewE [of s2 a ?ol, rotated]) simp
  have "scan (\<lambda>i. rkey (records p i) < rkey r) 3 0 = ip" using assms(4) len by simp
  moreover have "(spread_slots ip 3 (records p) (\<lambda>_. zero_rcd))(ip := r) = temp"
    by (simp add: temp_def)
  ultimately have "split_leaf a r s = Inr ((rkey (rs' ! 2), b), s3)"
    using s1(1,4) q(1) qp len pv s2(1) s3(1) rs'
    unfolding split_leaf_def LM
    by (simp add: Let_def cut blank_page_def fold_zero_key copy_slots_apply numeral_2_eq_2 [symmetric]
        cong: let_weak_cong call_weak_cong)
  moreover have "pending s3 C (Leaf a (take 2 rs')) (rkey (rs' ! 2)) (Leaf b (drop 2 rs'))"
  proof -
    have "holds s3 (path_exp a C)"
      by (rule holds_frame [OF h]) (use d bp s1(3) s2(2) s3(2) in auto)
    moreover have "rooted s3 (off (plugs C (Leaf a (take 2 rs'))))"
      using root s1 off_plugs_cong [of "Leaf a rs" "Leaf a (take 2 rs')" C]
        rooted_same_rest [OF s3(3)] rooted_same_rest [OF s2(3)]
      by (auto simp: rooted_def)
    ultimately show ?thesis
      using d bp ba w len' s2(2) s3(2) vo vn
      by (simp add: pending_def expected_def LM)
  qed
  moreover have "length (pages s3) = Suc (length (pages s))"
    using s1(9) s2(3) s3(3) by (simp add: same_rest_def)
  ultimately show thesis using that by blast
qed

section \<open>Insertion\<close>

lemma tree_path_fuel: "tree_at s (plugs C (Leaf a rs)) \<Longrightarrow> length C \<le> length (pages s)"
  by (rule path_fuel [of s a C]) (simp_all add: tree_at_def holds_plugs distinct_plugs)

lemma insert_into_leaf_as_ok:
  assumes "tree_at s (plugs C (Leaf a rs))" "length rs = LEAF_MAX"
    and "load a s = Inr p" "ip = scan (\<lambda>i. rkey (records p i) < rkey r) (length rs) 0"
    and "rs' = take ip rs @ r # drop ip rs"
  obtains s' t' where "insert_into_leaf_as a r s = Inr s'" "tree_at s' t'"
    "flat t' = lflat C @ map key_rank (take 2 rs') @ 2 * rkey (rs' ! 2) # map key_rank (drop 2 rs') @ rflat C"
    "leaves t' = lleaves C @ [take 2 rs', drop 2 rs'] @ rleaves C"
proof -
  obtain b s1 where s1: "split_leaf a r s = Inr ((rkey (rs' ! 2), b), s1)"
    "pending s1 C (Leaf a (take 2 rs')) (rkey (rs' ! 2)) (Leaf b (drop 2 rs'))"
    "length (pages s1) = Suc (length (pages s))"
    using split_leaf_ok [OF assms] .
  have "length C < search_fuel s1"
    using tree_path_fuel [OF assms(1)] s1(3) by (simp add: search_fuel_def)
  from insert_into_parent_ok [OF s1(2) this] that s1(1) show thesis
    by (auto simp: insert_into_leaf_as_def)
qed

text \<open>A separator can go in front of any record of a sorted list.\<close>

lemma sorted_separator:
  assumes "sorted_wrt (<) (xs @ key_rank q # key_rank r # ys)"
  shows "sorted_wrt (<) (xs @ key_rank q # 2 * rkey r # key_rank r # ys)"
proof -
  have "x < 2 * rkey r" if "x \<in> set xs" for x
    using assms that by (fastforce simp: sorted_wrt_append key_rank_def)
  moreover have "rkey q < rkey r" using assms by (auto simp: sorted_wrt_append key_rank_def)
  then have "key_rank q < 2 * rkey r" "2 * rkey r < key_rank r" by (simp_all add: key_rank_def)
  moreover have "2 * rkey r < y" if "y \<in> set ys" for y
    using assms that by (auto simp: sorted_wrt_append key_rank_def)
  ultimately show ?thesis using assms by (auto simp: sorted_wrt_append)
qed

lemma roomyI: "(\<And>l. l \<in> set (leaves t) \<Longrightarrow> cut LEAF_MAX \<le> length l) \<Longrightarrow> roomy t"
  by (cases t) (auto simp: cut_def LEAF_MAX_def)

lemma plugs_Node: "C \<noteq> [] \<Longrightarrow> \<exists>a cs ks. plugs C t = Node a cs ks"
proof (induction C arbitrary: t)
  case (Cons f C)
  then show ?case by (cases f; cases "C = []") auto
qed simp

lemma roomy_plugs:
  assumes "roomy (plugs C (Leaf a rs))"
  shows "C \<noteq> [] \<Longrightarrow> l \<in> set (lleaves C) \<union> {rs} \<union> set (rleaves C) \<Longrightarrow> cut LEAF_MAX \<le> length l"
    and "rs \<noteq> []"
proof -
  have *: "cut LEAF_MAX \<le> length l"
    if C: "C \<noteq> []" and l: "l \<in> set (lleaves C) \<union> {rs} \<union> set (rleaves C)" for l
  proof -
    obtain b cs ks where n: "plugs C (Leaf a rs) = Node b cs ks"
      using plugs_Node [OF C, of "Leaf a rs"] by blast
    have "l \<in> set (leaves (plugs C (Leaf a rs)))" using l by (auto simp: leaves_plugs)
    then show ?thesis using assms unfolding n by auto
  qed
  then show "C \<noteq> [] \<Longrightarrow> l \<in> set (lleaves C) \<union> {rs} \<union> set (rleaves C) \<Longrightarrow> cut LEAF_MAX \<le> length l" .
  show "rs \<noteq> []"
  proof (cases "C = []")
    case True
    then show ?thesis using assms by simp
  next
    case False
    then have "cut LEAF_MAX \<le> length rs" using * by simp
    then show ?thesis by (auto simp: cut_def LEAF_MAX_def)
  qed
qed

lemma roomy_leaf_change:
  assumes "roomy (plugs C (Leaf a rs))" "rs' \<noteq> []" "C \<noteq> [] \<Longrightarrow> cut LEAF_MAX \<le> length rs'"
  shows "roomy (plugs C (Leaf a rs'))"
proof (cases "C = []")
  case False
  then show ?thesis
    using roomy_plugs(1) [OF assms(1)] assms(3) by (intro roomyI) (auto simp: leaves_plugs)
qed (use assms(2) in simp)

text \<open>An insertion needs no purge: the leaf has room, or none of its records is marked.\<close>

definition purge_free :: "int \<Rightarrow> table \<Rightarrow> bool" where
  "purge_free key s =
     (case find_leaf key s of Inl _ \<Rightarrow> False
      | Inr a \<Rightarrow> (case load a s of Inl _ \<Rightarrow> False
         | Inr p \<Rightarrow> num_of_keys p < LEAF_MAX \<or>
             list_all (\<lambda>i. logical_del (records p i) \<noteq> 1) [0..<num_of_keys p]))"

lemma purge_nothing:
  assumes "num_of_keys p < LEAF_MAX \<or> list_all (\<lambda>i. logical_del (records p i) \<noteq> 1) [0..<num_of_keys p]"
  shows "purge a p s = Inr s"
proof -
  have "each (\<lambda>i s. if logical_del (records p i) = 1
      then delete_entry (search_fuel s) (rkey (records p i)) a s else Inr s) xs s = Inr s"
    if "list_all (\<lambda>i. logical_del (records p i) \<noteq> 1) xs" for xs
    using that by (induction xs) auto
  then show ?thesis using assms by (auto simp: purge_def)
qed

lemma lookup_fresh: "key \<notin> rkey ` set rs \<Longrightarrow> lookup key rs = None"
proof -
  assume "key \<notin> rkey ` set rs"
  then have "find (\<lambda>r. rkey r = key) rs = None" by (auto simp: find_None_iff image_iff)
  then show ?thesis by (simp add: lookup_def)
qed

text \<open>The records of a table after an insertion.\<close>

definition inserted :: "rcd \<Rightarrow> rcd list \<Rightarrow> rcd list \<Rightarrow> bool" where
  "inserted r rs rs' \<longleftrightarrow> (\<exists>xs ys. rs = xs @ ys \<and> rs' = xs @ r # ys)"

lemma inserted_lookup:
  "inserted r rs rs' \<Longrightarrow> rkey r \<notin> rkey ` set rs \<Longrightarrow>
     lookup k rs' = (if k = rkey r then if logical_del r = 1 then None else Some (rvalue r)
       else lookup k rs)"
  by (auto simp: inserted_def lookup_insert image_Un)

lemma inserted_set: "inserted r rs rs' \<Longrightarrow> set rs' = insert r (set rs)"
  by (auto simp: inserted_def)

lemma db_insert_leaf:
  assumes ok: "table_ok s (plugs C (Leaf a rs))" and w: "on_way (rkey r) C"
    and new: "rkey r \<notin> rkey ` set rs" and p: "load a s = Inr p"
  shows "\<exists>s' t'. (if num_of_keys p < LEAF_MAX then insert_into_leaf a r s
      else insert_into_leaf_as a r s) = Inr s' \<and> table_ok s' t' \<and>
    inserted r (recs (plugs C (Leaf a rs))) (recs t')"
proof -
  have ta: "tree_at s (plugs C (Leaf a rs))" and so: "sorted_wrt (<) (lflat C @ map key_rank rs @ rflat C)"
    and ro: "roomy (plugs C (Leaf a rs))"
    using ok by (simp_all add: table_ok_def flat_plugs)
  have "view_of p = Leaf_view (par_of C) rs"
    using ta p by (auto simp: tree_at_def elim: leaf_at_plugs)
  note pv = view_of_Leaf [OF this]
  define ip where "ip = scan (\<lambda>i. rkey (records p i) < rkey r) (length rs) 0"
  define rs' where "rs' = take ip rs @ r # drop ip rs"
  have "rs = map (records p) [0..<length rs]" using pv by blast
  moreover have "sorted_wrt (<) (map key_rank rs)" using so by (simp add: sorted_wrt_append)
  ultimately have ip: "ip \<le> length rs" and so': "sorted_wrt (<) (map key_rank rs')"
    using insert_position [OF _ _ new ip_def] unfolding rs'_def by blast+
  have in_rs': "x \<in> set rs \<or> rkey x = rkey r" if "x \<in> set rs'" for x
    using that by (auto simp: rs'_def dest: in_set_takeD in_set_dropD)
  note sorted' = sorted_replace [OF so w so' in_rs']
  have len': "length rs' = Suc (length rs)" using ip by (simp add: rs'_def)
  have split: "rs = take ip rs @ drop ip rs" by simp
  have ins: "inserted r (xs @ rs @ ys) (xs @ rs' @ ys)" for xs ys
    unfolding inserted_def rs'_def
    by (rule exI [of _ "xs @ take ip rs"], rule exI [of _ "drop ip rs @ ys"]) simp
  show ?thesis
  proof (cases "length rs < LEAF_MAX")
    case True
    obtain s' where s': "insert_into_leaf a r s = Inr s'" "tree_at s' (plugs C (Leaf a rs'))"
      using insert_into_leaf_ok [OF ta True p ip_def] unfolding rs'_def by blast
    have "roomy (plugs C (Leaf a rs'))"
      by (rule roomy_leaf_change [OF ro])
        (use roomy_plugs(1) [OF ro, of rs] len' in \<open>auto simp: rs'_def\<close>)
    then have "table_ok s' (plugs C (Leaf a rs'))"
      using s'(2) sorted' by (simp add: table_ok_def flat_plugs)
    moreover have "inserted r (recs (plugs C (Leaf a rs))) (recs (plugs C (Leaf a rs')))"
      unfolding recs_plugs_Leaf by (rule ins)
    ultimately show ?thesis using s'(1) True pv by auto
  next
    case False
    have "length rs \<le> LEAF_MAX" using ta by (simp add: tree_at_def wfn_plugs)
    then have full: "length rs = LEAF_MAX" using False by simp
    obtain s' t' where s': "insert_into_leaf_as a r s = Inr s'" "tree_at s' t'"
      "flat t' = lflat C @ map key_rank (take 2 rs') @ 2 * rkey (rs' ! 2) # map key_rank (drop 2 rs') @ rflat C"
      "leaves t' = lleaves C @ [take 2 rs', drop 2 rs'] @ rleaves C"
      using insert_into_leaf_as_ok [OF ta full p ip_def rs'_def] .
    have "length rs' = 4" using len' full by (simp add: LEAF_MAX_def)
    then obtain x y u v where rs': "rs' = [x, y, u, v]" by (auto simp: length_Suc_conv numeral_eq_Suc)
    have "sorted_wrt (<) (flat t')"
      using sorted_separator [of "lflat C @ [key_rank x]" y u "key_rank v # rflat C"] sorted'
      by (simp add: s'(3) rs')
    moreover have "roomy t'"
    proof (rule roomyI)
      fix l
      assume "l \<in> set (leaves t')"
      then consider "l \<in> set (lleaves C) \<union> set (rleaves C)" | "l = take 2 rs' \<or> l = drop 2 rs'"
        using s'(4) by auto
      then show "cut LEAF_MAX \<le> length l"
      proof cases
        case 1
        then show ?thesis using roomy_plugs(1) [OF ro, of l] by (cases "C = []") auto
      qed (auto simp: rs' cut_def LEAF_MAX_def)
    qed
    ultimately have "table_ok s' t'" using s'(2) by (simp add: table_ok_def)
    moreover have "recs t' = concat (lleaves C) @ rs' @ concat (rleaves C)"
      by (simp add: recs_def s'(4) rs')
    then have "inserted r (recs (plugs C (Leaf a rs))) (recs t')"
      unfolding recs_plugs_Leaf by (simp add: ins)
    ultimately show ?thesis using s'(1) False pv by auto
  qed
qed

lemma db_insert_ok:
  assumes ok: "table_ok s t" and new: "key \<notin> rkey ` set (recs t)" and len: "length val < 120"
    and pf: "purge_free key s"
  obtains s' t' where "db_insert key val s = Inr (0, s')" "table_ok s' t'"
    "inserted \<lparr>rkey = key, logical_del = 0, rvalue = val\<rparr> (recs t) (recs t')"
proof -
  let ?r = "\<lparr>rkey = key, logical_del = 0, rvalue = val\<rparr>"
  obtain C a rs where C: "t = plugs C (Leaf a rs)" "find_leaf key s = Inr a" "on_way key C"
    using find_leaf_ok [OF ok] .
  obtain p where p: "load a s = Inr p"
    using ok C(1) by (auto simp: table_ok_def tree_at_def elim: leaf_at_plugs)
  have "key \<notin> rkey ` set rs" using new unfolding C(1) recs_plugs_Leaf by auto
  then obtain s' t' where s': "(if num_of_keys p < LEAF_MAX then insert_into_leaf a ?r s
      else insert_into_leaf_as a ?r s) = Inr s'" "table_ok s' t'" "inserted ?r (recs t) (recs t')"
    using db_insert_leaf [of s C a rs ?r p] ok C p by auto
  have "purge a p s = Inr s"
    using pf C(2) p by (intro purge_nothing) (simp add: purge_free_def)
  moreover have "db_find key s = Inr None"
    using db_find_ok [OF ok] lookup_fresh [OF new] by simp
  moreover obtain q where "rt s = Some q"
    using ok by (auto simp: table_ok_def tree_at_def rooted_def)
  ultimately have "db_insert key val s = Inr (0, s')"
    using len C(2) p s'(1) by (simp add: db_insert_def Let_def split: if_splits)
  then show thesis using that s'(2,3) by blast
qed


section \<open>Deletion\<close>

definition deleted :: "int \<Rightarrow> rcd list \<Rightarrow> rcd list \<Rightarrow> bool" where
  "deleted key rs rs' \<longleftrightarrow> (\<exists>xs r ys. rs = xs @ r # ys \<and> rkey r = key \<and> key \<notin> rkey ` set (xs @ ys) \<and>
     (rs' = xs @ ys \<or> rs' = xs @ r\<lparr>logical_del := 1\<rparr> # ys))"

lemma deleted_lookup:
  assumes "deleted key rs rs'"
  shows "lookup k rs' = (if k = key then None else lookup k rs)"
proof -
  obtain xs r ys where rs: "rs = xs @ r # ys" "rkey r = key" "key \<notin> rkey ` set (xs @ ys)"
      "rs' = xs @ ys \<or> rs' = xs @ r\<lparr>logical_del := 1\<rparr> # ys"
    using assms unfolding deleted_def by blast
  have nx: "key \<notin> rkey ` set xs" using rs(3) by (simp add: image_Un)
  have "lookup k rs = (if k = key then if logical_del r = 1 then None else Some (rvalue r)
      else lookup k (xs @ ys))"
    unfolding rs(1) using lookup_insert [of r xs k ys] nx rs(2) by simp
  moreover have "lookup k (xs @ r\<lparr>logical_del := 1\<rparr> # ys) = (if k = key then None else lookup k (xs @ ys))"
    using lookup_insert [of "r\<lparr>logical_del := 1\<rparr>" xs k ys] nx rs(2) by simp
  moreover have "lookup key (xs @ ys) = None" using lookup_fresh [OF rs(3)] .
  ultimately show ?thesis using rs(4) by auto
qed

lemma view_at_rt: "view_at (s\<lparr>rt := r\<rparr>) = view_at s"
  by (simp add: view_at_def fun_eq_iff split: option.split)

lemma offs_plugs_cong: "offs t = offs t' \<Longrightarrow> offs (plugs C t) = offs (plugs C t')"
proof (induction C arbitrary: t t')
  case (Cons f C)
  have "offs (plug f t) = offs (plug f t')" using Cons.prems by (cases f) simp
  from Cons.IH [OF this] show ?case by simp
qed simp

lemma scan_key:
  assumes "rs = map f [0..<length rs]" "sorted_wrt (<) (map key_rank rs)" "key \<in> rkey ` set rs"
    and "length rs \<le> n" "i = scan (\<lambda>i. rkey (f i) \<noteq> key) n 0"
  shows "i < length rs" "rkey (rs ! i) = key" "f i = rs ! i"
    "key \<notin> rkey ` set (take i rs @ drop (Suc i) rs)"
proof -
  obtain j where j: "j < length rs" "rkey (rs ! j) = key"
    using assms(3) by (metis imageE in_set_conv_nth)
  then have "rkey (f j) = key" using nth_map_upt [OF assms(1) j(1)] by simp
  note j = j(1) this
  show i: "i < length rs"
  proof (rule ccontr)
    assume "\<not> i < length rs"
    then have "j < scan (\<lambda>i. rkey (f i) \<noteq> key) n 0" using j(1) assms(5) by simp
    from scan_before [OF _ this] j(2) show False by simp
  qed
  show fi: "f i = rs ! i" using nth_map_upt [OF assms(1) i] .
  have "\<not> rkey (f i) \<noteq> key"
    using scan_stops [of "\<lambda>i. rkey (f i) \<noteq> key" n 0] i assms(4,5) by simp
  then show k: "rkey (rs ! i) = key" using fi by simp
  have "sorted_wrt (<) (map key_rank (take i rs @ rs ! i # drop (Suc i) rs))"
    using assms(2) id_take_nth_drop [OF i] by simp
  then have "rkey x < key \<or> key < rkey x" if "x \<in> set (take i rs @ drop (Suc i) rs)" for x
    using that k by (auto simp: sorted_wrt_append key_rank_def)
  then show "key \<notin> rkey ` set (take i rs @ drop (Suc i) rs)" by force
qed

text \<open>Removing a record from a leaf marks it or takes it out, and leaves the leaf with at least
  \<open>cut(LEAF_MAX)\<close> records.\<close>

lemma remove_entry_ok:
  assumes ok: "table_ok s (plugs C (Leaf a rs))" and key: "key \<in> rkey ` set rs"
  obtains s' rs' where "remove_entry_from_page key a s = Inr s'" "table_ok s' (plugs C (Leaf a rs'))"
    "deleted key rs rs'" "length (pages s') = length (pages s)"
proof -
  have ta: "tree_at s (plugs C (Leaf a rs))" and so: "sorted_wrt (<) (lflat C @ map key_rank rs @ rflat C)"
    and ro: "roomy (plugs C (Leaf a rs))" and root: "rooted s (off (plugs C (Leaf a rs)))"
    and max: "length rs \<le> LEAF_MAX"
    using ok by (simp_all add: table_ok_def flat_plugs tree_at_def wfn_plugs)
  obtain p where p: "load a s = Inr p" "view_of p = Leaf_view (par_of C) rs"
      and va: "view_at s a \<noteq> None"
    using ta by (auto simp: tree_at_def elim: leaf_at_plugs)
  note pv = view_of_Leaf [OF p(2)]
  have rs: "rs = map (records p) [0..<length rs]" using pv by blast
  have sr: "sorted_wrt (<) (map key_rank rs)" using so by (simp add: sorted_wrt_append)
  define i where "i = scan (\<lambda>i. rkey (records p i) \<noteq> key) 31 0"
  have "length rs \<le> 31" using max by (simp add: LEAF_MAX_def)
  note sk = scan_key [OF rs sr key this i_def]
  have i31: "i \<noteq> 31" using sk(1) max by (simp add: LEAF_MAX_def)
  note d = id_take_nth_drop [OF sk(1)]
  have cut2: "cut LEAF_MAX = 2" by (simp add: cut_def LEAF_MAX_def)
  show thesis
  proof (cases "length rs \<le> 2")
    case True
    let ?rs = "rs[i := (rs ! i)\<lparr>logical_del := 1\<rparr>]"
    let ?p = "p\<lparr>records := (records p)(i := (records p i)\<lparr>logical_del := 1\<rparr>)\<rparr>"
    have "map ((records p)(i := (records p i)\<lparr>logical_del := 1\<rparr>)) [0..<length rs] =
        (map (records p) [0..<length rs])[i := (records p i)\<lparr>logical_del := 1\<rparr>]"
      by (rule nth_equalityI) (auto simp: nth_list_update)
    then have v: "view_of ?p = Leaf_view (par_of C) ?rs"
      using pv sk(3) rs by (simp add: view_of_def)
    obtain s' where s': "pwrite_page a ?p s = Inr s'" "view_at s' = (view_at s)(a \<mapsto> view_of ?p)"
        "same_rest s s'" using va by (elim pwrite_viewE)
    have "remove_entry_from_page key a s = Inr s'"
      using p(1) pv i31 True s'(1) cut2 by (simp add: remove_entry_from_page_def Let_def flip: i_def)
    moreover have "table_ok s' (plugs C (Leaf a ?rs))"
    proof -
      have "tree_at s' (plugs C (Leaf a ?rs))"
        using replace_leaf [OF ta] s'(2) v rooted_same_rest [OF s'(3) root] max by simp
      moreover have "map key_rank ?rs = map key_rank rs"
        by (rule nth_equalityI) (auto simp: nth_list_update sk(1) key_rank_def)
      moreover have "roomy (plugs C (Leaf a ?rs))"
        by (rule roomy_leaf_change [OF ro]) (use roomy_plugs [OF ro] in auto)
      ultimately show ?thesis using so by (simp add: table_ok_def flat_plugs)
    qed
    moreover have "?rs = take i rs @ (rs ! i)\<lparr>logical_del := 1\<rparr> # drop (Suc i) rs"
      using upd_conv_take_nth_drop [OF sk(1)] .
    then have "deleted key rs ?rs" unfolding deleted_def using d sk(2,4) by blast
    moreover have "length (pages s') = length (pages s)" using s'(3) by (simp add: same_rest_def)
    ultimately show thesis using that by blast
  next
    case False
    then have len: "length rs = 3" using max by (simp add: LEAF_MAX_def)
    let ?rs = "take i rs @ drop (Suc i) rs"
    let ?p = "p\<lparr>records := shift_down i 3 (records p), num_of_keys := 2\<rparr>"
    have "map (shift_down i 3 (records p)) [0..<2] = ?rs"
      using shift_down_list [of i 3 "records p"] sk(1) rs len by simp
    then have v: "view_of ?p = Leaf_view (par_of C) ?rs" using pv by (simp add: view_of_def)
    obtain s1 where s1: "pwrite_page a ?p s = Inr s1" "view_at s1 = (view_at s)(a \<mapsto> view_of ?p)"
        "same_rest s s1" using va by (elim pwrite_viewE)
    have "view_at s1 a = Some (view_of ?p)" using s1(2) by simp
    then obtain q where q: "load_page a s1 = Inr (Some q)" "view_of q = view_of ?p"
      by (elim view_loadE)
    have nq: "num_of_keys q = 2" using view_of_Leaf [of q] q(2) v len sk(1) by simp
    let ?s = "if a = rpo (hp s1) then s1\<lparr>rt := Some q\<rparr> else s1"
    have "remove_entry_from_page key a s = Inr ?s"
      using p(1) pv i31 len s1(1) q(1) cut2
      by (auto simp: remove_entry_from_page_def Let_def simp flip: i_def)
    moreover have "table_ok ?s (plugs C (Leaf a ?rs))"
    proof -
      have "rooted ?s (off (plugs C (Leaf a rs)))"
        using rooted_same_rest [OF s1(3) root] nq by (auto simp: rooted_def)
      moreover have "view_at ?s = (view_at s)(a \<mapsto> Leaf_view (par_of C) ?rs)"
        using s1(2) v by (cases "a = rpo (hp s1)") (simp_all add: view_at_rt)
      ultimately have "tree_at ?s (plugs C (Leaf a ?rs))"
        using replace_leaf [OF ta] sk(1) len by (simp add: LEAF_MAX_def)
      moreover have "sorted_wrt (<) (map key_rank (take i rs) @ map key_rank (rs ! i # drop (Suc i) rs))"
        using sr arg_cong [OF d, of "map key_rank"] by (simp only: map_append)
      then have "sorted_wrt (<) (map key_rank ?rs)" by (auto simp: sorted_wrt_append)
      then have "sorted_wrt (<) (lflat C @ map key_rank ?rs @ rflat C)"
        using so by (auto simp: sorted_wrt_append dest: in_set_takeD in_set_dropD)
      moreover have "roomy (plugs C (Leaf a ?rs))"
        by (rule roomy_leaf_change [OF ro]) (use len sk(1) cut2 in auto)
      ultimately show ?thesis by (simp add: table_ok_def flat_plugs)
    qed
    moreover have "deleted key rs ?rs" unfolding deleted_def using d sk(2,4) by blast
    moreover have "length (pages ?s) = length (pages s)" using s1(3) by (simp add: same_rest_def)
    ultimately show thesis using that by blast
  qed
qed


lemma db_delete_ok:
  assumes ok: "table_ok s t" and live: "lookup key (recs t) \<noteq> None"
  obtains s' t' where "db_delete key s = Inr (0, s')" "table_ok s' t'"
    "deleted key (recs t) (recs t')" "offs t' = offs t" "length (pages s') = length (pages s)"
proof -
  obtain C a rs where C: "t = plugs C (Leaf a rs)" "find_leaf key s = Inr a" "on_way key C"
    using find_leaf_ok [OF ok] .
  have "lookup key rs \<noteq> None" using live lookup_on_way [OF C(3)] C(1) by simp
  then have key: "key \<in> rkey ` set rs" using lookup_fresh [of key rs] by argo
  obtain s' rs' where s': "remove_entry_from_page key a s = Inr s'" "table_ok s' (plugs C (Leaf a rs'))"
      "deleted key rs rs'" "length (pages s') = length (pages s)"
    using remove_entry_ok [OF ok [unfolded C(1)] key] .
  have root: "rooted s' (off (plugs C (Leaf a rs')))" and ro: "roomy (plugs C (Leaf a rs'))"
    using s'(2) by (simp_all add: table_ok_def tree_at_def)
  obtain p where p: "load a s' = Inr p" "view_of p = Leaf_view (par_of C) rs'"
    using s'(2) by (auto simp: table_ok_def tree_at_def elim: leaf_at_plugs)
  obtain q where q: "rt s' = Some q" "0 < num_of_keys q" "rpo (hp s') = off (plugs C (Leaf a rs'))"
    using root by (auto simp: rooted_def)
  have "delete_entry (search_fuel s) key a s = Inr s'"
  proof (cases "a = rpo (hp s')")
    case True
    then show ?thesis using s'(1) q by (simp add: search_fuel_def adjust_root_def)
  next
    case False
    then have "C \<noteq> []" using q(3) by auto
    then have "cut LEAF_MAX \<le> length rs'" using roomy_plugs(1) [OF ro] by simp
    then show ?thesis using False s'(1) p view_of_Leaf [OF p(2)] by (simp add: search_fuel_def)
  qed
  moreover have "db_find key s = Inr (lookup key (recs t))" using db_find_ok [OF ok] .
  moreover obtain r where "rt s = Some r" "0 < num_of_keys r"
    using ok by (auto simp: table_ok_def tree_at_def rooted_def)
  ultimately have "db_delete key s = Inr (0, s')"
    using C(2) live by (auto simp: db_delete_def split: option.split)
  moreover have "deleted key (recs t) (recs (plugs C (Leaf a rs')))"
  proof -
    obtain xs r ys where d: "rs = xs @ r # ys" "rkey r = key" "key \<notin> rkey ` set (xs @ ys)"
        "rs' = xs @ ys \<or> rs' = xs @ r\<lparr>logical_del := 1\<rparr> # ys"
      using s'(3) unfolding deleted_def by blast
    have "key \<notin> rkey ` set (concat (lleaves C))" "key \<notin> rkey ` set (concat (rleaves C))"
      using on_way_keys [OF C(3)] by fastforce+
    then show ?thesis
      using d(2-4) unfolding deleted_def C(1) recs_plugs_Leaf d(1)
      by (intro exI [of _ "concat (lleaves C) @ xs"] exI [of _ r] exI [of _ "ys @ concat (rleaves C)"])
        (auto simp: image_Un)
  qed
  moreover have "offs (plugs C (Leaf a rs')) = offs t" unfolding C(1) by (rule offs_plugs_cong) simp
  ultimately show thesis using that s'(2,4) by blast
qed

lemma db_delete_absent:
  assumes ok: "table_ok s t" and "lookup key (recs t) = None"
  shows "db_delete key s = Inr (- 1, s)"
proof -
  obtain r where "rt s = Some r" "0 < num_of_keys r"
    using ok by (auto simp: table_ok_def tree_at_def rooted_def)
  then show ?thesis using db_find_ok [OF ok, of key] assms(2) by (simp add: db_delete_def)
qed

lemma db_insert_present:
  assumes ok: "table_ok s t" and "lookup key (recs t) \<noteq> None" "length val < 120"
  shows "db_insert key val s = Inr (- 1, s)"
proof -
  obtain r where "rt s = Some r" using ok by (auto simp: table_ok_def tree_at_def rooted_def)
  then show ?thesis using db_find_ok [OF ok, of key] assms(2,3) by (auto simp: db_insert_def)
qed

section \<open>The first record\<close>

definition empty_table :: table where
  "empty_table =
     (let h = \<lparr>fpo = 0, rpo = 0, num_of_pages = 1\<rparr>
      in \<lparr>disk_hp = h, pages = [], hp = h, rt = None\<rparr>)"

lemma open_table_new: "open_table No_file = Inr (0, empty_table)"
  by (simp add: open_table_def empty_table_def pwrite_hp_def load_header_def Let_def)

lemma first_insert:
  assumes "length val < 120"
  obtains s' where "db_insert key val empty_table = Inr (0, s')"
    "table_ok s' (Leaf (page_off 0) [\<lparr>rkey = key, logical_del = 0, rvalue = val\<rparr>])"
proof -
  let ?r = "\<lparr>rkey = key, logical_del = 0, rvalue = val\<rparr>"
  let ?p = "blank_page\<lparr>num_of_keys := 1, is_leaf := True, records := (records blank_page)(0 := ?r)\<rparr>"
  let ?h = "\<lparr>fpo = 0, rpo = page_off 0, num_of_pages = 2\<rparr>"
  let ?s = "\<lparr>disk_hp = ?h, pages = [?p], hp = ?h, rt = Some ?p\<rparr>"
  have "db_insert key val empty_table = Inr (0, ?s)"
    using assms by (simp add: db_insert_def start_new_file_def empty_table_def new_page_def reset_def
        pwrite_page_def pwrite_hp_def load_header_def load_def load_page_def Let_def blank_page_def)
  moreover have "view_at ?s (page_off 0) = Some (Leaf_view 0 [?r])"
    by (simp add: view_at_def view_of_def blank_page_def)
  then have "table_ok ?s (Leaf (page_off 0) [?r])"
    by (simp add: table_ok_def tree_at_def expected_def rooted_def LEAF_MAX_def blank_page_def)
  ultimately show thesis using that by blast
qed

end
