(* ===== verification/Bpt_Main.thy ===== *)
theory Bpt_Main
  imports Bpt_Spec
begin

text \<open>
  The B+ tree as a store of keys and values: the interface its client relies on, as a locale,
  its interpretation on \<open>db_find\<close>, \<open>db_insert\<close> and \<open>db_delete\<close>, the workload of \<open>main.c\<close>, and
  what goes wrong when a full leaf holds marked records.
\<close>

section \<open>A store of keys and values\<close>

text \<open>What a client relies on: a search is total, an insertion of an absent key into a clean store
  binds it, a deletion of a present key unbinds it, and the other calls change nothing.\<close>

locale map_store =
  fixes inv :: "'s \<Rightarrow> bool" and clean :: "'s \<Rightarrow> bool"
    and find :: "int \<Rightarrow> 's \<Rightarrow> 'e + string option"
    and insert :: "int \<Rightarrow> string \<Rightarrow> 's \<Rightarrow> 'e + int \<times> 's"
    and delete :: "int \<Rightarrow> 's \<Rightarrow> 'e + int \<times> 's"
  assumes find_total: "inv s \<Longrightarrow> \<exists>r. find k s = Inr r"
    and insert_absent: "inv s \<Longrightarrow> clean s \<Longrightarrow> find k s = Inr None \<Longrightarrow> length v < 120 \<Longrightarrow>
      \<exists>s'. insert k v s = Inr (0, s') \<and> inv s' \<and> clean s' \<and>
        (\<forall>j. find j s' = (if j = k then Inr (Some v) else find j s))"
    and insert_present: "inv s \<Longrightarrow> find k s = Inr (Some w) \<Longrightarrow> length v < 120 \<Longrightarrow>
      insert k v s = Inr (- 1, s)"
    and delete_present: "inv s \<Longrightarrow> find k s = Inr (Some w) \<Longrightarrow>
      \<exists>s'. delete k s = Inr (0, s') \<and> inv s' \<and>
        (\<forall>j. find j s' = (if j = k then Inr None else find j s))"
    and delete_absent: "inv s \<Longrightarrow> find k s = Inr None \<Longrightarrow> delete k s = Inr (- 1, s)"
begin

abbreviation insert_step :: "int \<times> string \<Rightarrow> 's \<Rightarrow> 'e + 's" where
  "insert_step \<equiv> \<lambda>(k, v) s. call (insert k v s) (\<lambda>(_, s). Inr s)"

abbreviation delete_step :: "int \<Rightarrow> 's \<Rightarrow> 'e + 's" where
  "delete_step \<equiv> \<lambda>k s. call (delete k s) (\<lambda>(_, s). Inr s)"

lemma insert_all:
  assumes "inv s" "clean s" "\<forall>(k, v) \<in> set kvs. length v < 120"
  shows "\<exists>s'. each insert_step kvs s = Inr s' \<and> inv s' \<and> clean s' \<and>
    (\<forall>j. find j s' = (case find j s of Inr None \<Rightarrow> Inr (map_of kvs j) | r \<Rightarrow> r))"
  using assms
proof (induction kvs arbitrary: s)
  case Nil
  have "find j s = (case find j s of Inr None \<Rightarrow> Inr (map_of [] j) | r \<Rightarrow> r)" for j
    by (auto split: sum.split option.split)
  then show ?case using Nil by auto
next
  case (Cons kv kvs)
  obtain k v where kv: "kv = (k, v)" by (cases kv)
  obtain r where r: "find k s = Inr r" using find_total [OF Cons.prems(1)] by blast
  obtain s1 where s1: "insert_step kv s = Inr s1" "inv s1" "clean s1"
    "\<forall>j. find j s1 = (if j = k \<and> r = None then Inr (Some v) else find j s)"
  proof (cases r)
    case None
    then show ?thesis
      using that insert_absent [OF Cons.prems(1,2), of k v] r Cons.prems(3) kv by fastforce
  next
    case (Some w)
    then show ?thesis
      using that insert_present [OF Cons.prems(1), of k w v] r Cons.prems kv by fastforce
  qed
  have "\<forall>(k, v) \<in> set kvs. length v < 120" using Cons.prems(3) by simp
  from Cons.IH [OF s1(2,3) this] obtain s2 where s2: "each insert_step kvs s1 = Inr s2" "inv s2" "clean s2"
    "\<forall>j. find j s2 = (case find j s1 of Inr None \<Rightarrow> Inr (map_of kvs j) | r \<Rightarrow> r)"
    by blast
  have "each insert_step (kv # kvs) s = Inr s2" using s1(1) s2(1) by simp
  moreover have "find j s2 = (case find j s of Inr None \<Rightarrow> Inr (map_of (kv # kvs) j) | r \<Rightarrow> r)" for j
    using s1(4) s2(4) kv r by (auto split: sum.split option.split)
  ultimately show ?case using s2(2,3) by blast
qed

lemma delete_all:
  assumes "inv s"
  shows "\<exists>s'. each delete_step ks s = Inr s' \<and> inv s' \<and>
    (\<forall>j. find j s' = (if j \<in> set ks then Inr None else find j s))"
  using assms
proof (induction ks arbitrary: s)
  case (Cons k ks)
  obtain r where r: "find k s = Inr r" using find_total [OF Cons.prems] by blast
  obtain s1 where s1: "delete_step k s = Inr s1" "inv s1"
    "\<forall>j. find j s1 = (if j = k then Inr None else find j s)"
  proof (cases r)
    case None
    then show ?thesis using that delete_absent [OF Cons.prems, of k] r Cons.prems by simp
  next
    case (Some w)
    then show ?thesis using that delete_present [OF Cons.prems, of k w] r by fastforce
  qed
  from Cons.IH [OF s1(2)] obtain s2 where "each delete_step ks s1 = Inr s2" "inv s2"
    "\<forall>j. find j s2 = (if j \<in> set ks then Inr None else find j s1)" by blast
  then show ?case using s1 by auto
qed simp

end

definition bpt_inv :: "table \<Rightarrow> bool" where
  "bpt_inv s \<longleftrightarrow> (\<exists>t. table_ok s t)"

text \<open>A table in which no record is marked deleted.\<close>

definition unmarked :: "table \<Rightarrow> bool" where
  "unmarked s \<longleftrightarrow> (\<forall>t. table_ok s t \<longrightarrow> (\<forall>r \<in> set (recs t). logical_del r = 0))"

text \<open>The file determines the records.\<close>

lemma holds_unique:
  "holds s (expected par t) \<Longrightarrow> holds s (expected par' t') \<Longrightarrow> off t = off t' \<Longrightarrow> t = t' \<and> par = par'"
proof (induction t arbitrary: par par' t')
  case (Leaf a rs)
  then show ?case by (cases t') (auto simp: expected_def)
next
  case (Node a cs ks)
  then obtain cs' where t': "t' = Node a cs' ks" "map off cs' = map off cs" "par' = par"
    by (cases t') (auto simp: expected_def)
  have "cs = cs'"
  proof (rule nth_equalityI)
    show len: "length cs = length cs'" using t'(2) by (metis length_map)
    fix i
    assume i: "i < length cs"
    then have c: "cs ! i \<in> set cs" "cs' ! i \<in> set cs'" using len by auto
    then have "holds s (expected a (cs ! i))" "holds s (expected a (cs' ! i))"
      using Node.prems(1,2) t'(1)
      by (auto simp: expected_def [of par] expected_def [of par'] below_Node holds_concat)
    moreover have "off (cs ! i) = off (cs' ! i)" using t'(2) i len by (metis nth_map)
    ultimately show "cs ! i = cs' ! i" using Node.IH [OF c(1)] by blast
  qed
  then show ?case using t' by simp
qed

lemma table_ok_unique: "table_ok s t \<Longrightarrow> table_ok s t' \<Longrightarrow> t = t'"
  using holds_unique [of s 0 t 0 t'] by (auto simp: table_ok_def tree_at_def rooted_def)

lemma unmarked_iff: "table_ok s t \<Longrightarrow> unmarked s \<longleftrightarrow> (\<forall>r \<in> set (recs t). logical_del r = 0)"
  using table_ok_unique by (auto simp: unmarked_def)

lemma unmarked_absent:
  assumes "\<forall>r \<in> set rs. logical_del r = 0" "lookup k rs = None"
  shows "k \<notin> rkey ` set rs"
proof
  assume "k \<in> rkey ` set rs"
  then obtain r where r: "List.find (\<lambda>r. rkey r = k) rs = Some r"
    by (cases "List.find (\<lambda>r. rkey r = k) rs") (auto simp: find_None_iff)
  then have "r \<in> set rs" by (auto simp: find_Some_iff)
  then show False using assms r by (simp add: lookup_def)
qed

lemma unmarked_purge_free:
  assumes ok: "table_ok s t" and "\<forall>r \<in> set (recs t). logical_del r = 0"
  shows "purge_free key s"
proof -
  obtain C a rs where C: "t = plugs C (Leaf a rs)" "find_leaf key s = Inr a"
    using find_leaf_ok [OF ok] by blast
  obtain p where p: "load a s = Inr p" "view_of p = Leaf_view (par_of C) rs"
    using ok C(1) by (auto simp: table_ok_def tree_at_def elim: leaf_at_plugs)
  have "records p i \<in> set (recs t)" if "i < length rs" for i
    using view_of_Leaf [OF p(2)] nth_map_upt [of rs "records p" i] that
    unfolding C(1) recs_plugs_Leaf by (metis Un_iff nth_mem set_append)
  then show ?thesis
    using C(2) p(1) assms(2) view_of_Leaf [OF p(2)] by (auto simp: purge_free_def list_all_iff)
qed

interpretation bpt: map_store bpt_inv unmarked db_find db_insert db_delete
proof (unfold_locales, goal_cases)
  case (1 s k)
  then show ?case using db_find_ok by (auto simp: bpt_inv_def)
next
  case (2 s k v)
  then obtain t where t: "table_ok s t" by (auto simp: bpt_inv_def)
  have m: "\<forall>r \<in> set (recs t). logical_del r = 0" using 2(2) unmarked_iff [OF t] by simp
  have new: "k \<notin> rkey ` set (recs t)" using unmarked_absent [OF m] db_find_ok [OF t, of k] 2(3) by simp
  obtain s' t' where s': "db_insert k v s = Inr (0, s')" "table_ok s' t'"
    "inserted \<lparr>rkey = k, logical_del = 0, rvalue = v\<rparr> (recs t) (recs t')"
    using db_insert_ok [OF t new 2(4) unmarked_purge_free [OF t m]] .
  have "unmarked s'" using m inserted_set [OF s'(3)] by (simp add: unmarked_iff [OF s'(2)])
  moreover have "db_find j s' = (if j = k then Inr (Some v) else db_find j s)" for j
    using db_find_ok [OF t] db_find_ok [OF s'(2)] inserted_lookup [OF s'(3)] new by simp
  ultimately show ?case using s'(1,2) by (auto simp: bpt_inv_def)
next
  case (3 s k w v)
  then show ?case using db_insert_present db_find_ok by (fastforce simp: bpt_inv_def)
next
  case (4 s k w)
  then obtain t where t: "table_ok s t" by (auto simp: bpt_inv_def)
  have "lookup k (recs t) \<noteq> None" using 4(2) db_find_ok [OF t] by simp
  from db_delete_ok [OF t this] obtain s' t' where s': "db_delete k s = Inr (0, s')" "table_ok s' t'"
    "deleted k (recs t) (recs t')" .
  have "db_find j s' = (if j = k then Inr None else db_find j s)" for j
    using db_find_ok [OF t] db_find_ok [OF s'(2)] deleted_lookup [OF s'(3)] by simp
  then show ?case using s'(1,2) by (auto simp: bpt_inv_def)
next
  case (5 s k)
  then show ?case using db_delete_absent db_find_ok by (fastforce simp: bpt_inv_def)
qed

section \<open>The workload of \<open>main\<close>\<close>

definition insert_run :: "(int \<times> string) list \<Rightarrow> table \<Rightarrow> bpt_error + table" where
  "insert_run kvs s = each (\<lambda>(k, v) s. call (db_insert k v s) (\<lambda>(_, s). Inr s)) kvs s"

definition delete_run :: "int list \<Rightarrow> table \<Rightarrow> bpt_error + table" where
  "delete_run ks s = each (\<lambda>k s. call (db_delete k s) (\<lambda>(_, s). Inr s)) ks s"

text \<open>One turn of the outer loop, and \<open>main\<close> on the string \<open>v\<close> that it finds in \<open>buf\<close>.\<close>

definition main_round :: "nat \<Rightarrow> string \<Rightarrow> table \<Rightarrow> bpt_error + table" where
  "main_round n v s =
     call (insert_run (map (\<lambda>i. (int i, v)) [0..<n]) s)
       (delete_run (map int (filter (\<lambda>i. i mod 2 = 0) [0..<n])))"

definition main :: "table_file \<Rightarrow> string \<Rightarrow> bpt_error + table" where
  "main f v =
     call (open_table f) (\<lambda>(_, s). each (\<lambda>j. main_round 10000 v) [0..<10] s)"

lemma insert_run_first:
  assumes "\<forall>(k, v) \<in> set kvs. length v < 120" "kvs \<noteq> []"
  shows "\<exists>s. insert_run kvs empty_table = Inr s \<and> bpt_inv s \<and> (\<forall>k. db_find k s = Inr (map_of kvs k))"
proof -
  obtain k v rest where kvs: "kvs = (k, v) # rest" using assms(2) by (cases kvs) auto
  let ?r = "\<lparr>rkey = k, logical_del = 0, rvalue = v\<rparr>"
  have "length v < 120" using assms(1) kvs by simp
  from first_insert [OF this, of k] obtain s where
    s: "db_insert k v empty_table = Inr (0, s)" "table_ok s (Leaf (page_off 0) [?r])" .
  have "unmarked s" using unmarked_iff [OF s(2)] by (simp add: recs_def)
  moreover have "bpt_inv s" using s(2) by (auto simp: bpt_inv_def)
  moreover have "\<forall>(k, v) \<in> set rest. length v < 120" using assms(1) kvs by simp
  ultimately obtain s' where s': "insert_run rest s = Inr s'" "bpt_inv s'"
    "\<forall>j. db_find j s' = (case db_find j s of Inr None \<Rightarrow> Inr (map_of rest j) | r \<Rightarrow> r)"
    using bpt.insert_all [of s rest] by (auto simp: insert_run_def)
  have "db_find j s = Inr (if j = k then Some v else None)" for j
    using db_find_ok [OF s(2), of j] by (simp add: recs_def lookup_def)
  then have "db_find j s' = Inr (map_of kvs j)" for j using s'(3) kvs by simp
  moreover have "insert_run kvs empty_table = Inr s'" using s(1) s'(1) kvs by (simp add: insert_run_def)
  ultimately show ?thesis using s'(2) by blast
qed

lemma map_of_const: "map_of (map (\<lambda>i. (int i, v)) [0..<n]) k = (if 0 \<le> k \<and> k < int n then Some v else None)"
proof (induction n)
  case (Suc n)
  then show ?case by (auto simp: map_add_def split: option.split)
qed simp

section \<open>Properties\<close>

text \<open>C7: A table that was only filled answers every search as the association list of the
  insertions does, whatever splits they caused: the first value of a key wins, and no key is lost
  or invented.\<close>

theorem insert_only_table:
  assumes "\<forall>(k, v) \<in> set kvs. length v < 120" "kvs \<noteq> []"
  shows "\<exists>s. call (open_table No_file) (\<lambda>(_, s). insert_run kvs s) = Inr s \<and>
    (\<forall>k. db_find k s = Inr (map_of kvs k))"
  using insert_run_first [OF assms] by (auto simp: open_table_new)

text \<open>The first turn of \<open>main\<close>'s loop leaves exactly the odd keys below \<open>n\<close> in the table.\<close>

theorem main_first_round:
  assumes "length v < 120" "0 < n"
  shows "\<exists>s. call (open_table No_file) (\<lambda>(_, s). main_round n v s) = Inr s \<and>
    (\<forall>k. db_find k s = Inr (if 0 \<le> k \<and> k < int n \<and> odd k then Some v else None))"
proof -
  let ?kvs = "map (\<lambda>i. (int i, v)) [0..<n]"
  obtain s where s: "insert_run ?kvs empty_table = Inr s" "bpt_inv s"
    "\<forall>k. db_find k s = Inr (map_of ?kvs k)"
    using insert_run_first [of ?kvs] assms by auto
  let ?ks = "map int (filter (\<lambda>i. i mod 2 = 0) [0..<n])"
  obtain s' where s': "delete_run ?ks s = Inr s'"
    "\<forall>j. db_find j s' = (if j \<in> set ?ks then Inr None else db_find j s)"
    using bpt.delete_all [OF s(2), of ?ks] unfolding delete_run_def by blast
  have "j \<in> set ?ks \<longleftrightarrow> 0 \<le> j \<and> j < int n \<and> even j" for j
  proof (cases "0 \<le> j")
    case True
    then obtain i where "j = int i" by (rule nonneg_int_cases)
    then show ?thesis by auto
  qed auto
  then have "db_find j s' = Inr (if 0 \<le> j \<and> j < int n \<and> odd j then Some v else None)" for j
    using s(3) s'(2) by (auto simp: map_of_const)
  then show ?thesis using s(1) s'(1) by (auto simp: open_table_new main_round_def)
qed

text \<open>C8: An insertion keeps a well-formed table well formed, with splits or without, binds the key and
  changes no other binding: for a value that fits, a key that no record of the table has, not even
  a marked one, and if the leaf of the key does not have to be purged (it has room, or no marked
  record).  The purge is the defect below.\<close>

theorem db_insert_correct:
  assumes "table_ok s t" "key \<notin> rkey ` set (recs t)" "length val < 120" "purge_free key s"
  shows "\<exists>s' t'. db_insert key val s = Inr (0, s') \<and> table_ok s' t' \<and>
    (\<forall>k. db_find k s' = (if k = key then Inr (Some val) else db_find k s))"
proof -
  obtain s' t' where s': "db_insert key val s = Inr (0, s')" "table_ok s' t'"
    "inserted \<lparr>rkey = key, logical_del = 0, rvalue = val\<rparr> (recs t) (recs t')"
    using db_insert_ok [OF assms] .
  then show ?thesis
    using inserted_lookup [OF s'(3)] assms(2) db_find_ok [OF assms(1)] db_find_ok [OF s'(2)] by auto
qed

text \<open>C10: A deletion keeps a well-formed table well formed and unbinds only its key.  It never
  restructures the tree: the pages and their places stay as they are, so that no deletion reaches
  \<open>coalesce_pages\<close> or \<open>redistribute_pages\<close>.\<close>

theorem db_delete_correct:
  assumes "table_ok s t" "db_find key s = Inr (Some w)"
  shows "\<exists>s' t'. db_delete key s = Inr (0, s') \<and> table_ok s' t' \<and>
    offs t' = offs t \<and> length (pages s') = length (pages s) \<and>
    (\<forall>k. db_find k s' = (if k = key then Inr None else db_find k s))"
proof -
  have "lookup key (recs t) \<noteq> None" using assms(2) db_find_ok [OF assms(1)] by simp
  from db_delete_ok [OF assms(1) this] obtain s' t' where s': "db_delete key s = Inr (0, s')"
    "table_ok s' t'" "deleted key (recs t) (recs t')" "offs t' = offs t"
    "length (pages s') = length (pages s)" .
  then show ?thesis
    using deleted_lookup [OF s'(3)] db_find_ok [OF assms(1)] db_find_ok [OF s'(2)] by auto
qed


theorem insert_only_table_witness:
  "\<exists>s. call (open_table No_file) (\<lambda>(_, s). insert_run [(7, ''a''), (3, ''b''), (7, ''c'')] s) = Inr s \<and>
    (\<forall>k. db_find k s = Inr (map_of [(7, ''a''), (3, ''b''), (7, ''c'')] k))"
  by (rule insert_only_table) auto

theorem main_first_round_witness:
  "\<exists>s. call (open_table No_file) (\<lambda>(_, s). main_round 10000 ''1'' s) = Inr s \<and>
    (\<forall>k. db_find k s = Inr (if 0 \<le> k \<and> k < 10000 \<and> odd k then Some ''1'' else None))"
  using main_first_round [of "''1''" 10000] by simp

theorem db_insert_correct_witness:
  "\<exists>s t s' t'. table_ok s t \<and> db_insert 2 ''b'' s = Inr (0, s') \<and> table_ok s' t' \<and>
    (\<forall>k. db_find k s' = (if k = 2 then Inr (Some ''b'') else db_find k s))"
proof -
  obtain s where s: "db_insert 1 ''a'' empty_table = Inr (0, s)"
    "table_ok s (Leaf (page_off 0) [\<lparr>rkey = 1, logical_del = 0, rvalue = ''a''\<rparr>])"
    using first_insert [of "''a''" 1] by auto
  have "purge_free 2 s" by (rule unmarked_purge_free [OF s(2)]) (simp add: recs_def)
  from db_insert_correct [OF s(2) _ _ this, of "''b''"] s(2) show ?thesis
    by (fastforce simp: recs_def)
qed

theorem db_delete_correct_witness:
  "\<exists>s t s' t'. table_ok s t \<and> db_delete 1 s = Inr (0, s') \<and> table_ok s' t' \<and>
    offs t' = offs t \<and> length (pages s') = length (pages s) \<and>
    (\<forall>k. db_find k s' = (if k = 1 then Inr None else db_find k s))"
proof -
  obtain s where s: "db_insert 1 ''a'' empty_table = Inr (0, s)"
    "table_ok s (Leaf (page_off 0) [\<lparr>rkey = 1, logical_del = 0, rvalue = ''a''\<rparr>])"
    using first_insert [of "''a''" 1] by auto
  have "db_find 1 s = Inr (Some ''a'')"
    using db_find_ok [OF s(2), of 1] by (simp add: recs_def lookup_def)
  from db_delete_correct [OF s(2) this] s(2) show ?thesis by blast
qed

lemmas bpt_eval =
  insert_run_def delete_run_def db_insert_def db_delete_def db_find_def find_leaf_def search_fuel_def
  child_for_def scan_step purge_def insert_into_leaf_as_def split_leaf_def insert_into_leaf_def
  insert_into_new_root_def get_left_index_def insert_into_internal_def start_new_file_def
  remove_entry_from_page_def adjust_root_def open_table_def pwrite_hp_def pwrite_fpo_def
  load_header_def load_def load_page_def new_page_def reset_def pwrite_page_def page_no_def
  page_off_def blank_page_def zero_rcd_def zero_inter_def shift_up_def shift_down_def copy_slots_def
  spread_slots_def cut_def LEAF_MAX_def INTERNAL_MAX_def Let_def upt_conv_Cons

lemma each_weak_cong: "xs = xs' \<Longrightarrow> s = s' \<Longrightarrow> each f xs s = each f xs' s'" by simp

lemma scan_weak_cong: "n = n' \<Longrightarrow> i = i' \<Longrightarrow> scan P n i = scan P n' i'" by simp

lemmas bpt_cong = call_weak_cong let_weak_cong option.case_cong_weak each_weak_cong scan_weak_cong
  if_weak_cong

text \<open>A first filling, a deletion, and a second filling.\<close>

definition refill :: "(int \<times> string) list \<Rightarrow> int \<Rightarrow> (int \<times> string) list \<Rightarrow> bpt_error + table" where
  "refill kvs k new =
     call (open_table No_file) (\<lambda>(_, s). call (insert_run kvs s) (\<lambda>s. call (delete_run [k] s) (insert_run new)))"

text \<open>C31: What the purge of marked records breaks, for all positive keys \<open>a < b < c < d\<close> and all values.  After
  \<open>a\<close> and \<open>b\<close> are inserted, \<open>a\<close> deleted, \<open>c\<close> and \<open>d\<close> inserted, neither \<open>b\<close> nor \<open>c\<close> is found: the
  purge takes \<open>a\<close> out of the page, but the split is decided on the stale copy \<open>leafp\<close> and takes the
  slot that became empty, with key 0, for a record, so that 0 becomes the separator.  A key \<open>a\<close>
  that was deleted and inserted again stands twice in its leaf, and is lost when the leaf fills.\<close>

theorem purge_loses_records:
  assumes "0 < a" "a < b" "b < c" "c < d" "\<forall>y \<in> {u, v, w, x}. length y < 120"
  shows "(\<exists>s. refill [(a, u), (b, v)] a [(c, w), (d, x)] = Inr s \<and>
      db_find b s = Inr None \<and> db_find c s = Inr None \<and> db_find d s = Inr (Some x)) \<and>
    (\<exists>s. refill [(a, u)] a [(a, v), (b, w), (c, x)] = Inr s \<and>
      db_find a s = Inr None \<and> db_find b s = Inr None \<and> db_find c s = Inr (Some x))"
proof
  show "\<exists>s. refill [(a, u), (b, v)] a [(c, w), (d, x)] = Inr s \<and>
      db_find b s = Inr None \<and> db_find c s = Inr None \<and> db_find d s = Inr (Some x)"
    using assms by (simp add: refill_def bpt_eval cong: bpt_cong)
  show "\<exists>s. refill [(a, u)] a [(a, v), (b, w), (c, x)] = Inr s \<and>
      db_find a s = Inr None \<and> db_find b s = Inr None \<and> db_find c s = Inr (Some x)"
    using assms by (simp add: refill_def bpt_eval cong: bpt_cong)
qed

theorem purge_loses_records_witness:
  "\<exists>s. refill [(1, ''a''), (2, ''b'')] 1 [(3, ''c''), (4, ''d'')] = Inr s \<and> db_find 2 s = Inr None"
  using purge_loses_records [of 1 2 3 4 "''a''" "''b''" "''c''" "''d''"] by auto

text \<open>Emptying a root that is a leaf frees its page and forgets the root in memory, but the
  header keeps its offset: only the eight bytes of the free-page offset are written before the
  header is read back, so the root page is at once the root and the first free page.\<close>

theorem adjust_root_keeps_root_offset:
  assumes "rt s = Some root" "num_of_keys root = 0" "is_leaf root"
    and "load (rpo (hp s)) s = Inr p" "disk_hp s = hp s"
  shows "\<exists>s'. adjust_root d s = Inr s' \<and> rt s' = None \<and>
    rpo (hp s') = rpo (hp s) \<and> fpo (hp s') = rpo (hp s)"
proof -
  obtain i where i: "rpo (hp s) = page_off i" "i < length (pages s)"
    using assms(4) by (auto simp: load_iff)
  then show ?thesis
    using assms by (simp add: adjust_root_def usetofree_def load_def load_page_def pwrite_page_def
        pwrite_fpo_def load_header_def Let_def)
qed

definition hollow_table :: table where
  "hollow_table =
     (let p = blank_page\<lparr>is_leaf := True\<rparr>; h = \<lparr>fpo = 0, rpo = 4096, num_of_pages = 2\<rparr>
      in \<lparr>disk_hp = h, pages = [p], hp = h, rt = Some p\<rparr>)"

theorem adjust_root_keeps_root_offset_witness:
  "\<exists>s'. adjust_root 4096 hollow_table = Inr s' \<and> rt s' = None \<and>
    rpo (hp s') = rpo (hp hollow_table) \<and> fpo (hp s') = rpo (hp hollow_table)"
  by (rule adjust_root_keeps_root_offset [where root = "blank_page\<lparr>is_leaf := True\<rparr>"])
    (simp_all add: hollow_table_def Let_def blank_page_def load_def load_page_def page_no_def)

text \<open>Freeing a page and allocating one gives the same page back, cleared of its links, and
  leaves the header and every other page as they were.\<close>

theorem free_page_roundtrip:
  assumes "load wbf s = Inr p" "disk_hp s = hp s"
  shows "\<exists>s1 s2 i. usetofree wbf s = Inr s1 \<and> new_page s1 = Inr (wbf, s2) \<and>
    hp s2 = hp s \<and> disk_hp s2 = hp s \<and> rt s2 = rt s \<and> wbf = page_off i \<and>
    pages s2 = (pages s)[i := p\<lparr>parent_page_offset := 0, is_leaf := False, num_of_keys := 0,
      next_offset := 0\<rparr>]"
proof -
  obtain i where i: "wbf = page_off i" "i < length (pages s)" "p = pages s ! i"
    using assms(1) by (auto simp: load_iff)
  then show ?thesis
    using assms by (simp add: usetofree_def new_page_def freetouse_def load_def load_page_def
        pwrite_page_def pwrite_fpo_def load_header_def Let_def)
qed

theorem free_page_roundtrip_witness:
  "\<exists>s1 s2 i. usetofree 4096 hollow_table = Inr s1 \<and> new_page s1 = Inr (4096, s2) \<and>
    hp s2 = hp hollow_table \<and> disk_hp s2 = hp hollow_table \<and> rt s2 = rt hollow_table \<and>
    4096 = page_off i \<and>
    pages s2 = (pages hollow_table)[i := (blank_page\<lparr>is_leaf := True\<rparr>)\<lparr>parent_page_offset := 0,
      is_leaf := False, num_of_keys := 0, next_offset := 0\<rparr>]"
  by (rule free_page_roundtrip)
    (simp_all add: hollow_table_def Let_def blank_page_def load_def load_page_def page_no_def)

section \<open>The fuel of a search\<close>

text \<open>More fuel changes nothing.\<close>

lemma descend_more: "descend n key loc s = Inr a \<Longrightarrow> descend (n + k) key loc s = Inr a"
proof (induction n arbitrary: loc)
  case (Suc n)
  then show ?case by (auto simp: call_eq_Inr split: if_splits)
qed simp

lemma load_not_Diverges: "load a s \<noteq> Inl Diverges"
  by (auto simp: load_def load_page_def call_eq_Inl split: option.splits if_splits)

lemma descend_Diverges:
  assumes "inner = (\<lambda>loc. \<exists>p. load loc s = Inr p \<and> \<not> is_leaf p)"
    and "step = (\<lambda>loc. case load loc s of Inl _ \<Rightarrow> loc | Inr p \<Rightarrow> child_for key p)"
  shows "descend n key loc s = Inl Diverges \<longleftrightarrow> (\<forall>i < n. inner ((step ^^ i) loc))"
proof (induction n arbitrary: loc)
  case (Suc n)
  show ?case
  proof (cases "inner loc")
    case True
    then obtain p where "load loc s = Inr p" "\<not> is_leaf p" using assms(1) by auto
    moreover from this have "step loc = child_for key p" by (simp add: assms(2))
    ultimately show ?thesis
      using Suc.IH [of "step loc"] True by (auto simp: funpow_swap1 less_Suc_eq_0_disj)
  next
    case False
    then have "descend (Suc n) key loc s \<noteq> Inl Diverges"
      using load_not_Diverges [of loc s] assms(1) by (auto simp: call_eq_Inl)
    moreover have "\<not> (\<forall>i < Suc n. inner ((step ^^ i) loc))" using False by force
    ultimately show ?thesis by blast
  qed
qed simp

lemma periodic:
  fixes f :: "'a \<Rightarrow> 'a"
  assumes "\<forall>i < n. P ((f ^^ i) x)" "i < j" "j < n" "(f ^^ i) x = (f ^^ j) x"
  shows "P ((f ^^ k) x)"
proof (induction k rule: less_induct)
  case (less k)
  show ?case
  proof (cases "k < n")
    case False
    then have k: "k = (k - j) + j" using assms(3) by simp
    then have "(f ^^ k) x = (f ^^ (k - j)) ((f ^^ j) x)" by (metis comp_apply funpow_add)
    also have "\<dots> = (f ^^ (k - j + i)) x" by (simp add: funpow_add assms(4))
    finally show ?thesis using less.IH [of "k - j + i"] assms(2,3) False by simp
  qed (use assms(1) in blast)
qed

text \<open>A search that exhausts its fuel visits a page twice, and never ends with any amount of fuel.\<close>

theorem search_fuel_exact:
  assumes "descend (search_fuel s) key loc s = Inl Diverges"
  shows "descend n key loc s = Inl Diverges"
proof -
  define inner where "inner = (\<lambda>loc. \<exists>p. load loc s = Inr p \<and> \<not> is_leaf p)"
  define step where "step = (\<lambda>loc. case load loc s of Inl _ \<Rightarrow> loc | Inr p \<Rightarrow> child_for key p)"
  note dd = descend_Diverges [OF inner_def step_def]
  let ?L = "length (pages s)" and ?g = "\<lambda>i. (step ^^ i) loc"
  have all: "\<forall>i < Suc ?L. inner (?g i)" using assms unfolding search_fuel_def dd .
  have "?g ` {..?L} \<subseteq> page_off ` {..<?L}"
    using all by (auto simp: inner_def load_iff less_Suc_eq_le)
  then have "card (?g ` {..?L}) \<le> card (page_off ` {..<?L})" by (intro card_mono) auto
  also have "\<dots> \<le> ?L" using card_image_le [of "{..<?L}" page_off] by simp
  finally have "\<not> inj_on ?g {..?L}" using card_image [of ?g "{..?L}"] by auto
  then obtain i j where "i < j" "j < Suc ?L" "?g i = ?g j"
    unfolding inj_on_def by (metis atMost_iff less_Suc_eq_le linorder_neqE_nat)
  from periodic [OF all this] show ?thesis using dd by blast
qed

text \<open>An internal page without keys that is its own first child.\<close>

definition looping_table :: table where
  "looping_table =
     (let p = blank_page\<lparr>next_offset := 4096\<rparr>; h = \<lparr>fpo = 0, rpo = 4096, num_of_pages = 2\<rparr>
      in \<lparr>disk_hp = h, pages = [p], hp = h, rt = Some p\<rparr>)"

theorem search_fuel_exact_witness:
  "\<forall>n. descend n 5 4096 looping_table = Inl Diverges"
proof
  fix n
  have "descend (search_fuel looping_table) 5 4096 looping_table = Inl Diverges"
    by (simp add: looping_table_def bpt_eval cong: bpt_cong)
  then show "descend n 5 4096 looping_table = Inl Diverges" by (rule search_fuel_exact)
qed

text \<open>C29: A search in a well-formed table ends: it reads at most as many pages as the file has, and
  stops at the one leaf where the key belongs, the leaves before it having smaller keys only and those
  behind it larger ones.\<close>

theorem search_ends_at_leaf:
  assumes "table_ok s t"
  shows "\<exists>a p ls rs. find_leaf key s = Inr a \<and> descend (length (pages s)) key (rpo (hp s)) s = Inr a \<and>
    load a s = Inr p \<and> is_leaf p \<and> leaves t = ls @ map (records p) [0..<num_of_keys p] # rs \<and>
    (\<forall>l \<in> set ls. \<forall>r \<in> set l. rkey r < key) \<and> (\<forall>l \<in> set rs. \<forall>r \<in> set l. key < rkey r)"
proof -
  have t: "holds s (expected 0 t)" "wfn t" "sorted_wrt (<) (flat t)" "length (offs t) \<le> length (pages s)"
      "rooted s (off t)"
    using assms offs_le_pages [of s 0 t] by (simp_all add: table_ok_def tree_at_def)
  obtain C a rs where C: "t = plugs C (Leaf a rs)" "descend (length (pages s)) key (off t) s = Inr a" "on_way key C"
    using descend_ok [OF t(1-4)] by blast
  have "descend (search_fuel s) key (off t) s = Inr a"
    using descend_more [OF C(2), of 1] by (simp add: search_fuel_def)
  then have f: "find_leaf key s = Inr a" "rpo (hp s) = off t" using t(5) by (auto simp: find_leaf_def rooted_def)
  obtain p where p: "load a s = Inr p" "view_of p = Leaf_view (par_of C) rs"
    using leaf_at_plugs t(1) unfolding C(1) by metis
  have "is_leaf p" "rs = map (records p) [0..<num_of_keys p]" using p(2) by (auto simp: view_of_def split: if_splits)
  moreover have "leaves t = lleaves C @ rs # rleaves C" by (simp add: C(1) leaves_plugs)
  moreover have "\<forall>l \<in> set (lleaves C). \<forall>r \<in> set l. rkey r < key" "\<forall>l \<in> set (rleaves C). \<forall>r \<in> set l. key < rkey r"
    using on_way_keys [OF C(3)] by auto
  ultimately show ?thesis using C(2) [folded f(2)] f(1) p(1) by blast
qed

text \<open>At a table with two leaves.\<close>

theorem search_ends_at_leaf_witness:
  "\<exists>s t a p. insert_run [(1, ''a''), (2, ''b''), (3, ''c''), (4, ''d'')] empty_table = Inr s \<and> table_ok s t \<and>
     find_leaf 4 s = Inr a \<and> load a s = Inr p \<and> is_leaf p \<and> descend (length (pages s)) 4 (rpo (hp s)) s = Inr a"
proof -
  let ?kvs = "[(1 :: int, ''a''), (2, ''b''), (3, ''c''), (4, ''d'')]"
  obtain s where s: "insert_run ?kvs empty_table = Inr s" "bpt_inv s"
    using insert_run_first [of ?kvs] by auto
  then obtain t where "table_ok s t" by (auto simp: bpt_inv_def)
  with s(1) search_ends_at_leaf [OF this, of 4] show ?thesis by blast
qed

end
