(* ===== verification/Cstring.thy ===== *)
theory Cstring
  imports Prelude "HOL-Library.Char_ord"
begin

text \<open>
  The string and memory routines of the file-system kernel (\<open>string.c\<close>).  A C string is a list
  of characters that a read past its end completes with the null character; an array of
  characters is a list of its length.  The routines on raw memory work on a map from addresses
  to bytes.
\<close>

abbreviation NUL :: char where "NUL \<equiv> CHR 0x00"

definition c_hd :: "string \<Rightarrow> char" where
  "c_hd s = (case s of [] \<Rightarrow> NUL | c # _ \<Rightarrow> c)"

lemma c_hd_simps [simp]: "c_hd [] = NUL" "c_hd (c # s) = c"
  by (simp_all add: c_hd_def)

text \<open>What a C string says: the characters in front of the first null character.\<close>

definition cstr :: "string \<Rightarrow> string" where
  "cstr s = takeWhile (\<lambda>c. c \<noteq> NUL) s"

lemma cstr_simps [simp]: "cstr [] = []" "cstr (c # s) = (if c = NUL then [] else c # cstr s)"
  by (simp_all add: cstr_def)

section \<open>Strings\<close>

fun strncmp :: "string \<Rightarrow> string \<Rightarrow> nat \<Rightarrow> int" where
  "strncmp p q 0 = 0"
| "strncmp p q (Suc n) =
     (if c_hd p \<noteq> NUL \<and> c_hd p = c_hd q then strncmp (tl p) (tl q) n
      else of_char (c_hd p) - of_char (c_hd q))"

text \<open>The \<open>n\<close> characters that \<open>strncpy\<close> writes.\<close>

fun strncpy_out :: "nat \<Rightarrow> string \<Rightarrow> string" where
  "strncpy_out 0 t = []"
| "strncpy_out (Suc n) t =
     (if c_hd t = NUL then replicate (Suc n) NUL else c_hd t # strncpy_out n (tl t))"

definition strncpy :: "string \<Rightarrow> string \<Rightarrow> nat \<Rightarrow> string" where
  "strncpy s t n = strncpy_out n t @ drop n s"

text \<open>\<open>while(--n > 0 && (*s++ = *t++) != 0);\<close> with \<open>n\<close> copies left.\<close>

fun safe_copy :: "nat \<Rightarrow> string \<Rightarrow> string" where
  "safe_copy 0 t = []"
| "safe_copy (Suc n) t = (if c_hd t = NUL then [NUL] else c_hd t # safe_copy n (tl t))"

definition safestrcpy :: "string \<Rightarrow> string \<Rightarrow> nat \<Rightarrow> string" where
  "safestrcpy s t n =
     (if n = 0 then s
      else let w = safe_copy (n - 1) t @ [NUL] in w @ drop (length w) s)"

fun strlen :: "string \<Rightarrow> nat" where
  "strlen s = (case s of [] \<Rightarrow> 0 | c # s' \<Rightarrow> if c = NUL then 0 else Suc (strlen s'))"

section \<open>Memory\<close>

type_synonym bytes = "nat \<Rightarrow> char"

fun memcmp :: "bytes \<Rightarrow> nat \<Rightarrow> nat \<Rightarrow> nat \<Rightarrow> int" where
  "memcmp m s1 s2 0 = 0"
| "memcmp m s1 s2 (Suc n) =
     (if m s1 \<noteq> m s2 then of_char (m s1) - of_char (m s2) else memcmp m (s1 + 1) (s2 + 1) n)"

definition stosb :: "nat \<Rightarrow> char \<Rightarrow> nat \<Rightarrow> bytes \<Rightarrow> bytes" where
  "stosb dst c n m = fold (\<lambda>i m. m(dst + i := c)) [0..<n] m"

text \<open>\<open>stosl\<close> with the word of four bytes \<open>c\<close>.\<close>

definition stosl :: "nat \<Rightarrow> char \<Rightarrow> nat \<Rightarrow> bytes \<Rightarrow> bytes" where
  "stosl dst c n m =
     fold (\<lambda>i m. m(dst + 4 * i := c, dst + 4 * i + 1 := c, dst + 4 * i + 2 := c, dst + 4 * i + 3 := c))
       [0..<n] m"

definition memset :: "nat \<Rightarrow> char \<Rightarrow> nat \<Rightarrow> bytes \<Rightarrow> bytes" where
  "memset dst c n m =
     (if dst mod 4 = 0 \<and> n mod 4 = 0 then stosl dst c (n div 4) m else stosb dst c n m)"

fun copy_backward :: "nat \<Rightarrow> nat \<Rightarrow> nat \<Rightarrow> bytes \<Rightarrow> bytes" where
  "copy_backward d s 0 m = m"
| "copy_backward d s (Suc n) m = copy_backward (d - 1) (s - 1) n (m(d - 1 := m (s - 1)))"

fun copy_forward :: "nat \<Rightarrow> nat \<Rightarrow> nat \<Rightarrow> bytes \<Rightarrow> bytes" where
  "copy_forward d s 0 m = m"
| "copy_forward d s (Suc n) m = copy_forward (d + 1) (s + 1) n (m(d := m s))"

definition memmove :: "nat \<Rightarrow> nat \<Rightarrow> nat \<Rightarrow> bytes \<Rightarrow> bytes" where
  "memmove dst src n m =
     (if src < dst \<and> src + n > dst then copy_backward (dst + n) (src + n) n m
      else copy_forward dst src n m)"

definition memcpy :: "nat \<Rightarrow> nat \<Rightarrow> nat \<Rightarrow> bytes \<Rightarrow> bytes" where
  "memcpy dst src n m = memmove dst src n m"

section \<open>Lemmas\<close>

lemma strncmp_eq: "strncmp p q n = 0 \<longleftrightarrow> take n (cstr p) = take n (cstr q)"
proof (induction p q n rule: strncmp.induct)
  case (2 p q n)
  show ?case
  proof (cases "c_hd p \<noteq> NUL \<and> c_hd p = c_hd q")
    case True
    then obtain c p' q' where "p = c # p'" "q = c # q'" "c \<noteq> NUL" by (cases p; cases q) auto
    then show ?thesis using 2 by simp
  next
    case False
    then have "c_hd p = c_hd q \<longleftrightarrow> take (Suc n) (cstr p) = take (Suc n) (cstr q)"
      by (cases p; cases q) auto
    moreover have "strncmp p q (Suc n) = of_char (c_hd p) - of_char (c_hd q)" using False by auto
    ultimately show ?thesis by simp
  qed
qed simp

lemma length_strncpy_out [simp]: "length (strncpy_out n t) = n"
  by (induction n t rule: strncpy_out.induct) auto

lemma cstr_replicate [simp]: "cstr (replicate n NUL @ s) = (if n = 0 then cstr s else [])"
  by (cases n) auto

lemma take_cstr_strncpy: "take n (cstr (strncpy_out n t @ s)) = take n (cstr t)"
proof (induction n t rule: strncpy_out.induct)
  case (2 n t)
  then show ?case by (cases t) auto
qed simp

lemma length_strncpy: "n \<le> length s \<Longrightarrow> length (strncpy s t n) = length s"
  by (simp add: strncpy_def)

text \<open>A string compares equal to its copy.\<close>

lemma strncmp_strncpy: "strncmp (strncpy s t n) u n = 0 \<longleftrightarrow> strncmp t u n = 0"
  by (simp add: strncmp_eq strncpy_def take_cstr_strncpy)

lemma strncmp_out: "strncmp (strncpy_out n t) u n = 0 \<longleftrightarrow> strncmp t u n = 0"
  using take_cstr_strncpy [of n t "[]"] by (simp add: strncmp_eq)

lemma strncmp_out_right: "strncmp u (strncpy_out n t) n = 0 \<longleftrightarrow> strncmp u t n = 0"
  using take_cstr_strncpy [of n t "[]"] by (simp add: strncmp_eq)

lemma strncmp_sym: "strncmp p q n = 0 \<longleftrightarrow> strncmp q p n = 0"
  by (auto simp: strncmp_eq)

lemma strlen_cstr: "strlen s = length (cstr s)"
  by (induction s) auto

lemma safestrcpy_terminates:
  "0 < n \<Longrightarrow> cstr (safestrcpy s t n) = take (n - 1) (cstr t)"
proof -
  have "cstr (safe_copy k t @ NUL # r) = take k (cstr t)" for k r
    by (induction k t rule: safe_copy.induct) (auto split: list.split, (case_tac t; auto)+)
  then show "0 < n \<Longrightarrow> ?thesis" by (simp add: safestrcpy_def Let_def)
qed

lemma stosb_apply: "stosb dst c n m a = (if dst \<le> a \<and> a < dst + n then c else m a)"
  by (induction n arbitrary: a) (auto simp: stosb_def less_Suc_eq)

lemma stosl_apply: "stosl dst c n m a = (if dst \<le> a \<and> a < dst + 4 * n then c else m a)"
  by (induction n arbitrary: a) (auto simp: stosl_def)

lemma memset_apply: "memset dst c n m a = (if dst \<le> a \<and> a < dst + n then c else m a)"
  by (auto simp: memset_def stosb_apply stosl_apply)

lemma copy_forward_apply:
  "d \<le> s \<or> s + n \<le> d \<Longrightarrow>
     copy_forward d s n m a = (if d \<le> a \<and> a < d + n then m (s + (a - d)) else m a)"
proof (induction d s n m rule: copy_forward.induct)
  case (2 d s n m)
  have "copy_forward (d + 1) (s + 1) n (m(d := m s)) a =
      (if d + 1 \<le> a \<and> a < d + 1 + n then (m(d := m s)) (s + 1 + (a - (d + 1))) else (m(d := m s)) a)"
    using 2(1) [folded fun_upd_def] 2(2) by fastforce
  then show ?case using 2(2) by (cases "a = d") (auto intro: arg_cong [of _ _ m])
qed auto

lemma copy_backward_apply:
  "s \<le> d \<Longrightarrow> n \<le> s \<Longrightarrow>
     copy_backward d s n m a = (if d - n \<le> a \<and> a < d then m (s - (d - a)) else m a)"
proof (induction d s n m rule: copy_backward.induct)
  case (2 d s n m)
  have "copy_backward (d - 1) (s - 1) n (m(d - 1 := m (s - 1))) a =
      (if d - 1 - n \<le> a \<and> a < d - 1 then (m(d - 1 := m (s - 1))) (s - 1 - (d - 1 - a))
       else (m(d - 1 := m (s - 1))) a)"
    using 2(1) [folded fun_upd_def] 2(2,3) by fastforce
  then show ?case using 2(2,3) by (cases "a = d - 1") (auto intro: arg_cong [of _ _ m])
qed auto

section \<open>Numbers in memory\<close>

text \<open>The little-endian numbers of the on-disk structures.\<close>

definition get16 :: "nat \<Rightarrow> bytes \<Rightarrow> nat" where
  "get16 a m = of_char (m a) + 256 * of_char (m (a + 1))"

definition put16 :: "nat \<Rightarrow> nat \<Rightarrow> bytes \<Rightarrow> bytes" where
  "put16 a v m = m(a := char_of v, a + 1 := char_of (v div 256))"

definition get32 :: "nat \<Rightarrow> bytes \<Rightarrow> nat" where
  "get32 a m = get16 a m + 65536 * get16 (a + 2) m"

definition put32 :: "nat \<Rightarrow> nat \<Rightarrow> bytes \<Rightarrow> bytes" where
  "put32 a v m = put16 (a + 2) (v div 65536) (put16 a v m)"

lemma get16_put16: "get16 a (put16 a v m) = v mod 65536"
proof -
  have "v mod 65536 = v mod 256 + 256 * (v div 256 mod 256)"
    using mod_mult2_eq [of v 256 256] by simp
  then show ?thesis by (simp add: get16_def put16_def)
qed

lemma get16_put16_other: "a + 2 \<le> b \<or> b + 2 \<le> a \<Longrightarrow> get16 a (put16 b v m) = get16 a m"
  by (auto simp: get16_def put16_def)

lemma get32_put32: "get32 a (put32 a v m) = v mod 4294967296"
proof -
  have "v mod 4294967296 = v mod 65536 + 65536 * (v div 65536 mod 65536)"
    using mod_mult2_eq [of v 65536 65536] by simp
  then show ?thesis by (simp add: get32_def put32_def get16_put16 get16_put16_other)
qed

lemma get32_put32_other: "a + 4 \<le> b \<or> b + 4 \<le> a \<Longrightarrow> get32 a (put32 b v m) = get32 a m"
  by (auto simp: get32_def put32_def get16_put16_other)

lemma get16_put32_other: "a + 2 \<le> b \<or> b + 4 \<le> a \<Longrightarrow> get16 a (put32 b v m) = get16 a m"
  by (auto simp: put32_def get16_put16_other)

lemma get32_put16_other: "a + 4 \<le> b \<or> b + 2 \<le> a \<Longrightarrow> get32 a (put16 b v m) = get32 a m"
  by (auto simp: get32_def get16_put16_other)

lemma put16_other: "x \<noteq> a \<Longrightarrow> x \<noteq> a + 1 \<Longrightarrow> put16 a v m x = m x"
  by (simp add: put16_def)

lemma put32_other: "x < a \<or> a + 4 \<le> x \<Longrightarrow> put32 a v m x = m x"
  by (auto simp: put32_def put16_def)

lemma get16_less: "get16 a m < 65536"
proof -
  have "(of_char (m a) :: nat) < 256" "(of_char (m (a + 1)) :: nat) < 256" by simp_all
  then show ?thesis unfolding get16_def by linarith
qed

lemma get32_less: "get32 a m < 4294967296"
  using get16_less [of a m] get16_less [of "a + 2" m] by (simp add: get32_def)

text \<open>\<open>memmove\<close> copies as if through a buffer, however the two ranges overlap.\<close>

theorem memmove_overlap:
  "memmove dst src n m = (\<lambda>a. if dst \<le> a \<and> a < dst + n then m (src + (a - dst)) else m a)"
  by (auto simp: memmove_def copy_forward_apply copy_backward_apply fun_eq_iff
      intro: arg_cong [of _ _ m])

section \<open>The modes of \<open>open\<close>\<close>

text \<open>\<open>fcntl.h\<close>, which the kernel and the programs share.\<close>

definition O_RDONLY :: nat where "O_RDONLY = 0"
definition O_WRONLY :: nat where "O_WRONLY = 1"
definition O_RDWR :: nat where "O_RDWR = 2"
definition O_CREATE :: nat where "O_CREATE = 0x200"

end
