(* ===== verification/Bio.thy ===== *)
theory Bio
  imports Cstring
begin

text \<open>
  The buffer cache of the file-system kernel (\<open>bio.c\<close>, \<open>buf.h\<close>, \<open>sleeplock.c\<close>) on top of the
  disk driver (\<open>ide.c\<close>, whose queue is in \<open>Ide\<close>).  The doubly linked list of buffers is the list \<open>mru\<close> of buffer numbers
  from \<open>head.next\<close> to \<open>head.prev\<close>.  The driver is modelled by what a finished request has done:
  a request for a dirty buffer has written the sector, another one has read it; a sector is
  written as a whole or not at all, and the disk reports no errors.  The field \<open>written\<close> is the
  history of the sectors written.  A call that would wait for a sleep-lock is \<open>Diverge\<close>.
\<close>

definition BSIZE :: nat where "BSIZE = 512"
definition FSSIZE :: nat where "FSSIZE = 1000"
definition ROOTDEV :: nat where "ROOTDEV = 1"
definition MAXOPBLOCKS :: nat where "MAXOPBLOCKS = 10"
definition NBUF :: nat where "NBUF = MAXOPBLOCKS * 3"

section \<open>State\<close>

text \<open>A sleep-lock is the process that holds it.\<close>

type_synonym sleeplock = "nat option"

record buf =
  b_valid :: bool
  b_dirty :: bool
  b_dev :: nat
  b_blockno :: nat
  b_lock :: sleeplock
  b_refcnt :: i32
  b_data :: bytes

record bio =
  bufs :: "nat \<Rightarrow> buf"
  mru :: "nat list"
  me :: nat
  disk :: "nat \<Rightarrow> nat \<Rightarrow> bytes"
  havedisk1 :: bool
  written :: "(nat \<times> nat \<times> bytes) list"

definition upd_buf :: "nat \<Rightarrow> (buf \<Rightarrow> buf) \<Rightarrow> 'a bio_scheme \<Rightarrow> 'a bio_scheme" where
  "upd_buf i f s = s\<lparr>bufs := (bufs s)(i := f (bufs s i))\<rparr>"

section \<open>Sleep-locks\<close>

definition initsleeplock :: sleeplock where "initsleeplock = None"

definition acquiresleep :: "nat \<Rightarrow> sleeplock \<Rightarrow> sleeplock kres" where
  "acquiresleep p lk = (case lk of None \<Rightarrow> Inr (Some p) | Some _ \<Rightarrow> Inl Diverge)"

definition releasesleep :: "sleeplock \<Rightarrow> sleeplock" where "releasesleep lk = None"

definition holdingsleep :: "nat \<Rightarrow> sleeplock \<Rightarrow> bool" where "holdingsleep p lk \<longleftrightarrow> lk = Some p"

definition lock_buf :: "nat \<Rightarrow> 'a bio_scheme \<Rightarrow> 'a bio_scheme kres" where
  "lock_buf i s =
     call (acquiresleep (me s) (b_lock (bufs s i))) (\<lambda>lk. Inr (upd_buf i (b_lock_update (\<lambda>_. lk)) s))"

section \<open>The disk\<close>

text \<open>\<open>idestart\<close> selects the drive by the lowest bit of the device number.\<close>

definition drive :: "nat \<Rightarrow> nat" where "drive d = d mod 2"

definition idestart :: "nat \<Rightarrow> 'a bio_scheme \<Rightarrow> 'a bio_scheme kres" where
  "idestart i s =
     (let b = bufs s i in
      if FSSIZE \<le> b_blockno b then Inl (Panic ''incorrect blockno'')
      else if b_dirty b then
        Inr (s\<lparr>disk := (disk s)(drive (b_dev b) := (disk s (drive (b_dev b)))(b_blockno b := b_data b)),
               written := written s @ [(drive (b_dev b), b_blockno b, b_data b)]\<rparr>)
      else Inr (upd_buf i (b_data_update (\<lambda>_. disk s (drive (b_dev b)) (b_blockno b))) s))"

definition ideintr :: "nat \<Rightarrow> 'a bio_scheme \<Rightarrow> 'a bio_scheme" where
  "ideintr i s = upd_buf i (\<lambda>b. b\<lparr>b_valid := True, b_dirty := False\<rparr>) s"

definition iderw :: "nat \<Rightarrow> 'a bio_scheme \<Rightarrow> 'a bio_scheme kres" where
  "iderw i s =
     (if \<not> holdingsleep (me s) (b_lock (bufs s i)) then Inl (Panic ''iderw: buf not locked'')
      else if b_valid (bufs s i) \<and> \<not> b_dirty (bufs s i) then Inl (Panic ''iderw: nothing to do'')
      else if b_dev (bufs s i) \<noteq> 0 \<and> \<not> havedisk1 s then Inl (Panic ''iderw: ide disk 1 not present'')
      else call (idestart i s) (\<lambda>s1. Inr (ideintr i s1)))"

section \<open>The cache\<close>

definition empty_buf :: buf where
  "empty_buf = \<lparr>b_valid = False, b_dirty = False, b_dev = 0, b_blockno = 0, b_lock = initsleeplock,
     b_refcnt = 0, b_data = (\<lambda>_. NUL)\<rparr>"

text \<open>\<open>binit\<close> links each buffer in front of the ones before it.\<close>

definition binit :: "'a bio_scheme \<Rightarrow> 'a bio_scheme" where
  "binit s = fold (\<lambda>b s. (upd_buf b (b_lock_update (\<lambda>_. initsleeplock)) s)\<lparr>mru := b # mru s\<rparr>) [0..<NBUF]
     (s\<lparr>mru := []\<rparr>)"

definition bget :: "nat \<Rightarrow> nat \<Rightarrow> 'a bio_scheme \<Rightarrow> (nat \<times> 'a bio_scheme) kres" where
  "bget d blockno s =
     (case find (\<lambda>i. b_dev (bufs s i) = d \<and> b_blockno (bufs s i) = blockno) (mru s) of
        Some i \<Rightarrow>
          call (lock_buf i (upd_buf i (\<lambda>b. b\<lparr>b_refcnt := b_refcnt b + 1\<rparr>) s)) (\<lambda>s1. Inr (i, s1))
      | None \<Rightarrow>
          (case find (\<lambda>i. b_refcnt (bufs s i) = 0 \<and> \<not> b_dirty (bufs s i)) (rev (mru s)) of
             Some i \<Rightarrow>
               call (lock_buf i (upd_buf i (\<lambda>b. b\<lparr>b_dev := d, b_blockno := blockno,
                 b_valid := False, b_dirty := False, b_refcnt := 1\<rparr>) s)) (\<lambda>s1. Inr (i, s1))
           | None \<Rightarrow> Inl (Panic ''bget: no buffers'')))"

definition bread :: "nat \<Rightarrow> nat \<Rightarrow> 'a bio_scheme \<Rightarrow> (nat \<times> 'a bio_scheme) kres" where
  "bread d blockno s =
     call (bget d blockno s) (\<lambda>(i, s1).
       if \<not> b_valid (bufs s1 i) then call (iderw i s1) (\<lambda>s2. Inr (i, s2)) else Inr (i, s1))"

definition bwrite :: "nat \<Rightarrow> 'a bio_scheme \<Rightarrow> 'a bio_scheme kres" where
  "bwrite i s =
     (if \<not> holdingsleep (me s) (b_lock (bufs s i)) then Inl (Panic ''bwrite'')
      else iderw i (upd_buf i (b_dirty_update (\<lambda>_. True)) s))"

definition brelse :: "nat \<Rightarrow> 'a bio_scheme \<Rightarrow> 'a bio_scheme kres" where
  "brelse i s =
     (if \<not> holdingsleep (me s) (b_lock (bufs s i)) then Inl (Panic ''brelse'')
      else let s1 = upd_buf i (\<lambda>b. b\<lparr>b_lock := releasesleep (b_lock b), b_refcnt := b_refcnt b - 1\<rparr>) s
        in if b_refcnt (bufs s1 i) = 0 then Inr (s1\<lparr>mru := i # remove1 i (mru s1)\<rparr>) else Inr s1)"

text \<open>\<open>memmove\<close> into the data of a buffer and other changes of it by its holder.\<close>

definition upd_data :: "nat \<Rightarrow> (bytes \<Rightarrow> bytes) \<Rightarrow> 'a bio_scheme \<Rightarrow> 'a bio_scheme" where
  "upd_data i f s = upd_buf i (\<lambda>b. b\<lparr>b_data := f (b_data b)\<rparr>) s"

section \<open>What the cache represents\<close>

text \<open>
  \<open>rep s v H D M\<close>: the processes see the blocks \<open>v\<close> of the root device; \<open>H\<close> holds the locked
  buffers with their blocks, \<open>D\<close> the blocks pinned by their dirty flag, \<open>M\<close> the blocks that their
  holder has changed without writing them yet.  Every other block is on the disk as it is seen.
\<close>

definition held :: "'a bio_scheme \<Rightarrow> (nat \<times> nat) set" where
  "held s = {(i, b_blockno (bufs s i)) | i. i < NBUF \<and> b_lock (bufs s i) \<noteq> None}"

definition dirties :: "'a bio_scheme \<Rightarrow> nat set" where
  "dirties s = {b_blockno (bufs s i) | i. i < NBUF \<and> b_dirty (bufs s i)}"

definition cache_ok :: "'a bio_scheme \<Rightarrow> (nat \<Rightarrow> bytes) \<Rightarrow> bool" where
  "cache_ok s v \<longleftrightarrow>
     distinct (mru s) \<and> set (mru s) = {..<NBUF} \<and> havedisk1 s \<and>
     (\<forall>i < NBUF. \<forall>j < NBUF. b_dev (bufs s i) = ROOTDEV \<longrightarrow> b_dev (bufs s j) = ROOTDEV \<longrightarrow>
        b_blockno (bufs s i) = b_blockno (bufs s j) \<longrightarrow> i = j) \<and>
     (\<forall>i < NBUF. b_lock (bufs s i) = None \<and> b_refcnt (bufs s i) = 0 \<or>
        b_lock (bufs s i) = Some (me s) \<and> b_refcnt (bufs s i) = 1 \<and> b_dev (bufs s i) = ROOTDEV \<and>
        b_valid (bufs s i)) \<and>
     (\<forall>i < NBUF. b_dirty (bufs s i) \<longrightarrow> b_dev (bufs s i) = ROOTDEV \<and> b_valid (bufs s i)) \<and>
     (\<forall>i < NBUF. b_dev (bufs s i) = ROOTDEV \<longrightarrow> b_valid (bufs s i) \<longrightarrow>
        b_data (bufs s i) = v (b_blockno (bufs s i)))"

definition rep :: "'a bio_scheme \<Rightarrow> (nat \<Rightarrow> bytes) \<Rightarrow> (nat \<times> nat) set \<Rightarrow> nat set \<Rightarrow> nat set \<Rightarrow> bool" where
  "rep s v H D M \<longleftrightarrow>
     cache_ok s v \<and> H = held s \<and> D = dirties s \<and> M \<subseteq> snd ` H \<and>
     (\<forall>b. b \<notin> D \<longrightarrow> b \<notin> M \<longrightarrow> disk s (drive ROOTDEV) b = v b)"

definition same_but_cache :: "'a bio_scheme \<Rightarrow> 'a bio_scheme \<Rightarrow> bool" where
  "same_but_cache s t \<longleftrightarrow> me t = me s \<and> disk t = disk s \<and> havedisk1 t = havedisk1 s \<and>
     written t = written s \<and> bio.more t = bio.more s"

lemma NBUF_30: "NBUF = 30" by (simp add: NBUF_def MAXOPBLOCKS_def)

lemma find_SomeD: "find P xs = Some x \<Longrightarrow> x \<in> set xs \<and> P x"
  by (auto simp: find_Some_iff)

lemma rep_free_buffer:
  assumes r: "rep s v H D M" and c: "card (D \<union> snd ` H) < NBUF"
  shows "find (\<lambda>i. b_refcnt (bufs s i) = 0 \<and> \<not> b_dirty (bufs s i)) (rev (mru s)) \<noteq> None"
proof
  let ?P = "\<lambda>i. b_refcnt (bufs s i) = 0 \<and> \<not> b_dirty (bufs s i)"
  assume "find ?P (rev (mru s)) = None"
  then have busy: "\<And>i. i < NBUF \<Longrightarrow> b_refcnt (bufs s i) \<noteq> 0 \<or> b_dirty (bufs s i)"
    using r by (auto simp: find_None_iff rep_def cache_ok_def)
  have dev: "b_dev (bufs s i) = ROOTDEV" if "i < NBUF" for i
    using busy [OF that] r that unfolding rep_def cache_ok_def held_def dirties_def by auto
  have "inj_on (\<lambda>i. b_blockno (bufs s i)) {..<NBUF}"
    using r dev unfolding rep_def cache_ok_def held_def dirties_def inj_on_def by auto
  then have "card ((\<lambda>i. b_blockno (bufs s i)) ` {..<NBUF}) = NBUF" by (simp add: card_image)
  moreover have H: "H = {(i, b_blockno (bufs s i)) | i. i < NBUF \<and> b_lock (bufs s i) \<noteq> None}"
    and D: "D = {b_blockno (bufs s i) | i. i < NBUF \<and> b_dirty (bufs s i)}"
    and L: "\<And>i. i < NBUF \<Longrightarrow> b_refcnt (bufs s i) \<noteq> 0 \<Longrightarrow> b_lock (bufs s i) \<noteq> None"
    using r unfolding rep_def cache_ok_def held_def dirties_def by auto
  have "(\<lambda>i. b_blockno (bufs s i)) ` {..<NBUF} \<subseteq> D \<union> snd ` H"
  proof
    fix b assume "b \<in> (\<lambda>i. b_blockno (bufs s i)) ` {..<NBUF}"
    then obtain i where i: "i < NBUF" "b = b_blockno (bufs s i)" by auto
    show "b \<in> D \<union> snd ` H"
    proof (cases "b_dirty (bufs s i)")
      case True
      then show ?thesis using i D by auto
    next
      case False
      then have "(i, b) \<in> H" using busy [OF i(1)] L [OF i(1)] i H by auto
      then show ?thesis by force
    qed
  qed
  moreover have "finite (D \<union> snd ` H)" unfolding D H by auto
  ultimately have "NBUF \<le> card (D \<union> snd ` H)" by (metis card_mono)
  then show False using c by simp
qed


definition take_buf :: "nat \<Rightarrow> nat \<Rightarrow> bytes \<Rightarrow> 'a bio_scheme \<Rightarrow> 'a bio_scheme" where
  "take_buf i b m s = upd_buf i (\<lambda>u. u\<lparr>b_valid := True, b_dev := ROOTDEV, b_blockno := b,
     b_lock := Some (me s), b_refcnt := 1, b_data := m\<rparr>) s"

lemma upd_buf_sel [simp]:
  "bufs (upd_buf i f s) j = (if j = i then f (bufs s i) else bufs s j)"
  "mru (upd_buf i f s) = mru s" "me (upd_buf i f s) = me s" "disk (upd_buf i f s) = disk s"
  "havedisk1 (upd_buf i f s) = havedisk1 s" "written (upd_buf i f s) = written s"
  "bio.more (upd_buf i f s) = bio.more s"
  by (simp_all add: upd_buf_def)

lemma upd_buf_cong:
  "f (bufs s i) = g (bufs s i) \<Longrightarrow> upd_buf i f s = upd_buf i g s"
  by (simp add: upd_buf_def)

lemma upd_buf_twice: "upd_buf i f (upd_buf i g s) = upd_buf i (\<lambda>b. f (g b)) s"
  by (simp add: upd_buf_def)

lemma rep_take:
  assumes r: "rep s v H D M" and i: "i < NBUF" "b_lock (bufs s i) = None"
    and other: "\<And>j. j < NBUF \<Longrightarrow> j \<noteq> i \<Longrightarrow> b_dev (bufs s j) = ROOTDEV \<Longrightarrow> b_blockno (bufs s j) \<noteq> b"
    and dirty: "b_dirty (bufs s i) \<Longrightarrow> b_blockno (bufs s i) = b"
  shows "rep (take_buf i b (v b) s) v (insert (i, b) H) D M"
proof -
  let ?t = "take_buf i b (v b) s"
  have "held ?t = insert (i, b) (held s)" unfolding held_def using i by (auto simp: take_buf_def)
  moreover have "dirties ?t = dirties s"
    unfolding dirties_def using i dirty by (auto simp: take_buf_def) metis
  moreover have "cache_ok ?t v"
    using r i other unfolding rep_def cache_ok_def by (auto simp: take_buf_def)
  ultimately show ?thesis using r unfolding rep_def by (auto simp: take_buf_def)
qed

lemma bread_eq:
  assumes r: "rep s v H D M" and b: "b < FSSIZE" "b \<notin> snd ` H"
    and room: "b \<in> D \<or> card (D \<union> snd ` H) < NBUF"
  obtains i where "bread ROOTDEV b s = Inr (i, take_buf i b (v b) s)" "i < NBUF"
    "b_lock (bufs s i) = None"
    "\<And>j. j < NBUF \<Longrightarrow> j \<noteq> i \<Longrightarrow> b_dev (bufs s j) = ROOTDEV \<Longrightarrow> b_blockno (bufs s j) \<noteq> b"
    "b_dirty (bufs s i) \<Longrightarrow> b_blockno (bufs s i) = b"
proof -
  have H: "H = {(i, b_blockno (bufs s i)) | i. i < NBUF \<and> b_lock (bufs s i) \<noteq> None}"
    and D: "D = {b_blockno (bufs s i) | i. i < NBUF \<and> b_dirty (bufs s i)}"
    and uniq: "\<And>i j. i < NBUF \<Longrightarrow> j < NBUF \<Longrightarrow> b_dev (bufs s i) = ROOTDEV \<Longrightarrow> b_dev (bufs s j) = ROOTDEV \<Longrightarrow>
        b_blockno (bufs s i) = b_blockno (bufs s j) \<Longrightarrow> i = j"
    and lk: "\<And>i. i < NBUF \<Longrightarrow> b_lock (bufs s i) = None \<and> b_refcnt (bufs s i) = 0 \<or>
        b_lock (bufs s i) = Some (me s) \<and> b_refcnt (bufs s i) = 1 \<and> b_dev (bufs s i) = ROOTDEV \<and>
        b_valid (bufs s i)"
    and dv: "\<And>i. i < NBUF \<Longrightarrow> b_dirty (bufs s i) \<Longrightarrow> b_dev (bufs s i) = ROOTDEV \<and> b_valid (bufs s i)"
    and mru: "set (mru s) = {..<NBUF}" and hd1: "havedisk1 s"
    and data: "\<And>i. i < NBUF \<Longrightarrow> b_dev (bufs s i) = ROOTDEV \<Longrightarrow> b_valid (bufs s i) \<Longrightarrow>
        b_data (bufs s i) = v (b_blockno (bufs s i))"
    and MH: "M \<subseteq> snd ` H"
    and clean: "\<And>b. b \<notin> D \<Longrightarrow> b \<notin> M \<Longrightarrow> disk s (drive ROOTDEV) b = v b"
    using r unfolding rep_def cache_ok_def held_def dirties_def by auto
  show thesis
  proof (cases "find (\<lambda>i. b_dev (bufs s i) = ROOTDEV \<and> b_blockno (bufs s i) = b) (mru s)")
    case (Some i)
    then have i: "i < NBUF" "b_dev (bufs s i) = ROOTDEV" "b_blockno (bufs s i) = b"
      using find_SomeD [OF Some] mru by auto
    have un: "b_lock (bufs s i) = None" "b_refcnt (bufs s i) = 0"
      using lk [OF i(1)] b i H by force+
    have oth: "\<And>j. j < NBUF \<Longrightarrow> j \<noteq> i \<Longrightarrow> b_dev (bufs s j) = ROOTDEV \<Longrightarrow> b_blockno (bufs s j) \<noteq> b"
      using uniq i by metis
    have "bread ROOTDEV b s = Inr (i, take_buf i b (v b) s)"
    proof (cases "b_valid (bufs s i)")
      case True
      then show ?thesis
        using un i data [OF i(1,2) True] by (simp add: bread_def bget_def Some lock_buf_def
          acquiresleep_def upd_buf_twice take_buf_def cong: if_weak_cong, intro upd_buf_cong) simp
    next
      case False
      have "b \<notin> D" using False dv uniq i unfolding D by blast
      then have "disk s (drive ROOTDEV) b = v b" using clean b MH by auto
      moreover have "\<not> b_dirty (bufs s i)" using False dv i by auto
      ultimately show ?thesis
        using un i False hd1 b by (simp add: bread_def bget_def Some lock_buf_def iderw_def idestart_def
          holdingsleep_def ideintr_def Let_def
          acquiresleep_def upd_buf_twice take_buf_def, intro upd_buf_cong) simp
    qed
    then show thesis using that un oth i by auto
  next
    case None
    then have no: "\<And>j. j < NBUF \<Longrightarrow> b_dev (bufs s j) = ROOTDEV \<Longrightarrow> b_blockno (bufs s j) \<noteq> b"
      using mru by (auto simp: find_None_iff)
    then have "b \<notin> D" using dv unfolding D by blast
    then have dk: "disk s (drive ROOTDEV) b = v b" using clean b MH by auto
    have "card (D \<union> snd ` H) < NBUF" using \<open>b \<notin> D\<close> room by auto
    then obtain i where f: "find (\<lambda>i. b_refcnt (bufs s i) = 0 \<and> \<not> b_dirty (bufs s i)) (rev (mru s)) = Some i"
      using rep_free_buffer [OF r] by auto
    then have i: "i < NBUF" "b_refcnt (bufs s i) = 0" "\<not> b_dirty (bufs s i)"
      using find_SomeD [OF f] mru by auto
    then have un: "b_lock (bufs s i) = None" using lk by fastforce
    have "bread ROOTDEV b s = Inr (i, take_buf i b (v b) s)"
      using un i hd1 b dk by (simp add: bread_def bget_def None f lock_buf_def iderw_def idestart_def
          holdingsleep_def ideintr_def Let_def
          acquiresleep_def upd_buf_twice take_buf_def, intro upd_buf_cong) simp
    then show thesis using that un no i by auto
  qed
qed


lemma rep_heldD:
  assumes "rep s v H D M" "(i, b) \<in> H"
  shows "i < NBUF" "b_lock (bufs s i) = Some (me s)" "b_refcnt (bufs s i) = 1"
    "b_dev (bufs s i) = ROOTDEV" "b_blockno (bufs s i) = b" "b_valid (bufs s i)" "b_data (bufs s i) = v b"
  using assms unfolding rep_def cache_ok_def held_def by auto

lemma rep_other:
  assumes "rep s v H D M" "(i, b) \<in> H" "j < NBUF" "j \<noteq> i" "b_dev (bufs s j) = ROOTDEV"
  shows "b_blockno (bufs s j) \<noteq> b"
  using assms rep_heldD [OF assms(1,2)] unfolding rep_def cache_ok_def by blast

lemma finite_dirties [simp]: "finite (dirties s)"
  by (simp add: dirties_def)

lemma finite_held [simp]: "finite (held s)"
  by (simp add: held_def)

lemma bread_rep:
  assumes r: "rep s v H D M" and b: "b < FSSIZE" "b \<notin> snd ` H"
    and room: "b \<in> D \<or> card (D \<union> snd ` H) < NBUF"
  obtains i t where "bread ROOTDEV b s = Inr (i, t)" "rep t v (insert (i, b) H) D M"
    "same_but_cache s t" "i \<notin> fst ` H"
proof (rule bread_eq [OF assms])
  fix i
  assume i: "bread ROOTDEV b s = Inr (i, take_buf i b (v b) s)" "i < NBUF" "b_lock (bufs s i) = None"
    "\<And>j. j < NBUF \<Longrightarrow> j \<noteq> i \<Longrightarrow> b_dev (bufs s j) = ROOTDEV \<Longrightarrow> b_blockno (bufs s j) \<noteq> b"
    "b_dirty (bufs s i) \<Longrightarrow> b_blockno (bufs s i) = b"
  have "i \<notin> fst ` H" using r i(3) by (auto simp: rep_def held_def)
  moreover have "same_but_cache s (take_buf i b (v b) s)" by (simp add: same_but_cache_def take_buf_def)
  ultimately show thesis using that i rep_take [OF r i(2-)] by blast
qed

lemma upd_data_rep:
  assumes r: "rep s v H D M" and h: "(i, b) \<in> H"
  shows "rep (upd_data i f s) (v(b := f (v b))) H D (insert b M)" "same_but_cache s (upd_data i f s)"
proof -
  let ?t = "upd_data i f s"
  note hd = rep_heldD [OF r h]
  have "held ?t = held s" unfolding held_def by (auto simp: upd_data_def)
  moreover have "dirties ?t = dirties s" unfolding dirties_def by (auto simp: upd_data_def)
  moreover have "cache_ok ?t (v(b := f (v b)))"
    using r hd rep_other [OF r h] unfolding rep_def cache_ok_def by (auto simp: upd_data_def)
  moreover have "b \<in> snd ` H" using h by force
  ultimately show "rep ?t (v(b := f (v b))) H D (insert b M)"
    using r by (auto simp: rep_def upd_data_def)
  show "same_but_cache s ?t" by (simp add: same_but_cache_def upd_data_def)
qed

definition write_disk :: "nat \<Rightarrow> bytes \<Rightarrow> 'a bio_scheme \<Rightarrow> 'a bio_scheme" where
  "write_disk b m s =
     s\<lparr>disk := (disk s)(drive ROOTDEV := (disk s (drive ROOTDEV))(b := m)),
       written := written s @ [(drive ROOTDEV, b, m)]\<rparr>"

lemma write_disk_sel [simp]:
  "bufs (write_disk b m s) = bufs s" "mru (write_disk b m s) = mru s" "me (write_disk b m s) = me s"
  "havedisk1 (write_disk b m s) = havedisk1 s" "bio.more (write_disk b m s) = bio.more s"
  "written (write_disk b m s) = written s @ [(drive ROOTDEV, b, m)]"
  "disk (write_disk b m s) = (disk s)(drive ROOTDEV := (disk s (drive ROOTDEV))(b := m))"
  by (simp_all add: write_disk_def)

lemma upd_buf_write_disk: "upd_buf i f (write_disk b m s) = write_disk b m (upd_buf i f s)"
  by (simp add: upd_buf_def write_disk_def)

lemma bwrite_rep:
  assumes r: "rep s v H D M" and h: "(i, b) \<in> H" and b: "b < FSSIZE"
  obtains t where "bwrite i s = Inr t" "rep t v H (D - {b}) (M - {b})" "same_but_cache (write_disk b (v b) s) t"
proof -
  note hd = rep_heldD [OF r h]
  let ?t = "write_disk b (v b) (upd_buf i (\<lambda>u. u\<lparr>b_valid := True, b_dirty := False\<rparr>) s)"
  have hd1: "havedisk1 s" using r by (simp add: rep_def cache_ok_def)
  have "idestart i (upd_buf i (b_dirty_update (\<lambda>_. True)) s) =
      Inr (write_disk b (v b) (upd_buf i (b_dirty_update (\<lambda>_. True)) s))"
    using hd b by (simp add: idestart_def write_disk_def upd_buf_def)
  then have w: "bwrite i s = Inr ?t"
    using hd hd1 by (simp add: bwrite_def iderw_def holdingsleep_def ideintr_def upd_buf_write_disk upd_buf_twice)
  have "held ?t = held s" unfolding held_def by auto
  moreover have "dirties ?t = dirties s - {b}"
  proof -
    have "i' = i" if "i' < NBUF" "b_dirty (bufs s i')" "b_blockno (bufs s i') = b" for i'
    proof (rule ccontr)
      assume "i' \<noteq> i"
      moreover have "b_dev (bufs s i') = ROOTDEV" using r that by (auto simp: rep_def cache_ok_def)
      ultimately show False using rep_other [OF r h that(1)] that by blast
    qed
    then show ?thesis unfolding dirties_def using hd by auto metis
  qed
  moreover have "cache_ok ?t v"
    using r hd rep_other [OF r h] unfolding rep_def cache_ok_def by auto
  ultimately have "rep ?t v H (D - {b}) (M - {b})" using r by (auto simp: rep_def)
  moreover have "same_but_cache (write_disk b (v b) s) ?t" by (simp add: same_but_cache_def)
  ultimately show thesis using that w by blast
qed

lemma brelse_rep:
  assumes r: "rep s v H D M" and h: "(i, b) \<in> H" and m: "b \<notin> M"
  obtains t where "brelse i s = Inr t" "rep t v (H - {(i, b)}) D M" "same_but_cache s t"
proof -
  note hd = rep_heldD [OF r h]
  let ?s1 = "upd_buf i (\<lambda>u. u\<lparr>b_lock := None, b_refcnt := 0\<rparr>) s"
  let ?t = "?s1\<lparr>mru := i # remove1 i (mru s)\<rparr>"
  have "brelse i s = Inr ?t"
    using hd by (simp add: brelse_def Let_def holdingsleep_def releasesleep_def upd_buf_def)
  moreover have "held ?t = held s - {(i, b)}" unfolding held_def using hd by auto
  moreover have "dirties ?t = dirties s" unfolding dirties_def by auto
  moreover have "cache_ok ?t v"
  proof -
    have "distinct (i # remove1 i (mru s))" "set (i # remove1 i (mru s)) = {..<NBUF}"
      using r hd by (auto simp: rep_def cache_ok_def)
    then show ?thesis using r hd unfolding rep_def cache_ok_def by auto
  qed
  moreover have "M \<subseteq> snd ` (H - {(i, b)})" using r m by (force simp: rep_def)
  moreover have "same_but_cache s ?t" by (simp add: same_but_cache_def)
  ultimately show thesis using that r by (auto simp: rep_def)
qed


lemma same_but_cache_trans: "same_but_cache s t \<Longrightarrow> same_but_cache t u \<Longrightarrow> same_but_cache s u"
  by (simp add: same_but_cache_def)

lemma same_but_cache_write: "same_but_cache s t \<Longrightarrow> same_but_cache (write_disk b m s) (write_disk b m t)"
  by (simp add: same_but_cache_def)

text \<open>Copying a block through two buffers, held in either order.\<close>

lemma room_for_two:
  assumes "finite D" "card (D \<union> {x, y}) \<le> NBUF" "x \<noteq> y"
  shows "x \<in> D \<or> card (D \<union> snd ` {}) < NBUF" "y \<in> D \<or> card (D \<union> snd ` {(i, x)}) < NBUF"
  using assms by (auto simp: card_insert_if Un_insert_right split: if_splits)

lemma copy_block:
  assumes r: "rep s v {} D {}" and x: "x < FSSIZE" and y: "y < FSSIZE" "x \<noteq> y"
    and room: "card (D \<union> {x, y}) \<le> NBUF"
  shows read_first: "\<exists>t. call (bread ROOTDEV x s) (\<lambda>(l, s1). call (bread ROOTDEV y s1) (\<lambda>(d, s2).
      call (bwrite d (upd_data d (\<lambda>_. b_data (bufs s2 l)) s2)) (\<lambda>s3.
      call (brelse l s3) (\<lambda>s4. brelse d s4)))) = Inr t \<and>
      rep t (v(y := v x)) {} (D - {y}) {} \<and> same_but_cache (write_disk y (v x) s) t"
    and write_first: "\<exists>t. call (bread ROOTDEV y s) (\<lambda>(d, s1). call (bread ROOTDEV x s1) (\<lambda>(l, s2).
      call (bwrite d (upd_data d (\<lambda>_. b_data (bufs s2 l)) s2)) (\<lambda>s3.
      call (brelse l s3) (\<lambda>s4. brelse d s4)))) = Inr t \<and>
      rep t (v(y := v x)) {} (D - {y}) {} \<and> same_but_cache (write_disk y (v x) s) t"
proof -
  have fin: "finite D" using r by (simp add: rep_def)
  have fin': "card (D \<union> {y, x}) \<le> NBUF" using room by (simp add: insert_commute)
  note rx = room_for_two [OF fin room y(2)] and ry = room_for_two [OF fin fin' y(2) [symmetric]]
  have rest: "\<exists>t. call (bwrite d (upd_data d (\<lambda>_. b_data (bufs s2 l)) s2)) (\<lambda>s3.
      call (brelse l s3) (\<lambda>s4. brelse d s4)) = Inr t \<and>
      rep t (v(y := v x)) {} (D - {y}) {} \<and> same_but_cache (write_disk y (v x) s) t"
    if r2: "rep s2 v {(l, x), (d, y)} D {}" and sm: "same_but_cache s s2" and ld: "l \<noteq> d" for l d s2
  proof -
    have h: "(d, y) \<in> {(l, x), (d, y)}" "(l, x) \<in> {(l, x), (d, y)}" by auto
    have lx: "b_data (bufs s2 l) = v x" by (rule rep_heldD(7) [OF r2 h(2)])
    let ?v = "v(y := v x)"
    obtain s3 where s3: "bwrite d (upd_data d (\<lambda>_. v x) s2) = Inr s3"
      "rep s3 ?v {(l, x), (d, y)} (D - {y}) ({y} - {y})"
      "same_but_cache (write_disk y (?v y) (upd_data d (\<lambda>_. v x) s2)) s3"
      using bwrite_rep [OF upd_data_rep(1) [OF r2 h(1)] h(1) y(1)] by blast
    from s3(2) have r3: "rep s3 ?v {(l, x), (d, y)} (D - {y}) {}" by simp
    obtain s4 where s4: "brelse l s3 = Inr s4" "rep s4 ?v ({(l, x), (d, y)} - {(l, x)}) (D - {y}) {}"
      "same_but_cache s3 s4"
      using brelse_rep [OF r3 h(2)] by blast
    have "{(l, x), (d, y)} - {(l, x)} = {(d, y)}" using ld by auto
    then have r4: "rep s4 ?v {(d, y)} (D - {y}) {}" using s4(2) by simp
    obtain t where t: "brelse d s4 = Inr t" "rep t ?v ({(d, y)} - {(d, y)}) (D - {y}) {}" "same_but_cache s4 t"
      using brelse_rep [OF r4, of d y] by blast
    have "same_but_cache (write_disk y (v x) s) t"
      using s3(3) s4(3) t(3) sm upd_data_rep(2) [OF r2 h(1)]
      by (simp add: same_but_cache_def)
    then show ?thesis using s3(1) s4(1) t by (simp add: lx)
  qed
  show "\<exists>t. call (bread ROOTDEV x s) (\<lambda>(l, s1). call (bread ROOTDEV y s1) (\<lambda>(d, s2).
      call (bwrite d (upd_data d (\<lambda>_. b_data (bufs s2 l)) s2)) (\<lambda>s3.
      call (brelse l s3) (\<lambda>s4. brelse d s4)))) = Inr t \<and>
      rep t (v(y := v x)) {} (D - {y}) {} \<and> same_but_cache (write_disk y (v x) s) t"
  proof -
    obtain l s1 where 1: "bread ROOTDEV x s = Inr (l, s1)" "rep s1 v {(l, x)} D {}" "same_but_cache s s1"
      using bread_rep [OF r x _ rx(1)] by auto
    obtain d s2 where 2: "bread ROOTDEV y s1 = Inr (d, s2)" "rep s2 v {(d, y), (l, x)} D {}"
      "same_but_cache s1 s2" "d \<noteq> l"
      using bread_rep [OF 1(2) y(1) _ rx(2)] y(2) by auto
    show ?thesis
      using rest [OF 2(2) [unfolded insert_commute [of "(d, y)"]] same_but_cache_trans [OF 1(3) 2(3)]] 1(1) 2(1,4)
      by auto
  qed
  show "\<exists>t. call (bread ROOTDEV y s) (\<lambda>(d, s1). call (bread ROOTDEV x s1) (\<lambda>(l, s2).
      call (bwrite d (upd_data d (\<lambda>_. b_data (bufs s2 l)) s2)) (\<lambda>s3.
      call (brelse l s3) (\<lambda>s4. brelse d s4)))) = Inr t \<and>
      rep t (v(y := v x)) {} (D - {y}) {} \<and> same_but_cache (write_disk y (v x) s) t"
  proof -
    obtain d s1 where 1: "bread ROOTDEV y s = Inr (d, s1)" "rep s1 v {(d, y)} D {}" "same_but_cache s s1"
      using bread_rep [OF r y(1) _ ry(1)] by auto
    obtain l s2 where 2: "bread ROOTDEV x s1 = Inr (l, s2)" "rep s2 v {(l, x), (d, y)} D {}"
      "same_but_cache s1 s2" "l \<noteq> d"
      using bread_rep [OF 1(2) x _ ry(2)] y(2) by auto
    show ?thesis
      using rest [OF 2(2) same_but_cache_trans [OF 1(3) 2(3)]] 1(1) 2(1,4) by auto
  qed
qed

text \<open>Reading a block, and replacing it on the disk.\<close>

lemma read_block:
  assumes r: "rep s v {} D {}" and x: "x < FSSIZE" and room: "card (insert x D) \<le> NBUF"
  shows "\<exists>i s1. bread ROOTDEV x s = Inr (i, s1) \<and> b_data (bufs s1 i) = v x \<and> rep s1 v {(i, x)} D {} \<and>
    same_but_cache s s1"
proof -
  have "finite D" using r by (simp add: rep_def)
  then have "x \<in> D \<or> card (D \<union> snd ` {}) < NBUF" using room by (auto simp: card_insert_if split: if_splits)
  then obtain i s1 where 1: "bread ROOTDEV x s = Inr (i, s1)" "rep s1 v {(i, x)} D {}" "same_but_cache s s1"
    using bread_rep [OF r x] by auto
  then show ?thesis using rep_heldD(7) [OF 1(2), of i x] by blast
qed

lemma rewrite_block:
  assumes r: "rep s v {} D {}" and x: "x < FSSIZE" and room: "card (insert x D) \<le> NBUF"
    and fg: "\<And>t. same_but_cache s t \<Longrightarrow> f t = g"
  shows "\<exists>t. call (bread ROOTDEV x s) (\<lambda>(i, s1). call (bwrite i (upd_data i (f s1) s1)) (\<lambda>s2. brelse i s2)) = Inr t \<and>
    rep t (v(x := g (v x))) {} (D - {x}) {} \<and> same_but_cache (write_disk x (g (v x)) s) t"
proof -
  obtain i s1 where 1: "bread ROOTDEV x s = Inr (i, s1)" "rep s1 v {(i, x)} D {}" "same_but_cache s s1"
    using read_block [OF r x room] by blast
  have h: "(i, x) \<in> {(i, x)}" by simp
  let ?v = "v(x := g (v x))"
  obtain s2 where 2: "bwrite i (upd_data i g s1) = Inr s2" "rep s2 ?v {(i, x)} (D - {x}) ({x} - {x})"
    "same_but_cache (write_disk x (?v x) (upd_data i g s1)) s2"
    using bwrite_rep [OF upd_data_rep(1) [OF 1(2) h] h x] by blast
  obtain t where t: "brelse i s2 = Inr t" "rep t ?v ({(i, x)} - {(i, x)}) (D - {x}) {}" "same_but_cache s2 t"
    using brelse_rep [OF 2(2) h] by auto
  have "same_but_cache (write_disk x (g (v x)) s) t"
    using 1(3) 2(3) t(3) upd_data_rep(2) [OF 1(2) h, of g] by (simp add: same_but_cache_def)
  then show ?thesis using 1(1) 2(1) t fg [OF 1(3)] by simp
qed

end
