(* ===== verification/Log.thy ===== *)
theory Log
  imports Bio
begin

text \<open>
  The write-ahead log of the file-system kernel (\<open>log.c\<close>).  The header in memory, a number and
  an array of block numbers, is the list of the entries in use.  A sleeping \<open>begin_op\<close> is \<open>None\<close>.
\<close>

definition LOGSIZE :: nat where "LOGSIZE = MAXOPBLOCKS * 3"

record logst = bio +
  lg_start :: nat
  lg_size :: nat
  lg_outstanding :: nat
  lg_committing :: bool
  lg_dev :: nat
  lg_lh :: "nat list"

section \<open>The superblock\<close>

record superblock =
  sb_size :: nat
  sb_nblocks :: nat
  sb_ninodes :: nat
  sb_nlog :: nat
  sb_logstart :: nat
  sb_inodestart :: nat
  sb_bmapstart :: nat

definition sb_of :: "bytes \<Rightarrow> superblock" where
  "sb_of m = \<lparr>sb_size = get32 0 m, sb_nblocks = get32 4 m, sb_ninodes = get32 8 m, sb_nlog = get32 12 m,
     sb_logstart = get32 16 m, sb_inodestart = get32 20 m, sb_bmapstart = get32 24 m\<rparr>"

definition readsb :: "nat \<Rightarrow> 'a bio_scheme \<Rightarrow> (superblock \<times> 'a bio_scheme) kres" where
  "readsb d s =
     call (bread d 1 s) (\<lambda>(i, s1). call (brelse i s1) (\<lambda>s2. Inr (sb_of (b_data (bufs s1 i)), s2)))"

section \<open>The log header\<close>

text \<open>The header block: the number of entries, then the entries.  A number above \<open>LOGSIZE\<close> on the
  disk makes the loop of \<open>read_head\<close> run out of the array; a negative one makes it do nothing.\<close>

definition head_of :: "bytes \<Rightarrow> nat list" where
  "head_of m = map (\<lambda>i. get32 (4 + 4 * i) m) [0..<get32 0 m]"

definition put_head :: "nat list \<Rightarrow> bytes \<Rightarrow> bytes" where
  "put_head bs m = fold (\<lambda>i m. put32 (4 + 4 * i) (bs ! i) m) [0..<length bs] (put32 0 (length bs) m)"

definition read_head :: "'a logst_scheme \<Rightarrow> 'a logst_scheme kres" where
  "read_head s =
     call (bread (lg_dev s) (lg_start s) s) (\<lambda>(i, s1).
       let m = b_data (bufs s1 i) in
       if 2 ^ 31 \<le> get32 0 m then brelse i (s1\<lparr>lg_lh := []\<rparr>)
       else if LOGSIZE < get32 0 m then Inl Fault
       else brelse i (s1\<lparr>lg_lh := head_of m\<rparr>))"

definition write_head :: "'a logst_scheme \<Rightarrow> 'a logst_scheme kres" where
  "write_head s =
     call (bread (lg_dev s) (lg_start s) s) (\<lambda>(i, s1).
       call (bwrite i (upd_data i (put_head (lg_lh s1)) s1)) (\<lambda>s2. brelse i s2))"

section \<open>Installing and writing the log\<close>

definition install_block :: "nat \<Rightarrow> 'a logst_scheme \<Rightarrow> 'a logst_scheme kres" where
  "install_block tail s =
     call (bread (lg_dev s) (lg_start s + tail + 1) s) (\<lambda>(l, s1).
     call (bread (lg_dev s) (lg_lh s ! tail) s1) (\<lambda>(d, s2).
     call (bwrite d (upd_data d (\<lambda>_. b_data (bufs s2 l)) s2)) (\<lambda>s3.
     call (brelse l s3) (\<lambda>s4. brelse d s4))))"

definition install_trans :: "'a logst_scheme \<Rightarrow> 'a logst_scheme kres" where
  "install_trans s = each install_block [0..<length (lg_lh s)] s"

definition log_block :: "nat \<Rightarrow> 'a logst_scheme \<Rightarrow> 'a logst_scheme kres" where
  "log_block tail s =
     call (bread (lg_dev s) (lg_start s + tail + 1) s) (\<lambda>(t, s1).
     call (bread (lg_dev s) (lg_lh s ! tail) s1) (\<lambda>(f, s2).
     call (bwrite t (upd_data t (\<lambda>_. b_data (bufs s2 f)) s2)) (\<lambda>s3.
     call (brelse f s3) (\<lambda>s4. brelse t s4))))"

definition write_log :: "'a logst_scheme \<Rightarrow> 'a logst_scheme kres" where
  "write_log s = each log_block [0..<length (lg_lh s)] s"

definition recover_from_log :: "'a logst_scheme \<Rightarrow> 'a logst_scheme kres" where
  "recover_from_log s =
     call (read_head s) (\<lambda>s1. call (install_trans s1) (\<lambda>s2. write_head (s2\<lparr>lg_lh := []\<rparr>)))"

definition initlog :: "nat \<Rightarrow> 'a logst_scheme \<Rightarrow> 'a logst_scheme kres" where
  "initlog d s =
     call (readsb d s) (\<lambda>(sb, s1).
       recover_from_log (s1\<lparr>lg_start := sb_logstart sb, lg_size := sb_nlog sb, lg_dev := d\<rparr>))"

section \<open>Transactions\<close>

definition begin_op :: "'a logst_scheme \<Rightarrow> 'a logst_scheme option" where
  "begin_op s =
     (if lg_committing s then None
      else if LOGSIZE < length (lg_lh s) + (lg_outstanding s + 1) * MAXOPBLOCKS then None
      else Some (s\<lparr>lg_outstanding := lg_outstanding s + 1\<rparr>))"

definition commit :: "'a logst_scheme \<Rightarrow> 'a logst_scheme kres" where
  "commit s =
     (if lg_lh s \<noteq> [] then
        call (write_log s) (\<lambda>s1.
        call (write_head s1) (\<lambda>s2.
        call (install_trans s2) (\<lambda>s3.
        write_head (s3\<lparr>lg_lh := []\<rparr>))))
      else Inr s)"

definition end_op :: "'a logst_scheme \<Rightarrow> 'a logst_scheme kres" where
  "end_op s =
     (let s1 = s\<lparr>lg_outstanding := lg_outstanding s - 1\<rparr> in
      if lg_committing s1 then Inl (Panic ''log.committing'')
      else if lg_outstanding s1 = 0 then
        call (commit (s1\<lparr>lg_committing := True\<rparr>)) (\<lambda>s2. Inr (s2\<lparr>lg_committing := False\<rparr>))
      else Inr s1)"

definition log_write :: "nat \<Rightarrow> 'a logst_scheme \<Rightarrow> 'a logst_scheme kres" where
  "log_write i s =
     (if LOGSIZE \<le> length (lg_lh s) \<or> lg_size s \<le> length (lg_lh s) + 1 then
        Inl (Panic ''too big a transaction'')
      else if lg_outstanding s < 1 then Inl (Panic ''log_write outside of trans'')
      else let b = b_blockno (bufs s i) in
        Inr (upd_buf i (b_dirty_update (\<lambda>_. True))
          (s\<lparr>lg_lh := (if b \<in> set (lg_lh s) then lg_lh s else lg_lh s @ [b])\<rparr>)))"

end
