(* ===== verification/Log_Spec.thy ===== *)
theory Log_Spec
  imports Log
begin

text \<open>
  Crash safety of the log.  A machine may stop between any two sector writes; the writes of a
  commit and of a recovery are computed exactly, and every prefix of them leaves a disk from which
  a recovery, itself interrupted any number of times, arrives at the blocks before the
  transaction or at the blocks after it.
\<close>

section \<open>Histories of writes\<close>

text \<open>A step of the log: it writes the blocks \<open>W\<close>, and leaves the machine as it was otherwise.\<close>

definition wrote :: "(nat \<times> bytes) list \<Rightarrow> 'a bio_scheme \<Rightarrow> 'a bio_scheme \<Rightarrow> bool" where
  "wrote W s t \<longleftrightarrow> same_but_cache (fold (\<lambda>(b, m) s. write_disk b m s) W s) t"

lemma fold_write_disk_cong:
  "same_but_cache s t \<Longrightarrow>
     same_but_cache (fold (\<lambda>(b, m) s. write_disk b m s) W s) (fold (\<lambda>(b, m) s. write_disk b m s) W t)"
proof (induction W arbitrary: s t)
  case (Cons a W)
  obtain b m where "a = (b, m)" by (cases a)
  then show ?case using Cons.IH [OF same_but_cache_write [OF Cons.prems]] by simp
qed simp

lemma wrote_simps [simp]: "wrote [] s t = same_but_cache s t"
  "wrote [(b, m)] s t = same_but_cache (write_disk b m s) t"
  by (simp_all add: wrote_def)

lemma wrote_trans: "wrote W s t \<Longrightarrow> wrote W' t u \<Longrightarrow> wrote (W @ W') s u"
  by (auto simp: wrote_def intro: same_but_cache_trans fold_write_disk_cong)

lemma wrote_more:
  assumes "wrote W s t"
  shows "bio.more t = bio.more s" "me t = me s"
proof -
  have "bio.more (fold (\<lambda>(b, m) s. write_disk b m s) W s) = bio.more s \<and>
      me (fold (\<lambda>(b, m) s. write_disk b m s) W s) = me s" for s :: "'a bio_scheme"
    by (induction W arbitrary: s) auto
  then show "bio.more t = bio.more s" "me t = me s" using assms by (simp_all add: wrote_def same_but_cache_def)
qed

lemma wrote_written:
  assumes "wrote W s t"
  shows "written t = written s @ map (\<lambda>(b, m). (drive ROOTDEV, b, m)) W"
    "disk t = (disk s)(drive ROOTDEV := fold (\<lambda>(b, m) d. d(b := m)) W (disk s (drive ROOTDEV)))"
proof -
  have "written (fold (\<lambda>(b, m) s. write_disk b m s) W s) =
      written s @ map (\<lambda>(b, m). (drive ROOTDEV, b, m)) W \<and>
    disk (fold (\<lambda>(b, m) s. write_disk b m s) W s) =
      (disk s)(drive ROOTDEV := fold (\<lambda>(b, m) d. d(b := m)) W (disk s (drive ROOTDEV)))"
    for s :: "'a bio_scheme"
    by (induction W arbitrary: s) auto
  then show "written t = written s @ map (\<lambda>(b, m). (drive ROOTDEV, b, m)) W"
    "disk t = (disk s)(drive ROOTDEV := fold (\<lambda>(b, m) d. d(b := m)) W (disk s (drive ROOTDEV)))"
    using assms by (simp_all add: wrote_def same_but_cache_def)
qed

lemma log_fields:
  assumes "bio.more s = bio.more t"
  shows "lg_lh s = lg_lh t" "lg_start s = lg_start t" "lg_dev s = lg_dev t" "lg_size s = lg_size t"
    "lg_outstanding s = lg_outstanding t" "lg_committing s = lg_committing t" "logst.more s = logst.more t"
  using assms by (cases s; cases t; simp)+


text \<open>Writing the blocks \<open>W\<close>, the last one of a block wins.\<close>

definition put :: "(nat \<times> bytes) list \<Rightarrow> (nat \<Rightarrow> bytes) \<Rightarrow> nat \<Rightarrow> bytes" where
  "put W v = fold (\<lambda>(b, m) v. v(b := m)) W v"

lemma put_simps [simp]: "put [] v = v" "put ((b, m) # W) v = put W (v(b := m))"
  "put (W @ W') v = put W' (put W v)"
  by (simp_all add: put_def)

lemma put_other: "b \<notin> fst ` set W \<Longrightarrow> put W v b = v b"
  by (induction W arbitrary: v) auto

lemma put_distinct: "distinct (map fst W) \<Longrightarrow> (b, m) \<in> set W \<Longrightarrow> put W v b = m"
proof (induction W arbitrary: v)
  case (Cons a W)
  obtain c k where a: "a = (c, k)" by (cases a)
  then show ?case using Cons by (cases "(b, m) \<in> set W") (auto simp: put_other)
qed simp

text \<open>What a call does that writes the blocks \<open>W\<close> from a state with all buffers released.\<close>

definition sector_writes :: "(nat \<times> bytes) list \<Rightarrow> 'a bio_scheme \<Rightarrow> (nat \<Rightarrow> bytes) \<Rightarrow> nat set \<Rightarrow> 'a bio_scheme kres \<Rightarrow> bool" where
  "sector_writes W s v D r \<longleftrightarrow> (\<exists>t. r = Inr t \<and> rep t (put W v) {} (D - fst ` set W) {} \<and> wrote W s t)"

lemma writesI: "r = Inr t \<Longrightarrow> rep t (put W v) {} (D - fst ` set W) {} \<Longrightarrow> wrote W s t \<Longrightarrow> sector_writes W s v D r"
  by (auto simp: sector_writes_def)

lemma writesE:
  assumes "sector_writes W s v D r"
  obtains t where "r = Inr t" "rep t (put W v) {} (D - fst ` set W) {}" "wrote W s t"
  using assms by (auto simp: sector_writes_def)

lemma writes_call:
  assumes w: "sector_writes W s v D r"
    and f: "\<And>t. r = Inr t \<Longrightarrow> rep t (put W v) {} (D - fst ` set W) {} \<Longrightarrow> wrote W s t \<Longrightarrow>
      sector_writes W' t (put W v) (D - fst ` set W) (f t)"
  shows "sector_writes (W @ W') s v D (call r f)"
proof -
  obtain t where t: "r = Inr t" "rep t (put W v) {} (D - fst ` set W) {}" "wrote W s t"
    by (rule writesE [OF w])
  obtain u where u: "f t = Inr u" "rep u (put W' (put W v)) {} (D - fst ` set W - fst ` set W') {}" "wrote W' t u"
    by (rule writesE [OF f [OF t]])
  have "D - fst ` set W - fst ` set W' = D - fst ` set (W @ W')" by auto
  then show ?thesis using u t(1) wrote_trans [OF t(3) u(3)] by (auto simp: sector_writes_def)
qed

text \<open>A loop that copies the block \<open>x i\<close> to the block \<open>y i\<close>, for each \<open>i\<close> in turn.\<close>

lemma each_copies:
  assumes "rep s v {} D {}" "bio.more s = e" "card D \<le> NBUF"
    and "\<And>i. i \<in> set js \<Longrightarrow> card (D \<union> {x i, y i}) \<le> NBUF"
    and "\<And>i j. i \<in> set js \<Longrightarrow> j \<in> set js \<Longrightarrow> x i \<noteq> y j"
    and step: "\<And>i s v D. i \<in> set js \<Longrightarrow> rep s v {} D {} \<Longrightarrow> card (D \<union> {x i, y i}) \<le> NBUF \<Longrightarrow>
      bio.more s = e \<Longrightarrow> sector_writes [(y i, v (x i))] s v D (f i s)"
  shows "sector_writes (map (\<lambda>i. (y i, v (x i))) js) s v D (each f js s)"
  using assms
proof (induction js arbitrary: s v D)
  case Nil
  then show ?case by (simp add: sector_writes_def same_but_cache_def)
next
  case (Cons i js)
  have fin: "finite D" using Cons.prems(1) by (simp add: rep_def)
  have 1: "sector_writes [(y i, v (x i))] s v D (f i s)"
    using Cons.prems(1,2,4) by (intro Cons.prems(6)) auto
  have "sector_writes ([(y i, v (x i))] @ map (\<lambda>j. (y j, v (x j))) js) s v D (call (f i s) (each f js))"
  proof (rule writes_call [OF 1])
    fix t
    assume t: "rep t (put [(y i, v (x i))] v) {} (D - fst ` set [(y i, v (x i))]) {}" "wrote [(y i, v (x i))] s t"
    let ?v = "v(y i := v (x i))"
    have "sector_writes (map (\<lambda>j. (y j, ?v (x j))) js) t ?v (D - {y i}) (each f js t)"
    proof (rule Cons.IH)
      show "rep t ?v {} (D - {y i}) {}" using t by simp
      show "bio.more t = e" using wrote_more [OF t(2)] Cons.prems(2) by simp
      show "card (D - {y i}) \<le> NBUF" using Cons.prems(3) by (meson card_Diff1_le le_trans)
      show "card (D - {y i} \<union> {x j, y j}) \<le> NBUF" if "j \<in> set js" for j
      proof -
        have "card (D - {y i} \<union> {x j, y j}) \<le> card (D \<union> {x j, y j})" using fin by (intro card_mono) auto
        also have "\<dots> \<le> NBUF" using that by (intro Cons.prems(4)) simp
        finally show ?thesis .
      qed
      show "x j \<noteq> y k" if "j \<in> set js" "k \<in> set js" for j k using that by (intro Cons.prems(5)) auto
      show "sector_writes [(y j, u (x j))] s' u E (f j s')"
        if "j \<in> set js" "rep s' u {} E {}" "card (E \<union> {x j, y j}) \<le> NBUF" "bio.more s' = e" for j s' u E
        using that by (intro Cons.prems(6)) auto
    qed
    moreover have "map (\<lambda>j. (y j, ?v (x j))) js = map (\<lambda>j. (y j, v (x j))) js"
      using Cons.prems(5) [of _ i] by auto
    ultimately show "sector_writes (map (\<lambda>j. (y j, v (x j))) js) t (put [(y i, v (x i))] v)
        (D - fst ` set [(y i, v (x i))]) (each f js t)" by (simp del: fun_upd_apply)
  qed
  then show ?case by simp
qed

text \<open>The steps of \<open>commit\<close> and of the recovery.\<close>

lemma install_block_writes:
  assumes "rep s v {} D {}" "lg_dev s = ROOTDEV" "lg_start s + i + 1 < FSSIZE" "lg_lh s ! i < FSSIZE"
    "lg_start s + i + 1 \<noteq> lg_lh s ! i" "card (D \<union> {lg_start s + i + 1, lg_lh s ! i}) \<le> NBUF"
  shows "sector_writes [(lg_lh s ! i, v (lg_start s + i + 1))] s v D (install_block i s)"
proof -
  obtain t where "install_block i s = Inr t"
    "rep t (v(lg_lh s ! i := v (lg_start s + i + 1))) {} (D - {lg_lh s ! i}) {}"
    "same_but_cache (write_disk (lg_lh s ! i) (v (lg_start s + i + 1)) s) t"
    using read_first [OF assms(1,3,4,5,6)] by (auto simp: install_block_def assms(2) split_def)
  then show ?thesis by (intro writesI) auto
qed

lemma log_block_writes:
  assumes "rep s v {} D {}" "lg_dev s = ROOTDEV" "lg_lh s ! i < FSSIZE" "lg_start s + i + 1 < FSSIZE"
    "lg_lh s ! i \<noteq> lg_start s + i + 1" "card (D \<union> {lg_lh s ! i, lg_start s + i + 1}) \<le> NBUF"
  shows "sector_writes [(lg_start s + i + 1, v (lg_lh s ! i))] s v D (log_block i s)"
proof -
  obtain t where "log_block i s = Inr t"
    "rep t (v(lg_start s + i + 1 := v (lg_lh s ! i))) {} (D - {lg_start s + i + 1}) {}"
    "same_but_cache (write_disk (lg_start s + i + 1) (v (lg_lh s ! i)) s) t"
    using write_first [OF assms(1,3,4,5,6)] by (auto simp: log_block_def assms(2) split_def)
  then show ?thesis by (intro writesI) auto
qed


lemma write_head_writes:
  assumes "rep s v {} D {}" "lg_dev s = ROOTDEV" "lg_start s < FSSIZE" "card (insert (lg_start s) D) \<le> NBUF"
  shows "sector_writes [(lg_start s, put_head (lg_lh s) (v (lg_start s)))] s v D (write_head s)"
proof -
  have "put_head (lg_lh t) = put_head (lg_lh s)" if "same_but_cache s t" for t
    using that log_fields(1) [of t s] by (simp add: same_but_cache_def)
  from rewrite_block [OF assms(1,3,4), of "\<lambda>t. put_head (lg_lh t)", OF this]
  obtain t where "write_head s = Inr t"
    "rep t (v(lg_start s := put_head (lg_lh s) (v (lg_start s)))) {} (D - {lg_start s}) {}"
    "same_but_cache (write_disk (lg_start s) (put_head (lg_lh s) (v (lg_start s))) s) t"
    by (auto simp: write_head_def assms(2) split_def)
  then show ?thesis by (intro writesI) auto
qed

lemma put_head_word: "get32 0 (put_head bs m) = length bs mod 4294967296"
proof -
  have "get32 0 (fold (\<lambda>i m. put32 (4 + 4 * i) (f i) m) js m) = get32 0 m" for f js m
    by (induction js arbitrary: m) (auto simp: get32_put32_other)
  then show ?thesis by (simp add: put_head_def get32_put32)
qed

lemma head_of_put_head:
  assumes "length bs < 4294967296" "\<And>b. b \<in> set bs \<Longrightarrow> b < 4294967296"
  shows "head_of (put_head bs m) = bs"
proof -
  have "get32 (4 + 4 * j) (fold (\<lambda>i m. put32 (4 + 4 * i) (f i) m) [0..<n] m) =
      (if j < n then f j mod 4294967296 else get32 (4 + 4 * j) m)" for f n j m
    by (induction n arbitrary: j) (auto simp: get32_put32 get32_put32_other less_Suc_eq)
  then have "get32 (4 + 4 * j) (put_head bs m) = bs ! j mod 4294967296" if "j < length bs" for j
    using that by (simp add: put_head_def)
  then show ?thesis
    using assms by (intro nth_equalityI) (auto simp: head_of_def put_head_word)
qed

section \<open>Commit and recovery\<close>

text \<open>The writes of a commit of the header \<open>lh\<close>, and of a recovery from the disk \<open>d\<close>.\<close>

definition log_part :: "nat \<Rightarrow> nat list \<Rightarrow> (nat \<Rightarrow> bytes) \<Rightarrow> (nat \<times> bytes) list" where
  "log_part st lh v = map (\<lambda>i. (st + i + 1, v (lh ! i))) [0..<length lh]"

definition redo :: "nat \<Rightarrow> (nat \<Rightarrow> bytes) \<Rightarrow> (nat \<times> bytes) list" where
  "redo st d = map (\<lambda>i. (head_of (d st) ! i, d (st + i + 1))) [0..<length (head_of (d st))]"

definition recovery :: "nat \<Rightarrow> (nat \<Rightarrow> bytes) \<Rightarrow> (nat \<times> bytes) list" where
  "recovery st d = redo st d @ [(st, put_head [] (d st))]"

definition log_area :: "nat \<Rightarrow> nat set" where
  "log_area st = {st..st + LOGSIZE}"

text \<open>A header that fits the log and names blocks outside the log and the superblock.\<close>

definition head_ok :: "nat \<Rightarrow> nat list \<Rightarrow> bool" where
  "head_ok st lh \<longleftrightarrow> length lh < NBUF \<and> distinct lh \<and>
     (\<forall>b \<in> set lh. b < FSSIZE \<and> b \<noteq> 1 \<and> b \<notin> log_area st)"

definition disk_ok :: "nat \<Rightarrow> (nat \<Rightarrow> bytes) \<Rightarrow> bool" where
  "disk_ok st d \<longleftrightarrow> 1 < st \<and> st + LOGSIZE < FSSIZE \<and> sb_logstart (sb_of (d 1)) = st \<and>
     get32 0 (d st) < NBUF \<and> head_ok st (head_of (d st))"

lemma log_consts: "LOGSIZE = 30" "NBUF = 30" "FSSIZE = 1000"
  by (simp_all add: LOGSIZE_def NBUF_def MAXOPBLOCKS_def FSSIZE_def)

text \<open>What a recovery makes of the disk.\<close>

definition logical :: "nat \<Rightarrow> (nat \<Rightarrow> bytes) \<Rightarrow> nat \<Rightarrow> bytes" where
  "logical st d = put (redo st d) d"

lemma length_head [simp]: "length (head_of m) = get32 0 m"
  by (simp add: head_of_def)

lemma head_okD:
  assumes "head_ok st lh" "i < length lh"
  shows "lh ! i < FSSIZE" "lh ! i \<noteq> 1" "lh ! i \<noteq> st" "j \<le> LOGSIZE \<Longrightarrow> lh ! i \<noteq> st + j" "length lh < 30"
    "i < LOGSIZE"
  using assms nth_mem [OF assms(2)] unfolding head_ok_def log_area_def log_consts by fastforce+

text \<open>A crash in the middle of a recovery leaves a disk that recovers to the same blocks.\<close>

lemma recovery_prefix:
  assumes ok: "disk_ok st d"
  shows "disk_ok st (put (take k (recovery st d)) d)"
    "b \<notin> log_area st \<Longrightarrow> logical st (put (take k (recovery st d)) d) b = logical st d b"
proof -
  let ?h = "head_of (d st)" and ?n = "length (head_of (d st))"
  have h: "head_ok st ?h" and st: "1 < st" "st + LOGSIZE < FSSIZE" "sb_logstart (sb_of (d 1)) = st" "?n < NBUF"
    using ok by (auto simp: disk_ok_def)
  have "map fst (redo st d) = map ((!) ?h) [0..<length ?h]"
    by (simp add: redo_def del: length_head)
  then have fsts: "map fst (redo st d) = ?h" by (simp only: map_nth)
  then have keys: "fst ` set (redo st d) = set ?h" by (metis set_map)
  have fix_redo: "put W d b = d b" if "set W \<subseteq> set (redo st d)" "b = 1 \<or> b \<in> log_area st" for W b
  proof (rule put_other)
    have "fst ` set W \<subseteq> set ?h" using that(1) keys by auto
    then show "b \<notin> fst ` set W" using that(2) h by (auto simp: head_ok_def)
  qed
  have area: "st \<in> log_area st" "i < ?n \<Longrightarrow> st + i + 1 \<in> log_area st" for i
    using st by (auto simp: log_area_def log_consts)
  consider "k \<le> ?n" | "?n < k" by linarith
  then have "disk_ok st (put (take k (recovery st d)) d) \<and>
    (b \<notin> log_area st \<longrightarrow> logical st (put (take k (recovery st d)) d) b = logical st d b)" for b
  proof cases
    case 1
    let ?W = "take k (redo st d)"
    have W: "take k (recovery st d) = ?W" using 1 by (simp add: recovery_def redo_def)
    have sub: "set ?W \<subseteq> set (redo st d)" by (rule set_take_subset)
    note fixed = fix_redo [OF sub]
    have redo: "redo st (put ?W d) = redo st d"
      using fixed area by (simp add: redo_def)
    have "put (redo st d) (put ?W d) b = put (redo st d) d b"
    proof (cases "b \<in> fst ` set (redo st d)")
      case True
      then obtain m where "(b, m) \<in> set (redo st d)" by auto
      moreover have "distinct (map fst (redo st d))"
        using h by (simp only: fsts head_ok_def)
      ultimately show ?thesis by (simp add: put_distinct)
    next
      case False
      then have "b \<notin> fst ` set ?W" using sub by auto
      then show ?thesis using False by (simp add: put_other)
    qed
    moreover have "disk_ok st (put ?W d)" using ok fixed area by (simp add: disk_ok_def)
    ultimately show ?thesis by (simp add: W logical_def redo)
  next
    case 2
    then have W: "take k (recovery st d) = recovery st d" by (simp add: recovery_def redo_def)
    have all: "put (recovery st d) d = (put (redo st d) d)(st := put_head [] (d st))"
      by (simp add: recovery_def)
    have empty: "head_of (put_head [] (d st)) = []" by (simp add: head_of_def put_head_word)
    have "put (recovery st d) d 1 = d 1" using fix_redo [of "redo st d" 1] st by (simp add: all)
    then have "disk_ok st (put (recovery st d) d)"
      using st ok empty by (simp add: disk_ok_def all head_ok_def log_consts put_head_word)
    moreover have "logical st (put (recovery st d) d) b = logical st d b" if "b \<notin> log_area st"
      using that area(1) empty by (auto simp: logical_def redo_def all put_head_word)
    ultimately show ?thesis by (simp add: W)
  qed
  then show "disk_ok st (put (take k (recovery st d)) d)"
    "b \<notin> log_area st \<Longrightarrow> logical st (put (take k (recovery st d)) d) b = logical st d b" by auto
qed


text \<open>A machine that starts with the disks \<open>d\<close>.\<close>

definition boot :: "(nat \<Rightarrow> nat \<Rightarrow> bytes) \<Rightarrow> logst" where
  "boot d = binit \<lparr>bufs = (\<lambda>_. empty_buf), mru = [], me = 1, disk = d, havedisk1 = True, written = [],
     lg_start = 0, lg_size = 0, lg_outstanding = 0, lg_committing = False, lg_dev = 0, lg_lh = []\<rparr>"

lemma boot_sel:
  "bufs (boot d) = (\<lambda>_. empty_buf)" "mru (boot d) = rev [0..<NBUF]" "disk (boot d) = d"
  "written (boot d) = []" "havedisk1 (boot d)" "lg_outstanding (boot d) = 0" "\<not> lg_committing (boot d)"
proof -
  have "bufs s = (\<lambda>_. empty_buf) \<Longrightarrow>
      fold (\<lambda>b s. (upd_buf b (b_lock_update (\<lambda>_. initsleeplock)) s)\<lparr>mru := b # mru s\<rparr>) bs s =
      s\<lparr>mru := rev bs @ mru s\<rparr>" for bs and s :: logst
  proof (induction bs arbitrary: s)
    case (Cons b bs)
    have "upd_buf b (b_lock_update (\<lambda>_. initsleeplock)) s = s"
      using Cons.prems by (simp add: upd_buf_def empty_buf_def fun_upd_idem)
    then show ?case using Cons by simp
  qed simp
  then show "bufs (boot d) = (\<lambda>_. empty_buf)" "mru (boot d) = rev [0..<NBUF]" "disk (boot d) = d"
    "written (boot d) = []" "havedisk1 (boot d)" "lg_outstanding (boot d) = 0" "\<not> lg_committing (boot d)"
    by (simp_all add: boot_def binit_def)
qed

lemma boot_rep: "rep (boot d) (d (drive ROOTDEV)) {} {} {}"
  by (auto simp: rep_def cache_ok_def boot_sel empty_buf_def initsleeplock_def held_def dirties_def ROOTDEV_def)

lemma rep_log_fields [simp]:
  "rep (s\<lparr>lg_lh := l\<rparr>) v H D M = rep s v H D M" "rep (s\<lparr>lg_start := n\<rparr>) v H D M = rep s v H D M"
  "rep (s\<lparr>lg_size := n\<rparr>) v H D M = rep s v H D M" "rep (s\<lparr>lg_dev := n\<rparr>) v H D M = rep s v H D M"
  "rep (s\<lparr>lg_outstanding := n\<rparr>) v H D M = rep s v H D M" "rep (s\<lparr>lg_committing := c\<rparr>) v H D M = rep s v H D M"
  by (simp_all add: rep_def cache_ok_def held_def dirties_def)

definition on_root :: "(nat \<times> bytes) list \<Rightarrow> (nat \<times> nat \<times> bytes) list" where
  "on_root W = map (\<lambda>(b, m). (drive ROOTDEV, b, m)) W"

lemma readsb_rep:
  assumes r: "rep s v {} {} {}"
  shows "\<exists>t. readsb ROOTDEV s = Inr (sb_of (v 1), t) \<and> rep t v {} {} {} \<and> same_but_cache s t"
proof -
  obtain i s1 where 1: "bread ROOTDEV 1 s = Inr (i, s1)" "b_data (bufs s1 i) = v 1" "rep s1 v {(i, 1)} {} {}"
    "same_but_cache s s1"
    using read_block [OF r, of 1] by (auto simp: log_consts)
  obtain t where t: "brelse i s1 = Inr t" "rep t v ({(i, 1)} - {(i, 1)}) {} {}" "same_but_cache s1 t"
    using brelse_rep [OF 1(3), of i 1] by auto
  show ?thesis using 1 t by (auto simp: readsb_def intro: same_but_cache_trans)
qed

lemma read_head_rep:
  assumes r: "rep s v {} {} {}" and s: "lg_dev s = ROOTDEV" "lg_start s < FSSIZE" "get32 0 (v (lg_start s)) < NBUF"
  shows "\<exists>t. read_head s = Inr t \<and> rep t v {} {} {} \<and>
    same_but_cache (s\<lparr>lg_lh := head_of (v (lg_start s))\<rparr>) t"
proof -
  let ?h = "head_of (v (lg_start s))"
  obtain i s1 where 1: "bread ROOTDEV (lg_start s) s = Inr (i, s1)" "b_data (bufs s1 i) = v (lg_start s)"
    "rep s1 v {(i, lg_start s)} {} {}" "same_but_cache s s1"
    using read_block [OF r s(2)] by (auto simp: log_consts)
  have "rep (s1\<lparr>lg_lh := ?h\<rparr>) v {(i, lg_start s)} {} {}" using 1(3) by simp
  then obtain t where t: "brelse i (s1\<lparr>lg_lh := ?h\<rparr>) = Inr t"
    "rep t v ({(i, lg_start s)} - {(i, lg_start s)}) {} {}" "same_but_cache (s1\<lparr>lg_lh := ?h\<rparr>) t"
    using brelse_rep [of "s1\<lparr>lg_lh := ?h\<rparr>" v "{(i, lg_start s)}" "{}" "{}" i "lg_start s"] by auto
  have "same_but_cache (s\<lparr>lg_lh := ?h\<rparr>) (s1\<lparr>lg_lh := ?h\<rparr>)"
    using 1(4) by (cases s; cases s1) (simp add: same_but_cache_def)
  then have "same_but_cache (s\<lparr>lg_lh := ?h\<rparr>) t" using t(3) same_but_cache_trans by blast
  then show ?thesis using 1 t s by (auto simp: read_head_def log_consts)
qed

lemma wrote_log_fields:
  assumes "wrote W s t"
  shows "lg_lh t = lg_lh s" "lg_start t = lg_start s" "lg_dev t = lg_dev s" "lg_size t = lg_size s"
    "lg_outstanding t = lg_outstanding s" "lg_committing t = lg_committing s"
  using log_fields [OF wrote_more(1) [OF assms]] by simp_all

lemma same_wrote: "same_but_cache s t \<Longrightarrow> wrote [] s t"
  by simp

lemma install_trans_writes:
  assumes r: "rep s v {} D {}" "card D \<le> NBUF" and s: "lg_dev s = ROOTDEV" "lg_start s + LOGSIZE < FSSIZE"
    "head_ok (lg_start s) (lg_lh s)"
    and D: "\<And>i. i < length (lg_lh s) \<Longrightarrow> card (D \<union> {lg_start s + i + 1, lg_lh s ! i}) \<le> NBUF"
  shows "sector_writes (map (\<lambda>i. (lg_lh s ! i, v (lg_start s + i + 1))) [0..<length (lg_lh s)]) s v D (install_trans s)"
  unfolding install_trans_def
proof (rule each_copies [OF r(1) refl r(2)])
  fix i assume i: "i \<in> set [0..<length (lg_lh s)]"
  note h = head_okD [OF s(3)]
  show "card (D \<union> {lg_start s + i + 1, lg_lh s ! i}) \<le> NBUF" using D i by simp
  show "lg_start s + i + 1 \<noteq> lg_lh s ! j" if "j \<in> set [0..<length (lg_lh s)]" for j
    using h(4) [of j "i + 1"] h(6) [of i] i that by (simp add: add.assoc)
  then have xy: "lg_start s + i + 1 \<noteq> lg_lh s ! i" using i by blast
  show "sector_writes [(lg_lh s ! i, u (lg_start s + i + 1))] s' u E (install_block i s')"
    if "rep s' u {} E {}" "card (E \<union> {lg_start s + i + 1, lg_lh s ! i}) \<le> NBUF" "bio.more s' = bio.more s" for s' u E
    using install_block_writes [of s' u E i] that log_fields [OF that(3)] s(1,2) h(1) [of i] h(6) [of i] xy i
    by simp
qed

lemma write_log_writes:
  assumes r: "rep s v {} D {}" "card D \<le> NBUF" and s: "lg_dev s = ROOTDEV" "lg_start s + LOGSIZE < FSSIZE"
    "head_ok (lg_start s) (lg_lh s)"
    and D: "\<And>i. i < length (lg_lh s) \<Longrightarrow> card (D \<union> {lg_lh s ! i, lg_start s + i + 1}) \<le> NBUF"
  shows "sector_writes (log_part (lg_start s) (lg_lh s) v) s v D (write_log s)"
  unfolding write_log_def log_part_def
proof (rule each_copies [OF r(1) refl r(2)])
  fix i assume i: "i \<in> set [0..<length (lg_lh s)]"
  note h = head_okD [OF s(3)]
  show "card (D \<union> {lg_lh s ! i, lg_start s + i + 1}) \<le> NBUF" using D i by simp
  show "lg_lh s ! i \<noteq> lg_start s + j + 1" if "j \<in> set [0..<length (lg_lh s)]" for j
    using h(4) [of i "j + 1"] h(6) [of j] i that by (simp add: add.assoc)
  then have xy: "lg_lh s ! i \<noteq> lg_start s + i + 1" using i by blast
  show "sector_writes [(lg_start s + i + 1, u (lg_lh s ! i))] s' u E (log_block i s')"
    if "rep s' u {} E {}" "card (E \<union> {lg_lh s ! i, lg_start s + i + 1}) \<le> NBUF" "bio.more s' = bio.more s" for s' u E
    using log_block_writes [of s' u E i] that log_fields [OF that(3)] s(1,2) h(1) [of i] h(6) [of i] xy i
    by simp
qed

lemma recover_run:
  assumes r: "rep s v {} {} {}" and s: "lg_dev s = ROOTDEV" "disk_ok (lg_start s) v"
  shows "\<exists>t. recover_from_log s = Inr t \<and> rep t (put (recovery (lg_start s) v) v) {} {} {} \<and>
    wrote (recovery (lg_start s) v) (s\<lparr>lg_lh := []\<rparr>) t"
proof -
  let ?st = "lg_start s" and ?h = "head_of (v (lg_start s))"
  have st: "1 < ?st" "?st + LOGSIZE < FSSIZE" "get32 0 (v ?st) < NBUF" and hk: "head_ok ?st ?h"
    using s(2) by (auto simp: disk_ok_def)
  obtain s1 where 1: "read_head s = Inr s1" "rep s1 v {} {} {}" "same_but_cache (s\<lparr>lg_lh := ?h\<rparr>) s1"
    using read_head_rep [OF r s(1) _ st(3)] st by auto
  have f1: "lg_lh s1 = ?h" "lg_start s1 = ?st" "lg_dev s1 = ROOTDEV"
    using wrote_log_fields [OF same_wrote [OF 1(3)]] s by simp_all
  have i: "sector_writes (redo ?st v) s1 v {} (install_trans s1)"
    using install_trans_writes [OF 1(2), of] f1 st hk by (simp add: redo_def log_consts card_insert_if)
  obtain s2 where 2: "install_trans s1 = Inr s2" "rep s2 (put (redo ?st v) v) {} {} {}" "wrote (redo ?st v) s1 s2"
    using writesE [OF i] by auto
  note f2 = wrote_log_fields [OF 2(3)]
  have "?st \<notin> fst ` set (redo ?st v)"
    using head_okD(3) [OF hk] by (auto simp: redo_def) metis
  then have same: "put (redo ?st v) v ?st = v ?st" by (rule put_other)
  have "sector_writes [(?st, put_head [] (v ?st))] (s2\<lparr>lg_lh := []\<rparr>) (put (redo ?st v) v) {} (write_head (s2\<lparr>lg_lh := []\<rparr>))"
    using write_head_writes [of "s2\<lparr>lg_lh := []\<rparr>" "put (redo ?st v) v" "{}"] 2(2) f1 f2 st same by (simp add: log_consts)
  then obtain t where t: "write_head (s2\<lparr>lg_lh := []\<rparr>) = Inr t"
    "rep t (put [(?st, put_head [] (v ?st))] (put (redo ?st v) v)) {} {} {}"
    "wrote [(?st, put_head [] (v ?st))] (s2\<lparr>lg_lh := []\<rparr>) t"
    by (rule writesE) auto
  have "wrote (redo ?st v) (s\<lparr>lg_lh := []\<rparr>) (s2\<lparr>lg_lh := []\<rparr>)"
  proof -
    have "wrote ([] @ redo ?st v) (s\<lparr>lg_lh := ?h\<rparr>) s2"
      using wrote_trans [OF same_wrote [OF 1(3)] 2(3)] by simp
    then have w: "wrote (redo ?st v) (s\<lparr>lg_lh := ?h\<rparr>) s2" by simp
    have wl: "write_disk b m (u\<lparr>lg_lh := l\<rparr>) = (write_disk b m u)\<lparr>lg_lh := l\<rparr>" for b m l and u :: "'a logst_scheme"
      by (cases u) (simp add: write_disk_def)
    have ff: "fold (\<lambda>(b, m) s. write_disk b m s) W (u\<lparr>lg_lh := l\<rparr>) = (fold (\<lambda>(b, m) s. write_disk b m s) W u)\<lparr>lg_lh := l\<rparr>"
      for W l and u :: "'a logst_scheme"
      by (induction W arbitrary: u) (auto simp: wl)
    have "same_but_cache (u\<lparr>lg_lh := l\<rparr>) w \<Longrightarrow> same_but_cache (u\<lparr>lg_lh := l'\<rparr>) (w\<lparr>lg_lh := l'\<rparr>)"
      for u w :: "'a logst_scheme" and l l'
      by (cases u; cases w) (auto simp: same_but_cache_def)
    then show ?thesis using w unfolding wrote_def ff by blast
  qed
  then have "wrote (redo ?st v @ [(?st, put_head [] (v ?st))]) (s\<lparr>lg_lh := []\<rparr>) t"
    using t(3) wrote_trans by blast
  then show ?thesis using 1(1) 2(1) t by (auto simp: recover_from_log_def recovery_def)
qed

lemma initlog_run:
  assumes ok: "disk_ok st (d (drive ROOTDEV))"
  shows "\<exists>r. initlog ROOTDEV (boot d) = Inr r \<and>
    rep r (put (recovery st (d (drive ROOTDEV))) (d (drive ROOTDEV))) {} {} {} \<and>
    written r = on_root (recovery st (d (drive ROOTDEV))) \<and>
    disk r = d(drive ROOTDEV := put (recovery st (d (drive ROOTDEV))) (d (drive ROOTDEV))) \<and>
    lg_lh r = [] \<and> lg_start r = st \<and> lg_dev r = ROOTDEV \<and> lg_outstanding r = 0 \<and> \<not> lg_committing r \<and>
    lg_size r = sb_nlog (sb_of (d (drive ROOTDEV) 1))"
proof -
  let ?v = "d (drive ROOTDEV)"
  obtain s1 where 1: "readsb ROOTDEV (boot d) = Inr (sb_of (?v 1), s1)" "rep s1 ?v {} {} {}" "same_but_cache (boot d) s1"
    using readsb_rep [OF boot_rep] by blast
  let ?s = "s1\<lparr>lg_start := st, lg_size := sb_nlog (sb_of (?v 1)), lg_dev := ROOTDEV\<rparr>"
  obtain r where r: "recover_from_log ?s = Inr r" "rep r (put (recovery st ?v) ?v) {} {} {}"
    "wrote (recovery st ?v) (?s\<lparr>lg_lh := []\<rparr>) r"
    using recover_run [of ?s ?v] 1(2) ok by auto
  have "sb_logstart (sb_of (?v 1)) = st" using ok by (simp add: disk_ok_def)
  then have "initlog ROOTDEV (boot d) = Inr r" using 1(1) r(1) by (simp add: initlog_def)
  moreover have "disk s1 = d" "written s1 = []" "lg_outstanding s1 = 0" "\<not> lg_committing s1"
    using 1(3) boot_sel [of d] wrote_log_fields [OF same_wrote [OF 1(3)]] by (simp_all add: same_but_cache_def)
  ultimately show ?thesis
    using r(2) wrote_written [OF r(3)] wrote_log_fields [OF r(3)]
    by (simp add: on_root_def put_def)
qed

text \<open>The state of the log inside a transaction, with the blocks \<open>v\<close> as the file system sees them.\<close>

definition in_log :: "'a logst_scheme \<Rightarrow> (nat \<Rightarrow> bytes) \<Rightarrow> bool" where
  "in_log s v \<longleftrightarrow> rep s v {} (set (lg_lh s)) {} \<and> lg_dev s = ROOTDEV \<and> disk_ok (lg_start s) v \<and>
     get32 0 (v (lg_start s)) = 0 \<and> head_ok (lg_start s) (lg_lh s)"

definition commit_writes :: "nat \<Rightarrow> nat list \<Rightarrow> (nat \<Rightarrow> bytes) \<Rightarrow> (nat \<times> bytes) list" where
  "commit_writes st lh v = log_part st lh v @ [(st, put_head lh (v st))]"

lemma log_part_keys: "map fst (log_part st lh v) = map (\<lambda>i. st + i + 1) [0..<length lh]"
  by (simp add: log_part_def)

lemma log_part_put:
  "i < length lh \<Longrightarrow> put (log_part st lh v) d (st + i + 1) = v (lh ! i)"
  by (rule put_distinct) (auto simp: log_part_keys distinct_map inj_on_def, auto simp: log_part_def)

lemma commit_writes_put:
  fixes v d :: "nat \<Rightarrow> bytes"
  assumes "head_ok st lh" "lh \<noteq> []" "1 < st"
  defines "d' \<equiv> put (commit_writes st lh v) d"
  shows "b \<notin> log_area st \<Longrightarrow> d' b = d b" "d' 1 = d 1" "head_of (d' st) = lh" "d' st = put_head lh (v st)"
    "redo st d' = map (\<lambda>i. (lh ! i, v (lh ! i))) [0..<length lh]"
proof -
  have d': "d' = (put (log_part st lh v) d)(st := put_head lh (v st))"
    by (simp add: d'_def commit_writes_def)
  have len: "length lh < 30" using head_okD(5) [OF assms(1), of 0] assms(2) by auto
  have keys: "fst ` set (log_part st lh v) \<subseteq> log_area st"
    using len by (auto simp: log_part_def log_area_def log_consts)
  show same: "d' b = d b" if "b \<notin> log_area st" for b
  proof -
    have "b \<notin> fst ` set (log_part st lh v)" "b \<noteq> st" using keys that by (auto simp: log_area_def)
    then show ?thesis using put_other [of b "log_part st lh v" d] by (simp add: d')
  qed
  show "d' 1 = d 1" using assms(3) by (intro same) (simp add: log_area_def)
  show st: "d' st = put_head lh (v st)" by (simp add: d')
  have "b < 4294967296" if "b \<in> set lh" for b
    using assms(1) that by (auto simp: head_ok_def log_consts)
  then show hd: "head_of (d' st) = lh" unfolding st using len by (intro head_of_put_head) auto
  have "d' (st + i + 1) = v (lh ! i)" if "i < length lh" for i
    using that by (simp add: d' log_part_put [of i lh st, simplified])
  then show "redo st d' = map (\<lambda>i. (lh ! i, v (lh ! i))) [0..<length lh]"
    by (simp add: redo_def hd del: length_head)
qed


lemma commit_run:
  assumes c: "in_log s v" and ne: "lg_lh s \<noteq> []"
  defines "W \<equiv> commit_writes (lg_start s) (lg_lh s) v"
  shows "\<exists>t. commit s = Inr t \<and> rep t (put (recovery (lg_start s) (put W v)) (put W v)) {} {} {} \<and>
    written t = written s @ on_root (W @ recovery (lg_start s) (put W v)) \<and> lg_lh t = [] \<and>
    lg_start t = lg_start s \<and> lg_dev t = ROOTDEV \<and> lg_outstanding t = lg_outstanding s \<and>
    lg_committing t = lg_committing s \<and> lg_size t = lg_size s"
proof -
  let ?st = "lg_start s" and ?lh = "lg_lh s" and ?D = "set (lg_lh s)"
  let ?L = "log_part (lg_start s) (lg_lh s) v"
  have r: "rep s v {} ?D {}" and dev: "lg_dev s = ROOTDEV" and hk: "head_ok ?st ?lh" and vok: "disk_ok ?st v"
    using c by (auto simp: in_log_def)
  have st: "1 < ?st" "?st + LOGSIZE < FSSIZE" using vok by (auto simp: disk_ok_def)
  have len: "length ?lh < 30" "card ?D = length ?lh"
    using hk by (auto simp: head_ok_def log_consts distinct_card)
  have stD: "?st \<notin> ?D" using hk by (auto simp: head_ok_def log_area_def)
  have Ldisj: "?D \<inter> fst ` set ?L = {}"
    using hk by (auto simp: log_part_def head_ok_def log_area_def log_consts in_set_conv_nth)
  have two: "card (?D \<union> {?lh ! i, y}) \<le> NBUF" if "i < length ?lh" for i y
    using len that by (simp add: insert_absorb card_insert_if log_consts)
  obtain s1 where 1: "write_log s = Inr s1" "rep s1 (put ?L v) {} ?D {}" "wrote ?L s s1"
    using writesE [OF write_log_writes [OF r _ dev st(2) hk two]] Ldisj len
    by (auto simp: log_consts Diff_triv)
  note f1 = wrote_log_fields [OF 1(3)]
  have stL: "put ?L v ?st = v ?st" by (rule put_other) (auto simp: log_part_def)
  have "sector_writes [(?st, put_head ?lh (v ?st))] s1 (put ?L v) ?D (write_head s1)"
    using write_head_writes [OF 1(2)] f1 dev st stL stD len by (simp add: log_consts)
  then obtain s2 where 2: "write_head s1 = Inr s2" "rep s2 (put W v) {} ?D {}" "wrote W s s2"
    using wrote_trans [OF 1(3)] stD by (elim writesE) (auto simp: W_def commit_writes_def)
  note f2 = wrote_log_fields [OF 2(3)]
  note P = commit_writes_put [OF hk ne st(1), where d = v and v = v, folded W_def]
  have R: "redo ?st (put W v) = map (\<lambda>i. (?lh ! i, put W v (?st + i + 1))) [0..<length ?lh]"
    using P(3) by (simp add: redo_def del: length_head)
  have "sector_writes (map (\<lambda>i. (lg_lh s2 ! i, put W v (lg_start s2 + i + 1))) [0..<length (lg_lh s2)])
      s2 (put W v) ?D (install_trans s2)"
  proof (rule install_trans_writes [OF 2(2)])
    show "card (?D \<union> {lg_start s2 + i + 1, lg_lh s2 ! i}) \<le> NBUF" if "i < length (lg_lh s2)" for i
      using two [of i "lg_start s2 + i + 1"] that f2 by (simp add: insert_commute)
  qed (use f2 dev st hk len in \<open>simp_all add: log_consts\<close>)
  then have "sector_writes (redo ?st (put W v)) s2 (put W v) ?D (install_trans s2)"
    by (simp add: R f2)
  then obtain s3 where 3: "install_trans s2 = Inr s3"
    "rep s3 (put (redo ?st (put W v)) (put W v)) {} (?D - fst ` set (redo ?st (put W v))) {}"
    "wrote (redo ?st (put W v)) s2 s3"
    by (rule writesE)
  have "?D - fst ` set (redo ?st (put W v)) = {}"
    by (force simp: R in_set_conv_nth)
  then have r3: "rep s3 (put (redo ?st (put W v)) (put W v)) {} {} {}" using 3(2) by (simp only:)
  note f3 = wrote_log_fields [OF 3(3)]
  have "put (redo ?st (put W v)) (put W v) ?st = put W v ?st"
    using stD by (intro put_other) (auto simp: R)
  then have "sector_writes [(?st, put_head [] (put W v ?st))] (s3\<lparr>lg_lh := []\<rparr>) (put (redo ?st (put W v)) (put W v)) {}
      (write_head (s3\<lparr>lg_lh := []\<rparr>))"
    using write_head_writes [of "s3\<lparr>lg_lh := []\<rparr>" "put (redo ?st (put W v)) (put W v)" "{}"] r3 f2 f3 dev st by (simp add: log_consts)
  then obtain t where t: "write_head (s3\<lparr>lg_lh := []\<rparr>) = Inr t"
    "rep t (put [(?st, put_head [] (put W v ?st))] (put (redo ?st (put W v)) (put W v))) {} {} {}"
    "wrote [(?st, put_head [] (put W v ?st))] (s3\<lparr>lg_lh := []\<rparr>) t"
    by (rule writesE) auto
  have "written t = written s @ on_root (W @ recovery ?st (put W v))"
    using wrote_written(1) [OF t(3)] wrote_written(1) [OF 3(3)] wrote_written(1) [OF 2(3)]
    by (simp add: on_root_def recovery_def)
  moreover have "commit s = Inr t" using 1(1) 2(1) 3(1) t(1) ne by (simp add: commit_def)
  ultimately show ?thesis
    using t(2) wrote_log_fields [OF t(3)] f2 f3 dev by (simp add: recovery_def)
qed

text \<open>The disks after a history of sector writes, and the crashes of a machine that starts.\<close>

definition replay :: "(nat \<times> nat \<times> bytes) list \<Rightarrow> (nat \<Rightarrow> nat \<Rightarrow> bytes) \<Rightarrow> nat \<Rightarrow> nat \<Rightarrow> bytes" where
  "replay W d = fold (\<lambda>(u, b, m) d. d(u := (d u)(b := m))) W d"

lemma replay_on_root: "replay (on_root W) d = d(drive ROOTDEV := put W (d (drive ROOTDEV)))"
proof (induction W arbitrary: d)
  case Nil
  then show ?case by (simp add: replay_def on_root_def)
next
  case (Cons a W)
  obtain b m where a: "a = (b, m)" by (cases a)
  have "replay (on_root (a # W)) d = replay (on_root W) (d(drive ROOTDEV := (d (drive ROOTDEV))(b := m)))"
    by (simp add: replay_def on_root_def a)
  then show ?case by (simp add: Cons a del: fun_upd_apply) simp
qed

inductive crashes :: "(nat \<Rightarrow> nat \<Rightarrow> bytes) \<Rightarrow> (nat \<Rightarrow> nat \<Rightarrow> bytes) \<Rightarrow> bool" where
  no_crash: "crashes d d"
| crash: "crashes d d' \<Longrightarrow> initlog ROOTDEV (boot d') = Inr r \<Longrightarrow> crashes d (replay (take k (written r)) d')"

lemma take_on_root: "take k (on_root W) = on_root (take k W)"
  by (simp add: on_root_def take_map)

lemma crashes_disk_ok:
  assumes "crashes d d'" "disk_ok st (d (drive ROOTDEV))"
  shows "disk_ok st (d' (drive ROOTDEV)) \<and>
    (\<forall>b. b \<notin> log_area st \<longrightarrow> logical st (d' (drive ROOTDEV)) b = logical st (d (drive ROOTDEV)) b)"
  using assms
proof (induction rule: crashes.induct)
  case (no_crash d)
  then show ?case by simp
next
  case (crash d d' r k)
  then have ok: "disk_ok st (d' (drive ROOTDEV))" by simp
  then have "written r = on_root (recovery st (d' (drive ROOTDEV)))"
    using initlog_run [of st d', OF ok] crash.hyps(2) by auto
  then have "replay (take k (written r)) d' (drive ROOTDEV) =
      put (take k (recovery st (d' (drive ROOTDEV)))) (d' (drive ROOTDEV))"
    by (simp add: take_on_root replay_on_root)
  then show ?case using recovery_prefix [where k = k and d = "d' (drive ROOTDEV)", OF ok] crash by simp
qed

lemma recovered:
  assumes "disk_ok st (d (drive ROOTDEV))" "crashes d d'"
  obtains r where "initlog ROOTDEV (boot d') = Inr r"
    "\<And>b. b \<notin> log_area st \<Longrightarrow> disk r (drive ROOTDEV) b = logical st (d (drive ROOTDEV)) b"
proof -
  have ok: "disk_ok st (d' (drive ROOTDEV))"
    and l: "\<And>b. b \<notin> log_area st \<Longrightarrow> logical st (d' (drive ROOTDEV)) b = logical st (d (drive ROOTDEV)) b"
    using crashes_disk_ok [OF assms(2,1)] by auto
  obtain r where r: "initlog ROOTDEV (boot d') = Inr r"
    "disk r = d'(drive ROOTDEV := put (recovery st (d' (drive ROOTDEV))) (d' (drive ROOTDEV)))"
    using initlog_run [of st d', OF ok] by auto
  have "disk r (drive ROOTDEV) b = logical st (d (drive ROOTDEV)) b" if "b \<notin> log_area st" for b
  proof -
    have "b \<noteq> st" using that by (auto simp: log_area_def)
    then show ?thesis using l [OF that] by (simp add: r(2) recovery_def logical_def)
  qed
  then show thesis using that r(1) by blast
qed

lemma crash_in_commit:
  fixes k :: nat
  assumes c: "in_log s v" and t: "commit s = Inr t"
  defines "d \<equiv> replay (take k (drop (length (written s)) (written t))) (disk s)"
  shows "disk_ok (lg_start s) (d (drive ROOTDEV))"
    "b \<notin> log_area (lg_start s) \<Longrightarrow> logical (lg_start s) (d (drive ROOTDEV)) b =
      (if k \<le> length (lg_lh s) then disk s (drive ROOTDEV) b else v b)"
proof -
  let ?st = "lg_start s" and ?lh = "lg_lh s" and ?o = "disk s (drive ROOTDEV)"
  have r: "rep s v {} (set ?lh) {}" and hk: "head_ok ?st ?lh" and vok: "disk_ok ?st v" and h0: "get32 0 (v ?st) = 0"
    using c by (auto simp: in_log_def)
  have st: "1 < ?st" using vok by (auto simp: disk_ok_def)
  have old: "?o b = v b" if "b \<notin> set ?lh" for b using r that by (simp add: rep_def)
  have fix1: "?o b = v b" if "b = 1 \<or> b \<in> log_area ?st" for b
    using that hk by (intro old) (auto simp: head_ok_def)
  have st_in: "?st \<in> log_area ?st" by (simp add: log_area_def)
  have oko: "disk_ok ?st ?o" using vok fix1 st_in by (simp add: disk_ok_def)
  have nolog: "logical ?st u b = u b" if "get32 0 (u ?st) = 0" for u b
    using that by (simp add: logical_def redo_def)
  have "disk_ok ?st (d (drive ROOTDEV)) \<and> (b \<notin> log_area ?st \<longrightarrow>
    logical ?st (d (drive ROOTDEV)) b = (if k \<le> length ?lh then ?o b else v b))" for b
  proof (cases "?lh = []")
    case True
    then have "t = s" using t by (simp add: commit_def)
    then have "d (drive ROOTDEV) = ?o" by (simp add: d_def replay_def)
    then show ?thesis using oko nolog [of ?o] fix1 [of ?st] st_in h0 old True by auto
  next
    case False
    let ?W = "commit_writes ?st ?lh v" and ?L = "log_part ?st ?lh v"
    have "written t = written s @ on_root (?W @ recovery ?st (put ?W v))"
      using commit_run [OF c False] t by auto
    then have d: "d (drive ROOTDEV) = put (take k (?W @ recovery ?st (put ?W v))) ?o"
      by (simp add: d_def take_on_root replay_on_root)
    have lenW: "length ?W = Suc (length ?lh)" by (simp add: commit_writes_def log_part_def)
    note Pv = commit_writes_put [OF hk False st, where d = v and v = v]
    note Po = commit_writes_put [OF hk False st, where d = "?o" and v = v]
    show ?thesis
    proof (cases "k \<le> length ?lh")
      case True
      then have tk: "take k (?W @ recovery ?st (put ?W v)) = take k ?L"
        by (simp add: commit_writes_def log_part_def)
      have keys: "fst ` set (take k ?L) \<subseteq> {?st <.. ?st + LOGSIZE}"
        using hk set_take_subset [of k ?L] by (fastforce simp: log_part_def head_ok_def log_consts)
      have u: "put (take k ?L) ?o b = ?o b" if "b \<notin> {?st <.. ?st + LOGSIZE}" for b
        using keys that by (intro put_other) auto
      have h: "put (take k ?L) ?o ?st = v ?st" using u [of ?st] fix1 st_in by simp
      have "put (take k ?L) ?o 1 = ?o 1" using u [of 1] st by simp
      then have "disk_ok ?st (put (take k ?L) ?o)"
        using oko vok h by (simp add: disk_ok_def)
      moreover have "logical ?st (put (take k ?L) ?o) b = ?o b" if "b \<notin> log_area ?st"
        using that nolog h h0 u [of b] by (auto simp: log_area_def)
      ultimately show ?thesis using True unfolding d tk by simp
    next
      case False
      let ?d1 = "put ?W ?o"
      have same: "recovery ?st (put ?W v) = recovery ?st ?d1"
        using Pv(3-5) Po(3-5) by (simp add: recovery_def)
      have "disk_ok ?st ?d1"
        using oko Po(2-4) hk by (simp add: disk_ok_def put_head_word head_ok_def log_consts)
      from recovery_prefix [where k = "k - Suc (length ?lh)", OF this]
      have 1: "disk_ok ?st (d (drive ROOTDEV))"
        "b \<notin> log_area ?st \<Longrightarrow> logical ?st (d (drive ROOTDEV)) b = logical ?st ?d1 b"
        using False by (simp_all add: d same lenW)
      have "logical ?st ?d1 b = v b" if b: "b \<notin> log_area ?st"
      proof (cases "b \<in> set ?lh")
        case True
        then obtain i where "i < length ?lh" "b = ?lh ! i" by (auto simp: in_set_conv_nth)
        moreover have "distinct (map fst (redo ?st ?d1))"
          using hk by (simp add: Po(5) o_def map_nth head_ok_def)
        ultimately show ?thesis unfolding logical_def Po(5) by (intro put_distinct) (auto simp: Po(5) o_def map_nth)
      next
        case False
        then have "logical ?st ?d1 b = ?d1 b"
          unfolding logical_def Po(5) by (intro put_other) auto
        then show ?thesis using Po(1) b old False by simp
      qed
      then show ?thesis using 1 False by simp
    qed
  qed
  then show "disk_ok ?st (d (drive ROOTDEV))" "b \<notin> log_area ?st \<Longrightarrow>
    logical ?st (d (drive ROOTDEV)) b = (if k \<le> length ?lh then ?o b else v b)" by auto
qed


section \<open>Blocks inside a transaction\<close>

text \<open>What \<open>log.c\<close> calls a typical use of \<open>log_write\<close>, and a read of a block.\<close>

definition modify_block :: "nat \<Rightarrow> (bytes \<Rightarrow> bytes) \<Rightarrow> 'a logst_scheme \<Rightarrow> 'a logst_scheme kres" where
  "modify_block b f s =
     call (bread ROOTDEV b s) (\<lambda>(i, s1). call (log_write i (upd_data i f s1)) (\<lambda>s2. brelse i s2))"

definition fetch_block :: "nat \<Rightarrow> 'a logst_scheme \<Rightarrow> (bytes \<times> 'a logst_scheme) kres" where
  "fetch_block b s =
     call (bread ROOTDEV b s) (\<lambda>(i, s1). call (brelse i s1) (\<lambda>s2. Inr (b_data (bufs s1 i), s2)))"

lemma card_head: "head_ok st lh \<Longrightarrow> card (set lh) < NBUF"
  by (auto simp: head_ok_def distinct_card)

lemma fetch_block_ok:
  assumes c: "in_log s v" and b: "b < FSSIZE"
  shows "\<exists>t. fetch_block b s = Inr (v b, t) \<and> in_log t v \<and> same_but_cache s t"
proof -
  have r: "rep s v {} (set (lg_lh s)) {}" and room: "card (insert b (set (lg_lh s))) \<le> NBUF"
    using c card_head [of "lg_start s" "lg_lh s"] by (auto simp: in_log_def card_insert_if)
  obtain i s1 where 1: "bread ROOTDEV b s = Inr (i, s1)" "b_data (bufs s1 i) = v b"
    "rep s1 v {(i, b)} (set (lg_lh s)) {}" "same_but_cache s s1"
    using read_block [OF r b room] by auto
  obtain t where t: "brelse i s1 = Inr t" "rep t v ({(i, b)} - {(i, b)}) (set (lg_lh s)) {}" "same_but_cache s1 t"
    using brelse_rep [OF 1(3), of i b] by auto
  have "same_but_cache s t" using 1(4) t(3) by (rule same_but_cache_trans)
  note f = wrote_log_fields [OF same_wrote [OF this]]
  show ?thesis using 1 t c f \<open>same_but_cache s t\<close> by (auto simp: fetch_block_def in_log_def)
qed

lemma modify_block_ok:
  assumes c: "in_log s v" and b: "b < FSSIZE" "b \<noteq> 1" "b \<notin> log_area (lg_start s)"
    and out: "0 < lg_outstanding s" and room: "length (lg_lh s) + 1 < NBUF" "length (lg_lh s) + 1 < lg_size s"
  shows "\<exists>t. modify_block b f s = Inr t \<and> in_log t (v(b := f (v b))) \<and>
    lg_lh t = (if b \<in> set (lg_lh s) then lg_lh s else lg_lh s @ [b]) \<and> disk t = disk s \<and> written t = written s \<and>
    lg_outstanding t = lg_outstanding s \<and> lg_size t = lg_size s \<and> lg_start t = lg_start s \<and>
    lg_committing t = lg_committing s"
proof -
  let ?lh = "lg_lh s" and ?v = "v(b := f (v b))"
  let ?lh' = "if b \<in> set ?lh then ?lh else ?lh @ [b]"
  have r: "rep s v {} (set ?lh) {}" and cd: "card (insert b (set ?lh)) \<le> NBUF"
    using c card_head [of "lg_start s" ?lh] by (auto simp: in_log_def card_insert_if)
  obtain i s1 where 1: "bread ROOTDEV b s = Inr (i, s1)" "rep s1 v {(i, b)} (set ?lh) {}" "same_but_cache s s1"
    using read_block [OF r b(1) cd] by auto
  have h: "(i, b) \<in> {(i, b)}" by simp
  let ?s2 = "upd_data i f s1"
  have 2: "rep ?s2 ?v {(i, b)} (set ?lh) {b}" "same_but_cache s ?s2"
    using upd_data_rep [OF 1(2) h] 1(3) same_but_cache_trans by blast+
  note f2 = wrote_log_fields [OF same_wrote [OF 2(2)]]
  let ?s3 = "upd_buf i (b_dirty_update (\<lambda>_. True)) (?s2\<lparr>lg_lh := ?lh'\<rparr>)"
  have lw: "log_write i ?s2 = Inr ?s3"
    using f2 out room rep_heldD(5) [OF 2(1) h] by (simp add: log_write_def Let_def log_consts)
  have "rep (upd_buf i (b_dirty_update (\<lambda>_. True)) s') u {(i, b)} (insert b D) {}"
    if r': "rep s' u {(i, b)} D {b}" for s' :: "'a logst_scheme" and u D
  proof -
    note hd = rep_heldD [OF r' h]
    let ?t = "upd_buf i (b_dirty_update (\<lambda>_. True)) s'"
    have "held ?t = held s'" unfolding held_def by auto
    moreover have "dirties ?t = insert b (dirties s')" unfolding dirties_def using hd by auto
    moreover have "cache_ok ?t u" using r' hd unfolding rep_def cache_ok_def by auto
    ultimately show ?thesis using r' by (auto simp: rep_def)
  qed
  from this [of "?s2\<lparr>lg_lh := ?lh'\<rparr>" ?v "set ?lh"] 2(1)
  have 3: "rep ?s3 ?v {(i, b)} (insert b (set ?lh)) {}" by simp
  obtain t where t: "brelse i ?s3 = Inr t" "rep t ?v ({(i, b)} - {(i, b)}) (insert b (set ?lh)) {}" "same_but_cache ?s3 t"
    using brelse_rep [OF 3 h] by auto
  have f3: "lg_lh ?s3 = ?lh'" "lg_start ?s3 = lg_start s" "lg_dev ?s3 = lg_dev s" "lg_size ?s3 = lg_size s"
    "lg_outstanding ?s3 = lg_outstanding s" "lg_committing ?s3 = lg_committing s"
    "disk ?s3 = disk s" "written ?s3 = written s"
    using f2 2(2) log_fields [of ?s3 "?s2\<lparr>lg_lh := ?lh'\<rparr>"] by (simp_all add: same_but_cache_def)
  note f4 = wrote_log_fields [OF same_wrote [OF t(3)]]
  have "head_ok (lg_start s) ?lh'" using c b room by (auto simp: in_log_def head_ok_def)
  moreover have "disk_ok (lg_start s) ?v" "get32 0 (?v (lg_start s)) = 0"
    using c b by (auto simp: in_log_def disk_ok_def log_area_def)
  moreover have "insert b (set ?lh) = set ?lh'" by auto
  ultimately have "in_log t ?v" using t(2) f3 f4 c by (auto simp: in_log_def)
  moreover have "modify_block b f s = Inr t" using 1(1) lw t(1) by (simp add: modify_block_def)
  ultimately show ?thesis using f3 f4 t(3) by (auto simp: same_but_cache_def)
qed

end
