(* ===== verification/Log_Main.thy ===== *)
theory Log_Main
  imports Log_Spec
begin

text \<open>
  The contract of the log: blocks that are fetched and modified inside a transaction, as a locale
  that \<open>log.c\<close> over \<open>bio.c\<close> provides, and the atomicity of a transaction across crashes.
\<close>

section \<open>The block store that the file system uses\<close>

text \<open>
  Blocks that are fetched and modified inside a transaction: \<open>inv s v\<close> says that the store \<open>s\<close>
  holds the blocks \<open>v\<close>, \<open>budget s\<close> how many more blocks the transaction may change.
\<close>

locale block_store =
  fixes inv :: "'s \<Rightarrow> (nat \<Rightarrow> bytes) \<Rightarrow> bool"
    and legal :: "'s \<Rightarrow> nat \<Rightarrow> bool"
    and budget :: "'s \<Rightarrow> nat"
    and fetch :: "nat \<Rightarrow> 's \<Rightarrow> (bytes \<times> 's) kres"
    and modify :: "nat \<Rightarrow> (bytes \<Rightarrow> bytes) \<Rightarrow> 's \<Rightarrow> 's kres"
    and same :: "'s \<Rightarrow> 's \<Rightarrow> bool"
  assumes fetch: "inv s v \<Longrightarrow> b < FSSIZE \<Longrightarrow> \<exists>t. fetch b s = Inr (v b, t) \<and> inv t v \<and> same s t \<and> budget t = budget s"
    and modify: "inv s v \<Longrightarrow> legal s b \<Longrightarrow> 0 < budget s \<Longrightarrow>
      \<exists>t. modify b f s = Inr t \<and> inv t (v(b := f (v b))) \<and> same s t \<and> budget s \<le> budget t + 1"
    and legal: "same s t \<Longrightarrow> legal t b = legal s b" "legal s b \<Longrightarrow> b < FSSIZE"
    and same: "same s s" "same s t \<Longrightarrow> same t u \<Longrightarrow> same s u"
begin

text \<open>A transaction within its budget runs to its end and does what its changes do in turn.\<close>

lemma run_transaction:
  assumes "inv s v" "\<And>b f. (b, f) \<in> set ops \<Longrightarrow> legal s b" "length ops \<le> budget s"
  shows "\<exists>t. each (\<lambda>(b, f). modify b f) ops s = Inr t \<and>
    inv t (fold (\<lambda>(b, f) v. v(b := f (v b))) ops v) \<and> same s t \<and> budget s \<le> budget t + length ops"
  using assms
proof (induction ops arbitrary: s v)
  case Nil
  then show ?case using same(1) by auto
next
  case (Cons a ops)
  obtain b f where a: "a = (b, f)" by (cases a)
  have "legal s b" "0 < budget s" using Cons.prems(2,3) a by auto
  then obtain s1 where 1: "modify b f s = Inr s1" "inv s1 (v(b := f (v b)))" "same s s1" "budget s \<le> budget s1 + 1"
    using modify [OF Cons.prems(1)] by blast
  have "legal s1 c" if "(c, g) \<in> set ops" for c g using Cons.prems(2) [of c g] that legal(1) [OF 1(3)] by simp
  moreover have "length ops \<le> budget s1" using Cons.prems(3) 1(4) by simp
  ultimately obtain t where t: "each (\<lambda>(b, f). modify b f) ops s1 = Inr t"
    "inv t (fold (\<lambda>(b, f) v. v(b := f (v b))) ops (v(b := f (v b))))" "same s1 t" "budget s1 \<le> budget t + length ops"
    using Cons.IH [OF 1(2)] by blast
  have "same s t" using same(2) 1(3) t(3) .
  then show ?case using 1 t by (auto simp: a simp del: fun_upd_apply)
qed

lemma fetch_modified:
  assumes "inv s v" "legal s b" "0 < budget s"
  shows "\<exists>t u. modify b f s = Inr t \<and> fetch b t = Inr (f (v b), u)"
proof -
  obtain t where t: "modify b f s = Inr t" "inv t (v(b := f (v b)))"
    using modify [OF assms] by blast
  then show ?thesis using fetch [OF t(2) legal(2) [OF assms(2)]] by auto
qed

end

definition log_legal :: "'a logst_scheme \<Rightarrow> nat \<Rightarrow> bool" where
  "log_legal s b \<longleftrightarrow> b < FSSIZE \<and> b \<noteq> 1 \<and> b \<notin> log_area (lg_start s)"

definition log_budget :: "'a logst_scheme \<Rightarrow> nat" where
  "log_budget s = (if lg_outstanding s = 0 then 0 else min (NBUF - 1) (lg_size s - 1) - length (lg_lh s))"

definition same_disk :: "'a logst_scheme \<Rightarrow> 'a logst_scheme \<Rightarrow> bool" where
  "same_disk s t \<longleftrightarrow> lg_start t = lg_start s \<and> lg_size t = lg_size s \<and> lg_outstanding t = lg_outstanding s \<and>
     lg_committing t = lg_committing s \<and> disk t = disk s \<and> written t = written s"

interpretation txn: block_store in_log log_legal log_budget fetch_block modify_block same_disk
proof unfold_locales
  fix s t u :: "'a logst_scheme" and v b f
  show "\<exists>t. fetch_block b s = Inr (v b, t) \<and> in_log t v \<and> same_disk s t \<and> log_budget t = log_budget s"
    if c: "in_log s v" "b < FSSIZE"
  proof -
    obtain t where t: "fetch_block b s = Inr (v b, t)" "in_log t v" "same_but_cache s t"
      using fetch_block_ok [OF c] by blast
    then show ?thesis using wrote_log_fields [OF same_wrote [OF t(3)]]
      by (auto simp: same_disk_def log_budget_def same_but_cache_def)
  qed
  show "\<exists>t. modify_block b f s = Inr t \<and> in_log t (v(b := f (v b))) \<and> same_disk s t \<and> log_budget s \<le> log_budget t + 1"
    if c: "in_log s v" "log_legal s b" "0 < log_budget s"
  proof -
    obtain t where t: "modify_block b f s = Inr t" "in_log t (v(b := f (v b)))"
      "length (lg_lh t) \<le> length (lg_lh s) + 1" "same_disk s t"
      using modify_block_ok [OF c(1), of b f] c(2,3)
      by (fastforce simp: log_legal_def log_budget_def same_disk_def split: if_splits)
    then show ?thesis by (intro exI [of _ t]) (auto simp: same_disk_def log_budget_def)
  qed
qed (auto simp: log_legal_def same_disk_def)

section \<open>Properties\<close>

text \<open>C2: A system call that changes blocks inside a transaction is atomic: it runs through without a
  panic, \<open>end_op\<close> commits it, and a crash at any of the sector writes, followed by any number of
  crashes of the recovery, leaves a disk that the recovery turns into the blocks before the call or,
  once the header is written, into the blocks after it.\<close>

theorem transaction_atomic:
  assumes s: "in_log s v" "lg_lh s = []" "lg_outstanding s = 1" "\<not> lg_committing s"
    and ops: "fst ` set ops \<subseteq> {b. log_legal s b}" "length ops < NBUF" "length ops < lg_size s"
  shows "\<exists>t u n. each (\<lambda>(b, f). modify_block b f) ops s = Inr t \<and> end_op t = Inr u \<and>
    (\<forall>k d. crashes (replay (take k (drop (length (written s)) (written u))) (disk s)) d \<longrightarrow>
      (\<exists>r. initlog ROOTDEV (boot d) = Inr r \<and>
        (\<forall>b. b \<notin> log_area (lg_start s) \<longrightarrow> disk r (drive ROOTDEV) b =
          (if k \<le> n then v b else fold (\<lambda>(b, f) v. v(b := f (v b))) ops v b))))"
proof -
  let ?v = "fold (\<lambda>(b, f) v. v(b := f (v b))) ops v"
  have "length ops \<le> log_budget s" using s ops(2,3) by (simp add: log_budget_def) linarith
  then obtain t where t: "each (\<lambda>(b, f). modify_block b f) ops s = Inr t" "in_log t ?v" "same_disk s t"
    using txn.run_transaction [OF s(1), of ops] ops(1) by force
  let ?t = "t\<lparr>lg_outstanding := 0, lg_committing := True\<rparr>"
  have c: "in_log ?t ?v" using t(2) by (simp add: in_log_def)
  have old: "disk s (drive ROOTDEV) b = v b" for b using s(1,2) by (simp add: in_log_def rep_def)
  obtain u where u: "commit ?t = Inr u"
    using commit_run [OF c] by (cases "lg_lh t = []") (auto simp: commit_def)
  then have "end_op t = Inr (u\<lparr>lg_committing := False\<rparr>)"
    using t(3) s(3,4) by (simp add: end_op_def same_disk_def Let_def)
  moreover have "\<exists>r. initlog ROOTDEV (boot d) = Inr r \<and> (\<forall>b. b \<notin> log_area (lg_start s) \<longrightarrow>
      disk r (drive ROOTDEV) b = (if k \<le> length (lg_lh t) then v b else ?v b))"
    if d: "crashes (replay (take k (drop (length (written s)) (written u))) (disk s)) d" for k d
  proof -
    have d': "crashes (replay (take k (drop (length (written ?t)) (written u))) (disk ?t)) d"
      using d t(3) by (simp add: same_disk_def)
    note * = crash_in_commit [OF c u, where k = k]
    show ?thesis
      by (rule recovered [OF *(1) d']) (use *(2) t(3) old in \<open>auto simp: same_disk_def\<close>)
  qed
  ultimately show ?thesis using t(1) by (intro exI [of _ t] exI [of _ "u\<lparr>lg_committing := False\<rparr>"] exI [of _ "length (lg_lh t)"]) simp
qed

text \<open>Changes of different blocks each take a place in the log, and fill it.\<close>

lemma fill_log:
  assumes "in_log s v" "distinct (map fst ops)" "fst ` set ops \<inter> set (lg_lh s) = {}" "\<forall>b \<in> fst ` set ops. log_legal s b"
    "0 < lg_outstanding s" "length (lg_lh s) + length ops < NBUF" "length (lg_lh s) + length ops < lg_size s"
  shows "\<exists>t w. each (\<lambda>(b, f). modify_block b f) ops s = Inr t \<and> in_log t w \<and> lg_lh t = lg_lh s @ map fst ops \<and>
    lg_size t = lg_size s \<and> lg_outstanding t = lg_outstanding s"
  using assms
proof (induction ops arbitrary: s v)
  case (Cons a ops)
  obtain b f where a: "a = (b, f)" by (cases a)
  have b: "b < FSSIZE" "b \<noteq> 1" "b \<notin> log_area (lg_start s)" "b \<notin> set (lg_lh s)"
    using Cons.prems(3,4) by (auto simp: a log_legal_def)
  obtain s1 where 1: "modify_block b f s = Inr s1" "in_log s1 (v(b := f (v b)))" "lg_lh s1 = lg_lh s @ [b]"
    "lg_outstanding s1 = lg_outstanding s" "lg_size s1 = lg_size s" "lg_start s1 = lg_start s"
    using modify_block_ok [OF Cons.prems(1) b(1-3) Cons.prems(5), of f] Cons.prems(6,7) b(4) by auto
  have "\<forall>c \<in> fst ` set ops. log_legal s1 c" using Cons.prems(4) 1(6) by (simp add: log_legal_def)
  moreover have "fst ` set ops \<inter> set (lg_lh s1) = {}" using Cons.prems(2,3) by (auto simp: a 1(3))
  ultimately obtain t w where "each (\<lambda>(b, f). modify_block b f) ops s1 = Inr t" "in_log t w"
    "lg_lh t = lg_lh s1 @ map fst ops" "lg_size t = lg_size s1" "lg_outstanding t = lg_outstanding s1"
    using Cons.IH [OF 1(2)] Cons.prems 1 by (auto simp: a)
  then show ?case using 1 by (auto simp: a)
qed auto

lemma log_write_full:
  assumes c: "in_log s v" and b: "b < FSSIZE" and full: "lg_size s \<le> length (lg_lh s) + 1"
  shows "modify_block b f s = Inl (Panic ''too big a transaction'')"
proof -
  have "rep s v {} (set (lg_lh s)) {}" "card (insert b (set (lg_lh s))) \<le> NBUF"
    using c card_head [of "lg_start s" "lg_lh s"] by (auto simp: in_log_def card_insert_if)
  then obtain i s1 where 1: "bread ROOTDEV b s = Inr (i, s1)" "same_but_cache s s1" using read_block b by blast
  have "lg_lh (upd_data i f s1) = lg_lh s" "lg_size (upd_data i f s1) = lg_size s"
    using wrote_log_fields [OF same_wrote [OF 1(2)]] by (simp_all add: upd_data_def upd_buf_def)
  then show ?thesis using 1(1) full by (simp add: modify_block_def log_write_def)
qed

text \<open>C33: \<open>begin_op\<close> promises more than \<open>log_write\<close> keeps.  On an idle log of the size that \<open>mkfs\<close> gives it, three
  operations are admitted, with ten blocks each, and only a fourth has to wait; they can change any
  29 blocks, but then every further \<open>log_write\<close> panics, of the thirtieth block as of one that is
  already in the log, because one of the thirty blocks of the log is its header.\<close>

theorem log_full_early:
  assumes "in_log s v" "lg_lh s = []" "lg_outstanding s = 0" "\<not> lg_committing s" "lg_size s = LOGSIZE"
    and ops: "distinct (map fst ops)" "\<forall>b \<in> fst ` set ops. log_legal s b" "length ops = 29"
  shows "\<exists>s1 s2 s3 t. begin_op s = Some s1 \<and> begin_op s1 = Some s2 \<and> begin_op s2 = Some s3 \<and> begin_op s3 = None \<and>
    length ops < lg_outstanding s3 * MAXOPBLOCKS \<and> each (\<lambda>(b, f). modify_block b f) ops s3 = Inr t \<and>
    (\<forall>b < FSSIZE. \<forall>f. modify_block b f t = Inl (Panic ''too big a transaction''))"
proof -
  let ?s = "\<lambda>n. s\<lparr>lg_outstanding := n\<rparr>"
  have st: "begin_op s = Some (?s 1)" "begin_op (?s 1) = Some (?s 2)" "begin_op (?s 2) = Some (?s 3)" "begin_op (?s 3) = None"
    using assms(2-4) by (simp_all add: begin_op_def log_consts MAXOPBLOCKS_def)
  have "in_log (?s 3) v" using assms(1) by (simp add: in_log_def)
  then obtain t w where t: "each (\<lambda>(b, f). modify_block b f) ops (?s 3) = Inr t" "in_log t w" "lg_lh t = map fst ops"
    "lg_size t = LOGSIZE"
    using fill_log [of "?s 3" v ops] assms by (auto simp: log_consts log_legal_def)
  have "modify_block b f t = Inl (Panic ''too big a transaction'')" if "b < FSSIZE" for b f
    using log_write_full [OF t(2) that] t(3,4) ops(3) by (simp add: log_consts)
  then show ?thesis using st t(1) ops(3) by (auto simp: MAXOPBLOCKS_def)
qed

text \<open>Witnesses: a freshly recovered disk whose log starts at block 2.\<close>

definition fresh_disk :: "nat \<Rightarrow> bytes" where
  "fresh_disk b = (if b = 1 then put32 16 2 (put32 12 30 (\<lambda>_. NUL)) else (\<lambda>_. NUL))"

lemma get32_NUL: "get32 a (\<lambda>_. NUL) = 0"
  by (simp add: get32_def get16_def)

lemma fresh_disk_ok: "disk_ok 2 fresh_disk"
  by (simp add: disk_ok_def fresh_disk_def log_consts sb_of_def get32_put32 get32_put32_other head_of_def
      head_ok_def get32_NUL)

definition fresh_log :: logst where
  "fresh_log = (boot (\<lambda>_. fresh_disk))\<lparr>lg_start := 2, lg_size := 30, lg_dev := ROOTDEV, lg_outstanding := 1\<rparr>"

lemma boot_lh: "lg_lh (boot d) = []"
proof -
  have "lg_lh (fold (\<lambda>b s. (upd_buf b (b_lock_update (\<lambda>_. initsleeplock)) s)\<lparr>mru := b # mru s\<rparr>) bs s) = lg_lh s"
    for bs and s :: logst
    by (induction bs arbitrary: s) (auto simp: upd_buf_def)
  then show ?thesis by (simp add: boot_def binit_def)
qed

lemma fresh_log_ok: "in_log fresh_log fresh_disk"
proof -
  have "rep (boot (\<lambda>_. fresh_disk)) fresh_disk {} {} {}" using boot_rep [of "\<lambda>_. fresh_disk"] by simp
  then show ?thesis using fresh_disk_ok
    by (simp add: in_log_def fresh_log_def boot_lh fresh_disk_def head_ok_def log_consts get32_NUL)
qed

theorem transaction_atomic_witness:
  "\<exists>t u r. each (\<lambda>(b, f). modify_block b f) [(100, put32 0 7), (200, put32 8 9)] fresh_log = Inr t \<and>
     end_op t = Inr u \<and>
     initlog ROOTDEV (boot (replay (take 2 (drop (length (written fresh_log)) (written u))) (disk fresh_log))) = Inr r \<and>
     disk r (drive ROOTDEV) 100 \<in> {\<lambda>_. NUL, put32 0 7 (\<lambda>_. NUL)}"
proof -
  have hyps: "lg_lh fresh_log = []" "lg_outstanding fresh_log = 1" "\<not> lg_committing fresh_log"
    using boot_sel(7) [of "\<lambda>_. fresh_disk"] by (simp_all add: fresh_log_def boot_lh)
  have legal: "fst ` set [(100, put32 0 7), (200, put32 8 9)] \<subseteq> {b. log_legal fresh_log b}"
    by (auto simp: log_legal_def fresh_log_def log_area_def log_consts)
  have len: "length [(100, put32 0 7), (200, put32 8 9)] < NBUF"
    "length [(100, put32 0 7), (200, put32 8 9)] < lg_size fresh_log"
    by (simp_all add: log_consts fresh_log_def)
  obtain t u n where 1: "each (\<lambda>(b, f). modify_block b f) [(100, put32 0 7), (200, put32 8 9)] fresh_log = Inr t"
    "end_op t = Inr u" and 2: "\<forall>k d. crashes (replay (take k (drop (length (written fresh_log)) (written u))) (disk fresh_log)) d \<longrightarrow>
      (\<exists>r. initlog ROOTDEV (boot d) = Inr r \<and>
        (\<forall>b. b \<notin> log_area (lg_start fresh_log) \<longrightarrow> disk r (drive ROOTDEV) b =
          (if k \<le> n then fresh_disk b else fold (\<lambda>(b, f) v. v(b := f (v b))) [(100, put32 0 7), (200, put32 8 9)] fresh_disk b)))"
    using transaction_atomic [OF fresh_log_ok hyps legal len] by (elim exE conjE) (rule that)
  have b: "100 \<notin> log_area (lg_start fresh_log)" by (simp add: fresh_log_def log_area_def log_consts)
  have fd: "fresh_disk 100 = (\<lambda>_. NUL)" by (simp add: fresh_disk_def)
  obtain r where r: "initlog ROOTDEV (boot (replay (take 2 (drop (length (written fresh_log)) (written u))) (disk fresh_log))) = Inr r"
    "disk r (drive ROOTDEV) 100 = (if 2 \<le> n then fresh_disk 100
       else fold (\<lambda>(b, f) v. v(b := f (v b))) [(100, put32 0 7), (200, put32 8 9)] fresh_disk 100)"
    using 2 [rule_format, OF no_crash, of 2] b by blast
  have "disk r (drive ROOTDEV) 100 \<in> {\<lambda>_. NUL, put32 0 7 (\<lambda>_. NUL)}"
    unfolding r(2) by (simp add: fd)
  then show ?thesis using 1 r(1) by blast
qed

theorem log_full_early_witness:
  "\<exists>t. each (\<lambda>(b, f). modify_block b f) (map (\<lambda>i. (100 + i, put32 0 7)) [0..<29]) (fresh_log\<lparr>lg_outstanding := 3\<rparr>) = Inr t \<and>
     modify_block 200 (put32 0 7) t = Inl (Panic ''too big a transaction'')"
proof -
  let ?s = "fresh_log\<lparr>lg_outstanding := 0\<rparr>" and ?ops = "map (\<lambda>i. (100 + i, put32 0 7)) [0..<29]"
  have 1: "in_log ?s fresh_disk" "lg_lh ?s = []" "lg_outstanding ?s = 0" "\<not> lg_committing ?s" "lg_size ?s = LOGSIZE"
    using fresh_log_ok boot_sel(7) [of "\<lambda>_. fresh_disk"] by (simp_all add: in_log_def fresh_log_def boot_lh log_consts)
  have 2: "distinct (map fst ?ops)" "length ?ops = 29" by (simp_all add: distinct_map inj_on_def o_def)
  have 3: "\<forall>b \<in> fst ` set ?ops. log_legal ?s b" by (auto simp: log_legal_def fresh_log_def log_area_def log_consts)
  obtain s1 s2 s3 t where st: "begin_op ?s = Some s1" "begin_op s1 = Some s2" "begin_op s2 = Some s3"
    "each (\<lambda>(b, f). modify_block b f) ?ops s3 = Inr t"
    "\<forall>b < FSSIZE. \<forall>f. modify_block b f t = Inl (Panic ''too big a transaction'')"
    using log_full_early [OF 1 2(1) 3 2(2)] by blast
  have "s3 = fresh_log\<lparr>lg_outstanding := 3\<rparr>" using st(1-3) by (auto simp: begin_op_def split: if_splits)
  moreover have "200 < FSSIZE" by (simp add: log_consts)
  ultimately show ?thesis using st(4,5) by blast
qed

end
