(* ===== verification/Console.thy ===== *)
theory Console
  imports Cstring
begin

text \<open>
  The console's input buffer and line editing (\<open>console.c\<close>).  The three indices run freely as
  32-bit numbers; what is written to the screen and the serial port is the list \<open>c_out\<close> of the
  arguments of \<open>consputc\<close>.
\<close>

definition INPUT_BUF :: nat where "INPUT_BUF = 128"
definition BACKSPACE :: int where "BACKSPACE = 0x100"

record console =
  c_buf :: string
  c_r :: i32
  c_w :: i32
  c_e :: i32
  c_out :: "int list"

definition consputc :: "int \<Rightarrow> console \<Rightarrow> console" where
  "consputc c s = s\<lparr>c_out := c_out s @ [c]\<rparr>"

definition in_slot :: "i32 \<Rightarrow> nat" where "in_slot i = unat i mod INPUT_BUF"

lemma word_pred_less: "(w :: i32) \<noteq> 0 \<Longrightarrow> unat (w - 1) < unat w"
  by (metis measure_unat)

text \<open>\<open>C('U')\<close>: the line typed so far is taken back.\<close>

function kill_line :: "console \<Rightarrow> console" where
  "kill_line s =
     (if c_e s \<noteq> c_w s \<and> c_buf s ! in_slot (c_e s - 1) \<noteq> CHR 0x0A
      then kill_line (consputc BACKSPACE (s\<lparr>c_e := c_e s - 1\<rparr>)) else s)"
  by pat_completeness auto

termination
proof (relation "measure (\<lambda>s. unat (c_e s - c_w s))")
  fix s :: console
  assume "c_e s \<noteq> c_w s \<and> c_buf s ! in_slot (c_e s - 1) \<noteq> CHR 0x0A"
  then have "unat (c_e s - c_w s - 1) < unat (c_e s - c_w s)" by (intro word_pred_less) auto
  then show "(consputc BACKSPACE (s\<lparr>c_e := c_e s - 1\<rparr>), s) \<in> measure (\<lambda>s. unat (c_e s - c_w s))"
    by (simp add: consputc_def algebra_simps)
qed simp

declare kill_line.simps [simp del]

text \<open>One character of the keyboard or the serial line.\<close>

definition console_key :: "char \<Rightarrow> console \<Rightarrow> console" where
  "console_key c s =
     (if c = CHR 0x10 then s
      else if c = CHR 0x15 then kill_line s
      else if c = CHR 0x08 \<or> c = CHR 0x7F then
        (if c_e s \<noteq> c_w s then consputc BACKSPACE (s\<lparr>c_e := c_e s - 1\<rparr>) else s)
      else if c \<noteq> NUL \<and> unat (c_e s - c_r s) < INPUT_BUF then
        (let c = (if c = CHR 0x0D then CHR 0x0A else c);
             s1 = consputc (of_char c) (s\<lparr>c_buf := (c_buf s)[in_slot (c_e s) := c], c_e := c_e s + 1\<rparr>)
         in if c = CHR 0x0A \<or> c = CHR 0x04 \<or> c_e s1 = c_r s1 + of_nat INPUT_BUF
            then s1\<lparr>c_w := c_e s1\<rparr> else s1)
      else s)"

definition consoleintr :: "string \<Rightarrow> console \<Rightarrow> console" where
  "consoleintr cs s = fold console_key cs s"

text \<open>The loop of \<open>consoleread\<close>: what it read, or what it has copied before it sleeps for more input,
  or that it found itself killed.\<close>

datatype reading = Line string console | Waits string console | Killed string console

fun console_take :: "bool \<Rightarrow> nat \<Rightarrow> nat \<Rightarrow> console \<Rightarrow> reading" where
  "console_take killed target 0 s = Line [] s"
| "console_take killed target (Suc n) s =
     (if c_r s = c_w s then (if killed then Killed [] s else Waits [] s)
      else let c = c_buf s ! in_slot (c_r s); s1 = s\<lparr>c_r := c_r s + 1\<rparr> in
        if c = CHR 0x04 then Line [] (if Suc n < target then s else s1)
        else if c = CHR 0x0A then Line [c] s1
        else (case console_take killed target n s1 of Line cs s2 \<Rightarrow> Line (c # cs) s2 | Waits cs s2 \<Rightarrow> Waits (c # cs) s2 | Killed cs s2 \<Rightarrow> Killed (c # cs) s2))"

end
