(* ===== verification/Fs.thy ===== *)
theory Fs
  imports Log_Main Console
begin

text \<open>
  Blocks, inodes and the contents of files (\<open>fs.c\<close>).  The layer works on the blocks that the
  buffer cache shows: \<open>blk d b\<close> is block \<open>b\<close> of device \<open>d\<close>, a read of it is \<open>get_block\<close>, and the
  sequence \<open>bread\<close>, change, \<open>log_write\<close>, \<open>brelse\<close> is \<open>put_block\<close>; \<open>Log_Main\<close> proves that the cache
  and the log show exactly these blocks.  Blocks that are held at the same time are different.
  Pointers to inodes are indices of the inode cache.  The shorts of an inode are numbers below
  65536, negative ones from 32768 on.
\<close>

definition ROOTINO :: nat where "ROOTINO = 1"
definition NINODE :: nat where "NINODE = 50"
definition NDEV :: nat where "NDEV = 10"
definition NDIRECT :: nat where "NDIRECT = 7"
definition NINDIRECT :: nat where "NINDIRECT = BSIZE div 4"
definition MAXFILE :: nat where "MAXFILE = NDIRECT + NINDIRECT"
definition IPB :: nat where "IPB = BSIZE div 64"
definition BPB :: nat where "BPB = BSIZE * 8"
definition T_DIR :: nat where "T_DIR = 1"
definition T_FILE :: nat where "T_FILE = 2"
definition T_DEV :: nat where "T_DEV = 3"
definition CONSOLE :: nat where "CONSOLE = 1"

section \<open>State\<close>

record inode =
  i_dev :: nat
  i_inum :: nat
  i_ref :: int
  i_lock :: sleeplock
  i_valid :: bool
  i_type :: nat
  i_major :: nat
  i_minor :: nat
  i_nlink :: nat
  i_size :: nat
  i_addrs :: "nat list"
  i_permission :: nat
  i_owner :: string

record fsys =
  blk :: "nat \<Rightarrow> nat \<Rightarrow> bytes"
  tx_blocks :: "nat list"
  tx_open :: nat
  log_size :: nat
  sb :: superblock
  icache :: "inode list"
  pid :: nat
  cwd :: nat
  is_killed :: bool
  cons :: console
  initial :: bool
  userS :: "nat option"
  using_idx :: nat
  priv :: bytes
  user_num :: int

definition IBLOCK :: "nat \<Rightarrow> superblock \<Rightarrow> nat" where "IBLOCK i u = i div IPB + sb_inodestart u"
definition BBLOCK :: "nat \<Rightarrow> superblock \<Rightarrow> nat" where "BBLOCK b u = b div BPB + sb_bmapstart u"

definition ino :: "'a fsys_scheme \<Rightarrow> nat \<Rightarrow> inode" where "ino s ip = icache s ! ip"

definition upd_ino :: "nat \<Rightarrow> (inode \<Rightarrow> inode) \<Rightarrow> 'a fsys_scheme \<Rightarrow> 'a fsys_scheme" where
  "upd_ino ip f s = s\<lparr>icache := (icache s)[ip := f (icache s ! ip)]\<rparr>"

section \<open>Blocks\<close>

definition get_block :: "nat \<Rightarrow> nat \<Rightarrow> 'a fsys_scheme \<Rightarrow> bytes kres" where
  "get_block d b s = (if FSSIZE \<le> b then Inl (Panic ''incorrect blockno'') else Inr (blk s d b))"

definition put_block :: "nat \<Rightarrow> nat \<Rightarrow> bytes \<Rightarrow> 'a fsys_scheme \<Rightarrow> 'a fsys_scheme kres" where
  "put_block d b m s =
     (if FSSIZE \<le> b then Inl (Panic ''incorrect blockno'')
      else if LOGSIZE \<le> length (tx_blocks s) \<or> log_size s \<le> length (tx_blocks s) + 1 then
        Inl (Panic ''too big a transaction'')
      else if tx_open s < 1 then Inl (Panic ''log_write outside of trans'')
      else Inr (s\<lparr>blk := (blk s)(d := (blk s d)(b := m)),
                 tx_blocks := (if b \<in> set (tx_blocks s) then tx_blocks s else tx_blocks s @ [b])\<rparr>))"

definition bzero :: "nat \<Rightarrow> nat \<Rightarrow> 'a fsys_scheme \<Rightarrow> 'a fsys_scheme kres" where
  "bzero d bno s = call (get_block d bno s) (\<lambda>m. put_block d bno (memset 0 NUL BSIZE m) s)"

text \<open>Bit \<open>bi\<close> of a block of the free map.\<close>

definition in_use :: "bytes \<Rightarrow> nat \<Rightarrow> bool" where
  "in_use m bi \<longleftrightarrow> bit (of_char (m (bi div 8)) :: nat) (bi mod 8)"

definition mark :: "bool \<Rightarrow> nat \<Rightarrow> bytes \<Rightarrow> bytes" where
  "mark used bi m =
     (let c = of_char (m (bi div 8)) :: nat
      in m(bi div 8 := char_of (if used then set_bit (bi mod 8) c else unset_bit (bi mod 8) c)))"

primrec balloc_from :: "nat \<Rightarrow> nat list \<Rightarrow> 'a fsys_scheme \<Rightarrow> (nat \<times> 'a fsys_scheme) kres" where
  "balloc_from d [] s = Inl (Panic ''balloc: out of blocks'')"
| "balloc_from d (b # bs) s =
     call (get_block d (BBLOCK b (sb s)) s) (\<lambda>m.
       case find (\<lambda>bi. \<not> in_use m bi) [0..<min BPB (sb_size (sb s) - b)] of
         None \<Rightarrow> balloc_from d bs s
       | Some bi \<Rightarrow>
           call (put_block d (BBLOCK b (sb s)) (mark True bi m) s) (\<lambda>s1.
           call (bzero d (b + bi) s1) (\<lambda>s2. Inr (b + bi, s2))))"

definition balloc :: "nat \<Rightarrow> 'a fsys_scheme \<Rightarrow> (nat \<times> 'a fsys_scheme) kres" where
  "balloc d s =
     balloc_from d (map (\<lambda>k. k * BPB) [0..<(sb_size (sb s) + BPB - 1) div BPB]) s"

definition bfree :: "nat \<Rightarrow> nat \<Rightarrow> 'a fsys_scheme \<Rightarrow> 'a fsys_scheme kres" where
  "bfree d b s =
     call (get_block d (BBLOCK b (sb s)) s) (\<lambda>m.
       if \<not> in_use m (b mod BPB) then Inl (Panic ''freeing free block'')
       else put_block d (BBLOCK b (sb s)) (mark False (b mod BPB) m) s)"

section \<open>Inodes\<close>

text \<open>The inode on the disk: 64 bytes, the addresses from byte 12, the permission at 44, the
  owner at 48.\<close>

definition dinode_at :: "nat \<Rightarrow> nat" where "dinode_at inum = 64 * (inum mod IPB)"

definition bytes_at :: "nat \<Rightarrow> nat \<Rightarrow> bytes \<Rightarrow> string" where
  "bytes_at a n m = map m [a..<a + n]"

definition put_bytes :: "nat \<Rightarrow> string \<Rightarrow> bytes \<Rightarrow> bytes" where
  "put_bytes a cs m = (\<lambda>i. if a \<le> i \<and> i < a + length cs then cs ! (i - a) else m i)"

definition put_words :: "nat \<Rightarrow> nat list \<Rightarrow> bytes \<Rightarrow> bytes" where
  "put_words a ws m = fold (\<lambda>i m. put32 (a + 4 * i) (ws ! i) m) [0..<length ws] m"

definition put_dinode :: "inode \<Rightarrow> nat \<Rightarrow> bytes \<Rightarrow> bytes" where
  "put_dinode p a m =
     put_words (a + 12) (i_addrs p)
       (put_bytes (a + 48) (strncpy (bytes_at (a + 48) 16 m) (i_owner p) 16)
         (put32 (a + 44) (i_permission p)
           (put32 (a + 8) (i_size p)
             (put16 (a + 6) (i_nlink p)
               (put16 (a + 4) (i_minor p) (put16 (a + 2) (i_major p) (put16 a (i_type p) m)))))))"

definition read_dinode :: "nat \<Rightarrow> bytes \<Rightarrow> inode \<Rightarrow> inode" where
  "read_dinode a m p = p\<lparr>i_type := get16 a m, i_major := get16 (a + 2) m, i_minor := get16 (a + 4) m,
     i_nlink := get16 (a + 6) m, i_size := get32 (a + 8) m,
     i_owner := strncpy (i_owner p) (bytes_at (a + 48) 16 m) 16, i_permission := get32 (a + 44) m,
     i_addrs := map (\<lambda>k. get32 (a + 12 + 4 * k) m) [0..<NDIRECT + 1]\<rparr>"

definition iinit :: "nat \<Rightarrow> 'a fsys_scheme \<Rightarrow> 'a fsys_scheme kres" where
  "iinit d s =
     call (get_block d 1 s) (\<lambda>m.
       Inr (s\<lparr>icache := map (i_lock_update (\<lambda>_. initsleeplock)) (icache s), sb := sb_of m\<rparr>))"

definition iget :: "nat \<Rightarrow> nat \<Rightarrow> 'a fsys_scheme \<Rightarrow> (nat \<times> 'a fsys_scheme) kres" where
  "iget d inum s =
     (case find (\<lambda>ip. 0 < i_ref (ino s ip) \<and> i_dev (ino s ip) = d \<and> i_inum (ino s ip) = inum) [0..<NINODE] of
        Some ip \<Rightarrow> Inr (ip, upd_ino ip (\<lambda>p. p\<lparr>i_ref := i_ref p + 1\<rparr>) s)
      | None \<Rightarrow>
          (case find (\<lambda>ip. i_ref (ino s ip) = 0) [0..<NINODE] of
             None \<Rightarrow> Inl (Panic ''iget: no inodes'')
           | Some ip \<Rightarrow>
               Inr (ip, upd_ino ip (\<lambda>p. p\<lparr>i_dev := d, i_inum := inum, i_ref := 1, i_valid := False\<rparr>) s)))"

primrec ialloc_from :: "nat \<Rightarrow> nat \<Rightarrow> nat list \<Rightarrow> 'a fsys_scheme \<Rightarrow> (nat \<times> 'a fsys_scheme) kres" where
  "ialloc_from d type [] s = Inl (Panic ''ialloc: no inodes'')"
| "ialloc_from d type (inum # is) s =
     call (get_block d (IBLOCK inum (sb s)) s) (\<lambda>m.
       if get16 (dinode_at inum) m = 0 then
         call (put_block d (IBLOCK inum (sb s)) (put16 (dinode_at inum) type (memset (dinode_at inum) NUL 64 m)) s)
           (\<lambda>s1. iget d inum s1)
       else ialloc_from d type is s)"

definition ialloc :: "nat \<Rightarrow> nat \<Rightarrow> 'a fsys_scheme \<Rightarrow> (nat \<times> 'a fsys_scheme) kres" where
  "ialloc d type s = ialloc_from d type [1..<sb_ninodes (sb s)] s"

definition iupdate :: "nat \<Rightarrow> 'a fsys_scheme \<Rightarrow> 'a fsys_scheme kres" where
  "iupdate ip s =
     (let p = ino s ip in
      call (get_block (i_dev p) (IBLOCK (i_inum p) (sb s)) s) (\<lambda>m.
        put_block (i_dev p) (IBLOCK (i_inum p) (sb s)) (put_dinode p (dinode_at (i_inum p)) m) s))"

definition idup :: "nat \<Rightarrow> 'a fsys_scheme \<Rightarrow> nat \<times> 'a fsys_scheme" where
  "idup ip s = (ip, upd_ino ip (\<lambda>p. p\<lparr>i_ref := i_ref p + 1\<rparr>) s)"

definition lock_ino :: "nat \<Rightarrow> 'a fsys_scheme \<Rightarrow> 'a fsys_scheme kres" where
  "lock_ino ip s =
     call (acquiresleep (pid s) (i_lock (ino s ip))) (\<lambda>lk. Inr (upd_ino ip (i_lock_update (\<lambda>_. lk)) s))"

definition unlock_ino :: "nat \<Rightarrow> 'a fsys_scheme \<Rightarrow> 'a fsys_scheme" where
  "unlock_ino ip s = upd_ino ip (\<lambda>p. p\<lparr>i_lock := releasesleep (i_lock p)\<rparr>) s"

definition ilock :: "nat \<Rightarrow> 'a fsys_scheme \<Rightarrow> 'a fsys_scheme kres" where
  "ilock ip s =
     (if i_ref (ino s ip) < 1 then Inl (Panic ''ilock'')
      else call (lock_ino ip s) (\<lambda>s1.
        if i_valid (ino s1 ip) then Inr s1
        else call (get_block (i_dev (ino s1 ip)) (IBLOCK (i_inum (ino s1 ip)) (sb s1)) s1) (\<lambda>m.
          let s2 = upd_ino ip (\<lambda>p. (read_dinode (dinode_at (i_inum p)) m p)\<lparr>i_valid := True\<rparr>) s1 in
          if i_type (ino s2 ip) = 0 then Inl (Panic ''ilock: no type'') else Inr s2)))"

definition iunlock :: "nat \<Rightarrow> 'a fsys_scheme \<Rightarrow> 'a fsys_scheme kres" where
  "iunlock ip s =
     (if \<not> holdingsleep (pid s) (i_lock (ino s ip)) \<or> i_ref (ino s ip) < 1 then Inl (Panic ''iunlock'')
      else Inr (unlock_ino ip s))"

section \<open>Contents\<close>

definition addr :: "'a fsys_scheme \<Rightarrow> nat \<Rightarrow> nat \<Rightarrow> nat" where
  "addr s ip k = i_addrs (ino s ip) ! k"

text \<open>\<open>ip->addrs[k] = addr = balloc(ip->dev)\<close>, when there is none yet.\<close>

definition addr_alloc :: "nat \<Rightarrow> nat \<Rightarrow> 'a fsys_scheme \<Rightarrow> (nat \<times> 'a fsys_scheme) kres" where
  "addr_alloc ip k s =
     (if addr s ip k = 0 then
        call (balloc (i_dev (ino s ip)) s) (\<lambda>(b, s1).
          Inr (b, upd_ino ip (\<lambda>p. p\<lparr>i_addrs := (i_addrs p)[k := b]\<rparr>) s1))
      else Inr (addr s ip k, s))"

definition bmap :: "nat \<Rightarrow> nat \<Rightarrow> 'a fsys_scheme \<Rightarrow> (nat \<times> 'a fsys_scheme) kres" where
  "bmap ip bn s =
     (if bn < NDIRECT then addr_alloc ip bn s
      else let bn = bn - NDIRECT in
        if bn < NINDIRECT then
          call (addr_alloc ip NDIRECT s) (\<lambda>(a, s1).
          call (get_block (i_dev (ino s1 ip)) a s1) (\<lambda>m.
            if get32 (4 * bn) m = 0 then
              call (balloc (i_dev (ino s1 ip)) s1) (\<lambda>(b, s2).
              call (put_block (i_dev (ino s1 ip)) a (put32 (4 * bn) b (blk s2 (i_dev (ino s1 ip)) a)) s2) (\<lambda>s3.
              Inr (b, s3)))
            else Inr (get32 (4 * bn) m, s1)))
        else Inl (Panic ''bmap: out of range''))"

definition itrunc :: "nat \<Rightarrow> 'a fsys_scheme \<Rightarrow> 'a fsys_scheme kres" where
  "itrunc ip s =
     call (each (\<lambda>i s. if addr s ip i \<noteq> 0 then
         call (bfree (i_dev (ino s ip)) (addr s ip i) s) (\<lambda>s1.
           Inr (upd_ino ip (\<lambda>p. p\<lparr>i_addrs := (i_addrs p)[i := 0]\<rparr>) s1))
       else Inr s) [0..<NDIRECT] s) (\<lambda>s1.
     call (if addr s1 ip NDIRECT \<noteq> 0 then
         call (get_block (i_dev (ino s1 ip)) (addr s1 ip NDIRECT) s1) (\<lambda>m.
         call (each (\<lambda>j s. if get32 (4 * j) m \<noteq> 0 then bfree (i_dev (ino s ip)) (get32 (4 * j) m) s else Inr s)
           [0..<NINDIRECT] s1) (\<lambda>s2.
         call (bfree (i_dev (ino s2 ip)) (addr s2 ip NDIRECT) s2) (\<lambda>s3.
           Inr (upd_ino ip (\<lambda>p. p\<lparr>i_addrs := (i_addrs p)[NDIRECT := 0]\<rparr>) s3))))
       else Inr s1) (\<lambda>s4.
     iupdate ip (upd_ino ip (i_size_update (\<lambda>_. 0)) s4)))"

definition iput :: "nat \<Rightarrow> 'a fsys_scheme \<Rightarrow> 'a fsys_scheme kres" where
  "iput ip s =
     call (lock_ino ip s) (\<lambda>s1.
     call (if i_valid (ino s1 ip) \<and> i_nlink (ino s1 ip) = 0 \<and> i_ref (ino s1 ip) = 1 then
         call (itrunc ip s1) (\<lambda>s2.
         call (iupdate ip (upd_ino ip (i_type_update (\<lambda>_. 0)) s2)) (\<lambda>s3.
           Inr (upd_ino ip (i_valid_update (\<lambda>_. False)) s3)))
       else Inr s1) (\<lambda>s4.
     Inr (upd_ino ip (\<lambda>p. p\<lparr>i_ref := i_ref p - 1\<rparr>) (unlock_ino ip s4))))"

definition iunlockput :: "nat \<Rightarrow> 'a fsys_scheme \<Rightarrow> 'a fsys_scheme kres" where
  "iunlockput ip s = call (iunlock ip s) (iput ip)"

record stat =
  st_type :: nat
  st_dev :: nat
  st_ino :: nat
  st_nlink :: nat
  st_size :: nat
  st_owner :: string
  st_permission :: nat

definition stati :: "nat \<Rightarrow> 'a fsys_scheme \<Rightarrow> string \<Rightarrow> stat" where
  "stati ip s old_owner =
     (let p = ino s ip in
      \<lparr>st_type = i_type p, st_dev = i_dev p, st_ino = i_inum p, st_nlink = i_nlink p, st_size = i_size p,
       st_owner = strncpy old_owner (i_owner p) 16, st_permission = i_permission p\<rparr>)"

section \<open>Devices\<close>

definition consoleread :: "nat \<Rightarrow> nat \<Rightarrow> 'a fsys_scheme \<Rightarrow> ((int \<times> string) \<times> 'a fsys_scheme) kres" where
  "consoleread ip n s =
     call (iunlock ip s) (\<lambda>s1.
       case console_take (is_killed s1) n n (cons s1) of
         Waits _ _ \<Rightarrow> Inl Diverge
       | Killed cs c \<Rightarrow> call (ilock ip (s1\<lparr>cons := c\<rparr>)) (\<lambda>s2. Inr ((- 1, cs), s2))
       | Line cs c \<Rightarrow> call (ilock ip (s1\<lparr>cons := c\<rparr>)) (\<lambda>s2. Inr ((int (length cs), cs), s2)))"

definition consolewrite :: "nat \<Rightarrow> string \<Rightarrow> 'a fsys_scheme \<Rightarrow> (int \<times> 'a fsys_scheme) kres" where
  "consolewrite ip src s =
     call (iunlock ip s) (\<lambda>s1.
     call (ilock ip (s1\<lparr>cons := fold (\<lambda>c. consputc (of_char c)) src (cons s1)\<rparr>)) (\<lambda>s2.
     Inr (int (length src), s2)))"

text \<open>\<open>devsw\<close> has the console alone, see \<open>consoleinit\<close>.\<close>

definition has_dev :: "nat \<Rightarrow> bool" where "has_dev major \<longleftrightarrow> major < NDEV \<and> major = CONSOLE"

section \<open>Reading and writing\<close>

function read_blocks :: "nat \<Rightarrow> nat \<Rightarrow> nat \<Rightarrow> 'a fsys_scheme \<Rightarrow> (string \<times> 'a fsys_scheme) kres" where
  "read_blocks ip off n s =
     (if n = 0 then Inr ([], s)
      else call (bmap ip (off div BSIZE) s) (\<lambda>(b, s1).
        call (get_block (i_dev (ino s1 ip)) b s1) (\<lambda>d.
          let m = min n (BSIZE - off mod BSIZE) in
          call (read_blocks ip (off + m) (n - m) s1) (\<lambda>(cs, s2).
            Inr (bytes_at (off mod BSIZE) m d @ cs, s2)))))"
  by pat_completeness auto
termination
  by (relation "measure (\<lambda>(ip, off, n, s). n)") (auto simp: BSIZE_def)

declare read_blocks.simps [simp del]

definition readi :: "nat \<Rightarrow> nat \<Rightarrow> nat \<Rightarrow> 'a fsys_scheme \<Rightarrow> ((int \<times> string) \<times> 'a fsys_scheme) kres" where
  "readi ip off n s =
     (let p = ino s ip in
      if i_type p = T_DEV then
        (if \<not> has_dev (i_major p) then Inr ((- 1, []), s) else consoleread ip n s)
      else if i_size p < off \<or> (off + n) mod 2 ^ 32 < off then Inr ((- 1, []), s)
      else let n = (if i_size p < off + n then i_size p - off else n) in
        call (read_blocks ip off n s) (\<lambda>(cs, s1). Inr ((int n, cs), s1)))"

function write_blocks :: "nat \<Rightarrow> string \<Rightarrow> nat \<Rightarrow> 'a fsys_scheme \<Rightarrow> 'a fsys_scheme kres" where
  "write_blocks ip src off s =
     (if src = [] then Inr s
      else call (bmap ip (off div BSIZE) s) (\<lambda>(b, s1).
        call (get_block (i_dev (ino s1 ip)) b s1) (\<lambda>d.
          let m = min (length src) (BSIZE - off mod BSIZE) in
          call (put_block (i_dev (ino s1 ip)) b (put_bytes (off mod BSIZE) (take m src) d) s1)
            (\<lambda>s2. write_blocks ip (drop m src) (off + m) s2))))"
  by pat_completeness auto
termination
  by (relation "measure (\<lambda>(ip, src, off, s). length src)") (auto simp: BSIZE_def)

declare write_blocks.simps [simp del]

definition writei :: "nat \<Rightarrow> string \<Rightarrow> nat \<Rightarrow> 'a fsys_scheme \<Rightarrow> (int \<times> 'a fsys_scheme) kres" where
  "writei ip src off s =
     (let p = ino s ip; n = length src in
      if i_type p = T_DEV then
        (if \<not> has_dev (i_major p) then Inr (- 1, s) else consolewrite ip src s)
      else if i_size p < off \<or> (off + n) mod 2 ^ 32 < off then Inr (- 1, s)
      else if MAXFILE * BSIZE < off + n then Inr (- 1, s)
      else call (write_blocks ip src off s) (\<lambda>s1.
        if 0 < n \<and> i_size (ino s1 ip) < off + n then
          call (iupdate ip (upd_ino ip (i_size_update (\<lambda>_. off + n)) s1)) (\<lambda>s2. Inr (int n, s2))
        else Inr (int n, s1)))"

end
