(* ===== verification/Users.thy ===== *)
theory Users
  imports Fs
begin

text \<open>
  The user table and the permission check of \<open>fs.c\<close>.  The table \<open>priv[11][2][17]\<close> is an array of
  374 bytes, entry \<open>i\<close> holding a name at \<open>34 i\<close> and a password at \<open>34 i + 17\<close>; a slot whose name
  starts with \<open>x\<close> counts as empty.  It is kept in the file of the inode \<open>userS\<close>.
\<close>

definition MODE_RUSR :: nat where "MODE_RUSR = 32"
definition MODE_WUSR :: nat where "MODE_WUSR = 16"
definition MODE_XUSR :: nat where "MODE_XUSR = 8"
definition MODE_ROTH :: nat where "MODE_ROTH = 4"
definition MODE_WOTH :: nat where "MODE_WOTH = 2"
definition MODE_XOTH :: nat where "MODE_XOTH = 1"

definition priv_size :: nat where "priv_size = 11 * 2 * 17"
definition uname_at :: "nat \<Rightarrow> nat" where "uname_at i = 34 * i"
definition pwd_at :: "nat \<Rightarrow> nat" where "pwd_at i = 34 * i + 17"

text \<open>A string field of the table, read up to the 16 characters that every use looks at.\<close>

definition uname :: "bytes \<Rightarrow> nat \<Rightarrow> string" where "uname m i = bytes_at (uname_at i) 16 m"
definition pwd :: "bytes \<Rightarrow> nat \<Rightarrow> string" where "pwd m i = bytes_at (pwd_at i) 16 m"

definition set_field :: "nat \<Rightarrow> string \<Rightarrow> bytes \<Rightarrow> bytes" where
  "set_field a t m = put_bytes a (strncpy (bytes_at a 16 m) t 16) m"

definition set_user :: "nat \<Rightarrow> string \<Rightarrow> string \<Rightarrow> bytes \<Rightarrow> bytes" where
  "set_user i username password m = set_field (pwd_at i) password (set_field (uname_at i) username m)"

definition get_now :: "'a fsys_scheme \<Rightarrow> string" where
  "get_now s = (if user_num s = 0 then ''root'' else uname (priv s) (using_idx s))"

text \<open>\<open>own_mode&(ip->permission)==0\<close> compares first: the right operand of \<open>&\<close> is the truth value.\<close>

definition get_modeBit :: "'a fsys_scheme \<Rightarrow> nat \<Rightarrow> nat \<Rightarrow> nat \<Rightarrow> nat" where
  "get_modeBit s ip own_mode oth_mode =
     (let p = ino s ip in
      if \<not> initial s then 1
      else if strncmp (i_owner p) (get_now s) 16 = 0 \<or> strncmp ''root'' (get_now s) 16 = 0 then
        (if own_mode AND (if i_permission p = 0 then 1 else 0) \<noteq> 0 then 0 else 1)
      else if oth_mode AND i_permission p = 0 then 0
      else 1)"

definition give_userS :: "nat \<Rightarrow> 'a fsys_scheme \<Rightarrow> 'a fsys_scheme" where
  "give_userS tmp s = s\<lparr>userS := Some tmp\<rparr>"

text \<open>The loop of \<open>update\<close>; every pass writes 374 bytes, from \<open>idx\<close> on.\<close>

definition update_max :: nat where "update_max = ((MAXOPBLOCKS - 1) div 2) * 512"

lemma call_fundef_cong [fundef_cong]:
  "r = r' \<Longrightarrow> (\<And>x. r' = Inr x \<Longrightarrow> f x = g x) \<Longrightarrow> call r f = call r' g"
  by (cases r') auto

function update_from :: "nat \<Rightarrow> nat \<Rightarrow> nat \<Rightarrow> 'a fsys_scheme \<Rightarrow> 'a fsys_scheme kres" where
  "update_from u idx ed s =
     (if idx < ed then
        (let ed1 = (if update_max < ed - idx then update_max else ed) in
         call (writei u (bytes_at idx 374 (priv s)) idx s) (\<lambda>r.
           if 0 < fst r then update_from u (idx + nat (fst r)) ed1 (snd r) else Inr (snd r)))
      else Inr s)"
  by pat_completeness auto
termination
  by (relation "measure (\<lambda>(u, idx, ed, s). max ed update_max - idx)") (auto simp: Let_def split: if_splits)

declare update_from.simps [simp del]

definition update :: "nat \<Rightarrow> 'a fsys_scheme \<Rightarrow> 'a fsys_scheme kres" where
  "update u s = update_from u 0 priv_size s"

text \<open>A call that is handed the pointer \<open>userS\<close> before it is set.\<close>

definition with_userS :: "'a fsys_scheme \<Rightarrow> (nat \<Rightarrow> 'b kres) \<Rightarrow> 'b kres" where
  "with_userS s f = (case userS s of None \<Rightarrow> Inl Fault | Some u \<Rightarrow> f u)"

definition count_users :: "bytes \<Rightarrow> nat" where
  "count_users m = length (filter (\<lambda>i. m (uname_at i) \<noteq> CHR ''x'') [0..<10])"

definition myopen :: "'a fsys_scheme \<Rightarrow> 'a fsys_scheme kres" where
  "myopen s =
     with_userS s (\<lambda>u.
     call (readi u 0 374 (s\<lparr>priv := memset 0 CHR ''x'' priv_size (priv s)\<rparr>)) (\<lambda>((n, cs), s1).
       let m = put_bytes 0 cs (priv s1);
           num = user_num s1 + int (count_users m);
           s2 = (if num = 0 then s1\<lparr>priv := set_field (uname_at 0) ''root'' (set_field (pwd_at 0) ''0000'' m),
                   user_num := num + 1\<rparr>
                 else s1\<lparr>priv := m, user_num := num\<rparr>)
       in call (update u s2) (\<lambda>s3. Inr (s3\<lparr>initial := True\<rparr>))))"

definition login :: "string \<Rightarrow> string \<Rightarrow> 'a fsys_scheme \<Rightarrow> int \<times> 'a fsys_scheme" where
  "login username password s =
     (case find (\<lambda>i. strncmp username (uname (priv s) i) 16 = 0) [0..<10] of
        None \<Rightarrow> (- 1, s)
      | Some i \<Rightarrow> if strncmp password (pwd (priv s) i) 16 = 0 then (0, s\<lparr>using_idx := i\<rparr>) else (- 1, s))"

definition logout :: "'a fsys_scheme \<Rightarrow> int \<times> 'a fsys_scheme" where
  "logout s = (0, s\<lparr>using_idx := 0\<rparr>)"

definition find_empty :: "bytes \<Rightarrow> nat option" where
  "find_empty m = find (\<lambda>i. m (uname_at i) = CHR ''x'') [0..<10]"

definition addUser :: "string \<Rightarrow> string \<Rightarrow> 'a fsys_scheme \<Rightarrow> (int \<times> 'a fsys_scheme) kres" where
  "addUser username password s =
     (case find_empty (priv s) of
        None \<Rightarrow> Inr (- 1, s)
      | Some idx \<Rightarrow>
          if \<exists>i \<in> set [0..<10]. strncmp (uname (priv s) i) username 16 = 0 then Inr (- 1, s)
          else with_userS s (\<lambda>u.
            call (update u (s\<lparr>priv := set_user idx username password (priv s)\<rparr>)) (\<lambda>s1.
              Inr (0, s1\<lparr>user_num := user_num s1 + 1\<rparr>))))"

definition deleteUser :: "string \<Rightarrow> 'a fsys_scheme \<Rightarrow> (int \<times> 'a fsys_scheme) kres" where
  "deleteUser username s =
     (if strncmp username ''root'' 16 = 0 then Inr (- 1, s)
      else case find (\<lambda>i. strncmp username (uname (priv s) i) 16 = 0) [0..<10] of
        None \<Rightarrow> Inr (- 1, s)
      | Some i \<Rightarrow> with_userS s (\<lambda>u.
          call (update u (s\<lparr>priv := memset (uname_at i) CHR ''x'' 34 (priv s)\<rparr>)) (\<lambda>s1.
            Inr (0, s1\<lparr>user_num := user_num s1 - 1\<rparr>))))"

end
