(* ===== verification/Names.thy ===== *)
theory Names
  imports Users
begin

text \<open>
  Directories and path names (\<open>fs.c\<close>).  A directory is a file of 16-byte entries, an inode number
  and a name of 14 bytes.  The buffer for a path element is the element itself, cut to 14
  characters: whatever follows its null character is never looked at.
\<close>

definition DIRSIZ :: nat where "DIRSIZ = 14"

definition dirent_inum :: "string \<Rightarrow> nat" where
  "dirent_inum de = of_char (de ! 0) + 256 * of_char (de ! 1)"

definition dirent_name :: "string \<Rightarrow> string" where "dirent_name de = take DIRSIZ (drop 2 de)"

definition dirent :: "nat \<Rightarrow> string \<Rightarrow> string" where
  "dirent inum name = char_of inum # char_of (inum div 256) # name"

definition namecmp :: "string \<Rightarrow> string \<Rightarrow> int" where "namecmp s t = strncmp s t DIRSIZ"

text \<open>The loops over a directory: the first entry from \<open>off\<close> on that satisfies \<open>P\<close>, with its offset.\<close>

function dir_scan :: "string \<Rightarrow> (string \<Rightarrow> bool) \<Rightarrow> nat \<Rightarrow> nat \<Rightarrow> 'a fsys_scheme \<Rightarrow>
    ((nat \<times> string) option \<times> 'a fsys_scheme) kres" where
  "dir_scan msg P dp off s =
     (if off < i_size (ino s dp) \<and> off < 2 ^ 32 then
        call (readi dp off 16 s) (\<lambda>r.
          if fst (fst r) \<noteq> 16 then Inl (Panic msg)
          else if P (snd (fst r)) then Inr (Some (off, snd (fst r)), snd r)
          else dir_scan msg P dp (off + 16) (snd r))
      else Inr (None, s))"
  by pat_completeness auto
termination
  by (relation "measure (\<lambda>(msg, P, dp, off, s). 2 ^ 32 - off)") auto

declare dir_scan.simps [simp del]

definition dirlookup :: "nat \<Rightarrow> string \<Rightarrow> 'a fsys_scheme \<Rightarrow> ((nat \<times> nat) option \<times> 'a fsys_scheme) kres" where
  "dirlookup dp name s =
     (if i_type (ino s dp) \<noteq> T_DIR then Inl (Panic ''dirlookup not DIR'')
      else call (dir_scan ''dirlookup read''
          (\<lambda>de. dirent_inum de \<noteq> 0 \<and> namecmp name (dirent_name de) = 0) dp 0 s) (\<lambda>(r, s1).
        case r of
          None \<Rightarrow> Inr (None, s1)
        | Some (off, de) \<Rightarrow>
            call (iget (i_dev (ino s1 dp)) (dirent_inum de) s1) (\<lambda>(ip, s2). Inr (Some (ip, off), s2))))"

definition dirlink :: "nat \<Rightarrow> string \<Rightarrow> nat \<Rightarrow> 'a fsys_scheme \<Rightarrow> (int \<times> 'a fsys_scheme) kres" where
  "dirlink dp name inum s =
     call (dirlookup dp name s) (\<lambda>(r, s1).
       case r of
         Some (ip, off) \<Rightarrow> call (iput ip s1) (\<lambda>s2. Inr (- 1, s2))
       | None \<Rightarrow>
           call (dir_scan ''dirlink read'' (\<lambda>de. dirent_inum de = 0) dp 0 s1) (\<lambda>(e, s2).
             let off = (case e of Some (off, de) \<Rightarrow> off | None \<Rightarrow> 16 * ((i_size (ino s2 dp) + 15) div 16)) in
             call (writei dp (dirent inum (strncpy_out DIRSIZ name)) off s2) (\<lambda>(n, s3).
               if n \<noteq> 16 then Inl (Panic ''dirlink'') else Inr (0, s3))))"

section \<open>Paths\<close>

definition is_end :: "string \<Rightarrow> bool" where "is_end path \<longleftrightarrow> c_hd path = NUL"

definition skip_slashes :: "string \<Rightarrow> string" where
  "skip_slashes path = dropWhile (\<lambda>c. c = CHR 0x2F) path"

definition skipelem :: "string \<Rightarrow> (string \<times> string) option" where
  "skipelem path =
     (let p = skip_slashes path in
      if is_end p then None
      else let in_elem = (\<lambda>c. c \<noteq> CHR 0x2F \<and> c \<noteq> NUL); elem = takeWhile in_elem p in
        Some (take DIRSIZ elem, skip_slashes (dropWhile in_elem p)))"

lemma length_skip_slashes: "length (skip_slashes p) \<le> length p"
  by (simp add: skip_slashes_def length_dropWhile_le)

lemma skipelem_shorter: "skipelem p = Some (name, q) \<Longrightarrow> length q < length p"
proof -
  assume a: "skipelem p = Some (name, q)"
  let ?in = "\<lambda>c. c \<noteq> CHR 0x2F \<and> c \<noteq> NUL" and ?p = "skip_slashes p"
  have q: "q = skip_slashes (dropWhile ?in ?p)" and ne: "\<not> is_end ?p"
    using a by (auto simp: skipelem_def Let_def split: if_splits)
  obtain c r where c: "?p = c # r" "c \<noteq> NUL" using ne by (cases ?p) (auto simp: is_end_def)
  have "c \<noteq> CHR 0x2F" using c(1) hd_dropWhile [of "\<lambda>c. c = CHR 0x2F" p] by (auto simp: skip_slashes_def)
  then have "length (dropWhile ?in ?p) \<le> length r"
    using c by (simp add: length_dropWhile_le)
  then have "length q \<le> length r" using length_skip_slashes le_trans unfolding q by blast
  then show ?thesis using c(1) length_skip_slashes [of p] by simp
qed

function namex_from :: "bool \<Rightarrow> string \<Rightarrow> string \<Rightarrow> nat \<Rightarrow> 'a fsys_scheme \<Rightarrow>
    ((nat \<times> string) option \<times> 'a fsys_scheme) kres" where
  "namex_from parent path name ip s =
     (case skipelem path of
        None \<Rightarrow> if parent then call (iput ip s) (\<lambda>s1. Inr (None, s1)) else Inr (Some (ip, name), s)
      | Some (name, path) \<Rightarrow>
          call (ilock ip s) (\<lambda>s1.
            if i_type (ino s1 ip) \<noteq> T_DIR then call (iunlockput ip s1) (\<lambda>s2. Inr (None, s2))
            else if get_modeBit s1 ip MODE_XUSR MODE_XOTH = 0 then call (iunlockput ip s1) (\<lambda>s2. Inr (None, s2))
            else if parent \<and> is_end path then call (iunlock ip s1) (\<lambda>s2. Inr (Some (ip, name), s2))
            else call (dirlookup ip name s1) (\<lambda>(next, s2).
              case next of
                None \<Rightarrow> call (iunlockput ip s2) (\<lambda>s3. Inr (None, s3))
              | Some (n, off) \<Rightarrow> call (iunlockput ip s2) (\<lambda>s3. namex_from parent path name n s3))))"
  by pat_completeness auto
termination
  by (relation "measure (\<lambda>(parent, path, name, ip, s). length path)") (auto dest: skipelem_shorter)

declare namex_from.simps [simp del]

definition namex :: "bool \<Rightarrow> string \<Rightarrow> 'a fsys_scheme \<Rightarrow> ((nat \<times> string) option \<times> 'a fsys_scheme) kres" where
  "namex parent path s =
     call (if c_hd path = CHR 0x2F then iget ROOTDEV ROOTINO s else Inr (idup (cwd s) s)) (\<lambda>(ip, s1).
       namex_from parent path [] ip s1)"

definition namei :: "string \<Rightarrow> 'a fsys_scheme \<Rightarrow> (nat option \<times> 'a fsys_scheme) kres" where
  "namei path s = call (namex False path s) (\<lambda>(r, s1). Inr (map_option fst r, s1))"

definition nameiparent :: "string \<Rightarrow> 'a fsys_scheme \<Rightarrow> ((nat \<times> string) option \<times> 'a fsys_scheme) kres" where
  "nameiparent path s = namex True path s"

end
