(* ===== verification/Fs_Content.thy ===== *)
theory Fs_Content
  imports Names
begin

text \<open>
  The contents of a file.  A file is consistent when its blocks, reached directly or through the
  block of indirect addresses, are different, lie behind the free map and are marked in it.  The
  lemmas follow \<open>balloc\<close>, \<open>bmap\<close>, \<open>readi\<close> and \<open>writei\<close>: mapping a part of the file keeps it
  consistent and keeps its characters, whether or not it allocates.  A result is stated by
  \<open>runs\<close>: the call returns it, unless the disk or the log is full.
\<close>

section \<open>Results up to the limits of the disk and the log\<close>

definition exhausted :: "kerror \<Rightarrow> bool" where
  "exhausted e \<longleftrightarrow> e = Panic ''balloc: out of blocks'' \<or> e = Panic ''too big a transaction''"

definition runs :: "'a kres \<Rightarrow> ('a \<Rightarrow> bool) \<Rightarrow> bool" where
  "runs r Q \<longleftrightarrow> (case r of Inl e \<Rightarrow> exhausted e | Inr x \<Rightarrow> Q x)"

lemma runs_simps [simp]: "runs (Inr x) Q = Q x" "runs (Inl e) Q = exhausted e"
  by (simp_all add: runs_def)

lemma runs_call: "runs r P \<Longrightarrow> (\<And>x. P x \<Longrightarrow> runs (f x) Q) \<Longrightarrow> runs (call r f) Q"
  by (cases r) auto

lemma runs_mono: "runs r P \<Longrightarrow> (\<And>x. P x \<Longrightarrow> Q x) \<Longrightarrow> runs r Q"
  by (cases r) auto

section \<open>The free map\<close>

lemma in_use_mark: "in_use (mark u bi m) bj = (if bj = bi then u else in_use m bj)"
proof -
  let ?c = "of_char (m (bi div 8)) :: nat"
  have byte: "bit (n mod 256) j = bit n j" if "j < 8" for n j :: nat
    using that bit_take_bit_iff [of 8 n j] by (simp add: take_bit_eq_mod)
  have j: "bj mod 8 < 8" by simp
  show ?thesis
  proof (cases "bj div 8 = bi div 8")
    case True
    have "bj = bi \<longleftrightarrow> bj mod 8 = bi mod 8" using True by (metis div_mult_mod_eq)
    then show ?thesis using True
      by (simp add: in_use_def mark_def Let_def byte bit_set_bit_iff bit_unset_bit_iff)
  next
    case False
    then show ?thesis by (auto simp: in_use_def mark_def Let_def)
  qed
qed

lemma BSIZE_512 [simp]: "BSIZE = 512" by (simp add: BSIZE_def)

lemma fs_consts: "NDIRECT = 7" "NINDIRECT = 128" "MAXFILE = 135" "IPB = 8" "BPB = 4096" "FSSIZE = 1000"
  by (simp_all add: NDIRECT_def NINDIRECT_def MAXFILE_def IPB_def BPB_def FSSIZE_def)

definition bm :: "'a fsys_scheme \<Rightarrow> nat" where "bm s = sb_bmapstart (sb s)"

definition layout_ok :: "'a fsys_scheme \<Rightarrow> nat \<Rightarrow> bool" where
  "layout_ok s d \<longleftrightarrow> bm s < sb_size (sb s) \<and> sb_size (sb s) \<le> FSSIZE \<and> 0 < tx_open s \<and>
     (\<forall>b \<le> bm s. in_use (blk s d (bm s)) b)"

text \<open>Allocating a block: the state with block \<open>b\<close> marked and cleared, and \<open>tx\<close> in the log.\<close>

definition allocated :: "nat \<Rightarrow> nat \<Rightarrow> nat list \<Rightarrow> 'a fsys_scheme \<Rightarrow> 'a fsys_scheme" where
  "allocated d b tx s = s\<lparr>blk := (blk s)(d := (blk s d)(bm s := mark True b (blk s d (bm s)),
     b := memset 0 NUL BSIZE (blk s d b))), tx_blocks := tx\<rparr>"

lemma put_block_runs:
  assumes "b < FSSIZE" "0 < tx_open s"
    "\<And>tx. Q (s\<lparr>blk := (blk s)(d := (blk s d)(b := m)), tx_blocks := tx\<rparr>)"
  shows "runs (put_block d b m s) Q"
  using assms by (auto simp: put_block_def exhausted_def)

lemma find_SomeE: "find P xs = Some x \<Longrightarrow> x \<in> set xs \<and> P x"
  by (auto simp: find_Some_iff)

lemma balloc_ok:
  assumes l: "layout_ok s d"
  shows "runs (balloc d s) (\<lambda>(b, t). \<exists>tx. t = allocated d b tx s \<and> bm s < b \<and> b < sb_size (sb s) \<and>
    \<not> in_use (blk s d (bm s)) b)"
proof -
  let ?n = "sb_size (sb s)" and ?m = "blk s d (bm s)"
  have n: "bm s < ?n" "?n \<le> 1000" using l by (auto simp: layout_ok_def fs_consts)
  then have "(?n + BPB - 1) div BPB = 1" by (simp add: fs_consts)
  then have list: "map (\<lambda>k. k * BPB) [0..<(?n + BPB - 1) div BPB] = [0]" by simp
  have bl: "balloc d s = balloc_from d [0] s" by (simp only: balloc_def list)
  have g: "get_block d (BBLOCK 0 (sb s)) s = Inr ?m"
    using n by (simp add: get_block_def BBLOCK_def fs_consts bm_def)
  show ?thesis
  proof (cases "find (\<lambda>bi. \<not> in_use ?m bi) [0..<min BPB (?n - 0)]")
    case None
    then show ?thesis by (simp add: bl g exhausted_def)
  next
    case (Some b)
    then have b: "b < ?n" "\<not> in_use ?m b" using find_SomeE [OF Some] by auto
    then have bmb: "bm s < b" using l by (metis layout_ok_def not_le)
    have "runs (call (put_block d (bm s) (mark True b ?m) s) (\<lambda>s1. call (bzero d b s1) (\<lambda>s2. Inr (b, s2))))
      (\<lambda>(b, t). \<exists>tx. t = allocated d b tx s \<and> bm s < b \<and> b < ?n \<and> \<not> in_use ?m b)"
    proof (rule runs_call [OF put_block_runs])
      show "bm s < FSSIZE" "0 < tx_open s" using l by (auto simp: layout_ok_def)
      show "\<exists>tx. s\<lparr>blk := (blk s)(d := (blk s d)(bm s := mark True b ?m)), tx_blocks := tx'\<rparr> =
          s\<lparr>blk := (blk s)(d := (blk s d)(bm s := mark True b ?m)), tx_blocks := tx\<rparr>" for tx' by blast
      fix s1
      assume "\<exists>tx. s1 = s\<lparr>blk := (blk s)(d := (blk s d)(bm s := mark True b ?m)), tx_blocks := tx\<rparr>"
      then obtain tx where s1: "s1 = s\<lparr>blk := (blk s)(d := (blk s d)(bm s := mark True b ?m)), tx_blocks := tx\<rparr>" ..
      have "get_block d b s1 = Inr (blk s d b)"
        using b n bmb by (simp add: s1 get_block_def fs_consts)
      moreover have "runs (put_block d b (memset 0 NUL BSIZE (blk s d b)) s1) (\<lambda>t. \<exists>tx. t = allocated d b tx s)"
        by (rule put_block_runs) (use b n bmb l in \<open>auto simp: s1 allocated_def fs_consts layout_ok_def\<close>)
      ultimately have "runs (bzero d b s1) (\<lambda>t. \<exists>tx. t = allocated d b tx s)" by (simp add: bzero_def)
      then show "runs (call (bzero d b s1) (\<lambda>s2. Inr (b, s2)))
        (\<lambda>(b, t). \<exists>tx. t = allocated d b tx s \<and> bm s < b \<and> b < ?n \<and> \<not> in_use ?m b)"
        by (rule runs_call) (use b bmb in auto)
    qed
    moreover have "BBLOCK 0 (sb s) = bm s" by (simp add: BBLOCK_def bm_def)
    ultimately show ?thesis using g Some by (simp add: bl)
  qed
qed


section \<open>Files\<close>

text \<open>The block that holds the \<open>bn\<close>th part of a file, 0 for none, and the characters of the file.\<close>

definition dev_of :: "'a fsys_scheme \<Rightarrow> nat \<Rightarrow> nat" where "dev_of s ip = i_dev (ino s ip)"

definition file_block :: "'a fsys_scheme \<Rightarrow> nat \<Rightarrow> nat \<Rightarrow> nat" where
  "file_block s ip bn =
     (if bn < NDIRECT then addr s ip bn
      else if addr s ip NDIRECT = 0 then 0
      else get32 (4 * (bn - NDIRECT)) (blk s (dev_of s ip) (addr s ip NDIRECT)))"

definition content :: "'a fsys_scheme \<Rightarrow> nat \<Rightarrow> nat \<Rightarrow> char" where
  "content s ip off =
     (let b = file_block s ip (off div BSIZE)
      in if b = 0 then NUL else blk s (dev_of s ip) b (off mod BSIZE))"

definition used :: "'a fsys_scheme \<Rightarrow> nat \<Rightarrow> nat set" where
  "used s ip = insert (addr s ip NDIRECT) (file_block s ip ` {..<MAXFILE}) - {0}"

definition blk_taken :: "'a fsys_scheme \<Rightarrow> nat \<Rightarrow> nat \<Rightarrow> bool" where
  "blk_taken s d b \<longleftrightarrow> bm s < b \<and> b < sb_size (sb s) \<and> in_use (blk s d (bm s)) b"

definition file_ok :: "'a fsys_scheme \<Rightarrow> nat \<Rightarrow> bool" where
  "file_ok s ip \<longleftrightarrow> layout_ok s (dev_of s ip) \<and> ip < length (icache s) \<and> length (i_addrs (ino s ip)) = 8 \<and>
     (\<forall>b \<in> used s ip. blk_taken s (dev_of s ip) b) \<and>
     (\<forall>m < MAXFILE. \<forall>n < MAXFILE. file_block s ip m = file_block s ip n \<longrightarrow> file_block s ip m \<noteq> 0 \<longrightarrow> m = n) \<and>
     (\<forall>m < MAXFILE. file_block s ip m = addr s ip NDIRECT \<longrightarrow> addr s ip NDIRECT = 0)"

text \<open>What a call on the file \<open>ip\<close> leaves alone: everything but its addresses, its blocks, and blocks
  that were free.\<close>

definition touches :: "nat \<Rightarrow> 'a fsys_scheme \<Rightarrow> 'a fsys_scheme \<Rightarrow> bool" where
  "touches ip s t \<longleftrightarrow>
     (\<exists>as bl tx. t = (upd_ino ip (i_addrs_update (\<lambda>_. as)) s)\<lparr>blk := bl, tx_blocks := tx\<rparr> \<and>
       (\<forall>b. blk_taken s (dev_of s ip) b \<longrightarrow> in_use (bl (dev_of s ip) (bm s)) b) \<and>
       (\<forall>b. blk_taken s (dev_of s ip) b \<longrightarrow> b \<notin> used s ip \<longrightarrow> bl (dev_of s ip) b = blk s (dev_of s ip) b) \<and>
       (\<forall>b < bm s. bl (dev_of s ip) b = blk s (dev_of s ip) b)) \<and>
     (\<forall>b \<in> used t ip. b \<in> used s ip \<or> \<not> blk_taken s (dev_of s ip) b)"

lemma upd_ino_simps [simp]:
  "blk (upd_ino ip f s) = blk s" "sb (upd_ino ip f s) = sb s" "tx_open (upd_ino ip f s) = tx_open s"
  "tx_blocks (upd_ino ip f s) = tx_blocks s" "log_size (upd_ino ip f s) = log_size s" "pid (upd_ino ip f s) = pid s"
  "length (icache (upd_ino ip f s)) = length (icache s)"
  by (simp_all add: upd_ino_def)

lemma ino_upd: "ip < length (icache s) \<Longrightarrow> ino (upd_ino ip f s) j = (if j = ip then f (ino s ip) else ino s j)"
  by (simp add: ino_def upd_ino_def)

lemma ino_blk [simp]: "ino (s\<lparr>blk := u\<rparr>) j = ino s j" "ino (s\<lparr>tx_blocks := w\<rparr>) j = ino s j"
  by (simp_all add: ino_def)

lemma upd_ino_blk: "upd_ino ip f (s\<lparr>blk := u\<rparr>) = (upd_ino ip f s)\<lparr>blk := u\<rparr>"
  "upd_ino ip f (s\<lparr>tx_blocks := w\<rparr>) = (upd_ino ip f s)\<lparr>tx_blocks := w\<rparr>"
  by (simp_all add: upd_ino_def)

lemma upd_ino_twice: "upd_ino ip f (upd_ino ip g s) = upd_ino ip (\<lambda>p. f (g p)) s"
  by (cases "ip < length (icache s)") (simp_all add: upd_ino_def list_update_beyond)

lemma touches_refl: "touches ip s s"
proof -
  have "s = (upd_ino ip (i_addrs_update (\<lambda>_. i_addrs (ino s ip))) s)\<lparr>blk := blk s, tx_blocks := tx_blocks s\<rparr>"
    by (simp add: upd_ino_def ino_def)
  then show ?thesis unfolding touches_def by (intro conjI exI) (auto simp: blk_taken_def)
qed

lemma touches_trans:
  assumes a: "touches ip s t" and b: "touches ip t u" and ip: "ip < length (icache s)"
  shows "touches ip s u"
proof -
  let ?d = "dev_of s ip"
  obtain as bl tx where t: "t = (upd_ino ip (i_addrs_update (\<lambda>_. as)) s)\<lparr>blk := bl, tx_blocks := tx\<rparr>"
    "\<And>b. blk_taken s ?d b \<Longrightarrow> in_use (bl ?d (bm s)) b"
    "\<And>b. blk_taken s ?d b \<Longrightarrow> b \<notin> used s ip \<Longrightarrow> bl ?d b = blk s ?d b"
    "\<And>b. b < bm s \<Longrightarrow> bl ?d b = blk s ?d b"
    "\<And>b. b \<in> used t ip \<Longrightarrow> b \<in> used s ip \<or> \<not> blk_taken s ?d b"
    using a unfolding touches_def by blast
  have d: "dev_of t ip = ?d" "bm t = bm s" "sb t = sb s" using ip by (simp_all add: t(1) dev_of_def ino_upd bm_def)
  have tk: "blk_taken t ?d b" if "blk_taken s ?d b" for b using t(2) [OF that] that by (simp add: blk_taken_def bm_def t(1))
  obtain as' bl' tx' where u: "u = (upd_ino ip (i_addrs_update (\<lambda>_. as')) t)\<lparr>blk := bl', tx_blocks := tx'\<rparr>"
    "\<And>b. blk_taken t ?d b \<Longrightarrow> in_use (bl' ?d (bm s)) b"
    "\<And>b. blk_taken t ?d b \<Longrightarrow> b \<notin> used t ip \<Longrightarrow> bl' ?d b = blk t ?d b"
    "\<And>b. b < bm s \<Longrightarrow> bl' ?d b = blk t ?d b"
    "\<And>b. b \<in> used u ip \<Longrightarrow> b \<in> used t ip \<or> \<not> blk_taken t ?d b"
    using b unfolding touches_def d by blast
  have "u = (upd_ino ip (i_addrs_update (\<lambda>_. as')) s)\<lparr>blk := bl', tx_blocks := tx'\<rparr>"
    unfolding u(1) t(1) by (simp add: upd_ino_blk upd_ino_twice)
  moreover have "in_use (bl' ?d (bm s)) b" if "blk_taken s ?d b" for b using u(2) tk that by blast
  moreover have "bl' ?d b = blk s ?d b" if "blk_taken s ?d b" "b \<notin> used s ip" for b
  proof -
    have "b \<notin> used t ip" using t(5) that by blast
    then have "bl' ?d b = blk t ?d b" using u(3) tk that(1) by blast
    then show ?thesis using t(3) that by (simp add: t(1))
  qed
  moreover have "bl' ?d b = blk s ?d b" if "b < bm s" for b using u(4) t(4) that by (simp add: t(1))
  moreover have "b \<in> used s ip \<or> \<not> blk_taken s ?d b" if "b \<in> used u ip" for b using u(5) [OF that] t(5) tk by blast
  ultimately show ?thesis unfolding touches_def by blast
qed

lemma touchesD:
  assumes "touches ip s t" "ip < length (icache s)"
  shows "sb t = sb s" "bm t = bm s" "dev_of t ip = dev_of s ip" "length (icache t) = length (icache s)"
    "i_size (ino t ip) = i_size (ino s ip)" "i_type (ino t ip) = i_type (ino s ip)" "i_inum (ino t ip) = i_inum (ino s ip)"
    "tx_open t = tx_open s"
  using assms by (auto simp: touches_def bm_def dev_of_def ino_upd)


text \<open>The state after a fresh block \<open>b\<close> was entered into the file: as its \<open>bn\<close>th part, or as the
  block of the indirect addresses.\<close>

lemma grow_ok:
  assumes ok: "file_ok s ip" and b: "bm s < b" "b < sb_size (sb s)" "\<not> in_use (blk s (dev_of s ip) (bm s)) b"
    and t: "t = (upd_ino ip (i_addrs_update (\<lambda>_. as)) s)\<lparr>blk := bl, tx_blocks := tx\<rparr>" "length as = 8"
    and bl: "bl (dev_of s ip) (bm s) = mark True b (blk s (dev_of s ip) (bm s))"
      "\<And>c. c \<noteq> bm s \<Longrightarrow> c \<noteq> b \<Longrightarrow> c \<noteq> addr s ip NDIRECT \<or> c = 0 \<Longrightarrow> bl (dev_of s ip) c = blk s (dev_of s ip) c"
      "\<And>j. j < 512 \<Longrightarrow> bl (dev_of s ip) b j = NUL"
    and shape: "addr t ip NDIRECT = addr s ip NDIRECT \<and> file_block s ip bn = 0 \<and> bn < MAXFILE \<and>
        (\<forall>n < MAXFILE. file_block t ip n = (if n = bn then b else file_block s ip n)) \<or>
      addr s ip NDIRECT = 0 \<and> addr t ip NDIRECT = b \<and> (\<forall>n < MAXFILE. file_block t ip n = file_block s ip n)"
  shows "file_ok t ip" "touches ip s t" "o' < MAXFILE * BSIZE \<Longrightarrow> content t ip o' = content s ip o'"
proof -
  let ?d = "dev_of s ip" and ?a = "addr s ip NDIRECT"
  have lay: "layout_ok s ?d" and ip: "ip < length (icache s)"
    and tk: "\<And>c. c \<in> used s ip \<Longrightarrow> blk_taken s ?d c"
    and inj: "\<And>m n. m < MAXFILE \<Longrightarrow> n < MAXFILE \<Longrightarrow> file_block s ip m = file_block s ip n \<Longrightarrow> file_block s ip m \<noteq> 0 \<Longrightarrow> m = n"
    and nind: "\<And>m. m < MAXFILE \<Longrightarrow> file_block s ip m = ?a \<Longrightarrow> ?a = 0"
    using ok by (auto simp: file_ok_def)
  have d: "dev_of t ip = ?d" "bm t = bm s" "sb t = sb s" "tx_open t = tx_open s" "blk t = bl" "length (icache t) = length (icache s)"
    "i_addrs (ino t ip) = as"
    using ip by (simp_all add: t(1) dev_of_def ino_upd bm_def)
  have fb: "file_block s ip n = 0 \<or> file_block s ip n \<in> used s ip" if "n < MAXFILE" for n
    using that by (auto simp: used_def)
  have bu: "b \<notin> used s ip" using tk b by (auto simp: blk_taken_def)
  have b0: "b \<noteq> 0" using b by simp
  have use: "in_use (bl ?d (bm s)) c = (c = b \<or> in_use (blk s ?d (bm s)) c)" for c
    by (simp add: bl(1) in_use_mark)
  have a_used: "?a = 0 \<or> ?a \<in> used s ip" by (auto simp: used_def)
  have low: "bl ?d c = blk s ?d c" if "c < bm s" for c
  proof (rule bl(2))
    have "?a = 0 \<or> bm s < ?a" using a_used tk by (auto simp: blk_taken_def)
    then show "c \<noteq> ?a \<or> c = 0" using that by auto
  qed (use that b in auto)
  have usedt: "used t ip = insert b (used s ip)"
    using shape
  proof (elim disjE conjE)
    assume *: "addr t ip NDIRECT = ?a" "file_block s ip bn = 0" "bn < MAXFILE"
      "\<forall>n < MAXFILE. file_block t ip n = (if n = bn then b else file_block s ip n)"
    let ?R = "{..<MAXFILE} - {bn}"
    have X: "{..<MAXFILE} = insert bn ?R" using *(3) by auto
    have "file_block t ip ` ?R = file_block s ip ` ?R" using *(4) by (intro image_cong) auto
    moreover have "file_block t ip bn = b" using *(3,4) by simp
    ultimately have t: "file_block t ip ` {..<MAXFILE} = insert b (file_block s ip ` ?R)"
      by (subst X) (simp only: image_insert)
    have s: "file_block s ip ` {..<MAXFILE} = insert 0 (file_block s ip ` ?R)"
      by (subst X) (simp only: image_insert *(2))
    show ?thesis using b0 by (simp only: used_def *(1) s t) blast
  next
    assume *: "?a = 0" "addr t ip NDIRECT = b" "\<forall>n < MAXFILE. file_block t ip n = file_block s ip n"
    then have "file_block t ip ` {..<MAXFILE} = file_block s ip ` {..<MAXFILE}" by (auto simp: image_iff)
    then show ?thesis using b0 * by (auto simp: used_def)
  qed
  have "blk_taken t ?d c" if "c \<in> used t ip" for c
    using that tk b usedt by (auto simp: blk_taken_def d use)
  moreover have "layout_ok t ?d" using lay by (simp add: layout_ok_def d use)
  moreover have "m = n" if "m < MAXFILE" "n < MAXFILE" "file_block t ip m = file_block t ip n" "file_block t ip m \<noteq> 0" for m n
    using shape
  proof (elim disjE conjE)
    assume "\<forall>n < MAXFILE. file_block t ip n = (if n = bn then b else file_block s ip n)"
    then have v: "file_block t ip n = (if n = bn then b else file_block s ip n)" if "n < MAXFILE" for n
      using that by blast
    have new: "file_block s ip n \<noteq> b" if "n < MAXFILE" for n using fb [OF that] bu b0 by auto
    show ?thesis
    proof (cases "m = bn")
      case True
      then show ?thesis using that new [OF that(2)] by (simp add: v split: if_splits)
    next
      case False
      then have "n \<noteq> bn" using that(3) new [OF that(1)] by (auto simp: v [OF that(1)] v [OF that(2)])
      then show ?thesis using that False inj [of m n] by (simp add: v)
    qed
  next
    assume "\<forall>n < MAXFILE. file_block t ip n = file_block s ip n"
    then show ?thesis using that inj [of m n] by simp
  qed
  moreover have "addr t ip NDIRECT = 0" if "m < MAXFILE" "file_block t ip m = addr t ip NDIRECT" for m
    using shape
  proof (elim disjE conjE)
    assume *: "addr t ip NDIRECT = ?a" "\<forall>n < MAXFILE. file_block t ip n = (if n = bn then b else file_block s ip n)"
    have "b = ?a \<Longrightarrow> ?a = 0" using a_used bu by auto
    moreover have "file_block t ip m = (if m = bn then b else file_block s ip m)" using * that by blast
    ultimately show ?thesis using *(1) that nind [of m] by (cases "m = bn") simp_all
  next
    assume *: "addr t ip NDIRECT = b" "\<forall>n < MAXFILE. file_block t ip n = file_block s ip n"
    then show ?thesis using that fb [of m] bu b0 by auto
  qed
  ultimately show "file_ok t ip" using ip t(2) unfolding file_ok_def d by auto
  have keep: "bl ?d c = blk s ?d c" if "blk_taken s ?d c" "c \<noteq> ?a" for c
    using that b by (intro bl(2)) (auto simp: blk_taken_def)
  show "touches ip s t" unfolding touches_def
  proof (intro conjI exI)
    show "t = (upd_ino ip (i_addrs_update (\<lambda>_. as)) s)\<lparr>blk := bl, tx_blocks := tx\<rparr>" by (rule t)
    show "\<forall>c. blk_taken s ?d c \<longrightarrow> in_use (bl ?d (bm s)) c" using use by (auto simp: blk_taken_def)
    show "\<forall>c. blk_taken s ?d c \<longrightarrow> c \<notin> used s ip \<longrightarrow> bl ?d c = blk s ?d c" 
    proof (intro allI impI)
      fix c assume c: "blk_taken s ?d c" "c \<notin> used s ip"
      have "c \<noteq> 0" using c(1) by (simp add: blk_taken_def)
      then show "bl ?d c = blk s ?d c" using a_used c by (intro keep) auto
    qed
    show "\<forall>c < bm s. bl ?d c = blk s ?d c" using low by blast
    show "\<forall>c \<in> used t ip. c \<in> used s ip \<or> \<not> blk_taken s ?d c" using usedt b by (auto simp: blk_taken_def)
  qed
  show "content t ip o' = content s ip o'" if "o' < MAXFILE * BSIZE"
  proof -
    let ?n = "o' div BSIZE"
    have n: "?n < MAXFILE" using that by (simp add: fs_consts)
    have same: "bl ?d (file_block s ip ?n) = blk s ?d (file_block s ip ?n)" if "file_block s ip ?n \<noteq> 0"
      using fb [OF n] tk nind [OF n] that by (intro keep) auto
    show ?thesis using shape n same bl(3) [of "o' mod BSIZE"]
      by (auto simp: content_def Let_def d b0 split: if_splits)
  qed
qed


lemma bytes_NUL: "j < 512 \<Longrightarrow> memset 0 NUL BSIZE m j = NUL"
  by (simp add: memset_apply)

lemma get32_zero: "(\<And>j. j < a + 4 \<Longrightarrow> m j = NUL) \<Longrightarrow> get32 a m = 0"
  by (simp add: get32_def get16_def)

lemma addr_alloc_ok:
  assumes ok: "file_ok s ip" and k: "k \<le> NDIRECT"
  shows "runs (addr_alloc ip k s) (\<lambda>(b, t). file_ok t ip \<and> touches ip s t \<and> b = addr t ip k \<and> b \<noteq> 0 \<and>
    b \<in> used t ip \<and> (\<forall>j < MAXFILE * BSIZE. content t ip j = content s ip j))"
proof (cases "addr s ip k = 0")
  case False
  have "addr s ip k \<in> used s ip"
  proof (cases "k = NDIRECT")
    case True
    then show ?thesis using False by (simp add: used_def)
  next
    case less: False
    then have "addr s ip k = file_block s ip k" "k < MAXFILE" using k by (simp_all add: file_block_def fs_consts)
    then show ?thesis using False by (auto simp: used_def)
  qed
  then show ?thesis using False ok touches_refl by (auto simp: addr_alloc_def)
next
  case True
  let ?d = "dev_of s ip" and ?as = "i_addrs (ino s ip)"
  have lay: "layout_ok s ?d" and ip: "ip < length (icache s)" and len: "length ?as = 8" using ok by (auto simp: file_ok_def)
  show ?thesis unfolding addr_alloc_def if_P [OF True] dev_of_def [symmetric]
  proof (rule runs_call [OF balloc_ok [OF lay]])
    fix x :: "nat \<times> 'a fsys_scheme"
    assume x: "case x of (b, t) \<Rightarrow> \<exists>tx. t = allocated ?d b tx s \<and> bm s < b \<and> b < sb_size (sb s) \<and>
      \<not> in_use (blk s ?d (bm s)) b"
    obtain b t0 where xb: "x = (b, t0)" by (cases x)
    obtain tx where t0: "t0 = allocated ?d b tx s" and b: "bm s < b" "b < sb_size (sb s)" "\<not> in_use (blk s ?d (bm s)) b"
      using x xb by auto
    define t1 where "t1 = upd_ino ip (\<lambda>p. p\<lparr>i_addrs := (i_addrs p)[k := b]\<rparr>) t0"
    let ?bl = "(blk s)(?d := (blk s ?d)(bm s := mark True b (blk s ?d (bm s)), b := memset 0 NUL BSIZE (blk s ?d b)))"
    have t: "t1 = (upd_ino ip (i_addrs_update (\<lambda>_. ?as[k := b])) s)\<lparr>blk := ?bl, tx_blocks := tx\<rparr>"
      unfolding t1_def t0 allocated_def by (simp add: upd_ino_def ino_def)
    have at: "addr t1 ip j = (if j = k then b else addr s ip j)" if "j \<le> 7" for j
      using ip len k that unfolding t by (simp add: addr_def ino_upd fs_consts nth_list_update)
    have dt: "dev_of t1 ip = ?d" "blk t1 = ?bl" using ip unfolding t by (simp_all add: dev_of_def ino_upd)
    have a7: "addr s ip NDIRECT = 0 \<or> addr s ip NDIRECT \<noteq> bm s \<and> addr s ip NDIRECT \<noteq> b"
    proof -
      have "addr s ip NDIRECT = 0 \<or> blk_taken s ?d (addr s ip NDIRECT)" using ok by (auto simp: file_ok_def used_def)
      then show ?thesis using b by (auto simp: blk_taken_def)
    qed
    have shape: "addr t1 ip NDIRECT = addr s ip NDIRECT \<and> file_block s ip k = 0 \<and> k < MAXFILE \<and>
        (\<forall>n < MAXFILE. file_block t1 ip n = (if n = k then b else file_block s ip n)) \<or>
      addr s ip NDIRECT = 0 \<and> addr t1 ip NDIRECT = b \<and> (\<forall>n < MAXFILE. file_block t1 ip n = file_block s ip n)"
    proof (cases "k = NDIRECT")
      case k7: True
      have "file_block t1 ip n = file_block s ip n" if "n < MAXFILE" for n
      proof (cases "n < NDIRECT")
        case False
        have "get32 (4 * (n - NDIRECT)) (memset 0 NUL BSIZE (blk s ?d b)) = 0"
          using that False by (intro get32_zero bytes_NUL) (simp add: fs_consts)
        then show ?thesis using False True k7 b at [of 7] by (simp add: file_block_def dt fs_consts)
      qed (use k7 at [of n] in \<open>simp add: file_block_def fs_consts\<close>)
      then show ?thesis using True k7 at [of 7] by (simp add: fs_consts)
    next
      case less: False
      then have k: "k < 7" using k by (simp add: fs_consts)
      have "file_block t1 ip n = (if n = k then b else file_block s ip n)" if "n < MAXFILE" for n
        using k at [of n] at [of 7] a7 by (auto simp: file_block_def dt fs_consts)
      then show ?thesis using True k at [of 7] by (simp add: file_block_def fs_consts)
    qed
    have bl1: "?bl ?d (bm s) = mark True b (blk s ?d (bm s))" using b by simp
    have bl2: "?bl ?d c = blk s ?d c" if "c \<noteq> bm s" "c \<noteq> b" for c using that by simp
    have bl3: "?bl ?d b j = NUL" if "j < 512" for j using that bytes_NUL by simp
    note g = grow_ok [OF ok b t _ bl1 bl2 bl3 shape]
    have "b \<in> used t1 ip"
    proof (cases "k = NDIRECT")
      case False
      then have "file_block t1 ip k = b" "k < MAXFILE" using k at [of k] by (simp_all add: file_block_def fs_consts)
      then show ?thesis using b by (force simp: used_def)
    qed (use at [of 7] b in \<open>simp add: used_def fs_consts\<close>)
    then show "runs (case x of (b, s1) \<Rightarrow> Inr (b, upd_ino ip (\<lambda>p. p\<lparr>i_addrs := (i_addrs p)[k := b]\<rparr>) s1))
      (\<lambda>(b, t). file_ok t ip \<and> touches ip s t \<and> b = addr t ip k \<and> b \<noteq> 0 \<and> b \<in> used t ip \<and>
        (\<forall>j < MAXFILE * BSIZE. content t ip j = content s ip j))"
      using g len b at [of k] k by (simp add: xb fs_consts flip: t1_def)
  qed
qed


definition mapped :: "nat \<Rightarrow> nat \<Rightarrow> 'a fsys_scheme \<Rightarrow> nat \<times> 'a fsys_scheme \<Rightarrow> bool" where
  "mapped ip bn s r \<longleftrightarrow> (case r of (b, t) \<Rightarrow> file_ok t ip \<and> touches ip s t \<and> b = file_block t ip bn \<and> b \<noteq> 0 \<and>
     (\<forall>j < MAXFILE * BSIZE. content t ip j = content s ip j))"

lemma file_okD:
  assumes "file_ok s ip"
  shows "layout_ok s (dev_of s ip)" "ip < length (icache s)" "length (i_addrs (ino s ip)) = 8"
    "b \<in> used s ip \<Longrightarrow> blk_taken s (dev_of s ip) b"
  using assms by (auto simp: file_ok_def)

lemma taken_less: "layout_ok s d \<Longrightarrow> blk_taken s d b \<Longrightarrow> b < FSSIZE"
  by (auto simp: layout_ok_def blk_taken_def)

lemma indirect_alloc_ok:
  assumes ok: "file_ok s ip" and j: "j < NINDIRECT" and a: "addr s ip NDIRECT \<noteq> 0"
    and zero: "get32 (4 * j) (blk s (dev_of s ip) (addr s ip NDIRECT)) = 0"
  shows "runs (call (balloc (dev_of s ip) s) (\<lambda>(b, s2).
      call (put_block (dev_of s ip) (addr s ip NDIRECT)
        (put32 (4 * j) b (blk s2 (dev_of s ip) (addr s ip NDIRECT))) s2) (\<lambda>s3. Inr (b, s3))))
    (mapped ip (NDIRECT + j) s)"
proof (rule runs_call [OF balloc_ok [OF file_okD(1) [OF ok]]])
  let ?d = "dev_of s ip" and ?a = "addr s ip NDIRECT"
  fix x :: "nat \<times> 'a fsys_scheme"
  assume x: "case x of (b, t) \<Rightarrow> \<exists>tx. t = allocated ?d b tx s \<and> bm s < b \<and> b < sb_size (sb s) \<and>
    \<not> in_use (blk s ?d (bm s)) b"
  obtain b t0 where xb: "x = (b, t0)" by (cases x)
  obtain tx where t0: "t0 = allocated ?d b tx s" and b: "bm s < b" "b < sb_size (sb s)" "\<not> in_use (blk s ?d (bm s)) b"
    using x xb by auto
  note D = file_okD [OF ok]
  have "?a \<in> used s ip" using a by (simp add: used_def)
  then have ta: "blk_taken s ?d ?a" by (rule D(4))
  then have ne: "?a \<noteq> b" "?a \<noteq> bm s" "?a < FSSIZE" using b taken_less [OF D(1)] by (auto simp: blk_taken_def)
  have at0: "blk t0 ?d ?a = blk s ?d ?a" using ne by (simp add: t0 allocated_def)
  have "runs (put_block ?d ?a (put32 (4 * j) b (blk s ?d ?a)) t0) (\<lambda>t. mapped ip (NDIRECT + j) s (b, t))"
  proof (rule put_block_runs [OF ne(3)])
    show "0 < tx_open t0" using D(1) by (simp add: t0 allocated_def layout_ok_def)
    fix tx'
    let ?bl = "(blk s)(?d := (blk s ?d)(bm s := mark True b (blk s ?d (bm s)), b := memset 0 NUL BSIZE (blk s ?d b),
      ?a := put32 (4 * j) b (blk s ?d ?a)))"
    define t1 where "t1 = t0\<lparr>blk := (blk t0)(?d := (blk t0 ?d)(?a := put32 (4 * j) b (blk s ?d ?a))), tx_blocks := tx'\<rparr>"
    have t: "t1 = (upd_ino ip (i_addrs_update (\<lambda>_. i_addrs (ino s ip))) s)\<lparr>blk := ?bl, tx_blocks := tx'\<rparr>"
      unfolding t1_def t0 allocated_def by (simp add: upd_ino_def ino_def)
    have at: "addr t1 ip k = addr s ip k" for k
      using D(2) unfolding t by (simp add: addr_def ino_upd)
    have dt: "dev_of t1 ip = ?d" "blk t1 = ?bl" using D(2) unfolding t by (simp_all add: dev_of_def ino_upd)
    have "b < 4294967296" using b D(1) by (auto simp: layout_ok_def fs_consts)
    then have ent: "get32 (4 * (n - NDIRECT)) (put32 (4 * j) b (blk s ?d ?a)) =
        (if n = NDIRECT + j then b else get32 (4 * (n - NDIRECT)) (blk s ?d ?a))" if le: "NDIRECT \<le> n" for n
    proof -
      define i where "i = n - NDIRECT"
      have i: "n = NDIRECT + i" using le by (simp add: i_def)
      show ?thesis
      proof (cases "i = j")
        case True
        then show ?thesis using \<open>b < 4294967296\<close> by (simp add: i get32_put32)
      next
        case False
        then have "4 * i + 4 \<le> 4 * j \<or> 4 * j + 4 \<le> 4 * i" by linarith
        then show ?thesis using False by (simp add: i get32_put32_other)
      qed
    qed
    then have fb: "file_block t1 ip n = (if n = NDIRECT + j then b else file_block s ip n)" for n
      using a ne ent [of n] by (cases "n < NDIRECT") (simp_all add: file_block_def at dt)
    have shape: "addr t1 ip NDIRECT = addr s ip NDIRECT \<and> file_block s ip (NDIRECT + j) = 0 \<and> NDIRECT + j < MAXFILE \<and>
        (\<forall>n < MAXFILE. file_block t1 ip n = (if n = NDIRECT + j then b else file_block s ip n)) \<or>
      addr s ip NDIRECT = 0 \<and> addr t1 ip NDIRECT = b \<and> (\<forall>n < MAXFILE. file_block t1 ip n = file_block s ip n)"
      using fb at j zero by (simp add: file_block_def MAXFILE_def)
    have bl1: "?bl ?d (bm s) = mark True b (blk s ?d (bm s))" using b ne by simp
    have bl2: "?bl ?d c = blk s ?d c" if "c \<noteq> bm s" "c \<noteq> b" "c \<noteq> ?a \<or> c = 0" for c using that a by auto
    have bl3: "?bl ?d b i = NUL" if "i < 512" for i using that bytes_NUL ne by simp
    note g = grow_ok [OF ok b t _ bl1 bl2 bl3 shape]
    then show "mapped ip (NDIRECT + j) s
        (b, t0\<lparr>blk := (blk t0)(?d := (blk t0 ?d)(?a := put32 (4 * j) b (blk s ?d ?a))), tx_blocks := tx'\<rparr>)"
      using D(3) b fb unfolding t1_def [symmetric] mapped_def by simp
  qed
  then show "runs (case x of (b, s2) \<Rightarrow> call (put_block ?d ?a (put32 (4 * j) b (blk s2 ?d ?a)) s2) (\<lambda>s3. Inr (b, s3)))
    (mapped ip (NDIRECT + j) s)"
    unfolding xb by (simp add: at0) (erule runs_call, simp)
qed

lemma mapped_trans:
  assumes "touches ip s t" "ip < length (icache s)" "\<forall>j < MAXFILE * BSIZE. content t ip j = content s ip j" "mapped ip bn t r"
  shows "mapped ip bn s r"
  using assms touches_trans [OF assms(1) _ assms(2)] by (auto simp: mapped_def split: prod.splits)

lemma bmap_ok:
  assumes ok: "file_ok s ip" and bn: "bn < MAXFILE"
  shows "runs (bmap ip bn s) (mapped ip bn s)"
proof (cases "bn < NDIRECT")
  case True
  then have "runs (addr_alloc ip bn s) (mapped ip bn s)"
    by (intro runs_mono [OF addr_alloc_ok [OF ok]]) (auto simp: mapped_def file_block_def)
  then show ?thesis using True by (simp add: bmap_def)
next
  case False
  define j where "j = bn - NDIRECT"
  have j: "bn = NDIRECT + j" "j < NINDIRECT" using False bn by (auto simp: j_def MAXFILE_def)
  have "runs (call (addr_alloc ip NDIRECT s) (\<lambda>(a, s1).
      call (get_block (i_dev (ino s1 ip)) a s1) (\<lambda>m.
        if get32 (4 * j) m = 0 then
          call (balloc (i_dev (ino s1 ip)) s1) (\<lambda>(b, s2).
          call (put_block (i_dev (ino s1 ip)) a (put32 (4 * j) b (blk s2 (i_dev (ino s1 ip)) a)) s2) (\<lambda>s3.
          Inr (b, s3)))
        else Inr (get32 (4 * j) m, s1)))) (mapped ip bn s)"
  proof (rule runs_call [OF addr_alloc_ok [OF ok order_refl]])
    fix x :: "nat \<times> 'a fsys_scheme"
    assume x: "case x of (b, t) \<Rightarrow> file_ok t ip \<and> touches ip s t \<and> b = addr t ip NDIRECT \<and> b \<noteq> 0 \<and>
      b \<in> used t ip \<and> (\<forall>j < MAXFILE * BSIZE. content t ip j = content s ip j)"
    obtain a t where xa: "x = (a, t)" by (cases x)
    have t: "file_ok t ip" "touches ip s t" "a = addr t ip NDIRECT" "a \<noteq> 0" "a \<in> used t ip"
      "\<forall>j < MAXFILE * BSIZE. content t ip j = content s ip j" using x xa by auto
    have "blk_taken t (dev_of t ip) a" using file_okD(4) [OF t(1,5)] .
    then have g: "get_block (i_dev (ino t ip)) a t = Inr (blk t (i_dev (ino t ip)) a)"
      using taken_less [OF file_okD(1) [OF t(1)]] by (simp add: get_block_def not_le)
    let ?m = "blk t (dev_of t ip) (addr t ip NDIRECT)"
    have "runs (if get32 (4 * j) ?m = 0 then
          call (balloc (dev_of t ip) t) (\<lambda>(b, s2).
          call (put_block (dev_of t ip) (addr t ip NDIRECT) (put32 (4 * j) b (blk s2 (dev_of t ip) (addr t ip NDIRECT))) s2) (\<lambda>s3.
          Inr (b, s3)))
        else Inr (get32 (4 * j) ?m, t)) (mapped ip (NDIRECT + j) t)"
      using indirect_alloc_ok [OF t(1) j(2)] t touches_refl [of ip t]
      by (auto simp: mapped_def file_block_def)
    then have "runs (if get32 (4 * j) ?m = 0 then
          call (balloc (dev_of t ip) t) (\<lambda>(b, s2).
          call (put_block (dev_of t ip) (addr t ip NDIRECT) (put32 (4 * j) b (blk s2 (dev_of t ip) (addr t ip NDIRECT))) s2) (\<lambda>s3.
          Inr (b, s3)))
        else Inr (get32 (4 * j) ?m, t)) (mapped ip bn s)"
      unfolding j(1) by (rule runs_mono) (rule mapped_trans [OF t(2) file_okD(2) [OF ok] t(6)])
    then show "runs (case x of (a, s1) \<Rightarrow>
      call (get_block (i_dev (ino s1 ip)) a s1) (\<lambda>m.
        if get32 (4 * j) m = 0 then
          call (balloc (i_dev (ino s1 ip)) s1) (\<lambda>(b, s2).
          call (put_block (i_dev (ino s1 ip)) a (put32 (4 * j) b (blk s2 (i_dev (ino s1 ip)) a)) s2) (\<lambda>s3.
          Inr (b, s3)))
        else Inr (get32 (4 * j) m, s1))) (mapped ip bn s)"
      by (simp only: xa prod.case g [unfolded t(3)] call_simps t(3) dev_of_def)
  qed
  then show ?thesis using False j by (simp add: bmap_def Let_def flip: j_def)
qed


lemma store_ok:
  assumes ok: "file_ok s ip" and bn: "bn < MAXFILE" and b: "b = file_block s ip bn" "b \<noteq> 0"
    and t: "t = s\<lparr>blk := (blk s)(dev_of s ip := (blk s (dev_of s ip))(b := m)), tx_blocks := tx\<rparr>"
  shows "file_ok t ip" "touches ip s t"
    "j < MAXFILE * BSIZE \<Longrightarrow> content t ip j = (if j div BSIZE = bn then m (j mod BSIZE) else content s ip j)"
proof -
  let ?d = "dev_of s ip"
  note D = file_okD [OF ok]
  have bu: "b \<in> used s ip" using b bn by (auto simp: used_def)
  then have tk: "blk_taken s ?d b" by (rule D(4))
  have nd: "b \<noteq> addr s ip NDIRECT" using ok b bn unfolding file_ok_def by metis
  have f: "dev_of t ip = ?d" "bm t = bm s" "sb t = sb s" "addr t ip k = addr s ip k" "tx_open t = tx_open s"
    "icache t = icache s" for k
    by (simp_all add: t dev_of_def bm_def addr_def)
  have ni: "ino t j = ino s j" for j by (simp add: t)
  have fb: "file_block t ip n = file_block s ip n" for n
    using nd by (simp add: file_block_def f) (simp add: t)
  have us: "used t ip = used s ip" by (simp add: used_def f fb)
  have use: "in_use (blk t ?d (bm s)) c = in_use (blk s ?d (bm s)) c" for c
    using tk by (simp add: t blk_taken_def)
  have "blk_taken t ?d c = blk_taken s ?d c" for c by (simp add: blk_taken_def f use)
  moreover have "layout_ok t ?d = layout_ok s ?d" by (simp add: layout_ok_def f use)
  ultimately show "file_ok t ip" using ok by (simp add: file_ok_def us fb f ni)
  show "touches ip s t" unfolding touches_def
  proof (intro conjI exI)
    show "t = (upd_ino ip (i_addrs_update (\<lambda>_. i_addrs (ino s ip))) s)\<lparr>blk := blk t, tx_blocks := tx\<rparr>"
      by (simp add: t upd_ino_def ino_def)
  qed (use bu tk use us in \<open>auto simp: t blk_taken_def\<close>)
  show "j < MAXFILE * BSIZE \<Longrightarrow> content t ip j = (if j div BSIZE = bn then m (j mod BSIZE) else content s ip j)"
  proof -
    assume "j < MAXFILE * BSIZE"
    then have n: "j div BSIZE < MAXFILE" by (simp add: fs_consts)
    have "file_block s ip (j div BSIZE) = b \<Longrightarrow> j div BSIZE = bn"
      using ok n b bn unfolding file_ok_def by metis
    then show ?thesis using b by (auto simp: content_def Let_def f fb) (auto simp: t)
  qed
qed

definition same_file :: "nat \<Rightarrow> 'a fsys_scheme \<Rightarrow> 'a fsys_scheme \<Rightarrow> bool" where
  "same_file ip s t \<longleftrightarrow> file_ok t ip \<and> touches ip s t \<and> (\<forall>j < MAXFILE * BSIZE. content t ip j = content s ip j)"

lemma block_step:
  assumes ok: "file_ok s ip" and off: "off < MAXFILE * BSIZE"
    and f: "\<And>b t. same_file ip s t \<Longrightarrow> b = file_block t ip (off div BSIZE) \<Longrightarrow> b \<noteq> 0 \<Longrightarrow> b < FSSIZE \<Longrightarrow>
      runs (f (b, t) (blk t (dev_of t ip) b)) Q"
  shows "runs (call (bmap ip (off div BSIZE) s) (\<lambda>r. call (get_block (i_dev (ino (snd r) ip)) (fst r) (snd r)) (f r))) Q"
proof (rule runs_call [OF bmap_ok [OF ok]])
  show bn: "off div BSIZE < MAXFILE" using off by (simp add: fs_consts)
  fix r assume m: "mapped ip (off div BSIZE) s r"
  obtain b t where r: "r = (b, t)" by (cases r)
  have t: "same_file ip s t" "b = file_block t ip (off div BSIZE)" "b \<noteq> 0"
    using m by (auto simp: r mapped_def same_file_def)
  then have "b \<in> used t ip" using bn by (auto simp: used_def)
  then have "b < FSSIZE"
    using file_okD [of t ip] t taken_less by (auto simp: same_file_def)
  then show "runs (call (get_block (i_dev (ino (snd r) ip)) (fst r) (snd r)) (f r)) Q"
    using f [OF t(1,2,3)] by (simp add: r get_block_def dev_of_def)
qed

lemma same_file_trans:
  "same_file ip s t \<Longrightarrow> same_file ip t u \<Longrightarrow> ip < length (icache s) \<Longrightarrow> same_file ip s u"
  by (auto simp: same_file_def intro: touches_trans)

lemma upt_split: "m \<le> n \<Longrightarrow> [i..<i + n] = [i..<i + m] @ [i + m..<i + m + (n - m)]"
  using upt_add_eq_append [of i "i + m" "n - m"] by simp

lemma in_block:
  assumes "(off :: nat) mod 512 + i < 512"
  shows "(off + i) div 512 = off div 512" "(off + i) mod 512 = off mod 512 + i"
proof -
  have off: "512 * (off div 512) + off mod 512 = off" by simp
  show q: "(off + i) div 512 = off div 512"
    by (rule div_nat_eqI, unfold mult_Suc_right) (use assms off in linarith)+
  have "512 * ((off + i) div 512) + (off + i) mod 512 = off + i" by simp
  then show "(off + i) mod 512 = off mod 512 + i" using off unfolding q by linarith
qed

lemma bytes_content:
  assumes "m \<le> BSIZE - off mod BSIZE" "file_block t ip (off div BSIZE) = b" "b \<noteq> 0"
  shows "bytes_at (off mod BSIZE) m (blk t (dev_of t ip) b) = map (content t ip) [off..<off + m]"
proof (rule nth_equalityI)
  fix i assume "i < length (bytes_at (off mod BSIZE) m (blk t (dev_of t ip) b))"
  then have i: "i < m" by (simp add: bytes_at_def)
  have "off mod BSIZE + i < BSIZE" using i assms(1) by simp
  note div' = in_block [OF this [unfolded BSIZE_512]]
  show "bytes_at (off mod BSIZE) m (blk t (dev_of t ip) b) ! i = map (content t ip) [off..<off + m] ! i"
    using i assms(2,3) div' by (simp add: bytes_at_def content_def Let_def)
qed (simp add: bytes_at_def)


lemma read_blocks_ok:
  assumes "file_ok s ip" "off + n \<le> MAXFILE * BSIZE"
  shows "runs (read_blocks ip off n s) (\<lambda>(cs, t). cs = map (content s ip) [off..<off + n] \<and> same_file ip s t)"
  using assms
proof (induction n arbitrary: off s rule: less_induct)
  case (less n)
  note ok = less.prems(1)
  have refl: "same_file ip s s" using ok touches_refl by (simp add: same_file_def)
  show ?case
  proof (cases "n = 0")
    case True
    then show ?thesis using refl by (simp add: read_blocks.simps [of ip off 0 s])
  next
    case False
    let ?m = "min n (BSIZE - off mod BSIZE)"
    have m: "0 < ?m" "?m \<le> n" "?m \<le> BSIZE - off mod BSIZE" using False by simp_all
    let ?f = "\<lambda>r d. call (read_blocks ip (off + ?m) (n - ?m) (snd r)) (\<lambda>(cs, s2). Inr (bytes_at (off mod BSIZE) ?m d @ cs, s2))"
    have "runs (call (bmap ip (off div BSIZE) s) (\<lambda>r. call (get_block (i_dev (ino (snd r) ip)) (fst r) (snd r)) (?f r)))
      (\<lambda>(cs, t). cs = map (content s ip) [off..<off + n] \<and> same_file ip s t)"
    proof (rule block_step [OF ok])
      show "off < MAXFILE * BSIZE" using less.prems(2) False by simp
      fix b t
      assume t: "same_file ip s t" and b: "b = file_block t ip (off div BSIZE)" "b \<noteq> 0"
      have tok: "file_ok t ip" and tc: "\<And>j. j < MAXFILE * BSIZE \<Longrightarrow> content t ip j = content s ip j"
        using t by (auto simp: same_file_def)
      have "runs (read_blocks ip (off + ?m) (n - ?m) t)
        (\<lambda>(cs, u). cs = map (content t ip) [off + ?m..<off + ?m + (n - ?m)] \<and> same_file ip t u)"
        using less.IH [of "n - ?m" t "off + ?m"] tok m less.prems(2) by simp
      then show "runs (?f (b, t) (blk t (dev_of t ip) b)) (\<lambda>(cs, t). cs = map (content s ip) [off..<off + n] \<and> same_file ip s t)"
        unfolding snd_conv
      proof (rule runs_call)
        fix x
        assume x: "case x of (cs, u) \<Rightarrow> cs = map (content t ip) [off + ?m..<off + ?m + (n - ?m)] \<and> same_file ip t u"
        obtain cs u where xc: "x = (cs, u)" by (cases x)
        have "bytes_at (off mod BSIZE) ?m (blk t (dev_of t ip) b) @ cs = map (content t ip) [off..<off + n]"
          using x bytes_content [OF m(3) b(1) [symmetric] b(2)] by (simp add: xc upt_split [OF m(2)] del: min.bounded_iff)
        also have "\<dots> = map (content s ip) [off..<off + n]" using tc less.prems(2) by simp
        finally show "runs (case x of (cs, s2) \<Rightarrow> Inr (bytes_at (off mod BSIZE) ?m (blk t (dev_of t ip) b) @ cs, s2))
            (\<lambda>(cs, t). cs = map (content s ip) [off..<off + n] \<and> same_file ip s t)"
          using x same_file_trans [OF t] file_okD(2) [OF ok] by (simp add: xc)
      qed
    qed
    moreover have "read_blocks ip off n s =
      call (bmap ip (off div BSIZE) s) (\<lambda>r. call (get_block (i_dev (ino (snd r) ip)) (fst r) (snd r)) (?f r))"
      using False by (subst read_blocks.simps) (simp add: Let_def case_prod_unfold)
    ultimately show ?thesis by simp
  qed
qed

text \<open>The contents of a file after \<open>src\<close> was written at \<open>off\<close>.\<close>

definition patch :: "nat \<Rightarrow> string \<Rightarrow> (nat \<Rightarrow> char) \<Rightarrow> nat \<Rightarrow> char" where
  "patch off src c j = (if off \<le> j \<and> j < off + length src then src ! (j - off) else c j)"

definition written_file :: "nat \<Rightarrow> nat \<Rightarrow> string \<Rightarrow> 'a fsys_scheme \<Rightarrow> 'a fsys_scheme \<Rightarrow> bool" where
  "written_file ip off src s t \<longleftrightarrow> file_ok t ip \<and> touches ip s t \<and>
     (\<forall>j < MAXFILE * BSIZE. content t ip j = patch off src (content s ip) j)"

lemma patch_patch:
  "m \<le> length src \<Longrightarrow> patch (off + m) (drop m src) (patch off (take m src) c) j = patch off src c j"
  by (auto simp: patch_def nth_append min_def)

lemma in_block_range: "(off :: nat) mod 512 + m \<le> 512 \<Longrightarrow> 0 < m \<Longrightarrow>
    off \<le> j \<and> j < off + m \<longleftrightarrow> j div 512 = off div 512 \<and> off mod 512 \<le> j mod 512 \<and> j mod 512 < off mod 512 + m"
proof -
  assume m: "off mod 512 + m \<le> 512" "0 < m"
  have o: "512 * (off div 512) + off mod 512 = off" and j: "512 * (j div 512) + j mod 512 = j" by simp_all
  show ?thesis
  proof
    assume r: "off \<le> j \<and> j < off + m"
    define i where "i = j - off"
    have i: "j = off + i" "off mod 512 + i < 512" using r m by (auto simp: i_def)
    then show "j div 512 = off div 512 \<and> off mod 512 \<le> j mod 512 \<and> j mod 512 < off mod 512 + m"
      using in_block [OF i(2)] r by simp
  next
    assume e: "j div 512 = off div 512 \<and> off mod 512 \<le> j mod 512 \<and> j mod 512 < off mod 512 + m"
    then have "512 * (j div 512) = 512 * (off div 512)" by simp
    then show "off \<le> j \<and> j < off + m" using o j e by linarith
  qed
qed

lemma put_bytes_patch:
  assumes "off mod BSIZE + length src \<le> BSIZE" "src \<noteq> []"
  shows "(if j div BSIZE = off div BSIZE then put_bytes (off mod BSIZE) src d (j mod BSIZE) else c j) =
    patch off src (\<lambda>j. if j div BSIZE = off div BSIZE then d (j mod BSIZE) else c j) j"
proof -
  note r = in_block_range [of off "length src" j] assms
  have "j - off = j mod 512 - off mod 512" if "j div 512 = off div 512" "off mod 512 \<le> j mod 512"
    using that div_mult_mod_eq [of j 512] div_mult_mod_eq [of off 512] by linarith
  then show ?thesis using r by (auto simp: patch_def put_bytes_def)
qed

lemma write_blocks_ok:
  assumes "file_ok s ip" "off + length src \<le> MAXFILE * BSIZE"
  shows "runs (write_blocks ip src off s) (written_file ip off src s)"
  using assms
proof (induction "length src" arbitrary: src off s rule: less_induct)
  case less
  note ok = less.prems(1)
  show ?case
  proof (cases "src = []")
    case True
    then show ?thesis using ok touches_refl [of ip s]
      by (auto simp: write_blocks.simps [of ip "[]" off s] written_file_def patch_def)
  next
    case False
    let ?m = "min (length src) (BSIZE - off mod BSIZE)"
    have m: "0 < ?m" "?m \<le> length src" "?m \<le> BSIZE - off mod BSIZE" using False by simp_all
    let ?f = "\<lambda>r d. call (put_block (i_dev (ino (snd r) ip)) (fst r) (put_bytes (off mod BSIZE) (take ?m src) d) (snd r))
      (\<lambda>s2. write_blocks ip (drop ?m src) (off + ?m) s2)"
    have offm: "off < MAXFILE * BSIZE" using less.prems(2) False by (cases src) auto
    have "runs (call (bmap ip (off div BSIZE) s) (\<lambda>r. call (get_block (i_dev (ino (snd r) ip)) (fst r) (snd r)) (?f r)))
      (written_file ip off src s)"
    proof (rule block_step [OF ok offm])
      fix b t
      assume t: "same_file ip s t" and b: "b = file_block t ip (off div BSIZE)" "b \<noteq> 0" "b < FSSIZE"
      have tok: "file_ok t ip" and tc: "\<And>j. j < MAXFILE * BSIZE \<Longrightarrow> content t ip j = content s ip j"
        using t by (auto simp: same_file_def)
      let ?w = "put_bytes (off mod BSIZE) (take ?m src) (blk t (dev_of t ip) b)"
      have "runs (put_block (dev_of t ip) b ?w t) (written_file ip off (take ?m src) s)"
      proof (rule put_block_runs [OF b(3)])
        show "0 < tx_open t" using file_okD(1) [OF tok] by (simp add: layout_ok_def)
        fix tx
        let ?u = "t\<lparr>blk := (blk t)(dev_of t ip := (blk t (dev_of t ip))(b := ?w)), tx_blocks := tx\<rparr>"
        have bn: "off div BSIZE < MAXFILE" using offm by (simp add: fs_consts)
        note st = store_ok [OF tok bn b(1,2) refl, where m = ?w and tx = tx]
        have "content ?u ip j = patch off (take ?m src) (content s ip) j" if j: "j < MAXFILE * BSIZE" for j
        proof -
          have "content ?u ip j = (if j div BSIZE = off div BSIZE then ?w (j mod BSIZE) else content t ip j)"
            by (rule st(3) [OF j])
          also have "\<dots> = patch off (take ?m src) (\<lambda>j. if j div BSIZE = off div BSIZE then blk t (dev_of t ip) b (j mod BSIZE) else content t ip j) j"
            using m by (intro put_bytes_patch) auto
          also have "\<dots> = patch off (take ?m src) (content s ip) j"
            using tc [OF j] b by (auto simp: patch_def content_def Let_def)
          finally show ?thesis .
        qed
        moreover have "touches ip s ?u"
          using touches_trans [OF _ st(2)] t file_okD(2) [OF ok] by (auto simp: same_file_def)
        ultimately show "written_file ip off (take ?m src) s ?u" using st(1) by (auto simp: written_file_def)
      qed
      then show "runs (?f (b, t) (blk t (dev_of t ip) b)) (written_file ip off src s)"
        unfolding fst_conv snd_conv dev_of_def [symmetric]
      proof (rule runs_call)
        fix u assume u: "written_file ip off (take ?m src) s u"
        have "runs (write_blocks ip (drop ?m src) (off + ?m) u) (written_file ip (off + ?m) (drop ?m src) u)"
          using less.hyps [of "drop ?m src" u "off + ?m"] u m less.prems(2) by (simp add: written_file_def)
        then show "runs (write_blocks ip (drop ?m src) (off + ?m) u) (written_file ip off src s)"
        proof (rule runs_mono)
          fix v assume v: "written_file ip (off + ?m) (drop ?m src) u v"
          have "content v ip j = patch off src (content s ip) j" if j: "j < MAXFILE * BSIZE" for j
          proof -
            have "content v ip j = patch (off + ?m) (drop ?m src) (content u ip) j" using v j by (simp add: written_file_def)
            also have "\<dots> = patch (off + ?m) (drop ?m src) (patch off (take ?m src) (content s ip)) j"
              using u j by (simp add: patch_def written_file_def)
            finally show ?thesis using patch_patch [OF m(2)] by simp
          qed
          then show "written_file ip off src s v"
            using u v touches_trans file_okD(2) [OF ok] by (auto simp: written_file_def)
        qed
      qed
    qed
    moreover have "write_blocks ip src off s =
      call (bmap ip (off div BSIZE) s) (\<lambda>r. call (get_block (i_dev (ino (snd r) ip)) (fst r) (snd r)) (?f r))"
      using False by (subst write_blocks.simps) (simp add: Let_def case_prod_unfold)
    ultimately show ?thesis by simp
  qed
qed


section \<open>Reading and writing files\<close>

definition inode_home :: "'a fsys_scheme \<Rightarrow> nat \<Rightarrow> bool" where
  "inode_home s ip \<longleftrightarrow> IBLOCK (i_inum (ino s ip)) (sb s) < bm s"

lemma low_block:
  assumes ok: "file_ok s ip" and c: "c < bm s"
    and t: "t = s\<lparr>blk := (blk s)(dev_of s ip := (blk s (dev_of s ip))(c := m)), tx_blocks := tx\<rparr>"
  shows "file_ok t ip" "j < MAXFILE * BSIZE \<Longrightarrow> content t ip j = content s ip j"
proof -
  let ?d = "dev_of s ip"
  note D = file_okD [OF ok]
  have hi: "bm s < b" if "b \<in> used s ip" for b using D(4) [OF that] by (simp add: blk_taken_def)
  have f: "dev_of t ip = ?d" "bm t = bm s" "sb t = sb s" "addr t ip k = addr s ip k" "tx_open t = tx_open s"
    "icache t = icache s" for k
    by (simp_all add: t dev_of_def bm_def addr_def)
  have ni: "ino t j = ino s j" for j by (simp add: t)
  have fb: "file_block t ip n = file_block s ip n" for n
  proof (cases "addr s ip NDIRECT = 0")
    case False
    then have "addr s ip NDIRECT \<noteq> c" using hi [of "addr s ip NDIRECT"] c by (auto simp: used_def)
    then show ?thesis by (simp add: file_block_def f) (simp add: t)
  qed (simp add: file_block_def f)
  have us: "used t ip = used s ip" by (simp add: used_def f fb)
  have bmb: "blk t ?d (bm s) = blk s ?d (bm s)" using c by (simp add: t)
  show "file_ok t ip" using ok by (simp add: file_ok_def us fb f ni blk_taken_def layout_ok_def bmb)
  show "content t ip j = content s ip j" if j: "j < MAXFILE * BSIZE"
  proof -
    have n: "j div BSIZE < MAXFILE" using j by (simp add: fs_consts)
    show ?thesis
    proof (cases "file_block s ip (j div BSIZE) = 0")
      case False
      then have "file_block s ip (j div BSIZE) \<in> used s ip" using n by (auto simp: used_def)
      then have "file_block s ip (j div BSIZE) \<noteq> c" using hi c by fastforce
      then show ?thesis by (simp add: content_def Let_def f fb) (simp add: t)
    qed (simp add: content_def Let_def f fb)
  qed
qed

lemma upd_other_fields:
  assumes ip: "ip < length (icache s)" and f: "\<And>p. i_addrs (f p) = i_addrs p" "\<And>p. i_dev (f p) = i_dev p"
  shows "file_ok (upd_ino ip f s) ip = file_ok s ip" "content (upd_ino ip f s) ip = content s ip"
    "dev_of (upd_ino ip f s) ip = dev_of s ip" "bm (upd_ino ip f s) = bm s"
proof -
  have e: "dev_of (upd_ino ip f s) ip = dev_of s ip" "addr (upd_ino ip f s) ip k = addr s ip k" "bm (upd_ino ip f s) = bm s" for k
    using ip f by (simp_all add: dev_of_def addr_def ino_upd bm_def)
  have fb: "file_block (upd_ino ip f s) ip = file_block s ip" by (rule ext) (simp add: file_block_def e)
  show "file_ok (upd_ino ip f s) ip = file_ok s ip"
    using ip f by (simp add: file_ok_def e fb used_def blk_taken_def layout_ok_def ino_upd)
  show "content (upd_ino ip f s) ip = content s ip" by (rule ext) (simp add: content_def e fb Let_def)
  show "dev_of (upd_ino ip f s) ip = dev_of s ip" "bm (upd_ino ip f s) = bm s" by (rule e)+
qed

lemma iupdate_ok:
  assumes ok: "file_ok s ip" and h: "inode_home s ip"
  shows "runs (iupdate ip s) (\<lambda>t. file_ok t ip \<and> (\<forall>j < MAXFILE * BSIZE. content t ip j = content s ip j) \<and>
    icache t = icache s \<and> sb t = sb s \<and> (\<forall>b. bm s < b \<longrightarrow> blk t (dev_of s ip) b = blk s (dev_of s ip) b))"
proof -
  let ?c = "IBLOCK (i_inum (ino s ip)) (sb s)"
  have c: "?c < bm s" "?c < FSSIZE" using h file_okD(1) [OF ok] by (auto simp: inode_home_def layout_ok_def)
  let ?m = "put_dinode (ino s ip) (dinode_at (i_inum (ino s ip))) (blk s (dev_of s ip) ?c)"
  have "runs (put_block (dev_of s ip) ?c ?m s) (\<lambda>t. file_ok t ip \<and> (\<forall>j < MAXFILE * BSIZE. content t ip j = content s ip j) \<and>
    icache t = icache s \<and> sb t = sb s \<and> (\<forall>b. bm s < b \<longrightarrow> blk t (dev_of s ip) b = blk s (dev_of s ip) b))"
  proof (rule put_block_runs [OF c(2)])
    show "0 < tx_open s" using file_okD(1) [OF ok] by (simp add: layout_ok_def)
    fix tx
    let ?t = "s\<lparr>blk := (blk s)(dev_of s ip := (blk s (dev_of s ip))(?c := ?m)), tx_blocks := tx\<rparr>"
    show "file_ok ?t ip \<and> (\<forall>j < MAXFILE * BSIZE. content ?t ip j = content s ip j) \<and> icache ?t = icache s \<and> sb ?t = sb s \<and>
      (\<forall>b. bm s < b \<longrightarrow> blk ?t (dev_of s ip) b = blk s (dev_of s ip) b)"
      using low_block(1) [OF ok c(1) refl, where tx = tx and m = "?m"]
        low_block(2) [OF ok c(1) refl, where tx = tx and m = "?m"] c(1) by auto
  qed
  then show ?thesis using c by (simp add: iupdate_def Let_def get_block_def dev_of_def)
qed


text \<open>What a call on the file \<open>ip\<close> leaves of the inode cache.\<close>

definition kept :: "nat \<Rightarrow> 'a fsys_scheme \<Rightarrow> 'a fsys_scheme \<Rightarrow> bool" where
  "kept ip s t \<longleftrightarrow> sb t = sb s \<and> length (icache t) = length (icache s) \<and> (\<forall>j. j \<noteq> ip \<longrightarrow> ino t j = ino s j) \<and>
     (\<exists>as n. ino t ip = (ino s ip)\<lparr>i_addrs := as, i_size := n\<rparr>)"

lemma kept_trans: "kept ip s t \<Longrightarrow> kept ip t u \<Longrightarrow> kept ip s u"
  unfolding kept_def by clarsimp blast

lemma kept_refl: "kept ip s s"
  unfolding kept_def by (auto intro!: exI [of _ "i_addrs (ino s ip)"] exI [of _ "i_size (ino s ip)"])

lemma touches_kept: "touches ip s t \<Longrightarrow> ip < length (icache s) \<Longrightarrow> kept ip s t"
  by (auto simp: touches_def kept_def ino_upd intro!: exI [of _ "i_size (ino s ip)"])

lemma keptD:
  assumes "kept ip s t"
  shows "sb t = sb s" "bm t = bm s" "dev_of t ip = dev_of s ip" "i_type (ino t ip) = i_type (ino s ip)"
    "inode_home t ip = inode_home s ip" "length (icache t) = length (icache s)"
  using assms by (auto simp: kept_def bm_def dev_of_def inode_home_def)

text \<open>The state after \<open>src\<close> was written at \<open>off\<close>.\<close>

definition stored :: "nat \<Rightarrow> nat \<Rightarrow> string \<Rightarrow> 'a fsys_scheme \<Rightarrow> 'a fsys_scheme \<Rightarrow> bool" where
  "stored ip off src s t \<longleftrightarrow> file_ok t ip \<and> kept ip s t \<and> i_size (ino t ip) = max (i_size (ino s ip)) (off + length src) \<and>
     (\<forall>j < MAXFILE * BSIZE. content t ip j = patch off src (content s ip) j) \<and>
     (\<forall>b. blk_taken s (dev_of s ip) b \<and> b \<notin> used s ip \<longrightarrow> blk t (dev_of s ip) b = blk s (dev_of s ip) b)"

lemma readi_ok:
  assumes "file_ok t ip" "i_type (ino t ip) \<noteq> T_DEV" "off + n \<le> i_size (ino t ip)" "off + n \<le> MAXFILE * BSIZE"
  shows "runs (readi ip off n t) (\<lambda>((k, cs), u). k = int n \<and> cs = map (content t ip) [off..<off + n] \<and> same_file ip t u)"
proof -
  have n32: "(off + n) mod 2 ^ 32 = off + n" using assms(4) by (simp add: fs_consts)
  have "runs (call (read_blocks ip off n t) (\<lambda>(cs, u). Inr ((int n, cs), u)))
      (\<lambda>((k, cs), u). k = int n \<and> cs = map (content t ip) [off..<off + n] \<and> same_file ip t u)"
    by (rule runs_call [OF read_blocks_ok [OF assms(1,4)]]) (auto split: prod.splits)
  then show ?thesis using assms n32 by (simp add: readi_def Let_def)
qed

text \<open>The new size goes to the inode and its block.\<close>

lemma resize_ok:
  assumes ok: "file_ok s ip" and home: "inode_home s ip"
  shows "runs (iupdate ip (upd_ino ip (i_size_update (\<lambda>_. n)) s)) (\<lambda>t. file_ok t ip \<and> kept ip s t \<and> i_size (ino t ip) = n \<and>
    (\<forall>j < MAXFILE * BSIZE. content t ip j = content s ip j) \<and>
    (\<forall>b. bm s < b \<longrightarrow> blk t (dev_of s ip) b = blk s (dev_of s ip) b))"
proof -
  let ?u = "upd_ino ip (i_size_update (\<lambda>_. n)) s"
  have ip: "ip < length (icache s)" by (rule file_okD(2) [OF ok])
  note U = upd_other_fields [OF ip, of "i_size_update (\<lambda>_. n)", simplified]
  show ?thesis
  proof (rule runs_mono [OF iupdate_ok])
    show "file_ok ?u ip" using U(1) ok by simp
    show "inode_home ?u ip" using home ip by (simp add: inode_home_def ino_upd bm_def)
    fix v :: "'a fsys_scheme"
    assume v: "file_ok v ip \<and> (\<forall>j < MAXFILE * BSIZE. content v ip j = content ?u ip j) \<and> icache v = icache ?u \<and>
      sb v = sb ?u \<and> (\<forall>b. bm ?u < b \<longrightarrow> blk v (dev_of ?u ip) b = blk ?u (dev_of ?u ip) b)"
    have iv: "ino v j = ino ?u j" for j using v by (simp add: ino_def)
    show "file_ok v ip \<and> kept ip s v \<and> i_size (ino v ip) = n \<and> (\<forall>j < MAXFILE * BSIZE. content v ip j = content s ip j) \<and>
      (\<forall>b. bm s < b \<longrightarrow> blk v (dev_of s ip) b = blk s (dev_of s ip) b)"
      using v U ip by (auto simp: kept_def iv ino_upd intro!: exI [of _ "i_addrs (ino s ip)"])
  qed
qed

lemma writei_ok:
  fixes s :: "'a fsys_scheme"
  assumes ok: "file_ok s ip" and home: "inode_home s ip" and ty: "i_type (ino s ip) \<noteq> T_DEV"
    and off: "off \<le> i_size (ino s ip)" "off + length src \<le> MAXFILE * BSIZE"
  shows "runs (writei ip src off s) (\<lambda>(n, t). n = int (length src) \<and> stored ip off src s t)"
proof -
  let ?n = "length src" and ?d = "dev_of s ip"
  note D = file_okD [OF ok]
  have n32: "(off + ?n) mod 2 ^ 32 = off + ?n" using off(2) by (simp add: fs_consts)
  have "runs (call (write_blocks ip src off s) (\<lambda>s1.
      if 0 < ?n \<and> i_size (ino s1 ip) < off + ?n then
        call (iupdate ip (upd_ino ip (i_size_update (\<lambda>_. off + ?n)) s1)) (\<lambda>s2. Inr (int ?n, s2))
      else Inr (int ?n, s1))) (\<lambda>(n, t). n = int ?n \<and> stored ip off src s t)"
  proof (rule runs_call [OF write_blocks_ok [OF ok off(2)]])
    fix t assume "written_file ip off src s t"
    then have t: "file_ok t ip" "touches ip s t" and tc: "\<forall>j < MAXFILE * BSIZE. content t ip j = patch off src (content s ip) j"
      by (auto simp: written_file_def)
    note K = touches_kept [OF t(2) D(2)] and T = touchesD [OF t(2) D(2)]
    have keep: "\<forall>b. blk_taken s ?d b \<and> b \<notin> used s ip \<longrightarrow> blk t ?d b = blk s ?d b"
      using t(2) by (auto simp: touches_def)
    show "runs (if 0 < ?n \<and> i_size (ino t ip) < off + ?n then
        call (iupdate ip (upd_ino ip (i_size_update (\<lambda>_. off + ?n)) t)) (\<lambda>s2. Inr (int ?n, s2))
      else Inr (int ?n, t)) (\<lambda>(n, t). n = int ?n \<and> stored ip off src s t)"
    proof (cases "0 < ?n \<and> i_size (ino t ip) < off + ?n")
      case True
      have "inode_home t ip" using home keptD(5) [OF K] by simp
      from resize_ok [OF t(1) this, of "off + ?n"] show ?thesis
        using True T tc keep kept_trans [OF K]
        by simp (erule runs_call, auto simp: stored_def blk_taken_def)
    next
      case False
      then have "?n = 0 \<or> off + ?n \<le> i_size (ino s ip)" using T by auto
      then show ?thesis using False t(1) T tc keep off(1) K by (auto simp: stored_def max_def)
    qed
  qed
  then show ?thesis using ty off n32 by (simp add: writei_def Let_def)
qed

text \<open>C3: What is written to a file is read back: from a consistent file a write within its bounds
  stores the characters at their offset and grows the size as far as needed, changes no other
  character of it and no block of another file, and a read of the range returns what was written;
  the two calls stop only when the disk or the log is full.\<close>

theorem writei_readi:
  fixes s :: "'a fsys_scheme"
  assumes ok: "file_ok s ip" and home: "inode_home s ip" and ty: "i_type (ino s ip) \<noteq> T_DEV"
    and off: "off \<le> i_size (ino s ip)" "off + length src \<le> MAXFILE * BSIZE"
  shows "runs (writei ip src off s) (\<lambda>(n, t). n = int (length src) \<and> file_ok t ip \<and>
      i_size (ino t ip) = max (i_size (ino s ip)) (off + length src) \<and>
      (\<forall>j < MAXFILE * BSIZE. content t ip j = patch off src (content s ip) j) \<and>
      (\<forall>b. blk_taken s (dev_of s ip) b \<and> b \<notin> used s ip \<longrightarrow> blk t (dev_of s ip) b = blk s (dev_of s ip) b) \<and>
      runs (readi ip off (length src) t) (\<lambda>((k, cs), u). k = int (length src) \<and> cs = src))"
proof (rule runs_mono [OF writei_ok [OF assms]])
  fix x assume x: "case x of (n, t) \<Rightarrow> n = int (length src) \<and> stored ip off src s t"
  obtain n t where xt: "x = (n, t)" by (cases x)
  have t: "stored ip off src s t" using x by (simp add: xt)
  have "runs (readi ip off (length src) t)
      (\<lambda>((k, cs), u). k = int (length src) \<and> cs = map (content t ip) [off..<off + length src] \<and> same_file ip t u)"
    using t ty off(2) keptD(4) [of ip s t] by (intro readi_ok) (auto simp: stored_def)
  moreover have "map (content t ip) [off..<off + length src] = src"
    using t off(2) by (intro nth_equalityI) (auto simp: stored_def patch_def)
  ultimately have "runs (readi ip off (length src) t) (\<lambda>((k, cs), u). k = int (length src) \<and> cs = src)"
    by (elim runs_mono) auto
  with x show "case x of (n, t) \<Rightarrow> n = int (length src) \<and> file_ok t ip \<and>
      i_size (ino t ip) = max (i_size (ino s ip)) (off + length src) \<and>
      (\<forall>j < MAXFILE * BSIZE. content t ip j = patch off src (content s ip) j) \<and>
      (\<forall>b. blk_taken s (dev_of s ip) b \<and> b \<notin> used s ip \<longrightarrow> blk t (dev_of s ip) b = blk s (dev_of s ip) b) \<and>
      runs (readi ip off (length src) t) (\<lambda>((k, cs), u). k = int (length src) \<and> cs = src)"
    by (simp add: xt stored_def)
qed

text \<open>A disk of 100 blocks whose free map, block 5, marks the blocks up to itself, and an empty file.\<close>

definition small_fs :: fsys where
  "small_fs = \<lparr>blk = (\<lambda>d b. if b = 5 then (\<lambda>_. NUL)(0 := CHR 0x3F) else (\<lambda>_. NUL)), tx_blocks = [], tx_open = 1,
     log_size = 30, sb = \<lparr>sb_size = 100, sb_nblocks = 94, sb_ninodes = 16, sb_nlog = 30, sb_logstart = 2,
       sb_inodestart = 3, sb_bmapstart = 5\<rparr>,
     icache = [\<lparr>i_dev = 1, i_inum = 3, i_ref = 1, i_lock = Some 1, i_valid = True, i_type = T_FILE, i_major = 0,
       i_minor = 0, i_nlink = 1, i_size = 0, i_addrs = replicate 8 0, i_permission = 0,
       i_owner = replicate 16 NUL\<rparr>],
     pid = 1, cwd = 0, is_killed = False,
     cons = \<lparr>c_buf = replicate 128 NUL, c_r = 0, c_w = 0, c_e = 0, c_out = []\<rparr>,
     initial = False, userS = None, using_idx = 0, priv = (\<lambda>_. NUL), user_num = 0\<rparr>"

lemma small_used: "used small_fs 0 = {}"
proof -
  have "addr small_fs 0 k = 0" if "k \<le> 7" for k
    using that by (simp add: addr_def ino_def small_fs_def)
  then show ?thesis by (auto simp: used_def file_block_def fs_consts)
qed

lemma small_map: "b \<le> 5 \<Longrightarrow> in_use (blk small_fs d 5) b" "in_use (blk small_fs d 5) 6 = False"
proof -
  have "b \<in> {0,1,2,3,4,5}" if "b \<le> 5" using that by auto
  then show "b \<le> 5 \<Longrightarrow> in_use (blk small_fs d 5) b"
    by (auto simp: in_use_def small_fs_def bit_iff_odd)
  show "in_use (blk small_fs d 5) 6 = False" by (simp add: in_use_def small_fs_def bit_iff_odd)
qed

lemma small_ok: "file_ok small_fs 0"
proof -
  have b5: "bm small_fs = 5" by (simp add: bm_def small_fs_def)
  have "file_block small_fs 0 m = 0" if "m < MAXFILE" for m
    using small_used that by (auto simp: used_def)
  moreover have "layout_ok small_fs (dev_of small_fs 0)"
    using small_map(1) unfolding layout_ok_def b5 by (simp add: fs_consts) (simp add: small_fs_def)
  moreover have "addr small_fs 0 NDIRECT = 0" using small_used by (auto simp: used_def)
  ultimately show ?thesis by (simp add: file_ok_def small_used) (simp add: small_fs_def ino_def)
qed

lemma small_find: "find (\<lambda>bi. \<not> in_use (blk small_fs d 5) bi) [0..<100] = Some 6"
proof -
  have "[0..<100] = [0, 1, 2, 3, 4, 5, 6] @ [7..<100]" by (simp add: upt_conv_Cons)
  then show ?thesis using small_map(1) [of _ d] small_map(2) [of d] by simp
qed

lemma small_sel:
  "tx_blocks small_fs = []" "tx_open small_fs = 1" "log_size small_fs = 30" "sb_size (sb small_fs) = 100"
  "sb_bmapstart (sb small_fs) = 5" "sb_inodestart (sb small_fs) = 3" "bm small_fs = 5"
  by (simp_all add: small_fs_def bm_def)

lemma small_ino: "ino small_fs 0 = \<lparr>i_dev = 1, i_inum = 3, i_ref = 1, i_lock = Some 1, i_valid = True, i_type = T_FILE,
    i_major = 0, i_minor = 0, i_nlink = 1, i_size = 0, i_addrs = replicate 8 0, i_permission = 0, i_owner = replicate 16 NUL\<rparr>"
  "length (icache small_fs) = 1"
  by (simp_all add: small_fs_def ino_def)

text \<open>A state with the disk of \<open>small_fs\<close> and its file, or a directory in its place.\<close>

definition like_small :: "fsys \<Rightarrow> bool" where
  "like_small s \<longleftrightarrow> blk s = blk small_fs \<and> tx_blocks s = [] \<and> tx_open s = 1 \<and> log_size s = 30 \<and>
     sb s = sb small_fs \<and> (\<exists>ty. ty \<noteq> T_DEV \<and> ino s 0 = (ino small_fs 0)\<lparr>i_type := ty\<rparr>) \<and> icache s \<noteq> []"

lemma like_small_refl: "like_small small_fs"
proof -
  have "icache small_fs \<noteq> []" by (simp add: small_fs_def)
  then show ?thesis
    using small_ino(1) by (auto simp: like_small_def small_sel T_FILE_def T_DEV_def intro!: exI [of _ T_FILE])
qed

lemma small_balloc: "like_small s \<Longrightarrow> balloc 1 s = Inr (6, allocated 1 6 [5, 6] s)"
proof -
  assume s: "like_small s"
  have "[0..<(sb_size (sb small_fs) + BPB - 1) div BPB] = [0]" by (simp add: small_sel fs_consts)
  then show ?thesis
    using s small_find [of 1]
    by (simp add: balloc_def small_sel BBLOCK_def fs_consts get_block_def put_block_def bzero_def log_consts
        allocated_def like_small_def bm_def)
qed

lemma small_write:
  assumes s: "like_small s" and src: "src \<noteq> []" "length src \<le> BSIZE"
  shows "\<exists>t. writei 0 src 0 s = Inr (int (length src), t)"
proof -
  define s1 where "s1 = allocated 1 6 [5, 6] s"
  obtain ty where ty: "ty \<noteq> T_DEV" "ino s 0 = (ino small_fs 0)\<lparr>i_type := ty\<rparr>" and f: "icache s \<noteq> []"
    "blk s = blk small_fs" "tx_blocks s = []" "tx_open s = 1" "log_size s = 30" "sb s = sb small_fs"
    using s by (auto simp: like_small_def)
  have b: "bmap 0 0 s = Inr (6, upd_ino 0 (\<lambda>p. p\<lparr>i_addrs := (i_addrs p)[0 := 6]\<rparr>) s1)"
    using f ty small_balloc [OF s, folded s1_def, unfolded One_nat_def]
    by (simp add: bmap_def addr_alloc_def addr_def small_ino fs_consts)
  have sel: "tx_blocks s1 = [5, 6]" "tx_open s1 = 1" "log_size s1 = 30" "sb s1 = sb small_fs" "icache s1 \<noteq> []"
    "ino s1 0 = (ino small_fs 0)\<lparr>i_type := ty\<rparr>"
    using f ty by (simp_all add: s1_def allocated_def small_sel small_ino bm_def)
  have n: "icache (upd_ino 0 g s1) \<noteq> []" for g using sel(5) by (simp add: upd_ino_def)
  have r8: "(replicate 8 (0 :: nat))[0 := 6] = 6 # replicate 7 0" by (simp add: list_eq_iff_nth_eq nth_Cons split: nat.split)
  have "\<exists>t. write_blocks 0 src 0 s = Inr t \<and> tx_blocks t = [5, 6] \<and> tx_open t = 1 \<and> log_size t = 30 \<and>
    sb t = sb small_fs \<and> ino t 0 = (ino small_fs 0)\<lparr>i_type := ty, i_addrs := 6 # replicate 7 0\<rparr> \<and> icache t \<noteq> []"
    using src
    by (simp add: n write_blocks.simps [of 0 src 0 s] write_blocks.simps [of 0 "[]"] b get_block_def put_block_def fs_consts
        log_consts sel ino_upd small_ino Let_def r8)
  then obtain t where t: "write_blocks 0 src 0 s = Inr t" "tx_blocks t = [5, 6]" "tx_open t = 1" "log_size t = 30"
    "sb t = sb small_fs" "ino t 0 = (ino small_fs 0)\<lparr>i_type := ty, i_addrs := 6 # replicate 7 0\<rparr>" "icache t \<noteq> []" by blast
  have "length src mod 4294967296 = length src" using src by simp
  then show ?thesis
    using src t f ty
    by (simp add: writei_def small_ino Let_def fs_consts iupdate_def ino_upd IBLOCK_def small_sel
        get_block_def put_block_def log_consts)
qed

theorem writei_readi_witness:
  "\<exists>t. writei 0 ''hello'' 0 small_fs = Inr (5, t) \<and> i_size (ino t 0) = 5 \<and>
     runs (readi 0 0 5 t) (\<lambda>((k, cs), u). k = 5 \<and> cs = ''hello'')"
proof -
  have h: "inode_home small_fs 0" "i_type (ino small_fs 0) \<noteq> T_DEV" "0 \<le> i_size (ino small_fs 0)"
    "0 + length ''hello'' \<le> MAXFILE * BSIZE"
    by (simp_all add: inode_home_def IBLOCK_def small_ino small_sel fs_consts T_FILE_def T_DEV_def)
  obtain t where t: "writei 0 ''hello'' 0 small_fs = Inr (5, t)"
    using small_write [OF like_small_refl, of "''hello''"] by auto
  moreover have five: "length ''hello'' = 5" by simp
  ultimately show ?thesis using writei_readi [OF small_ok h, unfolded five t] by (simp add: small_ino)
qed

end
