(* ===== verification/Frame.thy ===== *)
theory Frame
  imports Names
begin

text \<open>
  What the file layer leaves alone.  Every operation on blocks, inodes, files, directories and paths
  changes the state through its blocks, the blocks of the transaction, the inode cache and the
  console only.  The locale states that of any part of the state that does not look at these four,
  and proves it of each operation in turn; the parts it is used for are its interpretations.
\<close>

locale untouched =
  fixes part :: "'a fsys_scheme \<Rightarrow> 'b"
  assumes part_blk: "part (blk_update f s) = part s"
    and part_tx: "part (tx_blocks_update g s) = part s"
    and part_icache: "part (icache_update h s) = part s"
    and part_cons: "part (cons_update k s) = part s"
begin

lemmas part_simps [simp] = part_blk part_tx part_icache part_cons

lemma part_upd_ino [simp]: "part (upd_ino ip f s) = part s"
  by (simp add: upd_ino_def)

lemma put_block: "put_block d b m s = Inr t \<Longrightarrow> part t = part s"
  by (auto simp: put_block_def split: if_splits)

lemma bzero: "bzero d b s = Inr t \<Longrightarrow> part t = part s"
  by (auto simp: bzero_def call_eq_Inr dest: put_block)

lemma balloc_from: "balloc_from d bs s = Inr r \<Longrightarrow> part (snd r) = part s"
  by (induction bs) (auto simp: call_eq_Inr split: option.splits dest!: put_block bzero)

lemma balloc: "balloc d s = Inr r \<Longrightarrow> part (snd r) = part s"
  by (simp add: balloc_def balloc_from)

lemma bfree: "bfree d b s = Inr t \<Longrightarrow> part t = part s"
  by (auto simp: bfree_def call_eq_Inr split: if_splits dest: put_block)

lemma iget: "iget d i s = Inr r \<Longrightarrow> part (snd r) = part s"
  by (auto simp: iget_def split: option.splits)

lemma ialloc: "ialloc d ty s = Inr r \<Longrightarrow> part (snd r) = part s"
proof -
  have "ialloc_from d ty is s = Inr r \<Longrightarrow> part (snd r) = part s" for "is"
    by (induction "is") (auto simp: call_eq_Inr split: if_splits dest!: put_block iget)
  then show "ialloc d ty s = Inr r \<Longrightarrow> part (snd r) = part s" by (simp add: ialloc_def)
qed

lemma iupdate: "iupdate ip s = Inr t \<Longrightarrow> part t = part s"
  by (auto simp: iupdate_def call_eq_Inr Let_def dest: put_block)

lemma idup: "part (snd (idup ip s)) = part s"
  by (simp add: idup_def)

lemma lock_ino: "lock_ino ip s = Inr t \<Longrightarrow> part t = part s"
  by (auto simp: lock_ino_def call_eq_Inr)

lemma ilock: "ilock ip s = Inr t \<Longrightarrow> part t = part s"
  by (auto simp: ilock_def call_eq_Inr Let_def split: if_splits dest!: lock_ino)

lemma unlock_ino [simp]: "part (unlock_ino ip s) = part s"
  by (simp add: unlock_ino_def)

lemma iunlock: "iunlock ip s = Inr t \<Longrightarrow> part t = part s"
  by (auto simp: iunlock_def split: if_splits)

lemma addr_alloc: "addr_alloc ip k s = Inr r \<Longrightarrow> part (snd r) = part s"
  by (auto simp: addr_alloc_def call_eq_Inr split: if_splits dest!: balloc)

lemma bmap: "bmap ip bn s = Inr r \<Longrightarrow> part (snd r) = part s"
  by (auto simp: bmap_def call_eq_Inr Let_def split: if_splits dest!: addr_alloc balloc put_block)

lemma itrunc: "itrunc ip s = Inr t \<Longrightarrow> part t = part s"
proof -
  let ?free = "\<lambda>i s. if addr s ip i \<noteq> 0 then
         call (bfree (i_dev (ino s ip)) (addr s ip i) s) (\<lambda>s1.
           Inr (upd_ino ip (\<lambda>p. p\<lparr>i_addrs := (i_addrs p)[i := 0]\<rparr>) s1))
       else Inr s"
  and ?ind = "\<lambda>m j s. if get32 (4 * j) m \<noteq> 0 then bfree (i_dev (ino s ip)) (get32 (4 * j) m) s else Inr s"
  have f: "part t = part s" if "each ?free xs s = Inr t" for xs s t
    by (rule each_invariant [OF that, where P = "\<lambda>u. part u = part s"])
      (auto simp: call_eq_Inr split: if_splits dest!: bfree)
  have i: "part t = part s" if "each (?ind m) xs s = Inr t" for m xs s t
    by (rule each_invariant [OF that, where P = "\<lambda>u. part u = part s"]) (auto split: if_splits dest!: bfree)
  show "itrunc ip s = Inr t \<Longrightarrow> part t = part s"
    by (auto simp: itrunc_def call_eq_Inr split: if_splits dest!: f [simplified] i [simplified] bfree iupdate)
qed

lemma iput: "iput ip s = Inr t \<Longrightarrow> part t = part s"
  by (auto simp: iput_def call_eq_Inr split: if_splits dest!: lock_ino itrunc iupdate)

lemma iunlockput: "iunlockput ip s = Inr t \<Longrightarrow> part t = part s"
  by (auto simp: iunlockput_def call_eq_Inr dest!: iunlock iput)

lemma consoleread:
  assumes "consoleread ip n s = Inr r"
  shows "part (snd r) = part s"
proof -
  obtain s1 where s1: "iunlock ip s = Inr s1" using assms by (auto simp: consoleread_def call_eq_Inr)
  show ?thesis using assms iunlock [OF s1]
    by (cases "console_take (is_killed s1) n n (cons s1)") (auto simp: consoleread_def s1 call_eq_Inr dest!: ilock)
qed

lemma consolewrite: "consolewrite ip src s = Inr r \<Longrightarrow> part (snd r) = part s"
  by (auto simp: consolewrite_def call_eq_Inr dest!: iunlock ilock)

lemma read_blocks: "read_blocks ip off n s = Inr r \<Longrightarrow> part (snd r) = part s"
proof (induction "n" arbitrary: off s r rule: less_induct)
  case (less n)
  show ?case
  proof (cases "n = 0")
    case False
    then have sh: "n - min n (BSIZE - off mod BSIZE) < n" by (auto simp: BSIZE_def)
    show ?thesis
      using less.prems False less.IH [OF sh] by (subst (asm) read_blocks.simps) (fastforce simp: call_eq_Inr Let_def dest!: bmap)
  qed (use less.prems in \<open>simp add: read_blocks.simps [of ip off 0] prod_eq_iff\<close>)
qed

lemma readi: "readi ip off n s = Inr r \<Longrightarrow> part (snd r) = part s"
  by (auto simp: readi_def Let_def call_eq_Inr split: if_splits dest!: consoleread read_blocks)

lemma write_blocks: "write_blocks ip src off s = Inr t \<Longrightarrow> part t = part s"
proof (induction "length src" arbitrary: src off s rule: less_induct)
  case less
  show ?case
  proof (cases "src = []")
    case True
    then show ?thesis using less.prems by (simp add: write_blocks.simps [of ip "[]"])
  next
    case False
    then have sh: "length (drop (min (length src) (BSIZE - off mod BSIZE)) src) < length src" by (auto simp: BSIZE_def)
    show ?thesis
      using less.prems False less.hyps [OF sh]
      by (subst (asm) write_blocks.simps) (fastforce simp: call_eq_Inr Let_def dest!: bmap put_block)
  qed
qed

lemma writei:
  assumes "writei ip src off s = Inr r"
  shows "part (snd r) = part s"
proof (cases "i_type (ino s ip) = T_DEV")
  case True
  then show ?thesis using assms consolewrite by (auto simp: writei_def Let_def split: if_splits)
next
  case False
  show ?thesis
  proof (cases "write_blocks ip src off s")
    case (Inl e)
    then show ?thesis using assms False by (auto simp: writei_def Let_def split: if_splits)
  next
    case (Inr s1)
    note w = write_blocks [OF Inr]
    show ?thesis using assms False
      by (auto simp: writei_def Let_def Inr w call_eq_Inr split: if_splits dest!: iupdate)
  qed
qed

lemma dir_scan: "dir_scan msg P dp off s = Inr r \<Longrightarrow> part (snd r) = part s"
proof (induction msg P dp off s rule: dir_scan.induct)
  case (1 msg P dp off s)
  show ?case
  proof (cases "off < i_size (ino s dp) \<and> off < 2 ^ 32")
    case True
    then show ?thesis using 1(2) 1(1) [OF True]
      by (subst (asm) dir_scan.simps) (auto simp: call_eq_Inr split: if_splits dest!: readi)
  qed (use 1(2) in \<open>auto simp: dir_scan.simps [of msg P dp off s]\<close>)
qed

lemma dirlookup: "dirlookup dp name s = Inr r \<Longrightarrow> part (snd r) = part s"
  by (auto simp: dirlookup_def call_eq_Inr split: if_splits option.splits dest!: dir_scan iget)

lemma dirlink: "dirlink dp name inum s = Inr r \<Longrightarrow> part (snd r) = part s"
  by (auto simp: dirlink_def call_eq_Inr Let_def split: if_splits option.splits dest!: dirlookup iput dir_scan writei)

lemma namex_from: "namex_from parent path name ip s = Inr r \<Longrightarrow> part (snd r) = part s"
proof (induction "length path" arbitrary: path name ip s rule: less_induct)
  case less
  show ?case
  proof (cases "skipelem path")
    case None
    then show ?thesis using less.prems
      by (subst (asm) namex_from.simps) (auto simp: call_eq_Inr split: if_splits dest!: iput)
  next
    case (Some e)
    then obtain n q where e: "e = (n, q)" and q: "length q < length path" using skipelem_shorter by (cases e) auto
    show ?thesis using less.prems Some e less.hyps [OF q]
      by (subst (asm) namex_from.simps)
        (fastforce simp: call_eq_Inr split: if_splits option.splits dest!: ilock iunlock iunlockput dirlookup)
  qed
qed

lemma namex: "namex parent path s = Inr r \<Longrightarrow> part (snd r) = part s"
  using idup [of "cwd s" s] by (auto simp: namex_def call_eq_Inr split: if_splits dest!: iget namex_from)

lemma namei: "namei path s = Inr r \<Longrightarrow> part (snd r) = part s"
  by (auto simp: namei_def call_eq_Inr dest!: namex)

lemma nameiparent: "nameiparent path s = Inr r \<Longrightarrow> part (snd r) = part s"
  by (simp add: nameiparent_def namex)

end

end
