(* ===== verification/Permissions.thy ===== *)
theory Permissions
  imports Fs_Content Frame
begin

text \<open>
  The users and the permission check.  Writing a file leaves the user table alone, so the table
  after \<open>addUser\<close> is the one it made; from that follow what a login does, and what the check grants.
\<close>

section \<open>What writing a file leaves alone\<close>

definition user_part :: "'a fsys_scheme \<Rightarrow> bytes \<times> int \<times> nat \<times> bool \<times> nat option" where
  "user_part s = (priv s, user_num s, using_idx s, initial s, userS s)"

interpretation users: untouched "user_part :: 'a fsys_scheme \<Rightarrow> _"
  by unfold_locales (simp_all add: user_part_def)

lemma update_keeps: "update u s = Inr t \<Longrightarrow> user_part t = user_part s"
proof -
  have "user_part t = user_part s" if "update_from u idx ed s = Inr t" for idx ed and s :: "'a fsys_scheme"
    using that
  proof (induction u idx ed s rule: update_from.induct)
    case (1 u idx ed s)
    show ?case
    proof (cases "idx < ed")
      case True
      then obtain r where r: "writei u (bytes_at idx 374 (priv s)) idx s = Inr r"
        using 1(2) by (subst (asm) update_from.simps) (auto simp: Let_def call_eq_Inr)
      show ?thesis
        using 1(1) [OF True refl r] 1(2) True users.writei [OF r]
        by (subst (asm) (2) update_from.simps) (auto simp: Let_def r split: if_splits)
    qed (use 1(2) in \<open>simp add: update_from.simps [of u idx ed s]\<close>)
  qed
  then show "update u s = Inr t \<Longrightarrow> user_part t = user_part s" by (simp add: update_def)
qed


section \<open>The user table\<close>

lemma uname_put: "a \<noteq> uname_at i \<Longrightarrow> a + 16 \<le> uname_at i \<or> uname_at i + 16 \<le> a \<Longrightarrow> uname (set_field a t m) i = uname m i"
  by (auto simp: uname_def bytes_at_def set_field_def put_bytes_def length_strncpy)

lemma pwd_put: "a + 16 \<le> pwd_at i \<or> pwd_at i + 16 \<le> a \<Longrightarrow> pwd (set_field a t m) i = pwd m i"
  by (auto simp: pwd_def bytes_at_def set_field_def put_bytes_def length_strncpy)

lemma bytes_at_set_field: "bytes_at a 16 (set_field a t m) = strncpy_out 16 t"
proof -
  have "strncpy (bytes_at a 16 m) t 16 = strncpy_out 16 t" by (simp add: strncpy_def bytes_at_def)
  then show ?thesis by (auto simp: bytes_at_def set_field_def put_bytes_def intro!: nth_equalityI)
qed

lemma set_user_names:
  "uname (set_user i n p m) j = (if j = i then strncpy_out 16 n else uname m j)"
  "pwd (set_user i n p m) j = (if j = i then strncpy_out 16 p else pwd m j)"
proof -
  have sep: "pwd_at i + 16 \<le> uname_at j \<or> uname_at j + 16 \<le> pwd_at i" "uname_at i + 16 \<le> pwd_at j \<or> pwd_at j + 16 \<le> uname_at i"
    "j \<noteq> i \<Longrightarrow> uname_at i + 16 \<le> uname_at j \<or> uname_at j + 16 \<le> uname_at i"
    "j \<noteq> i \<Longrightarrow> pwd_at i + 16 \<le> pwd_at j \<or> pwd_at j + 16 \<le> pwd_at i" for j
    unfolding uname_at_def pwd_at_def by presburger+
  have "uname (set_field (pwd_at i) p m') j = uname m' j" for m' j
    using sep(1) [of j] by (intro uname_put) (auto simp: uname_at_def pwd_at_def)
  then have u: "uname (set_user i n p m) j = uname (set_field (uname_at i) n m) j" by (simp add: set_user_def)
  show "uname (set_user i n p m) j = (if j = i then strncpy_out 16 n else uname m j)"
  proof (cases "j = i")
    case True
    then show ?thesis unfolding u by (simp add: uname_def bytes_at_set_field)
  next
    case False
    then have "uname_at i \<noteq> uname_at j" by (simp add: uname_at_def)
    then show ?thesis unfolding u using sep(3) [OF False] False by (simp add: uname_put)
  qed
  have "pwd (set_field (uname_at i) n m) j = pwd m j" if "j \<noteq> i"
    using sep(2) [of j] by (intro pwd_put) auto
  then show "pwd (set_user i n p m) j = (if j = i then strncpy_out 16 p else pwd m j)"
    using sep(4) [of j] pwd_put [of "pwd_at i" j p "set_field (uname_at i) n m"]
    by (cases "j = i") (simp_all add: set_user_def, simp add: pwd_def bytes_at_set_field)
qed


section \<open>Properties\<close>

definition privileged :: "'a fsys_scheme \<Rightarrow> nat \<Rightarrow> bool" where
  "privileged s ip \<longleftrightarrow> \<not> initial s \<or> strncmp (i_owner (ino s ip)) (get_now s) 16 = 0 \<or> strncmp ''root'' (get_now s) 16 = 0"

text \<open>C20: The permission check grants everything until the user file is open, and everything to the
  owner and to root, whatever the owner's bits say; the others' bits decide for anybody else.  The
  comment at the test and the README have it that the owner's bit is extracted and 0 refuses:
  \<open>own_mode & (ip->permission) == 0\<close> compares first, and never looks at the bit.\<close>

theorem permission_check:
  "get_modeBit s ip MODE_RUSR MODE_ROTH = of_bool (privileged s ip \<or> bit (i_permission (ino s ip)) 2) \<and>
   get_modeBit s ip MODE_WUSR MODE_WOTH = of_bool (privileged s ip \<or> bit (i_permission (ino s ip)) 1) \<and>
   get_modeBit s ip MODE_XUSR MODE_XOTH = of_bool (privileged s ip \<or> bit (i_permission (ino s ip)) 0)"
proof -
  have oth: "2 ^ k AND p = 0 \<longleftrightarrow> \<not> bit p k" for k and p :: nat
    by (metis and.commute and_exp_eq_0_iff_not_bit)
  have own: "m AND (if b then 1 else 0) = 0" if "m \<in> {32, 16, 8}" for m :: nat and b
    using that by auto
  note o = oth [of 2, simplified] oth [of 1, simplified] oth [of 0, simplified]
  show ?thesis
    using own [of 32] own [of 16] own [of 8] o
    by (auto simp: get_modeBit_def Let_def privileged_def MODE_RUSR_def MODE_ROTH_def MODE_WUSR_def MODE_WOTH_def
        MODE_XUSR_def MODE_XOTH_def)
qed

text \<open>C18: A user who was added can log in with the name and the password that were given.\<close>

theorem addUser_login:
  assumes "addUser u p s = Inr (0, t)"
  shows "\<exists>i < 10. find_empty (priv s) = Some i \<and> login u p t = (0, t\<lparr>using_idx := i\<rparr>)"
proof -
  obtain i where i: "find_empty (priv s) = Some i" and no: "\<And>j. j < 10 \<Longrightarrow> strncmp (uname (priv s) j) u 16 \<noteq> 0"
    using assms by (auto simp: addUser_def split: option.splits if_splits)
  have ex: "\<not> (\<exists>j \<in> set [0..<10]. strncmp (uname (priv s) j) u 16 = 0)" using no by auto
  obtain w s1 where w: "update w (s\<lparr>priv := set_user i u p (priv s)\<rparr>) = Inr s1" "t = s1\<lparr>user_num := user_num s1 + 1\<rparr>"
    using assms unfolding addUser_def i option.case if_not_P [OF ex] with_userS_def
    by (auto simp: call_eq_Inr split: option.splits)
  have pt: "priv t = set_user i u p (priv s)"
    using update_keeps [OF w(1)] w(2) by (simp add: user_part_def)
  have i10: "i < 10" using i by (auto simp: find_empty_def find_Some_iff)
  have "strncmp u (uname (priv t) j) 16 = 0 \<longleftrightarrow> j = i" if "j < 10" for j
    using no [OF that] strncmp_sym [of u "uname (priv s) j" 16]
    by (auto simp: pt set_user_names strncmp_out_right strncmp_eq [of u u])
  then have "find (\<lambda>j. strncmp u (uname (priv t) j) 16 = 0) [0..<10] = Some i"
    using i10 by (auto simp: find_Some_iff intro!: exI [of _ i])
  moreover have "strncmp p (pwd (priv t) i) 16 = 0"
    by (simp add: pt set_user_names strncmp_out_right strncmp_eq [of p p])
  ultimately show ?thesis using i i10 by (simp add: login_def)
qed

text \<open>C25: A free slot of the user table is a user: whoever gives sixteen x as name and password is
  logged in on the first slot that is filled with x.\<close>

theorem free_slot_login:
  assumes "\<And>j. j < 34 \<Longrightarrow> priv s (uname_at i + j) = CHR ''x''" "i < 10"
    "\<And>k. k < i \<Longrightarrow> strncmp (replicate 16 CHR ''x'') (uname (priv s) k) 16 \<noteq> 0"
  shows "login (replicate 16 CHR ''x'') (replicate 16 CHR ''x'') s = (0, s\<lparr>using_idx := i\<rparr>)"
proof -
  let ?x = "replicate 16 CHR ''x''"
  have "uname (priv s) i = ?x" "pwd (priv s) i = ?x"
    using assms(1) assms(1) [of "17 + _"]
    by (auto simp: uname_def pwd_def bytes_at_def pwd_at_def uname_at_def add.assoc intro!: nth_equalityI)
  moreover have "strncmp ?x ?x 16 = 0" by (simp add: strncmp_eq)
  moreover have "find (\<lambda>k. strncmp ?x (uname (priv s) k) 16 = 0) [0..<10] = Some i"
    using assms(2,3) calculation by (auto simp: find_Some_iff intro!: exI [of _ i])
  ultimately show ?thesis by (simp add: login_def)
qed

definition two_users :: fsys where
  "two_users = small_fs\<lparr>userS := Some 0, user_num := 1, initial := True,
     priv := set_user 0 ''root'' ''0000'' (\<lambda>_. CHR ''x'')\<rparr>"

lemma two_users_name: "uname (priv two_users) i = (if i = 0 then strncpy_out 16 ''root'' else replicate 16 CHR ''x'')"
  by (simp add: two_users_def set_user_names) (simp add: uname_def bytes_at_def map_replicate_const)

theorem addUser_login_witness:
  "\<exists>t. addUser ''alice'' ''pw'' two_users = Inr (0, t) \<and> login ''alice'' ''pw'' t = (0, t\<lparr>using_idx := 1\<rparr>)"
proof -
  let ?m = "set_user 1 ''alice'' ''pw'' (priv two_users)"
  have "strncmp (uname (priv two_users) i) ''alice'' 16 \<noteq> 0" for i
  proof (cases "i = 0")
    case True
    then have "strncmp (uname (priv two_users) i) ''alice'' 16 = 0 \<longleftrightarrow> strncmp ''root'' ''alice'' 16 = 0"
      by (simp only: two_users_name if_P strncmp_out)
    then show ?thesis by (simp add: strncmp_eq)
  next
    case False
    have "length (replicate 16 CHR ''x'') \<noteq> length ''alice''" by simp
    then have "replicate 16 CHR ''x'' \<noteq> ''alice''" by metis
    then show ?thesis using False by (simp add: two_users_name strncmp_eq cstr_def takeWhile_replicate)
  qed
  then have no: "\<not> (\<exists>i \<in> set [0..<10]. strncmp (uname (priv two_users) i) ''alice'' 16 = 0)" by auto
  have first: "priv two_users (uname_at i) = uname (priv two_users) i ! 0" for i
    by (simp add: uname_def bytes_at_def)
  have "[0..<10] = [0, 1] @ [2..<10 :: nat]" by (simp add: upt_conv_Cons)
  then have e: "find_empty (priv two_users) = Some 1"
    by (simp add: find_empty_def first two_users_name) (simp add: numeral_eq_Suc)
  have "like_small (two_users\<lparr>priv := ?m\<rparr>)"
    using like_small_refl by (simp add: like_small_def two_users_def ino_def)
  then obtain s1 where "writei 0 (bytes_at 0 374 ?m) 0 (two_users\<lparr>priv := ?m\<rparr>) = Inr (374, s1)"
    using small_write [of "two_users\<lparr>priv := ?m\<rparr>" "bytes_at 0 374 ?m"] by (auto simp: bytes_at_def)
  then have "update 0 (two_users\<lparr>priv := ?m\<rparr>) = Inr s1"
    by (simp add: update_def priv_size_def update_from.simps [of 0 0] update_from.simps [of 0 374] update_max_def MAXOPBLOCKS_def)
  then obtain t where t: "addUser ''alice'' ''pw'' two_users = Inr (0, t)"
    using no e by (simp add: addUser_def with_userS_def) (simp add: two_users_def)
  then show ?thesis using addUser_login [OF t] e by auto
qed

theorem free_slot_login_witness:
  "login (replicate 16 CHR ''x'') (replicate 16 CHR ''x'') two_users = (0, two_users\<lparr>using_idx := 1\<rparr>)"
proof (rule free_slot_login)
  fix j assume "j < (34 :: nat)"
  have "pwd_at 0 + 16 \<le> uname_at 1 + j" by (simp add: pwd_at_def uname_at_def)
  then show "priv two_users (uname_at 1 + j) = CHR ''x''"
    by (simp add: two_users_def set_user_def set_field_def put_bytes_def length_strncpy bytes_at_def pwd_at_def uname_at_def)
next
  show "strncmp (replicate 16 CHR ''x'') (uname (priv two_users) k) 16 \<noteq> 0" if "k < 1" for k
    using that by (simp add: two_users_name strncmp_out_right strncmp_eq numeral_eq_Suc)
qed simp

end
