(* ===== verification/Pipe.thy ===== *)
theory Pipe
  imports Proc
begin

text \<open>
  Pipes (\<open>pipe.c\<close>): a ring buffer of 512 bytes with free-running 32-bit counters.  The page of a
  pipe is taken from the page allocator; its contents are the record \<open>pipe\<close> at that address.  A
  call that sleeps is modelled up to its sleep, with the bytes that are still to be transferred.
\<close>

definition PIPESIZE_t :: i32 where "PIPESIZE_t = 512"

definition pipe_new :: "pipe \<Rightarrow> pipe" where
  "pipe_new p = p\<lparr>pi_readopen := True, pi_writeopen := True, pi_nwrite := 0, pi_nread := 0\<rparr>"

definition pipe_file :: "bool \<Rightarrow> i32 \<Rightarrow> kfile \<Rightarrow> kfile" where
  "pipe_file writable a f =
     f\<lparr>f_type := FD_PIPE, f_readable := \<not> writable, f_writable := writable, f_pipe := a\<rparr>"

definition close_opt :: "nat option \<Rightarrow> kernel \<Rightarrow> kernel kres" where
  "close_opt f s = (case f of None \<Rightarrow> Inr s | Some i \<Rightarrow> fileclose_t i s)"

definition pipealloc_t :: "kernel \<Rightarrow> ((nat \<times> nat) option \<times> kernel) kres" where
  "pipealloc_t s =
     (case filealloc_t s of (f0, s1) \<Rightarrow>
      case (if f0 = None then (None, s1) else filealloc_t s1) of (f1, s2) \<Rightarrow>
      case (if f1 = None then (0, s2) else kalloc s2) of (a, s3) \<Rightarrow>
      case (f0, f1) of
        (Some i, Some j) \<Rightarrow>
          if a \<noteq> 0 then
            Inr (Some (i, j),
              upd_file_t j (pipe_file True a) (upd_file_t i (pipe_file False a) (upd_pipe_t a pipe_new s3)))
          else call (close_opt f0 s3) (\<lambda>s4. call (close_opt f1 s4) (\<lambda>s5. Inr (None, s5)))
      | _ \<Rightarrow> call (close_opt f0 s3) (\<lambda>s4. call (close_opt f1 s4) (\<lambda>s5. Inr (None, s5))))"

text \<open>What a transfer came to: a result, or asleep with these bytes left.\<close>

datatype 'a transfer = Done 'a | Asleep "i8 list"

definition pipe_full :: "pipe \<Rightarrow> bool" where
  "pipe_full p \<longleftrightarrow> pi_nwrite p = pi_nread p + PIPESIZE_t"

definition pipe_put_t :: "i8 \<Rightarrow> pipe \<Rightarrow> pipe" where
  "pipe_put_t b p =
     p\<lparr>pi_data := (pi_data p)[unat (pi_nwrite p mod PIPESIZE_t) := b], pi_nwrite := pi_nwrite p + 1\<rparr>"

text \<open>\<open>pipewrite\<close>'s loop from byte \<open>i\<close> on, as the list of the bytes from there; \<open>n\<close> is the
  result of the whole call.\<close>

primrec pipewrite_from_t :: "i32 \<Rightarrow> int \<Rightarrow> i8 list \<Rightarrow> kernel \<Rightarrow> (int transfer \<times> kernel) kres" where
  "pipewrite_from_t a n [] s = Inr (Done n, wakeup (Chan_nread a) s)"
| "pipewrite_from_t a n (b # bs) s =
     (if pipe_full (pipes s a) then with_curproc s (\<lambda>c.
        if \<not> pi_readopen (pipes s a) \<or> p_killed (proc_at s c) then Inr (Done (-1), s)
        else call (sleep (Chan_nwrite a) (wakeup (Chan_nread a) s)) (\<lambda>s1. Inr (Asleep (b # bs), s1)))
      else pipewrite_from_t a n bs (upd_pipe_t a (pipe_put_t b) s))"

definition pipewrite_t :: "i32 \<Rightarrow> i8 list \<Rightarrow> kernel \<Rightarrow> (int transfer \<times> kernel) kres" where
  "pipewrite_t a bs s = pipewrite_from_t a (int (length bs)) bs s"

text \<open>The copy loop of \<open>piperead\<close>: at most \<open>n\<close> bytes, and the pipe without them.\<close>

primrec pipe_take_t :: "nat \<Rightarrow> pipe \<Rightarrow> i8 list \<times> pipe" where
  "pipe_take_t 0 p = ([], p)"
| "pipe_take_t (Suc n) p =
     (if pi_nread p = pi_nwrite p then ([], p)
      else case pipe_take_t n (p\<lparr>pi_nread := pi_nread p + 1\<rparr>) of (bs, q) \<Rightarrow>
        (pi_data p ! unat (pi_nread p mod PIPESIZE_t) # bs, q))"

definition piperead_t :: "i32 \<Rightarrow> nat \<Rightarrow> kernel \<Rightarrow> (i8 list option transfer \<times> kernel) kres" where
  "piperead_t a n s =
     (if pi_nread (pipes s a) = pi_nwrite (pipes s a) \<and> pi_writeopen (pipes s a) then with_curproc s (\<lambda>c.
        if p_killed (proc_at s c) then Inr (Done None, s)
        else call (sleep (Chan_nread a) s) (\<lambda>s1. Inr (Asleep [], s1)))
      else case pipe_take_t n (pipes s a) of (bs, q) \<Rightarrow>
        Inr (Done (Some bs), wakeup (Chan_nwrite a) (upd_pipe_t a (\<lambda>_. q) s)))"

end
