(* ===== verification/Fifo.thy ===== *)
theory Fifo
  imports Prelude
begin

text \<open>
  Queues in ring buffers: the contract of a bounded queue as a locale, and the arithmetic of the
  slots between two free-running 32-bit indices, which the pipes and the console share.
\<close>

section \<open>The contract\<close>

locale fifo =
  fixes ok :: "'q \<Rightarrow> bool"
    and items :: "'q \<Rightarrow> 'a list"
    and cap :: nat
    and put :: "'a \<Rightarrow> 'q \<Rightarrow> 'q"
    and front :: "'q \<Rightarrow> 'a"
    and pop :: "'q \<Rightarrow> 'q"
  assumes put: "ok q \<Longrightarrow> length (items q) < cap \<Longrightarrow> ok (put x q) \<and> items (put x q) = items q @ [x]"
    and pop: "ok q \<Longrightarrow> items q = x # xs \<Longrightarrow> front q = x \<and> ok (pop q) \<and> items (pop q) = xs"
begin

lemma put_all:
  "ok q \<Longrightarrow> length (items q) + length xs \<le> cap \<Longrightarrow> ok (fold put xs q) \<and> items (fold put xs q) = items q @ xs"
proof (induction xs arbitrary: q)
  case (Cons x xs)
  then have "ok (put x q)" "items (put x q) = items q @ [x]" using put [of q x] by auto
  then show ?case using Cons.IH [of "put x q"] Cons.prems by simp
qed simp

lemma pop_all:
  "ok q \<Longrightarrow> k \<le> length (items q) \<Longrightarrow> ok ((pop ^^ k) q) \<and> items ((pop ^^ k) q) = drop k (items q)"
proof (induction k)
  case (Suc k)
  then have ih: "ok ((pop ^^ k) q)" "items ((pop ^^ k) q) = drop k (items q)" by auto
  have "drop k (items q) = items q ! k # drop (Suc k) (items q)"
    using Suc.prems by (simp add: Cons_nth_drop_Suc)
  then show ?case using pop [OF ih(1)] ih(2) by simp
qed simp

text \<open>First in, first out: after \<open>k\<close> removals the front is the \<open>k\<close>th of what was there and was put.\<close>

lemma in_order:
  assumes "ok q" "length (items q) + length xs \<le> cap" "k < length (items q) + length xs"
  shows "front ((pop ^^ k) (fold put xs q)) = (items q @ xs) ! k"
proof -
  have p: "ok (fold put xs q)" "items (fold put xs q) = items q @ xs" using put_all assms(1,2) by auto
  then have "ok ((pop ^^ k) (fold put xs q))" "items ((pop ^^ k) (fold put xs q)) = drop k (items q @ xs)"
    using pop_all [of "fold put xs q" k] assms(3) by auto
  moreover have "drop k (items q @ xs) = (items q @ xs) ! k # drop (Suc k) (items q @ xs)"
    using assms(3) by (metis Cons_nth_drop_Suc length_append)
  ultimately show ?thesis using pop by metis
qed

end

section \<open>Rings\<close>

definition ring :: "nat \<Rightarrow> 'a list \<Rightarrow> nat \<Rightarrow> nat \<Rightarrow> 'a list" where
  "ring N buf r k = map (\<lambda>i. buf ! ((r + i) mod N)) [0..<k]"

lemma length_ring [simp]: "length (ring N buf r k) = k"
  by (simp add: ring_def)

lemma ring_mod: "ring N buf (r mod N) k = ring N buf r k"
  by (simp add: ring_def mod_add_left_eq)

lemma ring_cong: "r mod N = q mod N \<Longrightarrow> ring N buf r k = ring N buf q k"
  by (metis ring_mod)

lemma mod_add_inj:
  assumes "(r + i) mod N = (r + j) mod N" "i < N" "j < N"
  shows "i = (j :: nat)"
proof -
  have "i \<le> j \<Longrightarrow> (r + i) mod N = (r + j) mod N \<Longrightarrow> j < N \<Longrightarrow> i = j" for i j :: nat
    using mod_eq_dvd_iff_nat [of "r + i" "r + j" N] by (auto dest!: dvd_imp_le)
  then show ?thesis using assms by (metis le_cases)
qed

lemma ring_put:
  assumes "k < N" "length buf = N"
  shows "ring N (buf[(r + k) mod N := x]) r (Suc k) = ring N buf r k @ [x]"
proof -
  have "(r + k) mod N \<noteq> (r + i) mod N" if "i < k" for i
    using mod_add_inj [of r i N k] that assms(1) by auto
  then show ?thesis using assms by (auto simp: ring_def)
qed

lemma ring_pop: "ring N buf r (Suc k) = buf ! (r mod N) # ring N buf (Suc r) k"
  by (simp add: ring_def upt_conv_Cons map_Suc_upt [symmetric] del: upt_Suc)

lemma ring_add: "ring N buf r (k + n) = ring N buf r k @ ring N buf (r + k) n"
  by (rule nth_equalityI) (auto simp: ring_def nth_append add.assoc)

text \<open>Free-running indices: their successor modulo the size of the ring.\<close>

lemma unat_Suc_mod: "N dvd 4294967296 \<Longrightarrow> unat (w + 1 :: i32) mod N = Suc (unat w) mod N"
proof -
  assume "N dvd 4294967296"
  then show ?thesis by (simp add: unat_word_ariths mod_mod_cancel)
qed

lemma unat_add_mod: "N dvd 4294967296 \<Longrightarrow> unat (w + v :: i32) mod N = (unat w + unat v) mod N"
  by (simp add: unat_word_ariths mod_mod_cancel)

lemma unat_diff_Suc: "unat (w - r :: i32) < 4294967295 \<Longrightarrow> unat (w + 1 - r) = Suc (unat (w - r))"
proof -
  assume "unat (w - r) < 4294967295"
  then have "unat (w - r + 1) = unat (w - r) + 1" by (simp add: unat_add32)
  moreover have "w + 1 - r = w - r + 1" by simp
  ultimately show ?thesis by (simp only: Suc_eq_plus1)
qed

lemma unat_diff_pred: "(w :: i32) \<noteq> r \<Longrightarrow> Suc (unat (w - (r + 1))) = unat (w - r)"
proof -
  assume "w \<noteq> r"
  then have nz: "w - r \<noteq> 0" by simp
  have e: "w - (r + 1) = w - r - 1" by simp
  have "unat (w - r - 1) = unat (w - r) - 1" by (rule unat_minus_one [OF nz])
  moreover have "0 < unat (w - r)" using measure_unat [OF nz] by linarith
  ultimately show ?thesis unfolding e by simp
qed

end
