(* ===== verification/Pipe_Fifo.thy ===== *)
theory Pipe_Fifo
  imports Pipe Fifo
begin

text \<open>
  A pipe is a bounded queue of bytes: the bytes between its two indices, read round the ring.  The
  transfers of \<open>pipewrite\<close> and \<open>piperead\<close> rest on the contract of the queue.
\<close>

definition pipe_ok :: "pipe \<Rightarrow> bool" where
  "pipe_ok p \<longleftrightarrow> length (pi_data p) = 512 \<and> unat (pi_nwrite p - pi_nread p) \<le> 512"

definition pipe_bytes :: "pipe \<Rightarrow> i8 list" where
  "pipe_bytes p = ring 512 (pi_data p) (unat (pi_nread p)) (unat (pi_nwrite p - pi_nread p))"

definition pipe_next :: "pipe \<Rightarrow> i8" where
  "pipe_next p = pi_data p ! unat (pi_nread p mod PIPESIZE_t)"

definition pipe_pop :: "pipe \<Rightarrow> pipe" where
  "pipe_pop p = p\<lparr>pi_nread := pi_nread p + 1\<rparr>"

lemma unat_slot: "unat (w mod PIPESIZE_t) = unat w mod 512"
  by (simp add: unat_mod_distrib PIPESIZE_t_def)

lemma nwrite_slot: "unat (pi_nwrite p) mod 512 = (unat (pi_nread p) + unat (pi_nwrite p - pi_nread p)) mod 512"
  using unat_add_mod [of 512 "pi_nread p" "pi_nwrite p - pi_nread p"] by simp

lemma pipe_put_ok:
  assumes "pipe_ok p" "length (pipe_bytes p) < 512"
  shows "pipe_ok (pipe_put_t b p) \<and> pipe_bytes (pipe_put_t b p) = pipe_bytes p @ [b]"
proof -
  let ?k = "unat (pi_nwrite p - pi_nread p)" and ?r = "unat (pi_nread p)"
  have k: "?k < 512" "length (pi_data p) = 512" using assms by (simp_all add: pipe_bytes_def pipe_ok_def)
  have n: "unat (pi_nwrite p + 1 - pi_nread p) = Suc ?k" using k by (intro unat_diff_Suc) simp
  have "ring 512 ((pi_data p)[(?r + ?k) mod 512 := b]) ?r (Suc ?k) = ring 512 (pi_data p) ?r ?k @ [b]"
    by (rule ring_put [OF k])
  then show ?thesis using k n nwrite_slot [of p] by (simp add: pipe_ok_def pipe_bytes_def pipe_put_t_def unat_slot)
qed

lemma pipe_pop_ok:
  assumes "pipe_ok p" "pipe_bytes p = x # xs"
  shows "pipe_next p = x \<and> pipe_ok (pipe_pop p) \<and> pipe_bytes (pipe_pop p) = xs"
proof -
  let ?w = "pi_nwrite p" and ?r = "pi_nread p"
  have "?w \<noteq> ?r" using assms(2) by (auto simp: pipe_bytes_def ring_def)
  from unat_diff_pred [OF this] have k: "unat (?w - ?r) = Suc (unat (?w - (?r + 1)))" by simp
  have "pipe_bytes p = pi_data p ! (unat ?r mod 512) # ring 512 (pi_data p) (Suc (unat ?r)) (unat (?w - (?r + 1)))"
    unfolding pipe_bytes_def k by (rule ring_pop)
  moreover have "ring 512 (pi_data p) (unat (?r + 1)) j = ring 512 (pi_data p) (Suc (unat ?r)) j" for j
    by (rule ring_cong) (simp add: unat_Suc_mod)
  ultimately show ?thesis
    using assms k by (auto simp: pipe_next_def unat_slot pipe_pop_def pipe_bytes_def pipe_ok_def)
qed

interpretation pipe_fifo: fifo pipe_ok pipe_bytes 512 pipe_put_t pipe_next pipe_pop
  by unfold_locales (rule pipe_put_ok, assumption+, rule pipe_pop_ok, assumption+)

section \<open>Transfers\<close>

lemma pipes_wakeup [simp]: "pipes (wakeup c s) = pipes s"
  by (simp add: wakeup_def wakeup1_def)

lemma pipe_full_iff: "pipe_ok p \<Longrightarrow> pipe_full p \<longleftrightarrow> length (pipe_bytes p) = 512"
proof -
  assume "pipe_ok p"
  have "pi_nwrite p = pi_nread p + 512 \<longleftrightarrow> pi_nwrite p - pi_nread p = 512" by (auto simp: algebra_simps)
  also have "\<dots> \<longleftrightarrow> unat (pi_nwrite p - pi_nread p) = unat (512 :: i32)" by (rule word_eq_iff_unsigned)
  finally show ?thesis by (simp add: pipe_full_def PIPESIZE_t_def pipe_bytes_def)
qed

lemma pipewrite_from_ok:
  "pipe_ok (pipes s a) \<Longrightarrow> length (pipe_bytes (pipes s a)) + length bs \<le> 512 \<Longrightarrow>
     \<exists>t. pipewrite_from_t a n bs s = Inr (Done n, t) \<and> pipes t a = fold pipe_put_t bs (pipes s a)"
proof (induction bs arbitrary: s)
  case (Cons b bs)
  have p: "pipe_ok (pipe_put_t b (pipes s a))" "pipe_bytes (pipe_put_t b (pipes s a)) = pipe_bytes (pipes s a) @ [b]"
    using pipe_put_ok [of "pipes s a" b] Cons.prems by auto
  have u: "pipes (upd_pipe_t a (pipe_put_t b) s) a = pipe_put_t b (pipes s a)" by (simp add: upd_pipe_t_def)
  have "\<not> pipe_full (pipes s a)" using pipe_full_iff [OF Cons.prems(1)] Cons.prems(2) by simp
  then show ?case using Cons.IH [of "upd_pipe_t a (pipe_put_t b) s"] p Cons.prems(2) by (simp add: u)
qed simp

lemma pipes_sleep: "sleep ch s = Inr s' \<Longrightarrow> pipes s' = pipes s"
  by (auto simp: sleep_def sched_def with_curproc_Inr upd_proc_def split: option.splits if_splits)

text \<open>A write puts what fits into the pipe.  It returns when that is all; otherwise it fails or sleeps
  with the rest.\<close>

lemma pipewrite_from_space:
  "pipewrite_from_t a n bs s = Inr (r, t) \<Longrightarrow> pipe_ok (pipes s a) \<Longrightarrow>
     pipe_ok (pipes t a) \<and>
     pipe_bytes (pipes t a) = pipe_bytes (pipes s a) @ take (512 - length (pipe_bytes (pipes s a))) bs \<and>
     (if length bs \<le> 512 - length (pipe_bytes (pipes s a)) then r = Done n
      else r = Done (-1) \<or> r = Asleep (drop (512 - length (pipe_bytes (pipes s a))) bs))"
proof (induction bs arbitrary: s)
  case (Cons b bs)
  let ?p = "pipes s a"
  have le: "length (pipe_bytes ?p) \<le> 512" using Cons.prems(2) by (simp add: pipe_bytes_def pipe_ok_def)
  show ?case
  proof (cases "pipe_full ?p")
    case True
    then have full: "length (pipe_bytes ?p) = 512" using pipe_full_iff [OF Cons.prems(2)] by simp
    have "pipes t = pipes s \<and> (r = Done (-1) \<or> r = Asleep (b # bs))"
      using Cons.prems(1) True by (auto simp: with_curproc_Inr call_eq_Inr split: if_splits dest!: pipes_sleep)
    then show ?thesis using Cons.prems(2) full by auto
  next
    case False
    then have lt: "length (pipe_bytes ?p) < 512" using pipe_full_iff [OF Cons.prems(2)] le by simp
    let ?u = "upd_pipe_t a (pipe_put_t b) s"
    have u: "pipes ?u a = pipe_put_t b ?p" by (simp add: upd_pipe_t_def)
    have p: "pipe_ok (pipes ?u a)" "pipe_bytes (pipes ?u a) = pipe_bytes ?p @ [b]"
      using pipe_put_ok [OF Cons.prems(2) lt, of b] by (simp_all add: u)
    have w: "pipewrite_from_t a n bs ?u = Inr (r, t)" using Cons.prems(1) False by simp
    obtain k where k: "512 - length (pipe_bytes ?p) = Suc k" "512 - length (pipe_bytes ?p @ [b]) = k"
      using lt by (cases "512 - length (pipe_bytes ?p)") auto
    show ?thesis using Cons.IH [OF w p(1)] unfolding p(2) k by simp
  qed
qed auto

lemma pipe_take_ok:
  "pipe_ok p \<Longrightarrow> fst (pipe_take_t n p) = take n (pipe_bytes p) \<and> pipe_ok (snd (pipe_take_t n p)) \<and>
     pipe_bytes (snd (pipe_take_t n p)) = drop n (pipe_bytes p)"
proof (induction n arbitrary: p)
  case (Suc n)
  show ?case
  proof (cases "pipe_bytes p")
    case Nil
    then have "unat (pi_nwrite p - pi_nread p) = 0" by (simp add: pipe_bytes_def flip: length_0_conv)
    then have "pi_nread p = pi_nwrite p" by (simp add: unsigned_eq_0_iff)
    then show ?thesis using Nil Suc.prems by simp
  next
    case (Cons x xs)
    then have ne: "pi_nread p \<noteq> pi_nwrite p" by (auto simp: pipe_bytes_def ring_def)
    note q = pipe_pop_ok [OF Suc.prems Cons]
    then show ?thesis using Suc.IH [of "pipe_pop p"] ne Cons
      by (auto simp: pipe_pop_def pipe_next_def split: prod.split)
  qed
qed simp

section \<open>Runs\<close>

text \<open>What a write put into the pipe: all its bytes if it returned their number, all but the rest with
  which it sleeps, and what fitted if it failed.  What a read took out.\<close>

definition put_in :: "int transfer \<Rightarrow> i8 list \<Rightarrow> pipe \<Rightarrow> i8 list" where
  "put_in r bs p =
     (case r of
        Done m \<Rightarrow> if m = -1 then take (512 - unat (pi_nwrite p - pi_nread p)) bs else bs
      | Asleep cs \<Rightarrow> take (length bs - length cs) bs)"

definition got_out :: "i8 list option transfer \<Rightarrow> i8 list" where
  "got_out r = (case r of Done (Some cs) \<Rightarrow> cs | _ \<Rightarrow> [])"

text \<open>The calls on the pipe \<open>a\<close> by any processes, in any order, each up to its return or its sleep (a
  write that was woken goes on with the rest), and anything else that leaves the ring alone.\<close>

inductive pipe_run :: "i32 \<Rightarrow> kernel \<Rightarrow> i8 list \<Rightarrow> i8 list \<Rightarrow> kernel \<Rightarrow> bool" for a and s0 where
  begins: "pipe_run a s0 [] [] s0"
| writes: "\<lbrakk> pipe_run a s0 ins outs s; pipewrite_t a bs s = Inr (r, t) \<rbrakk>
    \<Longrightarrow> pipe_run a s0 (ins @ put_in r bs (pipes s a)) outs t"
| reads: "\<lbrakk> pipe_run a s0 ins outs s; piperead_t a n s = Inr (r, t) \<rbrakk> \<Longrightarrow> pipe_run a s0 ins (outs @ got_out r) t"
| elsewhere: "\<lbrakk> pipe_run a s0 ins outs s; pi_data (pipes t a) = pi_data (pipes s a);
      pi_nread (pipes t a) = pi_nread (pipes s a); pi_nwrite (pipes t a) = pi_nwrite (pipes s a) \<rbrakk>
    \<Longrightarrow> pipe_run a s0 ins outs t"

lemma pipewrite_puts:
  assumes "pipewrite_t a bs s = Inr (r, t)" "pipe_ok (pipes s a)"
  shows "pipe_ok (pipes t a)" "pipe_bytes (pipes t a) = pipe_bytes (pipes s a) @ put_in r bs (pipes s a)"
  using pipewrite_from_space [OF assms(1) [unfolded pipewrite_t_def] assms(2)]
  by (auto simp: put_in_def pipe_bytes_def split: if_splits)

lemma piperead_gets:
  assumes "piperead_t a n s = Inr (r, t)" "pipe_ok (pipes s a)"
  shows "pipe_ok (pipes t a)" "pipe_bytes (pipes s a) = got_out r @ pipe_bytes (pipes t a)"
proof -
  have "pipe_ok (pipes t a) \<and> pipe_bytes (pipes s a) = got_out r @ pipe_bytes (pipes t a)"
  proof (cases "pi_nread (pipes s a) = pi_nwrite (pipes s a) \<and> pi_writeopen (pipes s a)")
    case True
    then have "pipes t = pipes s \<and> got_out r = []"
      using assms(1)
      by (auto simp: piperead_t_def with_curproc_Inr call_eq_Inr got_out_def split: if_splits dest!: pipes_sleep)
    then show ?thesis using assms(2) by simp
  next
    case False
    obtain cs q where q: "pipe_take_t n (pipes s a) = (cs, q)" by (cases "pipe_take_t n (pipes s a)")
    then have "r = Done (Some cs)" "pipes t a = q"
      using assms(1) False by (auto simp: piperead_t_def upd_pipe_t_def)
    then show ?thesis using pipe_take_ok [OF assms(2), of n] by (simp add: q got_out_def)
  qed
  then show "pipe_ok (pipes t a)" "pipe_bytes (pipes s a) = got_out r @ pipe_bytes (pipes t a)" by simp_all
qed

lemma pipe_run_fifo:
  "pipe_run a s0 ins outs s \<Longrightarrow> pipe_ok (pipes s0 a) \<Longrightarrow>
     pipe_ok (pipes s a) \<and> pipe_bytes (pipes s0 a) @ ins = outs @ pipe_bytes (pipes s a)"
proof (induction rule: pipe_run.induct)
  case (writes ins outs s bs r t)
  then show ?case using pipewrite_puts [OF writes.hyps(2)] by (simp flip: append_assoc)
next
  case (reads ins outs s n r t)
  then show ?case using piperead_gets [OF reads.hyps(2)] by simp
next
  case (elsewhere ins outs s t)
  then show ?case by (simp add: pipe_ok_def pipe_bytes_def)
qed simp

text \<open>C9: Over any run of writes and reads of a pipe, in whatever order, with calls that sleep and calls
  that fail, the bytes come out in the order in which they went in and none is lost: what was in the
  pipe and what was put in since is what was taken out and what is in it, at most 512 bytes.  A read
  of a pipe that is not empty returns its first bytes, and a write that fits returns.\<close>

theorem pipe_in_order:
  assumes "pipe_run a s0 ins outs s" "pipe_ok (pipes s0 a)"
  shows "pipe_bytes (pipes s0 a) @ ins = outs @ pipe_bytes (pipes s a) \<and> length (pipe_bytes (pipes s a)) \<le> 512 \<and>
    (\<forall>n. pipe_bytes (pipes s a) \<noteq> [] \<longrightarrow>
       (\<exists>t. piperead_t a n s = Inr (Done (Some (take n (pipe_bytes (pipes s a)))), t))) \<and>
    (\<forall>bs. length bs \<le> 512 - length (pipe_bytes (pipes s a)) \<longrightarrow> (\<exists>t. pipewrite_t a bs s = Inr (Done (int (length bs)), t)))"
proof (intro conjI allI impI)
  have ok: "pipe_ok (pipes s a)" and le: "length (pipe_bytes (pipes s a)) \<le> 512"
    using pipe_run_fifo [OF assms] by (auto simp: pipe_ok_def pipe_bytes_def)
  show "pipe_bytes (pipes s0 a) @ ins = outs @ pipe_bytes (pipes s a)" using pipe_run_fifo [OF assms] by simp
  show "length (pipe_bytes (pipes s a)) \<le> 512" by (rule le)
  show "\<exists>t. piperead_t a n s = Inr (Done (Some (take n (pipe_bytes (pipes s a)))), t)" if "pipe_bytes (pipes s a) \<noteq> []" for n
  proof -
    have "pi_nread (pipes s a) \<noteq> pi_nwrite (pipes s a)" using that by (auto simp: pipe_bytes_def ring_def)
    then show ?thesis using pipe_take_ok [OF ok, of n] by (auto simp: piperead_t_def split: prod.split)
  qed
  show "\<exists>t. pipewrite_t a bs s = Inr (Done (int (length bs)), t)"
    if "length bs \<le> 512 - length (pipe_bytes (pipes s a))" for bs
    using pipewrite_from_ok [OF ok, of bs] that le by (fastforce simp: pipewrite_t_def)
qed

text \<open>A pipe whose indices are about to overflow and whose ring wraps.\<close>

definition pipe_ex :: pipe where
  "pipe_ex = \<lparr>pi_data = replicate 512 7, pi_nread = - 2, pi_nwrite = - 1, pi_readopen = True, pi_writeopen = True\<rparr>"

theorem pipe_in_order_witness:
  "\<exists>t u. pipewrite_t 0x80001000 [1, 2, 3] ((machine [])\<lparr>pipes := (\<lambda>_. pipe_ex)\<rparr>) = Inr (Done 3, t) \<and>
     piperead_t 0x80001000 3 t = Inr (Done (Some [7, 1, 2]), u) \<and> pipe_bytes (pipes u 0x80001000) = [3]"
proof -
  let ?s = "(machine [])\<lparr>pipes := (\<lambda>_. pipe_ex)\<rparr>" and ?a = "0x80001000 :: i32"
  have b: "pipe_bytes (pipes ?s ?a) = [7]" by (simp add: pipe_bytes_def pipe_ex_def ring_def)
  have ok: "pipe_ok (pipes ?s ?a)" by (simp add: pipe_ok_def pipe_ex_def)
  note run0 = pipe_run.begins [of ?a ?s]
  obtain t where t: "pipewrite_t ?a [1, 2, 3] ?s = Inr (Done 3, t)"
    using pipe_in_order [OF run0 ok] unfolding b by (auto dest: spec [of _ "[1, 2, 3]"])
  have run1: "pipe_run ?a ?s [1, 2, 3] [] t" using pipe_run.writes [OF run0 t] by (simp add: put_in_def)
  note 1 = pipe_in_order [OF run1 ok, unfolded b]
  then have bt: "pipe_bytes (pipes t ?a) = [7, 1, 2, 3]" by simp
  obtain u where u: "piperead_t ?a 3 t = Inr (Done (Some [7, 1, 2]), u)"
    using 1 unfolding bt by (auto dest: spec [of _ 3] simp: numeral_3_eq_3)
  have run2: "pipe_run ?a ?s [1, 2, 3] [7, 1, 2] u" using pipe_run.reads [OF run1 u] by (simp add: got_out_def)
  show ?thesis using t u pipe_in_order [OF run2 ok, unfolded b] by auto
qed

end
