(* ===== verification/Console_Line.thy ===== *)
theory Console_Line
  imports Console Fifo
begin

text \<open>
  The console as a line editor: the characters between the read and the write index are the input a
  reader gets, those between the write and the edit index the line being typed.  On these two lists
  a key is a short case distinction, which the ring with its three free-running indices refines.
\<close>

section \<open>The abstract editor\<close>

type_synonym line_state = "string \<times> string"

definition edit :: "char \<Rightarrow> line_state \<Rightarrow> line_state" where
  "edit c v = (case v of (p, l) \<Rightarrow>
     if c = CHR 0x10 then (p, l)
     else if c = CHR 0x15 then (p, [])
     else if c = CHR 0x08 \<or> c = CHR 0x7F then (p, butlast l)
     else if c = NUL \<or> length p + length l = 128 then (p, l)
     else let l = l @ [if c = CHR 0x0D then CHR 0x0A else c]
          in if last l \<in> {CHR 0x0A, CHR 0x04} \<or> length p + length l = 128 then (p @ l, []) else (p, l))"

text \<open>A reader takes a line, at most \<open>n\<close> characters; an end-of-file mark is left for the next reader
  unless it is the first.\<close>

fun take_line :: "nat \<Rightarrow> nat \<Rightarrow> string \<Rightarrow> (string \<times> string) option" where
  "take_line m 0 p = Some ([], p)"
| "take_line m (Suc n) [] = None"
| "take_line m (Suc n) (c # p) =
     (if c = CHR 0x04 then Some ([], if Suc n < m then c # p else p)
      else if c = CHR 0x0A then Some ([c], p)
      else map_option (map_prod (Cons c) id) (take_line m n p))"

section \<open>The abstraction\<close>

definition ready :: "console \<Rightarrow> string" where
  "ready s = ring 128 (c_buf s) (unat (c_r s)) (unat (c_w s - c_r s))"

definition typed :: "console \<Rightarrow> string" where
  "typed s = ring 128 (c_buf s) (unat (c_w s)) (unat (c_e s - c_w s))"

definition line_view :: "console \<Rightarrow> line_state" where
  "line_view s = (ready s, typed s)"

definition console_ok :: "console \<Rightarrow> bool" where
  "console_ok s \<longleftrightarrow> length (c_buf s) = 128 \<and> unat (c_w s - c_r s) + unat (c_e s - c_w s) \<le> 128 \<and>
     CHR 0x0A \<notin> set (typed s)"

lemma length_pending [simp]: "length (ready s) = unat (c_w s - c_r s)"
  and length_typed [simp]: "length (typed s) = unat (c_e s - c_w s)"
  by (simp_all add: ready_def typed_def)

lemma consputc_fields [simp]:
  "c_buf (consputc c s) = c_buf s" "c_r (consputc c s) = c_r s" "c_w (consputc c s) = c_w s" "c_e (consputc c s) = c_e s"
  "ready (consputc c s) = ready s" "typed (consputc c s) = typed s" "console_ok (consputc c s) = console_ok s"
  by (simp_all add: consputc_def ready_def typed_def console_ok_def)

lemma pending_cong [simp]: "ready (s\<lparr>c_e := e\<rparr>) = ready s"
  by (simp add: ready_def)

lemma slot_add: "in_slot (r + k) = (unat r + unat k) mod 128"
  by (simp add: in_slot_def INPUT_BUF_def unat_add_mod)

lemma slot_e: "in_slot (c_e s) = (unat (c_w s) + unat (c_e s - c_w s)) mod 128"
  using slot_add [of "c_w s" "c_e s - c_w s"] by simp

text \<open>The edit index relative to the read index, with no wrap.\<close>

lemma used_chars:
  assumes "console_ok s"
  shows "unat (c_e s - c_r s) = unat (c_w s - c_r s) + unat (c_e s - c_w s)"
proof -
  have "unat ((c_w s - c_r s) + (c_e s - c_w s)) = unat (c_w s - c_r s) + unat (c_e s - c_w s)"
    using assms by (intro unat_add32) (simp add: console_ok_def)
  then show ?thesis by simp
qed

text \<open>Taking back one character.\<close>

lemma typed_back:
  assumes "c_e s \<noteq> c_w s"
  shows "typed s = typed (s\<lparr>c_e := c_e s - 1\<rparr>) @ [c_buf s ! in_slot (c_e s - 1)]"
proof -
  have k: "unat (c_e s - c_w s) = Suc (unat (c_e s - 1 - c_w s))"
    using unat_diff_pred [OF assms] by (simp add: algebra_simps)
  have i: "in_slot (c_e s - 1) = (unat (c_w s) + unat (c_e s - 1 - c_w s)) mod 128"
    using slot_add [of "c_w s" "c_e s - 1 - c_w s"] by simp
  show ?thesis unfolding typed_def k i by (simp add: ring_def)
qed

lemma back_ok:
  assumes "console_ok s" "c_e s \<noteq> c_w s"
  shows "console_ok (s\<lparr>c_e := c_e s - 1\<rparr>) \<and> typed (s\<lparr>c_e := c_e s - 1\<rparr>) = butlast (typed s)"
proof -
  have "unat (c_e s - c_w s) = Suc (unat (c_e s - 1 - c_w s))"
    using unat_diff_pred [OF assms(2)] by (simp add: algebra_simps)
  moreover have "set (typed (s\<lparr>c_e := c_e s - 1\<rparr>)) \<subseteq> set (typed s)" using typed_back [OF assms(2)] by auto
  ultimately show ?thesis using assms(1) typed_back [OF assms(2)] by (auto simp: console_ok_def)
qed

lemma typed_Nil_iff: "typed s = [] \<longleftrightarrow> c_e s = c_w s"
proof -
  have "typed s = [] \<longleftrightarrow> unat (c_e s - c_w s) = 0" by (metis length_typed length_0_conv)
  then show ?thesis by (simp add: unat_eq_0)
qed

lemma kill_line_ok:
  "console_ok s \<Longrightarrow> console_ok (kill_line s) \<and> ready (kill_line s) = ready s \<and> typed (kill_line s) = []"
proof (induction s rule: kill_line.induct)
  case (1 s)
  show ?case
  proof (cases "c_e s = c_w s")
    case True
    then show ?thesis using 1(2) by (simp add: kill_line.simps [of s] typed_Nil_iff)
  next
    case False
    then have "c_buf s ! in_slot (c_e s - 1) \<in> set (typed s)" using typed_back by simp
    then have n: "c_e s \<noteq> c_w s \<and> c_buf s ! in_slot (c_e s - 1) \<noteq> CHR 0x0A"
      using 1(2) False by (auto simp: console_ok_def)
    have "console_ok (consputc BACKSPACE (s\<lparr>c_e := c_e s - 1\<rparr>))" using back_ok [OF 1(2) False] by simp
    from 1(1) [OF n this] show ?thesis using n by (simp add: kill_line.simps [of s])
  qed
qed

text \<open>Storing one character behind the line.\<close>

definition store_key :: "char \<Rightarrow> console \<Rightarrow> console" where
  "store_key c s = s\<lparr>c_buf := (c_buf s)[in_slot (c_e s) := c], c_e := c_e s + 1\<rparr>"

lemma store_fields [simp]: "c_r (store_key c s) = c_r s" "c_w (store_key c s) = c_w s" "c_e (store_key c s) = c_e s + 1"
  by (simp_all add: store_key_def)

lemma store_view:
  assumes "console_ok s" "unat (c_e s - c_r s) < 128"
  shows "ready (store_key c s) = ready s \<and> typed (store_key c s) = typed s @ [c]"
proof -
  let ?k = "unat (c_e s - c_w s)" and ?w = "unat (c_w s)" and ?m = "unat (c_w s - c_r s)" and ?r = "unat (c_r s)"
  have k: "?k + ?m < 128" "length (c_buf s) = 128" using assms used_chars [OF assms(1)] by (simp_all add: console_ok_def)
  have e: "unat (c_e s + 1 - c_w s) = Suc ?k" using k by (intro unat_diff_Suc) simp
  have t: "typed (store_key c s) = typed s @ [c]"
    using ring_put [OF _ k(2), of ?k ?w c] k(1) by (simp add: typed_def store_key_def e slot_e)
  have w: "?w mod 128 = (?r + ?m) mod 128" using unat_add_mod [of 128 "c_r s" "c_w s - c_r s"] by simp
  then have i: "in_slot (c_e s) = (?r + (?m + ?k)) mod 128"
    by (metis slot_e mod_add_left_eq add.assoc)
  have "ring 128 ((c_buf s)[in_slot (c_e s) := c]) ?r (Suc (?m + ?k)) = ring 128 (c_buf s) ?r (?m + ?k) @ [c]"
    unfolding i using k by (intro ring_put) simp_all
  then have "ring 128 ((c_buf s)[in_slot (c_e s) := c]) ?r (?m + (?k + 1)) = ring 128 (c_buf s) ?r (?m + ?k) @ [c]" by simp
  from arg_cong [OF this, of "take ?m"] have "ready (store_key c s) = ready s"
    by (simp only: ring_add) (simp add: ready_def store_key_def)
  with t show ?thesis by simp
qed

text \<open>Handing the line over to the readers.\<close>

lemma commit_ok:
  assumes "length (c_buf s) = 128" "unat (c_w s - c_r s) + unat (c_e s - c_w s) \<le> 128"
  shows "console_ok (s\<lparr>c_w := c_e s\<rparr>) \<and> ready (s\<lparr>c_w := c_e s\<rparr>) = ready s @ typed s \<and> typed (s\<lparr>c_w := c_e s\<rparr>) = []"
proof -
  let ?k = "unat (c_e s - c_w s)" and ?m = "unat (c_w s - c_r s)"
  have "unat ((c_w s - c_r s) + (c_e s - c_w s)) = ?m + ?k" using assms(2) by (intro unat_add32) simp
  then have e: "unat (c_e s - c_r s) = ?m + ?k" by simp
  have "(unat (c_r s) + ?m) mod 128 = unat (c_w s) mod 128" using unat_add_mod [of 128 "c_r s" "c_w s - c_r s"] by simp
  then have "ring 128 (c_buf s) (unat (c_r s) + ?m) ?k = ring 128 (c_buf s) (unat (c_w s)) ?k" by (rule ring_cong)
  then have p: "ready (s\<lparr>c_w := c_e s\<rparr>) = ready s @ typed s" by (simp add: ready_def typed_def e ring_add)
  have "typed (s\<lparr>c_w := c_e s\<rparr>) = []" by (simp add: typed_def ring_def)
  then show ?thesis using p assms e by (simp add: console_ok_def)
qed

lemma key_stored:
  assumes "c \<notin> {CHR 0x10, CHR 0x15, CHR 0x08, CHR 0x7F, NUL}" "unat (c_e s - c_r s) < 128" "d = (if c = CHR 0x0D then CHR 0x0A else c)"
  shows "console_key c s = (let t = consputc (of_char d) (store_key d s) in
     if d \<in> {CHR 0x0A, CHR 0x04} \<or> c_e t = c_r t + 128 then t\<lparr>c_w := c_e t\<rparr> else t)"
  using assms unfolding console_key_def store_key_def INPUT_BUF_def by (simp add: Let_def)

lemma full_iff:
  assumes "console_ok s" "unat (c_e s - c_r s) < 128"
  shows "c_e s + 1 = c_r s + 128 \<longleftrightarrow> unat (c_w s - c_r s) + Suc (unat (c_e s - c_w s)) = 128"
proof -
  have u: "unat (c_e s + 1 - c_r s) = Suc (unat (c_e s - c_r s))" using assms(2) by (intro unat_diff_Suc) simp
  have "c_e s + 1 = c_r s + 128 \<longleftrightarrow> c_e s + 1 - c_r s = 128"
    by (metis add.commute diff_add_cancel add_diff_cancel_left')
  also have "\<dots> \<longleftrightarrow> unat (c_e s + 1 - c_r s) = 128" by (simp only: word_unat_eq_iff) simp
  also have "\<dots> \<longleftrightarrow> unat (c_w s - c_r s) + Suc (unat (c_e s - c_w s)) = 128"
    unfolding u used_chars [OF assms(1)] by simp
  finally show ?thesis .
qed

text \<open>A key of the editor.\<close>

lemma key_ok:
  assumes ok: "console_ok s"
  shows "console_ok (console_key c s) \<and> line_view (console_key c s) = edit c (line_view s)"
proof (cases "c \<in> {CHR 0x10, CHR 0x15, CHR 0x08, CHR 0x7F}")
  case True
  then show ?thesis
    using ok kill_line_ok [OF ok] back_ok [OF ok] typed_Nil_iff [of s]
    by (auto simp: console_key_def edit_def line_view_def)
next
  case other: False
  let ?n = "length (ready s) + length (typed s)"
  have n: "unat (c_e s - c_r s) = ?n" "?n \<le> 128" using ok used_chars [OF ok] by (simp_all add: console_ok_def)
  show ?thesis
  proof (cases "c = NUL \<or> ?n = 128")
    case True
    then show ?thesis using ok n other by (auto simp: console_key_def edit_def line_view_def INPUT_BUF_def)
  next
    case False
    then have lt: "unat (c_e s - c_r s) < 128" using n by linarith
    define d where "d = (if c = CHR 0x0D then CHR 0x0A else c)"
    define t where "t = consputc (of_char d) (store_key d s)"
    have v: "ready t = ready s" "typed t = typed s @ [d]" using store_view [OF ok lt] by (simp_all add: t_def)
    have e: "c_e t = c_r t + 128 \<longleftrightarrow> length (ready t) + length (typed t) = 128"
      using full_iff [OF ok lt] v by (simp add: t_def)
    have l: "length (c_buf t) = 128" "length (ready t) + length (typed t) \<le> 128"
      using ok v n lt by (simp_all add: t_def store_key_def console_ok_def)
    have key: "console_key c s = (if d \<in> {CHR 0x0A, CHR 0x04} \<or> c_e t = c_r t + 128 then t\<lparr>c_w := c_e t\<rparr> else t)"
      using key_stored [OF _ lt d_def] other False by (simp add: t_def Let_def)
    have ed: "edit c (line_view s) = (if d \<in> {CHR 0x0A, CHR 0x04} \<or> length (ready t) + length (typed t) = 128
        then (ready t @ typed t, []) else (ready t, typed t))"
      using other False v by (simp add: edit_def line_view_def Let_def d_def)
    show ?thesis
    proof (cases "d \<in> {CHR 0x0A, CHR 0x04} \<or> c_e t = c_r t + 128")
      case True
      then show ?thesis using commit_ok [of t] l e unfolding key ed by (simp add: line_view_def)
    next
      case False
      then have "console_ok t" using ok l(1) v(2) l(2) [unfolded length_pending length_typed]
        by (auto simp: console_ok_def)
      then show ?thesis using False e unfolding key ed by (simp add: line_view_def)
    qed
  qed
qed

lemma intr_ok:
  "console_ok s \<Longrightarrow> console_ok (consoleintr cs s) \<and> line_view (consoleintr cs s) = fold edit cs (line_view s)"
  unfolding consoleintr_def by (induction cs arbitrary: s) (simp_all add: key_ok)

section \<open>Reading\<close>

lemma read_char:
  assumes "console_ok s" "c_r s \<noteq> c_w s"
  shows "ready s = c_buf s ! in_slot (c_r s) # ready (s\<lparr>c_r := c_r s + 1\<rparr>)"
    and "console_ok (s\<lparr>c_r := c_r s + 1\<rparr>)" and "typed (s\<lparr>c_r := c_r s + 1\<rparr>) = typed s"
proof -
  have k: "unat (c_w s - c_r s) = Suc (unat (c_w s - (c_r s + 1)))" using unat_diff_pred [OF assms(2) [symmetric]] by simp
  have "ring 128 (c_buf s) (unat (c_r s + 1)) j = ring 128 (c_buf s) (Suc (unat (c_r s))) j" for j
    by (rule ring_cong) (simp add: unat_Suc_mod)
  then show "ready s = c_buf s ! in_slot (c_r s) # ready (s\<lparr>c_r := c_r s + 1\<rparr>)"
    unfolding ready_def k by (simp add: ring_pop in_slot_def INPUT_BUF_def)
  show t: "typed (s\<lparr>c_r := c_r s + 1\<rparr>) = typed s" by (simp add: typed_def)
  show "console_ok (s\<lparr>c_r := c_r s + 1\<rparr>)" using assms(1) k t by (simp add: console_ok_def)
qed

text \<open>What the reader gets, given what the abstract reader gets.\<close>

fun line_reads :: "reading \<Rightarrow> (string \<times> string) option \<Rightarrow> string \<Rightarrow> bool" where
  "line_reads (Line cs s) r l \<longleftrightarrow> r = Some (cs, ready s) \<and> typed s = l \<and> console_ok s"
| "line_reads (Waits cs s) r l \<longleftrightarrow> r = None \<and> ready s = [] \<and> typed s = l \<and> console_ok s"
| "line_reads (Killed cs s) r l \<longleftrightarrow> r = None \<and> ready s = [] \<and> typed s = l \<and> console_ok s"

lemma pending_Nil_iff: "ready s = [] \<longleftrightarrow> c_r s = c_w s"
proof -
  have "ready s = [] \<longleftrightarrow> unat (c_w s - c_r s) = 0" by (metis length_pending length_0_conv)
  then show ?thesis by (auto simp: unat_eq_0)
qed

lemma take_ok: "console_ok s \<Longrightarrow> line_reads (console_take k m n s) (take_line m n (ready s)) (typed s)"
proof (induction n arbitrary: s)
  case (Suc n)
  show ?case
  proof (cases "c_r s = c_w s")
    case True
    then have "ready s = []" by (simp add: pending_Nil_iff)
    then show ?thesis using Suc.prems True by simp
  next
    case False
    note r = read_char [OF Suc.prems False]
    show ?thesis using Suc.IH [OF r(2)] False r Suc.prems
      by (auto simp: r(1) Let_def split: reading.splits)
  qed
qed simp

section \<open>Property\<close>

text \<open>C14: The keys typed at the console act on its ring buffer as the line editor acts on the list of
  characters handed to the readers and the line being typed, wherever the free-running indices stand
  and wrap; the buffer keeps its invariant, and a reader gets what the abstract reader takes from the
  list, or sleeps or is killed when the list does not hold what it asks for.\<close>

theorem console_edits:
  assumes "console_ok s"
  shows "console_ok (consoleintr cs s) \<and> line_view (consoleintr cs s) = fold edit cs (line_view s) \<and>
    line_reads (console_take k m n (consoleintr cs s)) (take_line m n (fst (fold edit cs (line_view s)))) (snd (fold edit cs (line_view s)))"
proof -
  note i = intr_ok [OF assms, of cs]
  then have "ready (consoleintr cs s) = fst (fold edit cs (line_view s))" "typed (consoleintr cs s) = snd (fold edit cs (line_view s))"
    by (simp_all add: line_view_def [of "consoleintr cs s"] prod_eq_iff)
  then show ?thesis using i take_ok [of "consoleintr cs s" k m n] by simp
qed

text \<open>A console whose indices are about to overflow.\<close>

definition console_ex :: console where
  "console_ex = \<lparr>c_buf = replicate 128 NUL, c_r = - 2, c_w = - 2, c_e = - 2, c_out = []\<rparr>"

theorem console_edits_witness:
  "\<exists>u. console_take False 9 9 (consoleintr [CHR ''h'', CHR ''x'', CHR 0x7F, CHR ''i'', CHR 0x0D, CHR ''y''] console_ex) =
     Line [CHR ''h'', CHR ''i'', CHR 0x0A] u \<and> line_view u = ([], ''y'')"
proof -
  have v: "line_view console_ex = ([], [])" by (simp add: line_view_def ready_def typed_def console_ex_def ring_def)
  have "console_ok console_ex" using v by (simp add: console_ok_def line_view_def) (simp add: console_ex_def)
  from console_edits [OF this, of "[CHR ''h'', CHR ''x'', CHR 0x7F, CHR ''i'', CHR 0x0D, CHR ''y'']" False 9 9]
  show ?thesis
    unfolding v by (cases "console_take False 9 9 (consoleintr [CHR ''h'', CHR ''x'', CHR 0x7F, CHR ''i'', CHR 0x0D, CHR ''y''] console_ex)")
      (auto simp: edit_def eval_nat_numeral line_view_def)
qed

end
