(* ===== verification/Files.thy ===== *)
theory Files
  imports Names
begin

text \<open>
  Open files, pipes and the fetching of system call arguments of the file-system kernel
  (\<open>file.c\<close>, \<open>pipe.c\<close>, the first half of \<open>syscall.c\<close>).  The state adds to the file layer the table of
  open files, the descriptors of the running process, the pipes with the free pages they live in,
  and the user memory.  Only the running process is in the state: a call that sleeps has no one to
  wake it and is \<open>Diverge\<close>, as for the locks and the console.
\<close>

definition NOFILE :: nat where "NOFILE = 16"
definition NFILE :: nat where "NFILE = 100"

datatype file_type = FD_NONE | FD_PIPE | FD_INODE

record open_file =
  o_type :: file_type
  o_ref :: int
  o_readable :: bool
  o_writable :: bool
  o_pipe :: nat
  o_ip :: nat
  o_off :: nat

record fpipe =
  q_data :: string
  q_nread :: i32
  q_nwrite :: i32
  q_readopen :: bool
  q_writeopen :: bool

record osys = fsys +
  ftable :: "open_file list"
  ofile :: "nat option list"
  pipes :: "nat \<Rightarrow> fpipe"
  free_pages :: "nat list"
  umem :: bytes
  usz :: nat
  esp :: nat

section \<open>Transactions\<close>

text \<open>\<open>begin_op\<close> and \<open>end_op\<close> on the blocks that the cache shows: the last operation that ends
  commits, which the shown blocks do not notice.\<close>

definition begin_tx :: "'a fsys_scheme \<Rightarrow> 'a fsys_scheme kres" where
  "begin_tx s =
     (if LOGSIZE < length (tx_blocks s) + (tx_open s + 1) * MAXOPBLOCKS then Inl Diverge
      else Inr (s\<lparr>tx_open := tx_open s + 1\<rparr>))"

definition end_tx :: "'a fsys_scheme \<Rightarrow> 'a fsys_scheme" where
  "end_tx s =
     (if tx_open s = 1 then s\<lparr>tx_open := 0, tx_blocks := []\<rparr> else s\<lparr>tx_open := tx_open s - 1\<rparr>)"

section \<open>Arguments\<close>

text \<open>A 32-bit number read as an \<open>int\<close>.\<close>

definition as_int :: "nat \<Rightarrow> int" where
  "as_int v = (if v < 2 ^ 31 then int v else int v - 2 ^ 32)"

definition fetchint :: "nat \<Rightarrow> 'a osys_scheme \<Rightarrow> nat option" where
  "fetchint a s =
     (if usz s \<le> a \<or> usz s < (a + 4) mod 2 ^ 32 then None else Some (get32 a (umem s)))"

definition fetchstr :: "nat \<Rightarrow> 'a osys_scheme \<Rightarrow> string option" where
  "fetchstr a s =
     (if usz s \<le> a then None
      else let cs = bytes_at a (usz s - a) (umem s)
        in if NUL \<in> set cs then Some (cstr cs) else None)"

definition argint :: "nat \<Rightarrow> 'a osys_scheme \<Rightarrow> nat option" where
  "argint n s = fetchint ((esp s + 4 + 4 * n) mod 2 ^ 32) s"

definition argptr :: "nat \<Rightarrow> int \<Rightarrow> 'a osys_scheme \<Rightarrow> nat option" where
  "argptr n sz s =
     (case argint n s of
        None \<Rightarrow> None
      | Some i \<Rightarrow>
          if sz < 0 \<or> usz s \<le> i \<or> usz s < (i + nat sz) mod 2 ^ 32 then None else Some i)"

definition argstr :: "nat \<Rightarrow> 'a osys_scheme \<Rightarrow> string option" where
  "argstr n s = (case argint n s of None \<Rightarrow> None | Some a \<Rightarrow> fetchstr a s)"

section \<open>The table of open files\<close>

definition the_file :: "'a osys_scheme \<Rightarrow> nat \<Rightarrow> open_file" where "the_file s f = ftable s ! f"

definition upd_file :: "nat \<Rightarrow> (open_file \<Rightarrow> open_file) \<Rightarrow> 'a osys_scheme \<Rightarrow> 'a osys_scheme" where
  "upd_file f g s = s\<lparr>ftable := (ftable s)[f := g (ftable s ! f)]\<rparr>"

definition filealloc :: "'a osys_scheme \<Rightarrow> nat option \<times> 'a osys_scheme" where
  "filealloc s =
     (case find (\<lambda>f. o_ref (the_file s f) = 0) [0..<NFILE] of
        None \<Rightarrow> (None, s)
      | Some f \<Rightarrow> (Some f, upd_file f (o_ref_update (\<lambda>_. 1)) s))"

definition filedup :: "nat \<Rightarrow> 'a osys_scheme \<Rightarrow> 'a osys_scheme kres" where
  "filedup f s =
     (if o_ref (the_file s f) < 1 then Inl (Panic ''filedup'')
      else Inr (upd_file f (\<lambda>p. p\<lparr>o_ref := o_ref p + 1\<rparr>) s))"

section \<open>Pipes\<close>

definition PIPESIZE :: i32 where "PIPESIZE = 512"

definition upd_pipe :: "nat \<Rightarrow> (fpipe \<Rightarrow> fpipe) \<Rightarrow> 'a osys_scheme \<Rightarrow> 'a osys_scheme" where
  "upd_pipe p g s = s\<lparr>pipes := (pipes s)(p := g (pipes s p))\<rparr>"

definition kalloc_page :: "'a osys_scheme \<Rightarrow> nat option \<times> 'a osys_scheme" where
  "kalloc_page s = (case free_pages s of [] \<Rightarrow> (None, s) | p # ps \<Rightarrow> (Some p, s\<lparr>free_pages := ps\<rparr>))"

definition kfree_page :: "nat \<Rightarrow> 'a osys_scheme \<Rightarrow> 'a osys_scheme" where
  "kfree_page p s = s\<lparr>free_pages := p # free_pages s\<rparr>"

definition pipeclose :: "nat \<Rightarrow> bool \<Rightarrow> 'a osys_scheme \<Rightarrow> 'a osys_scheme" where
  "pipeclose p writable s =
     (let s1 = upd_pipe p (if writable then q_writeopen_update (\<lambda>_. False) else q_readopen_update (\<lambda>_. False)) s
      in if \<not> q_readopen (pipes s1 p) \<and> \<not> q_writeopen (pipes s1 p) then kfree_page p s1 else s1)"

definition fileclose :: "nat \<Rightarrow> 'a osys_scheme \<Rightarrow> 'a osys_scheme kres" where
  "fileclose f s =
     (if o_ref (the_file s f) < 1 then Inl (Panic ''fileclose'')
      else let s1 = upd_file f (\<lambda>p. p\<lparr>o_ref := o_ref p - 1\<rparr>) s in
        if 0 < o_ref (the_file s1 f) then Inr s1
        else let ff = the_file s1 f; s2 = upd_file f (\<lambda>p. p\<lparr>o_ref := 0, o_type := FD_NONE\<rparr>) s1 in
          (case o_type ff of
             FD_PIPE \<Rightarrow> Inr (pipeclose (o_pipe ff) (o_writable ff) s2)
           | FD_INODE \<Rightarrow> call (begin_tx s2) (\<lambda>s3. call (iput (o_ip ff) s3) (\<lambda>s4. Inr (end_tx s4)))
           | FD_NONE \<Rightarrow> Inr s2))"

definition pipealloc :: "'a osys_scheme \<Rightarrow> ((nat \<times> nat) option \<times> 'a osys_scheme) kres" where
  "pipealloc s =
     (case filealloc s of
        (None, s1) \<Rightarrow> Inr (None, s1)
      | (Some f0, s1) \<Rightarrow>
          (case filealloc s1 of
             (None, s2) \<Rightarrow> call (fileclose f0 s2) (\<lambda>s3. Inr (None, s3))
           | (Some f1, s2) \<Rightarrow>
               (case kalloc_page s2 of
                  (None, s3) \<Rightarrow> call (fileclose f0 s3) (\<lambda>s4. call (fileclose f1 s4) (\<lambda>s5. Inr (None, s5)))
                | (Some p, s3) \<Rightarrow>
                    Inr (Some (f0, f1),
                      upd_file f1 (\<lambda>q. q\<lparr>o_type := FD_PIPE, o_readable := False, o_writable := True, o_pipe := p\<rparr>)
                       (upd_file f0 (\<lambda>q. q\<lparr>o_type := FD_PIPE, o_readable := True, o_writable := False, o_pipe := p\<rparr>)
                        (upd_pipe p (\<lambda>q. q\<lparr>q_readopen := True, q_writeopen := True, q_nwrite := 0, q_nread := 0\<rparr>) s3))))))"

definition pipe_put :: "char \<Rightarrow> fpipe \<Rightarrow> fpipe" where
  "pipe_put c q = q\<lparr>q_data := (q_data q)[unat (q_nwrite q mod PIPESIZE) := c], q_nwrite := q_nwrite q + 1\<rparr>"

primrec pipewrite_from :: "nat \<Rightarrow> int \<Rightarrow> string \<Rightarrow> 'a osys_scheme \<Rightarrow> (int \<times> 'a osys_scheme) kres" where
  "pipewrite_from p n [] s = Inr (n, s)"
| "pipewrite_from p n (c # cs) s =
     (if q_nwrite (pipes s p) = q_nread (pipes s p) + PIPESIZE then
        (if \<not> q_readopen (pipes s p) \<or> is_killed s then Inr (- 1, s) else Inl Diverge)
      else pipewrite_from p n cs (upd_pipe p (pipe_put c) s))"

definition pipewrite :: "nat \<Rightarrow> string \<Rightarrow> 'a osys_scheme \<Rightarrow> (int \<times> 'a osys_scheme) kres" where
  "pipewrite p cs s = pipewrite_from p (int (length cs)) cs s"

primrec pipe_take :: "nat \<Rightarrow> fpipe \<Rightarrow> string \<times> fpipe" where
  "pipe_take 0 q = ([], q)"
| "pipe_take (Suc n) q =
     (if q_nread q = q_nwrite q then ([], q)
      else case pipe_take n (q\<lparr>q_nread := q_nread q + 1\<rparr>) of
        (cs, q') \<Rightarrow> (q_data q ! unat (q_nread q mod PIPESIZE) # cs, q'))"

definition piperead :: "nat \<Rightarrow> nat \<Rightarrow> 'a osys_scheme \<Rightarrow> ((int \<times> string) \<times> 'a osys_scheme) kres" where
  "piperead p n s =
     (if q_nread (pipes s p) = q_nwrite (pipes s p) \<and> q_writeopen (pipes s p) then
        (if is_killed s then Inr ((- 1, []), s) else Inl Diverge)
      else case pipe_take n (pipes s p) of
        (cs, q) \<Rightarrow> Inr ((int (length cs), cs), upd_pipe p (\<lambda>_. q) s))"

section \<open>Reading and writing open files\<close>

definition filestat :: "nat \<Rightarrow> string \<Rightarrow> 'a osys_scheme \<Rightarrow> (stat option \<times> 'a osys_scheme) kres" where
  "filestat f old_owner s =
     (if o_type (the_file s f) = FD_INODE then
        let ip = o_ip (the_file s f) in
        call (ilock ip s) (\<lambda>s1.
        let st = stati ip s1 old_owner in
        call (iunlock ip s1) (\<lambda>s2. Inr (Some st, s2)))
      else Inr (None, s))"

text \<open>\<open>if(r > 0) f->off += r\<close>\<close>

definition advance :: "nat \<Rightarrow> int \<Rightarrow> 'a osys_scheme \<Rightarrow> 'a osys_scheme" where
  "advance f r s =
     (if 0 < r then upd_file f (\<lambda>p. p\<lparr>o_off := (o_off p + nat r) mod 2 ^ 32\<rparr>) s else s)"

definition fileread :: "nat \<Rightarrow> nat \<Rightarrow> 'a osys_scheme \<Rightarrow> ((int \<times> string) \<times> 'a osys_scheme) kres" where
  "fileread f n s =
     (let p = the_file s f in
      if \<not> o_readable p then Inr ((- 1, []), s)
      else (case o_type p of
        FD_PIPE \<Rightarrow> piperead (o_pipe p) n s
      | FD_INODE \<Rightarrow>
          call (ilock (o_ip p) s) (\<lambda>s1.
          call (readi (o_ip p) (o_off p) n s1) (\<lambda>(r, s2).
          call (iunlock (o_ip p) (advance f (fst r) s2)) (\<lambda>s3. Inr (r, s3))))
      | FD_NONE \<Rightarrow> Inl (Panic ''fileread'')))"

definition max_write :: nat where "max_write = ((MAXOPBLOCKS - 1 - 1 - 2) div 2) * 512"

text \<open>One pass of the loop of \<open>filewrite\<close>, with the outcome of its \<open>writei\<close>, and the loop; its
  truth value is \<open>i == n\<close>.\<close>

definition write_chunk :: "nat \<Rightarrow> string \<Rightarrow> 'a osys_scheme \<Rightarrow> (int \<times> 'a osys_scheme) kres" where
  "write_chunk f cs s =
     (let ip = o_ip (the_file s f) in
      call (begin_tx s) (\<lambda>s1.
      call (ilock ip s1) (\<lambda>s2.
      call (writei ip cs (o_off (the_file s2 f)) s2) (\<lambda>(r, s3).
      call (iunlock ip (advance f r s3)) (\<lambda>s4. Inr (r, end_tx s4))))))"

function write_chunks :: "nat \<Rightarrow> string \<Rightarrow> 'a osys_scheme \<Rightarrow> (bool \<times> 'a osys_scheme) kres" where
  "write_chunks f src s =
     (if src = [] then Inr (True, s)
      else let n1 = min (length src) max_write in
        call (write_chunk f (take n1 src) s) (\<lambda>r.
          if fst r < 0 then Inr (False, snd r)
          else if fst r \<noteq> int n1 then Inl (Panic ''short filewrite'')
          else write_chunks f (drop n1 src) (snd r)))"
  by pat_completeness auto
termination
  by (relation "measure (\<lambda>(f, src, s). length src)") (auto simp: max_write_def MAXOPBLOCKS_def)

declare write_chunks.simps [simp del]

definition filewrite :: "nat \<Rightarrow> string \<Rightarrow> 'a osys_scheme \<Rightarrow> (int \<times> 'a osys_scheme) kres" where
  "filewrite f src s =
     (let p = the_file s f in
      if \<not> o_writable p then Inr (- 1, s)
      else (case o_type p of
        FD_PIPE \<Rightarrow> pipewrite (o_pipe p) src s
      | FD_INODE \<Rightarrow>
          call (write_chunks f src s) (\<lambda>(all, s1). Inr (if all then int (length src) else - 1, s1))
      | FD_NONE \<Rightarrow> Inl (Panic ''filewrite'')))"

end
