(* ===== verification/Sysfile.thy ===== *)
theory Sysfile
  imports Files
begin

text \<open>
  The file-system calls (\<open>sysfile.c\<close>).  A call takes its arguments from the user memory of the state
  and returns what goes to the register of the caller.  A panic of \<open>ilock\<close> on a null pointer is that
  panic; any other use of a null inode pointer is \<open>Fault\<close>.
\<close>

section \<open>Descriptors\<close>

definition argfd :: "nat \<Rightarrow> 'a osys_scheme \<Rightarrow> (nat \<times> nat) option" where
  "argfd n s =
     (case argint n s of
        None \<Rightarrow> None
      | Some v \<Rightarrow>
          let fd = as_int v in
          if fd < 0 \<or> int NOFILE \<le> fd then None
          else map_option (Pair (nat fd)) (ofile s ! nat fd))"

definition set_fd :: "nat \<Rightarrow> nat option \<Rightarrow> 'a osys_scheme \<Rightarrow> 'a osys_scheme" where
  "set_fd fd f s = s\<lparr>ofile := (ofile s)[fd := f]\<rparr>"

definition fdalloc :: "nat \<Rightarrow> 'a osys_scheme \<Rightarrow> nat option \<times> 'a osys_scheme" where
  "fdalloc f s =
     (case find (\<lambda>fd. ofile s ! fd = None) [0..<NOFILE] of
        None \<Rightarrow> (None, s)
      | Some fd \<Rightarrow> (Some fd, set_fd fd (Some f) s))"

definition sys_dup :: "'a osys_scheme \<Rightarrow> (int \<times> 'a osys_scheme) kres" where
  "sys_dup s =
     (case argfd 0 s of
        None \<Rightarrow> Inr (- 1, s)
      | Some (_, f) \<Rightarrow>
          (case fdalloc f s of
             (None, s1) \<Rightarrow> Inr (- 1, s1)
           | (Some fd, s1) \<Rightarrow> call (filedup f s1) (\<lambda>s2. Inr (int fd, s2))))"

definition sys_read :: "'a osys_scheme \<Rightarrow> (int \<times> 'a osys_scheme) kres" where
  "sys_read s =
     (case (argfd 0 s, argint 2 s) of
        (Some (_, f), Some n) \<Rightarrow>
          (case argptr 1 (as_int n) s of
             None \<Rightarrow> Inr (- 1, s)
           | Some p \<Rightarrow> call (fileread f n s) (\<lambda>((r, cs), s1). Inr (r, s1\<lparr>umem := put_bytes p cs (umem s1)\<rparr>)))
      | _ \<Rightarrow> Inr (- 1, s))"

definition sys_write :: "'a osys_scheme \<Rightarrow> (int \<times> 'a osys_scheme) kres" where
  "sys_write s =
     (case (argfd 0 s, argint 2 s) of
        (Some (_, f), Some n) \<Rightarrow>
          (case argptr 1 (as_int n) s of
             None \<Rightarrow> Inr (- 1, s)
           | Some p \<Rightarrow> filewrite f (bytes_at p n (umem s)) s)
      | _ \<Rightarrow> Inr (- 1, s))"

definition sys_close :: "'a osys_scheme \<Rightarrow> (int \<times> 'a osys_scheme) kres" where
  "sys_close s =
     (case argfd 0 s of
        None \<Rightarrow> Inr (- 1, s)
      | Some (fd, f) \<Rightarrow> call (fileclose f (set_fd fd None s)) (\<lambda>s1. Inr (0, s1)))"

text \<open>\<open>struct stat\<close> in memory: 40 bytes, the owner from byte 20.\<close>

definition put_stat :: "nat \<Rightarrow> stat \<Rightarrow> bytes \<Rightarrow> bytes" where
  "put_stat a st m =
     put32 (a + 36) (st_permission st) (put_bytes (a + 20) (st_owner st) (put32 (a + 16) (st_size st)
       (put16 (a + 12) (st_nlink st) (put32 (a + 8) (st_ino st) (put32 (a + 4) (st_dev st) (put16 a (st_type st) m))))))"

definition sys_fstat :: "'a osys_scheme \<Rightarrow> (int \<times> 'a osys_scheme) kres" where
  "sys_fstat s =
     (case (argfd 0 s, argptr 1 40 s) of
        (Some (_, f), Some a) \<Rightarrow>
          call (filestat f (bytes_at (a + 20) 16 (umem s)) s) (\<lambda>(r, s1).
            case r of None \<Rightarrow> Inr (- 1, s1) | Some st \<Rightarrow> Inr (0, s1\<lparr>umem := put_stat a st (umem s1)\<rparr>))
      | _ \<Rightarrow> Inr (- 1, s))"

definition sys_pipe :: "'a osys_scheme \<Rightarrow> (int \<times> 'a osys_scheme) kres" where
  "sys_pipe s =
     (case argptr 0 8 s of
        None \<Rightarrow> Inr (- 1, s)
      | Some a \<Rightarrow>
          call (pipealloc s) (\<lambda>(p, s1).
            case p of
              None \<Rightarrow> Inr (- 1, s1)
            | Some (rd, wr) \<Rightarrow>
                (case fdalloc rd s1 of
                   (None, s2) \<Rightarrow> call (fileclose rd s2) (\<lambda>s3. call (fileclose wr s3) (\<lambda>s4. Inr (- 1, s4)))
                 | (Some fd0, s2) \<Rightarrow>
                     (case fdalloc wr s2 of
                        (None, s3) \<Rightarrow>
                          call (fileclose rd (set_fd fd0 None s3)) (\<lambda>s4. call (fileclose wr s4) (\<lambda>s5. Inr (- 1, s5)))
                      | (Some fd1, s3) \<Rightarrow> Inr (0, s3\<lparr>umem := put32 (a + 4) fd1 (put32 a fd0 (umem s3))\<rparr>)))))"

section \<open>Names\<close>

text \<open>A body between \<open>begin_op\<close> and \<open>end_op\<close>.\<close>

definition in_tx :: "('a fsys_scheme \<Rightarrow> ('b \<times> 'a fsys_scheme) kres) \<Rightarrow> 'a fsys_scheme \<Rightarrow> ('b \<times> 'a fsys_scheme) kres" where
  "in_tx f s = call (begin_tx s) (\<lambda>s1. call (f s1) (\<lambda>(r, s2). Inr (r, end_tx s2)))"

definition unlock_return :: "nat \<Rightarrow> 'b \<Rightarrow> 'a fsys_scheme \<Rightarrow> ('b \<times> 'a fsys_scheme) kres" where
  "unlock_return ip r s = call (iunlockput ip s) (\<lambda>s1. Inr (r, s1))"

definition add_nlink :: "nat \<Rightarrow> inode \<Rightarrow> inode" where
  "add_nlink d p = p\<lparr>i_nlink := (i_nlink p + d) mod 65536\<rparr>"

abbreviation dec_nlink :: "inode \<Rightarrow> inode" where "dec_nlink \<equiv> add_nlink 65535"

text \<open>\<open>short\<close> below one.\<close>

definition no_links :: "inode \<Rightarrow> bool" where "no_links p \<longleftrightarrow> i_nlink p = 0 \<or> 32768 \<le> i_nlink p"

definition link_bad :: "nat \<Rightarrow> 'a fsys_scheme \<Rightarrow> (int \<times> 'a fsys_scheme) kres" where
  "link_bad ip s =
     call (ilock ip s) (\<lambda>s1. call (iupdate ip (upd_ino ip dec_nlink s1)) (unlock_return ip (- 1)))"

definition do_link :: "string \<Rightarrow> string \<Rightarrow> 'a fsys_scheme \<Rightarrow> (int \<times> 'a fsys_scheme) kres" where
  "do_link old new s =
     call (namei old s) (\<lambda>(i, s1). case i of None \<Rightarrow> Inr (- 1, s1) | Some ip \<Rightarrow>
     call (ilock ip s1) (\<lambda>s2.
       if i_type (ino s2 ip) = T_DIR then unlock_return ip (- 1) s2
       else
         call (iupdate ip (upd_ino ip (add_nlink 1) s2)) (\<lambda>s3.
         call (iunlock ip s3) (\<lambda>s4.
         call (nameiparent new s4) (\<lambda>(d, s5). case d of None \<Rightarrow> link_bad ip s5 | Some (dp, name) \<Rightarrow>
         call (ilock dp s5) (\<lambda>s6.
         call (if i_dev (ino s6 dp) \<noteq> i_dev (ino s6 ip) then Inr (- 1, s6) else dirlink dp name (i_inum (ino s6 ip)) s6) (\<lambda>(r, s7).
         call (iunlockput dp s7) (\<lambda>s8.
           if r < 0 then link_bad ip s8 else call (iput ip s8) (\<lambda>s9. Inr (0, s9))))))))))"

definition sys_link :: "'a osys_scheme \<Rightarrow> (int \<times> 'a osys_scheme) kres" where
  "sys_link s =
     (case (argstr 0 s, argstr 1 s) of
        (Some old, Some new) \<Rightarrow> in_tx (do_link old new) s
      | _ \<Rightarrow> Inr (- 1, s))"

definition isdirempty :: "nat \<Rightarrow> 'a fsys_scheme \<Rightarrow> (bool \<times> 'a fsys_scheme) kres" where
  "isdirempty dp s =
     call (dir_scan ''isdirempty: readi'' (\<lambda>de. dirent_inum de \<noteq> 0) dp 32 s) (\<lambda>(r, s1). Inr (r = None, s1))"

text \<open>The entry at \<open>off\<close> of the directory is cleared and the inode loses its name.\<close>

definition remove_entry :: "nat \<Rightarrow> nat \<Rightarrow> nat \<Rightarrow> 'a fsys_scheme \<Rightarrow> 'a fsys_scheme kres" where
  "remove_entry dp ip off s =
     call (writei dp (replicate 16 NUL) off s) (\<lambda>(_, s1).
     call (if i_type (ino s1 ip) = T_DIR then iupdate dp (upd_ino dp dec_nlink s1) else Inr s1) (\<lambda>s2.
     call (iunlockput dp s2) (\<lambda>s3.
     call (iupdate ip (upd_ino ip dec_nlink s3)) (iunlockput ip))))"

definition do_unlink :: "string \<Rightarrow> 'a fsys_scheme \<Rightarrow> (int \<times> 'a fsys_scheme) kres" where
  "do_unlink path s =
     call (nameiparent path s) (\<lambda>(d, s1). case d of None \<Rightarrow> Inr (- 1, s1) | Some (dp, name) \<Rightarrow>
     call (ilock dp s1) (\<lambda>s2.
       if get_modeBit s2 dp MODE_WUSR MODE_WOTH = 0 then unlock_return dp (- 1) s2
       else if namecmp name ''.'' = 0 \<or> namecmp name ''..'' = 0 then unlock_return dp (- 1) s2
       else call (dirlookup dp name s2) (\<lambda>(i, s3). case i of None \<Rightarrow> unlock_return dp (- 1) s3 | Some (ip, off) \<Rightarrow>
         call (ilock ip s3) (\<lambda>s4.
           if no_links (ino s4 ip) then Inl (Panic ''unlink: nlink < 1'')
           else call (if i_type (ino s4 ip) = T_DIR then isdirempty ip s4 else Inr (True, s4)) (\<lambda>(e, s5).
             if \<not> e then call (iunlockput ip s5) (unlock_return dp (- 1))
             else call (remove_entry dp ip off s5) (\<lambda>s6. Inr (0, s6)))))))"

definition sys_unlink :: "'a osys_scheme \<Rightarrow> (int \<times> 'a osys_scheme) kres" where
  "sys_unlink s = (case argstr 0 s of None \<Rightarrow> Inr (- 1, s) | Some path \<Rightarrow> in_tx (do_unlink path) s)"

text \<open>The inode that \<open>create\<close> makes, locked, when the name is free.\<close>

definition make_inode :: "nat \<Rightarrow> string \<Rightarrow> nat \<Rightarrow> nat \<Rightarrow> nat \<Rightarrow> 'a fsys_scheme \<Rightarrow> (nat \<times> 'a fsys_scheme) kres" where
  "make_inode dp name type major minor s =
     call (ialloc (i_dev (ino s dp)) type s) (\<lambda>(ip, s1).
     call (ilock ip s1) (\<lambda>s2.
     call (iupdate ip (upd_ino ip (\<lambda>p. p\<lparr>i_major := major, i_minor := minor, i_nlink := 1\<rparr>) s2)) (\<lambda>s3.
     call (if type = T_DIR then
         call (iupdate dp (upd_ino dp (add_nlink 1) s3)) (\<lambda>s4.
         call (dirlink ip ''.'' (i_inum (ino s4 ip)) s4) (\<lambda>(r, s5).
         call (if r < 0 then Inr (r, s5) else dirlink ip ''..'' (i_inum (ino s5 dp)) s5) (\<lambda>(r, s6).
           if r < 0 then Inl (Panic ''create dots'') else Inr s6)))
       else Inr s3) (\<lambda>s7.
     call (dirlink dp name (i_inum (ino s7 ip)) s7) (\<lambda>(r, s8).
       if r < 0 then Inl (Panic ''create: dirlink'')
       else call (iunlockput dp s8) (\<lambda>s9. Inr (ip, s9)))))))"

definition create :: "string \<Rightarrow> nat \<Rightarrow> nat \<Rightarrow> nat \<Rightarrow> 'a fsys_scheme \<Rightarrow> (nat option \<times> 'a fsys_scheme) kres" where
  "create path type major minor s =
     call (nameiparent path s) (\<lambda>(d, s1). case d of None \<Rightarrow> Inr (None, s1) | Some (dp, name) \<Rightarrow>
     call (ilock dp s1) (\<lambda>s2.
     call (dirlookup dp name s2) (\<lambda>(i, s3). case i of
       Some (ip, _) \<Rightarrow>
         call (iunlockput dp s3) (\<lambda>s4.
         call (ilock ip s4) (\<lambda>s5.
           if type = T_FILE \<and> i_type (ino s5 ip) = T_FILE then
             (if get_modeBit s5 ip MODE_WUSR MODE_WOTH \<noteq> 1 then unlock_return ip None s5 else Inr (Some ip, s5))
           else unlock_return ip None s5))
     | None \<Rightarrow>
         if get_modeBit s3 dp MODE_WUSR MODE_WOTH \<noteq> 1 then unlock_return dp None s3
         else call (make_inode dp name type major minor s3) (\<lambda>(ip, s4). Inr (Some ip, s4)))))"

text \<open>The owner of an inode is set to the name of a user, its permission to the bits.\<close>

definition own :: "string \<Rightarrow> nat \<Rightarrow> inode \<Rightarrow> inode" where
  "own name bits p = p\<lparr>i_owner := strncpy (i_owner p) name 16, i_permission := bits\<rparr>"

section \<open>Opening\<close>

text \<open>The inode that \<open>sys_open\<close> goes on with, locked.\<close>

definition open_inode :: "string \<Rightarrow> nat \<Rightarrow> 'a fsys_scheme \<Rightarrow> (nat option \<times> 'a fsys_scheme) kres" where
  "open_inode path omode s =
     (if omode AND O_CREATE \<noteq> 0 then
        call (create path T_FILE 0 0 s) (\<lambda>(i, s1). case i of None \<Rightarrow> Inr (None, s1) | Some ip \<Rightarrow>
          call (iupdate ip (upd_ino ip (own (get_now s1) (MODE_RUSR OR MODE_WUSR OR MODE_ROTH)) s1)) (\<lambda>s2. Inr (Some ip, s2)))
      else
        call (namei path s) (\<lambda>(i, s1). case i of None \<Rightarrow> Inr (None, s1) | Some ip \<Rightarrow>
        call (ilock ip s1) (\<lambda>s2.
          if i_type (ino s2 ip) = T_DIR \<and> omode \<noteq> O_RDONLY then unlock_return ip None s2 else Inr (Some ip, s2))))"

definition open_allowed :: "nat \<Rightarrow> nat \<Rightarrow> 'a fsys_scheme \<Rightarrow> bool" where
  "open_allowed ip omode s \<longleftrightarrow>
     (omode = O_WRONLY \<or> omode = O_RDWR \<longrightarrow> get_modeBit s ip MODE_WUSR MODE_WOTH \<noteq> 0) \<and>
     (omode = O_RDONLY \<or> omode = O_RDWR \<longrightarrow> get_modeBit s ip MODE_RUSR MODE_ROTH \<noteq> 0)"

definition open_fields :: "nat \<Rightarrow> nat \<Rightarrow> open_file \<Rightarrow> open_file" where
  "open_fields ip omode p = p\<lparr>o_type := FD_INODE, o_ip := ip, o_off := 0,
     o_readable := (omode AND O_WRONLY = 0), o_writable := (omode AND O_WRONLY \<noteq> 0 \<or> omode AND O_RDWR \<noteq> 0)\<rparr>"

definition sys_open :: "'a osys_scheme \<Rightarrow> (int \<times> 'a osys_scheme) kres" where
  "sys_open s =
     (case (argstr 0 s, argint 1 s) of
        (Some path, Some omode) \<Rightarrow>
          call (begin_tx s) (\<lambda>s1.
          call (open_inode path omode s1) (\<lambda>(i, s2). case i of None \<Rightarrow> Inr (- 1, end_tx s2) | Some ip \<Rightarrow>
            if \<not> open_allowed ip omode s2 then call (iunlockput ip s2) (\<lambda>s3. Inr (- 1, end_tx s3))
            else (case filealloc s2 of
              (None, s3) \<Rightarrow> call (iunlockput ip s3) (\<lambda>s4. Inr (- 1, end_tx s4))
            | (Some f, s3) \<Rightarrow>
                (case fdalloc f s3 of
                   (None, s4) \<Rightarrow> call (fileclose f s4) (\<lambda>s5. call (iunlockput ip s5) (\<lambda>s6. Inr (- 1, end_tx s6)))
                 | (Some fd, s4) \<Rightarrow>
                     call (iunlock ip s4) (\<lambda>s5. Inr (int fd, upd_file f (open_fields ip omode) (end_tx s5)))))))
      | _ \<Rightarrow> Inr (- 1, s))"

definition make_dir :: "string option \<Rightarrow> 'a fsys_scheme \<Rightarrow> (int \<times> 'a fsys_scheme) kres" where
  "make_dir path s =
     (case path of None \<Rightarrow> Inr (- 1, s) | Some path \<Rightarrow>
      call (create path T_DIR 0 0 s) (\<lambda>(i, s1). case i of None \<Rightarrow> Inr (- 1, s1) | Some ip \<Rightarrow>
      call (iupdate ip (upd_ino ip (own (get_now s1) (MODE_RUSR OR MODE_WUSR OR MODE_XUSR OR MODE_ROTH OR MODE_XOTH)) s1))
        (unlock_return ip 0)))"

definition sys_mkdir :: "'a osys_scheme \<Rightarrow> (int \<times> 'a osys_scheme) kres" where
  "sys_mkdir s = in_tx (make_dir (argstr 0 s)) s"

definition make_node :: "string option \<Rightarrow> nat option \<Rightarrow> nat option \<Rightarrow> 'a fsys_scheme \<Rightarrow> (int \<times> 'a fsys_scheme) kres" where
  "make_node path major minor s =
     (case (path, major, minor) of
        (Some path, Some major, Some minor) \<Rightarrow>
          call (create path T_DEV (major mod 65536) (minor mod 65536) s) (\<lambda>(i, s1). case i of None \<Rightarrow> Inr (- 1, s1) | Some ip \<Rightarrow>
          call (iupdate ip (upd_ino ip (\<lambda>p. p\<lparr>i_permission := MODE_RUSR OR MODE_WUSR OR MODE_XUSR OR MODE_ROTH OR MODE_WOTH OR MODE_XOTH\<rparr>) s1))
            (unlock_return ip 0))
      | _ \<Rightarrow> Inr (- 1, s))"

definition sys_mknod :: "'a osys_scheme \<Rightarrow> (int \<times> 'a osys_scheme) kres" where
  "sys_mknod s = in_tx (make_node (argstr 0 s) (argint 1 s) (argint 2 s)) s"

text \<open>\<open>sys_chdir\<close> up to \<open>end_op\<close>, with the new directory.\<close>

definition change_dir :: "string option \<Rightarrow> 'a fsys_scheme \<Rightarrow> (nat option \<times> 'a fsys_scheme) kres" where
  "change_dir path s =
     (case path of None \<Rightarrow> Inr (None, s) | Some path \<Rightarrow>
      call (namei path s) (\<lambda>(i, s1). case i of None \<Rightarrow> Inr (None, s1) | Some ip \<Rightarrow>
      call (ilock ip s1) (\<lambda>s2.
        if i_type (ino s2 ip) \<noteq> T_DIR then unlock_return ip None s2
        else if get_modeBit s2 ip MODE_XUSR MODE_XOTH \<noteq> 1 then unlock_return ip None s2
        else call (iunlock ip s2) (\<lambda>s3. call (iput (cwd s3) s3) (\<lambda>s4. Inr (Some ip, s4))))))"

definition sys_chdir :: "'a osys_scheme \<Rightarrow> (int \<times> 'a osys_scheme) kres" where
  "sys_chdir s =
     call (in_tx (change_dir (argstr 0 s)) s) (\<lambda>(r, s1).
       case r of None \<Rightarrow> Inr (- 1, s1) | Some ip \<Rightarrow> Inr (0, s1\<lparr>cwd := ip\<rparr>))"

section \<open>Users\<close>

text \<open>The inode of \<open>/userS\<close>, made when there is none, and put once more than it was got then.\<close>

definition find_userS :: "'a fsys_scheme \<Rightarrow> (nat \<times> 'a fsys_scheme) kres" where
  "find_userS s =
     call (namei ''/userS'' s) (\<lambda>(i, s1). case i of
       Some u \<Rightarrow> Inr (u, s1)
     | None \<Rightarrow>
         call (create ''/userS'' T_FILE 0 0 s1) (\<lambda>(i, s2). case i of None \<Rightarrow> Inl Fault | Some u \<Rightarrow>
         call (iupdate u (upd_ino u (own ''root'' (MODE_RUSR OR MODE_WUSR)) s2)) (unlock_return u u)))"

definition load_users :: "'a fsys_scheme \<Rightarrow> (unit \<times> 'a fsys_scheme) kres" where
  "load_users s =
     call (namei ''/userS'' s) (\<lambda>(i, s1). case i of None \<Rightarrow> Inl (Panic ''ilock'') | Some u \<Rightarrow>
     call (ilock u s1) (\<lambda>s2.
     call (myopen (give_userS u s2)) (\<lambda>s3.
     call (iupdate u s3) (unlock_return u ()))))"

definition make_tmp :: "'a fsys_scheme \<Rightarrow> (unit \<times> 'a fsys_scheme) kres" where
  "make_tmp s =
     call (create ''tmp'' T_DIR 0 0 s) (\<lambda>(i, s1). case i of None \<Rightarrow> Inl Fault | Some ip \<Rightarrow>
     call (iupdate ip s1) (unlock_return ip ()))"

definition remove_tmp :: "'a fsys_scheme \<Rightarrow> (int \<times> 'a fsys_scheme) kres" where
  "remove_tmp s =
     call (nameiparent ''tmp'' s) (\<lambda>(d, s1). case d of None \<Rightarrow> Inr (- 1, s1) | Some (dp, name) \<Rightarrow>
     call (ilock dp s1) (\<lambda>s2.
     call (dirlookup dp name s2) (\<lambda>(i, s3). case i of None \<Rightarrow> unlock_return dp (- 1) s3 | Some (ip, off) \<Rightarrow>
     call (ilock ip s3) (\<lambda>s4.
       if no_links (ino s4 ip) then Inl (Panic ''nlink size is low'')
       else call (if i_type (ino s4 ip) = T_DIR then isdirempty ip s4 else Inr (True, s4)) (\<lambda>(e, s5).
         if \<not> e then unlock_return dp (- 1) s5
         else call (writei dp (replicate 16 NUL) off s5) (\<lambda>(n, s6).
           if n \<noteq> 16 then Inl (Panic ''unlink writei'')
           else
             call (if i_type (ino s6 ip) = T_DIR then iupdate dp (upd_ino dp dec_nlink s6) else Inr s6) (\<lambda>s7.
             call (iupdate ip (upd_ino ip dec_nlink s7)) (\<lambda>s8.
             call (iunlockput dp s8) (\<lambda>s9.
             call (iupdate ip (upd_ino ip dec_nlink s9)) (unlock_return ip 0))))))))))"

definition sys_myopen :: "'a osys_scheme \<Rightarrow> (int \<times> 'a osys_scheme) kres" where
  "sys_myopen s =
     call (in_tx (\<lambda>s. call (find_userS s) (\<lambda>(u, s). call (iput u s) (\<lambda>s. Inr ((), s)))) s) (\<lambda>(_, s1).
     call (in_tx load_users s1) (\<lambda>(_, s2).
     call (in_tx make_tmp s2) (\<lambda>(_, s3).
     in_tx remove_tmp s3)))"

text \<open>The home directory of a new user.\<close>

definition make_home :: "string \<Rightarrow> 'a fsys_scheme \<Rightarrow> (int \<times> 'a fsys_scheme) kres" where
  "make_home username s =
     call (namei username s) (\<lambda>(i, s1). case i of
       Some ip \<Rightarrow> call (iput ip s1) (\<lambda>s2. Inr (0, s2))
     | None \<Rightarrow>
         call (create username T_DIR 0 0 s1) (\<lambda>(i, s2). case i of None \<Rightarrow> Inl Fault | Some ip \<Rightarrow>
         call (iupdate ip (upd_ino ip (own username (MODE_RUSR OR MODE_WUSR OR MODE_XUSR OR MODE_ROTH OR MODE_XOTH)) s2))
           (unlock_return ip 0)))"

definition open_userS :: "'a fsys_scheme \<Rightarrow> (nat option \<times> 'a fsys_scheme) kres" where
  "open_userS s =
     call (namei ''/userS'' s) (\<lambda>(i, s1). case i of None \<Rightarrow> Inr (None, s1) | Some u \<Rightarrow>
     call (ilock u s1) (\<lambda>s2. call (iunlock u s2) (\<lambda>s3. Inr (Some u, s3))))"

definition enter_user :: "nat \<Rightarrow> string \<Rightarrow> string \<Rightarrow> 'a fsys_scheme \<Rightarrow> (int \<times> 'a fsys_scheme) kres" where
  "enter_user u username password s =
     call (ilock u s) (\<lambda>s1.
     call (addUser username password (give_userS u s1)) (\<lambda>(r, s2).
     call (iupdate u s2) (unlock_return u r)))"

definition sys_addUser :: "'a osys_scheme \<Rightarrow> (int \<times> 'a osys_scheme) kres" where
  "sys_addUser s =
     (if strncmp ''root'' (get_now s) 16 \<noteq> 0 then Inr (- 1, s)
      else (case (argstr 0 s, argstr 1 s) of
        (Some username, Some password) \<Rightarrow>
          call (in_tx open_userS s) (\<lambda>(i, s1). case i of None \<Rightarrow> Inr (- 1, s1) | Some u \<Rightarrow>
          call (in_tx (enter_user u username password) s1) (\<lambda>(r, s2).
            if r \<noteq> 0 then Inr (- 1, s2) else in_tx (make_home username) s2))
      | _ \<Rightarrow> Inr (- 1, s)))"

definition erase_user :: "nat option \<Rightarrow> string \<Rightarrow> 'a fsys_scheme \<Rightarrow> (int \<times> 'a fsys_scheme) kres" where
  "erase_user i username s =
     (case i of None \<Rightarrow> Inl (Panic ''ilock'') | Some u \<Rightarrow>
      call (ilock u s) (\<lambda>s1.
      call (deleteUser username (give_userS u s1)) (\<lambda>(r, s2).
      call (iupdate u s2) (\<lambda>s3.
      call (iunlock u s3) (\<lambda>s4. Inr (if r \<noteq> 0 then - 1 else 0, s4))))))"

definition sys_deleteUser :: "'a osys_scheme \<Rightarrow> (int \<times> 'a osys_scheme) kres" where
  "sys_deleteUser s =
     (if strncmp ''root'' (get_now s) 16 \<noteq> 0 then Inr (- 1, s)
      else (case argstr 0 s of
        None \<Rightarrow> Inr (- 1, s)
      | Some username \<Rightarrow>
          call (in_tx (namei ''/userS'') s) (\<lambda>(i, s1). in_tx (erase_user i username) s1)))"

definition sys_login :: "'a osys_scheme \<Rightarrow> (int \<times> 'a osys_scheme) kres" where
  "sys_login s =
     (case (argstr 0 s, argstr 1 s) of
        (Some i, Some p) \<Rightarrow> Inr (login i p s)
      | _ \<Rightarrow> Inr (- 1, s))"

definition sys_logout :: "'a osys_scheme \<Rightarrow> (int \<times> 'a osys_scheme) kres" where
  "sys_logout s = Inr (logout s)"

text \<open>The second test of \<open>sys_chmod\<close> repeats the first and is never reached.\<close>

definition change_mode :: "string \<Rightarrow> nat \<Rightarrow> 'a fsys_scheme \<Rightarrow> (int \<times> 'a fsys_scheme) kres" where
  "change_mode path mode s =
     call (namei path s) (\<lambda>(i, s1). case i of None \<Rightarrow> Inr (- 1, s1) | Some ip \<Rightarrow>
     call (ilock ip s1) (\<lambda>s2.
       if strncmp (i_owner (ino s2 ip)) (get_now s2) 16 \<noteq> 0 \<and> strncmp ''root'' (get_now s2) 16 \<noteq> 0
       then unlock_return ip (- 1) s2
       else call (iupdate ip (upd_ino ip (i_permission_update (\<lambda>_. mode)) s2)) (unlock_return ip 0)))"

definition sys_chmod :: "'a osys_scheme \<Rightarrow> (int \<times> 'a osys_scheme) kres" where
  "sys_chmod s =
     (case (argstr 0 s, argint 1 s) of
        (Some path, Some mode) \<Rightarrow> in_tx (change_mode path mode) s
      | _ \<Rightarrow> Inr (- 1, s))"

end
