(* ===== verification/Descriptors.thy ===== *)
theory Descriptors
  imports Sysfile Frame
begin

text \<open>
  The calls on names change neither the descriptors of the process nor the table of open files, but
  for the descriptor that \<open>sys_open\<close> hands out.
\<close>

section \<open>The calls on names\<close>

definition fd_tables :: "'a osys_scheme \<Rightarrow> open_file list \<times> nat option list" where
  "fd_tables s = (ftable s, ofile s)"

lemma tables_updates [simp]:
  "fd_tables (blk_update b s) = fd_tables s" "fd_tables (tx_blocks_update g s) = fd_tables s" "fd_tables (icache_update h s) = fd_tables s"
  "fd_tables (cons_update k s) = fd_tables s" "fd_tables (tx_open_update n s) = fd_tables s" "fd_tables (priv_update p s) = fd_tables s"
  "fd_tables (user_num_update u s) = fd_tables s" "fd_tables (using_idx_update i s) = fd_tables s" "fd_tables (initial_update a s) = fd_tables s"
  "fd_tables (userS_update v s) = fd_tables s" "fd_tables (cwd_update w s) = fd_tables s" "fd_tables (umem_update m s) = fd_tables s"
  "fd_tables (esp_update e s) = fd_tables s" "fd_tables (pipes_update q s) = fd_tables s" "fd_tables (free_pages_update l s) = fd_tables s"
  by (simp_all add: fd_tables_def)

interpretation fd: untouched "fd_tables :: 'a osys_scheme \<Rightarrow> _"
  by unfold_locales simp_all

lemma tables_end_tx [simp]: "fd_tables (end_tx s) = fd_tables s"
  by (simp add: end_tx_def)

lemma tables_give_userS [simp]: "fd_tables (give_userS u s) = fd_tables s"
  by (simp add: give_userS_def)

lemma tables_begin_tx: "begin_tx s = Inr t \<Longrightarrow> fd_tables t = fd_tables s"
  by (auto simp: begin_tx_def split: if_splits)

lemma tables_in_tx:
  assumes "in_tx f s = Inr r" "\<And>u r. f u = Inr r \<Longrightarrow> fd_tables (snd r) = fd_tables u"
  shows "fd_tables (snd r) = fd_tables s"
proof -
  obtain s1 x s2 where s1: "begin_tx s = Inr s1" and f: "f s1 = Inr (x, s2)" and r: "r = (x, end_tx s2)"
    using assms(1) by (auto simp: in_tx_def call_eq_Inr)
  show ?thesis using tables_begin_tx [OF s1] assms(2) [OF f] by (simp add: r)
qed

lemma tables_unlock_return: "unlock_return ip r s = Inr x \<Longrightarrow> fd_tables (snd x) = fd_tables s"
  by (auto simp: unlock_return_def call_eq_Inr dest!: fd.iunlockput)

lemmas fd_basic = fd.ilock fd.iunlock fd.iunlockput fd.iupdate fd.iput fd.namei fd.nameiparent fd.dirlookup fd.dirlink
  fd.writei fd.readi fd.dir_scan fd.ialloc tables_unlock_return

lemma tables_link_bad: "link_bad ip s = Inr r \<Longrightarrow> fd_tables (snd r) = fd_tables s"
  by (auto simp: link_bad_def call_eq_Inr dest!: fd_basic)

lemma tables_do_link: "do_link old new s = Inr r \<Longrightarrow> fd_tables (snd r) = fd_tables s"
  unfolding do_link_def
  by (auto simp: call_eq_Inr split: option.split_asm if_split_asm prod.split_asm dest!: fd_basic tables_link_bad)

lemma tables_isdirempty: "isdirempty dp s = Inr r \<Longrightarrow> fd_tables (snd r) = fd_tables s"
  by (auto simp: isdirempty_def call_eq_Inr dest!: fd_basic)

lemma tables_remove_entry: "remove_entry dp ip off s = Inr t \<Longrightarrow> fd_tables t = fd_tables s"
  by (auto simp: remove_entry_def call_eq_Inr split: if_split_asm dest!: fd_basic)

lemma tables_do_unlink: "do_unlink path s = Inr r \<Longrightarrow> fd_tables (snd r) = fd_tables s"
  unfolding do_unlink_def
  by (auto simp: call_eq_Inr split: option.split_asm if_split_asm prod.split_asm
      dest!: fd_basic tables_isdirempty tables_remove_entry)

lemma tables_make_inode: "make_inode dp name ty ma mi s = Inr r \<Longrightarrow> fd_tables (snd r) = fd_tables s"
  unfolding make_inode_def by (auto simp: call_eq_Inr split: if_split_asm dest!: fd_basic)

lemma tables_create: "create path ty ma mi s = Inr r \<Longrightarrow> fd_tables (snd r) = fd_tables s"
  unfolding create_def
  by (auto simp: call_eq_Inr split: option.split_asm if_split_asm prod.split_asm dest!: fd_basic tables_make_inode)

lemma tables_open_inode: "open_inode path om s = Inr r \<Longrightarrow> fd_tables (snd r) = fd_tables s"
  unfolding open_inode_def
  by (auto simp: call_eq_Inr split: option.split_asm if_split_asm dest!: fd_basic tables_create)

lemma tables_make_dir: "make_dir path s = Inr r \<Longrightarrow> fd_tables (snd r) = fd_tables s"
  unfolding make_dir_def by (auto simp: call_eq_Inr split: option.split_asm dest!: fd_basic tables_create)

lemma tables_make_node: "make_node path ma mi s = Inr r \<Longrightarrow> fd_tables (snd r) = fd_tables s"
  unfolding make_node_def by (auto simp: call_eq_Inr split: option.split_asm dest!: fd_basic tables_create)

lemma tables_change_dir: "change_dir path s = Inr r \<Longrightarrow> fd_tables (snd r) = fd_tables s"
  unfolding change_dir_def by (auto simp: call_eq_Inr split: option.split_asm if_split_asm dest!: fd_basic)

lemma tables_find_userS: "find_userS s = Inr r \<Longrightarrow> fd_tables (snd r) = fd_tables s"
  unfolding find_userS_def by (auto simp: call_eq_Inr split: option.split_asm dest!: fd_basic tables_create)

lemma tables_update:
  fixes s :: "'a osys_scheme"
  assumes "update u s = Inr t"
  shows "fd_tables t = fd_tables s"
proof -
  have "fd_tables t = fd_tables s" if "update_from u idx ed s = Inr t" for idx ed and s :: "'a osys_scheme"
    using that
  proof (induction u idx ed s rule: update_from.induct)
    case (1 u idx ed s)
    show ?case
    proof (cases "idx < ed")
      case True
      then obtain r where r: "writei u (bytes_at idx 374 (priv s)) idx s = Inr r"
        using 1(2) by (subst (asm) update_from.simps) (auto simp: Let_def call_eq_Inr)
      show ?thesis
        using 1(1) [OF True refl r] 1(2) True fd.writei [OF r]
        by (subst (asm) (2) update_from.simps) (auto simp: Let_def r split: if_splits)
    qed (use 1(2) in \<open>simp add: update_from.simps [of u idx ed s]\<close>)
  qed
  then show ?thesis using assms by (simp add: update_def)
qed

lemma tables_myopen: "myopen s = Inr t \<Longrightarrow> fd_tables t = fd_tables s"
  by (auto simp: myopen_def with_userS_def call_eq_Inr Let_def split: option.split_asm if_split_asm dest!: fd_basic tables_update)

lemma tables_addUser: "addUser u p s = Inr r \<Longrightarrow> fd_tables (snd r) = fd_tables s"
  by (auto simp: addUser_def with_userS_def call_eq_Inr split: option.split_asm if_split_asm dest!: tables_update)

lemma tables_deleteUser: "deleteUser u s = Inr r \<Longrightarrow> fd_tables (snd r) = fd_tables s"
  by (auto simp: deleteUser_def with_userS_def call_eq_Inr split: option.split_asm if_split_asm dest!: tables_update)

lemma tables_load_users: "load_users s = Inr r \<Longrightarrow> fd_tables (snd r) = fd_tables s"
  unfolding load_users_def by (auto simp: call_eq_Inr split: option.split_asm dest!: fd_basic tables_myopen)

lemma tables_make_tmp: "make_tmp s = Inr r \<Longrightarrow> fd_tables (snd r) = fd_tables s"
  unfolding make_tmp_def by (auto simp: call_eq_Inr split: option.split_asm dest!: fd_basic tables_create)

lemma tables_remove_tmp: "remove_tmp s = Inr r \<Longrightarrow> fd_tables (snd r) = fd_tables s"
  unfolding remove_tmp_def
  by (auto simp: call_eq_Inr split: option.split_asm if_split_asm prod.split_asm dest!: fd_basic tables_isdirempty)

lemma tables_make_home: "make_home u s = Inr r \<Longrightarrow> fd_tables (snd r) = fd_tables s"
  unfolding make_home_def by (auto simp: call_eq_Inr split: option.split_asm dest!: fd_basic tables_create)

lemma tables_open_userS: "open_userS s = Inr r \<Longrightarrow> fd_tables (snd r) = fd_tables s"
  unfolding open_userS_def by (auto simp: call_eq_Inr split: option.split_asm dest!: fd_basic)

lemma tables_enter_user: "enter_user i u p s = Inr r \<Longrightarrow> fd_tables (snd r) = fd_tables s"
  unfolding enter_user_def by (auto simp: call_eq_Inr dest!: fd_basic tables_addUser)

lemma tables_erase_user: "erase_user i u s = Inr r \<Longrightarrow> fd_tables (snd r) = fd_tables s"
  unfolding erase_user_def by (auto simp: call_eq_Inr split: option.split_asm dest!: fd_basic tables_deleteUser)

lemma tables_change_mode: "change_mode path mode s = Inr r \<Longrightarrow> fd_tables (snd r) = fd_tables s"
  unfolding change_mode_def by (auto simp: call_eq_Inr split: option.split_asm if_split_asm dest!: fd_basic)

lemma tables_login: "fd_tables (snd (login u p s)) = fd_tables s"
  by (auto simp: login_def split: option.split)

text \<open>All of them.\<close>

definition name_calls :: "('a osys_scheme \<Rightarrow> (int \<times> 'a osys_scheme) kres) list" where
  "name_calls = [sys_link, sys_unlink, sys_mkdir, sys_mknod, sys_chdir, sys_myopen, sys_addUser, sys_deleteUser,
     sys_login, sys_logout, sys_chmod]"

lemma tables_txs:
  "in_tx (do_link old new) s = Inr r0 \<Longrightarrow> fd_tables (snd r0) = fd_tables s"
  "in_tx (do_unlink path) s = Inr r1 \<Longrightarrow> fd_tables (snd r1) = fd_tables s"
  "in_tx (make_dir po) s = Inr r2 \<Longrightarrow> fd_tables (snd r2) = fd_tables s"
  "in_tx (make_node po ma mi) s = Inr r3 \<Longrightarrow> fd_tables (snd r3) = fd_tables s"
  "in_tx (change_dir po) s = Inr r4 \<Longrightarrow> fd_tables (snd r4) = fd_tables s"
  "in_tx (load_users) s = Inr r5 \<Longrightarrow> fd_tables (snd r5) = fd_tables s"
  "in_tx (make_tmp) s = Inr r6 \<Longrightarrow> fd_tables (snd r6) = fd_tables s"
  "in_tx (remove_tmp) s = Inr r7 \<Longrightarrow> fd_tables (snd r7) = fd_tables s"
  "in_tx (make_home u) s = Inr r8 \<Longrightarrow> fd_tables (snd r8) = fd_tables s"
  "in_tx (open_userS) s = Inr r9 \<Longrightarrow> fd_tables (snd r9) = fd_tables s"
  "in_tx (enter_user i u p) s = Inr r10 \<Longrightarrow> fd_tables (snd r10) = fd_tables s"
  "in_tx (erase_user v u) s = Inr r11 \<Longrightarrow> fd_tables (snd r11) = fd_tables s"
  "in_tx (change_mode path mode) s = Inr r12 \<Longrightarrow> fd_tables (snd r12) = fd_tables s"
  "in_tx (namei path) s = Inr r13 \<Longrightarrow> fd_tables (snd r13) = fd_tables s"
  by (erule tables_in_tx, erule tables_do_link
     | erule tables_in_tx, erule tables_do_unlink
     | erule tables_in_tx, erule tables_make_dir
     | erule tables_in_tx, erule tables_make_node
     | erule tables_in_tx, erule tables_change_dir
     | erule tables_in_tx, erule tables_load_users
     | erule tables_in_tx, erule tables_make_tmp
     | erule tables_in_tx, erule tables_remove_tmp
     | erule tables_in_tx, erule tables_make_home
     | erule tables_in_tx, erule tables_open_userS
     | erule tables_in_tx, erule tables_enter_user
     | erule tables_in_tx, erule tables_erase_user
     | erule tables_in_tx, erule tables_change_mode
     | erule tables_in_tx, erule fd.namei)+

lemma tables_myopen_first:
  "call (find_userS s) (\<lambda>(u, s). call (iput u s) (\<lambda>s. Inr ((), s))) = Inr r \<Longrightarrow> fd_tables (snd r) = fd_tables s"
  by (auto simp: call_eq_Inr dest!: tables_find_userS fd.iput)

lemma tables_first_tx:
  "in_tx (\<lambda>s. call (find_userS s) (\<lambda>(u, s). call (iput u s) (\<lambda>s. Inr ((), s)))) s = Inr r \<Longrightarrow> fd_tables (snd r) = fd_tables s"
  by (erule tables_in_tx, erule tables_myopen_first)

lemma tables_sys_myopen: "sys_myopen s = Inr r \<Longrightarrow> fd_tables (snd r) = fd_tables s"
  unfolding sys_myopen_def
  by (auto simp: call_eq_Inr dest!: tables_first_tx tables_txs)

lemma tables_name_calls: "f \<in> set name_calls \<Longrightarrow> f s = Inr r \<Longrightarrow> fd_tables (snd r) = fd_tables s"
proof -
  have "sys_link s = Inr r \<Longrightarrow> fd_tables (snd r) = fd_tables s"
    by (auto simp: sys_link_def split: option.split_asm dest!: tables_txs)
  moreover have "sys_unlink s = Inr r \<Longrightarrow> fd_tables (snd r) = fd_tables s"
    by (auto simp: sys_unlink_def split: option.split_asm dest!: tables_txs)
  moreover have "sys_mkdir s = Inr r \<Longrightarrow> fd_tables (snd r) = fd_tables s"
    by (auto simp: sys_mkdir_def dest!: tables_txs)
  moreover have "sys_mknod s = Inr r \<Longrightarrow> fd_tables (snd r) = fd_tables s"
    by (auto simp: sys_mknod_def dest!: tables_txs)
  moreover have "sys_chdir s = Inr r \<Longrightarrow> fd_tables (snd r) = fd_tables s"
    by (auto simp: sys_chdir_def call_eq_Inr split: option.split_asm dest!: tables_txs)
  moreover have "sys_addUser s = Inr r \<Longrightarrow> fd_tables (snd r) = fd_tables s"
    by (auto simp: sys_addUser_def call_eq_Inr split: option.split_asm if_split_asm dest!: tables_txs)
  moreover have "sys_deleteUser s = Inr r \<Longrightarrow> fd_tables (snd r) = fd_tables s"
    by (auto simp: sys_deleteUser_def call_eq_Inr split: option.split_asm if_split_asm dest!: tables_txs)
  moreover have "sys_login s = Inr r \<Longrightarrow> fd_tables (snd r) = fd_tables s"
    by (auto simp: sys_login_def tables_login split: option.split_asm)
  moreover have "sys_logout s = Inr r \<Longrightarrow> fd_tables (snd r) = fd_tables s"
    by (auto simp: sys_logout_def logout_def)
  moreover have "sys_chmod s = Inr r \<Longrightarrow> fd_tables (snd r) = fd_tables s"
    by (auto simp: sys_chmod_def split: option.split_asm dest!: tables_txs)
  ultimately show "f \<in> set name_calls \<Longrightarrow> f s = Inr r \<Longrightarrow> fd_tables (snd r) = fd_tables s"
    using tables_sys_myopen [of s r] by (auto simp: name_calls_def)
qed

end
