(* ===== verification/Refcounts.thy ===== *)
theory Refcounts
  imports Descriptors Fs_Content
begin

text \<open>
  The reference counts of open files: every call keeps the count of an open file equal to the number
  of descriptors that name it and the references held elsewhere.
\<close>

section \<open>Counting references\<close>

text \<open>The count of an open file is the number of descriptors that name it and the references \<open>w\<close> held
  elsewhere, by other processes or by a call in progress; a file with no reference has no type.\<close>

definition refs :: "'a osys_scheme \<Rightarrow> (int \<times> file_type) list" where
  "refs s = map (\<lambda>p. (o_ref p, o_type p)) (ftable s)"

definition counted :: "(nat \<Rightarrow> int) \<Rightarrow> (int \<times> file_type) list \<Rightarrow> nat option list \<Rightarrow> bool" where
  "counted w rs fds \<longleftrightarrow> length rs = NFILE \<and> length fds = NOFILE \<and> (\<forall>f. Some f \<in> set fds \<longrightarrow> f < NFILE) \<and>
     (\<forall>f < NFILE. fst (rs ! f) = int (count_list fds (Some f)) + w f \<and> (fst (rs ! f) = 0 \<longrightarrow> snd (rs ! f) = FD_NONE))"

definition files_ok :: "(nat \<Rightarrow> int) \<Rightarrow> 'a osys_scheme \<Rightarrow> bool" where
  "files_ok w s \<longleftrightarrow> counted w (refs s) (ofile s)"

lemma count_list_update:
  "i < length xs \<Longrightarrow> int (count_list (xs[i := y]) x) = int (count_list xs x) - of_bool (xs ! i = x) + of_bool (y = x)"
proof (induction xs arbitrary: i)
  case (Cons a xs)
  then show ?case by (cases i) auto
qed simp

lemma counted_fds:
  assumes "counted w rs fds" "i < NOFILE" "case y of Some f \<Rightarrow> f < NFILE | None \<Rightarrow> True"
  shows "counted (\<lambda>f. w f + of_bool (fds ! i = Some f) - of_bool (y = Some f)) rs (fds[i := y])"
proof -
  have "Some f \<in> set (fds[i := y]) \<Longrightarrow> f < NFILE" for f
    using assms set_update_subset_insert [of fds i y] by (auto simp: counted_def)
  then show ?thesis using assms by (auto simp: counted_def count_list_update)
qed

lemma counted_refs:
  assumes "counted w rs fds" "f < NFILE" "n = 0 \<longrightarrow> ty = FD_NONE"
  shows "counted (w(f := w f + n - fst (rs ! f))) (rs[f := (n, ty)]) fds"
  using assms by (auto simp: counted_def nth_list_update)

lemma refs_tables: "fd_tables t = fd_tables s \<Longrightarrow> files_ok w t = files_ok w s"
  by (simp add: fd_tables_def files_ok_def refs_def)

lemma length_refs [simp]: "length (refs s) = length (ftable s)"
  by (simp add: refs_def)

lemma refs_upd_file: "f < length (ftable s) \<Longrightarrow> refs (upd_file f g s) = (refs s)[f := (o_ref (g (the_file s f)), o_type (g (the_file s f)))]"
  by (simp add: refs_def upd_file_def the_file_def map_update)

lemma refs_nth: "f < length (ftable s) \<Longrightarrow> refs s ! f = (o_ref (the_file s f), o_type (the_file s f))"
  by (simp add: refs_def the_file_def)

lemma ofile_upd_file [simp]: "ofile (upd_file f g s) = ofile s"
  by (simp add: upd_file_def)

lemma files_okD:
  assumes "files_ok w s"
  shows "length (ftable s) = NFILE" "length (ofile s) = NOFILE" "Some f \<in> set (ofile s) \<Longrightarrow> f < NFILE"
    "f < NFILE \<Longrightarrow> o_ref (the_file s f) = int (count_list (ofile s) (Some f)) + w f"
    "f < NFILE \<Longrightarrow> o_ref (the_file s f) = 0 \<Longrightarrow> o_type (the_file s f) = FD_NONE"
proof -
  show l: "length (ftable s) = NFILE" using assms by (simp add: files_ok_def counted_def refs_def)
  show "length (ofile s) = NOFILE" "Some f \<in> set (ofile s) \<Longrightarrow> f < NFILE"
    using assms by (simp_all add: files_ok_def counted_def)
  show "f < NFILE \<Longrightarrow> o_ref (the_file s f) = int (count_list (ofile s) (Some f)) + w f"
    "f < NFILE \<Longrightarrow> o_ref (the_file s f) = 0 \<Longrightarrow> o_type (the_file s f) = FD_NONE"
    using assms refs_nth [of f s] by (auto simp: files_ok_def counted_def l)
qed

text \<open>An update of an open file moves the references held elsewhere by the change of its count.\<close>

lemma upd_file_ok:
  assumes "files_ok w s" "f < NFILE" "o_ref (g (the_file s f)) = 0 \<longrightarrow> o_type (g (the_file s f)) = FD_NONE"
  shows "files_ok (w(f := w f + o_ref (g (the_file s f)) - o_ref (the_file s f))) (upd_file f g s)"
proof -
  have "f < length (ftable s)" using assms files_okD(1) [OF assms(1)] by simp
  then show ?thesis
    using counted_refs [OF assms(1) [unfolded files_ok_def] assms(2), of "o_ref (g (the_file s f))" "o_type (g (the_file s f))"] assms(3)
    by (simp add: files_ok_def refs_upd_file refs_nth)
qed

lemma upd_file_same:
  assumes "files_ok w s" "f < NFILE" "o_ref (g (the_file s f)) = o_ref (the_file s f)"
    "o_ref (the_file s f) = 0 \<longrightarrow> o_type (g (the_file s f)) = FD_NONE"
  shows "files_ok w (upd_file f g s)"
  using upd_file_ok [OF assms(1,2), of g] assms(3,4) by simp

lemma set_fd_ok:
  assumes "files_ok w s" "i < NOFILE" "case y of Some f \<Rightarrow> f < NFILE | None \<Rightarrow> True"
  shows "files_ok (\<lambda>f. w f + of_bool (ofile s ! i = Some f) - of_bool (y = Some f)) (set_fd i y s)"
  using counted_fds [OF assms(1) [unfolded files_ok_def] assms(2,3)]
  by (simp add: files_ok_def set_fd_def refs_def)

section \<open>The operations\<close>

lemma filealloc_ok:
  assumes "files_ok w s" "filealloc s = (Some f, t)"
  shows "f < NFILE \<and> o_ref (the_file s f) = 0 \<and> files_ok (w(f := w f + 1)) t \<and>
    ofile t = ofile s \<and> o_ref (the_file t f) = 1"
proof -
  have f: "f < NFILE" "o_ref (the_file s f) = 0" "t = upd_file f (o_ref_update (\<lambda>_. 1)) s"
    using assms(2) by (auto simp: filealloc_def find_Some_iff split: option.splits)
  have "length (ftable s) = NFILE" using files_okD(1) [OF assms(1)] .
  then show ?thesis
    using upd_file_ok [OF assms(1) f(1), of "o_ref_update (\<lambda>_. 1)"] f by (simp add: upd_file_def the_file_def)
qed

lemma filealloc_None: "filealloc s = (None, t) \<Longrightarrow> t = s"
  by (auto simp: filealloc_def split: option.splits)

lemma filedup_ok:
  assumes "files_ok w s" "f < NFILE" "filedup f s = Inr t"
  shows "files_ok (w(f := w f + 1)) t"
proof -
  have "1 \<le> o_ref (the_file s f)" "t = upd_file f (\<lambda>p. p\<lparr>o_ref := o_ref p + 1\<rparr>) s"
    using assms(3) by (auto simp: filedup_def split: if_splits)
  then show ?thesis using upd_file_ok [OF assms(1,2), of "\<lambda>p. p\<lparr>o_ref := o_ref p + 1\<rparr>"] by simp
qed

lemma fdalloc_ok:
  assumes "files_ok w s" "f < NFILE" "fdalloc f s = (Some fd, t)"
  shows "fd < NOFILE \<and> ofile s ! fd = None \<and> t = set_fd fd (Some f) s \<and> files_ok (w(f := w f - 1)) t"
proof -
  have fd: "fd < NOFILE" "ofile s ! fd = None" "t = set_fd fd (Some f) s"
    using assms(3) by (auto simp: fdalloc_def find_Some_iff split: option.splits)
  have "(\<lambda>g. w g + of_bool (ofile s ! fd = Some g) - of_bool (Some f = Some g)) = w(f := w f - 1)"
    using fd(2) by auto
  then show ?thesis using set_fd_ok [OF assms(1) fd(1), of "Some f"] fd assms(2) by simp
qed

lemma fdalloc_None: "fdalloc f s = (None, t) \<Longrightarrow> t = s"
  by (auto simp: fdalloc_def split: option.splits)

lemma pipeclose_tables [simp]: "fd_tables (pipeclose p w s) = fd_tables s"
  by (simp add: pipeclose_def Let_def kfree_page_def upd_pipe_def)

lemma fileclose_ok:
  assumes "files_ok w s" "f < NFILE" "fileclose f s = Inr t"
  shows "files_ok (w(f := w f - 1)) t \<and> ofile t = ofile s"
proof -
  define s1 where "s1 = upd_file f (\<lambda>p. p\<lparr>o_ref := o_ref p - 1\<rparr>) s"
  define s2 where "s2 = upd_file f (\<lambda>p. p\<lparr>o_ref := 0, o_type := FD_NONE\<rparr>) s1"
  have len: "f < length (ftable s)" using files_okD(1) [OF assms(1)] assms(2) by simp
  have ref: "1 \<le> o_ref (the_file s f)" using assms(3) by (auto simp: fileclose_def split: if_splits)
  have s1f: "the_file s1 f = (the_file s f)\<lparr>o_ref := o_ref (the_file s f) - 1\<rparr>"
    using len by (simp add: s1_def upd_file_def the_file_def)
  show ?thesis
  proof (cases "1 < o_ref (the_file s f)")
    case True
    then have "t = s1" using assms(3) s1f by (simp add: fileclose_def Let_def s1_def [symmetric])
    then show ?thesis
      using upd_file_ok [OF assms(1,2), of "\<lambda>p. p\<lparr>o_ref := o_ref p - 1\<rparr>"] True by (simp add: s1_def)
  next
    case False
    have s2: "s2 = upd_file f (\<lambda>p. p\<lparr>o_ref := 0, o_type := FD_NONE\<rparr>) s"
      using len by (simp add: s2_def s1_def upd_file_def)
    have "files_ok (w(f := w f - 1)) s2"
      using upd_file_ok [OF assms(1,2), of "\<lambda>p. p\<lparr>o_ref := 0, o_type := FD_NONE\<rparr>"] ref False by (simp add: s2)
    moreover have tt: "fd_tables t = fd_tables s2"
      using assms(3) False ref unfolding fileclose_def s1_def [symmetric] Let_def s2_def [symmetric]
      by (auto simp: s1f call_eq_Inr split: file_type.split_asm dest!: tables_begin_tx fd.iput)
    ultimately show ?thesis using refs_tables [OF tt, of "w(f := w f - 1)"] tt by (simp add: s2 fd_tables_def)
  qed
qed

text \<open>The transfers change no count.\<close>

lemma advance_ok: "files_ok w s \<Longrightarrow> f < NFILE \<Longrightarrow> files_ok w (advance f r s) \<and> ofile (advance f r s) = ofile s"
  using upd_file_same [of w s f "\<lambda>p. p\<lparr>o_off := (o_off p + nat r) mod 2 ^ 32\<rparr>"] files_okD(5) [of w s f]
  by (auto simp: advance_def)

definition steady :: "(nat \<Rightarrow> int) \<Rightarrow> 'a osys_scheme \<Rightarrow> 'a osys_scheme \<Rightarrow> bool" where
  "steady w s t \<longleftrightarrow> (files_ok w s \<longrightarrow> files_ok w t)"

lemma steady_tables:
  assumes "fd_tables t = fd_tables s"
  shows "steady w s t"
  using refs_tables [OF assms] by (simp add: steady_def)

lemma steady_trans: "steady w s t \<Longrightarrow> steady w t u \<Longrightarrow> steady w s u"
  by (simp add: steady_def)

lemma steady_advance: "f < NFILE \<Longrightarrow> steady w s (advance f r s)"
  by (simp add: steady_def advance_ok)

lemma piperead_tables: "piperead p n s = Inr r \<Longrightarrow> fd_tables (snd r) = fd_tables s"
  by (auto simp: piperead_def upd_pipe_def split: if_split_asm prod.split_asm)

lemma pipewrite_tables: "pipewrite p cs s = Inr r \<Longrightarrow> fd_tables (snd r) = fd_tables s"
proof -
  have "pipewrite_from p n cs s = Inr r \<Longrightarrow> fd_tables (snd r) = fd_tables s" for n
    by (induction cs arbitrary: s) (auto simp: upd_pipe_def split: if_split_asm)
  then show "pipewrite p cs s = Inr r \<Longrightarrow> fd_tables (snd r) = fd_tables s" by (simp add: pipewrite_def)
qed

lemma filestat_tables: "filestat f b s = Inr r \<Longrightarrow> fd_tables (snd r) = fd_tables s"
  by (auto simp: filestat_def call_eq_Inr Let_def split: if_split_asm dest!: fd_basic)

lemma fileread_steady:
  assumes "fileread f n s = Inr r" "f < NFILE"
  shows "steady w s (snd r)"
proof (cases "o_readable (the_file s f) \<and> o_type (the_file s f) = FD_INODE")
  case True
  let ?ip = "o_ip (the_file s f)"
  obtain s1 x s2 s3 where 1: "ilock ?ip s = Inr s1" and 2: "readi ?ip (o_off (the_file s f)) n s1 = Inr (x, s2)"
    and 3: "iunlock ?ip (advance f (fst x) s2) = Inr s3" and r: "r = (x, s3)"
    using assms(1) True by (auto simp: fileread_def Let_def call_eq_Inr)
  have a: "steady w s s2" using fd.ilock [OF 1] fd.readi [OF 2] by (simp add: steady_tables)
  have b: "steady w s2 s3" by (rule steady_trans [OF steady_advance [OF assms(2)] steady_tables [OF fd.iunlock [OF 3]]])
  show ?thesis using steady_trans [OF a b] by (simp add: r)
next
  case False
  then have "fd_tables (snd r) = fd_tables s"
    using assms(1) by (auto simp: fileread_def Let_def split: if_split_asm file_type.split_asm dest!: piperead_tables)
  then show ?thesis by (rule steady_tables)
qed

lemma write_chunk_steady:
  assumes "write_chunk f cs s = Inr r" "f < NFILE"
  shows "steady w s (snd r)"
proof -
  let ?ip = "o_ip (the_file s f)"
  obtain s1 s2 x s3 s4 where 1: "begin_tx s = Inr s1" "ilock ?ip s1 = Inr s2"
    and 2: "writei ?ip cs (o_off (the_file s2 f)) s2 = Inr (x, s3)"
    and 3: "iunlock ?ip (advance f x s3) = Inr s4" and r: "r = (x, end_tx s4)"
    using assms(1) by (auto simp: write_chunk_def Let_def call_eq_Inr)
  have a: "steady w s s3"
    using tables_begin_tx [OF 1(1)] fd.ilock [OF 1(2)] fd.writei [OF 2] by (simp add: steady_tables)
  have b: "steady w s3 s4" by (rule steady_trans [OF steady_advance [OF assms(2)] steady_tables [OF fd.iunlock [OF 3]]])
  have c: "steady w s4 (end_tx s4)" by (simp add: steady_tables)
  show ?thesis using steady_trans [OF a steady_trans [OF b c]] by (simp add: r)
qed

lemma write_chunks_steady:
  assumes "write_chunks f src s = Inr r" "f < NFILE"
  shows "steady w s (snd r)"
  using assms
proof (induction f src s arbitrary: r rule: write_chunks.induct)
  case (1 f src s)
  show ?case
  proof (cases "src = []")
    case True
    then show ?thesis using 1(2) by (auto simp: write_chunks.simps [of f "[]"] steady_def)
  next
    case False
    let ?n = "min (length src) max_write"
    obtain x where x: "write_chunk f (take ?n src) s = Inr x"
      using 1(2) False by (subst (asm) write_chunks.simps) (auto simp: Let_def call_eq_Inr)
    have a: "steady w s (snd x)" by (rule write_chunk_steady [OF x 1(3)])
    have "steady w (snd x) (snd r)"
    proof (cases "fst x < 0 \<or> fst x \<noteq> int ?n")
      case True
      then show ?thesis using 1(2) False
        by (subst (asm) write_chunks.simps) (auto simp: Let_def x steady_def split: if_split_asm)
    next
      case go: False
      then have "write_chunks f (drop ?n src) (snd x) = Inr r"
        using 1(2) False by (subst (asm) write_chunks.simps) (simp add: Let_def x)
      then show ?thesis using 1(1) [OF False refl x] go 1(3) by simp
    qed
    then show ?thesis by (rule steady_trans [OF a])
  qed
qed

lemma filewrite_steady:
  assumes "filewrite f src s = Inr r" "f < NFILE"
  shows "steady w s (snd r)"
proof (cases "o_writable (the_file s f) \<and> o_type (the_file s f) = FD_INODE")
  case True
  then obtain b s1 where w: "write_chunks f src s = Inr (b, s1)" and r: "snd r = s1"
    using assms(1) by (auto simp: filewrite_def Let_def call_eq_Inr)
  show ?thesis using write_chunks_steady [OF w assms(2)] by (simp add: r)
next
  case False
  then have "fd_tables (snd r) = fd_tables s"
    using assms(1) by (auto simp: filewrite_def Let_def split: if_split_asm file_type.split_asm dest!: pipewrite_tables)
  then show ?thesis by (rule steady_tables)
qed

section \<open>The calls on descriptors\<close>

text \<open>One reference more, or one less, held elsewhere.\<close>

definition more :: "nat \<Rightarrow> (nat \<Rightarrow> int) \<Rightarrow> nat \<Rightarrow> int" where "more f w = (\<lambda>g. w g + of_bool (g = f))"
definition less :: "nat \<Rightarrow> (nat \<Rightarrow> int) \<Rightarrow> nat \<Rightarrow> int" where "less f w = (\<lambda>g. w g - of_bool (g = f))"

lemma upd_more: "w(f := w f + 1) = more f w" and upd_less: "w(f := w f - 1) = less f w"
  by (auto simp: more_def less_def)

lemma less_more [simp]: "less f (more f w) = w" "more f (less f w) = w" "less f (more g (more f w)) = more g w"
  by (simp_all add: more_def less_def)

lemmas filealloc_more = filealloc_ok [unfolded upd_more]
lemmas filedup_more = filedup_ok [unfolded upd_more]
lemmas fdalloc_less = fdalloc_ok [unfolded upd_less]
lemmas fileclose_less = fileclose_ok [unfolded upd_less]

lemma clear_fd_more:
  assumes "files_ok w s" "fd < NOFILE" "ofile s ! fd = Some f"
  shows "files_ok (more f w) (set_fd fd None s)"
proof -
  have "(\<lambda>g. w g + of_bool (ofile s ! fd = Some g) - of_bool (None = Some g)) = more f w"
    using assms(3) by (auto simp: more_def)
  then show ?thesis using set_fd_ok [OF assms(1,2), of None] by simp
qed

lemma argfd_ok:
  assumes "files_ok w s" "argfd n s = Some (fd, f)"
  shows "fd < NOFILE" "ofile s ! fd = Some f" "f < NFILE" "1 \<le> count_list (ofile s) (Some f)"
proof -
  show fd: "fd < NOFILE" "ofile s ! fd = Some f"
    using assms(2) by (auto simp: argfd_def Let_def split: option.split_asm if_split_asm)
  then have m: "Some f \<in> set (ofile s)" using files_okD(2) [OF assms(1)] by (metis nth_mem)
  show "f < NFILE" by (rule files_okD(3) [OF assms(1) m])
  show "1 \<le> count_list (ofile s) (Some f)" using m count_list_0_iff [of "ofile s" "Some f"] by linarith
qed

lemma sys_dup_ok:
  assumes "files_ok w s" "sys_dup s = Inr r"
  shows "files_ok w (snd r)"
proof (cases "argfd 0 s")
  case (Some a)
  obtain i f where a: "argfd 0 s = Some (i, f)" using Some by (cases a) simp
  note f = argfd_ok(3) [OF assms(1) a]
  obtain d s1 where fd: "fdalloc f s = (d, s1)" by (cases "fdalloc f s")
  show ?thesis
  proof (cases d)
    case None
    then show ?thesis using assms fd fdalloc_None [of f s s1] by (auto simp: sys_dup_def a)
  next
    case (Some e)
    then obtain s2 where s2: "filedup f s1 = Inr s2" "snd r = s2"
      using assms(2) fd by (auto simp: sys_dup_def a call_eq_Inr)
    show ?thesis using filedup_more [OF _ f s2(1)] fdalloc_less [OF assms(1) f] fd Some s2(2) by fastforce
  qed
qed (use assms in \<open>auto simp: sys_dup_def\<close>)

lemma sys_close_ok:
  assumes "files_ok w s" "sys_close s = Inr r"
  shows "files_ok w (snd r)"
proof (cases "argfd 0 s")
  case (Some a)
  obtain i f where a: "argfd 0 s = Some (i, f)" using Some by (cases a) simp
  note f = argfd_ok [OF assms(1) a]
  obtain t where t: "fileclose f (set_fd i None s) = Inr t" "snd r = t"
    using assms(2) by (auto simp: sys_close_def a call_eq_Inr)
  show ?thesis using fileclose_less [OF clear_fd_more [OF assms(1) f(1,2)] f(3) t(1)] t(2) by simp
qed (use assms in \<open>auto simp: sys_close_def\<close>)

lemma sys_read_ok:
  assumes "files_ok w s" "sys_read s = Inr r"
  shows "files_ok w (snd r)"
proof (cases "argfd 0 s")
  case (Some a)
  obtain i f where a: "argfd 0 s = Some (i, f)" using Some by (cases a) simp
  note f = argfd_ok(3) [OF assms(1) a]
  show ?thesis
  proof (cases "snd r = s")
    case False
    then obtain n x s1 m where x: "fileread f n s = Inr (x, s1)" and r: "snd r = s1\<lparr>umem := m\<rparr>"
      using assms(2) by (auto simp: sys_read_def a call_eq_Inr split: option.split_asm)
    have t: "fd_tables (snd r) = fd_tables s1" by (simp add: r)
    show ?thesis using fileread_steady [OF x f, of w] assms(1) refs_tables [OF t, of w] by (simp add: steady_def)
  qed (use assms in simp)
qed (use assms in \<open>auto simp: sys_read_def\<close>)

lemma sys_write_ok:
  assumes "files_ok w s" "sys_write s = Inr r"
  shows "files_ok w (snd r)"
proof (cases "argfd 0 s")
  case (Some a)
  obtain i f where a: "argfd 0 s = Some (i, f)" using Some by (cases a) simp
  show ?thesis
  proof (cases "snd r = s")
    case False
    then obtain cs where "filewrite f cs s = Inr r"
      using assms(2) by (auto simp: sys_write_def a split: option.split_asm)
    then show ?thesis using filewrite_steady [OF _ argfd_ok(3) [OF assms(1) a], of cs s r w] assms(1) by (simp add: steady_def)
  qed (use assms in simp)
qed (use assms in \<open>auto simp: sys_write_def\<close>)

lemma sys_fstat_ok:
  assumes "files_ok w s" "sys_fstat s = Inr r"
  shows "files_ok w (snd r)"
proof -
  have t: "fd_tables (snd r) = fd_tables s"
    using assms(2) by (auto simp: sys_fstat_def call_eq_Inr split: option.split_asm dest!: filestat_tables)
  show ?thesis using assms(1) refs_tables [OF t, of w] by simp
qed

text \<open>A file that is referred to is not free, so it may be given a type.\<close>

lemma upd_held:
  assumes "files_ok w s" "f < NFILE" "0 < int (count_list (ofile s) (Some f)) + w f" "\<And>p. o_ref (g p) = o_ref p"
  shows "files_ok w (upd_file f g s)"
  using upd_file_same [OF assms(1,2), of g] files_okD(4) [OF assms(1,2)] assms(3,4) by simp

lemma kalloc_page_tables: "kalloc_page s = (p, t) \<Longrightarrow> fd_tables t = fd_tables s"
  by (auto simp: kalloc_page_def split: list.split_asm)

lemma pipealloc_ok:
  assumes ok: "files_ok w s" and nn: "\<And>f. 0 \<le> w f" and calls_run: "pipealloc s = Inr (r, t)"
  shows "case r of None \<Rightarrow> files_ok w t | Some (a, b) \<Rightarrow> a < NFILE \<and> b < NFILE \<and> files_ok (more a (more b w)) t"
proof -
  obtain x s1 where a0: "filealloc s = (x, s1)" by (cases "filealloc s")
  show ?thesis
  proof (cases x)
    case None
    then show ?thesis using calls_run ok filealloc_None a0 by (fastforce simp: pipealloc_def)
  next
    case (Some f0)
    note A = filealloc_more [OF ok a0 [unfolded Some]]
    obtain y s2 where a1: "filealloc s1 = (y, s2)" by (cases "filealloc s1")
    show ?thesis
    proof (cases y)
      case None
      then have "s2 = s1" using filealloc_None a1 by auto
      then have "fileclose f0 s1 = Inr t" "r = None" using calls_run a0 a1 Some None by (auto simp: pipealloc_def call_eq_Inr)
      then show ?thesis using fileclose_less [of "more f0 w" s1 f0 t] A by simp
    next
      case y: (Some f1)
      note B = filealloc_more [OF conjunct1 [OF conjunct2 [OF conjunct2 [OF A]]] a1 [unfolded y]]
      obtain p s3 where k: "kalloc_page s2 = (p, s3)" by (cases "kalloc_page s2")
      have C: "files_ok (more f1 (more f0 w)) s3" using B refs_tables [OF kalloc_page_tables [OF k]] by simp
      show ?thesis
      proof (cases p)
        case None
        then obtain s4 where 4: "fileclose f0 s3 = Inr s4" "fileclose f1 s4 = Inr t" "r = None"
          using calls_run a0 a1 k Some y by (auto simp: pipealloc_def call_eq_Inr)
        have "files_ok (more f1 w) s4" using fileclose_less [OF C _ 4(1)] A by simp
        then show ?thesis using fileclose_less [OF _ _ 4(2), of "more f1 w"] B 4(3) by simp
      next
        case (Some q)
        let ?g = "\<lambda>b p. p\<lparr>o_type := FD_PIPE, o_readable := \<not> b, o_writable := b, o_pipe := q\<rparr>"
        let ?h = "\<lambda>q. q\<lparr>q_readopen := True, q_writeopen := True, q_nwrite := 0, q_nread := 0\<rparr>"
        have t: "t = upd_file f1 (?g True) (upd_file f0 (?g False) (upd_pipe q ?h s3))" "r = Some (f0, f1)"
          using calls_run a0 a1 k \<open>x = Some f0\<close> y Some by (auto simp: pipealloc_def)
        have tp: "fd_tables (upd_pipe q ?h s3) = fd_tables s3" by (simp add: upd_pipe_def)
        have w: "0 < more f1 (more f0 w) f0" "0 < more f1 (more f0 w) f1" using nn [of f0] nn [of f1] by (simp_all add: more_def)
        have D: "files_ok (more f1 (more f0 w)) (upd_pipe q ?h s3)" using C refs_tables [OF tp] by simp
        have E: "files_ok (more f1 (more f0 w)) (upd_file f0 (?g False) (upd_pipe q ?h s3))"
          using w A by (intro upd_held [OF D]) auto
        have F: "files_ok (more f1 (more f0 w)) t" unfolding t(1) using w B by (intro upd_held [OF E]) auto
        have "more f1 (more f0 w) = more f0 (more f1 w)" by (auto simp: more_def)
        then show ?thesis using F A B t(2) by simp
      qed
    qed
  qed
qed

lemma sys_pipe_ok:
  assumes ok: "files_ok w s" and nn: "\<And>f. 0 \<le> w f" and calls_run: "sys_pipe s = Inr r"
  shows "files_ok w (snd r)"
proof (cases "argptr 0 8 s")
  case (Some a)
  then obtain p s1 where p: "pipealloc s = Inr (p, s1)" using calls_run by (auto simp: sys_pipe_def call_eq_Inr)
  note P = pipealloc_ok [OF ok nn p]
  show ?thesis
  proof (cases p)
    case None
    then show ?thesis using calls_run P p Some by (auto simp: sys_pipe_def)
  next
    case pq: (Some q)
    obtain rd wr where q: "q = (rd, wr)" by (cases q)
    have A: "rd < NFILE" "wr < NFILE" "files_ok (more rd (more wr w)) s1" using P by (simp_all add: pq q)
    obtain x s2 where x: "fdalloc rd s1 = (x, s2)" by (cases "fdalloc rd s1")
    show ?thesis
    proof (cases x)
      case None
      then obtain s3 s4 where 4: "fileclose rd s1 = Inr s3" "fileclose wr s3 = Inr s4" "snd r = s4"
        using calls_run p Some pq q x fdalloc_None [of rd s1 s2] by (auto simp: sys_pipe_def call_eq_Inr)
      have "files_ok (more wr w) s3" using fileclose_less [OF A(3,1) 4(1)] by simp
      then show ?thesis using fileclose_less [OF _ A(2) 4(2), of "more wr w"] 4(3) by simp
    next
      case xs: (Some fd0)
      note B = fdalloc_less [OF A(3,1) x [unfolded xs], unfolded less_more]
      obtain y s3 where y: "fdalloc wr s2 = (y, s3)" by (cases "fdalloc wr s2")
      show ?thesis
      proof (cases y)
        case None
        then have s3: "s3 = s2" using fdalloc_None y by auto
        obtain s4 s5 where 5: "fileclose rd (set_fd fd0 None s2) = Inr s4" "fileclose wr s4 = Inr s5" "snd r = s5"
          using calls_run p Some pq q x xs y None s3 by (auto simp: sys_pipe_def call_eq_Inr)
        have "ofile s2 ! fd0 = Some rd"
          using B files_okD(2) [OF A(3)] by (simp add: set_fd_def)
        then have "files_ok (more rd (more wr w)) (set_fd fd0 None s2)" using B by (intro clear_fd_more) auto
        then have "files_ok (more wr w) s4" using fileclose_less [OF _ A(1) 5(1), of "more rd (more wr w)"] by simp
        then show ?thesis using fileclose_less [OF _ A(2) 5(2), of "more wr w"] 5(3) by simp
      next
        case ys: (Some fd1)
        have "files_ok (more wr w) s2" by (rule conjunct2 [OF conjunct2 [OF conjunct2 [OF B]]])
        then have C: "files_ok w s3" using fdalloc_less [OF _ A(2) y [unfolded ys], of "more wr w", unfolded less_more] by blast
        obtain m where "snd r = s3\<lparr>umem := m\<rparr>" using calls_run p Some pq q x xs y ys by (auto simp: sys_pipe_def)
        then have t: "fd_tables (snd r) = fd_tables s3" by simp
        show ?thesis using C refs_tables [OF t] by simp
      qed
    qed
  qed
qed (use assms in \<open>auto simp: sys_pipe_def\<close>)

lemma sys_open_ok:
  assumes ok: "files_ok w s" and nn: "\<And>f. 0 \<le> w f" and calls_run: "sys_open s = Inr r"
  shows "files_ok w (snd r)"
proof (cases "argstr 0 s \<noteq> None \<and> argint 1 s \<noteq> None")
  case True
  then obtain path om where args: "argstr 0 s = Some path" "argint (Suc 0) s = Some om" by auto
  obtain s1 i s2 where 1: "begin_tx s = Inr s1" "open_inode path om s1 = Inr (i, s2)"
    using calls_run by (auto simp: sys_open_def args call_eq_Inr)
  have t2: "fd_tables s2 = fd_tables s" using tables_begin_tx [OF 1(1)] tables_open_inode [OF 1(2)] by simp
  have ok2: "files_ok w s2" using ok refs_tables [OF t2] by simp
  show ?thesis
  proof (cases "fd_tables (snd r) = fd_tables s2")
    case True
    then show ?thesis using ok2 refs_tables by auto
  next
    case False
    then obtain ip where i: "i = Some ip" and al: "open_allowed ip om s2"
      using calls_run 1 by (auto simp: sys_open_def args call_eq_Inr split: option.split_asm if_split_asm dest!: fd.iunlockput)
    obtain x s3 where x: "filealloc s2 = (x, s3)" by (cases "filealloc s2")
    have "x \<noteq> None"
    proof
      assume none: "x = None"
      then have "s3 = s2" using filealloc_None x by auto
      then show False using False calls_run 1 i al x none by (auto simp: sys_open_def args call_eq_Inr dest!: fd.iunlockput)
    qed
    then obtain f where f: "x = Some f" by auto
    note A = filealloc_more [OF ok2 x [unfolded f]]
    obtain y s4 where y: "fdalloc f s3 = (y, s4)" by (cases "fdalloc f s3")
    show ?thesis
    proof (cases y)
      case None
      then have s4: "s4 = s3" using fdalloc_None y by auto
      obtain s5 s6 where 5: "fileclose f s3 = Inr s5" "iunlockput ip s5 = Inr s6" "snd r = end_tx s6"
        using calls_run 1 i al x f y None s4 by (auto simp: sys_open_def args call_eq_Inr)
      have "files_ok w s5" using fileclose_less [OF _ _ 5(1), of "more f w"] A by simp
      moreover have "fd_tables (snd r) = fd_tables s5" using fd.iunlockput [OF 5(2)] 5(3) by simp
      ultimately show ?thesis using refs_tables by auto
    next
      case (Some d)
      have "files_ok (more f w) s3" using A by blast
      then have B: "d < NOFILE \<and> s4 = set_fd d (Some f) s3 \<and> files_ok w s4"
        using fdalloc_less [OF _ _ y [unfolded Some], of "more f w", unfolded less_more] A by blast
      obtain s5 where 5: "iunlock ip s4 = Inr s5" "snd r = upd_file f (open_fields ip om) (end_tx s5)"
        using calls_run 1 i al x f y Some by (auto simp: sys_open_def args call_eq_Inr)
      have t: "fd_tables (end_tx s5) = fd_tables s4" using fd.iunlock [OF 5(1)] by simp
      have C: "files_ok w (end_tx s5)" using B refs_tables [OF t, of w] by blast
      have "ofile (end_tx s5) ! d = Some f" using t B files_okD(2) [OF ok2] A by (simp add: fd_tables_def set_fd_def)
      then have "Some f \<in> set (ofile (end_tx s5))" using files_okD(2) [OF C] B by (metis nth_mem)
      then have "0 < count_list (ofile (end_tx s5)) (Some f)" by (metis count_list_0_iff gr0I)
      then have "files_ok w (upd_file f (open_fields ip om) (end_tx s5))"
        using A nn [of f] by (intro upd_held [OF C]) (auto simp: open_fields_def)
      then show ?thesis using 5(2) by simp
    qed
  qed
qed (use assms in \<open>auto simp: sys_open_def split: option.split_asm\<close>)

section \<open>Runs\<close>

text \<open>A run of the process: its own steps, which may set up the arguments of the next call, and calls.\<close>

definition fd_calls :: "('a osys_scheme \<Rightarrow> (int \<times> 'a osys_scheme) kres) list" where
  "fd_calls = [sys_dup, sys_read, sys_write, sys_close, sys_fstat, sys_pipe, sys_open]"

inductive calls_run :: "osys \<Rightarrow> osys \<Rightarrow> bool" where
  start: "calls_run s s"
| user: "calls_run s t \<Longrightarrow> calls_run s (t\<lparr>umem := m, esp := e\<rparr>)"
| call: "calls_run s t \<Longrightarrow> f \<in> set (fd_calls @ name_calls) \<Longrightarrow> f t = Inr (r, u) \<Longrightarrow> calls_run s u"

lemma fd_calls_ok:
  assumes "files_ok w s" "\<And>f. 0 \<le> w f" "g \<in> set fd_calls" "g s = Inr r"
  shows "files_ok w (snd r)"
  using assms(3,4) sys_dup_ok [OF assms(1), of r] sys_read_ok [OF assms(1), of r] sys_write_ok [OF assms(1), of r]
    sys_close_ok [OF assms(1), of r] sys_fstat_ok [OF assms(1), of r] sys_pipe_ok [OF assms(1,2), of r]
    sys_open_ok [OF assms(1,2), of r]
  by (auto simp: fd_calls_def)

lemma run_ok: "calls_run s t \<Longrightarrow> files_ok w s \<Longrightarrow> (\<And>f. 0 \<le> w f) \<Longrightarrow> files_ok w t"
proof (induction rule: calls_run.induct)
  case (user s t e m)
  have t: "fd_tables (t\<lparr>umem := m, esp := e\<rparr>) = fd_tables t" by simp
  show ?case using user.IH [OF user.prems] refs_tables [OF t, of w] by simp
next
  case (call s t f r u)
  have ok: "files_ok w t" by (rule call.IH [OF call.prems])
  show ?case
  proof (cases "f \<in> set fd_calls")
    case True
    then show ?thesis using fd_calls_ok [of w t f "(r, u)"] ok call.prems(2) call.hyps(3) by simp
  next
    case False
    then have t: "fd_tables u = fd_tables t" using tables_name_calls [of f t "(r, u)"] call.hyps by simp
    show ?thesis using ok refs_tables [OF t, of w] by simp
  qed
qed

lemma sys_dup_returns:
  assumes ok: "files_ok w s" and nn: "\<And>f. 0 \<le> w f"
  shows "\<exists>r t. sys_dup s = Inr (r, t)"
proof (cases "argfd 0 s")
  case (Some a)
  obtain i f where a: "argfd 0 s = Some (i, f)" using Some by (cases a) simp
  note f = argfd_ok [OF ok a]
  have ref: "1 \<le> o_ref (the_file s f)" using files_okD(4) [OF ok f(3)] f(4) nn [of f] by simp
  obtain d s1 where fd: "fdalloc f s = (d, s1)" by (cases "fdalloc f s")
  have "the_file s1 f = the_file s f"
    using fd by (auto simp: fdalloc_def set_fd_def the_file_def split: option.splits)
  then show ?thesis using ref fd by (cases d) (auto simp: sys_dup_def a filedup_def)
qed (simp add: sys_dup_def)

section \<open>Property\<close>

text \<open>C4: Whatever sequence of the calls of \<open>sysfile.c\<close> a process makes, with whatever arguments, the count of each
  open file stays the number of descriptors that name it and the references held elsewhere; so a
  descriptor never names a file that is free, and \<open>sys_dup\<close> returns and never panics.\<close>

theorem descriptors_counted:
  assumes "calls_run s t" "files_ok w s" "\<And>f. 0 \<le> w f"
  shows "files_ok w t \<and> (\<forall>n fd f. argfd n t = Some (fd, f) \<longrightarrow> f < NFILE \<and> 1 \<le> o_ref (the_file t f)) \<and>
    (\<exists>r u. sys_dup t = Inr (r, u))"
proof -
  have ok: "files_ok w t" by (rule run_ok [OF assms])
  have "f < NFILE \<and> 1 \<le> o_ref (the_file t f)" if "argfd n t = Some (fd, f)" for n fd f
    using argfd_ok [OF ok that] files_okD(4) [OF ok, of f] assms(3) [of f] by simp
  then show ?thesis using ok sys_dup_returns [OF ok assms(3)] by blast
qed

text \<open>A process with the console as its first descriptor duplicates it.\<close>

definition first_proc :: osys where
  "first_proc = fsys.extend small_fs (osys.fields
     (\<lparr>o_type = FD_INODE, o_ref = 1, o_readable = True, o_writable = True, o_pipe = 0, o_ip = 0, o_off = 0\<rparr> #
        replicate 99 \<lparr>o_type = FD_NONE, o_ref = 0, o_readable = False, o_writable = False, o_pipe = 0, o_ip = 0, o_off = 0\<rparr>)
     (Some 0 # replicate 15 None)
     (\<lambda>_. \<lparr>q_data = [], q_nread = 0, q_nwrite = 0, q_readopen = False, q_writeopen = False\<rparr>) [] (\<lambda>_. NUL) 4096 0)"

lemma first_proc_sel:
  "ofile first_proc = Some 0 # replicate 15 None" "umem first_proc = (\<lambda>_. NUL)" "usz first_proc = 4096" "esp first_proc = 0"
  "length (ftable first_proc) = NFILE" "o_ref (the_file first_proc 0) = 1"
  "0 < f \<Longrightarrow> f < NFILE \<Longrightarrow> o_ref (the_file first_proc f) = 0 \<and> o_type (the_file first_proc f) = FD_NONE"
  by (simp_all add: first_proc_def fsys.extend_def osys.fields_def the_file_def NFILE_def nth_Cons')

lemma first_proc_ok: "files_ok (\<lambda>_. 0) first_proc"
proof -
  have "count_list (replicate n None) (Some f) = 0" for n and f :: nat by (induction n) auto
  then have "count_list (ofile first_proc) (Some f) = (if f = 0 then 1 else 0)" for f by (simp add: first_proc_sel)
  moreover have "0 < NFILE" by (simp add: NFILE_def)
  ultimately show ?thesis
    using first_proc_sel(5,6) first_proc_sel(7)
    by (auto simp: files_ok_def counted_def first_proc_sel(1) NOFILE_def refs_nth length_refs)
qed

theorem descriptors_counted_witness:
  "\<exists>u. sys_dup first_proc = Inr (1, u) \<and> files_ok (\<lambda>_. 0) u"
proof -
  have a: "argfd 0 first_proc = Some (0, 0)"
    by (simp add: argfd_def argint_def fetchint_def first_proc_sel get32_def get16_def as_int_def NOFILE_def Let_def)
  have "[0..<NOFILE] = 0 # 1 # [2..<16]" by (simp add: NOFILE_def upt_conv_Cons)
  then have "fdalloc 0 first_proc = (Some 1, set_fd 1 (Some 0) first_proc)"
    by (simp add: fdalloc_def first_proc_sel(1) numeral_eq_Suc)
  then obtain u where u: "sys_dup first_proc = Inr (1, u)"
    using first_proc_sel(6) by (simp add: sys_dup_def a filedup_def set_fd_def the_file_def)
  have "calls_run first_proc u" using calls_run.call [of first_proc first_proc sys_dup 1 u] calls_run.start u by (simp add: fd_calls_def)
  from descriptors_counted [OF this first_proc_ok] u show ?thesis by auto
qed

end
