(* ===== verification/Directories.thy ===== *)
theory Directories
  imports Fs_Content
begin

text \<open>
  Directories as maps from names to inode numbers: a lookup of a name is a lookup in the map of the
  entries of the file, and \<open>dirlink\<close> is an update of that map.
\<close>

section \<open>Entries\<close>

definition entry_name :: "(nat \<Rightarrow> char) \<Rightarrow> nat \<Rightarrow> string" where
  "entry_name c k = map c [16 * k..<16 * k + 16]"

definition is_named :: "string \<Rightarrow> string \<Rightarrow> bool" where
  "is_named nm de \<longleftrightarrow> dirent_inum de \<noteq> 0 \<and> namecmp nm (dirent_name de) = 0"

definition find_entry :: "(nat \<Rightarrow> char) \<Rightarrow> nat \<Rightarrow> string \<Rightarrow> nat option" where
  "find_entry c n nm = find (\<lambda>k. is_named nm (entry_name c k)) [0..<n]"

definition dir_map :: "'a fsys_scheme \<Rightarrow> nat \<Rightarrow> string \<Rightarrow> nat option" where
  "dir_map s dp nm =
     map_option (\<lambda>k. dirent_inum (entry_name (content s dp) k)) (find_entry (content s dp) (i_size (ino s dp) div 16) nm)"

definition dir_ok :: "'a fsys_scheme \<Rightarrow> nat \<Rightarrow> bool" where
  "dir_ok s dp \<longleftrightarrow> file_ok s dp \<and> inode_home s dp \<and> i_type (ino s dp) = T_DIR \<and> 16 dvd i_size (ino s dp) \<and>
     i_size (ino s dp) \<le> MAXFILE * BSIZE"

lemma length_entry [simp]: "length (entry_name c k) = 16"
  by (simp add: entry_name_def)

lemma entry_cong: "(\<And>j. j < 16 * k + 16 \<Longrightarrow> c j = d j) \<Longrightarrow> entry_name c k = entry_name d k"
  by (simp add: entry_name_def)

lemma length_dirent: "length (dirent inum (strncpy_out DIRSIZ name)) = 16"
  by (simp add: dirent_def DIRSIZ_def)

lemma dirent_fields:
  "dirent_inum (dirent inum (strncpy_out DIRSIZ name)) = inum mod 65536"
  "dirent_name (dirent inum (strncpy_out DIRSIZ name)) = strncpy_out DIRSIZ name"
proof -
  have "inum mod 256 + 256 * (inum div 256 mod 256) = inum mod 65536"
    using mod_mult2_eq [of inum 256 256] by simp
  then show "dirent_inum (dirent inum (strncpy_out DIRSIZ name)) = inum mod 65536"
    by (simp add: dirent_inum_def dirent_def)
  show "dirent_name (dirent inum (strncpy_out DIRSIZ name)) = strncpy_out DIRSIZ name"
    by (simp add: dirent_name_def dirent_def DIRSIZ_def)
qed

lemma is_named_dirent:
  assumes "0 < inum" "inum < 65536"
  shows "is_named nm (dirent inum (strncpy_out DIRSIZ name)) \<longleftrightarrow> namecmp nm name = 0"
  using assms by (simp add: is_named_def dirent_fields namecmp_def strncmp_out_right)

lemma entry_patch:
  assumes "length de = 16"
  shows "entry_name (patch (16 * k) de c) i = (if i = k then de else entry_name c i)"
proof (cases "i = k")
  case True
  then show ?thesis using assms by (auto simp: entry_name_def patch_def intro: nth_equalityI)
next
  case False
  have "patch (16 * k) de c j = c j" if j: "16 * i \<le> j" "j < 16 * i + 16" for j
  proof -
    have "\<not> (16 * k \<le> j \<and> j < 16 * k + 16)" using j False by linarith
    then show ?thesis using assms by (auto simp: patch_def)
  qed
  then show ?thesis using False by (simp add: entry_name_def)
qed

section \<open>The scan\<close>

lemma same_file_dir:
  assumes "same_file dp s t" "dir_ok s dp"
  shows "dir_ok t dp" "i_size (ino t dp) = i_size (ino s dp)" "kept dp s t"
    "k < i_size (ino s dp) div 16 \<Longrightarrow> entry_name (content t dp) k = entry_name (content s dp) k"
proof -
  have ip: "dp < length (icache s)" using assms(2) file_okD(2) by (auto simp: dir_ok_def)
  have t: "touches dp s t" "file_ok t dp" using assms(1) by (auto simp: same_file_def)
  show k: "kept dp s t" by (rule touches_kept [OF t(1) ip])
  note T = touchesD [OF t(1) ip]
  show z: "i_size (ino t dp) = i_size (ino s dp)" by (rule T(5))
  show "dir_ok t dp" using assms(2) t(2) T keptD [OF k] z by (simp add: dir_ok_def)
  show "entry_name (content t dp) k = entry_name (content s dp) k" if "k < i_size (ino s dp) div 16"
  proof (rule entry_cong)
    fix j assume "j < 16 * k + 16"
    moreover have "16 * k + 16 \<le> i_size (ino s dp)" using that by linarith
    ultimately have "j < MAXFILE * BSIZE" using assms(2) by (simp add: dir_ok_def)
    then show "content t dp j = content s dp j" using assms(1) by (simp add: same_file_def)
  qed
qed

lemma find_upt: "k < n \<Longrightarrow> find P [k..<n] = (if P k then Some k else find P [Suc k..<n])"
  by (simp add: upt_conv_Cons)

lemma find_cong_upt: "(\<And>k. a \<le> k \<Longrightarrow> k < b \<Longrightarrow> P k = Q k) \<Longrightarrow> find P [a..<b] = find Q [a..<b]"
  by (rule find_cong) auto

definition scanned_entry :: "(string \<Rightarrow> bool) \<Rightarrow> nat \<Rightarrow> 'a fsys_scheme \<Rightarrow> nat \<Rightarrow> (nat \<times> string) option" where
  "scanned_entry P dp s k =
     map_option (\<lambda>i. (16 * i, entry_name (content s dp) i))
       (find (\<lambda>i. P (entry_name (content s dp) i)) [k..<i_size (ino s dp) div 16])"

lemma scanned_same:
  assumes "same_file dp s t" "dir_ok s dp"
  shows "scanned_entry P dp t k = scanned_entry P dp s k"
proof -
  note S = same_file_dir [OF assms]
  let ?n = "i_size (ino s dp) div 16"
  have "find (\<lambda>i. P (entry_name (content t dp) i)) [k..<?n] = find (\<lambda>i. P (entry_name (content s dp) i)) [k..<?n]"
    using S(4) by (intro find_cong_upt) simp
  moreover have "i < ?n" if "find Q [k..<?n] = Some i" for Q i using find_SomeE [OF that] by simp
  ultimately show ?thesis using S(2,4) by (auto simp: scanned_entry_def intro!: option.map_cong0 split: option.splits)
qed

lemma dir_scan_ok:
  fixes s :: "'a fsys_scheme"
  assumes "dir_ok s dp"
  shows "runs (dir_scan msg P dp (16 * k) s) (\<lambda>(r, t). same_file dp s t \<and> r = scanned_entry P dp s k)"
  using assms
proof (induction "i_size (ino s dp) div 16 - k" arbitrary: k s)
  case (0 k s)
  have "same_file dp s s" using 0(2) touches_refl by (auto simp: same_file_def dir_ok_def)
  moreover have "\<not> 16 * k < i_size (ino s dp)" using 0 by (auto simp: dir_ok_def)
  ultimately show ?case using 0(1) by (simp add: dir_scan.simps [of msg P dp "16 * k" s] scanned_entry_def)
next
  case (Suc m k s)
  let ?n = "i_size (ino s dp) div 16"
  have kn: "k < ?n" using Suc(2) by simp
  have sz: "16 * k + 16 \<le> i_size (ino s dp)" using kn by linarith
  have small: "16 * k < i_size (ino s dp) \<and> 16 * k < 2 ^ 32" "16 * k + 16 \<le> MAXFILE * BSIZE"
    using sz Suc.prems by (auto simp: dir_ok_def fs_consts)
  have rd: "runs (readi dp (16 * k) 16 s) (\<lambda>((r, cs), u). r = 16 \<and> cs = entry_name (content s dp) k \<and> same_file dp s u)"
    using readi_ok [of s dp "16 * k" 16] Suc.prems sz small by (simp add: dir_ok_def T_DIR_def T_DEV_def entry_name_def)
  have "runs (call (readi dp (16 * k) 16 s) (\<lambda>r.
      if fst (fst r) \<noteq> 16 then Inl (Panic msg)
      else if P (snd (fst r)) then Inr (Some (16 * k, snd (fst r)), snd r)
      else dir_scan msg P dp (16 * k + 16) (snd r))) (\<lambda>(r, t). same_file dp s t \<and> r = scanned_entry P dp s k)"
  proof (rule runs_call [OF rd])
    fix x
    assume x: "(\<lambda>((r :: int, cs), u :: 'a fsys_scheme). r = 16 \<and> cs = entry_name (content s dp) k \<and> same_file dp s u) x"
    obtain u where u: "x = ((16, entry_name (content s dp) k), u)" "same_file dp s u" using x by (cases x) auto
    note S = same_file_dir [OF u(2) Suc.prems]
    have step: "16 * Suc k = 16 * k + 16" by simp
    have "runs (dir_scan msg P dp (16 * k + 16) u) (\<lambda>(r, t). same_file dp s t \<and> r = scanned_entry P dp s (Suc k))"
    proof (rule runs_mono [OF Suc.hyps(1) [of u "Suc k", unfolded step]])
      show "m = i_size (ino u dp) div 16 - Suc k" using Suc(2) S(2) by simp
      show "dir_ok u dp" by (rule S(1))
      have "dp < length (icache s)" using Suc.prems file_okD(2) by (auto simp: dir_ok_def)
      then show "case y of (r, t) \<Rightarrow> same_file dp s t \<and> r = scanned_entry P dp s (Suc k)"
        if "case y of (r, t) \<Rightarrow> same_file dp u t \<and> r = scanned_entry P dp u (Suc k)" for y
        using that same_file_trans [OF u(2)] scanned_same [OF u(2) Suc.prems] by auto
    qed
    then show "runs (if fst (fst x) \<noteq> 16 then Inl (Panic msg)
      else if P (snd (fst x)) then Inr (Some (16 * k, snd (fst x)), snd x)
      else dir_scan msg P dp (16 * k + 16) (snd x)) (\<lambda>(r, t). same_file dp s t \<and> r = scanned_entry P dp s k)"
      using u find_upt [OF kn, of "\<lambda>i. P (entry_name (content s dp) i)"] by (simp add: scanned_entry_def)
  qed
  then show ?case using small(1) by (simp add: dir_scan.simps [of msg P dp "16 * k" s])
qed

section \<open>Looking up a name\<close>

lemma find_entry_scanned:
  "scanned_entry (is_named nm) dp s 0 = None \<longleftrightarrow> dir_map s dp nm = None"
  "scanned_entry (is_named nm) dp s 0 = Some (off, de) \<Longrightarrow> dir_map s dp nm = Some (dirent_inum de)"
  by (auto simp: scanned_entry_def dir_map_def find_entry_def)

lemma dirlookup_runs:
  assumes ok: "dir_ok s dp"
    and h: "\<And>t. same_file dp s t \<Longrightarrow> (case scanned_entry (is_named name) dp s 0 of
       None \<Rightarrow> Q (None, t)
     | Some (off, de) \<Rightarrow> runs (iget (dev_of s dp) (dirent_inum de) t) (\<lambda>(ip, u). Q (Some (ip, off), u)))"
  shows "runs (dirlookup dp name s) Q"
proof -
  have p: "(\<lambda>de. dirent_inum de \<noteq> 0 \<and> namecmp name (dirent_name de) = 0) = is_named name"
    by (rule ext) (simp add: is_named_def)
  have "runs (call (dir_scan ''dirlookup read'' (is_named name) dp (16 * 0) s) (\<lambda>(r, s1).
        case r of
          None \<Rightarrow> Inr (None, s1)
        | Some (off, de) \<Rightarrow>
            call (iget (i_dev (ino s1 dp)) (dirent_inum de) s1) (\<lambda>(ip, s2). Inr (Some (ip, off), s2)))) Q"
  proof (rule runs_call [OF dir_scan_ok [OF ok]])
    fix x assume x: "case x of (r, t) \<Rightarrow> same_file dp s t \<and> r = scanned_entry (is_named name) dp s 0"
    obtain t where t: "x = (scanned_entry (is_named name) dp s 0, t)" "same_file dp s t" using x by (cases x) auto
    have d: "i_dev (ino t dp) = dev_of s dp"
      using keptD(3) [OF same_file_dir(3) [OF t(2) ok]] by (simp add: dev_of_def)
    show "runs (case x of (r, s1) \<Rightarrow> case r of None \<Rightarrow> Inr (None, s1)
        | Some (off, de) \<Rightarrow>
            call (iget (i_dev (ino s1 dp)) (dirent_inum de) s1) (\<lambda>(ip, s2). Inr (Some (ip, off), s2))) Q"
    proof (cases "scanned_entry (is_named name) dp s 0")
      case None
      then show ?thesis using h [OF t(2)] by (simp add: t(1))
    next
      case (Some e)
      obtain off de where e: "e = (off, de)" by (cases e)
      have "runs (iget (dev_of s dp) (dirent_inum de) t) (\<lambda>(ip, u). Q (Some (ip, off), u))"
        using h [OF t(2)] by (simp add: Some e)
      then show ?thesis by (simp add: t(1) Some e d) (erule runs_call, auto)
    qed
  qed
  then show ?thesis
    using ok unfolding dirlookup_def p dir_ok_def by simp
qed

text \<open>\<open>iget\<close> has a free slot to use.\<close>

definition has_slot :: "'a fsys_scheme \<Rightarrow> bool" where
  "has_slot s \<longleftrightarrow> length (icache s) = NINODE \<and> (\<exists>ip < NINODE. i_ref (ino s ip) = 0)"

lemma iget_slot:
  assumes "has_slot s"
  shows "\<exists>ip t. iget d i s = Inr (ip, t) \<and> i_inum (ino t ip) = i \<and> i_dev (ino t ip) = d \<and> 0 < i_ref (ino t ip)"
proof (cases "find (\<lambda>ip. 0 < i_ref (ino s ip) \<and> i_dev (ino s ip) = d \<and> i_inum (ino s ip) = i) [0..<NINODE]")
  case None
  obtain ip where f: "find (\<lambda>ip. i_ref (ino s ip) = 0) [0..<NINODE] = Some ip"
    using assms by (cases "find (\<lambda>ip. i_ref (ino s ip) = 0) [0..<NINODE]") (auto simp: has_slot_def find_None_iff)
  have "ip < length (icache s)" using find_SomeE [OF f] assms by (simp add: has_slot_def)
  then show ?thesis using None f by (simp add: iget_def ino_upd)
next
  case (Some ip)
  have "ip < length (icache s)" using find_SomeE [OF Some] assms by (simp add: has_slot_def)
  then show ?thesis using find_SomeE [OF Some] Some by (simp add: iget_def ino_upd)
qed

lemma kept_has_slot: "kept dp s t \<Longrightarrow> has_slot s \<Longrightarrow> has_slot t"
proof -
  assume k: "kept dp s t" and h: "has_slot s"
  have "i_ref (ino t j) = i_ref (ino s j)" for j using k by (cases "j = dp") (auto simp: kept_def)
  then show "has_slot t" using h keptD(6) [OF k] by (simp add: has_slot_def)
qed

lemma dirlookup_ok:
  assumes ok: "dir_ok s dp" and slot: "has_slot s"
  shows "runs (dirlookup dp name s) (\<lambda>(r, t). case dir_map s dp name of
      None \<Rightarrow> r = None
    | Some i \<Rightarrow> \<exists>ip off. r = Some (ip, off) \<and> i_inum (ino t ip) = i \<and> i_dev (ino t ip) = dev_of s dp \<and> 0 < i_ref (ino t ip))"
proof (rule dirlookup_runs [OF ok])
  fix t assume t: "same_file dp s t"
  have slot: "has_slot t" by (rule kept_has_slot [OF same_file_dir(3) [OF t ok] slot])
  show "case scanned_entry (is_named name) dp s 0 of
       None \<Rightarrow> (case (None, t) of (r, t) \<Rightarrow> case dir_map s dp name of None \<Rightarrow> r = None
         | Some i \<Rightarrow> \<exists>ip off. r = Some (ip, off) \<and> i_inum (ino t ip) = i \<and> i_dev (ino t ip) = dev_of s dp \<and> 0 < i_ref (ino t ip))
     | Some (off, de) \<Rightarrow> runs (iget (dev_of s dp) (dirent_inum de) t) (\<lambda>(ip, u). case (Some (ip, off), u) of (r, t) \<Rightarrow>
         case dir_map s dp name of None \<Rightarrow> r = None
         | Some i \<Rightarrow> \<exists>ip off. r = Some (ip, off) \<and> i_inum (ino t ip) = i \<and> i_dev (ino t ip) = dev_of s dp \<and> 0 < i_ref (ino t ip))"
  proof (cases "scanned_entry (is_named name) dp s 0")
    case None
    then show ?thesis using find_entry_scanned(1) [of name dp s] by simp
  next
    case (Some e)
    obtain off de where e: "e = (off, de)" by (cases e)
    have m: "dir_map s dp name = Some (dirent_inum de)" by (rule find_entry_scanned(2) [OF Some [unfolded e]])
    show ?thesis using iget_slot [OF slot, of "dev_of s dp" "dirent_inum de"] by (auto simp: Some e m)
  qed
qed

section \<open>Linking\<close>

lemma find_append: "find P (xs @ ys) = (case find P xs of None \<Rightarrow> find P ys | Some x \<Rightarrow> Some x)"
  by (induction xs) auto

text \<open>Putting an element at a place where there was none.\<close>

lemma find_put:
  assumes "k \<le> n" "\<And>i. i < n \<Longrightarrow> i \<noteq> k \<Longrightarrow> Q i = P i" "k < n \<Longrightarrow> \<not> P k"
  shows "\<not> Q k \<Longrightarrow> find Q [0..<max n (Suc k)] = find P [0..<n]"
    and "Q k \<Longrightarrow> find P [0..<n] = None \<Longrightarrow> find Q [0..<max n (Suc k)] = Some k"
proof -
  have same: "find Q [0..<k] = find P [0..<k]" using assms(1,2) by (intro find_cong_upt) auto
  show "find Q [0..<max n (Suc k)] = find P [0..<n]" if nq: "\<not> Q k"
  proof (cases "k < n")
    case True
    then have "max n (Suc k) = n" by simp
    moreover have "Q i = P i" if "i < n" for i using assms(2,3) nq that True by (cases "i = k") auto
    ultimately show ?thesis by (metis (full_types) find_cong_upt)
  next
    case False
    then have "k = n" using assms(1) by simp
    then show ?thesis using same nq by (simp add: find_append split: option.split)
  qed
  show "find Q [0..<max n (Suc k)] = Some k" if q: "Q k" and none: "find P [0..<n] = None"
  proof -
    have "find Q [0..<k] = None" using none assms(1) by (auto simp: same find_None_iff)
    moreover have "[0..<max n (Suc k)] = [0..<k] @ k # [Suc k..<max n (Suc k)]"
      using upt_add_eq_append [of 0 k "max n (Suc k) - k"] by (simp add: upt_conv_Cons)
    ultimately show ?thesis using q by (simp add: find_append)
  qed
qed

text \<open>The place of a new entry: the first free one, or the end.\<close>

definition free_place :: "'a fsys_scheme \<Rightarrow> nat \<Rightarrow> nat" where
  "free_place s dp =
     (let n = i_size (ino s dp) div 16
      in case find (\<lambda>k. dirent_inum (entry_name (content s dp) k) = 0) [0..<n] of Some k \<Rightarrow> k | None \<Rightarrow> n)"

lemma free_place:
  assumes "free_place s dp = k" "n = i_size (ino s dp) div 16"
  shows "k \<le> n" "k < n \<Longrightarrow> \<not> is_named nm (entry_name (content s dp) k)"
  using assms by (auto simp: free_place_def Let_def is_named_def find_Some_iff split: option.splits)

text \<open>The directory after the entry was written.\<close>

lemma stored_entry:
  fixes s :: "'a fsys_scheme"
  assumes ok: "dir_ok s dp" and k: "free_place s dp = k" and room: "16 * k + 16 \<le> MAXFILE * BSIZE"
    and st: "stored dp (16 * k) (dirent inum (strncpy_out DIRSIZ name)) s t"
    and inum: "0 < inum" "inum < 65536" and new: "dir_map s dp name = None"
  shows "dir_ok t dp" "dir_map t dp nm = (if namecmp nm name = 0 then Some inum else dir_map s dp nm)"
proof -
  let ?de = "dirent inum (strncpy_out DIRSIZ name)"
  define n where "n = i_size (ino s dp) div 16"
  have sz: "i_size (ino s dp) = 16 * n" using ok by (auto simp: dir_ok_def n_def)
  have kd: "kept dp s t" using st by (simp add: stored_def)
  have szt: "i_size (ino t dp) = 16 * max n (Suc k)"
    using st sz length_dirent [of inum name] by (simp add: stored_def max_def)
  have bound: "16 * max n (Suc k) \<le> MAXFILE * BSIZE" using ok room sz by (simp add: dir_ok_def max_def)
  have "16 dvd i_size (ino t dp)" unfolding szt by simp
  moreover have "i_size (ino t dp) \<le> MAXFILE * BSIZE" unfolding szt by (rule bound)
  moreover have "file_ok t dp" using st by (simp add: stored_def)
  ultimately show "dir_ok t dp" using ok keptD [OF kd] by (simp add: dir_ok_def)
  have ent: "entry_name (content t dp) i = (if i = k then ?de else entry_name (content s dp) i)" if i: "i < max n (Suc k)" for i
  proof -
    have "entry_name (content t dp) i = entry_name (patch (16 * k) ?de (content s dp)) i"
    proof (rule entry_cong)
      fix j assume j: "j < 16 * i + 16"
      have "j < 16 * max n (Suc k)" using i j by simp
      then have "j < MAXFILE * BSIZE" by (rule less_le_trans [OF _ bound])
      then show "content t dp j = patch (16 * k) ?de (content s dp) j" using st by (simp add: stored_def)
    qed
    then show ?thesis using entry_patch [OF length_dirent] by simp
  qed
  note F = free_place [OF k n_def]
  let ?P = "\<lambda>i. is_named nm (entry_name (content s dp) i)" and ?Q = "\<lambda>i. is_named nm (if i = k then ?de else entry_name (content s dp) i)"
  have fe: "find_entry (content t dp) (max n (Suc k)) nm = find ?Q [0..<max n (Suc k)]"
    unfolding find_entry_def using ent by (intro find_cong_upt) simp
  have Qk: "?Q k \<longleftrightarrow> namecmp nm name = 0" using is_named_dirent [OF inum] by simp
  have nt: "i_size (ino t dp) div 16 = max n (Suc k)" by (simp add: szt)
  show "dir_map t dp nm = (if namecmp nm name = 0 then Some inum else dir_map s dp nm)"
  proof (cases "namecmp nm name = 0")
    case True
    have "?P i = is_named name (entry_name (content s dp) i)" for i
      using True by (auto simp: is_named_def namecmp_def strncmp_eq)
    then have "find ?P [0..<n] = None" using new by (simp add: dir_map_def find_entry_def n_def)
    from find_put(2) [where P = "?P" and Q = "?Q", OF F(1) _ F(2) _ this] Qk True
    show ?thesis using ent [of k] inum by (simp add: dir_map_def nt fe dirent_fields)
  next
    case False
    have "find ?Q [0..<max n (Suc k)] = find ?P [0..<n]"
      by (rule find_put(1) [where P = "?P" and Q = "?Q", OF F(1) _ F(2)]) (use Qk False in auto)
    moreover have "i < n \<and> i \<noteq> k" if f: "find ?P [0..<n] = Some i" for i
      using find_SomeE [OF f] F(2) by auto
    moreover have "find_entry (content s dp) n nm = find ?P [0..<n]" by (simp add: find_entry_def)
    ultimately show ?thesis using False ent
      by (cases "find ?P [0..<n]") (auto simp: dir_map_def nt fe n_def [symmetric])
  qed
qed

lemma scanned_free:
  assumes "dir_ok s dp"
  shows "(case scanned_entry (\<lambda>de. dirent_inum de = 0) dp s 0 of Some (off, de) \<Rightarrow> off | None \<Rightarrow> 16 * ((i_size (ino s dp) + 15) div 16)) =
    16 * free_place s dp"
proof -
  obtain n where "i_size (ino s dp) = 16 * n" using assms by (auto simp: dir_ok_def)
  then show ?thesis by (simp add: scanned_entry_def free_place_def Let_def split: option.split)
qed

lemma free_place_same:
  assumes "same_file dp s t" "dir_ok s dp"
  shows "free_place t dp = free_place s dp"
proof -
  note S = same_file_dir [OF assms]
  have "find (\<lambda>k. dirent_inum (entry_name (content t dp) k) = 0) [0..<i_size (ino s dp) div 16] =
    find (\<lambda>k. dirent_inum (entry_name (content s dp) k) = 0) [0..<i_size (ino s dp) div 16]"
    using S(4) by (intro find_cong_upt) simp
  then show ?thesis using S(2) by (simp add: free_place_def)
qed

lemma dir_map_same:
  assumes "same_file dp s t" "dir_ok s dp"
  shows "dir_map t dp nm = dir_map s dp nm"
  using scanned_same [OF assms, of "is_named nm" 0] find_entry_scanned [of nm dp t] find_entry_scanned [of nm dp s]
  by (cases "scanned_entry (is_named nm) dp s 0") auto

lemma dirlink_ok:
  fixes s :: "'a fsys_scheme"
  assumes ok: "dir_ok s dp" and new: "dir_map s dp name = None"
    and inum: "0 < inum" "inum < 65536" and room: "16 * free_place s dp + 16 \<le> MAXFILE * BSIZE"
  shows "runs (dirlink dp name inum s) (\<lambda>(r, t). r = 0 \<and> dir_ok t dp \<and> kept dp s t \<and>
      (\<forall>nm. dir_map t dp nm = (if namecmp nm name = 0 then Some inum else dir_map s dp nm)))"
  (is "runs _ ?Q")
  unfolding dirlink_def
proof (rule runs_call [where P = "\<lambda>(r, t). r = None \<and> same_file dp s t"])
  show "runs (dirlookup dp name s) (\<lambda>(r, t). r = None \<and> same_file dp s t)"
    using find_entry_scanned(1) [of name dp s] new by (intro dirlookup_runs [OF ok]) simp
  fix x :: "(nat \<times> nat) option \<times> 'a fsys_scheme"
  assume "case x of (r, t) \<Rightarrow> r = None \<and> same_file dp s t"
  then obtain s1 where x: "x = (None, s1)" and s1: "same_file dp s s1" by (cases x) auto
  note S1 = same_file_dir [OF s1 ok]
  let ?free = "\<lambda>de. dirent_inum de = 0" and ?de = "dirent inum (strncpy_out DIRSIZ name)"
  have "runs (call (dir_scan ''dirlink read'' ?free dp (16 * 0) s1) (\<lambda>(e, s2).
      let off = (case e of Some (off, de) \<Rightarrow> off | None \<Rightarrow> 16 * ((i_size (ino s2 dp) + 15) div 16)) in
      call (writei dp ?de off s2) (\<lambda>(n, s3). if n \<noteq> 16 then Inl (Panic ''dirlink'') else Inr (0, s3)))) ?Q"
  proof (rule runs_call [OF dir_scan_ok [OF S1(1)]])
    fix y assume "case y of (r, t) \<Rightarrow> same_file dp s1 t \<and> r = scanned_entry ?free dp s1 0"
    then obtain s2 where y: "y = (scanned_entry ?free dp s1 0, s2)" and s2: "same_file dp s1 s2" by (cases y) auto
    note S2 = same_file_dir [OF s2 S1(1)]
    define k where "k = free_place s2 dp"
    have kk: "free_place s dp = k"
      using free_place_same [OF s1 ok] free_place_same [OF s2 S1(1)] by (simp add: k_def)
    have off: "(case scanned_entry ?free dp s1 0 of Some (off, de) \<Rightarrow> off | None \<Rightarrow> 16 * ((i_size (ino s2 dp) + 15) div 16)) = 16 * k"
      using scanned_free [OF S2(1)] scanned_same [OF s2 S1(1), of ?free 0] by (simp add: k_def)
    have same: "dir_map s2 dp nm = dir_map s dp nm" for nm
      using dir_map_same [OF s1 ok] dir_map_same [OF s2 S1(1)] by simp
    have kept2: "kept dp s s2" by (rule kept_trans [OF S1(3) S2(3)])
    have le: "16 * k \<le> i_size (ino s2 dp)"
      using free_place(1) [OF k_def [symmetric] refl] S2(1) by (auto simp: dir_ok_def)
    have "runs (writei dp ?de (16 * k) s2) (\<lambda>(n, t). n = int (length ?de) \<and> stored dp (16 * k) ?de s2 t)"
      using S2(1) le room length_dirent [of inum name]
      by (intro writei_ok) (simp_all add: dir_ok_def T_DIR_def T_DEV_def kk)
    then have "runs (call (writei dp ?de (16 * k) s2) (\<lambda>(n, s3). if n \<noteq> 16 then Inl (Panic ''dirlink'') else Inr (0, s3))) ?Q"
    proof (rule runs_call)
      fix z assume "case z of (n, t) \<Rightarrow> n = int (length ?de) \<and> stored dp (16 * k) ?de s2 t"
      then obtain t where z: "z = (16, t)" and t: "stored dp (16 * k) ?de s2 t"
        using length_dirent [of inum name] by (cases z) auto
      have E: "dir_ok t dp" "dir_map t dp nm = (if namecmp nm name = 0 then Some inum else dir_map s2 dp nm)" for nm
        using stored_entry(1) [OF S2(1) k_def [symmetric] _ t inum] stored_entry(2) [OF S2(1) k_def [symmetric] _ t inum, of nm]
        room new by (simp_all add: kk same)
      have "kept dp s t" using kept_trans [OF kept2] t by (simp add: stored_def)
      then show "runs (case z of (n, s3) \<Rightarrow> if n \<noteq> 16 then Inl (Panic ''dirlink'') else Inr (0, s3)) ?Q"
        using E by (simp add: z same)
    qed
    then show "runs (case y of (e, s2) \<Rightarrow>
        let off = (case e of Some (off, de) \<Rightarrow> off | None \<Rightarrow> 16 * ((i_size (ino s2 dp) + 15) div 16)) in
        call (writei dp ?de off s2) (\<lambda>(n, s3). if n \<noteq> 16 then Inl (Panic ''dirlink'') else Inr (0, s3))) ?Q"
      by (simp add: y off)
  qed
  then show "runs (case x of (r, s1) \<Rightarrow> case r of
        Some (ip, off) \<Rightarrow> call (iput ip s1) (\<lambda>s2. Inr (- 1, s2))
      | None \<Rightarrow> call (dir_scan ''dirlink read'' ?free dp 0 s1) (\<lambda>(e, s2).
          let off = (case e of Some (off, de) \<Rightarrow> off | None \<Rightarrow> 16 * ((i_size (ino s2 dp) + 15) div 16)) in
          call (writei dp ?de off s2) (\<lambda>(n, s3). if n \<noteq> 16 then Inl (Panic ''dirlink'') else Inr (0, s3)))) ?Q"
    by (simp add: x)
qed

text \<open>A directory does not see the other inodes of the cache.\<close>

lemma other_inode:
  fixes s :: "'a fsys_scheme"
  assumes "ip \<noteq> dp" "t = s\<lparr>icache := (icache s)[ip := p]\<rparr>" "dir_ok s dp"
  shows "dir_ok t dp" "dir_map t dp nm = dir_map s dp nm"
proof -
  have i: "ino t dp = ino s dp" "length (icache t) = length (icache s)" using assms(1,2) by (simp_all add: ino_def)
  have f: "blk t = blk s" "sb t = sb s" "tx_open t = tx_open s" by (simp_all add: assms(2))
  have a: "dev_of t dp = dev_of s dp" "addr t dp k = addr s dp k" for k by (simp_all add: dev_of_def addr_def i)
  have fb: "file_block t dp n = file_block s dp n" for n by (simp add: file_block_def a f)
  have "content t dp = content s dp" unfolding content_def fb a f ..
  then show "dir_map t dp nm = dir_map s dp nm" by (simp add: dir_map_def i)
  have "used t dp = used s dp" by (simp add: used_def a fb)
  then have "file_ok t dp = file_ok s dp"
    by (simp add: file_ok_def blk_taken_def layout_ok_def bm_def fb a f i)
  then show "dir_ok t dp" using assms(3) by (simp add: dir_ok_def inode_home_def IBLOCK_def i f bm_def)
qed

text \<open>A reference that was just taken is given back without an effect on the disk.\<close>

lemma iget_iput:
  fixes s :: "'a fsys_scheme"
  assumes slot: "has_slot s" and dp: "0 < i_ref (ino s dp)" "i \<noteq> i_inum (ino s dp)"
    and free: "\<forall>j < NINODE. j \<noteq> dp \<longrightarrow> i_lock (ino s j) = None"
  shows "\<exists>ip u p. iget d i s = Inr (ip, u) \<and> iput ip u = Inr (s\<lparr>icache := (icache s)[ip := p]\<rparr>) \<and> ip \<noteq> dp"
proof -
  have len: "length (icache s) = NINODE" using slot by (simp add: has_slot_def)
  obtain ip g where g: "iget d i s = Inr (ip, upd_ino ip g s)" and ip: "ip < NINODE" "ip \<noteq> dp"
    and n: "i_valid (g (ino s ip)) \<longrightarrow> i_ref (g (ino s ip)) \<noteq> 1" "i_lock (g (ino s ip)) = i_lock (ino s ip)"
  proof (cases "find (\<lambda>ip. 0 < i_ref (ino s ip) \<and> i_dev (ino s ip) = d \<and> i_inum (ino s ip) = i) [0..<NINODE]")
    case None
    obtain ip where f: "find (\<lambda>ip. i_ref (ino s ip) = 0) [0..<NINODE] = Some ip"
      using slot by (cases "find (\<lambda>ip. i_ref (ino s ip) = 0) [0..<NINODE]") (auto simp: has_slot_def find_None_iff)
    show ?thesis using None f find_SomeE [OF f] dp(1)
      by (intro that [of ip "\<lambda>p. p\<lparr>i_dev := d, i_inum := i, i_ref := 1, i_valid := False\<rparr>"]) (auto simp: iget_def)
  next
    case (Some ip)
    show ?thesis using Some find_SomeE [OF Some] dp(2)
      by (intro that [of ip "\<lambda>p. p\<lparr>i_ref := i_ref p + 1\<rparr>"]) (auto simp: iget_def)
  qed
  let ?u = "upd_ino ip g s"
  have u: "ino ?u ip = g (ino s ip)" "i_lock (g (ino s ip)) = None" using ip len free n(2) by (simp_all add: ino_upd)
  have "lock_ino ip ?u = Inr (upd_ino ip (i_lock_update (\<lambda>_. Some (pid s))) ?u)"
    by (simp add: lock_ino_def u acquiresleep_def)
  then have "iput ip ?u = Inr (upd_ino ip (\<lambda>p. p\<lparr>i_ref := i_ref p - 1\<rparr>)
      (unlock_ino ip (upd_ino ip (i_lock_update (\<lambda>_. Some (pid s))) ?u)))"
    using n(1) ip len by (auto simp: iput_def ino_upd)
  moreover have "upd_ino ip f1 (unlock_ino ip (upd_ino ip f2 ?u)) = s\<lparr>icache := (icache s)
      [ip := f1 (i_lock_update (\<lambda>_. None) (f2 (g (icache s ! ip))))]\<rparr>" for f1 f2
    using ip len by (simp add: unlock_ino_def upd_ino_def releasesleep_def)
  ultimately have "iput ip ?u = Inr (s\<lparr>icache := (icache s)[ip := (g (icache s ! ip))
      \<lparr>i_lock := None, i_ref := i_ref (g (icache s ! ip)) - 1\<rparr>]\<rparr>)" by simp
  then show ?thesis using g ip(2) by blast
qed

lemma dirlink_exists:
  fixes s :: "'a fsys_scheme"
  assumes ok: "dir_ok s dp" and slot: "has_slot s" and old: "dir_map s dp name = Some i"
    and dp: "0 < i_ref (ino s dp)" "i \<noteq> i_inum (ino s dp)" "\<forall>j < NINODE. j \<noteq> dp \<longrightarrow> i_lock (ino s j) = None"
  shows "runs (dirlink dp name inum s) (\<lambda>(r, t). r = - 1 \<and> dir_ok t dp \<and> (\<forall>nm. dir_map t dp nm = dir_map s dp nm))"
  (is "runs _ ?Q")
  unfolding dirlink_def
proof (rule runs_call)
  let ?R = "\<lambda>(r, t :: 'a fsys_scheme). \<exists>ip off. r = Some (ip :: nat, off :: nat) \<and> runs (iput ip t) (\<lambda>u. ?Q (- 1, u))"
  show "runs (dirlookup dp name s) ?R"
  proof (rule dirlookup_runs [OF ok])
    fix t assume t: "same_file dp s t"
    note S = same_file_dir [OF t ok]
    obtain off de where sc: "scanned_entry (is_named name) dp s 0 = Some (off, de)" and de: "dirent_inum de = i"
      using find_entry_scanned [of name dp s] old by (cases "scanned_entry (is_named name) dp s 0") auto
    have k: "i_ref (ino t dp) = i_ref (ino s dp)" "i_inum (ino t dp) = i_inum (ino s dp)"
      "j \<noteq> dp \<Longrightarrow> ino t j = ino s j" for j using S(3) by (auto simp: kept_def)
    obtain ip u p where g: "iget (dev_of s dp) i t = Inr (ip, u)" "iput ip u = Inr (t\<lparr>icache := (icache t)[ip := p]\<rparr>)" "ip \<noteq> dp"
      using iget_iput [OF kept_has_slot [OF S(3) slot], of dp i "dev_of s dp"] dp k by auto
    have "?Q (- 1, t\<lparr>icache := (icache t)[ip := p]\<rparr>)"
      using other_inode [OF g(3) refl S(1)] dir_map_same [OF t ok] by simp
    then show "case scanned_entry (is_named name) dp s 0 of None \<Rightarrow> ?R (None, t)
      | Some (off, de) \<Rightarrow> runs (iget (dev_of s dp) (dirent_inum de) t) (\<lambda>(ip, u). ?R (Some (ip, off), u))"
      by (simp add: sc de g)
  qed
  fix x assume "?R x"
  then obtain ip off t where x: "x = (Some (ip, off), t)" "runs (iput ip t) (\<lambda>u. ?Q (- 1, u))" by (cases x) auto
  then show "runs (case x of (r, s1) \<Rightarrow> case r of
        Some (ip, off) \<Rightarrow> call (iput ip s1) (\<lambda>s2. Inr (- 1, s2))
      | None \<Rightarrow> call (dir_scan ''dirlink read'' (\<lambda>de. dirent_inum de = 0) dp 0 s1) (\<lambda>(e, s2).
          let off = (case e of Some (off, de) \<Rightarrow> off | None \<Rightarrow> 16 * ((i_size (ino s2 dp) + 15) div 16)) in
          call (writei dp (dirent inum (strncpy_out DIRSIZ name)) off s2)
            (\<lambda>(n, s3). if n \<noteq> 16 then Inl (Panic ''dirlink'') else Inr (0, s3)))) ?Q"
    by simp (erule runs_call, simp)
qed

text \<open>C5: A directory is a map from names to inode numbers, and \<open>dirlink\<close> updates it.  A name that is
  not there gets the inode number, in the first free entry or at the end: every other name still
  finds what it found, and a lookup of the name then gets the inode from the cache.  A name that is
  there makes \<open>dirlink\<close> return -1, and no name changes what it finds.  The inode cache has a free slot;
  for a new name the number is one of an inode and the entry fits into the file; for one that is
  there, the directory has a reference, the name is not the directory itself (\<open>.\<close>), and no other
  inode is locked.  Names are compared by their first 14 characters, so a longer name finds its cut.\<close>

theorem dirlink_updates:
  fixes s :: "'a fsys_scheme"
  assumes ok: "dir_ok s dp" and slot: "has_slot s"
    and new: "dir_map s dp name = None \<Longrightarrow> 0 < inum \<and> inum < 65536 \<and> 16 * free_place s dp + 16 \<le> MAXFILE * BSIZE"
    and old: "\<And>i. dir_map s dp name = Some i \<Longrightarrow> 0 < i_ref (ino s dp) \<and> i \<noteq> i_inum (ino s dp) \<and>
      (\<forall>j < NINODE. j \<noteq> dp \<longrightarrow> i_lock (ino s j) = None)"
  shows "runs (dirlink dp name inum s) (\<lambda>(r, t). dir_ok t dp \<and> (case dir_map s dp name of
        Some i \<Rightarrow> r = - 1 \<and> (\<forall>nm. dir_map t dp nm = dir_map s dp nm)
      | None \<Rightarrow> r = 0 \<and> (\<forall>nm. dir_map t dp nm = (if namecmp nm name = 0 then Some inum else dir_map s dp nm)) \<and>
          runs (dirlookup dp name t) (\<lambda>(x, u). \<exists>ip off. x = Some (ip, off) \<and> i_inum (ino u ip) = inum \<and>
            i_dev (ino u ip) = dev_of s dp)))"
proof (cases "dir_map s dp name")
  case (Some i)
  have o: "0 < i_ref (ino s dp)" "i \<noteq> i_inum (ino s dp)" "\<forall>j < NINODE. j \<noteq> dp \<longrightarrow> i_lock (ino s j) = None"
    using old [OF Some] by blast+
  show ?thesis by (rule runs_mono [OF dirlink_exists [OF ok slot Some o]]) (auto simp: Some)
next
  case None
  have n: "0 < inum" "inum < 65536" "16 * free_place s dp + 16 \<le> MAXFILE * BSIZE" using new [OF None] by blast+
  show ?thesis
  proof (rule runs_mono [OF dirlink_ok [OF ok None n]])
    fix x :: "int \<times> 'a fsys_scheme"
    assume x: "case x of (r, t) \<Rightarrow> r = 0 \<and> dir_ok t dp \<and> kept dp s t \<and>
        (\<forall>nm. dir_map t dp nm = (if namecmp nm name = 0 then Some inum else dir_map s dp nm))"
    obtain r t where rt: "x = (r, t)" by (cases x)
    have "dir_map t dp name = Some inum" using x by (simp add: rt namecmp_def strncmp_eq)
    then have "runs (dirlookup dp name t) (\<lambda>(x, u). \<exists>ip off. x = Some (ip, off) \<and> i_inum (ino u ip) = inum \<and>
          i_dev (ino u ip) = dev_of s dp)"
      using dirlookup_ok [of t dp name] x kept_has_slot [of dp s t] slot keptD(3) [of dp s t]
      by (auto simp: rt elim!: runs_mono)
    with x show "case x of (r, t) \<Rightarrow> dir_ok t dp \<and> (case dir_map s dp name of
        Some i \<Rightarrow> r = - 1 \<and> (\<forall>nm. dir_map t dp nm = dir_map s dp nm)
      | None \<Rightarrow> r = 0 \<and> (\<forall>nm. dir_map t dp nm = (if namecmp nm name = 0 then Some inum else dir_map s dp nm)) \<and>
          runs (dirlookup dp name t) (\<lambda>(x, u). \<exists>ip off. x = Some (ip, off) \<and> i_inum (ino u ip) = inum \<and>
            i_dev (ino u ip) = dev_of s dp))"
      by (simp add: rt None)
  qed
qed

text \<open>The disk of \<open>small_fs\<close> with an empty directory.\<close>

definition small_dir :: fsys where
  "small_dir = small_fs\<lparr>icache := (ino small_fs 0)\<lparr>i_type := T_DIR\<rparr> #
     replicate 49 \<lparr>i_dev = 0, i_inum = 0, i_ref = 0, i_lock = None, i_valid = False, i_type = 0, i_major = 0,
       i_minor = 0, i_nlink = 0, i_size = 0, i_addrs = replicate 8 0, i_permission = 0, i_owner = replicate 16 NUL\<rparr>\<rparr>"

lemma small_dir_ino: "ino small_dir 0 = (ino small_fs 0)\<lparr>i_type := T_DIR\<rparr>" "length (icache small_dir) = NINODE"
  "ino small_dir 1 = \<lparr>i_dev = 0, i_inum = 0, i_ref = 0, i_lock = None, i_valid = False, i_type = 0, i_major = 0,
     i_minor = 0, i_nlink = 0, i_size = 0, i_addrs = replicate 8 0, i_permission = 0, i_owner = replicate 16 NUL\<rparr>"
  by (simp_all add: small_dir_def ino_def NINODE_def)

lemma small_dir_locks: "j < NINODE \<Longrightarrow> j \<noteq> 0 \<Longrightarrow> i_lock (ino small_dir j) = None"
  by (simp add: small_dir_def ino_def NINODE_def nth_Cons' )

lemma small_dir_ok: "dir_ok small_dir 0" "has_slot small_dir" "dir_map small_dir 0 nm = None" "free_place small_dir 0 = 0"
proof -
  have f: "blk small_dir = blk small_fs" "sb small_dir = sb small_fs" "tx_open small_dir = tx_open small_fs"
    by (simp_all add: small_dir_def)
  have a: "addr small_dir 0 k = addr small_fs 0 k" "dev_of small_dir 0 = dev_of small_fs 0" for k
    by (simp_all add: addr_def dev_of_def small_dir_ino)
  have fb: "file_block small_dir 0 k = file_block small_fs 0 k" for k by (simp add: file_block_def a f)
  have "0 < length (icache small_dir)" unfolding small_dir_ino(2) by (simp add: NINODE_def)
  then have "file_ok small_dir 0"
    using small_ok by (simp add: file_ok_def used_def blk_taken_def layout_ok_def bm_def fb a f small_dir_ino(1))
  then show "dir_ok small_dir 0"
    by (simp add: dir_ok_def small_dir_ino(1) small_ino inode_home_def IBLOCK_def f bm_def small_sel fs_consts)
  have "1 < NINODE" by (simp add: NINODE_def)
  then show "has_slot small_dir" using small_dir_ino(2,3) by (auto simp: has_slot_def)
  show "dir_map small_dir 0 nm = None" by (simp add: dir_map_def find_entry_def small_dir_ino(1) small_ino)
  show "free_place small_dir 0 = 0" by (simp add: free_place_def small_dir_ino(1) small_ino)
qed

lemma small_dirlink: "\<exists>t. dirlink 0 ''a'' 7 small_dir = Inr (0, t)"
proof -
  have "ino small_dir 0 = (ino small_fs 0)\<lparr>i_type := T_DIR\<rparr>" "icache small_dir \<noteq> []"
    by (simp_all add: small_dir_ino) (simp add: small_dir_def)
  then have l: "like_small small_dir"
    by (auto simp: like_small_def T_DIR_def T_DEV_def intro!: exI [of _ T_DIR]) (simp_all add: small_dir_def small_sel)
  have "length (dirent 7 (strncpy_out DIRSIZ ''a'')) = 16" by (rule length_dirent)
  moreover from this have "dirent 7 (strncpy_out DIRSIZ ''a'') \<noteq> []" by auto
  ultimately obtain t where w: "writei 0 (dirent 7 (strncpy_out DIRSIZ ''a'')) 0 small_dir = Inr (16, t)"
    using small_write [OF l, of "dirent 7 (strncpy_out DIRSIZ ''a'')"] by auto
  have "dir_scan msg P 0 0 small_dir = Inr (None, small_dir)" for msg P
    by (simp add: dir_scan.simps [of msg P 0 0] small_dir_ino(1) small_ino)
  then show ?thesis using w by (simp add: dirlink_def dirlookup_def small_dir_ino(1) small_ino)
qed

text \<open>Linking \<open>a\<close>, then linking it again.\<close>

theorem dirlink_updates_witness:
  "\<exists>t. dirlink 0 ''a'' 7 small_dir = Inr (0, t) \<and> dir_map t 0 ''a'' = Some 7 \<and> dir_map t 0 ''b'' = None \<and>
     runs (dirlink 0 ''a'' 8 t) (\<lambda>(r, u). r = - 1 \<and> dir_map u 0 ''a'' = Some 7)"
proof -
  obtain t where t: "dirlink 0 ''a'' 7 small_dir = Inr (0, t)" using small_dirlink by blast
  have "runs (dirlink 0 ''a'' 7 small_dir) (\<lambda>(r, t). dir_ok t 0 \<and> (case dir_map small_dir 0 ''a'' of
        Some i \<Rightarrow> r = - 1 \<and> (\<forall>nm. dir_map t 0 nm = dir_map small_dir 0 nm)
      | None \<Rightarrow> r = 0 \<and> (\<forall>nm. dir_map t 0 nm = (if namecmp nm ''a'' = 0 then Some 7 else dir_map small_dir 0 nm)) \<and>
          runs (dirlookup 0 ''a'' t) (\<lambda>(x, u). \<exists>ip off. x = Some (ip, off) \<and> i_inum (ino u ip) = 7 \<and>
            i_dev (ino u ip) = dev_of small_dir 0)))"
    by (rule dirlink_updates) (simp_all add: small_dir_ok fs_consts)
  then have m: "dir_ok t 0" "dir_map t 0 ''a'' = Some 7" "dir_map t 0 ''b'' = None"
    using t by (simp_all add: small_dir_ok namecmp_def strncmp_eq DIRSIZ_def)
  have "runs (dirlink 0 ''a'' 7 small_dir) (\<lambda>(r, t). kept 0 small_dir t)"
    by (rule runs_mono [OF dirlink_ok]) (auto simp: small_dir_ok fs_consts)
  then have k: "kept 0 small_dir t" using t by simp
  have "0 < i_ref (ino t 0)" "i_inum (ino t 0) \<noteq> 7" "\<forall>j < NINODE. j \<noteq> 0 \<longrightarrow> i_lock (ino t j) = None"
    using k by (auto simp: kept_def small_dir_ino small_ino small_dir_locks)
  then have "runs (dirlink 0 ''a'' 8 t) (\<lambda>(r, u). dir_ok u 0 \<and> (case dir_map t 0 ''a'' of
        Some i \<Rightarrow> r = - 1 \<and> (\<forall>nm. dir_map u 0 nm = dir_map t 0 nm)
      | None \<Rightarrow> r = 0 \<and> (\<forall>nm. dir_map u 0 nm = (if namecmp nm ''a'' = 0 then Some 8 else dir_map t 0 nm)) \<and>
          runs (dirlookup 0 ''a'' u) (\<lambda>(x, v). \<exists>ip off. x = Some (ip, off) \<and> i_inum (ino v ip) = 8 \<and>
            i_dev (ino v ip) = dev_of t 0)))"
    using m kept_has_slot [OF k small_dir_ok(2)] by (intro dirlink_updates) simp_all
  then have "runs (dirlink 0 ''a'' 8 t) (\<lambda>(r, u). r = - 1 \<and> dir_map u 0 ''a'' = Some 7)"
    by (rule runs_mono) (auto simp: m)
  then show ?thesis using t m by blast
qed

end
