(* ===== verification/Ulib.thy ===== *)
theory Ulib
  imports Cstring
begin

text \<open>
  The library of the user programs (\<open>ulib.c\<close>, \<open>printf.c\<close>).  What a program reads is the list of the
  characters that are still to come, what it prints the list of the characters written.
\<close>

section \<open>Strings\<close>

fun strcpy :: "string \<Rightarrow> string \<Rightarrow> string" where
  "strcpy s [] = NUL # tl s"
| "strcpy s (c # t) = (if c = NUL then NUL # tl s else c # strcpy (tl s) t)"

fun strcmp :: "string \<Rightarrow> string \<Rightarrow> int" where
  "strcmp [] q = - of_char (c_hd q)"
| "strcmp (c # p) q = (if c \<noteq> NUL \<and> c = c_hd q then strcmp p (tl q) else of_char c - of_char (c_hd q))"

text \<open>The position of a character in a string.\<close>

fun strchr :: "string \<Rightarrow> char \<Rightarrow> nat option" where
  "strchr [] c = None"
| "strchr (a # s) c = (if a = NUL then None else if a = c then Some 0 else map_option Suc (strchr s c))"

text \<open>The loop of \<open>gets\<close>, with room for \<open>n\<close> more characters: the line, and what is left to read.\<close>

fun gets_loop :: "nat \<Rightarrow> string \<Rightarrow> string \<times> string" where
  "gets_loop 0 inp = ([], inp)"
| "gets_loop (Suc n) [] = ([], [])"
| "gets_loop (Suc n) (c # inp) =
     (if c = CHR 0x0A \<or> c = CHR 0x0D then ([c], inp)
      else case gets_loop n inp of (l, rest) \<Rightarrow> (c # l, rest))"

definition gets :: "string \<Rightarrow> nat \<Rightarrow> string \<Rightarrow> string \<times> string" where
  "gets buf nbuf inp =
     (case gets_loop (nbuf - 1) inp of (l, rest) \<Rightarrow> (l @ NUL # drop (length l + 1) buf, rest))"

definition is_digit :: "char \<Rightarrow> bool" where
  "is_digit c \<longleftrightarrow> (of_char CHR ''0'' :: nat) \<le> of_char c \<and> (of_char c :: nat) \<le> of_char CHR ''9''"

fun atoi_from :: "i32 \<Rightarrow> string \<Rightarrow> i32" where
  "atoi_from n [] = n"
| "atoi_from n (c # s) = (if is_digit c then atoi_from (n * 10 + of_char c - of_char CHR ''0'') s else n)"

definition atoi :: "string \<Rightarrow> i32" where "atoi s = atoi_from 0 s"

text \<open>Unlike the kernel's, this \<open>memmove\<close> always copies forwards.\<close>

definition u_memmove :: "nat \<Rightarrow> nat \<Rightarrow> nat \<Rightarrow> bytes \<Rightarrow> bytes" where
  "u_memmove dst src n m = copy_forward dst src n m"

section \<open>Printing\<close>

definition digits :: string where "digits = ''0123456789ABCDEF''"

text \<open>The digits of a number, the last one first; the base is 10 or 16.\<close>

function digits_of :: "nat \<Rightarrow> nat \<Rightarrow> string" where
  "digits_of base x = digits ! (x mod base) # (if base < 2 \<or> x div base = 0 then [] else digits_of base (x div base))"
  by pat_completeness auto
termination
  by (relation "measure snd") (auto simp: div_eq_0_iff)

declare digits_of.simps [simp del]

definition printint :: "i32 \<Rightarrow> nat \<Rightarrow> bool \<Rightarrow> string" where
  "printint xx base sg =
     (let neg = (sg \<and> sint xx < 0); x = unat (if neg then - xx else xx)
      in (if neg then ''-'' else []) @ rev (digits_of base x))"

text \<open>The text that \<open>printf\<close> writes: \<open>ap\<close> gives the words on the stack behind the format, \<open>k\<close> counts
  those used, and \<open>str\<close> gives the string at an address.\<close>

fun printf_from :: "bool \<Rightarrow> string \<Rightarrow> (nat \<Rightarrow> i32) \<Rightarrow> nat \<Rightarrow> (i32 \<Rightarrow> string) \<Rightarrow> string" where
  "printf_from pct [] ap k str = []"
| "printf_from pct (c # fmt) ap k str =
     (if c = NUL then []
      else if \<not> pct then
        (if c = CHR ''%'' then printf_from True fmt ap k str else c # printf_from False fmt ap k str)
      else if c = CHR ''d'' then printint (ap k) 10 True @ printf_from False fmt ap (k + 1) str
      else if c = CHR ''x'' \<or> c = CHR ''p'' then printint (ap k) 16 False @ printf_from False fmt ap (k + 1) str
      else if c = CHR ''s'' then
        (if ap k = 0 then ''(null)'' else cstr (str (ap k))) @ printf_from False fmt ap (k + 1) str
      else if c = CHR ''c'' then char_of (unat (ap k)) # printf_from False fmt ap (k + 1) str
      else if c = CHR ''%'' then c # printf_from False fmt ap k str
      else CHR ''%'' # c # printf_from False fmt ap k str)"

definition printf :: "string \<Rightarrow> (nat \<Rightarrow> i32) \<Rightarrow> (i32 \<Rightarrow> string) \<Rightarrow> string" where
  "printf fmt ap str = printf_from False fmt ap 0 str"

section \<open>Numbers\<close>

text \<open>The number that a list of decimal digits denotes, the last digit first.\<close>

primrec decimal :: "string \<Rightarrow> nat" where
  "decimal [] = 0"
| "decimal (c # ds) = (of_char c - 48) + 10 * decimal ds"

lemma digit_char: "x < 10 \<Longrightarrow> (of_char (digits ! x) :: nat) = 48 + x"
proof -
  assume "x < 10"
  then have "x \<in> {0, 1, 2, 3, 4, 5, 6, 7, 8, 9}" by auto
  then show ?thesis by (auto simp: digits_def)
qed

lemma digits_of_decimal: "decimal (digits_of 10 x) = x \<and> (\<forall>c \<in> set (digits_of 10 x). is_digit c)"
proof (induction "10 :: nat" x rule: digits_of.induct)
  case (1 x)
  have d: "(of_char (digits ! (x mod 10)) :: nat) = 48 + x mod 10" by (rule digit_char) simp
  have "x mod 10 < 10" by simp
  then have "x mod 10 \<le> 9" by linarith
  then show ?case using 1 d by (subst (1 2) digits_of.simps) (auto simp: is_digit_def)
qed

lemma atoi_digit: "is_digit c \<Longrightarrow> (of_char c :: i32) - of_char CHR ''0'' = of_nat (of_char c - 48)"
proof -
  assume "is_digit c"
  then have "48 \<le> (of_char c :: nat)" by (simp add: is_digit_def)
  then have "(of_nat (of_char c - 48) :: i32) = of_nat (of_char c) - 48" by (simp add: of_nat_diff)
  then show ?thesis by (simp add: of_nat_of_char)
qed

lemma atoi_append: "\<forall>c \<in> set xs. is_digit c \<Longrightarrow> atoi_from n (xs @ ys) = atoi_from (atoi_from n xs) ys"
  by (induction xs arbitrary: n) auto

lemma atoi_rev: "\<forall>c \<in> set ds. is_digit c \<Longrightarrow> atoi_from 0 (rev ds) = of_nat (decimal ds)"
proof (induction ds)
  case (Cons c ds)
  then have "atoi_from 0 (rev ds @ [c]) = of_nat (decimal ds) * 10 + (of_char c - of_char CHR ''0'')"
    by (simp add: atoi_append)
  also have "\<dots> = of_nat (decimal ds) * 10 + of_nat (of_char c - 48)"
    using Cons.prems by (simp only: atoi_digit list.set_intros)
  finally show ?case by simp
qed simp

text \<open>C34: What \<open>printf\<close> writes for a number with \<open>%d\<close> is its sign and decimal digits that \<open>atoi\<close> reads
  back as its absolute value, for every 32-bit number; for the smallest one the absolute value wraps around.\<close>

theorem printint_atoi:
  "\<exists>ds. printf ''%d'' (\<lambda>_. n) str = (if sint n < 0 then ''-'' else []) @ ds \<and>
     list_all is_digit ds \<and> ds \<noteq> [] \<and> atoi ds = (if sint n < 0 then - n else n)"
proof -
  let ?x = "if sint n < 0 then - n else n"
  let ?ds = "rev (digits_of 10 (unat ?x))"
  note d = digits_of_decimal [of "unat ?x"]
  have "atoi ?ds = ?x" using d atoi_rev [of "digits_of 10 (unat ?x)"] by (simp add: atoi_def)
  moreover have "?ds \<noteq> []" by (subst digits_of.simps) simp
  moreover have "list_all is_digit ?ds" using d by (simp add: list_all_iff)
  moreover have "printf ''%d'' (\<lambda>_. n) str = (if sint n < 0 then ''-'' else []) @ ?ds"
    by (simp add: printf_def printint_def Let_def)
  ultimately show ?thesis by blast
qed

end
