(* ===== verification/Grep.thy ===== *)
theory Grep
  imports Ulib
begin

text \<open>
  \<open>grep.c\<close>: the matcher for the operators \<open>^ . * $\<close>, and the loop that reads a file through a buffer
  of 1024 characters and prints the lines that match.  The matcher is compared with the language of
  the pattern.
\<close>

section \<open>The matcher\<close>

lemma tl_less: "c_hd s \<noteq> NUL \<Longrightarrow> length (tl s) < length s"
  by (cases s) auto

lemma tl_tl_less: "c_hd (tl s) \<noteq> NUL \<Longrightarrow> Suc (length (tl (tl s))) < length s"
  by (cases s; cases "tl s") auto

function matchhere :: "string \<Rightarrow> string \<Rightarrow> bool" and matchstar :: "char \<Rightarrow> string \<Rightarrow> string \<Rightarrow> bool" where
  "matchhere re text =
     (if c_hd re = NUL then True
      else if c_hd (tl re) = CHR ''*'' then matchstar (c_hd re) (tl (tl re)) text
      else if c_hd re = CHR ''$'' \<and> c_hd (tl re) = NUL then c_hd text = NUL
      else if c_hd text \<noteq> NUL \<and> (c_hd re = CHR ''.'' \<or> c_hd re = c_hd text) then matchhere (tl re) (tl text)
      else False)"
| "matchstar c re text =
     (if matchhere re text then True
      else if c_hd text \<noteq> NUL \<and> (c_hd text = c \<or> c = CHR ''.'') then matchstar c re (tl text)
      else False)"
  by pat_completeness auto
termination
  by (relation "measures [\<lambda>x. case x of Inl (re, text) \<Rightarrow> length re | Inr (c, re, text) \<Rightarrow> Suc (length re),
      \<lambda>x. case x of Inl (re, text) \<Rightarrow> length text | Inr (c, re, text) \<Rightarrow> length text]")
    (auto simp del: length_tl intro!: tl_less tl_tl_less)

declare matchhere.simps [simp del] matchstar.simps [simp del]

fun match_from :: "string \<Rightarrow> string \<Rightarrow> bool" where
  "match_from re [] = matchhere re []"
| "match_from re (c # text) = (if matchhere re (c # text) then True else if c \<noteq> NUL then match_from re text else False)"

definition match :: "string \<Rightarrow> string \<Rightarrow> bool" where
  "match re text = (if c_hd re = CHR ''^'' then matchhere (tl re) text else match_from re text)"

section \<open>The loop over a file\<close>

text \<open>The lines of the buffer: what is printed, and the rest behind the last newline.\<close>

lemma strchr_less: "strchr s c = Some i \<Longrightarrow> i < length s"
  by (induction s arbitrary: i) (auto split: if_splits)

function grep_lines :: "string \<Rightarrow> string \<Rightarrow> string \<times> string" where
  "grep_lines re p =
     (case strchr p CHR 0x0A of
        None \<Rightarrow> ([], p)
      | Some i \<Rightarrow>
          (case grep_lines re (drop (Suc i) p) of
             (out, rest) \<Rightarrow> ((if match re (take i p) then take (Suc i) p else []) @ out, rest)))"
  by pat_completeness auto
termination
  by (relation "measure (\<lambda>(re, p). length p)") (auto dest: strchr_less)

declare grep_lines.simps [simp del]

text \<open>The test \<open>p == buf\<close>: nothing was consumed, and what was read is dropped.\<close>

definition grep_buf :: "string \<Rightarrow> string \<Rightarrow> string \<times> string" where
  "grep_buf re b =
     (case grep_lines re b of (out, rest) \<Rightarrow> (out, if length rest = length b then [] else rest))"

text \<open>The loop over the data that the reads return.\<close>

fun grep_reads :: "string \<Rightarrow> string \<Rightarrow> string list \<Rightarrow> string" where
  "grep_reads re b [] = []"
| "grep_reads re b (c # cs) =
     (if c = [] then []
      else case grep_buf re (b @ c) of (out, b1) \<Rightarrow> out @ grep_reads re b1 cs)"

definition BUF :: nat where "BUF = 1024"

definition grep :: "string \<Rightarrow> string list \<Rightarrow> string" where "grep re cs = grep_reads re [] cs"

section \<open>Patterns\<close>

datatype atom = Any | Lit char

definition atom_of :: "char \<Rightarrow> atom" where
  "atom_of c = (if c = CHR ''.'' then Any else Lit c)"

datatype item = One atom | Many atom

text \<open>A pattern behind \<open>^\<close>: its items, and whether it ends in \<open>$\<close>.\<close>

fun pattern :: "string \<Rightarrow> item list \<times> bool" where
  "pattern [] = ([], False)"
| "pattern [c] = (if c = CHR ''$'' then ([], True) else ([One (atom_of c)], False))"
| "pattern (c # d # re) =
     (if d = CHR ''*'' then apfst (Cons (Many (atom_of c))) (pattern re)
      else apfst (Cons (One (atom_of c))) (pattern (d # re)))"

primrec atom_lang :: "atom \<Rightarrow> char set" where
  "atom_lang Any = UNIV"
| "atom_lang (Lit c) = {c}"

primrec item_lang :: "item \<Rightarrow> string set" where
  "item_lang (One a) = {[c] | c. c \<in> atom_lang a}"
| "item_lang (Many a) = {s. set s \<subseteq> atom_lang a}"

primrec items_lang :: "item list \<Rightarrow> string set" where
  "items_lang [] = {[]}"
| "items_lang (i # is) = {s @ t | s t. s \<in> item_lang i \<and> t \<in> items_lang is}"

text \<open>A text is accepted when some part of it is in the language: at the start for \<open>^\<close>, at the end for \<open>$\<close>.\<close>

definition accepts_here :: "string \<Rightarrow> string \<Rightarrow> bool" where
  "accepts_here re text \<longleftrightarrow>
     (case pattern re of (is, at_end) \<Rightarrow> \<exists>s t. text = s @ t \<and> s \<in> items_lang is \<and> (at_end \<longrightarrow> t = []))"

definition accepts :: "string \<Rightarrow> string \<Rightarrow> bool" where
  "accepts re text \<longleftrightarrow>
     (if c_hd re = CHR ''^'' then accepts_here (tl re) text else \<exists>u v. text = u @ v \<and> accepts_here re v)"

section \<open>The matcher accepts the language\<close>

lemma accepts_here_Nil: "accepts_here [] text"
  by (auto simp: accepts_here_def)

lemma accepts_here_one:
  "accepts_here [c] text \<longleftrightarrow>
     (if c = CHR ''$'' then text = [] else \<exists>x v. text = x # v \<and> x \<in> atom_lang (atom_of c))"
  by (auto simp: accepts_here_def) (metis append_Cons append_Nil)

lemma accepts_here_star:
  "accepts_here (c # CHR ''*'' # re) text \<longleftrightarrow>
     (\<exists>u v. text = u @ v \<and> set u \<subseteq> atom_lang (atom_of c) \<and> accepts_here re v)"
proof -
  obtain "is" e where p: "pattern re = (is, e)" by (cases "pattern re")
  show ?thesis by (simp add: accepts_here_def p) (metis append.assoc)
qed

lemma accepts_here_char:
  assumes "d \<noteq> CHR ''*''"
  shows "accepts_here (c # d # re) text \<longleftrightarrow>
     (\<exists>x v. text = x # v \<and> x \<in> atom_lang (atom_of c) \<and> accepts_here (d # re) v)"
proof -
  obtain "is" e where p: "pattern (d # re) = (is, e)" by (cases "pattern (d # re)")
  show ?thesis using assms by (simp add: accepts_here_def p) (metis append_Cons append_Nil)
qed

definition many :: "char \<Rightarrow> string \<Rightarrow> string \<Rightarrow> bool" where
  "many c re text \<longleftrightarrow> (\<exists>u v. text = u @ v \<and> set u \<subseteq> atom_lang (atom_of c) \<and> accepts_here re v)"

lemma many_step:
  "many c re text \<longleftrightarrow> accepts_here re text \<or> (\<exists>x v. text = x # v \<and> x \<in> atom_lang (atom_of c) \<and> many c re v)"
proof
  assume "many c re text"
  then obtain u v where u: "text = u @ v" "set u \<subseteq> atom_lang (atom_of c)" "accepts_here re v" by (auto simp: many_def)
  then show "accepts_here re text \<or> (\<exists>x v. text = x # v \<and> x \<in> atom_lang (atom_of c) \<and> many c re v)"
    by (cases u) (auto simp: many_def)
next
  assume "accepts_here re text \<or> (\<exists>x v. text = x # v \<and> x \<in> atom_lang (atom_of c) \<and> many c re v)"
  then consider "accepts_here re text" | x u v where "text = x # u @ v" "x \<in> atom_lang (atom_of c)"
    "set u \<subseteq> atom_lang (atom_of c)" "accepts_here re v" by (auto simp: many_def)
  then show "many c re text"
  proof cases
    case 1
    then show ?thesis unfolding many_def by (intro exI [of _ "[]"] exI [of _ "text"]) simp
  next
    case (2 x u v)
    then show ?thesis unfolding many_def by (intro exI [of _ "x # u"] exI [of _ v]) simp
  qed
qed

lemma in_atom: "x \<in> atom_lang (atom_of c) \<longleftrightarrow> c = CHR ''.'' \<or> c = x"
  by (auto simp: atom_of_def)

lemma c_hd_text: "NUL \<notin> set text \<Longrightarrow> c_hd text = NUL \<longleftrightarrow> text = []"
  by (cases "text") auto

lemma match_lang:
  "NUL \<notin> set re \<Longrightarrow> NUL \<notin> set text \<Longrightarrow> matchhere re text = accepts_here re text"
  "NUL \<notin> set re \<Longrightarrow> NUL \<notin> set text \<Longrightarrow> matchstar c re text = many c re text"
proof (induction re "text" and c re "text" rule: matchhere_matchstar.induct)
  case (1 re "text")
  show ?case
  proof (cases re)
    case Nil
    then show ?thesis by (simp add: matchhere.simps [of "[]" "text"] accepts_here_Nil)
  next
    case c: (Cons c rs)
    have cn: "c \<noteq> NUL" using 1(3) by (auto simp: c)
    show ?thesis
    proof (cases rs)
      case Nil
      have "matchhere [] t = True" for t by (simp add: matchhere.simps [of "[]"])
      then show ?thesis using cn 1(4) unfolding c Nil
        by (cases "text") (auto simp: matchhere.simps [of "[c]"] accepts_here_one in_atom)
    next
      case d: (Cons d rs')
      have dn: "d \<noteq> NUL" using 1(3) by (auto simp: c d)
      show ?thesis
      proof (cases "d = CHR ''*''")
        case True
        have "matchstar c rs' text = many c rs' text" using 1(1) 1(3,4) cn True by (simp add: c d)
        then show ?thesis using cn True by (simp add: c d matchhere.simps [of "c # CHR ''*'' # rs'" "text"] accepts_here_star many_def)
      next
        case False
        show ?thesis
        proof (cases "text")
          case Nil
          then show ?thesis using cn dn False by (simp add: c d matchhere.simps [of "c # d # rs'" "[]"] accepts_here_char)
        next
          case x: (Cons x v)
          have xn: "x \<noteq> NUL" "NUL \<notin> set v" using 1(4) by (auto simp: x)
          have "matchhere (d # rs') v = accepts_here (d # rs') v" if "c = CHR ''.'' \<or> c = x"
            using 1(2) 1(3) cn dn False xn that by (simp add: c d x)
          then show ?thesis using cn dn False xn
            by (auto simp: c d x matchhere.simps [of "c # d # rs'" "x # v"] accepts_here_char in_atom)
        qed
      qed
    qed
  qed
next
  case (2 c re "text")
  show ?case
  proof (cases "matchhere re text")
    case True
    then show ?thesis using 2(1) 2(3,4) many_step [of c re "text"] by (simp add: matchstar.simps [of c re "text"])
  next
    case False
    then have na: "\<not> accepts_here re text" using 2(1) 2(3,4) by simp
    show ?thesis
    proof (cases "text")
      case Nil
      then show ?thesis using False na many_step [of c re "[]"] by (simp add: matchstar.simps [of c re "[]"])
    next
      case (Cons x v)
      have xn: "x \<noteq> NUL" "NUL \<notin> set v" using 2(4) by (auto simp: Cons)
      have "matchstar c re v = many c re v" if "x = c \<or> c = CHR ''.''"
        using 2(2) [OF False] 2(3) xn that by (simp add: Cons)
      then show ?thesis using False na many_step [of c re "text"] xn
        by (auto simp: Cons matchstar.simps [of c re "x # v"] in_atom)
    qed
  qed
qed

lemma match_from_lang:
  "NUL \<notin> set re \<Longrightarrow> NUL \<notin> set t \<Longrightarrow> match_from re t \<longleftrightarrow> (\<exists>u v. t = u @ v \<and> accepts_here re v)"
proof (induction t)
  case (Cons c t)
  have "(\<exists>u v. c # t = u @ v \<and> accepts_here re v) \<longleftrightarrow>
    accepts_here re (c # t) \<or> (\<exists>u v. t = u @ v \<and> accepts_here re v)"
    by (metis append_Cons append_Nil list.inject neq_Nil_conv)
  then show ?case using Cons match_lang(1) [of re "c # t"] by auto
qed (simp add: match_lang(1))

lemma match_accepts:
  assumes "NUL \<notin> set re" "NUL \<notin> set text"
  shows "match re text = accepts re text"
proof -
  have "NUL \<notin> set (tl re)" using assms(1) by (cases re) auto
  then show ?thesis using assms by (simp add: match_def accepts_def match_lang(1) match_from_lang)
qed

section \<open>The loop prints the lines that match\<close>

text \<open>The lines of a text that end in a newline, and the part behind the last newline.\<close>

fun lines_of :: "string \<Rightarrow> string list \<times> string" where
  "lines_of [] = ([], [])"
| "lines_of (c # s) =
     (case lines_of s of (ls, r) \<Rightarrow>
        if c = CHR 0x0A then ([] # ls, r)
        else case ls of [] \<Rightarrow> ([], c # r) | l # ls' \<Rightarrow> ((c # l) # ls', r))"

definition complete :: "string \<Rightarrow> string list" where "complete s = fst (lines_of s)"

definition trailing :: "string \<Rightarrow> string" where "trailing s = snd (lines_of s)"

lemma lines_of_eq: "lines_of s = (complete s, trailing s)"
  by (simp add: complete_def trailing_def)

lemma complete_Nil [simp]: "complete [] = []" "trailing [] = []"
  by (simp_all add: complete_def trailing_def)

lemma complete_Cons:
  "complete (c # s) =
     (if c = CHR 0x0A then [] # complete s else case complete s of [] \<Rightarrow> [] | l # ls \<Rightarrow> (c # l) # ls)"
  "trailing (c # s) = (if c = CHR 0x0A \<or> complete s \<noteq> [] then trailing s else c # trailing s)"
  by (auto simp: complete_def trailing_def split: prod.splits list.splits)

lemma no_newline: "complete s = [] \<longleftrightarrow> CHR 0x0A \<notin> set s"
  by (induction s) (auto simp: complete_Cons split: list.splits)

lemma trailing_same: "CHR 0x0A \<notin> set s \<Longrightarrow> trailing s = s"
  by (induction s) (auto simp: complete_Cons no_newline)

lemma trailing_ends: "\<exists>u. s = u @ trailing s \<and> (complete s \<noteq> [] \<longrightarrow> u \<noteq> [])"
proof (induction s)
  case (Cons c s)
  then obtain u where u: "s = u @ trailing s" by blast
  show ?case
  proof (cases "c = CHR 0x0A \<or> complete s \<noteq> []")
    case True
    then show ?thesis using u by (auto simp: complete_Cons intro!: exI [of _ "c # u"])
  next
    case False
    then have "complete s = []" "trailing s = s" by (simp_all add: no_newline trailing_same)
    then show ?thesis using False by (simp add: complete_Cons)
  qed
qed simp

lemma trailing_clean: "CHR 0x0A \<notin> set (trailing s)"
  by (induction s) (auto simp: complete_Cons)

lemma complete_append:
  "complete (x @ y) = complete x @ complete (trailing x @ y)"
  by (induction x) (auto simp: complete_Cons split: list.splits)

lemma strchr_split:
  "strchr p c = Some i \<Longrightarrow> p = take i p @ c # drop (Suc i) p \<and> c \<notin> set (take i p)"
  by (induction p arbitrary: i) (auto split: if_splits)

lemma strchr_absent: "NUL \<notin> set p \<Longrightarrow> strchr p c = None \<longleftrightarrow> c \<notin> set p"
  by (induction p) auto

lemma complete_line:
  assumes "CHR 0x0A \<notin> set l"
  shows "complete (l @ CHR 0x0A # s) = l # complete s \<and> trailing (l @ CHR 0x0A # s) = trailing s"
  using assms by (induction l) (auto simp: complete_Cons)

definition printed :: "string \<Rightarrow> string list \<Rightarrow> string" where
  "printed re ls = concat (map (\<lambda>l. l @ [CHR 0x0A]) (filter (accepts re) ls))"

lemma printed_simps [simp]:
  "printed re [] = []"
  "printed re (l # ls) = (if accepts re l then l @ [CHR 0x0A] else []) @ printed re ls"
  "printed re (ls @ ms) = printed re ls @ printed re ms"
  by (simp_all add: printed_def)

lemma grep_lines_printed:
  assumes "NUL \<notin> set re"
  shows "NUL \<notin> set p \<Longrightarrow> grep_lines re p = (printed re (complete p), trailing p)"
proof (induction "length p" arbitrary: p rule: less_induct)
  case less
  show ?case
  proof (cases "strchr p CHR 0x0A")
    case None
    then have "CHR 0x0A \<notin> set p" using less.prems by (simp add: strchr_absent)
    then show ?thesis using None by (simp add: grep_lines.simps [of re p] no_newline [THEN iffD2] trailing_same)
  next
    case (Some i)
    define l and r where "l = take i p" and "r = drop (Suc i) p"
    have p: "p = l @ CHR 0x0A # r" and l: "CHR 0x0A \<notin> set l" using strchr_split [OF Some] by (simp_all add: l_def r_def)
    have n: "NUL \<notin> set l" "NUL \<notin> set r" using less.prems unfolding p by auto
    have i: "i = length l" using strchr_less [OF Some] by (simp add: l_def)
    have "grep_lines re r = (printed re (complete r), trailing r)" using less.hyps [of r] n p by simp
    then have "grep_lines re p = ((if match re l then l @ [CHR 0x0A] else []) @ printed re (complete r), trailing r)"
      using Some i unfolding p by (simp add: grep_lines.simps [of re "l @ CHR 0x0A # r"])
    then show ?thesis using complete_line [OF l, of r] match_accepts [OF assms n(1)] p by simp
  qed
qed

lemma long_line:
  assumes "CHR 0x0A \<notin> set x" "\<forall>l \<in> set (complete (x @ y)). length l < length x"
  shows "complete (x @ y) = []"
proof (rule ccontr)
  assume "complete (x @ y) \<noteq> []"
  then have "CHR 0x0A \<in> set y" using assms(1) by (simp add: no_newline)
  then obtain u v where y: "y = u @ CHR 0x0A # v" "CHR 0x0A \<notin> set u" by (meson split_list_first)
  then have "complete (x @ y) = (x @ u) # complete v" using complete_line [of "x @ u" v] assms(1) by simp
  then show False using assms(2) by simp
qed

text \<open>Reads that the loop handles: each returns something that fits into the buffer behind what was
  kept, and but for the last, the buffer then has a newline or is full.\<close>

definition keeps :: "string \<Rightarrow> string" where
  "keeps b = (if complete b = [] then [] else trailing b)"

fun reads_fit :: "string \<Rightarrow> string list \<Rightarrow> bool" where
  "reads_fit b [] = True"
| "reads_fit b (c # cs) \<longleftrightarrow> c \<noteq> [] \<and> length (b @ c) \<le> BUF - 1 \<and>
     (cs \<noteq> [] \<longrightarrow> CHR 0x0A \<in> set (b @ c) \<or> length (b @ c) = BUF - 1) \<and> reads_fit (keeps (b @ c)) cs"

lemma grep_buf_printed:
  assumes "NUL \<notin> set re" "NUL \<notin> set b"
  shows "grep_buf re b = (printed re (complete b), keeps b)"
proof (cases "complete b = []")
  case True
  then show ?thesis using grep_lines_printed [OF assms] trailing_same [of b]
    by (simp add: grep_buf_def keeps_def no_newline)
next
  case False
  obtain u where "b = u @ trailing b" "u \<noteq> []" using trailing_ends [of b] False by blast
  then have "length (trailing b) < length b" by (metis length_append length_greater_0_conv less_add_same_cancel2)
  then show ?thesis using False grep_lines_printed [OF assms] by (simp add: grep_buf_def keeps_def)
qed

lemma keeps_set: "NUL \<notin> set b \<Longrightarrow> NUL \<notin> set (keeps b)"
proof -
  assume n: "NUL \<notin> set b"
  obtain u where "b = u @ trailing b" using trailing_ends [of b] by blast
  then show ?thesis using n by (metis Un_iff empty_iff keeps_def list.set(1) set_append)
qed

lemma complete_keeps:
  assumes "CHR 0x0A \<in> set b \<or> length b = BUF - 1 \<or> y = []" "\<forall>l \<in> set (complete (b @ y)). length l < BUF - 1"
  shows "complete (b @ y) = complete b @ complete (keeps b @ y)"
proof (cases "complete b = []")
  case True
  then have nl: "CHR 0x0A \<notin> set b" by (simp add: no_newline)
  show ?thesis
  proof (cases "y = []")
    case False
    then have "length b = BUF - 1" using assms(1) nl by simp
    then have none: "complete (b @ y) = []" using long_line [OF nl, of y] assms(2) by metis
    then have "CHR 0x0A \<notin> set y" by (simp add: no_newline)
    then have "complete y = []" by (rule no_newline [THEN iffD2])
    then show ?thesis using none True by (metis append_Nil keeps_def)
  next
    case y: True
    show ?thesis using True unfolding y keeps_def by simp
  qed
next
  case False
  then show ?thesis using complete_append [of b y] by (simp add: keeps_def)
qed

lemma grep_reads_printed:
  assumes "NUL \<notin> set re"
  shows "reads_fit b cs \<Longrightarrow> NUL \<notin> set (b @ concat cs) \<Longrightarrow> CHR 0x0A \<notin> set b \<Longrightarrow>
    \<forall>l \<in> set (complete (b @ concat cs)). length l < BUF - 1 \<Longrightarrow>
    grep_reads re b cs = printed re (complete (b @ concat cs))"
proof (induction cs arbitrary: b)
  case Nil
  then show ?case by (simp add: no_newline [THEN iffD2])
next
  case (Cons c cs)
  have n: "NUL \<notin> set (b @ c)" using Cons.prems(2) by simp
  have nk: "NUL \<notin> set (keeps (b @ c) @ concat cs)" using keeps_set [OF n] Cons.prems(2) by simp
  have fit: "CHR 0x0A \<in> set (b @ c) \<or> length (b @ c) = BUF - 1 \<or> concat cs = []" using Cons.prems(1) by auto
  have short: "\<forall>l \<in> set (complete ((b @ c) @ concat cs)). length l < BUF - 1" using Cons.prems(4) by simp
  note split = complete_keeps [OF fit short]
  have "CHR 0x0A \<notin> set (keeps (b @ c))" using trailing_clean [of "b @ c"] by (simp add: keeps_def)
  then have "grep_reads re (keeps (b @ c)) cs = printed re (complete (keeps (b @ c) @ concat cs))"
    using Cons.IH [OF _ nk] Cons.prems(1) short unfolding split by auto
  then have "grep_reads re b (c # cs) = printed re (complete (b @ c)) @ printed re (complete (keeps (b @ c) @ concat cs))"
    using Cons.prems(1) grep_buf_printed [OF assms n] by simp
  then show ?case using split by simp
qed

text \<open>A file: every read fills the buffer, as long as there is something to read.\<close>

function file_reads :: "string \<Rightarrow> string \<Rightarrow> string list" where
  "file_reads b inp =
     (let c = take (BUF - length b - 1) inp
      in if c = [] then [] else c # file_reads (keeps (b @ c)) (drop (length c) inp))"
  by pat_completeness auto
termination
  by (relation "measure (\<lambda>(b, inp). length inp)") (auto simp: Let_def)

declare file_reads.simps [simp del]

lemma length_keeps: "length b \<le> BUF - 1 \<Longrightarrow> length (keeps b) < BUF - 1"
proof (cases "complete b = []")
  case False
  assume l: "length b \<le> BUF - 1"
  obtain u where "b = u @ trailing b" "u \<noteq> []" using trailing_ends [of b] False by blast
  then have "length (trailing b) < length b" by (metis length_append length_greater_0_conv less_add_same_cancel2)
  then show ?thesis using False l by (simp add: keeps_def)
qed (simp add: keeps_def BUF_def)

lemma file_reads_fit: "length b < BUF - 1 \<Longrightarrow> reads_fit b (file_reads b inp) \<and> concat (file_reads b inp) = inp"
proof (induction b inp rule: file_reads.induct)
  case (1 b inp)
  define c where "c = take (BUF - length b - 1) inp"
  show ?case
  proof (cases "c = []")
    case True
    then have "inp = []" using 1(2) by (auto simp: c_def)
    then show ?thesis by (simp add: file_reads.simps [of b])
  next
    case False
    have le: "length (b @ c) \<le> BUF - 1" using 1(2) by (simp add: c_def)
    have f: "file_reads b inp = c # file_reads (keeps (b @ c)) (drop (length c) inp)"
      using False by (simp add: file_reads.simps [of b inp] Let_def c_def)
    note ih = 1(1) [OF c_def False length_keeps [OF le]]
    have inp: "c @ drop (length c) inp = inp" unfolding c_def by (metis append_take_drop_id length_take min.commute take_all_iff drop_all nle_le min_def)
    have "length (b @ c) = BUF - 1" if "file_reads (keeps (b @ c)) (drop (length c) inp) \<noteq> []"
    proof -
      have "drop (length c) inp \<noteq> []" using that by (auto simp: file_reads.simps [of _ "[]"])
      then show ?thesis using 1(2) by (simp add: c_def)
    qed
    then show ?thesis using False le ih inp by (auto simp: f)
  qed
qed

text \<open>C23: For a pattern of the operators \<open>^ . * $\<close> and an input without NUL characters, \<open>grep\<close> prints exactly
  the lines of its input in which the language of the pattern occurs (at the start for \<open>^\<close>, at the end
  for \<open>$\<close>), in their order, each with its newline: for lines of at most 1022 characters, and if every
  read but the last leaves a newline in the buffer or fills it.  A last line without a newline is
  not printed.  The second part is a file, whose reads fill the buffer.\<close>

theorem grep_prints_matching:
  assumes "NUL \<notin> set re" "NUL \<notin> set inp" "\<forall>l \<in> set (complete inp). length l \<le> 1022"
  shows "(\<forall>cs. concat cs = inp \<and> reads_fit [] cs \<longrightarrow>
      grep re cs = concat (map (\<lambda>l. l @ [CHR 0x0A]) (filter (accepts re) (complete inp)))) \<and>
    grep re (file_reads [] inp) = concat (map (\<lambda>l. l @ [CHR 0x0A]) (filter (accepts re) (complete inp)))"
proof -
  have "\<forall>l \<in> set (complete inp). length l < 1023" using assms(3) by (simp add: less_Suc_eq_le [symmetric])
  then have "grep re cs = printed re (complete inp)" if "concat cs = inp" "reads_fit [] cs" for cs
    using grep_reads_printed [OF assms(1) that(2)] that(1) assms(2) by (simp add: grep_def BUF_def)
  moreover have "concat (file_reads [] inp) = inp" "reads_fit [] (file_reads [] inp)"
    using file_reads_fit [of "[]" inp] by (simp_all add: BUF_def)
  ultimately show ?thesis by (simp add: printed_def)
qed

text \<open>At \<open>b*c$\<close> and three lines in two reads, the last line open.\<close>

theorem grep_prints_matching_witness:
  "\<exists>cs. cs = [''abbc'' @ [CHR 0x0A] @ ''c'', ''a'' @ [CHR 0x0A] @ ''c''] \<and> reads_fit [] cs \<and>
     grep ''b*c$'' cs = ''abbc'' @ [CHR 0x0A]"
proof -
  let ?re = "''b*c$''" and ?inp = "''abbc'' @ [CHR 0x0A] @ ''ca'' @ [CHR 0x0A] @ ''c''"
  let ?cs = "[''abbc'' @ [CHR 0x0A] @ ''c'', ''a'' @ [CHR 0x0A] @ ''c'']"
  have c: "complete ?inp = [''abbc'', ''ca'']" by (simp add: complete_Cons)
  have fit: "concat ?cs = ?inp" "reads_fit [] ?cs" by (simp_all add: BUF_def keeps_def complete_Cons)
  have "(\<forall>cs. concat cs = ?inp \<and> reads_fit [] cs \<longrightarrow>
      grep ?re cs = concat (map (\<lambda>l. l @ [CHR 0x0A]) (filter (accepts ?re) (complete ?inp)))) \<and>
    grep ?re (file_reads [] ?inp) = concat (map (\<lambda>l. l @ [CHR 0x0A]) (filter (accepts ?re) (complete ?inp)))"
    by (rule grep_prints_matching, simp, simp) (unfold c, simp)
  then have g: "grep ?re ?cs = concat (map (\<lambda>l. l @ [CHR 0x0A]) (filter (accepts ?re) (complete ?inp)))"
    using fit by blast
  have "accepts ?re ''abbc''" "\<not> accepts ?re ''ca''"
    by (simp_all add: match_accepts [symmetric] match_def matchhere.simps matchstar.simps)
  then have "grep ?re ?cs = ''abbc'' @ [CHR 0x0A]" unfolding g c by simp
  then show ?thesis using fit by blast
qed

text \<open>From a pipe or the console a read may end inside the first line of the buffer.  The test \<open>p == buf\<close>
  then drops what was read, so a line that comes in two parts is lost.\<close>

lemma short_read_drops_line:
  "accepts ''b'' ''abc'' \<and> grep ''b'' [''ab'', ''c'' @ [CHR 0x0A]] = [] \<and>
   grep ''b'' [''abc'' @ [CHR 0x0A]] = ''abc'' @ [CHR 0x0A]"
proof -
  have a: "accepts ''b'' ''abc''" "\<not> accepts ''b'' ''c''"
    by (simp_all add: match_accepts [symmetric] match_def matchhere.simps)
  show ?thesis using a by (simp add: grep_def grep_buf_def grep_lines_printed complete_Cons)
qed

end
