(* ===== verification/Shell.thy ===== *)
theory Shell
  imports Ulib
begin

text \<open>
  The shell's parser (\<open>sh.c\<close>).  The line is a list \<open>b\<close> of characters without a null character, a
  pointer into it a number up to \<open>length b\<close>, where the terminating null character is; a command tree
  holds, as in the code, where its words begin and end.
\<close>

section \<open>Tokens\<close>

definition whitespace :: string where
  "whitespace = [CHR '' '', CHR 0x09, CHR 0x0D, CHR 0x0A, CHR 0x0B]"

definition symbols :: string where "symbols = ''<|>&;()''"

text \<open>The character at a pointer.\<close>

definition char_at :: "string \<Rightarrow> nat \<Rightarrow> char" where
  "char_at b p = (if p < length b then b ! p else NUL)"

definition skip_white :: "string \<Rightarrow> nat \<Rightarrow> nat" where
  "skip_white b p = scan (\<lambda>i. strchr whitespace (b ! i) \<noteq> None) (length b) p"

definition skip_word :: "string \<Rightarrow> nat \<Rightarrow> nat" where
  "skip_word b p = scan (\<lambda>i. strchr whitespace (b ! i) = None \<and> strchr symbols (b ! i) = None) (length b) p"

text \<open>The token, where its text begins and ends, and the pointer to the next one.\<close>

definition gettoken :: "string \<Rightarrow> nat \<Rightarrow> (char \<times> nat \<times> nat) \<times> nat" where
  "gettoken b p =
     (let q = skip_white b p; c = char_at b q;
          (ret, eq) =
            (if c = NUL then (c, q)
             else if c \<in> {CHR ''|'', CHR ''('', CHR '')'', CHR '';'', CHR ''&'', CHR ''<''} then (c, q + 1)
             else if c = CHR ''>'' then
               (if char_at b (q + 1) = CHR ''>'' then (CHR ''+'', q + 2) else (c, q + 1))
             else (CHR ''a'', skip_word b q))
      in ((ret, q, eq), skip_white b eq))"

definition peek :: "string \<Rightarrow> nat \<Rightarrow> string \<Rightarrow> bool \<times> nat" where
  "peek b p toks =
     (let s = skip_white b p in (char_at b s \<noteq> NUL \<and> strchr toks (char_at b s) \<noteq> None, s))"

section \<open>Command trees\<close>

text \<open>The arguments of an \<open>execcmd\<close> are the pairs of \<open>argv\<close> and \<open>eargv\<close> in front of the null pointer.\<close>

datatype cmd =
    Exec_cmd "(nat \<times> nat) list"
  | Redir_cmd cmd nat nat nat nat
  | Pipe_cmd cmd cmd
  | List_cmd cmd cmd
  | Back_cmd cmd

definition MAXARGS :: nat where "MAXARGS = 10"

text \<open>The store of an argument through the pointer to the \<open>execcmd\<close>, which redirections may surround.\<close>

primrec add_arg :: "nat \<times> nat \<Rightarrow> cmd \<Rightarrow> cmd" where
  "add_arg a (Exec_cmd args) = Exec_cmd (args @ [a])"
| "add_arg a (Redir_cmd c q eq mode fd) = Redir_cmd (add_arg a c) q eq mode fd"
| "add_arg a (Pipe_cmd l r) = Pipe_cmd l r"
| "add_arg a (List_cmd l r) = List_cmd l r"
| "add_arg a (Back_cmd c) = Back_cmd c"

definition redirect :: "char \<Rightarrow> cmd \<Rightarrow> nat \<Rightarrow> nat \<Rightarrow> cmd" where
  "redirect tok c q eq =
     (if tok = CHR ''<'' then Redir_cmd c q eq O_RDONLY 0
      else if tok = CHR ''>'' then Redir_cmd c q eq (O_WRONLY OR O_CREATE) 1
      else if tok = CHR ''+'' then Redir_cmd c q eq (O_WRONLY OR O_CREATE) 1
      else c)"

section \<open>The tokenizer moves forwards\<close>

lemma skip_white_bounds: "p \<le> length b \<Longrightarrow> p \<le> skip_white b p \<and> skip_white b p \<le> length b"
  unfolding skip_white_def by (rule scan_bounds)

lemma skip_white_le: "p \<le> skip_white b p"
  using skip_white_bounds [of p b] scan_step(2) [of p "length b" "\<lambda>i. strchr whitespace (b ! i) \<noteq> None"]
  by (cases "p \<le> length b") (auto simp: skip_white_def)

lemma skip_white_again [simp]: "skip_white b (skip_white b p) = skip_white b p"
  using scan_stops [of "\<lambda>i. strchr whitespace (b ! i) \<noteq> None" "length b" p]
  unfolding skip_white_def by (subst scan.simps) auto

lemma skip_white_stops: "skip_white b p < length b \<Longrightarrow> strchr whitespace (b ! skip_white b p) = None"
  using scan_stops [of "\<lambda>i. strchr whitespace (b ! i) \<noteq> None" "length b" p] by (simp add: skip_white_def)

lemma skip_word_bounds: "p \<le> length b \<Longrightarrow> p \<le> skip_word b p \<and> skip_word b p \<le> length b"
  unfolding skip_word_def by (rule scan_bounds)

lemma char_at_not_NUL: "char_at b p \<noteq> NUL \<Longrightarrow> p < length b"
  by (simp add: char_at_def split: if_splits)

lemma strchr_symbols:
  "strchr symbols c \<noteq> None \<longleftrightarrow> c \<in> {CHR ''<'', CHR ''|'', CHR ''>'', CHR ''&'', CHR '';'', CHR ''('', CHR '')''}"
  by (simp add: symbols_def)

lemma strchr_whitespace:
  "strchr whitespace c \<noteq> None \<longleftrightarrow> c \<in> {CHR '' '', CHR 0x09, CHR 0x0D, CHR 0x0A, CHR 0x0B}"
  by (simp add: whitespace_def)

lemma skip_word_less:
  assumes "q < length b" "strchr whitespace (b ! q) = None" "strchr symbols (b ! q) = None"
  shows "q < skip_word b q"
  using assms skip_word_bounds [of "Suc q" b] by (simp add: skip_word_def scan_step(1))

lemma gettoken_cases:
  assumes "gettoken b p = ((ret, q, eq), p')"
  shows "q = skip_white b p" "p' = skip_white b eq" "q \<le> eq" "ret = NUL \<longleftrightarrow> char_at b q = NUL"
    "ret \<noteq> NUL \<longrightarrow> q < length b \<and> q < eq \<and> eq \<le> length b"
    "ret = CHR ''a'' \<longrightarrow> eq = skip_word b q \<and> strchr whitespace (b ! q) = None \<and> strchr symbols (b ! q) = None"
proof -
  let ?q = "skip_white b p"
  have word: "?q < skip_word b ?q \<and> skip_word b ?q \<le> length b \<and> strchr whitespace (b ! ?q) = None \<and> strchr symbols (b ! ?q) = None"
    if "?q < length b" "char_at b ?q \<notin> {CHR ''|'', CHR ''('', CHR '')'', CHR '';'', CHR ''&'', CHR ''<'', CHR ''>''}"
  proof -
    have "strchr symbols (b ! ?q) = None" using strchr_symbols [of "b ! ?q"] that by (auto simp: char_at_def)
    then show ?thesis using that(1) skip_white_stops [of b p] skip_word_less [of ?q b] skip_word_bounds [of ?q b] by simp
  qed
  have two: "char_at b (?q + 1) = CHR ''>'' \<Longrightarrow> ?q + 2 \<le> length b" using char_at_not_NUL [of b "?q + 1"] by simp
  note d = assms [unfolded gettoken_def Let_def]
  show "q = skip_white b p" "p' = skip_white b eq" using d by (auto split: if_splits)
  show "q \<le> eq" "ret = NUL \<longleftrightarrow> char_at b q = NUL" "ret \<noteq> NUL \<longrightarrow> q < length b \<and> q < eq \<and> eq \<le> length b"
    "ret = CHR ''a'' \<longrightarrow> eq = skip_word b q \<and> strchr whitespace (b ! q) = None \<and> strchr symbols (b ! q) = None"
    using d word char_at_not_NUL [of b ?q] two by (auto split: if_splits)
qed

lemma gettoken_less:
  assumes "gettoken b p = ((ret, q, eq), p')" "ret \<noteq> NUL"
  shows "p < p'" "p < length b"
  using gettoken_cases [OF assms(1)] assms(2) skip_white_le [of p b] skip_white_le [of eq b] by auto

lemma peek_le: "peek b p toks = (y, p') \<Longrightarrow> p \<le> p'"
  using skip_white_le [of p b] by (auto simp: peek_def Let_def)

lemma peek_token:
  assumes "peek b p toks = (True, p1)"
  shows "p1 < snd (gettoken b p1)" "p1 < length b"
proof -
  obtain ret q eq p' where g: "gettoken b p1 = ((ret, q, eq), p')" by (metis surj_pair)
  have "char_at b p1 \<noteq> NUL" "p1 = skip_white b p" using assms by (auto simp: peek_def Let_def)
  then have "ret \<noteq> NUL" using gettoken_cases(1,4) [OF g] by simp
  then show "p1 < snd (gettoken b p1)" "p1 < length b" using gettoken_less [OF g] g by simp_all
qed

section \<open>The parser\<close>

function parseredirs :: "string \<Rightarrow> nat \<Rightarrow> cmd \<Rightarrow> (cmd \<times> nat) kres" where
  "parseredirs b p c =
     (case peek b p ''<>'' of
        (False, p1) \<Rightarrow> Inr (c, p1)
      | (True, p1) \<Rightarrow>
          (case gettoken b p1 of
             ((tok, _, _), p2) \<Rightarrow>
               (case gettoken b p2 of
                  ((tok2, q, eq), p3) \<Rightarrow>
                    if tok2 \<noteq> CHR ''a'' then Inl (Panic ''missing file for redirection'')
                    else parseredirs b p3 (redirect tok c q eq))))"
  by pat_completeness auto
termination
proof (relation "measure (\<lambda>(b, p, c). length b - p)", goal_cases)
  case (2 b p c x p1 t1 p2 tok s1 q1 e1 t2 p3 tok2 s2 q2 e2)
  then have p: "peek b p ''<>'' = (True, p1)" and g: "snd (gettoken b p1) = p2"
    and h: "gettoken b p2 = ((CHR ''a'', q2, e2), p3)"
    by (metis (full_types), metis snd_conv, metis)
  have "p \<le> p1" "p1 < p2" "p1 < length b" "p2 < p3"
    using peek_le [OF p] peek_token [OF p] g gettoken_less(1) [OF h] by simp_all
  then show ?case by simp
qed simp

declare parseredirs.simps [simp del]


lemma parseredirs_le: "parseredirs b p c = Inr (c', p') \<Longrightarrow> p \<le> p'"
proof (induction b p c arbitrary: c' p' rule: parseredirs.induct)
  case (1 b p c)
  obtain y p1 where p: "peek b p ''<>'' = (y, p1)" by (cases "peek b p ''<>''")
  obtain tok q1 e1 p2 where g: "gettoken b p1 = ((tok, q1, e1), p2)" by (metis surj_pair)
  obtain tok2 q e p3 where h: "gettoken b p2 = ((tok2, q, e), p3)" by (metis surj_pair)
  show ?case
  proof (cases y)
    case False
    then show ?thesis using 1(2) p peek_le [OF p] by (simp add: parseredirs.simps [of b p])
  next
    case True
    then have t: "tok2 = CHR ''a''" and r: "parseredirs b p3 (redirect tok c q e) = Inr (c', p')"
      using 1(2) p g h by (auto simp: parseredirs.simps [of b p] split: if_splits)
    have "p3 \<le> p'" using 1(1) [OF p [symmetric]] True g h t r by simp
    then show ?thesis
      using peek_le [OF p] peek_token(1) [of b p "''<>''" p1] p True g gettoken_less(1) [OF h] t by simp
  qed
qed

text \<open>The loop over the arguments of a command; \<open>argc\<close> counts them.\<close>

function parseargs :: "string \<Rightarrow> nat \<Rightarrow> nat \<Rightarrow> cmd \<Rightarrow> (cmd \<times> nat) kres" where
  "parseargs b p argc c =
     (case peek b p ''|)&;'' of
        (True, p1) \<Rightarrow> Inr (c, p1)
      | (False, p1) \<Rightarrow>
          (case gettoken b p1 of
             ((tok, q, eq), p2) \<Rightarrow>
               if tok = NUL then Inr (c, p2)
               else if tok \<noteq> CHR ''a'' then Inl (Panic ''syntax'')
               else if argc + 1 \<ge> MAXARGS then Inl (Panic ''too many args'')
               else case parseredirs b p2 (add_arg (q, eq) c) of
                   Inl e \<Rightarrow> Inl e
                 | Inr (c2, p3) \<Rightarrow> parseargs b p3 (argc + 1) c2))"
  by pat_completeness auto
termination
  by (relation "measure (\<lambda>(b, p, argc, c). MAXARGS - argc)") auto

declare parseargs.simps [simp del]

text \<open>The loop that puts commands into the background.\<close>

function parseback :: "string \<Rightarrow> nat \<Rightarrow> cmd \<Rightarrow> cmd \<times> nat" where
  "parseback b p c =
     (case peek b p ''&'' of
        (False, p1) \<Rightarrow> (c, p1)
      | (True, p1) \<Rightarrow> parseback b (snd (gettoken b p1)) (Back_cmd c))"
  by pat_completeness auto
termination
proof (relation "measure (\<lambda>(b, p, c). length b - p)", goal_cases)
  case (2 b p c x p1)
  then show ?case using peek_le [of b p "''&''" True p1] peek_token [of b p "''&''" p1] by force
qed simp

declare parseback.simps [simp del]

text \<open>The four parsers call each other; \<open>k\<close> bounds the depth of the calls.\<close>

fun parseline :: "nat \<Rightarrow> string \<Rightarrow> nat \<Rightarrow> (cmd \<times> nat) kres"
  and parsepipe :: "nat \<Rightarrow> string \<Rightarrow> nat \<Rightarrow> (cmd \<times> nat) kres"
  and parseblock :: "nat \<Rightarrow> string \<Rightarrow> nat \<Rightarrow> (cmd \<times> nat) kres"
  and parseexec :: "nat \<Rightarrow> string \<Rightarrow> nat \<Rightarrow> (cmd \<times> nat) kres" where
  "parseline 0 b p = Inl Diverge"
| "parseline (Suc k) b p =
     call (parsepipe k b p) (\<lambda>(c, p1).
       case parseback b p1 c of
         (c2, p2) \<Rightarrow>
           (case peek b p2 '';'' of
              (False, p3) \<Rightarrow> Inr (c2, p3)
            | (True, p3) \<Rightarrow> call (parseline k b (snd (gettoken b p3))) (\<lambda>(r, p4). Inr (List_cmd c2 r, p4))))"
| "parsepipe 0 b p = Inl Diverge"
| "parsepipe (Suc k) b p =
     call (parseexec k b p) (\<lambda>(c, p1).
       case peek b p1 ''|'' of
         (False, p2) \<Rightarrow> Inr (c, p2)
       | (True, p2) \<Rightarrow> call (parsepipe k b (snd (gettoken b p2))) (\<lambda>(r, p3). Inr (Pipe_cmd c r, p3)))"
| "parseblock 0 b p = Inl Diverge"
| "parseblock (Suc k) b p =
     (case peek b p ''('' of
        (False, p1) \<Rightarrow> Inl (Panic ''parseblock'')
      | (True, p1) \<Rightarrow>
          call (parseline k b (snd (gettoken b p1))) (\<lambda>(c, p2).
            case peek b p2 '')'' of
              (False, p3) \<Rightarrow> Inl (Panic ''syntax - missing )'')
            | (True, p3) \<Rightarrow> parseredirs b (snd (gettoken b p3)) c))"
| "parseexec 0 b p = Inl Diverge"
| "parseexec (Suc k) b p =
     (case peek b p ''('' of
        (True, p1) \<Rightarrow> parseblock k b p1
      | (False, p1) \<Rightarrow> call (parseredirs b p1 (Exec_cmd [])) (\<lambda>(c, p2). parseargs b p2 0 c))"

text \<open>\<open>nulterminate\<close> ends every word where the parser saw it end; the buffer is the line with its null
  character.\<close>

primrec nulterminate :: "cmd \<Rightarrow> string \<Rightarrow> string" where
  "nulterminate (Exec_cmd args) buf = fold (\<lambda>(q, eq) m. m[eq := NUL]) args buf"
| "nulterminate (Redir_cmd c q eq mode fd) buf = (nulterminate c buf)[eq := NUL]"
| "nulterminate (Pipe_cmd l r) buf = nulterminate r (nulterminate l buf)"
| "nulterminate (List_cmd l r) buf = nulterminate r (nulterminate l buf)"
| "nulterminate (Back_cmd c) buf = nulterminate c buf"

definition parse_fuel :: "string \<Rightarrow> nat" where "parse_fuel b = 4 * (length b + 1)"

definition parsecmd :: "string \<Rightarrow> (cmd \<times> string) kres" where
  "parsecmd b =
     call (parseline (parse_fuel b) b 0) (\<lambda>(c, p).
       case peek b p [] of
         (_, p1) \<Rightarrow>
           if p1 \<noteq> length b then Inl (Panic ''syntax'') else Inr (c, nulterminate c (b @ [NUL])))"

section \<open>Every line is parsed or rejected\<close>

text \<open>The words of a command tree lie in the line: a word is not empty, holds no white space and no symbol,
  and ends in front of one or at the end of the line.\<close>

definition word_char :: "char \<Rightarrow> bool" where
  "word_char c \<longleftrightarrow> strchr whitespace c = None \<and> strchr symbols c = None"

definition word_at :: "string \<Rightarrow> nat \<times> nat \<Rightarrow> bool" where
  "word_at b = (\<lambda>(q, e). q < e \<and> e \<le> length b \<and> (\<forall>i. q \<le> i \<longrightarrow> i < e \<longrightarrow> word_char (b ! i)) \<and>
     (e < length b \<longrightarrow> \<not> word_char (b ! e)))"

primrec spans :: "cmd \<Rightarrow> (nat \<times> nat) list" where
  "spans (Exec_cmd args) = args"
| "spans (Redir_cmd c q e mode fd) = spans c @ [(q, e)]"
| "spans (Pipe_cmd l r) = spans l @ spans r"
| "spans (List_cmd l r) = spans l @ spans r"
| "spans (Back_cmd c) = spans c"

primrec well_formed :: "cmd \<Rightarrow> bool" where
  "well_formed (Exec_cmd args) = (length args < MAXARGS)"
| "well_formed (Redir_cmd c q e mode fd) =
     (well_formed c \<and> ((mode, fd) = (O_RDONLY, 0) \<or> (mode, fd) = (O_WRONLY OR O_CREATE, 1)))"
| "well_formed (Pipe_cmd l r) = (well_formed l \<and> well_formed r)"
| "well_formed (List_cmd l r) = (well_formed l \<and> well_formed r)"
| "well_formed (Back_cmd c) = well_formed c"

definition cmd_ok :: "string \<Rightarrow> cmd \<Rightarrow> bool" where
  "cmd_ok b c \<longleftrightarrow> well_formed c \<and> (\<forall>w \<in> set (spans c). word_at b w)"

text \<open>An \<open>execcmd\<close> with \<open>n\<close> arguments inside redirections.\<close>

primrec exec_of :: "nat \<Rightarrow> cmd \<Rightarrow> bool" where
  "exec_of n (Exec_cmd args) = (length args = n)"
| "exec_of n (Redir_cmd c q e mode fd) = exec_of n c"
| "exec_of n (Pipe_cmd l r) = False"
| "exec_of n (List_cmd l r) = False"
| "exec_of n (Back_cmd c) = False"

lemma cmd_ok_simps [simp]:
  "cmd_ok b (Redir_cmd c q e m d) \<longleftrightarrow>
     cmd_ok b c \<and> word_at b (q, e) \<and> ((m, d) = (O_RDONLY, 0) \<or> (m, d) = (O_WRONLY OR O_CREATE, 1))"
  "cmd_ok b (Pipe_cmd l r) \<longleftrightarrow> cmd_ok b l \<and> cmd_ok b r"
  "cmd_ok b (List_cmd l r) \<longleftrightarrow> cmd_ok b l \<and> cmd_ok b r"
  "cmd_ok b (Back_cmd c) \<longleftrightarrow> cmd_ok b c"
  "cmd_ok b (Exec_cmd []) "
  by (auto simp: cmd_ok_def MAXARGS_def)

lemma cmd_ok_redirect: "cmd_ok b c \<Longrightarrow> word_at b (q, e) \<Longrightarrow> cmd_ok b (redirect tok c q e)"
  by (simp add: redirect_def)

lemma exec_of_redirect: "exec_of n (redirect tok c q e) = exec_of n c"
  by (simp add: redirect_def)

lemma add_arg_ok:
  "exec_of n c \<Longrightarrow> exec_of (Suc n) (add_arg w c)"
  "exec_of n c \<Longrightarrow> Suc n < MAXARGS \<Longrightarrow> cmd_ok b c \<Longrightarrow> word_at b w \<Longrightarrow> cmd_ok b (add_arg w c)"
  by (induction c) (auto simp: cmd_ok_def)

lemma gettoken_word:
  assumes "gettoken b p = ((CHR ''a'', q, e), p')"
  shows "word_at b (q, e)"
proof -
  have e: "e = skip_word b q" "q < e" "e \<le> length b" using gettoken_cases [OF assms] by auto
  have sk: "e = scan (\<lambda>i. word_char (b ! i)) (length b) q" using e(1) by (simp add: skip_word_def word_char_def)
  have "word_char (b ! i)" if "q \<le> i" "i < e" for i
    using scan_before [OF that(1)] that(2) unfolding sk by blast
  moreover have "e < length b \<Longrightarrow> \<not> word_char (b ! e)" unfolding sk by (rule scan_stops)
  ultimately show ?thesis using e by (auto simp: word_at_def)
qed

text \<open>What a parser may do: move on to a well-formed command, or panic.\<close>

definition moves_on :: "(cmd \<Rightarrow> bool) \<Rightarrow> nat \<Rightarrow> (cmd \<times> nat) kres \<Rightarrow> bool" where
  "moves_on P p r \<longleftrightarrow> (case r of Inr (c, p') \<Rightarrow> p \<le> p' \<and> P c | Inl e \<Rightarrow> \<exists>m. e = Panic m)"

lemma moves_on_simps [simp]:
  "moves_on P p (Inr (c, p')) \<longleftrightarrow> p \<le> p' \<and> P c" "moves_on P p (Inl e) \<longleftrightarrow> (\<exists>m. e = Panic m)"
  by (simp_all add: moves_on_def)

lemma moves_on_call:
  assumes "moves_on P p r" "\<And>c p'. p \<le> p' \<Longrightarrow> P c \<Longrightarrow> moves_on Q p (f (c, p'))"
  shows "moves_on Q p (call r f)"
  using assms by (cases r) auto

lemma moves_on_le: "moves_on P p' r \<Longrightarrow> p \<le> p' \<Longrightarrow> moves_on P p r"
  by (auto simp: moves_on_def split: sum.splits)

lemma parseredirs_moves:
  "Q c \<Longrightarrow> (\<And>tok c q e. Q c \<Longrightarrow> word_at b (q, e) \<Longrightarrow> Q (redirect tok c q e)) \<Longrightarrow>
     moves_on Q p (parseredirs b p c)"
proof (induction b p c rule: parseredirs.induct)
  case (1 b p c)
  obtain y p1 where p: "peek b p ''<>'' = (y, p1)" by (cases "peek b p ''<>''")
  obtain tok q1 e1 p2 where g: "gettoken b p1 = ((tok, q1, e1), p2)" by (metis surj_pair)
  obtain tok2 q e p3 where h: "gettoken b p2 = ((tok2, q, e), p3)" by (metis surj_pair)
  note le = peek_le [OF p]
  show ?case
  proof (cases "y \<and> tok2 = CHR ''a''")
    case False
    then show ?thesis using p g h le 1(2) by (cases y) (auto simp: parseredirs.simps [of b p])
  next
    case True
    then have w: "word_at b (q, e)" using gettoken_word h by simp
    have "moves_on Q p3 (parseredirs b p3 (redirect tok c q e))"
      by (rule 1(1) [OF p [symmetric] _ g [symmetric] refl refl h [symmetric] refl refl])
        (use True 1(2,3) w in auto)
    moreover have "p \<le> p3" using le peek_token(1) [of b p "''<>''" p1] p True g gettoken_less(1) [OF h] by simp
    ultimately show ?thesis using True p g h by (simp add: parseredirs.simps [of b p] moves_on_le)
  qed
qed

lemma parseargs_moves:
  "exec_of argc c \<and> argc < MAXARGS \<and> cmd_ok b c \<Longrightarrow> moves_on (cmd_ok b) p (parseargs b p argc c)"
proof (induction b p argc c rule: parseargs.induct)
  case (1 b p argc c)
  obtain y p1 where p: "peek b p ''|)&;'' = (y, p1)" by (cases "peek b p ''|)&;''")
  obtain tok q e p2 where g: "gettoken b p1 = ((tok, q, e), p2)" by (metis surj_pair)
  note le = peek_le [OF p]
  have le2: "p1 \<le> p2" using gettoken_cases(1-3) [OF g] skip_white_le [of p1 b] skip_white_le [of e b] by simp
  show ?case
  proof (cases "\<not> y \<and> tok = CHR ''a'' \<and> argc + 1 < MAXARGS")
    case False
    then show ?thesis using p g le le2 1(2) by (cases y) (auto simp: parseargs.simps [of b p])
  next
    case True
    then have w: "word_at b (q, e)" using gettoken_word g by simp
    let ?Q = "\<lambda>c. exec_of (argc + 1) c \<and> argc + 1 < MAXARGS \<and> cmd_ok b c"
    have "?Q (add_arg (q, e) c)" using 1(2) True w add_arg_ok [of argc c] by simp
    then have "moves_on ?Q p2 (parseredirs b p2 (add_arg (q, e) c))"
      by (rule parseredirs_moves) (simp add: exec_of_redirect cmd_ok_redirect)
    then show ?thesis
    proof (cases "parseredirs b p2 (add_arg (q, e) c)")
      case (Inr r)
      obtain c2 p3 where r: "r = (c2, p3)" by (cases r)
      then have "moves_on (cmd_ok b) p3 (parseargs b p3 (argc + 1) c2)"
        using \<open>moves_on ?Q p2 _\<close> Inr
        by (intro 1(1) [OF p [symmetric] _ g [symmetric] refl refl _ _ _ Inr r [symmetric]]) (use True in auto)
      moreover have "p \<le> p3" using le le2 \<open>moves_on ?Q p2 _\<close> Inr r by simp
      ultimately show ?thesis using True p g Inr r by (simp add: parseargs.simps [of b p] moves_on_le)
    qed (use True p g in \<open>simp add: parseargs.simps [of b p]\<close>)
  qed
qed

lemma parseback_moves:
  "parseback b p c = (c', p') \<Longrightarrow> cmd_ok b c \<Longrightarrow> p \<le> p' \<and> cmd_ok b c'"
proof (induction b p c rule: parseback.induct)
  case (1 b p c)
  obtain y p1 where p: "peek b p ''&'' = (y, p1)" by (cases "peek b p ''&''")
  show ?case
  proof (cases y)
    case False
    then show ?thesis using 1(2,3) p peek_le [OF p] by (simp add: parseback.simps [of b p])
  next
    case True
    then have "snd (gettoken b p1) \<le> p' \<and> cmd_ok b c'" using 1 p by (simp add: parseback.simps [of b p])
    then show ?thesis using peek_le [OF p] peek_token(1) [of b p "''&''" p1] p True by simp
  qed
qed

lemma parsers_move:
  "4 * (length b - p) + 4 \<le> k \<Longrightarrow> moves_on (cmd_ok b) p (parseline k b p)"
  "4 * (length b - p) + 3 \<le> k \<Longrightarrow> moves_on (cmd_ok b) p (parsepipe k b p)"
  "4 * (length b - p) + 1 \<le> k \<Longrightarrow> moves_on (cmd_ok b) p (parseblock k b p)"
  "4 * (length b - p) + 2 \<le> k \<Longrightarrow> moves_on (cmd_ok b) p (parseexec k b p)"
proof (induction k b p and k b p and k b p and k b p rule: parseline_parsepipe_parseblock_parseexec.induct)
  case (2 k b p)
  show ?case unfolding parseline.simps
  proof (rule moves_on_call [where P = "cmd_ok b"], goal_cases)
    case 1
    show ?case using 2 by simp
  next
    case a: (2 c p1)
    obtain c2 p2 where pb: "parseback b p1 c = (c2, p2)" by (cases "parseback b p1 c")
    obtain y p3 where pk: "peek b p2 '';'' = (y, p3)" by (cases "peek b p2 '';''")
    have le: "p \<le> p3" "cmd_ok b c2" using a parseback_moves [OF pb a(2)] peek_le [OF pk] by simp_all
    show ?case
    proof (cases y)
      case True
      let ?p = "snd (gettoken b p3)"
      have t: "p3 < ?p" "p3 < length b" using peek_token pk True by auto
      have "moves_on (cmd_ok b) ?p (parseline k b ?p)"
        by (rule 2(2) [of c2 p2 p1 c y p3]) (use 2(3) pb pk True t le in auto)
      then have "moves_on (cmd_ok b) p (parseline k b ?p)" using t le by (simp add: moves_on_le)
      then have "moves_on (cmd_ok b) p (call (parseline k b ?p) (\<lambda>(r, p4). Inr (List_cmd c2 r, p4)))"
        by (rule moves_on_call) (use le in auto)
      then show ?thesis using pb pk True by simp
    qed (use le pb pk in simp)
  qed
next
  case (4 k b p)
  show ?case unfolding parsepipe.simps
  proof (rule moves_on_call [where P = "cmd_ok b"], goal_cases)
    case 1
    show ?case using 4 by simp
  next
    case a: (2 c p1)
    obtain y p2 where pk: "peek b p1 ''|'' = (y, p2)" by (cases "peek b p1 ''|''")
    have le: "p \<le> p2" using a peek_le [OF pk] by simp
    show ?case
    proof (cases y)
      case True
      let ?p = "snd (gettoken b p2)"
      have t: "p2 < ?p" "p2 < length b" using peek_token pk True by auto
      have "moves_on (cmd_ok b) ?p (parsepipe k b ?p)"
        by (rule 4(2) [of y p2 p1]) (use 4(3) pk True t le in auto)
      then have "moves_on (cmd_ok b) p (parsepipe k b ?p)" using t le by (simp add: moves_on_le)
      then have "moves_on (cmd_ok b) p (call (parsepipe k b ?p) (\<lambda>(r, p4). Inr (Pipe_cmd c r, p4)))"
        by (rule moves_on_call) (use a in auto)
      then show ?thesis using pk True by simp
    qed (use le pk a in simp)
  qed
next
  case (6 k b p)
  obtain y p1 where pk: "peek b p ''('' = (y, p1)" by (cases "peek b p ''(''")
  have le: "p \<le> p1" using peek_le [OF pk] by simp
  show ?case
  proof (cases y)
    case True
    let ?p = "snd (gettoken b p1)"
    have t: "p1 < ?p" "p1 < length b" using peek_token pk True by auto
    have "moves_on (cmd_ok b) ?p (parseline k b ?p)"
      by (rule 6(1) [of y p1]) (use 6(2) pk True t le in auto)
    then have "moves_on (cmd_ok b) p (parseline k b ?p)" using t le by (simp add: moves_on_le)
    then have "moves_on (cmd_ok b) p (call (parseline k b ?p) (\<lambda>(c, p2).
        case peek b p2 '')'' of
          (False, p3) \<Rightarrow> Inl (Panic ''syntax - missing )'')
        | (True, p3) \<Rightarrow> parseredirs b (snd (gettoken b p3)) c))"
    proof (rule moves_on_call)
      fix c p2
      assume a: "p \<le> p2" "cmd_ok b c"
      obtain z p3 where pk: "peek b p2 '')'' = (z, p3)" by (cases "peek b p2 '')''")
      have "moves_on (cmd_ok b) p (parseredirs b (snd (gettoken b p3)) c)" if z
        by (rule moves_on_le [OF parseredirs_moves])
          (use a that peek_le [OF pk] peek_token [of b p2 "'')''" p3] pk in \<open>auto simp: cmd_ok_redirect\<close>)
      then show "moves_on (cmd_ok b) p (case (c, p2) of (c, p2) \<Rightarrow> case peek b p2 '')'' of
          (False, p3) \<Rightarrow> Inl (Panic ''syntax - missing )'')
        | (True, p3) \<Rightarrow> parseredirs b (snd (gettoken b p3)) c)"
        using pk by (cases z) auto
    qed
    then show ?thesis using pk True by simp
  qed (use pk in simp)
next
  case (8 k b p)
  obtain y p1 where pk: "peek b p ''('' = (y, p1)" by (cases "peek b p ''(''")
  have le: "p \<le> p1" using peek_le [OF pk] by simp
  show ?case
  proof (cases y)
    case True
    then have "moves_on (cmd_ok b) p1 (parseblock k b p1)" using 8 pk le by simp
    then show ?thesis using pk True le by (simp add: moves_on_le)
  next
    case False
    let ?Q = "\<lambda>c. exec_of 0 c \<and> 0 < MAXARGS \<and> cmd_ok b c"
    have "moves_on ?Q p1 (parseredirs b p1 (Exec_cmd []))"
      by (rule parseredirs_moves) (simp_all add: MAXARGS_def exec_of_redirect cmd_ok_redirect)
    then have "moves_on (cmd_ok b) p1 (call (parseredirs b p1 (Exec_cmd [])) (\<lambda>(c, p2). parseargs b p2 0 c))"
      by (rule moves_on_call) (use parseargs_moves moves_on_le in fastforce)
    then show ?thesis using pk False le by (simp add: moves_on_le)
  qed
qed simp_all

section \<open>The strings that \<open>runcmd\<close> sees\<close>

datatype shell =
    Exec "string list"
  | Redir shell string nat nat
  | Piped shell shell
  | Seq shell shell
  | Back shell

text \<open>The command as \<open>runcmd\<close> reads it: every pointer to a word gives a null-terminated string.\<close>

primrec strings :: "string \<Rightarrow> cmd \<Rightarrow> shell" where
  "strings buf (Exec_cmd args) = Exec (map (\<lambda>(q, e). cstr (drop q buf)) args)"
| "strings buf (Redir_cmd c q e mode fd) = Redir (strings buf c) (cstr (drop q buf)) mode fd"
| "strings buf (Pipe_cmd l r) = Piped (strings buf l) (strings buf r)"
| "strings buf (List_cmd l r) = Seq (strings buf l) (strings buf r)"
| "strings buf (Back_cmd c) = Back (strings buf c)"

text \<open>The command with the words as the parser delimited them.\<close>

definition word_of :: "string \<Rightarrow> nat \<times> nat \<Rightarrow> string" where
  "word_of b = (\<lambda>(q, e). take (e - q) (drop q b))"

primrec tokens :: "string \<Rightarrow> cmd \<Rightarrow> shell" where
  "tokens b (Exec_cmd args) = Exec (map (word_of b) args)"
| "tokens b (Redir_cmd c q e mode fd) = Redir (tokens b c) (word_of b (q, e)) mode fd"
| "tokens b (Pipe_cmd l r) = Piped (tokens b l) (tokens b r)"
| "tokens b (List_cmd l r) = Seq (tokens b l) (tokens b r)"
| "tokens b (Back_cmd c) = Back (tokens b c)"

definition ended :: "(nat \<times> nat) list \<Rightarrow> string \<Rightarrow> string" where
  "ended ws buf = fold (\<lambda>(q, e) m. m[e := NUL]) ws buf"

lemma nulterminate_ended: "nulterminate c buf = ended (spans c) buf"
  by (induction c arbitrary: buf) (simp_all add: ended_def)

lemma length_ended [simp]: "length (ended ws buf) = length buf"
  unfolding ended_def by (induction ws arbitrary: buf) auto

lemma nth_ended: "i < length buf \<Longrightarrow> ended ws buf ! i = (if i \<in> snd ` set ws then NUL else buf ! i)"
proof (induction ws arbitrary: buf)
  case (Cons w ws)
  then show ?case by (cases w) (simp add: ended_def nth_list_update)
qed (simp add: ended_def)

lemma cstr_until:
  assumes "take n s = w" "NUL \<notin> set w" "n < length s" "s ! n = NUL"
  shows "cstr s = w"
proof -
  obtain r where s: "s = w @ NUL # r" using assms by (metis id_take_nth_drop)
  have "\<forall>x \<in> set w. x \<noteq> NUL" using assms(2) by blast
  then show ?thesis unfolding cstr_def s by simp
qed

text \<open>The null characters fall behind the words, never into one.\<close>

lemma word_kept:
  assumes "NUL \<notin> set b" "\<forall>w \<in> set ws. word_at b w" "(q, e) \<in> set ws"
  shows "cstr (drop q (ended ws (b @ [NUL]))) = word_of b (q, e)"
proof (rule cstr_until)
  let ?m = "ended ws (b @ [NUL])"
  have w: "q < e" "e \<le> length b" "\<And>i. q \<le> i \<Longrightarrow> i < e \<Longrightarrow> word_char (b ! i)"
    using assms(2,3) by (auto simp: word_at_def)
  have keep: "?m ! i = b ! i" if "q \<le> i" "i < e" for i
  proof -
    have "i \<notin> snd ` set ws" using w that assms(2) by (fastforce simp: word_at_def)
    then show ?thesis using w that by (simp add: nth_ended nth_append)
  qed
  show "take (e - q) (drop q ?m) = word_of b (q, e)"
    by (rule nth_equalityI) (use w keep in \<open>auto simp: word_of_def\<close>)
  show "NUL \<notin> set (word_of b (q, e))" using assms(1) by (auto simp: word_of_def dest: in_set_takeD in_set_dropD)
  show "e - q < length (drop q ?m)" using w by simp
  have "e \<in> snd ` set ws" using assms(3) by force
  then show "drop q ?m ! (e - q) = NUL" using w by (simp add: nth_ended)
qed

lemma strings_ended:
  assumes "NUL \<notin> set b" "\<forall>w \<in> set ws. word_at b w"
  shows "set (spans c) \<subseteq> set ws \<Longrightarrow> strings (ended ws (b @ [NUL])) c = tokens b c"
  by (induction c) (auto simp: word_kept [OF assms])

definition valid_word :: "string \<Rightarrow> bool" where
  "valid_word w \<longleftrightarrow> w \<noteq> [] \<and> list_all word_char w \<and> NUL \<notin> set w"

definition valid_redir :: "string \<times> nat \<times> nat \<Rightarrow> bool" where
  "valid_redir = (\<lambda>(f, mode, fd). valid_word f \<and>
     ((mode, fd) = (O_RDONLY, 0) \<or> (mode, fd) = (O_WRONLY OR O_CREATE, 1)))"

text \<open>The commands that can be typed: at most nine arguments, input from or output to files.\<close>

primrec valid_shell :: "shell \<Rightarrow> bool" where
  "valid_shell (Exec ws) \<longleftrightarrow> length ws < MAXARGS \<and> list_all valid_word ws"
| "valid_shell (Redir c f mode fd) \<longleftrightarrow> valid_shell c \<and> valid_redir (f, mode, fd)"
| "valid_shell (Piped l r) \<longleftrightarrow> valid_shell l \<and> valid_shell r"
| "valid_shell (Seq l r) \<longleftrightarrow> valid_shell l \<and> valid_shell r"
| "valid_shell (Back c) \<longleftrightarrow> valid_shell c"

lemma word_of_valid: "NUL \<notin> set b \<Longrightarrow> word_at b w \<Longrightarrow> valid_word (word_of b w)"
  by (auto simp: word_at_def word_of_def valid_word_def list_all_length dest: in_set_takeD in_set_dropD)

lemma tokens_valid: "NUL \<notin> set b \<Longrightarrow> cmd_ok b c \<Longrightarrow> valid_shell (tokens b c)"
  by (induction c) (auto simp: cmd_ok_def valid_redir_def list_all_iff word_of_valid)

lemma parsecmd_words:
  assumes "NUL \<notin> set b" "parsecmd b = Inr (c, buf)"
  shows "strings buf c = tokens b c \<and> valid_shell (tokens b c)"
proof -
  obtain p where p: "parseline (parse_fuel b) b 0 = Inr (c, p)" "buf = nulterminate c (b @ [NUL])"
    using assms(2) by (auto simp: parsecmd_def call_eq_Inr peek_def Let_def split: if_splits)
  have c: "cmd_ok b c" using parsers_move(1) [of b 0 "parse_fuel b"] p(1) by (simp add: parse_fuel_def)
  then show ?thesis using strings_ended [OF assms(1), of "spans c" c] tokens_valid [OF assms(1) c] p(2)
    by (simp add: cmd_ok_def nulterminate_ended)
qed

text \<open>C19: every line is parsed or rejected with a message: the parser always returns.  The command it
  returns has words without white space or symbols, at most nine arguments each and redirections of
  the standard input or output, and when the words have been ended in place, \<open>runcmd\<close> reads exactly
  the words the parser delimited.\<close>

theorem parsecmd_total:
  assumes "NUL \<notin> set b"
  shows "case parsecmd b of
           Inl e \<Rightarrow> \<exists>m. e = Panic m
         | Inr (c, buf) \<Rightarrow> strings buf c = tokens b c \<and> valid_shell (strings buf c)"
proof (cases "parsecmd b")
  case (Inl e)
  have "moves_on (cmd_ok b) 0 (parseline (parse_fuel b) b 0)" by (rule parsers_move(1)) (simp add: parse_fuel_def)
  then have "\<exists>m. e = Panic m"
    using Inl by (auto simp: parsecmd_def call_eq_Inl peek_def Let_def split: if_splits)
  then show ?thesis using Inl by simp
next
  case (Inr r)
  then show ?thesis using parsecmd_words [OF assms, of "fst r" "snd r"] by (auto split: prod.splits)
qed

text \<open>At a line with every construct, and at one that is rejected.\<close>

lemma parsecmd_total_witness:
  "\<exists>b c buf. b = ''(ls -l|grep x>out)&; cat<out'' \<and> parsecmd b = Inr (c, buf) \<and>
     strings buf c = tokens b c \<and> valid_shell (strings buf c) \<and>
     parsecmd ''ls >'' = Inl (Panic ''missing file for redirection'')"
proof -
  let ?b = "''(ls -l|grep x>out)&; cat<out''"
  have "case parsecmd ?b of Inl e \<Rightarrow> False | Inr r \<Rightarrow> True" by code_simp
  then have "\<exists>c buf. parsecmd ?b = Inr (c, buf)" by (simp split: sum.splits)
  moreover have "parsecmd ''ls >'' = Inl (Panic ''missing file for redirection'')" by code_simp
  ultimately show ?thesis using parsecmd_total [of ?b] by auto
qed

end
