(* ===== verification/Shell_Print.thy ===== *)
theory Shell_Print
  imports Shell "HOL-Library.Sublist"
begin

text \<open>
  Printing and parsing: every command, printed with parentheses around the compound commands inside
  it, is the command that the shell's parser reads back.  A pointer into the line is given by the
  part of the line behind it.
\<close>

section \<open>Pointers and suffixes\<close>

definition at_rest :: "string \<Rightarrow> string \<Rightarrow> nat" where
  "at_rest b s = length b - length s"

definition white :: "char \<Rightarrow> bool" where "white c \<longleftrightarrow> strchr whitespace c \<noteq> None"

definition trimmed :: "string \<Rightarrow> string" where "trimmed s = dropWhile white s"

text \<open>A word before this text ends there.\<close>

definition ends :: "string \<Rightarrow> bool" where "ends s \<longleftrightarrow> s = [] \<or> \<not> word_char (hd s)"

lemma at_rest_drop: "suffix s b \<Longrightarrow> drop (at_rest b s) b = s"
  by (auto simp: suffix_def at_rest_def)

lemma at_rest_append: "suffix (x @ s) b \<Longrightarrow> at_rest b s = at_rest b (x @ s) + length x"
  by (auto simp: suffix_def at_rest_def)

lemma at_rest_Cons: "suffix (c # s) b \<Longrightarrow> at_rest b s = Suc (at_rest b (c # s))"
  by (auto simp: suffix_def at_rest_def)

lemma at_rest_Nil [simp]: "at_rest b [] = length b"
  by (simp add: at_rest_def)

lemma at_rest_nth: "suffix s b \<Longrightarrow> j < length s \<Longrightarrow> b ! (at_rest b s + j) = s ! j"
  by (auto simp: suffix_def at_rest_def nth_append)

lemma at_rest_bound: "suffix s b \<Longrightarrow> at_rest b s + length s = length b"
  by (auto simp: suffix_def at_rest_def)

lemma suffix_trimmed: "suffix s b \<Longrightarrow> suffix (trimmed s) b"
  unfolding trimmed_def by (meson suffix_dropWhile suffix_order.trans)

lemma suffix_appendD: "suffix (x @ s) b \<Longrightarrow> suffix s b"
  by (auto simp: suffix_def)

lemma suffix_ConsD': "suffix (c # s) b \<Longrightarrow> suffix s b"
  by (rule suffix_appendD [of "[c]"]) simp

lemma trimmed_simps [simp]:
  "trimmed [] = []" "trimmed (c # s) = (if white c then trimmed s else c # s)"
  "trimmed (trimmed s) = trimmed s"
  by (simp_all add: trimmed_def)

lemma trimmed_hd: "trimmed s = c # r \<Longrightarrow> \<not> white c"
  unfolding trimmed_def using dropWhile_eq_Cons_conv by metis

lemma char_at_rest: "suffix s b \<Longrightarrow> char_at b (at_rest b s) = c_hd s"
  using at_rest_nth [of s b 0] at_rest_bound [of s b] by (cases s) (auto simp: char_at_def)

lemma scan_prefix:
  assumes "suffix s b"
  shows "scan (\<lambda>i. P (b ! i)) (length b) (at_rest b s) = at_rest b (dropWhile P s)"
proof (rule scan_eqI)
  let ?t = "takeWhile P s"
  have suf: "suffix (?t @ dropWhile P s) b" using assms by simp
  have at: "at_rest b (dropWhile P s) = at_rest b s + length ?t" using at_rest_append [OF suf] by simp
  show "at_rest b s \<le> at_rest b (dropWhile P s)" unfolding at by simp
  show "at_rest b (dropWhile P s) \<le> length b" by (simp add: at_rest_def)
  show "P (b ! j)" if "at_rest b s \<le> j" "j < at_rest b (dropWhile P s)" for j
  proof -
    define i where "i = j - at_rest b s"
    then have i: "j = at_rest b s + i" using that(1) by simp
    then have "i < length ?t" using that(2) at by linarith
    then have "P (s ! i)" using nth_mem [of i ?t] set_takeWhileD [of "?t ! i" P s] takeWhile_nth [of i P s] by metis
    moreover have "i < length s" using \<open>i < length ?t\<close> length_takeWhile_le [of P s] by linarith
    ultimately show ?thesis using at_rest_nth [OF assms, of i] i by simp
  qed
  assume l: "at_rest b (dropWhile P s) < length b"
  have d: "suffix (dropWhile P s) b" using suf by (rule suffix_appendD)
  have "dropWhile P s \<noteq> []"
  proof
    assume "dropWhile P s = []"
    then have "at_rest b (dropWhile P s) = length b" by (simp only: at_rest_Nil)
    then show False using l by (simp only: less_irrefl)
  qed
  then show "\<not> P (b ! at_rest b (dropWhile P s))"
    using at_rest_nth [OF d, of 0] hd_dropWhile [of P s] hd_conv_nth [of "dropWhile P s"] by simp
qed

lemma skip_white_rest: "suffix s b \<Longrightarrow> skip_white b (at_rest b s) = at_rest b (trimmed s)"
  using scan_prefix [of s b white] by (simp add: skip_white_def trimmed_def white_def)

lemma skip_word_rest: "suffix s b \<Longrightarrow> skip_word b (at_rest b s) = at_rest b (dropWhile word_char s)"
  using scan_prefix [of s b word_char] by (simp add: skip_word_def word_char_def)

lemma peek_rest:
  assumes "suffix s b" "NUL \<notin> set b"
  shows "peek b (at_rest b s) toks =
    (case trimmed s of [] \<Rightarrow> False | c # r \<Rightarrow> strchr toks c \<noteq> None, at_rest b (trimmed s))"
proof -
  note t = suffix_trimmed [OF assms(1)]
  have "NUL \<notin> set (trimmed s)" using assms(2) t by (auto dest: set_mono_suffix)
  then show ?thesis
    using char_at_rest [OF t] by (cases "trimmed s") (auto simp: peek_def skip_white_rest [OF assms(1)] Let_def)
qed

lemma gettoken_symbol:
  assumes "suffix s b" "trimmed s = c # r" "c \<in> {CHR ''|'', CHR ''('', CHR '')'', CHR '';'', CHR ''&'', CHR ''<''}"
  shows "gettoken b (at_rest b s) = ((c, at_rest b (c # r), at_rest b r), at_rest b (trimmed r))"
proof -
  have t: "suffix (c # r) b" "suffix r b" using suffix_trimmed [OF assms(1)] assms(2) by (auto dest: suffix_ConsD')
  show ?thesis using assms(3) at_rest_Cons [OF t(1)] skip_white_rest [OF t(2)]
    by (auto simp: gettoken_def Let_def skip_white_rest [OF assms(1)] assms(2) char_at_rest [OF t(1)])
qed

lemma gettoken_greater:
  assumes "suffix s b" "trimmed s = CHR ''>'' # r" "r = [] \<or> hd r \<noteq> CHR ''>''"
  shows "gettoken b (at_rest b s) = ((CHR ''>'', at_rest b (CHR ''>'' # r), at_rest b r), at_rest b (trimmed r))"
proof -
  have t: "suffix (CHR ''>'' # r) b" "suffix r b"
    using suffix_trimmed [OF assms(1)] assms(2) by (auto dest: suffix_ConsD')
  have "c_hd r \<noteq> CHR ''>''" using assms(3) by (cases r) auto
  then show ?thesis using at_rest_Cons [OF t(1)] skip_white_rest [OF t(2)] char_at_rest [OF t(2)]
    by (auto simp: gettoken_def Let_def skip_white_rest [OF assms(1)] assms(2) char_at_rest [OF t(1)])
qed

lemma gettoken_end:
  assumes "suffix s b" "trimmed s = []"
  shows "gettoken b (at_rest b s) = ((NUL, length b, length b), length b)"
  using skip_white_rest [of "[]" b]
  by (auto simp: gettoken_def Let_def skip_white_rest [OF assms(1)] assms(2) char_at_def)

lemma valid_word_Cons: "valid_word w \<Longrightarrow> \<exists>c v. w = c # v \<and> word_char c \<and> \<not> white c \<and> c \<noteq> NUL \<and> strchr symbols c = None"
  by (cases w) (auto simp: valid_word_def white_def word_char_def)

lemma trimmed_word: "valid_word w \<Longrightarrow> trimmed (w @ s) = w @ s"
  using valid_word_Cons [of w] by auto

lemma dropWhile_word: "valid_word w \<Longrightarrow> ends s \<Longrightarrow> dropWhile word_char (w @ s) = s"
  by (cases s) (auto simp: valid_word_def ends_def list_all_iff)

lemma gettoken_valid_word:
  assumes "suffix s b" "trimmed s = w @ r" "valid_word w" "ends r"
  shows "gettoken b (at_rest b s) = ((CHR ''a'', at_rest b (w @ r), at_rest b r), at_rest b (trimmed r))"
    and "word_of b (at_rest b (w @ r), at_rest b r) = w"
proof -
  have t: "suffix (w @ r) b" "suffix r b" using suffix_trimmed [OF assms(1)] assms(2) by (auto dest: suffix_appendD)
  obtain c v where c: "w = c # v" "c \<noteq> NUL" "strchr symbols c = None" using valid_word_Cons [OF assms(3)] by blast
  then have n: "c \<notin> {CHR ''<'', CHR ''|'', CHR ''>'', CHR ''&'', CHR '';'', CHR ''('', CHR '')''}"
    using strchr_symbols [of c] by simp
  have h: "char_at b (at_rest b (w @ r)) = c" using char_at_rest [OF t(1)] c by simp
  show "gettoken b (at_rest b s) = ((CHR ''a'', at_rest b (w @ r), at_rest b r), at_rest b (trimmed r))"
    using n c(2) skip_word_rest [OF t(1)] skip_white_rest [OF t(2)]
    by (auto simp: gettoken_def Let_def skip_white_rest [OF assms(1)] assms(2) h dropWhile_word [OF assms(3,4)])
  show "word_of b (at_rest b (w @ r), at_rest b r) = w"
    using at_rest_drop [OF t(1)] at_rest_append [OF t(1)] by (simp add: word_of_def)
qed

section \<open>Printing a command\<close>

text \<open>Every word and every redirection is printed behind a blank, and a compound command that is part of
  another one in parentheses.\<close>

definition words_text :: "string list \<Rightarrow> string" where
  "words_text ws = concat (map (\<lambda>w. CHR '' '' # w) ws)"

definition redir_text :: "string \<times> nat \<times> nat \<Rightarrow> string" where
  "redir_text = (\<lambda>(f, mode, fd). CHR '' '' # (if fd = 0 then CHR ''<'' else CHR ''>'') # CHR '' '' # f)"

definition paren :: "bool \<Rightarrow> string \<Rightarrow> string" where
  "paren x s = (if x then CHR ''('' # s @ '')'' else s)"

primrec shell_text :: "shell \<Rightarrow> bool \<Rightarrow> string" where
  "shell_text (Exec ws) x = words_text ws"
| "shell_text (Redir c f mode fd) x = shell_text c True @ redir_text (f, mode, fd)"
| "shell_text (Piped l r) x = paren x (shell_text l True @ CHR ''|'' # shell_text r True)"
| "shell_text (Seq l r) x = paren x (shell_text l True @ CHR '';'' # shell_text r True)"
| "shell_text (Back c) x = paren x (shell_text c True @ ''&'')"

definition redirs_text :: "(string \<times> nat \<times> nat) list \<Rightarrow> string" where
  "redirs_text rs = concat (map redir_text rs)"

definition redir_all :: "(string \<times> nat \<times> nat) list \<Rightarrow> shell \<Rightarrow> shell" where
  "redir_all rs c = foldl (\<lambda>c (f, mode, fd). Redir c f mode fd) c rs"

text \<open>The next character, blanks apart, is one of these, or there is none.\<close>

definition next_in :: "string \<Rightarrow> string \<Rightarrow> bool" where
  "next_in cs s \<longleftrightarrow> (case trimmed s of [] \<Rightarrow> True | c # r \<Rightarrow> c \<in> set cs)"

lemma text_simps [simp]:
  "words_text [] = []" "words_text (w # ws) = CHR '' '' # w @ words_text ws"
  "redirs_text [] = []" "redirs_text (r # rs) = redir_text r @ redirs_text rs"
  "redir_all [] c = c" "redir_all ((f, mode, fd) # rs) c = redir_all rs (Redir c f mode fd)"
  by (simp_all add: words_text_def redirs_text_def redir_all_def)

lemma white_simps [simp]:
  "white (CHR '' '')" "\<not> white (CHR ''<'')" "\<not> white (CHR ''>'')" "\<not> white (CHR ''('')" "\<not> white (CHR '')'')"
  "\<not> white (CHR ''|'')" "\<not> white (CHR '';'')" "\<not> white (CHR ''&'')"
  by (simp_all add: white_def whitespace_def)

lemma ends_simps [simp]:
  "ends []" "ends (CHR '' '' # s)" "ends (CHR ''('' # s)" "ends (CHR '')'' # s)" "ends (CHR ''|'' # s)"
  "ends (CHR '';'' # s)" "ends (CHR ''&'' # s)"
  by (simp_all add: ends_def word_char_def whitespace_def symbols_def)

lemma ends_texts: "ends s \<Longrightarrow> ends (redirs_text rs @ s)" "ends s \<Longrightarrow> ends (words_text ws @ s)"
  by (cases rs; auto simp: redir_text_def) (cases ws; simp)

section \<open>Parsing what was printed\<close>

lemma peek_skip: "peek b (skip_white b p) toks = peek b p toks"
  by (simp add: peek_def)

lemma parseredirs_skip: "parseredirs b (skip_white b p) c = parseredirs b p c"
  by (simp add: parseredirs.simps [of b p] parseredirs.simps [of b "skip_white b p"] peek_skip)

lemma parseargs_skip: "parseargs b (skip_white b p) n c = parseargs b p n c"
  by (simp add: parseargs.simps [of b p] parseargs.simps [of b "skip_white b p"] peek_skip)

lemma parseblock_skip: "parseblock k b (skip_white b p) = parseblock k b p"
  by (cases k) (simp_all add: peek_skip)

lemma parseexec_skip: "parseexec k b (skip_white b p) = parseexec k b p"
  by (cases k) (simp_all add: peek_skip)

lemma parsepipe_skip: "parsepipe k b (skip_white b p) = parsepipe k b p"
  by (cases k) (simp_all add: parseexec_skip)

lemma parseline_skip: "parseline k b (skip_white b p) = parseline k b p"
  by (cases k) (simp_all add: parsepipe_skip)

lemma peek_no:
  assumes "suffix s b" "NUL \<notin> set b" "next_in cs s" "\<forall>c \<in> set cs. strchr toks c = None"
  shows "peek b (at_rest b s) toks = (False, at_rest b (trimmed s))"
  using assms(3,4) by (auto simp: peek_rest [OF assms(1,2)] next_in_def split: list.splits)

lemma strchr_outside: "c \<notin> set toks \<Longrightarrow> strchr toks c = None"
  by (induction toks) auto

lemma peek_word:
  assumes "valid_word w" "suffix (CHR '' '' # w @ s) b" "NUL \<notin> set b" "set toks \<subseteq> set symbols"
  shows "peek b (at_rest b (CHR '' '' # w @ s)) toks = (False, at_rest b (w @ s))"
proof -
  obtain c u where c: "w = c # u" "\<not> white c" "strchr symbols c = None" using valid_word_Cons [OF assms(1)] by blast
  have "c \<notin> set symbols" using c(3) strchr_symbols [of c] by (auto simp: symbols_def)
  then have "strchr toks c = None" using assms(4) by (blast intro: strchr_outside)
  then show ?thesis using peek_rest [OF assms(2,3), of toks] c(1,2) by simp
qed

lemma parseredirs_none:
  assumes "suffix s b" "NUL \<notin> set b" "next_in cs s" "\<forall>c \<in> set cs. strchr ''<>'' c = None"
  shows "parseredirs b (at_rest b s) c = Inr (c, at_rest b (trimmed s))"
  using peek_no [OF assms] by (simp add: parseredirs.simps [of b "at_rest b s"])

text \<open>One redirection.\<close>

lemma parseredirs_one:
  assumes "suffix (redir_text (f, mode, fd) @ s) b" "NUL \<notin> set b" "valid_redir (f, mode, fd)" "ends s"
  shows "\<exists>q e. parseredirs b (at_rest b (redir_text (f, mode, fd) @ s)) c =
      parseredirs b (at_rest b s) (Redir_cmd c q e mode fd) \<and> word_of b (q, e) = f"
proof -
  define d where "d = (if fd = 0 then CHR ''<'' else CHR ''>'')"
  let ?s = "redir_text (f, mode, fd) @ s" and ?w = "CHR '' '' # f @ s"
  have f: "valid_word f" and md: "redirect d c q e = Redir_cmd c q e mode fd" for q e
    using assms(3) by (auto simp: valid_redir_def d_def redirect_def)
  have s: "?s = CHR '' '' # d # ?w" by (simp add: redir_text_def d_def)
  have t: "trimmed ?s = d # ?w" unfolding s by (simp add: d_def)
  have suf: "suffix ?w b" "suffix (f @ s) b" "suffix s b"
    using assms(1) unfolding s by (auto dest: suffix_ConsD' suffix_appendD)
  have p: "peek b (at_rest b ?s) ''<>'' = (True, at_rest b (d # ?w))"
    using peek_rest [OF assms(1,2), of "''<>''"] unfolding t by (simp add: d_def)
  have dsuf: "suffix (d # ?w) b" using assms(1) unfolding s by (rule suffix_ConsD')
  have dt: "trimmed (d # ?w) = d # ?w" by (simp add: d_def)
  have g: "gettoken b (at_rest b (d # ?w)) = ((d, at_rest b (d # ?w), at_rest b ?w), at_rest b (f @ s))"
    using gettoken_symbol [OF dsuf dt] gettoken_greater [OF dsuf, of ?w] dt trimmed_word [OF f]
    by (auto simp: d_def)
  note h = gettoken_valid_word [OF suf(2) trimmed_word [OF f] f assms(4)]
  have "parseredirs b (at_rest b ?s) c = parseredirs b (at_rest b (trimmed s)) (Redir_cmd c (at_rest b (f @ s)) (at_rest b s) mode fd)"
    by (simp add: parseredirs.simps [of b "at_rest b ?s"] p g h(1) md)
  also have "\<dots> = parseredirs b (at_rest b s) (Redir_cmd c (at_rest b (f @ s)) (at_rest b s) mode fd)"
    using parseredirs_skip [of b "at_rest b s"] skip_white_rest [OF suf(3)] by simp
  finally show ?thesis using h(2) by blast
qed

lemma parseredirs_all:
  assumes "NUL \<notin> set b" "ends s" "next_in cs s" "\<forall>c \<in> set cs. strchr ''<>'' c = None"
  shows "list_all valid_redir rs \<Longrightarrow> suffix (redirs_text rs @ s) b \<Longrightarrow>
    \<exists>t. parseredirs b (at_rest b (redirs_text rs @ s)) c = Inr (t, at_rest b (trimmed s)) \<and>
      tokens b t = redir_all rs (tokens b c)"
proof (induction rs arbitrary: c)
  case Nil
  then show ?case using parseredirs_none [OF _ assms(1,3,4)] by simp
next
  case (Cons r rs)
  obtain f mode fd where r: "r = (f, mode, fd)" by (cases r)
  let ?s = "redirs_text rs @ s"
  have "suffix (redir_text (f, mode, fd) @ ?s) b" using Cons.prems(2) r by simp
  from parseredirs_one [OF this assms(1), of c] Cons.prems(1) ends_texts(1) [OF assms(2)]
  obtain q e where one: "parseredirs b (at_rest b (redirs_text (r # rs) @ s)) c =
      parseredirs b (at_rest b ?s) (Redir_cmd c q e mode fd)" "word_of b (q, e) = f" by (auto simp: r)
  have "suffix ?s b" using Cons.prems(2) by (simp add: suffix_appendD)
  with Cons.IH [of "Redir_cmd c q e mode fd"] Cons.prems(1) show ?case using one by (simp add: r)
qed

lemma parseargs_end:
  assumes "suffix s b" "NUL \<notin> set b" "next_in ''|)&;'' s"
  shows "parseargs b (at_rest b s) n c = Inr (c, at_rest b (trimmed s))"
proof (cases "trimmed s")
  case Nil
  then show ?thesis using gettoken_end [OF suffix_trimmed [OF assms(1)]] peek_rest [OF assms(1,2), of "''|)&;''"]
    by (simp add: parseargs.simps [of b "at_rest b s"])
next
  case (Cons c r)
  then show ?thesis using assms(3) peek_rest [OF assms(1,2), of "''|)&;''"]
    by (auto simp: parseargs.simps [of b "at_rest b s"] next_in_def)
qed

text \<open>The words of a command and the redirections behind them.\<close>

lemma parseargs_all:
  assumes "NUL \<notin> set b" "ends s" "next_in ''|)&;'' s" "list_all valid_redir rs"
  shows "list_all valid_word (w # ws) \<Longrightarrow> length args + length (w # ws) < MAXARGS \<Longrightarrow>
    suffix (words_text (w # ws) @ redirs_text rs @ s) b \<Longrightarrow>
    \<exists>t. parseargs b (at_rest b (words_text (w # ws) @ redirs_text rs @ s)) (length args) (Exec_cmd args) =
        Inr (t, at_rest b (trimmed s)) \<and>
      tokens b t = redir_all rs (Exec (map (word_of b) args @ w # ws))"
proof (induction ws arbitrary: w args)
  case (Cons v ws)
  define S where "S = words_text (v # ws) @ redirs_text rs @ s"
  have suf: "suffix (CHR '' '' # w @ S) b" "suffix S b"
    using Cons.prems(3) by (auto simp: S_def dest: suffix_ConsD' suffix_appendD)
  have v: "valid_word w" "valid_word v" "ends S" using Cons.prems(1) by (simp_all add: S_def)
  have p: "peek b (at_rest b (CHR '' '' # w @ S)) ''|)&;'' = (False, at_rest b (w @ S))"
    by (rule peek_word [OF v(1) suf(1) assms(1)]) (simp add: symbols_def)
  have sw: "suffix (w @ S) b" using suf(1) by (rule suffix_ConsD')
  note g = gettoken_valid_word [OF sw trimmed_word [OF v(1)] v(1,3)]
  let ?q = "at_rest b (w @ S)" and ?e = "at_rest b S"
  have vs: "suffix (CHR '' '' # v @ words_text ws @ redirs_text rs @ s) b" using suf(2) by (simp add: S_def)
  have "trimmed S = v @ words_text ws @ redirs_text rs @ s" using trimmed_word [OF v(2)] by (simp add: S_def)
  then have "parseredirs b (at_rest b S) d = Inr (d, at_rest b (trimmed S))" for d
    using peek_word [OF v(2) vs assms(1), of "''<>''"]
    by (simp add: parseredirs.simps [of b "at_rest b (CHR '' '' # v @ words_text ws @ redirs_text rs @ s)"] symbols_def S_def)
  then have none: "parseredirs b (at_rest b (trimmed S)) d = Inr (d, at_rest b (trimmed S))" for d
    using skip_white_rest [OF suf(2)] parseredirs_skip [of b "at_rest b S" d] by simp
  have "parseargs b (at_rest b (CHR '' '' # w @ S)) (length args) (Exec_cmd args) =
      parseargs b (at_rest b (trimmed S)) (length (args @ [(?q, ?e)])) (Exec_cmd (args @ [(?q, ?e)]))"
    using Cons.prems(2) none by (simp add: parseargs.simps [of b "at_rest b (CHR '' '' # w @ S)"] p g(1))
  also have "\<dots> = parseargs b ?e (length (args @ [(?q, ?e)])) (Exec_cmd (args @ [(?q, ?e)]))"
    using skip_white_rest [OF suf(2)] parseargs_skip [of b ?e] by simp
  finally have "parseargs b (at_rest b (words_text (w # v # ws) @ redirs_text rs @ s)) (length args) (Exec_cmd args) =
      parseargs b ?e (length (args @ [(?q, ?e)])) (Exec_cmd (args @ [(?q, ?e)]))" by (simp add: S_def)
  with Cons.IH [of v "args @ [(?q, ?e)]"] Cons.prems(1,2) suf(2) g(2) show ?case by (simp add: S_def)
next
  case Nil
  let ?s = "redirs_text rs @ s"
  have suf: "suffix (CHR '' '' # w @ ?s) b" "suffix ?s b" "suffix s b"
    using Nil.prems(3) by (auto dest: suffix_ConsD' suffix_appendD)
  have v: "valid_word w" "ends ?s" using Nil.prems(1) ends_texts(1) [OF assms(2)] by simp_all
  have p: "peek b (at_rest b (CHR '' '' # w @ ?s)) ''|)&;'' = (False, at_rest b (w @ ?s))"
    by (rule peek_word [OF v(1) suf(1) assms(1)]) (simp add: symbols_def)
  have sw: "suffix (w @ ?s) b" using suf(1) by (rule suffix_ConsD')
  note g = gettoken_valid_word [OF sw trimmed_word [OF v(1)] v(1,2)]
  let ?q = "at_rest b (w @ ?s)" and ?e = "at_rest b ?s"
  obtain t where r: "parseredirs b ?e (Exec_cmd (args @ [(?q, ?e)])) = Inr (t, at_rest b (trimmed s))"
    "tokens b t = redir_all rs (tokens b (Exec_cmd (args @ [(?q, ?e)])))"
    using parseredirs_all [OF assms(1,2,3) _ assms(4) suf(2)] by force
  have "parseargs b (at_rest b (CHR '' '' # w @ ?s)) (length args) (Exec_cmd args) =
      parseargs b (at_rest b (trimmed s)) (length args + 1) t"
    using Nil.prems(2) r(1) parseredirs_skip [of b ?e] skip_white_rest [OF suf(2)]
    by (simp add: parseargs.simps [of b "at_rest b (CHR '' '' # w @ ?s)"] p g(1))
  also have "\<dots> = Inr (t, at_rest b (trimmed s))"
    using parseargs_end [OF suf(3) assms(1,3)] parseargs_skip [of b "at_rest b s"] skip_white_rest [OF suf(3)] by simp
  finally show ?case using r(2) g(2) by simp
qed

section \<open>The round trip\<close>

text \<open>What the parsers of a command and of a line do with a printed command, in front of anything that may
  follow it.\<close>

definition reads_exec :: "shell \<Rightarrow> bool" where
  "reads_exec c \<longleftrightarrow> (\<forall>k b rs s. suffix (shell_text c True @ redirs_text rs @ s) b \<longrightarrow> NUL \<notin> set b \<longrightarrow>
     list_all valid_redir rs \<longrightarrow> ends s \<longrightarrow> next_in ''|)&;'' s \<longrightarrow>
     4 * length (shell_text c True @ redirs_text rs @ s) + 2 \<le> k \<longrightarrow>
     (\<exists>t. parseexec k b (at_rest b (shell_text c True @ redirs_text rs @ s)) = Inr (t, at_rest b (trimmed s)) \<and>
        tokens b t = redir_all rs c))"

definition reads_line :: "shell \<Rightarrow> bool" where
  "reads_line c \<longleftrightarrow> (\<forall>k b s. suffix (shell_text c False @ s) b \<longrightarrow> NUL \<notin> set b \<longrightarrow>
     ends s \<longrightarrow> next_in '')'' s \<longrightarrow> 4 * length (shell_text c False @ s) + 4 \<le> k \<longrightarrow>
     (\<exists>t. parseline k b (at_rest b (shell_text c False @ s)) = Inr (t, at_rest b (trimmed s)) \<and> tokens b t = c))"

lemma reads_execD:
  assumes "reads_exec c" "suffix (shell_text c True @ s) b" "NUL \<notin> set b" "ends s" "next_in ''|)&;'' s"
    "4 * length (shell_text c True @ s) + 2 \<le> k"
  shows "\<exists>t. parseexec k b (at_rest b (shell_text c True @ s)) = Inr (t, at_rest b (trimmed s)) \<and> tokens b t = c"
  using assms(1) [unfolded reads_exec_def, rule_format, of "[]" s b k] assms by simp

lemma next_in_mono: "next_in cs s \<Longrightarrow> set cs \<subseteq> set ds \<Longrightarrow> next_in ds s"
  by (auto simp: next_in_def split: list.splits)

lemma peek_trimmed:
  assumes "suffix s b"
  shows "peek b (at_rest b (trimmed s)) toks = peek b (at_rest b s) toks"
  using peek_skip [of b "at_rest b s" toks] skip_white_rest [OF assms] by simp

lemma parsepipe_command:
  assumes "reads_exec c" "suffix (shell_text c True @ s) b" "NUL \<notin> set b" "ends s" "next_in '')&;'' s"
    "4 * length (shell_text c True @ s) + 3 \<le> k"
  shows "\<exists>t. parsepipe k b (at_rest b (shell_text c True @ s)) = Inr (t, at_rest b (trimmed s)) \<and> tokens b t = c"
proof -
  obtain k' where k: "k = Suc k'" using assms(6) by (cases k) auto
  have suf: "suffix s b" using assms(2) by (rule suffix_appendD)
  obtain t where t: "parseexec k' b (at_rest b (shell_text c True @ s)) = Inr (t, at_rest b (trimmed s))" "tokens b t = c"
    using reads_execD [OF assms(1-4), of k'] next_in_mono [OF assms(5)] assms(6) k by auto
  have "peek b (at_rest b (trimmed s)) ''|'' = (False, at_rest b (trimmed s))"
    using peek_no [OF suf assms(3,5), of "''|''"] peek_trimmed [OF suf] by simp
  then show ?thesis using t by (simp add: k)
qed

text \<open>Behind a command the rest of a line has no operator.\<close>

lemma line_end:
  assumes "suffix s b" "NUL \<notin> set b" "next_in '')'' s"
  shows "parseback b (at_rest b (trimmed s)) c = (c, at_rest b (trimmed s))"
    "peek b (at_rest b (trimmed s)) '';'' = (False, at_rest b (trimmed s))"
    "peek b (at_rest b (trimmed s)) ''|'' = (False, at_rest b (trimmed s))"
  using peek_no [OF assms, of "''&''"] peek_no [OF assms, of "'';''"] peek_no [OF assms, of "''|''"] peek_trimmed [OF assms(1)]
  by (simp_all add: parseback.simps [of b "at_rest b (trimmed s)"])

lemma parseline_command:
  assumes "reads_exec c" "suffix (shell_text c True @ s) b" "NUL \<notin> set b" "ends s" "next_in '')'' s"
    "4 * length (shell_text c True @ s) + 4 \<le> k"
  shows "\<exists>t. parseline k b (at_rest b (shell_text c True @ s)) = Inr (t, at_rest b (trimmed s)) \<and> tokens b t = c"
proof -
  obtain k' where k: "k = Suc k'" using assms(6) by (cases k) auto
  have suf: "suffix s b" using assms(2) by (rule suffix_appendD)
  obtain t where t: "parsepipe k' b (at_rest b (shell_text c True @ s)) = Inr (t, at_rest b (trimmed s))" "tokens b t = c"
    using parsepipe_command [OF assms(1-4), of k'] next_in_mono [OF assms(5)] assms(6) k by auto
  then show ?thesis using line_end [OF suf assms(3,5)] by (simp add: k)
qed

text \<open>An operator behind a command, and the pointer behind it.\<close>

lemma operator:
  assumes "suffix (x # s) b" "NUL \<notin> set b" "x \<in> {CHR ''|'', CHR ''('', CHR '')'', CHR '';'', CHR ''&''}"
  shows "peek b (at_rest b (x # s)) [x] = (True, at_rest b (x # s))"
    "snd (gettoken b (at_rest b (x # s))) = skip_white b (at_rest b s)"
    "trimmed (x # s) = x # s" "at_rest b (x # s) < length b"
proof -
  show t: "trimmed (x # s) = x # s" using assms(3) by auto
  show "peek b (at_rest b (x # s)) [x] = (True, at_rest b (x # s))"
    using assms(3) by (subst peek_rest [OF assms(1,2)]) (auto simp: t)
  have "suffix s b" using assms(1) by (rule suffix_ConsD')
  moreover have "x \<in> {CHR ''|'', CHR ''('', CHR '')'', CHR '';'', CHR ''&'', CHR ''<''}" using assms(3) by blast
  ultimately show "snd (gettoken b (at_rest b (x # s))) = skip_white b (at_rest b s)"
    by (simp only: gettoken_symbol [OF assms(1) t] skip_white_rest snd_conv)
  show "at_rest b (x # s) < length b" using at_rest_bound [OF assms(1)] by simp
qed

lemma next_in_operator: "x \<in> set cs \<Longrightarrow> \<not> white x \<Longrightarrow> next_in cs (x # s)"
  by (simp add: next_in_def)

lemma reads_line_seq:
  assumes "reads_exec l" "reads_exec r"
  shows "reads_line (Seq l r)"
  unfolding reads_line_def
proof (intro allI impI)
  fix k b s
  let ?r = "shell_text r True @ s"
  assume a: "suffix (shell_text (Seq l r) False @ s) b" "NUL \<notin> set b" "ends s" "next_in '')'' s"
    "4 * length (shell_text (Seq l r) False @ s) + 4 \<le> k"
  obtain k' where k: "k = Suc k'" using a(5) by (cases k) auto
  have suf: "suffix (shell_text l True @ CHR '';'' # ?r) b" "suffix (CHR '';'' # ?r) b" "suffix ?r b"
    using a(1) by (auto simp: paren_def dest: suffix_appendD suffix_ConsD')
  obtain t where t: "parsepipe k' b (at_rest b (shell_text l True @ CHR '';'' # ?r)) = Inr (t, at_rest b (CHR '';'' # ?r))"
      "tokens b t = l"
    using parsepipe_command [OF assms(1) suf(1) a(2), of k'] a(5) by (auto simp: k paren_def next_in_operator)
  obtain u where u: "parseline k' b (at_rest b ?r) = Inr (u, at_rest b (trimmed s))" "tokens b u = r"
    using parseline_command [OF assms(2) suf(3) a(2-4), of k'] a(5) by (auto simp: k paren_def)
  have "peek b (at_rest b (CHR '';'' # ?r)) ''&'' = (False, at_rest b (CHR '';'' # ?r))"
    using peek_no [OF suf(2) a(2), of "'';''" "''&''"] by (simp add: next_in_operator)
  then show "\<exists>t. parseline k b (at_rest b (shell_text (Seq l r) False @ s)) = Inr (t, at_rest b (trimmed s)) \<and>
      tokens b t = Seq l r"
    using t u operator(1,2) [OF suf(2) a(2)] parseline_skip [of k' b "at_rest b ?r"]
    by (simp add: k paren_def parseback.simps [of b "at_rest b (CHR '';'' # ?r)"])
qed

lemma reads_line_back:
  assumes "reads_exec c"
  shows "reads_line (Back c)"
  unfolding reads_line_def
proof (intro allI impI)
  fix k b s
  assume a: "suffix (shell_text (Back c) False @ s) b" "NUL \<notin> set b" "ends s" "next_in '')'' s"
    "4 * length (shell_text (Back c) False @ s) + 4 \<le> k"
  obtain k' where k: "k = Suc k'" using a(5) by (cases k) auto
  have suf: "suffix (shell_text c True @ CHR ''&'' # s) b" "suffix (CHR ''&'' # s) b" "suffix s b"
    using a(1) by (auto simp: paren_def dest: suffix_appendD suffix_ConsD')
  obtain t where t: "parsepipe k' b (at_rest b (shell_text c True @ CHR ''&'' # s)) = Inr (t, at_rest b (CHR ''&'' # s))"
      "tokens b t = c"
    using parsepipe_command [OF assms suf(1) a(2), of k'] a(5) by (auto simp: k paren_def next_in_operator)
  have "parseback b (skip_white b (at_rest b s)) d = (d, at_rest b (trimmed s))" for d
    using line_end(1) [OF suf(3) a(2,4)] skip_white_rest [OF suf(3)] by simp
  then have "parseback b (at_rest b (CHR ''&'' # s)) t = (Back_cmd t, at_rest b (trimmed s))"
    using operator(1,2) [OF suf(2) a(2)] by (simp add: parseback.simps [of b "at_rest b (CHR ''&'' # s)"])
  then show "\<exists>t. parseline k b (at_rest b (shell_text (Back c) False @ s)) = Inr (t, at_rest b (trimmed s)) \<and>
      tokens b t = Back c"
    using t line_end(2) [OF suf(3) a(2,4)] by (simp add: k paren_def)
qed

lemma reads_line_piped:
  assumes "reads_exec l" "reads_exec r"
  shows "reads_line (Piped l r)"
  unfolding reads_line_def
proof (intro allI impI)
  fix k b s
  let ?r = "shell_text r True @ s"
  assume a: "suffix (shell_text (Piped l r) False @ s) b" "NUL \<notin> set b" "ends s" "next_in '')'' s"
    "4 * length (shell_text (Piped l r) False @ s) + 4 \<le> k"
  obtain k' where k: "k = Suc (Suc k')" using a(5) by (cases k; cases "k - 1") auto
  have suf: "suffix (shell_text l True @ CHR ''|'' # ?r) b" "suffix (CHR ''|'' # ?r) b" "suffix ?r b" "suffix s b"
    using a(1) by (auto simp: paren_def dest: suffix_appendD suffix_ConsD')
  obtain t where t: "parseexec k' b (at_rest b (shell_text l True @ CHR ''|'' # ?r)) = Inr (t, at_rest b (CHR ''|'' # ?r))"
      "tokens b t = l"
    using reads_execD [OF assms(1) suf(1) a(2), of k'] a(5) by (auto simp: k paren_def next_in_operator)
  obtain u where u: "parsepipe k' b (at_rest b ?r) = Inr (u, at_rest b (trimmed s))" "tokens b u = r"
    using parsepipe_command [OF assms(2) suf(3) a(2,3) next_in_mono [OF a(4)], of k'] a(5) by (auto simp: k paren_def)
  show "\<exists>t. parseline k b (at_rest b (shell_text (Piped l r) False @ s)) = Inr (t, at_rest b (trimmed s)) \<and>
      tokens b t = Piped l r"
    using t u operator(1,2) [OF suf(2) a(2)] parsepipe_skip [of k' b "at_rest b ?r"] line_end [OF suf(4) a(2,4)]
    by (simp add: k paren_def)
qed

text \<open>A line in parentheses is a command.\<close>

lemma reads_exec_block:
  assumes "reads_line c" "shell_text c True = CHR ''('' # shell_text c False @ '')''"
  shows "reads_exec c"
  unfolding reads_exec_def
proof (intro allI impI)
  fix k b rs s
  let ?s = "redirs_text rs @ s"
  let ?c = "shell_text c False @ CHR '')'' # ?s"
  assume a: "suffix (shell_text c True @ redirs_text rs @ s) b" "NUL \<notin> set b" "list_all valid_redir rs" "ends s"
    "next_in ''|)&;'' s" "4 * length (shell_text c True @ redirs_text rs @ s) + 2 \<le> k"
  obtain k' where k: "k = Suc (Suc k')" using a(6) by (cases k; cases "k - 1") auto
  have suf: "suffix (CHR ''('' # ?c) b" "suffix ?c b" "suffix (CHR '')'' # ?s) b" "suffix ?s b"
    using a(1) unfolding assms(2) by (auto dest: suffix_appendD suffix_ConsD')
  obtain t where t: "parseline k' b (at_rest b ?c) = Inr (t, at_rest b (CHR '')'' # ?s))" "tokens b t = c"
    using assms(1) [unfolded reads_line_def, rule_format, of "CHR '')'' # ?s" b k'] suf(2) a(2,6)
    unfolding assms(2) by (auto simp: k next_in_operator)
  obtain u where u: "parseredirs b (at_rest b ?s) t = Inr (u, at_rest b (trimmed s))"
      "tokens b u = redir_all rs (tokens b t)"
    using parseredirs_all [OF a(2,4,5) _ a(3) suf(4), of t] by auto
  show "\<exists>t. parseexec k b (at_rest b (shell_text c True @ redirs_text rs @ s)) = Inr (t, at_rest b (trimmed s)) \<and>
      tokens b t = redir_all rs c"
    using t u operator(1,2) [OF suf(1) a(2)] operator(1,2) [OF suf(3) a(2)] parseline_skip [of k' b "at_rest b ?c"]
      parseredirs_skip [of b "at_rest b ?s" t]
    unfolding assms(2) by (simp add: k)
qed

lemma reads_exec_words:
  assumes "length ws < MAXARGS" "list_all valid_word ws"
  shows "reads_exec (Exec ws)"
  unfolding reads_exec_def
proof (intro allI impI)
  fix k b rs s
  let ?s = "words_text ws @ redirs_text rs @ s"
  assume a: "suffix (shell_text (Exec ws) True @ redirs_text rs @ s) b" "NUL \<notin> set b" "list_all valid_redir rs" "ends s"
    "next_in ''|)&;'' s" "4 * length (shell_text (Exec ws) True @ redirs_text rs @ s) + 2 \<le> k"
  obtain k' where k: "k = Suc k'" using a(6) by (cases k) auto
  have suf: "suffix ?s b" "suffix (redirs_text rs @ s) b" "suffix s b" using a(1) by (auto dest: suffix_appendD)
  have no: "peek b (at_rest b ?s) ''('' = (False, at_rest b (trimmed ?s)) \<and>
    (ws \<noteq> [] \<longrightarrow> parseredirs b (at_rest b (trimmed ?s)) (Exec_cmd []) = Inr (Exec_cmd [], at_rest b (trimmed ?s)))"
  proof (cases ws)
    case (Cons w us)
    then have w: "valid_word w" "suffix (CHR '' '' # w @ words_text us @ redirs_text rs @ s) b" using assms(2) suf(1) by simp_all
    have "peek b (at_rest b ?s) ''('' = (False, at_rest b (trimmed ?s))" "peek b (at_rest b ?s) ''<>'' = (False, at_rest b (trimmed ?s))"
      using peek_word [OF w a(2)] trimmed_word [OF w(1)] Cons by (simp_all add: symbols_def)
    then show ?thesis using peek_trimmed [OF suf(1)] by (simp add: parseredirs.simps [of b "at_rest b (trimmed ?s)"])
  next
    case Nil
    have "next_in ''|)&;<>'' (redirs_text rs @ s)"
    proof (cases rs)
      case Nil
      then show ?thesis using next_in_mono [OF a(5)] by simp
    next
      case (Cons r us)
      then show ?thesis by (cases r) (simp add: redir_text_def next_in_def)
    qed
    then show ?thesis using peek_no [OF suf(2) a(2), of "''|)&;<>''" "''(''"] Nil by simp
  qed
  show "\<exists>t. parseexec k b (at_rest b (shell_text (Exec ws) True @ redirs_text rs @ s)) = Inr (t, at_rest b (trimmed s)) \<and>
      tokens b t = redir_all rs (Exec ws)"
  proof (cases ws)
    case (Cons w us)
    have "parseargs b (at_rest b (trimmed ?s)) 0 (Exec_cmd []) = parseargs b (at_rest b ?s) 0 (Exec_cmd [])"
      using parseargs_skip [of b "at_rest b ?s"] skip_white_rest [OF suf(1)] by simp
    then show ?thesis
      using no parseargs_all [OF a(2,4,5,3), of w us "[]"] assms suf(1) Cons by (auto simp: k)
  next
    case Nil
    obtain t where t: "parseredirs b (at_rest b (redirs_text rs @ s)) (Exec_cmd []) = Inr (t, at_rest b (trimmed s))"
        "tokens b t = redir_all rs (Exec [])"
      using parseredirs_all [OF a(2,4,5) _ a(3) suf(2), of "Exec_cmd []"] by auto
    have "parseargs b (at_rest b (trimmed s)) 0 t = Inr (t, at_rest b (trimmed s))"
      using parseargs_end [OF suf(3) a(2,5)] parseargs_skip [of b "at_rest b s"] skip_white_rest [OF suf(3)] by simp
    then show ?thesis
      using no t Nil parseredirs_skip [of b "at_rest b (redirs_text rs @ s)"] skip_white_rest [OF suf(2)] by (auto simp: k)
  qed
qed

lemma reads_exec_redir:
  assumes "reads_exec c" "valid_redir (f, mode, fd)"
  shows "reads_exec (Redir c f mode fd)"
  unfolding reads_exec_def
proof (intro allI impI)
  fix k b rs s
  assume "suffix (shell_text (Redir c f mode fd) True @ redirs_text rs @ s) b" "NUL \<notin> set b" "list_all valid_redir rs" "ends s"
    "next_in ''|)&;'' s" "4 * length (shell_text (Redir c f mode fd) True @ redirs_text rs @ s) + 2 \<le> k"
  then show "\<exists>t. parseexec k b (at_rest b (shell_text (Redir c f mode fd) True @ redirs_text rs @ s)) = Inr (t, at_rest b (trimmed s)) \<and>
      tokens b t = redir_all rs (Redir c f mode fd)"
    using assms(1) [unfolded reads_exec_def, rule_format, of "(f, mode, fd) # rs" s b k] assms(2) by simp
qed

lemma reads_line_command:
  assumes "reads_exec c" "shell_text c False = shell_text c True"
  shows "reads_line c"
  unfolding reads_line_def assms(2) using parseline_command [OF assms(1)] by blast

lemma shell_reads: "valid_shell c \<Longrightarrow> reads_exec c \<and> reads_line c"
proof (induction c)
  case (Exec ws)
  then show ?case using reads_exec_words [of ws] reads_line_command [of "Exec ws"] by simp
next
  case (Redir c f mode fd)
  then show ?case using reads_exec_redir [of c f mode fd] reads_line_command [of "Redir c f mode fd"] by simp
next
  case (Piped l r)
  then show ?case using reads_line_piped reads_exec_block [of "Piped l r"] by (simp add: paren_def)
next
  case (Seq l r)
  then show ?case using reads_line_seq reads_exec_block [of "Seq l r"] by (simp add: paren_def)
next
  case (Back c)
  then show ?case using reads_line_back reads_exec_block [of "Back c"] by (simp add: paren_def)
qed

lemma NUL_words: "list_all valid_word ws \<Longrightarrow> NUL \<notin> set (words_text ws)"
  by (induction ws) (auto simp: valid_word_def)

lemma NUL_shell: "valid_shell c \<Longrightarrow> NUL \<notin> set (shell_text c x)"
  by (induction c arbitrary: x) (auto simp: NUL_words paren_def redir_text_def valid_redir_def valid_word_def)

text \<open>C12: every command whose words can be typed (no white space, no symbols, at most nine arguments),
  printed with parentheses around its compound parts, is parsed by the shell into exactly this
  command: what \<open>runcmd\<close> finds in the ended words is the command that was printed.\<close>

theorem print_parse:
  assumes "valid_shell c"
  shows "\<exists>t buf. parsecmd (shell_text c False) = Inr (t, buf) \<and> strings buf t = c"
proof -
  let ?b = "shell_text c False"
  have n: "NUL \<notin> set ?b" using assms by (rule NUL_shell)
  obtain t where t: "parseline (parse_fuel ?b) ?b 0 = Inr (t, length ?b)" "tokens ?b t = c"
    using shell_reads [OF assms, THEN conjunct2, unfolded reads_line_def, rule_format, of "[]" ?b "parse_fuel ?b"] n
    by (auto simp: parse_fuel_def next_in_def at_rest_def)
  have "peek ?b (length ?b) [] = (False, length ?b)"
    using peek_rest [of "[]" ?b "[]"] n by simp
  then obtain buf where "parsecmd ?b = Inr (t, buf)" using t(1) by (simp add: parsecmd_def)
  then show ?thesis using parsecmd_words [OF n] t(2) by (intro exI [of _ t] exI [of _ buf]) simp
qed

text \<open>At \<open>( ls -l | grep x > out)&; cat < out\<close>.\<close>

lemma print_parse_witness:
  "\<exists>c t buf. c = Seq (Back (Piped (Exec [''ls'', ''-l'']) (Redir (Exec [''grep'', ''x'']) ''out'' (O_WRONLY OR O_CREATE) 1)))
        (Redir (Exec [''cat'']) ''out'' O_RDONLY 0) \<and> valid_shell c \<and>
     shell_text c False = ''(( ls -l| grep x > out)&); cat < out'' \<and>
     parsecmd (shell_text c False) = Inr (t, buf) \<and> strings buf t = c"
proof -
  let ?c = "Seq (Back (Piped (Exec [''ls'', ''-l'']) (Redir (Exec [''grep'', ''x'']) ''out'' (O_WRONLY OR O_CREATE) 1)))
        (Redir (Exec [''cat'']) ''out'' O_RDONLY 0)"
  have v: "valid_shell ?c"
    by (simp add: MAXARGS_def valid_redir_def valid_word_def word_char_def whitespace_def symbols_def)
  have "shell_text ?c False = ''(( ls -l| grep x > out)&); cat < out''"
    by (simp add: words_text_def redir_text_def paren_def)
  then show ?thesis using v print_parse [OF v] by auto
qed

end
