(* ===== verification/Shell_Run.thy ===== *)
theory Shell_Run
  imports Shell_Print
begin

text \<open>
  Running commands (\<open>sh.c\<close>): the main loop with its built-in commands, and how \<open>runcmd\<close> sets up the
  descriptors of the programs it starts.  A process is its table of descriptors; \<open>fork\<close> copies it,
  \<open>open\<close>, \<open>dup\<close> and \<open>pipe\<close> take the lowest free ones.
\<close>

section \<open>The main loop\<close>

definition SH_BUF :: nat where "SH_BUF = 100"

text \<open>\<open>getcmd\<close>: the buffer is cleared, filled, and empty only at the end of the input.\<close>

definition getcmd :: "string \<Rightarrow> string option \<times> string" where
  "getcmd inp =
     (case gets (replicate SH_BUF NUL) SH_BUF inp of
        (buf, rest) \<Rightarrow> (if c_hd buf = NUL then None else Some buf, rest))"

datatype action = Chdir string | Logout | Run string

text \<open>The command of a line, with the last character of a \<open>cd\<close> line cut off.\<close>

definition line_action :: "string \<Rightarrow> action" where
  "line_action buf =
     (if take 3 buf = ''cd '' then Chdir (cstr (drop 3 (buf[strlen buf - 1 := NUL])))
      else if take 6 buf = ''logout'' then Logout
      else Run (cstr buf))"

lemma gets_loop_length:
  "gets_loop n inp = (l, rest) \<Longrightarrow> length rest \<le> length inp \<and> (l \<noteq> [] \<longrightarrow> length rest < length inp)"
proof (induction n inp arbitrary: l rest rule: gets_loop.induct)
  case (3 n c inp)
  then show ?case by (auto split: if_splits prod.splits)
qed auto

lemma getcmd_length: "getcmd inp = (Some buf, rest) \<Longrightarrow> length rest < length inp"
  using gets_loop_length [of "SH_BUF - 1" inp]
  by (cases "gets_loop (SH_BUF - 1) inp") (auto simp: getcmd_def gets_def split: if_splits)

function shell_main :: "string \<Rightarrow> action list" where
  "shell_main inp =
     (case getcmd inp of
        (None, rest) \<Rightarrow> []
      | (Some buf, rest) \<Rightarrow>
          (case line_action buf of
             Logout \<Rightarrow> [Logout]
           | Chdir d \<Rightarrow> Chdir d # shell_main rest
           | Run s \<Rightarrow> Run s # shell_main rest))"
  by pat_completeness auto
termination
  by (relation "measure length") (auto dest!: getcmd_length [OF sym])

declare shell_main.simps [simp del]

section \<open>Descriptors\<close>

datatype target = Inherited nat | Opened string nat | Read_end nat | Write_end nat

type_synonym fds = "target option list"

definition lowest :: "fds \<Rightarrow> nat option" where
  "lowest t = first_from 0 (\<lambda>x. x = None) t"

definition place :: "target \<Rightarrow> fds \<Rightarrow> fds option" where
  "place x t = map_option (\<lambda>i. t[i := Some x]) (lowest t)"

definition close_fd :: "nat \<Rightarrow> fds \<Rightarrow> fds" where
  "close_fd i t = t[i := None]"

definition dup_fd :: "nat \<Rightarrow> fds \<Rightarrow> fds" where
  "dup_fd i t = (if i < length t then case t ! i of None \<Rightarrow> t | Some x \<Rightarrow> (case place x t of None \<Rightarrow> t | Some u \<Rightarrow> u) else t)"

text \<open>\<open>pipe\<close>: the descriptors of its two ends.\<close>

definition pipe_fds :: "nat \<Rightarrow> fds \<Rightarrow> ((nat \<times> nat) \<times> fds) option" where
  "pipe_fds n t =
     (case lowest t of
        None \<Rightarrow> None
      | Some i \<Rightarrow>
          (case lowest (t[i := Some (Read_end n)]) of
             None \<Rightarrow> None
           | Some j \<Rightarrow> Some ((i, j), t[i := Some (Read_end n), j := Some (Write_end n)])))"

text \<open>The programs that a command starts, each with its arguments and its descriptors; \<open>ok\<close> says which
  files can be opened, and \<open>n\<close> numbers the pipes.\<close>

primrec runcmd :: "(string \<Rightarrow> nat \<Rightarrow> bool) \<Rightarrow> shell \<Rightarrow> fds \<Rightarrow> nat \<Rightarrow> (string list \<times> fds) list \<times> nat" where
  "runcmd ok (Exec ws) t n = (if ws = [] then [] else [(ws, t)], n)"
| "runcmd ok (Redir c f mode fd) t n =
     (let u = close_fd fd t in
      if \<not> ok f mode then ([], n)
      else case place (Opened f mode) u of None \<Rightarrow> ([], n) | Some v \<Rightarrow> runcmd ok c v n)"
| "runcmd ok (Seq l r) t n =
     (case runcmd ok l t n of (js, n1) \<Rightarrow> case runcmd ok r t n1 of (ks, n2) \<Rightarrow> (js @ ks, n2))"
| "runcmd ok (Piped l r) t n =
     (case pipe_fds n t of
        None \<Rightarrow> ([], n)
      | Some ((p0, p1), u) \<Rightarrow>
          (case runcmd ok l (close_fd p1 (close_fd p0 (dup_fd p1 (close_fd 1 u)))) (n + 1) of
             (js, n1) \<Rightarrow>
               (case runcmd ok r (close_fd p1 (close_fd p0 (dup_fd p0 (close_fd 0 u)))) n1 of
                  (ks, n2) \<Rightarrow> (js @ ks, n2))))"
| "runcmd ok (Back c) t n = runcmd ok c t n"

section \<open>No pipe end is left open\<close>

text \<open>A process with its three standard descriptors, and \<open>m\<close> free ones.\<close>

definition std_fds :: "nat \<Rightarrow> target \<Rightarrow> target \<Rightarrow> target \<Rightarrow> fds" where
  "std_fds m i x e = [Some i, Some x, Some e] @ replicate m None"

text \<open>What a command means: the programs, with what their standard input and output are.\<close>

primrec wiring :: "(string \<Rightarrow> nat \<Rightarrow> bool) \<Rightarrow> shell \<Rightarrow> target \<Rightarrow> target \<Rightarrow> nat \<Rightarrow> (string list \<times> target \<times> target) list \<times> nat" where
  "wiring ok (Exec ws) i x n = (if ws = [] then [] else [(ws, i, x)], n)"
| "wiring ok (Redir c f mode fd) i x n =
     (if \<not> ok f mode then ([], n)
      else if fd = 0 then wiring ok c (Opened f mode) x n else wiring ok c i (Opened f mode) n)"
| "wiring ok (Seq l r) i x n =
     (case wiring ok l i x n of (js, n1) \<Rightarrow> apfst ((@) js) (wiring ok r i x n1))"
| "wiring ok (Piped l r) i x n =
     (case wiring ok l i (Write_end n) (n + 1) of (js, n1) \<Rightarrow> apfst ((@) js) (wiring ok r (Read_end n) x n1))"
| "wiring ok (Back c) i x n = wiring ok c i x n"

lemma std_redir:
  "place y (close_fd 0 (std_fds m i x e)) = Some (std_fds m y x e)"
  "place y (close_fd (Suc 0) (std_fds m i x e)) = Some (std_fds m i y e)"
  by (simp_all add: std_fds_def place_def close_fd_def lowest_def)

definition pipe_open :: "nat \<Rightarrow> target \<Rightarrow> target \<Rightarrow> target \<Rightarrow> nat \<Rightarrow> fds" where
  "pipe_open m i x e n = [Some i, Some x, Some e, Some (Read_end n), Some (Write_end n)] @ replicate m None"

lemma std_pipe:
  "pipe_fds n (std_fds (Suc (Suc m)) i x e) = Some ((3, 4), pipe_open m i x e n)"
  "close_fd 4 (close_fd 3 (dup_fd 4 (close_fd (Suc 0) (pipe_open m i x e n)))) = std_fds (Suc (Suc m)) i (Write_end n) e"
  "close_fd 4 (close_fd 3 (dup_fd 3 (close_fd 0 (pipe_open m i x e n)))) = std_fds (Suc (Suc m)) (Read_end n) x e"
  by (simp_all add: std_fds_def pipe_open_def pipe_fds_def place_def close_fd_def dup_fd_def lowest_def numeral_nat)

lemma runcmd_std:
  "valid_shell c \<Longrightarrow> runcmd ok c (std_fds (Suc (Suc m)) i x e) n =
     apfst (map (\<lambda>(ws, i', x'). (ws, std_fds (Suc (Suc m)) i' x' e))) (wiring ok c i x n)"
proof (induction c arbitrary: i x n)
  case (Redir c f mode fd)
  then have "fd = 0 \<or> fd = 1" by (auto simp: valid_redir_def)
  then show ?case using Redir by (auto simp: std_redir)
qed (auto simp: std_pipe apfst_def map_prod_def split: prod.splits)

text \<open>C21: what a line does.  When it parses, every program it starts has exactly three descriptors open,
  those that the command means: files it is redirected to, ends of the pipes to its neighbours, or
  the shell's own.  No end of a pipe is left open in any of them.\<close>

theorem line_wiring:
  assumes "NUL \<notin> set b" "parsecmd b = Inr (t, buf)"
  shows "runcmd ok (strings buf t) (std_fds (m + 2) i x e) n =
    apfst (map (\<lambda>(ws, i', x'). (ws, std_fds (m + 2) i' x' e))) (wiring ok (tokens b t) i x n)"
  using parsecmd_words [OF assms] runcmd_std [of "tokens b t" ok m i x e n] by simp

text \<open>At \<open>a | b > f | c\<close>: the second program writes to the file and not to its pipe.\<close>

lemma line_wiring_witness:
  "\<exists>b t buf. b = ''a|b>f|c'' \<and> parsecmd b = Inr (t, buf) \<and>
     runcmd (\<lambda>f m. True) (strings buf t) (std_fds 13 (Inherited 0) (Inherited 1) (Inherited 2)) 0 =
       ([([''a''], std_fds 13 (Inherited 0) (Write_end 0) (Inherited 2)),
         ([''b''], std_fds 13 (Read_end 0) (Opened ''f'' (O_WRONLY OR O_CREATE)) (Inherited 2)),
         ([''c''], std_fds 13 (Read_end 1) (Inherited 1) (Inherited 2))], 2)"
proof -
  let ?b = "''a|b>f|c''"
  have "case parsecmd ?b of Inl e \<Rightarrow> False
    | Inr (t, buf) \<Rightarrow> tokens ?b t = Piped (Exec [''a'']) (Piped (Redir (Exec [''b'']) ''f'' (O_WRONLY OR O_CREATE) 1) (Exec [''c'']))"
    by code_simp
  then obtain t buf where t: "parsecmd ?b = Inr (t, buf)"
    "tokens ?b t = Piped (Exec [''a'']) (Piped (Redir (Exec [''b'']) ''f'' (O_WRONLY OR O_CREATE) 1) (Exec [''c'']))"
    by (auto split: sum.splits)
  then show ?thesis
    using line_wiring [OF _ t(1), of "\<lambda>f m. True" 11 "Inherited 0" "Inherited 1" "Inherited 2" 0] by auto
qed

end
