(* ===== verification/Spinlock.thy ===== *)
theory Spinlock
  imports Prelude
begin

text \<open>
  Spin locks and the nesting of disabled interrupts (\<open>spinlock.c\<close>).  The processors take their steps
  in any order: between the exchange that takes a lock and the store that records its owner, and
  between the store that clears the owner and the one that frees the lock, others may run.
\<close>

section \<open>Interrupts\<close>

record cpu =
  ncli :: int
  intena :: bool
  if_flag :: bool

definition pushcli :: "cpu \<Rightarrow> cpu" where
  "pushcli c =
     (let c1 = c\<lparr>if_flag := False\<rparr>;
          c2 = (if ncli c1 = 0 then c1\<lparr>intena := if_flag c\<rparr> else c1)
      in c2\<lparr>ncli := ncli c2 + 1\<rparr>)"

definition popcli :: "cpu \<Rightarrow> cpu kres" where
  "popcli c =
     (if if_flag c then Inl (Panic ''popcli - interruptible'')
      else let c1 = c\<lparr>ncli := ncli c - 1\<rparr>
        in if ncli c1 < 0 then Inl (Panic ''popcli'')
        else if ncli c1 = 0 \<and> intena c1 then Inr (c1\<lparr>if_flag := True\<rparr>)
        else Inr c1)"

section \<open>Locks\<close>

record spinlock =
  locked :: i32
  lock_cpu :: "nat option"

definition initlock :: spinlock where "initlock = \<lparr>locked = 0, lock_cpu = None\<rparr>"

definition holding :: "nat \<Rightarrow> spinlock \<Rightarrow> cpu \<Rightarrow> (bool \<times> cpu) kres" where
  "holding me lk c = call (popcli (pushcli c)) (\<lambda>c1. Inr (locked lk \<noteq> 0 \<and> lock_cpu lk = Some me, c1))"

text \<open>Where a processor is: outside these functions, in the loop of \<open>acquire\<close>, behind the exchange that
  succeeded, in \<open>release\<close> behind the store that cleared the owner, or stopped by a panic.\<close>

datatype phase = Working | Spinning nat | Recording nat | Clearing nat | Stopped

record mach =
  cpus :: "nat \<Rightarrow> cpu"
  locks :: "nat \<Rightarrow> spinlock"
  phase :: "nat \<Rightarrow> phase"
  pushes :: "nat \<Rightarrow> nat"

text \<open>\<open>acquire\<close> up to its loop, one exchange, and the store of the owner.\<close>

definition acquire_enter :: "nat \<Rightarrow> nat \<Rightarrow> mach \<Rightarrow> mach kres" where
  "acquire_enter me l m =
     call (holding me (locks m l) (pushcli (cpus m me))) (\<lambda>(h, c).
       if h then Inl (Panic ''acquire'')
       else Inr (m\<lparr>cpus := (cpus m)(me := c), phase := (phase m)(me := Spinning l)\<rparr>))"

definition acquire_xchg :: "nat \<Rightarrow> nat \<Rightarrow> mach \<Rightarrow> mach" where
  "acquire_xchg me l m =
     (let old = locked (locks m l); m1 = m\<lparr>locks := (locks m)(l := (locks m l)\<lparr>locked := 1\<rparr>)\<rparr>
      in if old \<noteq> 0 then m1 else m1\<lparr>phase := (phase m)(me := Recording l)\<rparr>)"

definition acquire_record :: "nat \<Rightarrow> nat \<Rightarrow> mach \<Rightarrow> mach" where
  "acquire_record me l m =
     m\<lparr>locks := (locks m)(l := (locks m l)\<lparr>lock_cpu := Some me\<rparr>), phase := (phase m)(me := Working)\<rparr>"

text \<open>\<open>release\<close> up to the barrier, and behind it.\<close>

definition release_enter :: "nat \<Rightarrow> nat \<Rightarrow> mach \<Rightarrow> mach kres" where
  "release_enter me l m =
     call (holding me (locks m l) (cpus m me)) (\<lambda>(h, c).
       if \<not> h then Inl (Panic ''release'')
       else Inr (m\<lparr>cpus := (cpus m)(me := c), locks := (locks m)(l := (locks m l)\<lparr>lock_cpu := None\<rparr>),
                   phase := (phase m)(me := Clearing l)\<rparr>))"

definition release_exit :: "nat \<Rightarrow> nat \<Rightarrow> mach \<Rightarrow> mach kres" where
  "release_exit me l m =
     call (popcli (cpus m me)) (\<lambda>c.
       Inr (m\<lparr>cpus := (cpus m)(me := c), locks := (locks m)(l := (locks m l)\<lparr>locked := 0\<rparr>),
              phase := (phase m)(me := Working)\<rparr>))"

text \<open>A panic turns interrupts off and never returns.\<close>

definition stop_cpu :: "nat \<Rightarrow> mach \<Rightarrow> mach" where
  "stop_cpu me m = m\<lparr>cpus := (cpus m)(me := (cpus m me)\<lparr>if_flag := False\<rparr>), phase := (phase m)(me := Stopped)\<rparr>"

definition or_stop :: "nat \<Rightarrow> mach kres \<Rightarrow> mach \<Rightarrow> mach" where
  "or_stop me r m = (case r of Inl e \<Rightarrow> stop_cpu me m | Inr m1 \<Rightarrow> m1)"

text \<open>The other code of the kernel calls \<open>pushcli\<close>, and \<open>popcli\<close> for a \<open>pushcli\<close> of its own, and allows
  interrupts when nothing disabled them.\<close>

inductive lock_step :: "mach \<Rightarrow> mach \<Rightarrow> bool" where
  acq: "phase m c = Working \<Longrightarrow> lock_step m (or_stop c (acquire_enter c l m) m)"
| xchg: "phase m c = Spinning l \<Longrightarrow> lock_step m (acquire_xchg c l m)"
| rec: "phase m c = Recording l \<Longrightarrow> lock_step m (acquire_record c l m)"
| rel: "phase m c = Working \<Longrightarrow> lock_step m (or_stop c (release_enter c l m) m)"
| fin: "phase m c = Clearing l \<Longrightarrow> lock_step m (or_stop c (release_exit c l m) m)"
| push: "phase m c = Working \<Longrightarrow>
    lock_step m (m\<lparr>cpus := (cpus m)(c := pushcli (cpus m c)), pushes := (pushes m)(c := pushes m c + 1)\<rparr>)"
| pop: "phase m c = Working \<Longrightarrow> 0 < pushes m c \<Longrightarrow>
    lock_step m (or_stop c (call (popcli (cpus m c)) (\<lambda>d.
      Inr (m\<lparr>cpus := (cpus m)(c := d), pushes := (pushes m)(c := pushes m c - 1)\<rparr>))) m)"
| sti: "phase m c = Working \<Longrightarrow> ncli (cpus m c) = 0 \<Longrightarrow>
    lock_step m (m\<lparr>cpus := (cpus m)(c := (cpus m c)\<lparr>if_flag := True\<rparr>)\<rparr>)"

definition boot_mach :: mach where
  "boot_mach = \<lparr>cpus = (\<lambda>_. \<lparr>ncli = 0, intena = False, if_flag = False\<rparr>), locks = (\<lambda>_. initlock),
           phase = (\<lambda>_. Working), pushes = (\<lambda>_. 0)\<rparr>"

inductive lock_reachable :: "mach \<Rightarrow> bool" where
  init: "lock_reachable boot_mach"
| more: "lock_reachable m \<Longrightarrow> lock_step m m' \<Longrightarrow> lock_reachable m'"

section \<open>The invariant\<close>

text \<open>A processor owns a lock from the exchange that took it to the store that frees it.\<close>

definition owns :: "mach \<Rightarrow> nat \<Rightarrow> nat \<Rightarrow> bool" where
  "owns m c l \<longleftrightarrow> phase m c = Recording l \<or> phase m c = Clearing l \<or> lock_cpu (locks m l) = Some c"

definition depth :: "mach \<Rightarrow> nat \<Rightarrow> int" where
  "depth m c = int (card {l. owns m c l}) + int (pushes m c) + (case phase m c of Spinning l \<Rightarrow> 1 | _ \<Rightarrow> 0)"

definition cpu_ok :: "cpu \<Rightarrow> bool" where
  "cpu_ok c \<longleftrightarrow> 0 \<le> ncli c \<and> (0 < ncli c \<longrightarrow> \<not> if_flag c)"

definition mach_ok :: "mach \<Rightarrow> bool" where
  "mach_ok m \<longleftrightarrow>
     (\<forall>c d l. owns m c l \<longrightarrow> owns m d l \<longrightarrow> c = d) \<and>
     (\<forall>l. locked (locks m l) = (if \<exists>c. owns m c l then 1 else 0)) \<and>
     (\<forall>c l. phase m c = Recording l \<or> phase m c = Clearing l \<longrightarrow> lock_cpu (locks m l) = None) \<and>
     (\<forall>c. finite {l. owns m c l}) \<and>
     (\<forall>c. if phase m c = Stopped then \<not> if_flag (cpus m c) else cpu_ok (cpus m c) \<and> ncli (cpus m c) = depth m c)"

lemma pushcli_ok: "cpu_ok c \<Longrightarrow> cpu_ok (pushcli c) \<and> ncli (pushcli c) = ncli c + 1"
  by (simp add: pushcli_def cpu_ok_def Let_def)

lemma popcli_ok:
  "cpu_ok c \<Longrightarrow> 0 < ncli c \<Longrightarrow> \<exists>d. popcli c = Inr d \<and> cpu_ok d \<and> ncli d = ncli c - 1"
  by (simp add: popcli_def cpu_ok_def Let_def)

text \<open>A \<open>popcli\<close> undoes a \<open>pushcli\<close>: the flag and the count are those before.\<close>

lemma pop_push:
  "cpu_ok c \<Longrightarrow> \<exists>d. popcli (pushcli c) = Inr d \<and> ncli d = ncli c \<and> if_flag d = if_flag c \<and>
     (0 < ncli c \<longrightarrow> intena d = intena c)"
  by (cases "ncli c = 0") (auto simp: popcli_def pushcli_def cpu_ok_def Let_def)

lemma holding_ok:
  assumes "cpu_ok c"
  shows "\<exists>d. holding me lk c = Inr (locked lk \<noteq> 0 \<and> lock_cpu lk = Some me, d) \<and> cpu_ok d \<and> ncli d = ncli c \<and>
    if_flag d = if_flag c"
  using pop_push [OF assms] assms by (auto simp: holding_def cpu_ok_def)

lemma mach_okD:
  assumes "mach_ok m"
  shows "owns m c l \<Longrightarrow> owns m d l \<Longrightarrow> c = d"
    "locked (locks m l) = (if \<exists>c. owns m c l then 1 else 0)"
    "phase m c = Recording l \<Longrightarrow> lock_cpu (locks m l) = None"
    "phase m c = Clearing l \<Longrightarrow> lock_cpu (locks m l) = None"
    "finite {l. owns m c l}"
    "phase m c = Stopped \<Longrightarrow> \<not> if_flag (cpus m c)"
    "phase m c \<noteq> Stopped \<Longrightarrow> cpu_ok (cpus m c) \<and> ncli (cpus m c) = depth m c"
  using assms unfolding mach_ok_def by (blast | metis)+


lemma mach_okI:
  assumes "\<And>c d l. owns m c l \<Longrightarrow> owns m d l \<Longrightarrow> c = d"
    "\<And>l. locked (locks m l) = (if \<exists>c. owns m c l then 1 else 0)"
    "\<And>c l. phase m c = Recording l \<or> phase m c = Clearing l \<Longrightarrow> lock_cpu (locks m l) = None"
    "\<And>c. finite {l. owns m c l}"
    "\<And>c. phase m c = Stopped \<Longrightarrow> \<not> if_flag (cpus m c)"
    "\<And>c. phase m c \<noteq> Stopped \<Longrightarrow> cpu_ok (cpus m c) \<and> ncli (cpus m c) = depth m c"
  shows "mach_ok m"
  using assms unfolding mach_ok_def by (auto simp: if_split_eq1)

text \<open>A step of one processor that leaves the locks alone.\<close>

lemma same_owners:
  assumes "mach_ok m" "\<And>x y. owns m' x y = owns m x y" "\<And>l. locked (locks m' l) = locked (locks m l)"
    "\<And>c l. phase m' c = Recording l \<or> phase m' c = Clearing l \<Longrightarrow> lock_cpu (locks m' l) = None"
    "\<And>d. d \<noteq> c \<Longrightarrow> cpus m' d = cpus m d \<and> phase m' d = phase m d \<and> pushes m' d = pushes m d"
    "if phase m' c = Stopped then \<not> if_flag (cpus m' c) else cpu_ok (cpus m' c) \<and> ncli (cpus m' c) = depth m' c"
  shows "mach_ok m'"
proof (rule mach_okI)
  note ok = mach_okD [OF assms(1)]
  show "c = d" if "owns m' c l" "owns m' d l" for c d l using that ok(1) by (simp add: assms(2))
  show "locked (locks m' l) = (if \<exists>c. owns m' c l then 1 else 0)" for l using ok(2) [of l] by (simp add: assms(2,3))
  show "lock_cpu (locks m' l) = None" if "phase m' c = Recording l \<or> phase m' c = Clearing l" for c l
    using assms(4) that .
  show "finite {l. owns m' c l}" for c using ok(5) by (simp add: assms(2))
  have same: "depth m' d = depth m d" if "d \<noteq> c" for d using assms(5) [OF that] by (simp add: depth_def assms(2))
  show "\<not> if_flag (cpus m' d)" if "phase m' d = Stopped" for d
    using assms(5) [of d] assms(6) ok(6) [of d] that by (cases "d = c") auto
  show "cpu_ok (cpus m' d) \<and> ncli (cpus m' d) = depth m' d" if "phase m' d \<noteq> Stopped" for d
    using assms(5) [of d] assms(6) ok(7) [of d] same [of d] that by (cases "d = c") auto
qed

lemma stop_ok:
  assumes "mach_ok m" "phase m c = Working"
  shows "mach_ok (stop_cpu c m)"
  by (rule same_owners [OF assms(1), where c = c])
    (use assms(2) mach_okD(3,4) [OF assms(1)] in \<open>auto simp: stop_cpu_def owns_def split: if_splits\<close>)

lemma acquire_enter_ok:
  assumes "mach_ok m" "phase m c = Working"
  shows "mach_ok (or_stop c (acquire_enter c l m) m)"
    "acquire_enter c l m = Inl e \<longleftrightarrow> owns m c l \<and> e = Panic ''acquire''"
proof -
  note cpu = mach_okD(7) [OF assms(1), of c]
  have p: "cpu_ok (pushcli (cpus m c))" "ncli (pushcli (cpus m c)) = depth m c + 1" using cpu assms(2) pushcli_ok by auto
  obtain d where d: "holding c (locks m l) (pushcli (cpus m c)) =
      Inr (locked (locks m l) \<noteq> 0 \<and> lock_cpu (locks m l) = Some c, d)" "cpu_ok d" "ncli d = depth m c + 1"
    using holding_ok [OF p(1), of c "locks m l"] p(2) by auto
  have h: "locked (locks m l) \<noteq> 0 \<and> lock_cpu (locks m l) = Some c \<longleftrightarrow> owns m c l"
    using mach_okD(2) [OF assms(1), of l] assms(2) by (auto simp: owns_def split: if_splits)
  show "acquire_enter c l m = Inl e \<longleftrightarrow> owns m c l \<and> e = Panic ''acquire''"
    using h by (auto simp: acquire_enter_def d(1))
  show "mach_ok (or_stop c (acquire_enter c l m) m)"
  proof (cases "owns m c l")
    case True
    then show ?thesis using h stop_ok [OF assms] by (simp add: acquire_enter_def d(1) or_stop_def)
  next
    case False
    let ?m = "m\<lparr>cpus := (cpus m)(c := d), phase := (phase m)(c := Spinning l)\<rparr>"
    have o: "owns ?m x y = owns m x y" for x y using assms(2) by (auto simp: owns_def)
    have "depth ?m c = depth m c + 1" using assms(2) by (simp add: depth_def o)
    then have "mach_ok ?m"
      by (intro same_owners [OF assms(1), where c = c])
        (use o d assms(2) mach_okD(3,4) [OF assms(1)] in \<open>auto split: if_splits\<close>)
    then show ?thesis using False h by (auto simp: acquire_enter_def d(1) or_stop_def)
  qed
qed

lemma xchg_ok:
  assumes "mach_ok m" "phase m c = Spinning l"
  shows "mach_ok (acquire_xchg c l m)"
proof (cases "\<exists>d. owns m d l")
  case True
  then have "locked (locks m l) = 1" using mach_okD(2) [OF assms(1)] by simp
  then have "(locks m l)\<lparr>locked := 1\<rparr> = locks m l" by (cases "locks m l") simp
  then have "(locks m)(l := (locks m l)\<lparr>locked := 1\<rparr>) = locks m" by (simp only: fun_upd_triv)
  then have "m\<lparr>locks := (locks m)(l := (locks m l)\<lparr>locked := 1\<rparr>)\<rparr> = m" by (simp only:) simp
  then have "acquire_xchg c l m = m" using \<open>locked (locks m l) = 1\<close> by (simp add: acquire_xchg_def Let_def)
  then show ?thesis using assms(1) by simp
next
  case False
  then have l: "locked (locks m l) = 0" using mach_okD(2) [OF assms(1), of l] by simp
  let ?m = "acquire_xchg c l m"
  have o: "owns ?m x y \<longleftrightarrow> owns m x y \<or> x = c \<and> y = l" for x y
    using assms(2) l by (auto simp: acquire_xchg_def owns_def)
  have none: "lock_cpu (locks m l) = None" using False by (cases "lock_cpu (locks m l)") (auto simp: owns_def)
  have set: "{y. owns ?m c y} = insert l {y. owns m c y}" by (auto simp: o)
  have d: "depth ?m c = depth m c"
    using mach_okD(5) [OF assms(1), of c] False assms(2) l unfolding depth_def set
    by (simp add: acquire_xchg_def)
  have e: "depth ?m x = depth m x" if "x \<noteq> c" for x
    using that l by (simp add: depth_def o) (simp add: acquire_xchg_def)
  show ?thesis
  proof (rule mach_okI)
    fix x y z
    show "x = y" if "owns ?m x z" "owns ?m y z" using that False mach_okD(1) [OF assms(1), of x z y] by (auto simp: o)
    show "locked (locks ?m z) = (if \<exists>x. owns ?m x z then 1 else 0)"
      using mach_okD(2) [OF assms(1), of z] l by (auto simp: o) (auto simp: acquire_xchg_def)
    show "lock_cpu (locks ?m z) = None" if "phase ?m x = Recording z \<or> phase ?m x = Clearing z"
      using that l none mach_okD(3,4) [OF assms(1), of x z] by (auto simp: acquire_xchg_def split: if_splits)
    show "finite {y. owns ?m x y}" using mach_okD(5) [OF assms(1), of x] set by (cases "x = c") (simp_all add: o)
    show "\<not> if_flag (cpus ?m x)" if "phase ?m x = Stopped"
      using that l mach_okD(6) [OF assms(1), of x] by (auto simp: acquire_xchg_def split: if_splits)
    show "cpu_ok (cpus ?m x) \<and> ncli (cpus ?m x) = depth ?m x" if "phase ?m x \<noteq> Stopped"
      using that l assms(2) mach_okD(7) [OF assms(1), of x] d e [of x]
      by (cases "x = c") (auto simp: acquire_xchg_def)
  qed
qed

lemma record_ok:
  assumes "mach_ok m" "phase m c = Recording l"
  shows "mach_ok (acquire_record c l m)"
proof -
  let ?m = "acquire_record c l m"
  have n: "lock_cpu (locks m l) = None" by (rule mach_okD(3) [OF assms])
  have u: "x = c" if "phase m x = Recording l \<or> phase m x = Clearing l" for x
    by (rule mach_okD(1) [OF assms(1), of x l c]) (use that assms(2) in \<open>auto simp: owns_def\<close>)
  have o: "owns ?m x y = owns m x y" for x y
  proof (cases "y = l")
    case True
    show ?thesis
    proof (cases "x = c")
      case False
      then have "phase m x \<noteq> Recording l" "phase m x \<noteq> Clearing l" using u by blast+
      then show ?thesis using False n True by (simp add: acquire_record_def owns_def)
    qed (use True assms(2) in \<open>simp add: acquire_record_def owns_def\<close>)
  next
    case False
    then show ?thesis using assms(2) by (cases "x = c") (simp_all add: acquire_record_def owns_def)
  qed
  have os: "owns ?m = owns m" by (intro ext) (rule o)
  have d: "depth ?m c = depth m c" using assms(2) unfolding depth_def os by (simp add: acquire_record_def)
  show ?thesis
  proof (rule same_owners [OF assms(1), where c = c])
    show "owns ?m x y = owns m x y" for x y by (rule o)
    show "locked (locks ?m y) = locked (locks m y)" for y by (simp add: acquire_record_def)
    show "lock_cpu (locks ?m y) = None" if "phase ?m x = Recording y \<or> phase ?m x = Clearing y" for x y
    proof -
      have "x \<noteq> c" "phase m x = Recording y \<or> phase m x = Clearing y"
        using that by (auto simp: acquire_record_def split: if_splits)
      then show ?thesis using u [of x] mach_okD(3,4) [OF assms(1), of x y] by (auto simp: acquire_record_def)
    qed
    show "cpus ?m x = cpus m x \<and> phase ?m x = phase m x \<and> pushes ?m x = pushes m x" if "x \<noteq> c" for x
      using that by (simp add: acquire_record_def)
    show "if phase ?m c = Stopped then \<not> if_flag (cpus ?m c) else cpu_ok (cpus ?m c) \<and> ncli (cpus ?m c) = depth ?m c"
      using d mach_okD(7) [OF assms(1), of c] assms(2) by (simp add: acquire_record_def)
  qed
qed

lemma release_enter_ok:
  assumes "mach_ok m" "phase m c = Working"
  shows "mach_ok (or_stop c (release_enter c l m) m)"
    "release_enter c l m = Inl e \<longleftrightarrow> \<not> owns m c l \<and> e = Panic ''release''"
proof -
  note cpu = mach_okD(7) [OF assms(1), of c]
  obtain d where d: "holding c (locks m l) (cpus m c) =
      Inr (locked (locks m l) \<noteq> 0 \<and> lock_cpu (locks m l) = Some c, d)" "cpu_ok d" "ncli d = depth m c"
    using holding_ok [of "cpus m c" c "locks m l"] cpu assms(2) by auto
  have h: "locked (locks m l) \<noteq> 0 \<and> lock_cpu (locks m l) = Some c \<longleftrightarrow> owns m c l"
    using mach_okD(2) [OF assms(1), of l] assms(2) by (auto simp: owns_def split: if_splits)
  show "release_enter c l m = Inl e \<longleftrightarrow> \<not> owns m c l \<and> e = Panic ''release''"
    using h by (auto simp: release_enter_def d(1))
  show "mach_ok (or_stop c (release_enter c l m) m)"
  proof (cases "owns m c l")
    case False
    then show ?thesis using h stop_ok [OF assms] by (auto simp: release_enter_def d(1) or_stop_def)
  next
    case True
    let ?m = "m\<lparr>cpus := (cpus m)(c := d), locks := (locks m)(l := (locks m l)\<lparr>lock_cpu := None\<rparr>),
      phase := (phase m)(c := Clearing l)\<rparr>"
    have o: "owns ?m x y = owns m x y" for x y
      using assms(2) True h mach_okD(1) [OF assms(1), of x l c] by (auto simp: owns_def)
    have "depth ?m c = depth m c" using assms(2) by (simp add: depth_def o)
    then have "mach_ok ?m"
      by (intro same_owners [OF assms(1), where c = c])
        (use o d assms(2) mach_okD(3,4) [OF assms(1)] in \<open>auto split: if_splits\<close>)
    then show ?thesis using True h by (auto simp: release_enter_def d(1) or_stop_def)
  qed
qed

lemma release_exit_ok:
  assumes "mach_ok m" "phase m c = Clearing l"
  shows "mach_ok (or_stop c (release_exit c l m) m)"
proof -
  have own: "owns m c l" using assms(2) by (simp add: owns_def)
  have n: "lock_cpu (locks m l) = None" by (rule mach_okD(4) [OF assms])
  note fin = mach_okD(5) [OF assms(1), of c]
  have cd: "card {y. owns m c y} = Suc (card ({y. owns m c y} - {l}))"
    using fin own by (intro card.remove) auto
  then have "cpu_ok (cpus m c)" "0 < ncli (cpus m c)" "ncli (cpus m c) = depth m c"
    using mach_okD(7) [OF assms(1), of c] assms(2) by (auto simp: depth_def)
  then obtain d where d: "popcli (cpus m c) = Inr d" "cpu_ok d" "ncli d = depth m c - 1" using popcli_ok by metis
  let ?m = "m\<lparr>cpus := (cpus m)(c := d), locks := (locks m)(l := (locks m l)\<lparr>locked := 0\<rparr>), phase := (phase m)(c := Working)\<rparr>"
  have o: "owns ?m x y \<longleftrightarrow> owns m x y \<and> \<not> (x = c \<and> y = l)" for x y
    using assms(2) n by (auto simp: owns_def)
  have set: "{y. owns ?m c y} = {y. owns m c y} - {l}" by (auto simp: o)
  have e: "depth ?m c = depth m c - 1" unfolding depth_def set using cd assms(2) by simp
  have f: "depth ?m x = depth m x" if "x \<noteq> c" for x using that by (simp add: depth_def o)
  have other: "\<not> owns m x l" if "x \<noteq> c" for x using that own mach_okD(1) [OF assms(1), of x l c] by blast
  have "mach_ok ?m"
  proof (rule mach_okI)
    fix x y z
    show "x = y" if "owns ?m x z" "owns ?m y z" using that mach_okD(1) [OF assms(1), of x z y] by (auto simp: o)
    show "locked (locks ?m z) = (if \<exists>x. owns ?m x z then 1 else 0)"
      using mach_okD(2) [OF assms(1), of z] other by (cases "z = l") (auto simp: o)
    show "lock_cpu (locks ?m z) = None" if "phase ?m x = Recording z \<or> phase ?m x = Clearing z"
      using that mach_okD(3,4) [OF assms(1), of x z] n by (auto split: if_splits)
    show "finite {y. owns ?m x y}" using mach_okD(5) [OF assms(1), of x] set by (cases "x = c") (simp_all add: o)
    show "\<not> if_flag (cpus ?m x)" if "phase ?m x = Stopped"
      using that mach_okD(6) [OF assms(1), of x] by (auto split: if_splits)
    show "cpu_ok (cpus ?m x) \<and> ncli (cpus ?m x) = depth ?m x" if "phase ?m x \<noteq> Stopped"
      using that mach_okD(7) [OF assms(1), of x] d e f [of x] by (cases "x = c") auto
  qed
  then show ?thesis by (simp add: release_exit_def d(1) or_stop_def)
qed

lemma push_ok:
  assumes "mach_ok m" "phase m c = Working"
  shows "mach_ok (m\<lparr>cpus := (cpus m)(c := pushcli (cpus m c)), pushes := (pushes m)(c := pushes m c + 1)\<rparr>)" (is "mach_ok ?m")
proof -
  have o: "owns ?m = owns m" by (intro ext) (simp add: owns_def)
  have "depth ?m c = depth m c + 1" using assms(2) unfolding depth_def o by simp
  then show ?thesis
    by (intro same_owners [OF assms(1), where c = c])
      (use o assms(2) mach_okD(3,4,7) [OF assms(1)] pushcli_ok in auto)
qed

lemma pop_ok:
  assumes "mach_ok m" "phase m c = Working" "0 < pushes m c"
  shows "mach_ok (or_stop c (call (popcli (cpus m c)) (\<lambda>d.
      Inr (m\<lparr>cpus := (cpus m)(c := d), pushes := (pushes m)(c := pushes m c - 1)\<rparr>))) m)"
proof -
  have c: "cpu_ok (cpus m c)" "ncli (cpus m c) = depth m c" "0 < ncli (cpus m c)"
    using mach_okD(7) [OF assms(1), of c] assms(2,3) by (auto simp: depth_def)
  obtain d where d: "popcli (cpus m c) = Inr d" "cpu_ok d" "ncli d = depth m c - 1" using popcli_ok [OF c(1,3)] c(2) by auto
  let ?m = "m\<lparr>cpus := (cpus m)(c := d), pushes := (pushes m)(c := pushes m c - 1)\<rparr>"
  have o: "owns ?m = owns m" by (intro ext) (simp add: owns_def)
  have "depth ?m c = depth m c - 1" using assms(2,3) unfolding depth_def o by simp
  then have "mach_ok ?m"
    by (intro same_owners [OF assms(1), where c = c]) (use o d assms(2) mach_okD(3,4) [OF assms(1)] in auto)
  then show ?thesis by (simp add: d(1) or_stop_def)
qed

lemma sti_ok:
  assumes "mach_ok m" "phase m c = Working" "ncli (cpus m c) = 0"
  shows "mach_ok (m\<lparr>cpus := (cpus m)(c := (cpus m c)\<lparr>if_flag := True\<rparr>)\<rparr>)" (is "mach_ok ?m")
proof -
  have o: "owns ?m = owns m" by (intro ext) (simp add: owns_def)
  have "depth ?m c = depth m c" unfolding depth_def o by simp
  then show ?thesis
    by (intro same_owners [OF assms(1), where c = c])
      (use o assms(2,3) mach_okD(3,4,7) [OF assms(1)] in \<open>auto simp: cpu_ok_def\<close>)
qed

lemma lock_reachable_ok: "lock_reachable m \<Longrightarrow> mach_ok m"
proof (induction rule: lock_reachable.induct)
  case init
  show ?case by (simp add: mach_ok_def boot_mach_def initlock_def owns_def depth_def cpu_ok_def)
next
  case (more m m')
  from more(2) show ?case
  proof cases
    case (acq c l)
    then show ?thesis using acquire_enter_ok(1) [OF more(3)] by simp
  next
    case (xchg c l)
    then show ?thesis using xchg_ok [OF more(3)] by simp
  next
    case (rec c l)
    then show ?thesis using record_ok [OF more(3)] by simp
  next
    case (rel c l)
    then show ?thesis using release_enter_ok(1) [OF more(3)] by simp
  next
    case (fin c l)
    then show ?thesis using release_exit_ok [OF more(3)] by simp
  next
    case (push c)
    show ?thesis unfolding push(1) by (rule push_ok [OF more(3) push(2)])
  next
    case (pop c)
    show ?thesis unfolding pop(1) by (rule pop_ok [OF more(3) pop(2,3)])
  next
    case (sti c)
    show ?thesis unfolding sti(1) by (rule sti_ok [OF more(3) sti(2,3)])
  qed
qed

text \<open>C15: However the steps of the processors interleave, a lock has at most one owner, its word is 1
  exactly while it has one, and a processor that owns a lock or waits for one has its interrupts
  off.  \<open>acquire\<close> panics exactly when its processor owns the lock already, \<open>release\<close> exactly when it
  does not own it.\<close>

theorem mutual_exclusion:
  assumes "lock_reachable m"
  shows "\<exists>owner. (\<forall>c l. owns m c l \<longleftrightarrow> owner l = Some c) \<and>
     (\<forall>l. locked (locks m l) = (if owner l = None then 0 else 1)) \<and>
     (\<forall>c l. owner l = Some c \<or> phase m c = Spinning l \<longrightarrow> \<not> if_flag (cpus m c)) \<and>
     (\<forall>c l e. phase m c = Working \<longrightarrow>
        (acquire_enter c l m = Inl e \<longleftrightarrow> owner l = Some c \<and> e = Panic ''acquire'') \<and>
        (release_enter c l m = Inl e \<longleftrightarrow> owner l \<noteq> Some c \<and> e = Panic ''release''))"
proof -
  have ok: "mach_ok m" using assms by (rule lock_reachable_ok)
  define owner where "owner = (\<lambda>l. if \<exists>c. owns m c l then Some (SOME c. owns m c l) else None)"
  have o: "owns m c l \<longleftrightarrow> owner l = Some c" for c l
    using mach_okD(1) [OF ok] by (auto simp: owner_def intro: someI)
  have off: "\<not> if_flag (cpus m c)" if "owns m c l \<or> phase m c = Spinning l" for c l
  proof (cases "phase m c = Stopped")
    case False
    have "0 < depth m c"
    proof (cases "owns m c l")
      case True
      then have "{y. owns m c y} \<noteq> {}" by blast
      then have "0 < card {y. owns m c y}" using mach_okD(5) [OF ok] by (simp add: card_gt_0_iff)
      then show ?thesis by (simp add: depth_def split: phase.splits)
    qed (use that in \<open>simp add: depth_def\<close>)
    then show ?thesis using mach_okD(7) [OF ok False] by (simp add: cpu_ok_def)
  qed (rule mach_okD(6) [OF ok])
  have "locked (locks m l) = (if owner l = None then 0 else 1)" for l
    using mach_okD(2) [OF ok, of l] o by (cases "owner l") auto
  then show ?thesis
    using o off acquire_enter_ok(2) [OF ok] release_enter_ok(2) [OF ok] by (intro exI [of _ owner]) auto
qed

text \<open>Processor 0 owns a lock while processor 1 waits for it.\<close>

definition contended :: "mach kres" where
  "contended =
     call (acquire_enter 0 7 boot_mach) (\<lambda>m.
     acquire_enter 1 7 (acquire_record 0 7 (acquire_xchg 0 7 m)))"

lemma contended_reachable: "\<exists>m. contended = Inr m \<and> lock_reachable m \<and> phase m 0 = Working \<and> phase m 1 = Spinning 7 \<and>
    lock_cpu (locks m 7) = Some 0"
proof -
  have ph: "phase boot_mach c = Working" for c by (simp add: boot_mach_def)
  obtain a where a: "acquire_enter 0 7 boot_mach = Inr a" "phase a 0 = Spinning 7" "phase a 1 = Working"
      "locked (locks a 7) = 0" "lock_cpu (locks a 7) = None" "cpus a 1 = cpus boot_mach 1" "cpus a 5 = cpus boot_mach 5"
    by (simp add: acquire_enter_def holding_def pushcli_def popcli_def boot_mach_def initlock_def Let_def)
  have "lock_reachable (or_stop 0 (acquire_enter 0 7 boot_mach) boot_mach)"
    by (rule lock_reachable.more [OF lock_reachable.init lock_step.acq [OF ph]])
  then have ra: "lock_reachable a" by (simp add: a(1) or_stop_def)
  define x where "x = acquire_xchg 0 7 a"
  have rx: "lock_reachable x" unfolding x_def by (rule lock_reachable.more [OF ra lock_step.xchg [OF a(2)]])
  have x: "phase x 0 = Recording 7" "phase x 1 = Working" "cpus x = cpus a"
    using a by (simp_all add: x_def acquire_xchg_def)
  define b where "b = acquire_record 0 7 x"
  have rb: "lock_reachable b" unfolding b_def by (rule lock_reachable.more [OF rx lock_step.rec [OF x(1)]])
  have b: "phase b 0 = Working" "phase b 1 = Working" "lock_cpu (locks b 7) = Some 0" "cpus b = cpus a"
    using x by (simp_all add: b_def acquire_record_def)
  obtain m where m: "acquire_enter 1 7 b = Inr m" "phase m 0 = Working" "phase m 1 = Spinning 7"
      "lock_cpu (locks m 7) = Some 0" "cpus m 5 = cpus b 5"
    using a b by (simp add: acquire_enter_def holding_def pushcli_def popcli_def boot_mach_def Let_def)
  have "lock_reachable (or_stop 1 (acquire_enter 1 7 b) b)"
    by (rule lock_reachable.more [OF rb lock_step.acq [OF b(2)]])
  then have "lock_reachable m" by (simp only: m(1) or_stop_def sum.case)
  moreover have "contended = Inr m" using a(1) m(1) by (simp add: contended_def b_def x_def)
  ultimately show ?thesis using m(2-4) by blast
qed

theorem mutual_exclusion_witness:
  "\<exists>m owner. contended = Inr m \<and> lock_reachable m \<and> phase m 1 = Spinning 7 \<and> owner 7 = Some 0 \<and>
     (\<forall>c l. owns m c l \<longleftrightarrow> owner l = Some c) \<and> locked (locks m 7) = 1 \<and>
     \<not> if_flag (cpus m 0) \<and> \<not> if_flag (cpus m 1) \<and> acquire_enter 0 7 m = Inl (Panic ''acquire'')"
proof -
  obtain m where m: "contended = Inr m" "lock_reachable m" "phase m 0 = Working" "phase m 1 = Spinning 7"
    "lock_cpu (locks m 7) = Some 0" using contended_reachable by blast
  obtain owner where o: "\<forall>c l. owns m c l \<longleftrightarrow> owner l = Some c"
    "\<forall>l. locked (locks m l) = (if owner l = None then 0 else 1)"
    "\<forall>c l. owner l = Some c \<or> phase m c = Spinning l \<longrightarrow> \<not> if_flag (cpus m c)"
    "\<forall>c l e. phase m c = Working \<longrightarrow> (acquire_enter c l m = Inl e \<longleftrightarrow> owner l = Some c \<and> e = Panic ''acquire'')"
    using mutual_exclusion [OF m(2)] by blast
  have "owner 7 = Some 0" using o(1) m(5) by (auto simp: owns_def)
  then show ?thesis using m o by (intro exI [of _ m] exI [of _ owner]) auto
qed

end
