(* ===== verification/Ide.thy ===== *)
theory Ide
  imports Bio
begin

unbundle bit_operations_syntax

text \<open>
  The queue of the disk driver (\<open>ide.c\<close>): processes append requests and sleep, the interrupt of the
  disk finishes the first one and starts the next.  \<open>Bio\<close> has a request as one step; here a run of the
  driver is shown to be a run of these steps in the order of the requests.
\<close>

section \<open>The registers\<close>

definition SECTOR_SIZE :: nat where "SECTOR_SIZE = 512"
definition IDE_BSY :: i32 where "IDE_BSY = 0x80"
definition IDE_DRDY :: i32 where "IDE_DRDY = 0x40"
definition IDE_DF :: i32 where "IDE_DF = 0x20"
definition IDE_ERR :: i32 where "IDE_ERR = 0x01"
definition IDE_CMD_READ :: i32 where "IDE_CMD_READ = 0x20"
definition IDE_CMD_WRITE :: i32 where "IDE_CMD_WRITE = 0x30"
definition IDE_CMD_RDMUL :: i32 where "IDE_CMD_RDMUL = 0xc4"
definition IDE_CMD_WRMUL :: i32 where "IDE_CMD_WRMUL = 0xc5"

text \<open>The status is polled until the disk is ready; the argument is what the port returns.\<close>

fun idewait :: "bool \<Rightarrow> i32 list \<Rightarrow> int kres" where
  "idewait checkerr [] = Inl Diverge"
| "idewait checkerr (r # rs) =
     (if r AND (IDE_BSY OR IDE_DRDY) \<noteq> IDE_DRDY then idewait checkerr rs
      else if checkerr \<and> r AND (IDE_DF OR IDE_ERR) \<noteq> 0 then Inr (-1)
      else Inr 0)"

definition ide_disk1 :: "i32 list \<Rightarrow> bool" where
  "ide_disk1 rs = list_ex (\<lambda>r. r \<noteq> 0) (take 1000 rs)"

text \<open>What \<open>idestart\<close> writes to which port.\<close>

definition ide_ports :: "buf \<Rightarrow> (nat \<times> i32) list" where
  "ide_ports b =
     (let spb = BSIZE div SECTOR_SIZE;
          sector = of_nat (b_blockno b) * of_nat spb :: i32;
          read_cmd = (if spb = 1 then IDE_CMD_READ else IDE_CMD_RDMUL);
          write_cmd = (if spb = 1 then IDE_CMD_WRITE else IDE_CMD_WRMUL)
      in [(0x3f6, 0), (0x1f2, of_nat spb), (0x1f3, sector AND 0xff), (0x1f4, drop_bit 8 sector AND 0xff),
          (0x1f5, drop_bit 16 sector AND 0xff),
          (0x1f6, 0xe0 OR push_bit 4 (of_nat (b_dev b) AND 1) OR (drop_bit 24 sector AND 0x0f)),
          (0x1f7, if b_dirty b then write_cmd else read_cmd)])"

text \<open>The disk takes the command with the sector number and the drive that the registers hold.\<close>

datatype ata = Reading nat nat | Writing nat nat bytes

definition ata_command :: "(nat \<times> i32) list \<Rightarrow> bytes \<Rightarrow> ata" where
  "ata_command ps x =
     (let reg = (\<lambda>p. the (map_of ps p));
          sector = unat (reg 0x1f3 OR push_bit 8 (reg 0x1f4) OR push_bit 16 (reg 0x1f5) OR push_bit 24 (reg 0x1f6 AND 0x0f));
          drv = unat (drop_bit 4 (reg 0x1f6) AND 1)
      in if reg 0x1f7 = IDE_CMD_WRITE then Writing drv sector x else Reading drv sector)"

section \<open>The driver\<close>

text \<open>The processes in \<open>iderw\<close> with the buffers they wait for, and those of them that sleep.\<close>

record ide = bio +
  idequeue :: "nat list"
  active :: "ata option"
  in_iderw :: "(nat \<times> nat) set"
  asleep :: "(nat \<times> nat) set"

definition ide_start :: "nat \<Rightarrow> ide \<Rightarrow> ide kres" where
  "ide_start i s =
     (let b = bufs s i in
      if FSSIZE \<le> b_blockno b then Inl (Panic ''incorrect blockno'')
      else if 7 < BSIZE div SECTOR_SIZE then Inl (Panic ''idestart'')
      else Inr (s\<lparr>active := Some (ata_command (ide_ports b) (b_data b))\<rparr>))"

text \<open>The disk has done its command: a sector is written, or its bytes are there to be read.\<close>

definition ata_done :: "ide \<Rightarrow> ide" where
  "ata_done s =
     (case active s of
        Some (Writing d n x) \<Rightarrow>
          s\<lparr>disk := (disk s)(d := (disk s d)(n := x)), written := written s @ [(d, n, x)]\<rparr>
      | _ \<Rightarrow> s)"

definition insl :: "ide \<Rightarrow> bytes \<Rightarrow> bytes" where
  "insl s x = (case active s of Some (Reading d n) \<Rightarrow> disk s d n | _ \<Rightarrow> x)"

definition ide_intr :: "bool \<Rightarrow> ide \<Rightarrow> ide kres" where
  "ide_intr ok s =
     (case idequeue s of
        [] \<Rightarrow> Inr s
      | i # q \<Rightarrow>
          let s1 = (if \<not> b_dirty (bufs s i) \<and> ok then upd_buf i (b_data_update (insl s)) s else s)\<lparr>idequeue := q\<rparr>;
              s2 = upd_buf i (\<lambda>b. b\<lparr>b_valid := True, b_dirty := False\<rparr>) s1;
              s3 = s2\<lparr>asleep := {(p, j) \<in> asleep s2. j \<noteq> i}\<rparr>
          in case q of [] \<Rightarrow> Inr (s3\<lparr>active := None\<rparr>) | j # _ \<Rightarrow> ide_start j s3)"

text \<open>\<open>iderw\<close> up to its loop, which the new request does not leave before it sleeps.\<close>

definition iderw_enter :: "nat \<Rightarrow> nat \<Rightarrow> ide \<Rightarrow> ide kres" where
  "iderw_enter p i s =
     (if \<not> holdingsleep p (b_lock (bufs s i)) then Inl (Panic ''iderw: buf not locked'')
      else if b_valid (bufs s i) \<and> \<not> b_dirty (bufs s i) then Inl (Panic ''iderw: nothing to do'')
      else if b_dev (bufs s i) \<noteq> 0 \<and> \<not> havedisk1 s then Inl (Panic ''iderw: ide disk 1 not present'')
      else let s1 = s\<lparr>idequeue := idequeue s @ [i], in_iderw := insert (p, i) (in_iderw s), asleep := insert (p, i) (asleep s)\<rparr>
        in if idequeue s = [] then ide_start i s1 else Inr s1)"

text \<open>A turn of the loop of a process that was woken: it leaves \<open>iderw\<close> or sleeps again.\<close>

definition iderw_again :: "nat \<Rightarrow> nat \<Rightarrow> ide \<Rightarrow> ide" where
  "iderw_again p i s =
     (if b_valid (bufs s i) \<and> \<not> b_dirty (bufs s i) then s\<lparr>in_iderw := in_iderw s - {(p, i)}\<rparr>
      else s\<lparr>asleep := insert (p, i) (asleep s)\<rparr>)"

section \<open>Runs\<close>

text \<open>Other code changes buffers, but of a buffer that a process in \<open>iderw\<close> has locked at most the
  reference count.\<close>

datatype ide_event = Asked nat | Served nat | Changed "nat \<Rightarrow> buf"

inductive ide_run :: "ide \<Rightarrow> ide_event list \<Rightarrow> ide \<Rightarrow> bool" where
  idle: "\<lbrakk> idequeue s = []; active s = None; in_iderw s = {}; asleep s = {} \<rbrakk> \<Longrightarrow> ide_run s [] s"
| request: "\<lbrakk> ide_run s0 h s; p \<notin> fst ` in_iderw s; iderw_enter p i s = Inr s' \<rbrakk> \<Longrightarrow> ide_run s0 (h @ [Asked i]) s'"
| interrupt: "\<lbrakk> ide_run s0 h s; active s \<noteq> None; ide_intr True (ata_done s) = Inr s' \<rbrakk>
    \<Longrightarrow> ide_run s0 (h @ [Served (hd (idequeue s))]) s'"
| again: "\<lbrakk> ide_run s0 h s; (p, i) \<in> in_iderw s - asleep s \<rbrakk> \<Longrightarrow> ide_run s0 h (iderw_again p i s)"
| change: "\<lbrakk> ide_run s0 h s; \<forall>(p, i) \<in> in_iderw s. \<exists>n. f i = (bufs s i)\<lparr>b_refcnt := n\<rparr> \<rbrakk>
    \<Longrightarrow> ide_run s0 (h @ [Changed f]) (s\<lparr>bufs := f\<rparr>)"

text \<open>The same run when a request is served at once.\<close>

fun replay_ide :: "ide_event list \<Rightarrow> ide \<Rightarrow> ide kres" where
  "replay_ide [] s = Inr s"
| "replay_ide (Asked i # h) s = replay_ide h s"
| "replay_ide (Served i # h) s = call (iderw i (s\<lparr>me := the (b_lock (bufs s i))\<rparr>)) (replay_ide h)"
| "replay_ide (Changed f # h) s = replay_ide h (s\<lparr>bufs := f\<rparr>)"

definition asked :: "ide_event list \<Rightarrow> nat list" where
  "asked h = List.map_filter (\<lambda>e. case e of Asked i \<Rightarrow> Some i | _ \<Rightarrow> None) h"

definition served :: "ide_event list \<Rightarrow> nat list" where
  "served h = List.map_filter (\<lambda>e. case e of Served i \<Rightarrow> Some i | _ \<Rightarrow> None) h"

section \<open>What the registers mean\<close>

lemma byte_masks: "(0xff :: i32) = mask 8" "(0x0f :: i32) = mask 4" "(1 :: i32) = mask 1" "(0xe0 :: i32) = push_bit 5 (mask 3)"
  by (simp_all add: mask_eq_exp_minus_1 push_bit_eq_mult)

lemma sector_bytes:
  "(w AND 0xff) OR push_bit 8 (drop_bit 8 w AND 0xff) OR push_bit 16 (drop_bit 16 w AND 0xff) OR
     push_bit 24 (drop_bit 24 w AND 0x0f) = w AND (mask 28 :: i32)"
proof (rule bit_word_eqI)
  show "bit ((w AND 0xff) OR push_bit 8 (drop_bit 8 w AND 0xff) OR push_bit 16 (drop_bit 16 w AND 0xff) OR
     push_bit 24 (drop_bit 24 w AND 0x0f)) n = bit (w AND mask 28) n" if "n < LENGTH(32)" for n
    using that unfolding byte_masks
    by (cases "n < 8"; cases "n < 16"; cases "n < 24") (simp_all add: bit_simps, auto)
qed

lemma drive_register:
  "(0xe0 OR push_bit 4 (d AND 1) OR (w AND 0x0f)) AND 0x0f = w AND (0x0f :: i32)"
  "drop_bit 4 (0xe0 OR push_bit 4 (d AND 1) OR (w AND 0x0f)) AND 1 = d AND (1 :: i32)"
  unfolding byte_masks by (rule bit_word_eqI; auto simp: bit_simps)+

lemma drive_number: "unat (of_nat d AND 1 :: i32) = drive d"
proof -
  have "(of_nat d AND 1 :: i32) = of_nat d mod 2" by (simp add: and_one_eq)
  then show ?thesis by (simp add: unat_mod_distrib unat_of_nat drive_def mod_mod_cancel)
qed

lemma ata_command_regs:
  "ata_command [(0x3f6, 0), (0x1f2, n), (0x1f3, w AND 0xff), (0x1f4, drop_bit 8 w AND 0xff), (0x1f5, drop_bit 16 w AND 0xff),
      (0x1f6, 0xe0 OR push_bit 4 (d AND 1) OR (drop_bit 24 w AND 0x0f)), (0x1f7, c)] x =
    (if c = IDE_CMD_WRITE then Writing (unat (d AND 1)) (unat (w AND mask 28)) x
     else Reading (unat (d AND 1)) (unat (w AND mask 28)))"
  (is "ata_command ?ps x = _")
proof -
  have r: "the (map_of ?ps 0x1f3) = w AND 0xff" "the (map_of ?ps 0x1f4) = drop_bit 8 w AND 0xff"
    "the (map_of ?ps 0x1f5) = drop_bit 16 w AND 0xff" "the (map_of ?ps 0x1f7) = c"
    "the (map_of ?ps 0x1f6) = 0xe0 OR push_bit 4 (d AND 1) OR (drop_bit 24 w AND 0x0f)" by simp_all
  show ?thesis unfolding ata_command_def Let_def r drive_register sector_bytes ..
qed

lemma ata_command_ports:
  assumes "b_blockno b < FSSIZE"
  shows "ata_command (ide_ports b) x =
    (if b_dirty b then Writing (drive (b_dev b)) (b_blockno b) x else Reading (drive (b_dev b)) (b_blockno b))"
proof -
  have "take_bit 28 (b_blockno b) = b_blockno b" using assms by (simp add: take_bit_nat_eq_self_iff FSSIZE_def)
  then have "(of_nat (b_blockno b) :: i32) AND mask 28 = of_nat (b_blockno b)"
    by (simp add: take_bit_of_nat flip: take_bit_eq_mask)
  then have n: "unat ((of_nat (b_blockno b) :: i32) AND mask 28) = b_blockno b"
    using assms by (simp add: FSSIZE_def unat_of_nat)
  have spb: "BSIZE div SECTOR_SIZE = 1" by (simp add: BSIZE_def SECTOR_SIZE_def)
  have "ide_ports b = [(0x3f6, 0), (0x1f2, 1), (0x1f3, of_nat (b_blockno b) AND 0xff),
      (0x1f4, drop_bit 8 (of_nat (b_blockno b)) AND 0xff), (0x1f5, drop_bit 16 (of_nat (b_blockno b)) AND 0xff),
      (0x1f6, 0xe0 OR push_bit 4 (of_nat (b_dev b) AND 1) OR (drop_bit 24 (of_nat (b_blockno b)) AND 0x0f)),
      (0x1f7, if b_dirty b then IDE_CMD_WRITE else IDE_CMD_READ)]"
    by (simp only: ide_ports_def Let_def spb of_nat_1 mult_1_right simp_thms if_True)
  moreover have "IDE_CMD_READ \<noteq> IDE_CMD_WRITE" by (simp add: IDE_CMD_READ_def IDE_CMD_WRITE_def)
  ultimately show ?thesis by (simp only: ata_command_regs n drive_number) simp
qed

section \<open>The invariant\<close>

abbreviation request_done :: "buf \<Rightarrow> bool" where
  "request_done b \<equiv> b_valid b \<and> \<not> b_dirty b"

abbreviation command_for :: "buf \<Rightarrow> ata" where
  "command_for b \<equiv>
     (if b_dirty b then Writing (drive (b_dev b)) (b_blockno b) (b_data b) else Reading (drive (b_dev b)) (b_blockno b))"

definition ide_ok :: "ide \<Rightarrow> bool" where
  "ide_ok s \<longleftrightarrow>
     distinct (idequeue s) \<and> set (idequeue s) \<subseteq> snd ` in_iderw s \<and> asleep s \<subseteq> in_iderw s \<and>
     (\<forall>(p, i) \<in> asleep s. i \<in> set (idequeue s)) \<and>
     (\<forall>(p, i) \<in> in_iderw s. b_lock (bufs s i) = Some p \<and> (b_dev (bufs s i) \<noteq> 0 \<longrightarrow> havedisk1 s) \<and>
        (i \<in> set (idequeue s) \<longleftrightarrow> \<not> request_done (bufs s i))) \<and>
     (case idequeue s of [] \<Rightarrow> active s = None
      | i # _ \<Rightarrow> b_blockno (bufs s i) < FSSIZE \<and> active s = Some (command_for (bufs s i)))"

lemma ide_start_ok:
  "ide_start i s = Inr s' \<longleftrightarrow> b_blockno (bufs s i) < FSSIZE \<and> s' = s\<lparr>active := Some (command_for (bufs s i))\<rparr>"
  by (auto simp: ide_start_def Let_def ata_command_ports BSIZE_def SECTOR_SIZE_def)

lemma iderw_enter_ok:
  assumes "ide_ok s" "p \<notin> fst ` in_iderw s" "iderw_enter p i s = Inr s'"
  shows "ide_ok s'" "bufs s' = bufs s" "disk s' = disk s" "written s' = written s" "havedisk1 s' = havedisk1 s"
    "idequeue s' = idequeue s @ [i]"
proof -
  have b: "b_lock (bufs s i) = Some p" "\<not> request_done (bufs s i)" "b_dev (bufs s i) \<noteq> 0 \<longrightarrow> havedisk1 s"
    using assms(3) by (auto simp: iderw_enter_def holdingsleep_def split: if_splits)
  define t where "t = s\<lparr>idequeue := idequeue s @ [i], in_iderw := insert (p, i) (in_iderw s), asleep := insert (p, i) (asleep s)\<rparr>"
  have e: "(if idequeue s = [] then ide_start i t else Inr t) = Inr s'"
    using assms(3) b by (auto simp: iderw_enter_def holdingsleep_def Let_def t_def split: if_splits)
  have s': "s' = (if idequeue s = [] then t\<lparr>active := Some (command_for (bufs s i))\<rparr> else t)"
    "idequeue s = [] \<Longrightarrow> b_blockno (bufs s i) < FSSIZE"
    using e by (auto simp: ide_start_ok t_def split: if_splits)
  show g: "bufs s' = bufs s" "disk s' = disk s" "written s' = written s" "havedisk1 s' = havedisk1 s"
    "idequeue s' = idequeue s @ [i]" by (simp_all add: s' t_def)
  have new: "(q, i) \<notin> in_iderw s" for q
  proof
    assume "(q, i) \<in> in_iderw s"
    moreover from this have "q = p" using assms(1) b(1) by (auto simp: ide_ok_def)
    ultimately show False using assms(2) by force
  qed
  then have "i \<notin> set (idequeue s)" using assms(1) by (force simp: ide_ok_def)
  moreover have f: "in_iderw s' = insert (p, i) (in_iderw s)" "asleep s' = insert (p, i) (asleep s)"
    "active s' = (if idequeue s = [] then Some (command_for (bufs s i)) else active s)"
    by (simp_all add: s' t_def)
  moreover have "i \<notin> snd ` in_iderw s" using new by force
  ultimately show "ide_ok s'"
    using assms(1) b s'(2) g unfolding ide_ok_def
    by (cases "idequeue s") auto
qed

text \<open>The interrupt does what \<open>Bio\<close> takes for the whole request.\<close>

definition same_ide :: "ide \<Rightarrow> ide \<Rightarrow> bool" where
  "same_ide t s \<longleftrightarrow> bufs t = bufs s \<and> disk t = disk s \<and> written t = written s \<and> havedisk1 t = havedisk1 s"

lemma insl_reading: "active s = Some (Reading d n) \<Longrightarrow> insl s = (\<lambda>_. disk s d n)"
  by (simp add: insl_def fun_eq_iff)

lemma ide_intr_served:
  assumes "ide_ok s" "idequeue s = i # q" "ide_intr True (ata_done s) = Inr s'" "same_ide t s"
  shows "\<exists>t'. iderw i (t\<lparr>me := the (b_lock (bufs t i))\<rparr>) = Inr t' \<and> same_ide t' s'"
    "idequeue s' = q" "in_iderw s' = in_iderw s" "asleep s' = {(p, j) \<in> asleep s. j \<noteq> i}" "havedisk1 s' = havedisk1 s"
    "\<And>j. j \<noteq> i \<Longrightarrow> bufs s' j = bufs s j" "request_done (bufs s' i)" "b_lock (bufs s' i) = b_lock (bufs s i)"
    "b_dev (bufs s' i) = b_dev (bufs s i)"
    "case q of [] \<Rightarrow> active s' = None | j # _ \<Rightarrow> b_blockno (bufs s' j) < FSSIZE \<and> active s' = Some (command_for (bufs s' j))"
proof -
  let ?b = "bufs s i"
  obtain p where p: "(p, i) \<in> in_iderw s" using assms(1,2) unfolding ide_ok_def by force
  have b: "b_lock ?b = Some p" "b_dev ?b \<noteq> 0 \<longrightarrow> havedisk1 s" "\<not> request_done ?b" "b_blockno ?b < FSSIZE"
    "active s = Some (command_for ?b)"
    using assms(1,2) p unfolding ide_ok_def by auto
  define d where "d = (if b_dirty ?b then ?b else ?b\<lparr>b_data := disk s (drive (b_dev ?b)) (b_blockno ?b)\<rparr>)"
  define u where "u = (ata_done s)\<lparr>bufs := (bufs s)(i := d\<lparr>b_valid := True, b_dirty := False\<rparr>),
     idequeue := q, asleep := {(p, j) \<in> asleep s. j \<noteq> i}\<rparr>"
  define s1 where "s1 = (if \<not> b_dirty (bufs (ata_done s) i) \<and> True
    then upd_buf i (b_data_update (insl (ata_done s))) (ata_done s) else ata_done s)\<lparr>idequeue := q\<rparr>"
  define s2 where "s2 = upd_buf i (\<lambda>b. b\<lparr>b_valid := True, b_dirty := False\<rparr>) s1"
  define v where "v = s2\<lparr>asleep := {(p, j) \<in> asleep s2. j \<noteq> i}\<rparr>"
  have "idequeue (ata_done s) = i # q" using assms(2) by (simp add: ata_done_def split: option.splits ata.splits)
  then have c: "(case q of [] \<Rightarrow> Inr (v\<lparr>active := None\<rparr>) | j # _ \<Rightarrow> ide_start j v) = Inr s'"
    using assms(3) by (simp only: ide_intr_def list.case Let_def v_def s2_def s1_def)
  have vu: "v = u"
    using b(5) by (cases "b_dirty ?b")
      (simp_all add: v_def s2_def s1_def u_def d_def ata_done_def insl_reading upd_buf_def)
  note i = c [unfolded vu]
  obtain ac where s': "s' = u\<lparr>active := ac\<rparr>"
    "case q of [] \<Rightarrow> ac = None | j # _ \<Rightarrow> b_blockno (bufs u j) < FSSIZE \<and> ac = Some (command_for (bufs u j))"
    using i by (cases q) (auto simp: ide_start_ok)
  have f: "bufs s' = bufs u" "idequeue s' = q" "in_iderw s' = in_iderw u" "asleep s' = asleep u" "havedisk1 s' = havedisk1 u"
    "disk s' = disk u" "written s' = written u" "active s' = ac"
    by (simp_all add: s'(1) u_def)
  have o: "in_iderw u = in_iderw s" "havedisk1 u = havedisk1 s"
    by (simp_all add: u_def ata_done_def split: option.splits ata.splits)
  show "idequeue s' = q" "in_iderw s' = in_iderw s" "asleep s' = {(p, j) \<in> asleep s. j \<noteq> i}" "havedisk1 s' = havedisk1 s"
    "\<And>j. j \<noteq> i \<Longrightarrow> bufs s' j = bufs s j" "request_done (bufs s' i)" "b_lock (bufs s' i) = b_lock (bufs s i)"
    "b_dev (bufs s' i) = b_dev (bufs s i)"
    using f o by (simp_all add: u_def d_def)
  show "case q of [] \<Rightarrow> active s' = None | j # _ \<Rightarrow> b_blockno (bufs s' j) < FSSIZE \<and> active s' = Some (command_for (bufs s' j))"
    using s'(2) unfolding f(1,8) .
  show "\<exists>t'. iderw i (t\<lparr>me := the (b_lock (bufs t i))\<rparr>) = Inr t' \<and> same_ide t' s'"
    using assms(4) b f o(2) unfolding same_ide_def
    by (cases "b_dirty ?b")
      (auto simp: iderw_def holdingsleep_def idestart_def ideintr_def upd_buf_def u_def d_def ata_done_def Let_def fun_eq_iff)
qed

section \<open>Every run\<close>

lemma asked_simps: "asked [] = []" "asked (h @ [Asked i]) = asked h @ [i]" "asked (h @ [Served i]) = asked h"
  "asked (h @ [Changed f]) = asked h"
  by (simp_all add: asked_def map_filter_def)

lemma served_simps: "served [] = []" "served (h @ [Served i]) = served h @ [i]" "served (h @ [Asked i]) = served h"
  "served (h @ [Changed f]) = served h"
  by (simp_all add: served_def map_filter_def)

lemma replay_ide_append: "replay_ide (g @ h) s = call (replay_ide g s) (replay_ide h)"
proof (induction g arbitrary: s)
  case (Cons e g)
  then show ?case by (cases e) (auto simp: call_def split: sum.splits)
qed simp

lemma iderw_again_ok:
  assumes "ide_ok s" "(p, i) \<in> in_iderw s - asleep s"
  shows "ide_ok (iderw_again p i s)" "same_ide t (iderw_again p i s) \<longleftrightarrow> same_ide t s" "idequeue (iderw_again p i s) = idequeue s"
proof -
  have "i \<in> set (idequeue s) \<longleftrightarrow> \<not> request_done (bufs s i)" using assms unfolding ide_ok_def by auto
  moreover have "set (idequeue s) \<subseteq> snd ` (in_iderw s - {(p, i)})" if n: "i \<notin> set (idequeue s)"
  proof
    fix x
    assume x: "x \<in> set (idequeue s)"
    then obtain q where "(q, x) \<in> in_iderw s" using assms(1) by (auto simp: ide_ok_def)
    moreover have "x \<noteq> i" using x n by blast
    ultimately have "(q, x) \<in> in_iderw s - {(p, i)}" by simp
    then show "x \<in> snd ` (in_iderw s - {(p, i)})" by (rule image_eqI [rotated]) simp
  qed
  ultimately have k: "request_done (bufs s i)" "set (idequeue s) \<subseteq> snd ` (in_iderw s - {(p, i)})" if "request_done (bufs s i)"
    using that by blast+
  show "ide_ok (iderw_again p i s)"
  proof (cases "request_done (bufs s i)")
    case True
    then show ?thesis using assms k(2) [OF True] by (auto simp: ide_ok_def iderw_again_def split: list.splits)
  next
    case False
    then have "i \<in> set (idequeue s)" using assms unfolding ide_ok_def by auto
    then show ?thesis using assms False by (auto simp: ide_ok_def iderw_again_def split: list.splits)
  qed
qed (simp_all add: same_ide_def iderw_again_def)

lemma change_ok:
  assumes "ide_ok s" "\<forall>(p, i) \<in> in_iderw s. \<exists>n. f i = (bufs s i)\<lparr>b_refcnt := n\<rparr>"
  shows "ide_ok (s\<lparr>bufs := f\<rparr>)"
proof -
  have f: "b_lock (f i) = b_lock (bufs s i)" "b_dev (f i) = b_dev (bufs s i)" "b_valid (f i) = b_valid (bufs s i)"
    "b_dirty (f i) = b_dirty (bufs s i)" "b_blockno (f i) = b_blockno (bufs s i)" "b_data (f i) = b_data (bufs s i)"
    if "i \<in> snd ` in_iderw s" for i
    using assms(2) that by fastforce+
  have q: "set (idequeue s) \<subseteq> snd ` in_iderw s" using assms(1) by (simp add: ide_ok_def)
  show ?thesis
    unfolding ide_ok_def
  proof (intro conjI)
    show "\<forall>(p, i) \<in> in_iderw (s\<lparr>bufs := f\<rparr>). b_lock (bufs (s\<lparr>bufs := f\<rparr>) i) = Some p \<and>
        (b_dev (bufs (s\<lparr>bufs := f\<rparr>) i) \<noteq> 0 \<longrightarrow> havedisk1 (s\<lparr>bufs := f\<rparr>)) \<and>
        (i \<in> set (idequeue (s\<lparr>bufs := f\<rparr>)) \<longleftrightarrow> \<not> request_done (bufs (s\<lparr>bufs := f\<rparr>) i))"
    proof (clarify, goal_cases)
      case (1 p i)
      then have "i \<in> snd ` in_iderw s" by force
      from f [OF this] show ?case using assms(1) 1 unfolding ide_ok_def by auto
    qed
    show "case idequeue (s\<lparr>bufs := f\<rparr>) of [] \<Rightarrow> active (s\<lparr>bufs := f\<rparr>) = None
      | i # _ \<Rightarrow> b_blockno (bufs (s\<lparr>bufs := f\<rparr>) i) < FSSIZE \<and> active (s\<lparr>bufs := f\<rparr>) = Some (command_for (bufs (s\<lparr>bufs := f\<rparr>) i))"
    proof (cases "idequeue s")
      case (Cons i q')
      then have "i \<in> snd ` in_iderw s" using q by auto
      from f [OF this] show ?thesis using assms(1) Cons unfolding ide_ok_def by simp
    qed (use assms(1) in \<open>simp add: ide_ok_def\<close>)
  qed (use assms(1) in \<open>auto simp: ide_ok_def\<close>)
qed

lemma ide_run_ok:
  "ide_run s0 h s \<Longrightarrow> ide_ok s \<and> (\<exists>t. replay_ide h s0 = Inr t \<and> same_ide t s) \<and> asked h = served h @ idequeue s"
proof (induction rule: ide_run.induct)
  case (idle s)
  then show ?case by (simp add: ide_ok_def same_ide_def asked_simps served_simps)
next
  case (request s0 h s p i s')
  then have ok: "ide_ok s" by simp
  note e = iderw_enter_ok [OF ok request.hyps(2,3)]
  obtain t where t: "replay_ide h s0 = Inr t" "same_ide t s" using request.IH by blast
  then have "replay_ide (h @ [Asked i]) s0 = Inr t \<and> same_ide t s'" using e(2-5) by (simp add: replay_ide_append same_ide_def)
  then show ?case using e(1,6) request.IH by (auto simp: asked_simps served_simps)
next
  case (interrupt s0 h s s')
  then have ok: "ide_ok s" by simp
  then obtain i q where q: "idequeue s = i # q" using interrupt.hyps(2) by (cases "idequeue s") (auto simp: ide_ok_def)
  obtain t where t: "replay_ide h s0 = Inr t" "same_ide t s" using interrupt.IH by blast
  note sv = ide_intr_served [OF ok q interrupt.hyps(3) t(2)]
  obtain t' where t': "iderw i (t\<lparr>me := the (b_lock (bufs t i))\<rparr>) = Inr t'" "same_ide t' s'" using sv(1) by blast
  have "replay_ide (h @ [Served i]) s0 = Inr t'" using t t' by (simp add: replay_ide_append)
  moreover have "ide_ok s'"
    unfolding ide_ok_def sv(2-5)
  proof (intro conjI)
    show "\<forall>(p, j) \<in> in_iderw s. b_lock (bufs s' j) = Some p \<and> (b_dev (bufs s' j) \<noteq> 0 \<longrightarrow> havedisk1 s) \<and>
        (j \<in> set q \<longleftrightarrow> \<not> request_done (bufs s' j))"
    proof (clarify, goal_cases)
      case (1 p j)
      then have o: "b_lock (bufs s j) = Some p" "b_dev (bufs s j) \<noteq> 0 \<longrightarrow> havedisk1 s" "j \<in> set (i # q) \<longleftrightarrow> \<not> request_done (bufs s j)"
        "i \<notin> set q" using ok q unfolding ide_ok_def by auto
      show ?case
      proof (cases "j = i")
        case True
        then show ?thesis using sv(7-9) o by simp
      next
        case False
        then show ?thesis using sv(6) [OF False] o by simp
      qed
    qed
    show "case q of [] \<Rightarrow> active s' = None | j # _ \<Rightarrow> b_blockno (bufs s' j) < FSSIZE \<and> active s' = Some (command_for (bufs s' j))"
      by (rule sv(10))
  qed (use ok q in \<open>auto simp: ide_ok_def\<close>)
  ultimately show ?case using t'(2) q sv(2) interrupt.IH by (simp add: asked_simps served_simps)
next
  case (again s0 h s p i)
  then have ok: "ide_ok s" by simp
  show ?case using again.IH iderw_again_ok [OF ok again.hyps(2)] by auto
next
  case (change s0 h s f)
  then obtain t where t: "replay_ide h s0 = Inr t" "same_ide t s" by blast
  then have "replay_ide (h @ [Changed f]) s0 = Inr (t\<lparr>bufs := f\<rparr>)" by (simp add: replay_ide_append)
  moreover have "same_ide (t\<lparr>bufs := f\<rparr>) (s\<lparr>bufs := f\<rparr>)" using t(2) by (simp add: same_ide_def)
  moreover have "ide_ok (s\<lparr>bufs := f\<rparr>)" using change_ok change by blast
  ultimately show ?case using change.IH by (auto simp: asked_simps served_simps)
qed

text \<open>C13: As long as the disk reports no error: however processes and its interrupts interleave, the buffers and the sectors are
  those of a run in which each request is served at once, in the order in which they were made; while
  requests wait, the disk is at work; a process sleeps only for a request that waits, and one that
  may leave \<open>iderw\<close> finds its buffer valid and written.\<close>

theorem driver_serves_in_order:
  assumes "ide_run s0 h s"
  shows "(\<exists>t. replay_ide h s0 = Inr t \<and> bufs t = bufs s \<and> disk t = disk s \<and> written t = written s) \<and>
    asked h = served h @ idequeue s \<and> (idequeue s \<noteq> [] \<longrightarrow> active s \<noteq> None) \<and>
    (\<forall>(p, i) \<in> asleep s. i \<in> set (idequeue s)) \<and>
    (\<forall>(p, i) \<in> in_iderw s. i \<in> set (idequeue s) \<longleftrightarrow> \<not> (b_valid (bufs s i) \<and> \<not> b_dirty (bufs s i)))"
proof -
  have ok: "ide_ok s" using ide_run_ok [OF assms] by blast
  then have "idequeue s \<noteq> [] \<longrightarrow> active s \<noteq> None" by (cases "idequeue s") (auto simp: ide_ok_def)
  moreover have "\<forall>(p, i) \<in> asleep s. i \<in> set (idequeue s)"
    "\<forall>(p, i) \<in> in_iderw s. i \<in> set (idequeue s) \<longleftrightarrow> \<not> (b_valid (bufs s i) \<and> \<not> b_dirty (bufs s i))"
    using ok unfolding ide_ok_def by fastforce+
  ultimately show ?thesis using ide_run_ok [OF assms] unfolding same_ide_def by blast
qed

text \<open>Two processes ask for blocks, a read and a write; the first request is served.\<close>

definition ide_start_state :: ide where
  "ide_start_state = \<lparr>bufs = (\<lambda>i. \<lparr>b_valid = False, b_dirty = (i = 1), b_dev = 1, b_blockno = i + 5, b_lock = Some (i + 10),
       b_refcnt = 1, b_data = (\<lambda>_. CHR ''x'')\<rparr>), mru = [0, 1], me = 10, disk = (\<lambda>_ _ _. CHR ''d''), havedisk1 = True, written = [],
     idequeue = [], active = None, in_iderw = {}, asleep = {}\<rparr>"

theorem driver_serves_in_order_witness:
  "\<exists>s t. ide_run ide_start_state [Asked 0, Asked 1, Served 0] s \<and> idequeue s = [1] \<and>
     replay_ide [Asked 0, Asked 1, Served 0] ide_start_state = Inr t \<and> bufs t = bufs s \<and> b_data (bufs s 0) 3 = CHR ''d'' \<and> active s \<noteq> None"
proof -
  let ?s0 = ide_start_state
  have r0: "ide_run ?s0 [] ?s0" by (rule ide_run.idle) (simp_all add: ide_start_state_def)
  obtain s1 where s1: "iderw_enter 10 0 ?s0 = Inr s1" "in_iderw s1 = {(10, 0)}"
    by (simp add: iderw_enter_def ide_start_state_def holdingsleep_def ide_start_def BSIZE_def SECTOR_SIZE_def FSSIZE_def)
  note e1 = iderw_enter_ok [OF ide_run_ok [OF r0, THEN conjunct1] _ s1(1)]
  have f1: "idequeue s1 = [0]" "bufs s1 = bufs ?s0" "havedisk1 s1" "disk s1 = disk ?s0"
    using e1 by (simp_all add: ide_start_state_def)
  have r1: "ide_run ?s0 [Asked 0] s1" using ide_run.request [OF r0 _ s1(1)] by (simp add: ide_start_state_def)
  obtain s2 where s2: "iderw_enter 11 1 s1 = Inr s2"
    using f1 by (simp add: iderw_enter_def ide_start_state_def holdingsleep_def)
  note e2 = iderw_enter_ok [OF ide_run_ok [OF r1, THEN conjunct1] _ s2]
  have f2: "idequeue s2 = [0, 1]" "bufs s2 = bufs ?s0" "disk s2 = disk ?s0" using e2 f1 s1(2) by simp_all
  have r2: "ide_run ?s0 [Asked 0, Asked 1] s2" using ide_run.request [OF r1 _ s2] s1(2) by simp
  have a: "active s2 = Some (Reading 1 5)"
    using ide_run_ok [OF r2] f2 by (simp add: ide_ok_def ide_start_state_def drive_def)
  have "\<exists>s3. ide_intr True (ata_done s2) = Inr s3 \<and> idequeue s3 = [1] \<and> b_data (bufs s3 0) 3 = CHR ''d''"
    using f2 a by (simp add: ide_intr_def ata_done_def Let_def upd_buf_def insl_reading ide_start_def ide_start_state_def
        BSIZE_def SECTOR_SIZE_def FSSIZE_def)
  then obtain s3 where s3: "ide_intr True (ata_done s2) = Inr s3" "idequeue s3 = [1]" "b_data (bufs s3 0) 3 = CHR ''d''" by blast
  have r3: "ide_run ?s0 [Asked 0, Asked 1, Served 0] s3" using ide_run.interrupt [OF r2 _ s3(1)] a f2(1) by simp
  show ?thesis using driver_serves_in_order [OF r3] r3 s3(2,3) by auto
qed

text \<open>After an error of a read nothing is copied, but the buffer is marked as read.\<close>

lemma read_error_ignored:
  assumes "idequeue s = [i]" "\<not> b_dirty (bufs s i)"
  shows "\<exists>s'. ide_intr False s = Inr s' \<and> b_valid (bufs s' i) \<and> b_data (bufs s' i) = b_data (bufs s i)"
  using assms by (simp add: ide_intr_def Let_def upd_buf_def)

end
