(* ===== verification/Kbd.thy ===== *)
theory Kbd
  imports Console
begin

text \<open>
  The keyboard (\<open>kbd.c\<close>, \<open>kbd.h\<close>): scan codes become characters under the state of the modifier keys.
  The tables give the numbers of the characters; typing a text and reading it back is the round trip.
\<close>

section \<open>The tables\<close>

definition SHIFT :: i32 where "SHIFT = 1"
definition CTL :: i32 where "CTL = 2"
definition ALT :: i32 where "ALT = 4"
definition CAPSLOCK :: i32 where "CAPSLOCK = 8"
definition NUMLOCK :: i32 where "NUMLOCK = 16"
definition SCROLLLOCK :: i32 where "SCROLLLOCK = 32"
definition E0ESC :: i32 where "E0ESC = 64"

text \<open>A table of a list from 0 on and of single entries; the other entries are 0.\<close>

definition key_table :: "nat list \<Rightarrow> (nat \<times> nat) list \<Rightarrow> nat \<Rightarrow> nat" where
  "key_table xs far d =
     (if d < length xs then xs ! d else case map_of far d of None \<Rightarrow> 0 | Some c \<Rightarrow> c)"

definition shiftcode :: "nat \<Rightarrow> i32" where
  "shiftcode d =
     (if d = 0x1D \<or> d = 0x9D then CTL else if d = 0x2A \<or> d = 0x36 then SHIFT
      else if d = 0x38 \<or> d = 0xB8 then ALT else 0)"

definition togglecode :: "nat \<Rightarrow> i32" where
  "togglecode d =
     (if d = 0x3A then CAPSLOCK else if d = 0x45 then NUMLOCK else if d = 0x46 then SCROLLLOCK else 0)"

definition normalmap :: "nat \<Rightarrow> nat" where
  "normalmap = key_table
    [0, 27, 49, 50, 51, 52, 53, 54, 55, 56, 57, 48, 45, 61, 8, 9,
     113, 119, 101, 114, 116, 121, 117, 105, 111, 112, 91, 93, 10, 0, 97, 115,
     100, 102, 103, 104, 106, 107, 108, 59, 39, 96, 0, 92, 122, 120, 99, 118,
     98, 110, 109, 44, 46, 47, 0, 42, 0, 32, 0, 0, 0, 0, 0, 0,
     0, 0, 0, 0, 0, 0, 0, 55, 56, 57, 45, 52, 53, 54, 43, 49,
     50, 51, 48, 46, 0, 0, 0, 0]
    [(0x9C, 10), (0xB5, 47), (0xC8, 0xE2), (0xD0, 0xE3), (0xC9, 0xE6), (0xD1, 0xE7),
     (0xCB, 0xE4), (0xCD, 0xE5), (0x97, 0xE0), (0xCF, 0xE1), (0xD2, 0xE8), (0xD3, 0xE9)]"

definition shiftmap :: "nat \<Rightarrow> nat" where
  "shiftmap = key_table
    [0, 27, 33, 64, 35, 36, 37, 94, 38, 42, 40, 41, 95, 43, 8, 9,
     81, 87, 69, 82, 84, 89, 85, 73, 79, 80, 123, 125, 10, 0, 65, 83,
     68, 70, 71, 72, 74, 75, 76, 58, 34, 126, 0, 124, 90, 88, 67, 86,
     66, 78, 77, 60, 62, 63, 0, 42, 0, 32, 0, 0, 0, 0, 0, 0,
     0, 0, 0, 0, 0, 0, 0, 55, 56, 57, 45, 52, 53, 54, 43, 49,
     50, 51, 48, 46, 0, 0, 0, 0]
    [(0x9C, 10), (0xB5, 47), (0xC8, 0xE2), (0xD0, 0xE3), (0xC9, 0xE6), (0xD1, 0xE7),
     (0xCB, 0xE4), (0xCD, 0xE5), (0x97, 0xE0), (0xCF, 0xE1), (0xD2, 0xE8), (0xD3, 0xE9)]"

definition ctlmap :: "nat \<Rightarrow> nat" where
  "ctlmap = key_table
    [0, 0, 0, 0, 0, 0, 0, 0, 0, 0, 0, 0, 0, 0, 0, 0,
     17, 23, 5, 18, 20, 25, 21, 9, 15, 16, 0, 0, 13, 0, 1, 19,
     4, 6, 7, 8, 10, 11, 12, 0, 0, 0, 0, 28, 26, 24, 3, 22,
     2, 14, 13, 0, 0, 239, 0, 0]
    [(0x9C, 13), (0xB5, 239), (0xC8, 0xE2), (0xD0, 0xE3), (0xC9, 0xE6), (0xD1, 0xE7),
     (0xCB, 0xE4), (0xCD, 0xE5), (0x97, 0xE0), (0xCF, 0xE1), (0xD2, 0xE8), (0xD3, 0xE9)]"

definition charcode :: "i32 \<Rightarrow> nat \<Rightarrow> nat" where
  "charcode i = (if i = 0 then normalmap else if i = 1 then shiftmap else ctlmap)"

section \<open>The driver\<close>

text \<open>The two port reads and the static variable are arguments; the result is -1, or a character or 0.\<close>

definition kbdgetc :: "i32 \<Rightarrow> i32 \<Rightarrow> i32 \<Rightarrow> int \<times> i32" where
  "kbdgetc st data shift =
     (if st AND 1 = 0 then (-1, shift)
      else if data = 0xE0 then (0, shift OR E0ESC)
      else if data AND 0x80 \<noteq> 0 then
        (let data = (if shift AND E0ESC \<noteq> 0 then data else data AND 0x7F)
         in (0, shift AND NOT (shiftcode (unat data) OR E0ESC)))
      else
        (let (data, shift) = (if shift AND E0ESC \<noteq> 0 then (data OR 0x80, shift AND NOT E0ESC) else (data, shift));
             shift = (shift OR shiftcode (unat data)) XOR togglecode (unat data);
             c = charcode (shift AND (CTL OR SHIFT)) (unat data);
             c = (if shift AND CAPSLOCK \<noteq> 0 then
                    if 97 \<le> c \<and> c \<le> 122 then c - 32 else if 65 \<le> c \<and> c \<le> 90 then c + 32 else c
                  else c)
         in (int c, shift)))"

text \<open>\<open>kbdintr\<close> gives \<open>consoleintr\<close> what the keyboard holds.\<close>

fun kbd_chars :: "i32 \<Rightarrow> i32 list \<Rightarrow> string \<times> i32" where
  "kbd_chars shift [] = ([], shift)"
| "kbd_chars shift (data # ds) =
     (case kbdgetc 1 data shift of (c, shift) \<Rightarrow> apfst (Cons (char_of (nat c))) (kbd_chars shift ds))"

definition kbdintr :: "i32 list \<Rightarrow> i32 \<Rightarrow> console \<Rightarrow> console \<times> i32" where
  "kbdintr ds shift s = (case kbd_chars shift ds of (cs, shift) \<Rightarrow> (consoleintr cs s, shift))"

section \<open>Typing\<close>

text \<open>The keys that give a character: pressed and released, inside shift when the character needs it.\<close>

definition find_key :: "(nat \<Rightarrow> nat) \<Rightarrow> char \<Rightarrow> nat option" where
  "find_key m c = find (\<lambda>d. m d = of_char c) [0..<0x3A]"

definition keys_of :: "char \<Rightarrow> i32 list option" where
  "keys_of c =
     (case find_key normalmap c of
        Some d \<Rightarrow> Some [of_nat d, of_nat (d + 128)]
      | None \<Rightarrow> map_option (\<lambda>d. [0x2A, of_nat d, of_nat (d + 128), 0xAA]) (find_key shiftmap c))"

definition can_type :: "char \<Rightarrow> bool" where
  "can_type c \<longleftrightarrow> c \<noteq> NUL \<and> keys_of c \<noteq> None"

definition typing :: "string \<Rightarrow> i32 list" where
  "typing s = concat (map (\<lambda>c. the (keys_of c)) s)"

section \<open>Typing and reading back\<close>

lemma all_codes: "[0..<0x3A] =
   [0, 1, 2, 3, 4, 5, 6, 7, 8, 9, 10, 11, 12, 13, 14, 15, 16, 17, 18, 19, 20, 21, 22, 23, 24, 25, 26,
    27, 28, 29, 30, 31, 32, 33, 34, 35, 36, 37, 38, 39, 40, 41, 42, 43, 44, 45, 46, 47, 48, 49, 50, 51,
    52, 53, 54, 55, 56, 57]"
  by code_simp

lemma small_code:
  assumes "d < 0x3A"
  shows "(of_nat d :: i32) AND 0x80 = 0" "(of_nat (d + 128) :: i32) AND 0x80 \<noteq> 0"
    "(of_nat (d + 128) :: i32) AND 0x7F = of_nat d" "unat (of_nat d :: i32) = d" "(of_nat d :: i32) \<noteq> 0xE0"
    "(of_nat (d + 128) :: i32) \<noteq> 0xE0"
proof -
  have "list_all (\<lambda>d. (of_nat d :: i32) AND 0x80 = 0 \<and> (of_nat (d + 128) :: i32) AND 0x80 \<noteq> 0 \<and>
      (of_nat (d + 128) :: i32) AND 0x7F = of_nat d \<and> unat (of_nat d :: i32) = d \<and> (of_nat d :: i32) \<noteq> 0xE0 \<and>
      (of_nat (d + 128) :: i32) \<noteq> 0xE0) [0..<0x3A]"
    unfolding all_codes by simp
  then show "(of_nat d :: i32) AND 0x80 = 0" "(of_nat (d + 128) :: i32) AND 0x80 \<noteq> 0"
    "(of_nat (d + 128) :: i32) AND 0x7F = of_nat d" "unat (of_nat d :: i32) = d" "(of_nat d :: i32) \<noteq> 0xE0"
    "(of_nat (d + 128) :: i32) \<noteq> 0xE0"
    using assms unfolding list_all_iff by auto
qed

text \<open>A key that gives a character is no modifier.\<close>

lemma no_modifier:
  assumes "d < 0x3A" "normalmap d \<noteq> 0 \<or> shiftmap d \<noteq> 0"
  shows "shiftcode d = 0" "togglecode d = 0"
proof -
  have "d \<noteq> 0x1D" "d \<noteq> 0x2A" "d \<noteq> 0x36" "d \<noteq> 0x38"
    using assms(2) by (auto simp: normalmap_def shiftmap_def key_table_def)
  then show "shiftcode d = 0" "togglecode d = 0" using assms(1) by (simp_all add: shiftcode_def togglecode_def)
qed

lemma key_press:
  assumes "d < 0x3A" "normalmap d \<noteq> 0 \<or> shiftmap d \<noteq> 0"
  shows "kbdgetc 1 (of_nat d) 0 = (int (normalmap d), 0)" "kbdgetc 1 (of_nat d) 1 = (int (shiftmap d), 1)"
  using small_code [OF assms(1)] no_modifier [OF assms]
  by (simp_all add: kbdgetc_def charcode_def E0ESC_def CTL_def SHIFT_def CAPSLOCK_def)

lemma key_release:
  assumes "d < 0x3A" "normalmap d \<noteq> 0 \<or> shiftmap d \<noteq> 0"
  shows "kbdgetc 1 (of_nat (d + 128)) 0 = (0, 0)" "kbdgetc 1 (of_nat (d + 128)) 1 = (0, 1)"
  using small_code [OF assms(1)] no_modifier [OF assms]
  by (simp_all add: kbdgetc_def E0ESC_def del: of_nat_add)

lemma shift_press: "kbdgetc 1 0x2A 0 = (0, 1)" "kbdgetc 1 0xAA 1 = (0, 0)"
  by (simp_all add: kbdgetc_def charcode_def shiftcode_def togglecode_def shiftmap_def key_table_def E0ESC_def CTL_def SHIFT_def CAPSLOCK_def)

lemma kbd_chars_append:
  "kbd_chars shift (xs @ ys) = (case kbd_chars shift xs of (cs, shift1) \<Rightarrow> apfst ((@) cs) (kbd_chars shift1 ys))"
  by (induction xs arbitrary: shift) (auto simp: apfst_def map_prod_def split: prod.splits)

lemma find_keyD:
  assumes "find_key m c = Some d"
  shows "d < 0x3A" "m d = of_char c"
  using assms by (auto simp: find_key_def find_Some_iff)

lemma char_of_zero: "char_of (0 :: nat) = NUL"
  by (simp add: char_of_def)

lemma kbd_key:
  assumes "c \<noteq> NUL" "keys_of c = Some ks"
  shows "\<exists>cs. kbd_chars 0 ks = (cs, 0) \<and> filter (\<lambda>x. x \<noteq> NUL) cs = [c]"
proof -
  have nz: "(of_char c :: nat) \<noteq> 0" using assms(1) by (cases c) (auto split: if_splits)
  show ?thesis
  proof (cases "find_key normalmap c")
    case (Some d)
    have d: "d < 0x3A" "normalmap d = of_char c" using find_keyD [OF Some] .
    have ks: "ks = [of_nat d, of_nat (d + 128)]" using assms(2) Some by (simp add: keys_of_def)
    show ?thesis using assms(1) d key_press [OF d(1)] key_release [OF d(1)] nz by (simp add: ks char_of_zero del: of_nat_add)
  next
    case None
    then obtain d where f: "find_key shiftmap c = Some d" and ks: "ks = [0x2A, of_nat d, of_nat (d + 128), 0xAA]"
      using assms(2) by (auto simp: keys_of_def)
    have d: "d < 0x3A" "shiftmap d = of_char c" using find_keyD [OF f] .
    then show ?thesis using assms(1) key_press [OF d(1)] key_release [OF d(1)] shift_press nz
      by (simp add: ks char_of_zero del: of_nat_add)
  qed
qed

lemma consoleintr_NUL: "consoleintr (filter (\<lambda>x. x \<noteq> NUL) cs) s = consoleintr cs s"
  by (induction cs arbitrary: s) (auto simp: consoleintr_def console_key_def)

lemma kbd_typing_chars:
  "list_all can_type s \<Longrightarrow> \<exists>cs. kbd_chars 0 (typing s) = (cs, 0) \<and> filter (\<lambda>x. x \<noteq> NUL) cs = s"
proof (induction s)
  case (Cons c s)
  then obtain cs where cs: "kbd_chars 0 (typing s) = (cs, 0)" "filter (\<lambda>x. x \<noteq> NUL) cs = s" by auto
  obtain ks where ks: "keys_of c = Some ks" "c \<noteq> NUL" using Cons.prems by (auto simp: can_type_def)
  obtain ds where ds: "kbd_chars 0 ks = (ds, 0)" "filter (\<lambda>x. x \<noteq> NUL) ds = [c]" using kbd_key [OF ks(2,1)] by blast
  have "typing (c # s) = ks @ typing s" by (simp add: typing_def ks(1))
  then show ?case using cs ds by (simp add: kbd_chars_append)
qed (simp add: typing_def)

text \<open>Every printable character and the newline have their keys.\<close>

lemma find_key_ex: "n \<in> set (map m [0..<0x3A]) \<Longrightarrow> n = of_char c \<Longrightarrow> find_key m c \<noteq> None"
  by (auto simp: find_key_def find_None_iff)

lemma printable_keys: "n \<in> set (10 # [32..<127]) \<Longrightarrow> n \<in> set (map normalmap [0..<0x3A]) \<or> n \<in> set (map shiftmap [0..<0x3A])"
proof -
  assume n: "n \<in> set (10 # [32..<127])"
  have "list_all (\<lambda>n. n \<in> set (map normalmap [0..<0x3A]) \<or> n \<in> set (map shiftmap [0..<0x3A])) (10 # [32..<127])"
    unfolding normalmap_def shiftmap_def key_table_def all_codes by simp
  then show ?thesis using n unfolding list_all_iff by blast
qed

definition typable :: "char \<Rightarrow> bool" where
  "typable c \<longleftrightarrow> c = CHR 0x0A \<or> (32 \<le> (of_char c :: nat) \<and> (of_char c :: nat) \<le> 126)"

lemma typable_can_type: "typable c \<Longrightarrow> can_type c"
proof -
  assume t: "typable c"
  then have "(of_char c :: nat) \<in> set (10 # [32..<127])"
    by (auto simp: typable_def simp del: upt_rec_numeral)
  then have "find_key normalmap c \<noteq> None \<or> find_key shiftmap c \<noteq> None" using printable_keys find_key_ex by blast
  then show ?thesis using t by (auto simp: can_type_def keys_of_def typable_def split: option.splits)
qed

text \<open>C30: Typing a text of printable characters and newlines, each key pressed and released and shift held
  where it is needed, gives the console exactly this text, and leaves all modifiers released.\<close>

theorem typing_reaches_console:
  assumes "list_all typable s"
  shows "kbdintr (typing s) 0 con = (consoleintr s con, 0)"
proof -
  have "list_all can_type s" using assms typable_can_type by (simp add: list_all_iff)
  then obtain cs where "kbd_chars 0 (typing s) = (cs, 0)" "filter (\<lambda>x. x \<noteq> NUL) cs = s"
    using kbd_typing_chars by blast
  then show ?thesis using consoleintr_NUL [of cs con] by (simp add: kbdintr_def)
qed

text \<open>At \<open>Ls\<close> and a newline: what the reader of the console gets.\<close>

theorem typing_reaches_console_witness:
  "list_all typable (''Ls'' @ [CHR 0x0A]) \<and>
   (\<forall>con. kbdintr (typing (''Ls'' @ [CHR 0x0A])) 0 con = (consoleintr (''Ls'' @ [CHR 0x0A]) con, 0))"
proof -
  have "list_all typable (''Ls'' @ [CHR 0x0A])" by (simp add: typable_def)
  then show ?thesis using typing_reaches_console [of "''Ls'' @ [CHR 0x0A]"] by blast
qed

text \<open>A letter is a capital when exactly one of shift and caps lock is on; both shift keys share one bit,
  so that releasing one of them ends the shift although the other is held.\<close>

lemma letter_case:
  assumes "d < 0x3A" "97 \<le> normalmap d" "normalmap d \<le> 122" "shift \<in> {0, SHIFT, CAPSLOCK, SHIFT OR CAPSLOCK}"
  shows "kbdgetc 1 (of_nat d) shift =
    (int (if shift \<in> {SHIFT, CAPSLOCK} then normalmap d - 32 else normalmap d), shift)"
proof -
  have "list_all (\<lambda>d. 97 \<le> normalmap d \<longrightarrow> normalmap d \<le> 122 \<longrightarrow> shiftmap d = normalmap d - 32) [0..<0x3A]"
    unfolding normalmap_def shiftmap_def key_table_def all_codes by simp
  then have "shiftmap d = normalmap d - 32" using assms(1-3) by (simp add: list_all_iff)
  moreover have "shift = 0 \<or> shift = SHIFT \<or> shift = CAPSLOCK \<or> shift = SHIFT OR CAPSLOCK" using assms(4) by blast
  moreover have "65 \<le> normalmap d - 32" "normalmap d - 32 \<le> 90" using assms(2,3) by linarith+
  ultimately show ?thesis using assms(2,3) small_code [OF assms(1)] no_modifier [OF assms(1)]
    by (elim disjE) (simp_all add: kbdgetc_def charcode_def E0ESC_def CTL_def SHIFT_def CAPSLOCK_def Let_def)
qed

lemma two_shifts: "fst (kbd_chars 0 [0x2A, 0x36, 0xAA, 0x1E]) = [NUL, NUL, NUL, CHR ''a'']"
  by (simp add: kbdgetc_def charcode_def shiftcode_def togglecode_def shiftmap_def normalmap_def key_table_def
      E0ESC_def CTL_def SHIFT_def CAPSLOCK_def char_of_def bit_simps)

end
