(* ===== verification/Screen.thy ===== *)
theory Screen
  imports Console
begin

text \<open>
  The screen of the console (\<open>console.c\<close>): the memory of the CGA and its cursor.  A text that is
  printed appears as its lines, cut at 80 characters, the last of them when there are too many.
\<close>

type_synonym cell = "16 word"

record screen =
  crt :: "nat \<Rightarrow> cell"
  cursor :: nat

definition cell_of :: "int \<Rightarrow> cell" where
  "cell_of c = of_int (c mod 256) OR 0x0700"

definition scroll_up :: "(nat \<Rightarrow> cell) \<Rightarrow> nat \<Rightarrow> (nat \<Rightarrow> cell)" where
  "scroll_up m pos = (\<lambda>i. if pos \<le> i \<and> i < 24 * 80 then 0 else if i < 23 * 80 then m (i + 80) else m i)"

definition cgaputc :: "int \<Rightarrow> screen \<Rightarrow> screen kres" where
  "cgaputc c s =
     (let pos = cursor s;
          (m, pos) =
            (if c = 10 then (crt s, pos + (80 - pos mod 80))
             else if c = BACKSPACE then (crt s, if pos > 0 then pos - 1 else pos)
             else ((crt s)(pos := cell_of c), pos + 1))
      in if pos > 25 * 80 then Inl (Panic ''pos under/overflow'')
         else let (m, pos) = (if pos div 80 \<ge> 24 then (scroll_up m (pos - 80), pos - 80) else (m, pos))
           in Inr (s\<lparr>crt := m(pos := cell_of 32), cursor := pos\<rparr>))"

definition cgaputs :: "string \<Rightarrow> screen \<Rightarrow> screen kres" where
  "cgaputs cs s = each (\<lambda>c. cgaputc (of_char c)) cs s"

text \<open>The cursor stays on the first 24 rows, whatever is printed.\<close>

lemma cursor_stays:
  assumes "cursor s < 24 * 80"
  shows "\<exists>s'. cgaputc c s = Inr s' \<and> cursor s' < 24 * 80"
proof -
  have d: "cursor s mod 80 < 80" "cursor s div 80 \<le> 23" using assms by (simp, linarith)
  have "cursor s = 80 * (cursor s div 80) + cursor s mod 80" by simp
  then have nl: "cursor s + (80 - cursor s mod 80) = 80 * (cursor s div 80) + 80" using d(1) by linarith
  obtain m p where b: "(if c = 10 then (crt s, cursor s + (80 - cursor s mod 80))
            else if c = BACKSPACE then (crt s, if cursor s > 0 then cursor s - 1 else cursor s)
            else ((crt s)(cursor s := cell_of c), cursor s + 1)) = (m, p)" "p \<le> 24 * 80"
    using d nl assms by (cases "c = 10"; cases "c = BACKSPACE"; cases "cursor s = 0") auto
  have "p div 80 \<ge> 24 \<longleftrightarrow> p = 24 * 80" using b(2) by auto
  then show ?thesis using b unfolding cgaputc_def Let_def b(1) by (cases "p = 24 * 80") auto
qed

section \<open>The text on the screen\<close>

text \<open>A terminal of unbounded height: the lines that are complete and the line that is written.\<close>

type_synonym terminal = "string list \<times> string"

definition term_put :: "char \<Rightarrow> terminal \<Rightarrow> terminal" where
  "term_put c = (\<lambda>(ls, cur).
     if c = CHR 0x0A then (ls @ [cur], [])
     else if length cur = 79 then (ls @ [cur @ [c]], [])
     else (ls, cur @ [c]))"

definition row_is :: "(nat \<Rightarrow> cell) \<Rightarrow> nat \<Rightarrow> string \<Rightarrow> bool" where
  "row_is m i l \<longleftrightarrow> length l \<le> 80 \<and> (\<forall>j < length l. m (80 * i + j) = cell_of (of_char (l ! j)))"

text \<open>The rows above the cursor's are the last complete lines.\<close>

definition rows_show :: "(nat \<Rightarrow> cell) \<Rightarrow> nat \<Rightarrow> terminal \<Rightarrow> bool" where
  "rows_show m r = (\<lambda>(ls, cur). r \<le> length ls \<and> length cur < 80 \<and> row_is m r cur \<and>
     (\<forall>i < r. row_is m i (ls ! (length ls + i - r))))"

definition shows_text :: "terminal \<Rightarrow> screen \<Rightarrow> bool" where
  "shows_text t s \<longleftrightarrow> (\<exists>r \<le> 23. cursor s = 80 * r + length (snd t) \<and> rows_show (crt s) r t)"

lemma row_is_other:
  assumes "row_is m i l" "\<And>j. j < length l \<Longrightarrow> m' (80 * i + j) = m (80 * i + j)"
  shows "row_is m' i l"
  using assms by (simp add: row_is_def)

lemma rows_show_cursor:
  assumes "rows_show m r (ls, cur)"
  shows "rows_show (m(80 * r + length cur := x)) r (ls, cur)"
proof -
  have "row_is (m(80 * r + length cur := x)) i (ls ! (length ls + i - r))" if "i < r" for i
    by (rule row_is_other [of m]) (use assms that in \<open>auto simp: rows_show_def row_is_def\<close>)
  moreover have "row_is (m(80 * r + length cur := x)) r cur"
    by (rule row_is_other [of m]) (use assms in \<open>auto simp: rows_show_def\<close>)
  ultimately show ?thesis using assms by (simp add: rows_show_def)
qed

lemma rows_show_scroll:
  assumes "rows_show m 24 (ls, [])"
  shows "rows_show (scroll_up m (80 * 23)) 23 (ls, [])"
proof -
  have "row_is (scroll_up m (80 * 23)) i (ls ! (length ls + i - 23))" if "i < 23" for i
  proof -
    have "24 \<le> length ls" and all: "\<And>k. k < 24 \<Longrightarrow> row_is m k (ls ! (length ls + k - 24))"
      using assms by (simp_all add: rows_show_def)
    moreover have "row_is m (Suc i) (ls ! (length ls + Suc i - 24))" using that by (intro all) simp
    moreover have "length ls + Suc i - 24 = length ls + i - 23" using \<open>24 \<le> length ls\<close> by linarith
    ultimately show ?thesis using that by (auto simp: row_is_def scroll_up_def ac_simps)
  qed
  then show ?thesis using assms by (auto simp: rows_show_def row_is_def)
qed

text \<open>The part of \<open>cgaputc\<close> behind the switch.\<close>

lemma cga_finish:
  assumes "rows_show m r (ls, cur)" "r \<le> 24" "r = 24 \<Longrightarrow> cur = []"
  shows "\<exists>m' pos. (if (80 * r + length cur) div 80 \<ge> 24
      then (scroll_up m (80 * r + length cur - 80), 80 * r + length cur - 80) else (m, 80 * r + length cur)) = (m', pos) \<and>
      shows_text (ls, cur) (s\<lparr>crt := m'(pos := x), cursor := pos\<rparr>)"
proof -
  have len: "length cur < 80" using assms(1) by (simp add: rows_show_def)
  then have q: "(80 * r + length cur) div 80 = r" by simp
  show ?thesis
  proof (cases "r = 24")
    case True
    then have "rows_show (scroll_up m (80 * 23)) 23 (ls, cur)" using rows_show_scroll assms(1,3) by simp
    from rows_show_cursor [OF this, of x] show ?thesis
      using True assms(3) by (auto simp: shows_text_def intro!: exI [of _ 23])
  next
    case False
    then show ?thesis using rows_show_cursor [OF assms(1), of x] assms(2) q
      by (auto simp: shows_text_def intro!: exI [of _ r])
  qed
qed

lemma rows_show_put:
  assumes "rows_show m r (ls, cur)" "c \<noteq> CHR 0x0A"
  shows "if length cur = 79 then rows_show (m(80 * r + 79 := cell_of (of_char c))) (Suc r) (ls @ [cur @ [c]], [])
    else rows_show (m(80 * r + length cur := cell_of (of_char c))) r (ls, cur @ [c])"
proof -
  let ?m = "m(80 * r + length cur := cell_of (of_char c))"
  have len: "length cur < 80" and r: "r \<le> length ls" using assms(1) by (simp_all add: rows_show_def)
  have old: "row_is ?m i (ls ! (length ls + i - r))" if "i < r" for i
    by (rule row_is_other [of m]) (use assms that in \<open>auto simp: rows_show_def row_is_def\<close>)
  have new: "row_is ?m r (cur @ [c])" using assms(1) len by (auto simp: rows_show_def row_is_def nth_append less_Suc_eq)
  show ?thesis
  proof (cases "length cur = 79")
    case False
    then show ?thesis using old new len r by (simp add: rows_show_def)
  next
    case True
    have "row_is ?m i ((ls @ [cur @ [c]]) ! (Suc (length ls) + i - Suc r))" if "i < Suc r" for i
    proof (cases "i = r")
      case True
      then show ?thesis using new r by (simp add: nth_append)
    next
      case False
      then have "i < r" "length ls + i - r < length ls" using that r by simp_all
    then show ?thesis using old [of i] by (simp add: nth_append)
    qed
    then show ?thesis using True r by (simp add: rows_show_def row_is_def)
  qed
qed

lemma rows_show_newline:
  assumes "rows_show m r (ls, cur)"
  shows "rows_show m (Suc r) (ls @ [cur], [])"
proof -
  have r: "r \<le> length ls" and old: "\<And>i. i < r \<Longrightarrow> row_is m i (ls ! (length ls + i - r))" and cur: "row_is m r cur"
    using assms by (simp_all add: rows_show_def)
  have "row_is m i ((ls @ [cur]) ! (Suc (length ls) + i - Suc r))" if "i < Suc r" for i
  proof (cases "i = r")
    case True
    then show ?thesis using cur r by (simp add: nth_append)
  next
    case False
    then have "i < r" "length ls + i - r < length ls" using that r by simp_all
    then show ?thesis using old [of i] by (simp add: nth_append)
  qed
  then show ?thesis using r by (simp add: rows_show_def row_is_def)
qed

lemma of_char_lf: "(of_char c :: int) = 10 \<longleftrightarrow> c = CHR 0x0A"
proof
  assume "(of_char c :: int) = 10"
  then have "(of_char c :: int) = of_char (CHR 0x0A)" by simp
  then show "c = CHR 0x0A" by (simp only: of_char_eq_iff)
qed simp

lemma of_char_small: "(of_char c :: int) < 256"
  by (cases c) (auto split: if_splits)

lemma cgaputc_shows:
  assumes "shows_text t s"
  shows "\<exists>s'. cgaputc (of_char c) s = Inr s' \<and> shows_text (term_put c t) s'"
proof -
  obtain ls cur where t: "t = (ls, cur)" by (cases t)
  obtain r where r: "r \<le> 23" "cursor s = 80 * r + length cur" "rows_show (crt s) r (ls, cur)"
    using assms by (auto simp: shows_text_def t)
  have len: "length cur < 80" using r(3) by (simp add: rows_show_def)
  have nb: "(of_char c :: int) \<noteq> BACKSPACE" using of_char_small [of c] by (simp add: BACKSPACE_def)
  have "\<exists>m r2 ls2 cur2. (if (of_char c :: int) = 10 then (crt s, cursor s + (80 - cursor s mod 80))
            else if of_char c = BACKSPACE then (crt s, if cursor s > 0 then cursor s - 1 else cursor s)
            else ((crt s)(cursor s := cell_of (of_char c)), cursor s + 1)) = (m, 80 * r2 + length cur2) \<and>
      term_put c t = (ls2, cur2) \<and> rows_show m r2 (ls2, cur2) \<and> r2 \<le> 24 \<and> (r2 = 24 \<longrightarrow> cur2 = [])"
  proof (cases "c = CHR 0x0A")
    case True
    have "cursor s + (80 - cursor s mod 80) = 80 * Suc r + length []" using r(2) len by simp
    then show ?thesis using True rows_show_newline [OF r(3)] r(1)
      by (intro exI [of _ "crt s"] exI [of _ "Suc r"] exI [of _ "ls @ [cur]"] exI [of _ "[]"])
        (simp add: t term_put_def)
  next
    case False
    note p = rows_show_put [OF r(3) False]
    show ?thesis
    proof (cases "length cur = 79")
      case True
      then show ?thesis using p False nb r
        by (intro exI [of _ "(crt s)(cursor s := cell_of (of_char c))"] exI [of _ "Suc r"] exI [of _ "ls @ [cur @ [c]]"] exI [of _ "[]"])
          (simp add: t term_put_def of_char_lf)
    next
      case l: False
      then show ?thesis using p False nb r
        by (intro exI [of _ "(crt s)(cursor s := cell_of (of_char c))"] exI [of _ r] exI [of _ ls] exI [of _ "cur @ [c]"])
          (simp add: t term_put_def of_char_lf)
    qed
  qed
  then obtain m r2 ls2 cur2 where b: "(if (of_char c :: int) = 10 then (crt s, cursor s + (80 - cursor s mod 80))
            else if of_char c = BACKSPACE then (crt s, if cursor s > 0 then cursor s - 1 else cursor s)
            else ((crt s)(cursor s := cell_of (of_char c)), cursor s + 1)) = (m, 80 * r2 + length cur2)"
      "term_put c t = (ls2, cur2)" "rows_show m r2 (ls2, cur2)" "r2 \<le> 24" "r2 = 24 \<longrightarrow> cur2 = []" by blast
  have "length cur2 < 80" using b(3) by (simp add: rows_show_def)
  then have "80 * r2 + length cur2 \<le> 25 * 80" using b(4,5) by (cases "r2 = 24") auto
  moreover obtain m' pos where "(if (80 * r2 + length cur2) div 80 \<ge> 24
      then (scroll_up m (80 * r2 + length cur2 - 80), 80 * r2 + length cur2 - 80) else (m, 80 * r2 + length cur2)) = (m', pos)"
      "shows_text (ls2, cur2) (s\<lparr>crt := m'(pos := cell_of 32), cursor := pos\<rparr>)"
    using cga_finish [OF b(3,4)] b(5) by blast
  ultimately show ?thesis unfolding cgaputc_def Let_def b(1) b(2) by simp
qed

text \<open>Printing a text on a clear screen leaves on it the last lines of the text, wrapped at 80
  characters, above the line that is written; the cursor is behind it, and \<open>cgaputc\<close> does not panic,
  however long the text.\<close>

theorem screen_shows_text:
  assumes "cursor s = 0"
  shows "\<exists>s'. cgaputs cs s = Inr s' \<and> shows_text (fold term_put cs ([], [])) s'"
proof -
  have "shows_text t s \<Longrightarrow> \<exists>s'. cgaputs cs s = Inr s' \<and> shows_text (fold term_put cs t) s'" for t
  proof (induction cs arbitrary: t s)
    case (Cons c cs)
    then obtain s1 where "cgaputc (of_char c) s = Inr s1" "shows_text (term_put c t) s1" using cgaputc_shows by blast
    then show ?case using Cons.IH [of "term_put c t" s1] by (simp add: cgaputs_def)
  qed (simp add: cgaputs_def)
  moreover have "shows_text ([], []) s" using assms by (simp add: shows_text_def rows_show_def row_is_def)
  ultimately show ?thesis by blast
qed

theorem screen_shows_text_witness:
  "\<exists>s s'. s = \<lparr>crt = (\<lambda>_. 0), cursor = 0\<rparr> \<and> cgaputs (concat (replicate 30 ''ab'') @ [CHR 0x0A] @ ''c'') s = Inr s' \<and>
     shows_text (fold term_put (concat (replicate 30 ''ab'') @ [CHR 0x0A] @ ''c'') ([], [])) s'"
proof -
  have "cursor \<lparr>crt = (\<lambda>_. 0), cursor = 0\<rparr> = 0" by simp
  from screen_shows_text [OF this] show ?thesis by blast
qed

end
