(* ===== verification/Cprintf.thy ===== *)
theory Cprintf
  imports Screen Ulib
begin

text \<open>
  What the kernel prints (\<open>console.c\<close>, \<open>uart.c\<close>): \<open>cprintf\<close> gives each character to the serial port and
  to the screen, until a panic freezes the console.  Polling the serial port ends after 128 turns
  whatever it answers, so that each character is sent.
\<close>

section \<open>The devices\<close>

record outdev =
  panicked :: bool
  uart :: bool
  serial :: string
  shown :: screen

definition uartputc :: "int \<Rightarrow> outdev \<Rightarrow> outdev" where
  "uartputc c s = (if \<not> uart s then s else s\<lparr>serial := serial s @ [char_of (nat (c mod 256))]\<rparr>)"

text \<open>The ports answer \<open>status\<close>.\<close>

definition uartinit :: "i32 \<Rightarrow> outdev \<Rightarrow> outdev" where
  "uartinit status s =
     (if status = 0xFF then s else fold (\<lambda>c. uartputc (of_char c)) (''xv6...'' @ [CHR 0x0A]) (s\<lparr>uart := True\<rparr>))"

definition uartgetc :: "bool \<Rightarrow> i32 \<Rightarrow> i32 \<Rightarrow> int" where
  "uartgetc present status data = (if \<not> present then -1 else if status AND 1 = 0 then -1 else uint data)"

text \<open>\<open>uartintr\<close> gives \<open>consoleintr\<close> what the port holds.\<close>

definition uartintr :: "bool \<Rightarrow> i32 list \<Rightarrow> console \<Rightarrow> console" where
  "uartintr present ds s =
     consoleintr (map (\<lambda>c. char_of (nat c)) (takeWhile (\<lambda>c. 0 \<le> c) (map (uartgetc present 1) ds))) s"

definition put_console :: "int \<Rightarrow> outdev \<Rightarrow> outdev kres" where
  "put_console c s =
     (if panicked s then Inl Diverge
      else let s1 = (if c = BACKSPACE then uartputc 8 (uartputc 32 (uartputc 8 s)) else uartputc c s)
        in call (cgaputc c (shown s1)) (\<lambda>v. Inr (s1\<lparr>shown := v\<rparr>)))"

section \<open>Formats\<close>

definition kdigits :: string where "kdigits = ''0123456789abcdef''"

function kdigits_of :: "nat \<Rightarrow> nat \<Rightarrow> string" where
  "kdigits_of base x = kdigits ! (x mod base) # (if base < 2 \<or> x div base = 0 then [] else kdigits_of base (x div base))"
  by pat_completeness auto
termination
  by (relation "measure snd") (auto simp: div_eq_0_iff)

declare kdigits_of.simps [simp del]

definition kprintint :: "i32 \<Rightarrow> nat \<Rightarrow> bool \<Rightarrow> int list" where
  "kprintint xx base sg =
     (let neg = (sg \<and> sint xx < 0); x = unat (if neg then - xx else xx)
      in map of_char ((if neg then ''-'' else []) @ rev (kdigits_of base x)))"

text \<open>A \<open>char\<close> of a string argument is signed.\<close>

definition signed_char :: "char \<Rightarrow> int" where
  "signed_char c = (let n = of_char c in if 128 \<le> n then n - 256 else n)"

text \<open>What \<open>cprintf\<close> gives to \<open>consputc\<close>: \<open>ap\<close> gives the words on the stack behind the format, \<open>k\<close> counts
  those used, and \<open>str\<close> gives the string at an address.\<close>

fun cprintf_from :: "string \<Rightarrow> (nat \<Rightarrow> i32) \<Rightarrow> nat \<Rightarrow> (i32 \<Rightarrow> string) \<Rightarrow> int list" where
  "cprintf_from [] ap k str = []"
| "cprintf_from [c] ap k str = (if c = NUL \<or> c = CHR ''%'' then [] else [of_char c])"
| "cprintf_from (c # d # fmt) ap k str =
     (if c = NUL then []
      else if c \<noteq> CHR ''%'' then of_char c # cprintf_from (d # fmt) ap k str
      else if d = NUL then []
      else if d = CHR ''d'' then kprintint (ap k) 10 True @ cprintf_from fmt ap (k + 1) str
      else if d = CHR ''x'' \<or> d = CHR ''p'' then kprintint (ap k) 16 False @ cprintf_from fmt ap (k + 1) str
      else if d = CHR ''s'' then
        map signed_char (if ap k = 0 then ''(null)'' else cstr (str (ap k))) @ cprintf_from fmt ap (k + 1) str
      else if d = CHR ''%'' then of_char d # cprintf_from fmt ap k str
      else of_char CHR ''%'' # of_char d # cprintf_from fmt ap k str)"

definition cprintf :: "string option \<Rightarrow> (nat \<Rightarrow> i32) \<Rightarrow> (i32 \<Rightarrow> string) \<Rightarrow> outdev \<Rightarrow> outdev kres" where
  "cprintf fmt ap str s =
     (case fmt of None \<Rightarrow> Inl (Panic ''null fmt'') | Some f \<Rightarrow> each put_console (cprintf_from f ap 0 str) s)"

text \<open>The message is printed as a format; the console is frozen.\<close>

definition panic_prints :: "string \<Rightarrow> i32 \<Rightarrow> i32 list \<Rightarrow> (nat \<Rightarrow> i32) \<Rightarrow> (i32 \<Rightarrow> string) \<Rightarrow> outdev \<Rightarrow> outdev kres" where
  "panic_prints msg cpu pcs ap str s =
     call (cprintf (Some ''lapicid %d: panic: '') (\<lambda>_. cpu) str s) (\<lambda>s1.
     call (cprintf (Some msg) ap str s1) (\<lambda>s2.
     call (cprintf (Some [CHR 0x0A]) ap str s2) (\<lambda>s3.
     call (each (\<lambda>pc. cprintf (Some '' %p'') (\<lambda>_. pc) str) pcs s3) (\<lambda>s4.
     Inr (s4\<lparr>panicked := True\<rparr>)))))"

section \<open>The kernel's format and the library's\<close>

text \<open>Formats that both understand in the same way.\<close>

fun both_know :: "string \<Rightarrow> bool" where
  "both_know [] = True"
| "both_know [c] = True"
| "both_know (c # d # fmt) \<longleftrightarrow>
     (if c = CHR ''%'' then d \<notin> {CHR ''c'', CHR ''x'', CHR ''p''} \<and> both_know fmt else both_know (d # fmt))"

definition byte_char :: "int \<Rightarrow> char" where "byte_char c = char_of (nat (c mod 256))"

lemma byte_char_of_char [simp]: "byte_char (of_char c) = c"
  by (simp add: byte_char_def nat_mod_distrib of_char_mod_256)

lemma byte_char_percent [simp]: "byte_char 37 = CHR ''%''"
  using byte_char_of_char [of "CHR ''%''"] by simp

lemma byte_char_signed [simp]: "byte_char (signed_char c) = c"
proof -
  have "signed_char c mod 256 = (of_char c :: int)" by (simp add: signed_char_def Let_def)
  then show ?thesis by (simp add: byte_char_def)
qed

lemma kdigits_of_10: "kdigits_of 10 x = digits_of 10 x"
proof (induction "10 :: nat" x rule: kdigits_of.induct)
  case (1 x)
  have "m \<in> {0, 1, 2, 3, 4, 5, 6, 7, 8, 9}" if "m < 10" for m :: nat using that by auto
  from this [of "x mod 10"] have "kdigits ! (x mod 10) = digits ! (x mod 10)" unfolding kdigits_def digits_def by fastforce
  then show ?case using 1 by (subst kdigits_of.simps, subst digits_of.simps) simp
qed

lemma kprintint_10: "map byte_char (kprintint n 10 True) = printint n 10 True"
  by (simp add: kprintint_def printint_def Let_def kdigits_of_10 rev_map comp_def)

lemma cprintf_printf:
  "both_know fmt \<Longrightarrow> map byte_char (cprintf_from fmt ap k str) = printf_from False fmt ap k str"
proof (induction fmt ap k str rule: cprintf_from.induct)
  case (3 c d fmt ap k str)
  have *: "both_know fmt" if "c = CHR ''%''" using 3(7) that by simp
  have n: "d \<notin> {CHR ''c'', CHR ''x'', CHR ''p''}" if "c = CHR ''%''" using 3(7) that by simp
  show ?case
  proof (cases "c = CHR ''%''")
    case False
    then show ?thesis using 3 by simp
  next
    case True
    then have k: "both_know fmt" "d \<noteq> CHR ''c''" "d \<noteq> CHR ''x''" "d \<noteq> CHR ''p''" using * n by simp_all
    consider "d = NUL" | "d = CHR ''d''" | "d = CHR ''s''" | "d = CHR ''%''"
      | "d \<noteq> NUL" "d \<noteq> CHR ''d''" "d \<noteq> CHR ''s''" "d \<noteq> CHR ''%''" by argo
    then show ?thesis
    proof cases
      case 2
      then show ?thesis using True "3.IH"(2) k by (simp add: kprintint_10)
    next
      case 3
      then show ?thesis using True "3.IH"(4) k by (simp add: comp_def)
    next
      case 4
      then show ?thesis using True "3.IH"(5) k by simp
    next
      case 5
      then show ?thesis using True "3.IH"(6) k by simp
    qed (use True in simp)
  qed
qed auto

section \<open>What arrives\<close>

definition byte_like :: "int \<Rightarrow> bool" where "byte_like c \<longleftrightarrow> - 128 \<le> c \<and> c < 256"

lemma byte_like_chars [simp]: "byte_like (of_char c)" "byte_like (signed_char c)"
proof -
  have "(of_char c :: int) < 256" "0 \<le> (of_char c :: int)" using of_char_of [of "of_char c :: int"] by (metis of_char_mod_256 pos_mod_bound pos_mod_sign zero_less_numeral)+
  then show "byte_like (of_char c)" "byte_like (signed_char c)" by (simp_all add: byte_like_def signed_char_def Let_def)
qed

lemma cprintf_bytes: "c \<in> set (cprintf_from fmt ap k str) \<Longrightarrow> byte_like c"
proof (induction fmt ap k str rule: cprintf_from.induct)
  case (3 b d fmt ap k str)
  have k: "byte_like c" if "c \<in> set (kprintint n base sg)" for n base sg
    using that byte_like_chars(1) [of "CHR ''-''"] by (auto simp: kprintint_def Let_def image_iff)
  show ?case
  proof (cases "b = CHR ''%'' \<and> b \<noteq> NUL")
    case True
    consider "d = NUL" | "d = CHR ''d''" | "d = CHR ''x''" | "d = CHR ''p''" | "d = CHR ''s''" | "d = CHR ''%''"
      | "d \<noteq> NUL" "d \<noteq> CHR ''d''" "d \<noteq> CHR ''x''" "d \<noteq> CHR ''p''" "d \<noteq> CHR ''s''" "d \<noteq> CHR ''%''" by argo
    then show ?thesis
    proof cases
      case 2
      then show ?thesis using True "3.prems" "3.IH"(2) k by auto
    next
      case 3
      then show ?thesis using True "3.prems" "3.IH"(3) k by auto
    next
      case 4
      then show ?thesis using True "3.prems" "3.IH"(3) k by auto
    next
      case 5
      define x where "x = (if ap k = 0 then ''(null)'' else cstr (str (ap k)))"
      have "c \<in> signed_char ` set x \<or> c \<in> set (cprintf_from fmt ap (k + 1) str)"
        using True "3.prems" 5 by (simp flip: x_def)
      moreover have "byte_like c" if "c \<in> signed_char ` set x" using that by auto
      ultimately show ?thesis using True 5 "3.IH"(4) by auto
    next
      case 6
      then show ?thesis using True "3.prems" "3.IH"(5) byte_like_chars(1) [of d] by simp blast
    next
      case 7
      then have "c = of_char CHR ''%'' \<or> c = of_char d \<or> c \<in> set (cprintf_from fmt ap k str)"
        using True "3.prems" by simp
      then show ?thesis using True 7 "3.IH"(6) byte_like_chars(1) by blast
    qed (use True "3.prems" in simp)
  next
    case False
    then show ?thesis using "3.prems" "3.IH"(1) by (cases "b = NUL") auto
  qed
qed (auto split: if_splits)

lemma of_byte_char: "of_char (byte_char c) = c mod 256"
proof -
  have "(of_char (byte_char c) :: nat) = nat (c mod 256) mod 256" unfolding byte_char_def by (rule of_char_of)
  then have "(of_nat (of_char (byte_char c)) :: int) = c mod 256" by simp
  then show ?thesis by (simp only: of_nat_of_char)
qed

lemma put_console_byte:
  assumes "\<not> panicked s" "uart s" "shows_text t (shown s)" "byte_like c"
  shows "\<exists>s'. put_console c s = Inr s' \<and> serial s' = serial s @ [byte_char c] \<and> \<not> panicked s' \<and> uart s' \<and>
    shows_text (term_put (byte_char c) t) (shown s')"
proof -
  have "c mod 256 = (if c < 0 then c + 256 else c)"
    using assms(4) mod_pos_pos_trivial [of "c + 256" 256] by (simp add: byte_like_def)
  then have "c = 10 \<longleftrightarrow> c mod 256 = 10" "c \<noteq> BACKSPACE" "c mod 256 \<noteq> BACKSPACE" "cell_of (c mod 256) = cell_of c"
    using assms(4) by (auto simp: byte_like_def BACKSPACE_def cell_of_def)
  then have "cgaputc c v = cgaputc (of_char (byte_char c)) v" "c \<noteq> BACKSPACE" for v
    by (simp_all add: cgaputc_def of_byte_char cong: if_cong)
  moreover obtain v where "cgaputc (of_char (byte_char c)) (shown s) = Inr v" "shows_text (term_put (byte_char c) t) v"
    using cgaputc_shows [OF assms(3)] by blast
  ultimately show ?thesis using assms(1,2) by (simp add: put_console_def uartputc_def byte_char_def)
qed

lemma put_console_bytes:
  assumes "\<forall>c \<in> set cs. byte_like c" "\<not> panicked s" "uart s" "shows_text t (shown s)"
  shows "\<exists>s'. each put_console cs s = Inr s' \<and> serial s' = serial s @ map byte_char cs \<and> \<not> panicked s' \<and> uart s' \<and>
    shows_text (fold term_put (map byte_char cs) t) (shown s')"
  using assms
proof (induction cs arbitrary: s t)
  case (Cons c cs)
  then obtain s1 where s1: "put_console c s = Inr s1" "serial s1 = serial s @ [byte_char c]" "\<not> panicked s1" "uart s1"
    "shows_text (term_put (byte_char c) t) (shown s1)"
    using put_console_byte [of s t c] by auto
  then show ?case using Cons.IH [of s1 "term_put (byte_char c) t"] Cons.prems(1) by auto
qed simp

text \<open>C32: As long as the kernel has not panicked and there is a serial port, \<open>cprintf\<close> of a format without \<open>%c\<close>, \<open>%x\<close> and \<open>%p\<close> sends
  to the serial port exactly the text that the library's \<open>printf\<close> has for it, and a screen that
  shows some text shows this text with the new one behind it.\<close>

theorem cprintf_reaches_devices:
  assumes "\<not> panicked s" "uart s" "shows_text t (shown s)" "both_know fmt"
  shows "\<exists>s'. cprintf (Some fmt) ap str s = Inr s' \<and> serial s' = serial s @ printf fmt ap str \<and>
    shows_text (fold term_put (printf fmt ap str) t) (shown s') \<and> \<not> panicked s'"
proof -
  have "map byte_char (cprintf_from fmt ap 0 str) = printf fmt ap str"
    using cprintf_printf [OF assms(4)] by (simp add: printf_def)
  moreover have "\<forall>c \<in> set (cprintf_from fmt ap 0 str). byte_like c" using cprintf_bytes by blast
  ultimately show ?thesis using put_console_bytes [OF _ assms(1-3)] by (force simp: cprintf_def)
qed

text \<open>A number on a fresh console.\<close>

definition fresh_outdev :: outdev where
  "fresh_outdev = \<lparr>panicked = False, uart = True, serial = [], shown = \<lparr>crt = (\<lambda>_. 0), cursor = 0\<rparr>\<rparr>"

theorem cprintf_reaches_devices_witness:
  "\<exists>s'. both_know ''cpu %d'' \<and> cprintf (Some ''cpu %d'') (\<lambda>_. -3) (\<lambda>_. []) fresh_outdev = Inr s' \<and> serial s' = ''cpu -3''"
proof -
  have s: "\<not> panicked fresh_outdev" "uart fresh_outdev" "shows_text ([], []) (shown fresh_outdev)"
    by (simp_all add: fresh_outdev_def shows_text_def rows_show_def row_is_def)
  have f: "both_know ''cpu %d''" by simp
  have "printint (-3) 10 True = ''-3''"
    by (simp add: printint_def digits_of.simps digits_def)
  then have "printf ''cpu %d'' (\<lambda>_. -3) (\<lambda>_. []) = ''cpu -3''" by (simp add: printf_def)
  then show ?thesis using cprintf_reaches_devices [OF s f, of "\<lambda>_. -3" "\<lambda>_. []"] f by (auto simp: fresh_outdev_def)
qed

text \<open>After a panic nothing is printed any more.\<close>

lemma frozen_console: "panicked s \<Longrightarrow> put_console c s = Inl Diverge"
  by (simp add: put_console_def)

end
