(* ===== verification/Wc.thy ===== *)
theory Wc
  imports Ulib
begin

text \<open>
  \<open>wc.c\<close>: lines, words and characters, counted over the parts of a file as the reads return them.  The
  counters are 32-bit numbers.
\<close>

type_synonym counts = "i32 \<times> i32 \<times> i32 \<times> bool"

definition blanks :: string where
  "blanks = [CHR '' '', CHR 0x0D, CHR 0x09, CHR 0x0A, CHR 0x0B]"

definition wc_char :: "char \<Rightarrow> counts \<Rightarrow> counts" where
  "wc_char x = (\<lambda>(l, w, c, inword).
     let c = c + 1; l = (if x = CHR 0x0A then l + 1 else l)
     in if strchr blanks x \<noteq> None then (l, w, c, False)
        else if \<not> inword then (l, w + 1, c, True) else (l, w, c, inword))"

text \<open>The reads, up to the first that returns nothing.\<close>

fun wc_reads :: "string list \<Rightarrow> counts \<Rightarrow> counts" where
  "wc_reads [] s = s"
| "wc_reads (b # bs) s = (if b = [] then s else wc_reads bs (fold wc_char b s))"

definition wc :: "string list \<Rightarrow> i32 \<times> i32 \<times> i32" where
  "wc bs = (case wc_reads bs (0, 0, 0, False) of (l, w, c, _) \<Rightarrow> (l, w, c))"

section \<open>What is counted\<close>

definition blank :: "char \<Rightarrow> bool" where "blank x \<longleftrightarrow> x \<in> set blanks"

text \<open>The words of a text are the parts without blanks that stand between blanks or the ends.\<close>

fun words :: "string \<Rightarrow> string list" where
  "words [] = []"
| "words (x # s) =
     (if blank x then words s
      else case words s of
          [] \<Rightarrow> [[x]]
        | w # ws \<Rightarrow> if s \<noteq> [] \<and> \<not> blank (hd s) then (x # w) # ws else [x] # w # ws)"

lemma strchr_blanks: "strchr blanks x \<noteq> None \<longleftrightarrow> blank x"
  by (auto simp: blanks_def blank_def)

lemma words_Nil: "words s = [] \<longleftrightarrow> (\<forall>x \<in> set s. blank x)"
  by (induction s) (auto split: list.splits)

lemma length_words:
  "length (words (x # s)) =
     (if \<not> blank x \<and> (s = [] \<or> blank (hd s)) then 1 else 0) + length (words s)"
proof -
  have "s \<noteq> [] \<Longrightarrow> \<not> blank (hd s) \<Longrightarrow> words s \<noteq> []" by (simp only: words_Nil) auto
  then show ?thesis unfolding words.simps(2) [of x s] by (cases "words s") auto
qed

lemma wc_char_eq:
  "wc_char x (l, w, c, inword) =
     (l + (if x = CHR 0x0A then 1 else 0), w + (if \<not> blank x \<and> \<not> inword then 1 else 0), c + 1, \<not> blank x)"
  unfolding wc_char_def Let_def by (simp only: strchr_blanks split: prod.split) auto

text \<open>The words that the loop counts: all of them, but for a first one that it is in already.\<close>

lemma fold_wc_char:
  "fold wc_char s (l, w, c, inword) =
     (l + of_nat (count_list s (CHR 0x0A)),
      w + of_nat (length (words s)) - (if inword \<and> s \<noteq> [] \<and> \<not> blank (hd s) then 1 else 0),
      c + of_nat (length s),
      if s = [] then inword else \<not> blank (last s))"
proof (induction s arbitrary: l w c inword)
  case (Cons x s)
  have "fold wc_char (x # s) (l, w, c, inword) =
      fold wc_char s (l + (if x = CHR 0x0A then 1 else 0), w + (if \<not> blank x \<and> \<not> inword then 1 else 0), c + 1, \<not> blank x)"
    by (simp add: wc_char_eq)
  also note Cons.IH
  finally show ?case
    by (cases "blank x"; cases "s = []"; cases inword) (simp_all add: length_words algebra_simps del: words.simps(2))
qed simp

lemma wc_reads_concat: "[] \<notin> set bs \<Longrightarrow> wc_reads bs s = fold wc_char (concat bs) s"
  by (induction bs arbitrary: s) auto

text \<open>C35: However a file is cut into reads, \<open>wc\<close> prints the number of its newlines, of its words and of
  its characters, as 32-bit numbers.\<close>

theorem wc_counts:
  assumes "[] \<notin> set bs"
  shows "wc bs = (of_nat (count_list (concat bs) (CHR 0x0A)), of_nat (length (words (concat bs))), of_nat (length (concat bs)))"
  by (simp add: wc_def wc_reads_concat [OF assms] fold_wc_char)

text \<open>A word across two reads is one word.\<close>

theorem wc_counts_witness:
  "[] \<notin> set [''ab c'', ''d e'' @ [CHR 0x0A]] \<and> wc [''ab c'', ''d e'' @ [CHR 0x0A]] = (1, 3, 8)"
proof -
  have w: "length (words (''ab cd e'' @ [CHR 0x0A])) = 3" by (simp add: blank_def blanks_def)
  show ?thesis using wc_counts [of "[''ab c'', ''d e'' @ [CHR 0x0A]]"] w by simp
qed

end
