(* ===== verification/Umalloc.thy ===== *)
theory Umalloc
  imports Prelude
begin

text \<open>
  The allocator of the user programs (\<open>umalloc.c\<close>).  Addresses count headers of eight bytes; the memory is
  seen as the two words of a header at every address.  The free blocks form a ring in the order of
  their addresses, from the static \<open>base\<close> on.
\<close>

section \<open>The allocator\<close>

record uheap =
  h_ptr :: "nat \<Rightarrow> nat"
  h_size :: "nat \<Rightarrow> nat"
  freep :: nat
  base_at :: nat
  brk :: nat
  brk_max :: nat

text \<open>\<open>sbrk\<close>, of the kernel: the old end of the memory, when the new one is possible.\<close>

definition sbrk :: "i32 \<Rightarrow> uheap \<Rightarrow> (nat \<times> uheap) option" where
  "sbrk n s =
     (let e = int (brk s) + sint n div 8
      in if e < 0 \<or> int (brk_max s) < e then None else Some (brk s, s\<lparr>brk := nat e\<rparr>))"

text \<open>The search of \<open>free\<close> for the block in front.\<close>

partial_function (option) find_slot :: "uheap \<Rightarrow> nat \<Rightarrow> nat \<Rightarrow> nat option" where
  "find_slot s bp p =
     (if bp > p \<and> bp < h_ptr s p then Some p
      else if p \<ge> h_ptr s p \<and> (bp > p \<or> bp < h_ptr s p) then Some p
      else find_slot s bp (h_ptr s p))"

definition join_next :: "nat \<Rightarrow> nat \<Rightarrow> uheap \<Rightarrow> uheap" where
  "join_next bp p s =
     (let q = h_ptr s p in
      if bp + h_size s bp = q
      then s\<lparr>h_size := (h_size s)(bp := h_size s bp + h_size s q), h_ptr := (h_ptr s)(bp := h_ptr s q)\<rparr>
      else s\<lparr>h_ptr := (h_ptr s)(bp := q)\<rparr>)"

definition join_prev :: "nat \<Rightarrow> nat \<Rightarrow> uheap \<Rightarrow> uheap" where
  "join_prev bp p s =
     (if p + h_size s p = bp
      then s\<lparr>h_size := (h_size s)(p := h_size s p + h_size s bp), h_ptr := (h_ptr s)(p := h_ptr s bp)\<rparr>
      else s\<lparr>h_ptr := (h_ptr s)(p := bp)\<rparr>)"

definition u_free :: "nat \<Rightarrow> uheap \<Rightarrow> uheap option" where
  "u_free ap s =
     (let bp = ap - 1 in
      map_option (\<lambda>p. (join_prev bp p (join_next bp p s))\<lparr>freep := p\<rparr>) (find_slot s bp (freep s)))"

text \<open>The new block is given to \<open>free\<close>; the result 0 is the null pointer.\<close>

definition morecore :: "nat \<Rightarrow> uheap \<Rightarrow> (nat \<times> uheap) option" where
  "morecore nu s =
     (let nu = (if nu < 4096 then 4096 else nu) in
      case sbrk (of_nat nu * 8) s of
        None \<Rightarrow> Some (0, s)
      | Some (hp, s1) \<Rightarrow>
          (case u_free (hp + 1) (s1\<lparr>h_size := (h_size s1)(hp := nu)\<rparr>) of
             None \<Rightarrow> None
           | Some s2 \<Rightarrow> Some (freep s2, s2)))"

text \<open>A block is cut from a free one, or taken whole.\<close>

definition take_block :: "nat \<Rightarrow> nat \<Rightarrow> nat \<Rightarrow> uheap \<Rightarrow> nat \<times> uheap" where
  "take_block n prevp p s =
     (if h_size s p = n then (p + 1, s\<lparr>h_ptr := (h_ptr s)(prevp := h_ptr s p), freep := prevp\<rparr>)
      else let m = h_size s p - n; q = p + m
        in (q + 1, s\<lparr>h_size := (h_size s)(p := m, q := n), freep := prevp\<rparr>))"

partial_function (option) malloc_from :: "nat \<Rightarrow> nat \<Rightarrow> nat \<Rightarrow> uheap \<Rightarrow> (nat \<times> uheap) option" where
  "malloc_from n prevp p s =
     (if h_size s p \<ge> n then Some (take_block n prevp p s)
      else if p = freep s then
        (case morecore n s of
           None \<Rightarrow> None
         | Some (q, s1) \<Rightarrow> if q = 0 then Some (0, s1) else malloc_from n q (h_ptr s1 q) s1)
      else malloc_from n p (h_ptr s p) s)"

definition nunits :: "i32 \<Rightarrow> nat" where
  "nunits nbytes = unat ((nbytes + 8 - 1) div 8 + 1)"

definition u_malloc :: "i32 \<Rightarrow> uheap \<Rightarrow> (nat \<times> uheap) option" where
  "u_malloc nbytes s =
     (let s1 = (if freep s = 0
          then s\<lparr>h_ptr := (h_ptr s)(base_at s := base_at s), freep := base_at s, h_size := (h_size s)(base_at s := 0)\<rparr>
          else s)
      in malloc_from (nunits nbytes) (freep s1) (h_ptr s1 (freep s1)) s1)"

section \<open>The ring of free blocks\<close>

fun links :: "uheap \<Rightarrow> nat list \<Rightarrow> nat \<Rightarrow> bool" where
  "links s [] e = True"
| "links s (x # xs) e \<longleftrightarrow> h_ptr s x = (case xs of [] \<Rightarrow> e | y # _ \<Rightarrow> y) \<and> links s xs e"

text \<open>Blocks in the order of their addresses, with room between them.\<close>

abbreviation apart :: "uheap \<Rightarrow> nat list \<Rightarrow> bool" where
  "apart s \<equiv> sorted_wrt (\<lambda>x y. x + h_size s x < y)"

definition free_ring :: "uheap \<Rightarrow> nat list \<Rightarrow> bool" where
  "free_ring s as \<longleftrightarrow>
     0 < base_at s \<and> base_at s < brk s \<and> h_size s (base_at s) = 0 \<and>
     links s (base_at s # as) (base_at s) \<and> apart s (base_at s # as) \<and>
     (\<forall>a \<in> set as. 0 < h_size s a \<and> a + h_size s a \<le> brk s) \<and> freep s \<in> set (base_at s # as)"

definition units :: "uheap \<Rightarrow> nat \<Rightarrow> nat set" where
  "units s b = {b..<b + h_size s b}"

lemma links_append:
  "links s (xs @ y # ys) e \<longleftrightarrow> links s xs y \<and> links s (y # ys) e"
  by (induction xs) (auto split: list.splits)

lemma links_cong: "\<forall>x \<in> set xs. h_ptr s' x = h_ptr s x \<Longrightarrow> links s' xs e = links s xs e"
  by (induction xs) (auto split: list.splits)

lemma apart_cong: "\<forall>x \<in> set xs. h_size s' x = h_size s x \<Longrightarrow> apart s' xs = apart s xs"
  by (induction xs) auto

lemma apart_distinct: "apart s xs \<Longrightarrow> distinct xs"
  by (induction xs) auto

section \<open>The search of free\<close>

lemma find_slot_front:
  assumes "links s (ys @ p # zs) e" "apart s (ys @ p # zs)" "p < bp" "\<forall>z \<in> set zs. bp < z" "zs = [] \<longrightarrow> e \<le> p"
    "us @ q # vs = ys @ [p]"
  shows "find_slot s bp q = Some p"
  using assms(6)
proof (induction vs arbitrary: us q)
  case Nil
  then have q: "q = p" by simp
  show ?case
  proof (cases zs)
    case Nil
    then have "h_ptr s p = e" using assms(1) by (simp add: links_append)
    then show ?thesis using assms(3,5) Nil unfolding q by (subst find_slot.simps) auto
  next
    case (Cons z zs')
    then have "h_ptr s p = z" using assms(1) by (simp add: links_append)
    then show ?thesis using assms(3,4) Cons unfolding q by (subst find_slot.simps) auto
  qed
next
  case (Cons r vs)
  then have IH: "find_slot s bp r = Some p" using Cons.IH [of "us @ [q]" r] by simp
  obtain ws where vs: "r # vs = ws @ [p]" "ys = us @ q # ws" using Cons.prems
    by (metis append_Cons append_butlast_last_id append_eq_append_conv_if butlast.simps(2) butlast_append butlast_snoc last.simps last_appendR last_snoc list.distinct(1) list.sel(3))
  have "h_ptr s q = r"
  proof (cases ws)
    case Nil
    then show ?thesis using assms(1) vs by (simp add: links_append)
  next
    case (Cons w ws')
    then show ?thesis using assms(1) vs by (simp add: links_append)
  qed
  moreover have "q < r \<and> r \<le> p" using assms(2) vs by (cases ws) (auto simp: sorted_wrt_append)
  ultimately show ?case using assms(3) IH by (subst find_slot.simps) auto
qed

lemma find_slot_behind:
  assumes "links s (us @ q # vs) e" "apart s (us @ q # vs)" "e < bp" "\<forall>z \<in> set (q # vs). bp < z"
  shows "find_slot s bp q = find_slot s bp e"
  using assms
proof (induction vs arbitrary: us q)
  case Nil
  then have "h_ptr s q = e" by (simp add: links_append)
  then show ?case using Nil by (subst find_slot.simps) auto
next
  case (Cons r vs)
  have "find_slot s bp r = find_slot s bp e"
    by (rule Cons.IH [of "us @ [q]"]) (use Cons.prems in auto)
  moreover have "h_ptr s q = r" using Cons.prems(1) by (simp add: links_append)
  moreover have "q < r" using Cons.prems(2) by (auto simp: sorted_wrt_append)
  ultimately show ?case using Cons.prems(4) by (subst find_slot.simps) auto
qed

lemma find_slot_ring:
  assumes "links s (b # as) b" "apart s (b # as)" "b # as = ys @ p # zs" "p < bp" "\<forall>z \<in> set zs. bp < z" "b < bp"
    "q \<in> set (b # as)"
  shows "find_slot s bp q = Some p"
proof -
  have b: "b \<le> x" if "x \<in> set (b # as)" for x using assms(2) that by auto
  have e: "zs = [] \<longrightarrow> b \<le> p" using b assms(3) by auto
  have front: "find_slot s bp x = Some p" if x: "x \<in> set (ys @ [p])" for x
  proof -
    obtain us vs where "us @ x # vs = ys @ [p]" using split_list [OF x] by auto
    then show ?thesis using find_slot_front [of s ys p zs b bp us x vs] assms(1,2,4,5) e unfolding assms(3) by blast
  qed
  show ?thesis
  proof (cases "q \<in> set (ys @ [p])")
    case False
    then have "q \<in> set zs" using assms(3,7) by auto
    then obtain us vs where z: "zs = us @ q # vs" by (auto dest: split_list)
    have "find_slot s bp q = find_slot s bp b"
      by (rule find_slot_behind [of s "ys @ p # us" q vs]) (use assms z in auto)
    moreover have "b \<in> set (ys @ [p])" using assms(3) by (cases ys) auto
    ultimately show ?thesis using front by simp
  qed (rule front)
qed

section \<open>Freeing a block\<close>

definition free_units :: "uheap \<Rightarrow> nat list \<Rightarrow> nat set" where
  "free_units s as = (\<Union>a \<in> set as. units s a)"

lemma free_units_cong: "\<forall>x \<in> set xs. h_size s' x = h_size s x \<Longrightarrow> free_units s' xs = free_units s xs"
  by (simp add: free_units_def units_def)

text \<open>Joining with the block behind.\<close>

lemma join_next_ok:
  assumes "links s (p # zs) e" "apart s zs" "bp \<notin> set (p # zs)" "\<forall>z \<in> set zs. bp + h_size s bp \<le> z" "e < bp" "0 < h_size s bp"
    "\<forall>z \<in> set zs. 0 < h_size s z"
  shows "\<exists>zs'. links (join_next bp p s) (bp # zs') e \<and> apart (join_next bp p s) (bp # zs') \<and> set zs' \<subseteq> set zs \<and>
     units (join_next bp p s) bp \<union> free_units s zs' = units s bp \<union> free_units s zs \<and>
     (\<forall>x. x \<noteq> bp \<longrightarrow> h_size (join_next bp p s) x = h_size s x \<and> h_ptr (join_next bp p s) x = h_ptr s x) \<and>
     h_size s bp \<le> h_size (join_next bp p s) bp \<and>
     (bp + h_size (join_next bp p s) bp = bp + h_size s bp \<or> (\<exists>z \<in> set zs. bp + h_size (join_next bp p s) bp = z + h_size s z))"
proof (cases "\<exists>z zs'. zs = z # zs' \<and> bp + h_size s bp = z")
  case True
  then obtain z zs' where z: "zs = z # zs'" "bp + h_size s bp = z" by blast
  let ?s = "s\<lparr>h_size := (h_size s)(bp := h_size s bp + h_size s z), h_ptr := (h_ptr s)(bp := h_ptr s z)\<rparr>"
  have j: "join_next bp p s = ?s" using assms(1) z by (simp add: join_next_def)
  have "links ?s zs' e = links s zs' e" by (rule links_cong) (use assms(3) z in auto)
  then have l: "links ?s (bp # zs') e" using assms(1) z by (auto split: list.splits)
  have "apart ?s zs' = apart s zs'" by (rule apart_cong) (use assms(3) z in auto)
  then have a: "apart ?s (bp # zs')" using assms(2) z by auto
  have "units ?s bp = units s bp \<union> units s z" using z by (auto simp: units_def)
  then have u: "units ?s bp \<union> free_units s zs' = units s bp \<union> free_units s zs" using z by (auto simp: free_units_def)
  show ?thesis unfolding j using l a u z by (intro exI [of _ zs']) auto
next
  case False
  have ne: "bp + h_size s bp \<noteq> h_ptr s p"
    using False assms(1,5) by (cases zs) auto
  let ?s = "s\<lparr>h_ptr := (h_ptr s)(bp := h_ptr s p)\<rparr>"
  have j: "join_next bp p s = ?s" using ne by (simp add: join_next_def)
  have "links ?s zs e = links s zs e" by (rule links_cong) (use assms(3) in auto)
  then have l: "links ?s (bp # zs) e" using assms(1) by (auto split: list.splits)
  have lt: "bp + h_size s bp < z" if m: "z \<in> set zs" for z
  proof -
    obtain y ys where y: "zs = y # ys" using m by (cases zs) auto
    then have "bp + h_size s bp < y" using False assms(4) by force
    then show ?thesis using m y assms(2) by auto
  qed
  have "apart ?s zs = apart s zs" by (rule apart_cong) auto
  then have a: "apart ?s (bp # zs)" using assms(2) lt by auto
  have "units ?s bp = units s bp" by (simp add: units_def)
  then show ?thesis unfolding j using l a by (intro exI [of _ zs]) auto
qed

lemma split_below:
  assumes "apart s (b # as)" "b < bp" "bp \<notin> set as"
  shows "\<exists>ys p zs. b # as = ys @ p # zs \<and> p < bp \<and> (\<forall>z \<in> set zs. bp < z)"
proof -
  let ?t = "takeWhile (\<lambda>x. x < bp) (b # as)" and ?d = "dropWhile (\<lambda>x. x < bp) (b # as)"
  have ne: "?t \<noteq> []" using assms(2) by simp
  have "last ?t < bp" using set_takeWhileD [of "last ?t" "\<lambda>x. x < bp" "b # as"] last_in_set [OF ne] by blast
  moreover have "bp < z" if m: "z \<in> set ?d" for z
  proof -
    obtain y ys where d: "?d = y # ys" using m by (cases ?d) auto
    have "\<not> y < bp" using hd_dropWhile [of "\<lambda>x. x < bp" "b # as"] d by auto
    moreover have "y \<noteq> bp" using set_dropWhileD [of y "\<lambda>x. x < bp" "b # as"] d assms(2,3) by auto
    moreover have "apart s (?t @ ?d)" using assms(1) by (simp only: takeWhile_dropWhile_id)
    then have "apart s (y # ys)" unfolding d by (simp add: sorted_wrt_append)
    ultimately show ?thesis using m unfolding d by auto
  qed
  moreover have "b # as = butlast ?t @ last ?t # ?d" using ne
    by (metis append.assoc append_Cons append_Nil append_butlast_last_id takeWhile_dropWhile_id)
  ultimately show ?thesis by blast
qed

lemma free_ringI:
  assumes "0 < base_at s" "base_at s < brk s" "h_size s (base_at s) = 0" "xs \<noteq> []" "hd xs = base_at s"
    "links s xs (base_at s)" "apart s xs" "\<forall>a \<in> set xs. a \<noteq> base_at s \<longrightarrow> 0 < h_size s a \<and> a + h_size s a \<le> brk s"
    "freep s \<in> set xs"
  shows "free_ring s (tl xs)"
proof -
  have xs: "xs = base_at s # tl xs" using assms(4,5) by (cases xs) auto
  have "base_at s \<notin> set (tl xs)" using apart_distinct [OF assms(7)] xs by (metis distinct.simps(2))
  then show ?thesis using assms xs unfolding free_ring_def by (metis list.set_intros(2))
qed

lemma units_Un: "a + h_size s a = b \<Longrightarrow> {a..<a + (h_size s a + n)} = units s a \<union> {b..<b + n}"
  by (auto simp: units_def)

lemma u_free_ring:
  assumes "free_ring s as" "base_at s < bp" "bp \<notin> set as" "0 < h_size s bp" "bp + h_size s bp \<le> brk s"
    "units s bp \<inter> free_units s as = {}"
  shows "\<exists>s' as'. u_free (bp + 1) s = Some s' \<and> free_ring s' as' \<and> free_units s' as' = free_units s as \<union> units s bp \<and>
    base_at s' = base_at s \<and> brk s' = brk s \<and> brk_max s' = brk_max s \<and> set as' \<subseteq> insert bp (set as) \<and>
    (\<forall>x. x \<notin> set (bp # base_at s # as) \<longrightarrow> h_size s' x = h_size s x \<and> h_ptr s' x = h_ptr s x) \<and>
    (\<exists>a \<in> set as'. h_size s bp \<le> h_size s' a)"
proof -
  let ?b = "base_at s"
  have r: "0 < ?b" "?b < brk s" "h_size s ?b = 0" "links s (?b # as) ?b" "apart s (?b # as)"
    "\<And>a. a \<in> set as \<Longrightarrow> 0 < h_size s a \<and> a + h_size s a \<le> brk s" "freep s \<in> set (?b # as)"
    using assms(1) unfolding free_ring_def by auto
  obtain ys p zs where split: "?b # as = ys @ p # zs" and p: "p < bp" and zs: "\<forall>z \<in> set zs. bp < z"
    using split_below [OF r(5) assms(2,3)] by blast
  have find: "find_slot s bp (freep s) = Some p"
    by (rule find_slot_ring [OF r(4,5) split p zs assms(2) r(7)])
  have all: "links s (ys @ p # zs) ?b" "apart s (ys @ p # zs)" using r(4,5) split by simp_all
  have dist: "distinct (ys @ p # zs)" using apart_distinct [OF all(2)] .
  have sub: "set zs \<subseteq> set as" "p \<noteq> ?b \<Longrightarrow> p \<in> set as" "set ys \<subseteq> insert ?b (set as)" "ys \<noteq> [] \<Longrightarrow> hd ys = ?b" "ys = [] \<Longrightarrow> p = ?b"
    using split by (cases ys; auto)+
  have "bp \<notin> set (?b # as)" using assms(2,3) by simp
  then have out: "bp \<notin> set (ys @ p # zs)" unfolding split .
  have disj: "x + h_size s x \<le> bp \<or> bp + h_size s bp \<le> x" if "x \<in> set as" for x
  proof (rule ccontr)
    assume "\<not> ?thesis"
    then have "max x bp \<in> units s bp \<inter> units s x" using r(6) [OF that] assms(4) by (auto simp: units_def)
    then show False using assms(6) that by (auto simp: free_units_def)
  qed
  have pb: "p + h_size s p \<le> bp" using disj [of p] sub(2) p r(3) by (cases "p = ?b") auto
  have bz: "\<forall>z \<in> set zs. bp + h_size s bp \<le> z"
    using disj zs sub(1) r(6) by (metis add_leD1 leD subsetD)
  have jn: "links s (p # zs) ?b" "apart s zs" "bp \<notin> set (p # zs)" "\<forall>z \<in> set zs. 0 < h_size s z"
    using all out r(6) sub(1) by (auto simp: links_append sorted_wrt_append)
  obtain zs' where zs': "links (join_next bp p s) (bp # zs') ?b" "apart (join_next bp p s) (bp # zs')" "set zs' \<subseteq> set zs"
     "units (join_next bp p s) bp \<union> free_units s zs' = units s bp \<union> free_units s zs"
     "\<And>x. x \<noteq> bp \<Longrightarrow> h_size (join_next bp p s) x = h_size s x \<and> h_ptr (join_next bp p s) x = h_ptr s x"
     "h_size s bp \<le> h_size (join_next bp p s) bp"
     "bp + h_size (join_next bp p s) bp = bp + h_size s bp \<or> (\<exists>z \<in> set zs. bp + h_size (join_next bp p s) bp = z + h_size s z)"
    using join_next_ok [OF jn(1-3) bz assms(2,4) jn(4)] by (elim exE conjE) (rule that; blast)
  define t where "t = join_next bp p s"
  note zs' = zs' [folded t_def]
  have same: "base_at t = ?b" "brk t = brk s" "brk_max t = brk_max s" by (simp_all add: t_def join_next_def Let_def)
  have tb: "bp + h_size t bp \<le> brk s" using zs'(7) assms(5) r(6) sub(1) by auto
  have ys: "links t ys p" "apart t ys" "\<And>y. y \<in> set ys \<Longrightarrow> y + h_size t y < p"
  proof -
    have "\<forall>y \<in> set ys. y \<noteq> bp" using out by auto
    then have eq: "\<forall>y \<in> set ys. h_ptr t y = h_ptr s y" "\<forall>y \<in> set ys. h_size t y = h_size s y" using zs'(5) by blast+
    show "links t ys p" using links_cong [OF eq(1)] all(1) by (simp add: links_append)
    show "apart t ys" using apart_cong [OF eq(2)] all(2) by (simp add: sorted_wrt_append)
    show "y + h_size t y < p" if "y \<in> set ys" for y using all(2) eq(2) that by (simp add: sorted_wrt_append)
  qed
  have tp: "h_size t p = h_size s p" "p \<noteq> bp" using zs'(5) p by auto
  have lz: "\<forall>z \<in> set zs'. p < z" using zs'(3) p zs by (meson less_trans subsetD)
  then have pz: "p \<notin> set zs'" by blast
  have yz: "\<forall>y \<in> set ys. \<forall>z \<in> set zs'. y + h_size t y < z" using ys(3) lz by (meson less_trans)
  have fy: "free_units t xs = free_units s xs" if n: "bp \<notin> set xs" for xs
  proof (rule free_units_cong, rule ballI)
    show "h_size t x = h_size s x" if "x \<in> set xs" for x using zs'(5) [of x] that n by metis
  qed
  have old: "free_units s as = free_units s ys \<union> units s p \<union> free_units s zs"
  proof -
    have "free_units s (?b # as) = free_units s as" using r(3) by (simp add: free_units_def units_def)
    then show ?thesis unfolding split by (auto simp: free_units_def)
  qed
  show ?thesis
  proof (cases "p + h_size s p = bp")
    case True
    then have pne: "p \<noteq> ?b" using r(3) assms(2) by auto
    let ?u = "t\<lparr>h_size := (h_size t)(p := h_size t p + h_size t bp), h_ptr := (h_ptr t)(p := h_ptr t bp), freep := p\<rparr>"
    let ?xs = "ys @ p # zs'"
    have free: "u_free (bp + 1) s = Some ?u"
      using find True tp by (simp add: u_free_def join_prev_def flip: t_def)
    have lu: "links ?u ?xs ?b"
    proof -
      have "links ?u ys p = links t ys p" by (rule links_cong) (use dist in auto)
      moreover have "links ?u zs' ?b = links t zs' ?b" by (rule links_cong) (use pz in auto)
      ultimately show ?thesis using ys(1) zs'(1) by (auto simp: links_append split: list.splits)
    qed
    have au: "apart ?u ?xs"
    proof -
      have "apart ?u ys = apart t ys" by (rule apart_cong) (use dist in auto)
      moreover have "apart ?u zs' = apart t zs'" by (rule apart_cong) (use pz in auto)
      moreover have "\<forall>z \<in> set zs'. p + (h_size t p + h_size t bp) < z" using zs'(2) True tp by auto
      moreover have "\<forall>y \<in> set ys. y + h_size t y < p \<and> y \<noteq> p" using ys(3) by force
      ultimately show ?thesis using ys(2) zs'(2) yz by (simp add: sorted_wrt_append)
    qed
    have yne: "ys \<noteq> []" using pne sub(5) by auto
    have "free_ring ?u (tl ?xs)"
    proof (rule free_ringI)
      show "hd ?xs = base_at ?u" using yne sub(4) same by simp
      show "h_size ?u (base_at ?u) = 0" using pne r(3) same zs'(5) assms(2) by auto
      show "\<forall>a \<in> set ?xs. a \<noteq> base_at ?u \<longrightarrow> 0 < h_size ?u a \<and> a + h_size ?u a \<le> brk ?u"
      proof (intro ballI impI)
        fix a
        assume a: "a \<in> set ?xs" "a \<noteq> base_at ?u"
        show "0 < h_size ?u a \<and> a + h_size ?u a \<le> brk ?u"
        proof (cases "a = p")
          case True
          then show ?thesis using tb tp \<open>p + h_size s p = bp\<close> r(6) sub(2) pne same by auto
        next
          case False
          then have "a \<in> set as" "a \<noteq> bp" using a sub zs'(3) same out by auto
          then show ?thesis using False r(6) zs'(5) same by auto
        qed
      qed
    qed (use lu au r(1,2) same in auto)
    moreover have "free_units ?u (tl ?xs) = free_units s as \<union> units s bp"
    proof -
      have f: "free_units ?u xs = free_units t xs" if "p \<notin> set xs" for xs
        by (rule free_units_cong) (use that in auto)
      have "units ?u p = units s p \<union> units t bp" using units_Un [of p s bp "h_size t bp"] True tp by (simp add: units_def)
      moreover have "units ?u ?b = {}" using pne r(3) zs'(5) assms(2) by (auto simp: units_def)
      moreover have "free_units ?u ?xs = free_units ?u ys \<union> units ?u p \<union> free_units ?u zs'" by (auto simp: free_units_def)
      moreover have "free_units ?u ?xs = units ?u ?b \<union> free_units ?u (tl ?xs)" using yne sub(4) by (cases ys) (auto simp: free_units_def)
      moreover have "free_units ?u ys = free_units s ys" "free_units ?u zs' = free_units s zs'"
        using f [of ys] f [of zs'] fy [of ys] fy [of zs'] dist pz out zs'(3) by auto
      ultimately show ?thesis using old zs'(4) by auto
    qed
    moreover have "set (tl ?xs) \<subseteq> insert bp (set as)" using split yne zs'(3) sub(1) by (cases ys) auto
    moreover have "p \<in> set (tl ?xs)" using yne by (cases ys) auto
    moreover have "h_size s bp \<le> h_size ?u p" using zs'(6) by simp
    moreover have "\<forall>x. x \<notin> set (bp # ?b # as) \<longrightarrow> h_size ?u x = h_size s x \<and> h_ptr ?u x = h_ptr s x"
      using sub(2) pne zs'(5) by auto
    moreover have "base_at ?u = ?b \<and> brk ?u = brk s \<and> brk_max ?u = brk_max s" using same by simp
    ultimately show ?thesis using free by (intro exI [of _ ?u] exI [of _ "tl ?xs"]) blast
  next
    case False
    let ?u = "t\<lparr>h_ptr := (h_ptr t)(p := bp), freep := p\<rparr>"
    let ?xs = "ys @ p # bp # zs'"
    have free: "u_free (bp + 1) s = Some ?u"
      using find False tp by (simp add: u_free_def join_prev_def flip: t_def)
    have lu: "links ?u ?xs ?b"
    proof -
      have "links ?u ys p = links t ys p" by (rule links_cong) (use dist in auto)
      moreover have "links ?u (bp # zs') ?b = links t (bp # zs') ?b" by (rule links_cong) (use pz tp in auto)
      ultimately show ?thesis using ys(1) zs'(1) tp by (auto simp: links_append split: list.splits)
    qed
    have au: "apart ?u ?xs"
    proof -
      have "apart ?u ys = apart t ys" "apart ?u (bp # zs') = apart t (bp # zs')" by (rule apart_cong; auto)+
      moreover have "p + h_size t p < bp" using pb False tp by auto
      moreover have "\<forall>z \<in> set zs'. bp < z" using zs zs'(3) by auto
      moreover have "\<forall>y \<in> set ys. y + h_size t y < bp" using ys(3) p by (meson less_trans)
      ultimately show ?thesis using ys(2,3) zs'(2) lz yz tp by (auto simp: sorted_wrt_append)
    qed
    have "free_ring ?u (tl ?xs)"
    proof (rule free_ringI)
      show "hd ?xs = base_at ?u" using sub(4,5) same by (cases ys) auto
      show "h_size ?u (base_at ?u) = 0" using r(3) same zs'(5) assms(2) by auto
      show "\<forall>a \<in> set ?xs. a \<noteq> base_at ?u \<longrightarrow> 0 < h_size ?u a \<and> a + h_size ?u a \<le> brk ?u"
      proof (intro ballI impI)
        fix a
        assume a: "a \<in> set ?xs" "a \<noteq> base_at ?u"
        show "0 < h_size ?u a \<and> a + h_size ?u a \<le> brk ?u"
        proof (cases "a = bp")
          case True
          then show ?thesis using tb zs'(6) assms(4) same by auto
        next
          case False
          then have "a \<in> set as" using a sub zs'(3) same by auto
          then show ?thesis using False r(6) zs'(5) same by auto
        qed
      qed
    qed (use lu au r(1,2) same in auto)
    moreover have "free_units ?u (tl ?xs) = free_units s as \<union> units s bp"
    proof -
      have f: "free_units ?u xs = free_units t xs" for xs by (simp add: free_units_def units_def)
      have "units ?u bp = units t bp" "units ?u p = units s p" using tp by (simp_all add: units_def)
      moreover have "units ?u ?b = {}" using r(3) zs'(5) assms(2) by (auto simp: units_def)
      moreover have "free_units ?u ?xs = free_units ?u ys \<union> units ?u p \<union> units ?u bp \<union> free_units ?u zs'" by (auto simp: free_units_def)
      moreover have "free_units ?u ?xs = units ?u ?b \<union> free_units ?u (tl ?xs)" using sub(4,5) by (cases ys) (auto simp: free_units_def)
      moreover have "free_units ?u ys = free_units s ys" "free_units ?u zs' = free_units s zs'"
        using f [of ys] f [of zs'] fy [of ys] fy [of zs'] out zs'(3) by auto
      ultimately show ?thesis using old zs'(4) by auto
    qed
    moreover have "set (tl ?xs) \<subseteq> insert bp (set as)" using split zs'(3) sub(1) by (cases ys) auto
    moreover have "bp \<in> set (tl ?xs)" by (cases ys) auto
    moreover have "h_size s bp \<le> h_size ?u bp" using zs'(6) by simp
    moreover have "\<forall>x. x \<notin> set (bp # ?b # as) \<longrightarrow> h_size ?u x = h_size s x \<and> h_ptr ?u x = h_ptr s x"
      using sub(2) zs'(5) by auto
    moreover have "base_at ?u = ?b \<and> brk ?u = brk s \<and> brk_max ?u = brk_max s" using same by simp
    ultimately show ?thesis using free by (intro exI [of _ ?u] exI [of _ "tl ?xs"]) blast
  qed
qed

section \<open>Taking a block\<close>

lemma free_ring_next:
  assumes "links s (us @ q # vs) e" shows "h_ptr s q = (case vs of [] \<Rightarrow> e | y # _ \<Rightarrow> y)"
  using assms by (simp add: links_append)

lemma free_units_disjoint:
  assumes "apart s (us @ x # bs)" "y \<in> set us \<union> set bs"
  shows "units s y \<inter> units s x = {}"
  using assms by (auto simp: units_def sorted_wrt_append)

lemma take_block_ring:
  assumes "free_ring s as" "prev \<in> set (base_at s # as)" "0 < n" "n \<le> h_size s (h_ptr s prev)" "take_block n prev (h_ptr s prev) s = (r, s')"
  shows "\<exists>q as'. r = q + 1 \<and> free_ring s' as' \<and> base_at s < q \<and> q + n \<le> brk s \<and> h_size s' q = n \<and>
    {q..<q + n} \<subseteq> free_units s as \<and> free_units s' as' = free_units s as - {q..<q + n} \<and>
    base_at s' = base_at s \<and> brk s' = brk s \<and> brk_max s' = brk_max s \<and>
    (\<forall>x. x \<notin> set (q # base_at s # as) \<longrightarrow> h_size s' x = h_size s x \<and> h_ptr s' x = h_ptr s x)"
proof -
  let ?b = "base_at s"
  define x where "x = h_ptr s prev"
  have r: "0 < ?b" "?b < brk s" "h_size s ?b = 0" "links s (?b # as) ?b" "apart s (?b # as)"
    "\<And>a. a \<in> set as \<Longrightarrow> 0 < h_size s a \<and> a + h_size s a \<le> brk s" "freep s \<in> set (?b # as)"
    using assms(1) unfolding free_ring_def by auto
  have xb: "x \<noteq> ?b" using assms(3,4) r(3) by (auto simp: x_def)
  obtain us vs where "?b # as = us @ prev # vs" using split_list [OF assms(2)] by blast
  moreover from this have "vs \<noteq> [] \<and> hd vs = x" using free_ring_next [of s us prev vs ?b] r(4) xb by (cases vs) (auto simp: x_def)
  ultimately obtain bs where split: "?b # as = us @ prev # x # bs" by (cases vs) auto
  have all: "links s (us @ prev # x # bs) ?b" "apart s (us @ prev # x # bs)" using r(4,5) split by simp_all
  have dist: "distinct (us @ prev # x # bs)" using apart_distinct [OF all(2)] .
  have sub: "x \<in> set as" "set bs \<subseteq> set as" "us \<noteq> [] \<Longrightarrow> hd us = ?b" "us = [] \<Longrightarrow> prev = ?b" "?b \<in> set (us @ [prev])"
    using split by (cases us; auto)+
  have bx: "?b < x" using r(5) sub(1) r(3) by auto
  have xk: "n \<le> h_size s x" "x + h_size s x \<le> brk s" using assms(4) r(6) [OF sub(1)] by (simp_all add: x_def)
  have base0: "units s ?b = {}" using r(3) by (simp add: units_def)
  have old: "free_units s as = free_units s (us @ [prev]) \<union> units s x \<union> free_units s bs"
  proof -
    have "free_units s (?b # as) = free_units s as" using base0 by (simp add: free_units_def)
    then show ?thesis unfolding split by (auto simp: free_units_def)
  qed
  have dj: "(free_units s (us @ [prev]) \<union> free_units s bs) \<inter> units s x = {}"
    using free_units_disjoint [of s "us @ [prev]" x bs] all(2) by (auto simp: free_units_def)
  have tb: "take_block n prev x s = (r, s')" using assms(5) by (simp add: x_def)
  show ?thesis
  proof (cases "h_size s x = n")
    case True
    let ?u = "s\<lparr>h_ptr := (h_ptr s)(prev := h_ptr s x), freep := prev\<rparr>"
    let ?xs = "us @ prev # bs"
    have u: "r = x + 1" "s' = ?u" using tb True by (simp_all add: take_block_def)
    have lu: "links ?u ?xs ?b"
    proof -
      have "links ?u us prev = links s us prev" by (rule links_cong) (use dist in auto)
      moreover have "links ?u bs ?b = links s bs ?b" by (rule links_cong) (use dist in auto)
      ultimately show ?thesis using all(1) by (auto simp: links_append split: list.splits)
    qed
    have au: "apart ?u ?xs"
    proof -
      have "apart ?u ?xs = apart s ?xs" by (rule apart_cong) simp
      then show ?thesis using all(2) by (simp add: sorted_wrt_append)
    qed
    have "free_ring ?u (tl ?xs)"
    proof (rule free_ringI)
      show "hd ?xs = base_at ?u" using sub(3,4) by (cases us) auto
      show "\<forall>a \<in> set ?xs. a \<noteq> base_at ?u \<longrightarrow> 0 < h_size ?u a \<and> a + h_size ?u a \<le> brk ?u"
        using r(6) split by (cases us) auto
    qed (use lu au r in auto)
    moreover have "free_units ?u (tl ?xs) = free_units s as - {x..<x + n}"
    proof -
      have "free_units ?u (tl ?xs) = free_units s (tl ?xs)" by (rule free_units_cong) simp
      moreover have "free_units s ?xs = free_units s (tl ?xs)" using sub(3,4) base0 by (cases us) (auto simp: free_units_def)
      moreover have "free_units s ?xs = free_units s (us @ [prev]) \<union> free_units s bs" by (auto simp: free_units_def)
      ultimately show ?thesis using old dj True by (auto simp: units_def)
    qed
    moreover have "{x..<x + n} \<subseteq> free_units s as" using sub(1) True by (auto simp: free_units_def units_def)
    moreover have "prev \<in> set (?b # as)" using assms(2) .
    ultimately show ?thesis using u bx xk True by (intro exI [of _ x] exI [of _ "tl ?xs"]) auto
  next
    case False
    define m where "m = h_size s x - n"
    define q where "q = x + m"
    have m: "0 < m" "m + n = h_size s x" using xk(1) False by (simp_all add: m_def)
    let ?u = "s\<lparr>h_size := (h_size s)(x := m, q := n), freep := prev\<rparr>"
    have u: "r = q + 1" "s' = ?u" using tb False by (simp_all add: take_block_def m_def q_def Let_def)
    have qx: "q \<in> units s x" "q \<noteq> x" using m assms(3) by (auto simp: units_def q_def)
    have qn: "q \<notin> set (us @ prev # x # bs)"
    proof
      assume "q \<in> set (us @ prev # x # bs)"
      then have "q \<in> set us \<union> {prev} \<union> set bs" using qx(2) by auto
      moreover have "y < x" if "y \<in> set us \<union> {prev}" for y using all(2) that by (auto simp: sorted_wrt_append)
      moreover have "x + h_size s x < y" if "y \<in> set bs" for y using all(2) that by (auto simp: sorted_wrt_append)
      ultimately show False using qx by (auto simp: units_def) force+
    qed
    have lu: "links ?u (?b # as) ?b" using r(4) links_cong [of "?b # as" ?u s ?b] by simp
    have au: "apart ?u (?b # as)"
    proof -
      have small: "h_size ?u y \<le> h_size s y" if "y \<in> set (us @ prev # x # bs)" for y
      proof -
        have "y \<noteq> q" using qn that by blast
        then show ?thesis using m by simp
      qed
      have "apart ?u (us @ prev # x # bs)"
      proof (rule sorted_wrt_mono_rel [OF _ all(2)])
        show "y + h_size ?u y < z" if "y \<in> set (us @ prev # x # bs)" "y + h_size s y < z" for y z
          using small [OF that(1)] that(2) by linarith
      qed
      then show ?thesis using split by simp
    qed
    have "free_ring ?u (tl (?b # as))"
    proof (rule free_ringI)
      show "h_size ?u (base_at ?u) = 0" using r(3) xb qn split by (metis fun_upd_other list.set_intros(1) uheap.select_convs(2,4) uheap.update_convs(2,3) uheap.surjective)
      show "\<forall>a \<in> set (?b # as). a \<noteq> base_at ?u \<longrightarrow> 0 < h_size ?u a \<and> a + h_size ?u a \<le> brk ?u"
      proof (intro ballI impI)
        fix a
        assume a: "a \<in> set (?b # as)" "a \<noteq> base_at ?u"
        then have "a \<noteq> q" using qn split by metis
        then show "0 < h_size ?u a \<and> a + h_size ?u a \<le> brk ?u" using a r(6) [of a] m xk(2) by auto
      qed
    qed (use lu au r assms(2) in auto)
    moreover have "free_units ?u as = free_units s as - {q..<q + n}"
    proof -
      have "free_units ?u (?b # as) = free_units ?u (us @ [prev]) \<union> units ?u x \<union> free_units ?u bs"
        unfolding split by (auto simp: free_units_def)
      moreover have "free_units ?u (us @ [prev]) = free_units s (us @ [prev])" "free_units ?u bs = free_units s bs"
        by (rule free_units_cong; use qn dist in auto)+
      moreover have "units ?u x = units s x - {q..<q + n}" using qx(2) m by (auto simp: units_def q_def)
      moreover have "units ?u ?b = {}"
      proof -
        have "?b \<noteq> q" using qn split by (metis list.set_intros(1))
        then show ?thesis using r(3) xb by (simp add: units_def)
      qed
      moreover have "{q..<q + n} \<subseteq> units s x" using m by (auto simp: units_def q_def)
      ultimately show ?thesis using old dj by (auto simp: free_units_def)
    qed
    moreover have "{q..<q + n} \<subseteq> free_units s as" using sub(1) m by (auto simp: free_units_def units_def q_def intro!: bexI [of _ x])
    moreover have "q + n \<le> brk s" "?b < q" using xk(2) m bx by (simp_all add: q_def)
    ultimately show ?thesis using u sub(1) by (intro exI [of _ q] exI [of _ as]) auto
  qed
qed

section \<open>The search of malloc\<close>

lemma scan_order:
  assumes "links s (q # ws) e" "ws \<noteq> []" "last ws = freep s" "freep s \<notin> set (butlast ws)"
  shows "(\<exists>prev \<in> set (q # butlast ws). n \<le> h_size s (h_ptr s prev) \<and>
      malloc_from n q (hd ws) s = Some (take_block n prev (h_ptr s prev) s)) \<or>
    (\<forall>x \<in> set ws. h_size s x < n) \<and>
      malloc_from n q (hd ws) s = (case morecore n s of None \<Rightarrow> None
         | Some (q, s1) \<Rightarrow> if q = 0 then Some (0, s1) else malloc_from n q (h_ptr s1 q) s1)"
  using assms
proof (induction ws arbitrary: q)
  case (Cons w ws)
  have q: "h_ptr s q = w" using Cons.prems(1) by simp
  show ?case
  proof (cases "n \<le> h_size s w")
    case True
    then show ?thesis using q by (intro disjI1 bexI [of _ q]) (simp_all add: malloc_from.simps [of n q w])
  next
    case False
    show ?thesis
    proof (cases "ws = []")
      case True
      then have w: "w = freep s" using Cons.prems(3) by simp
      have "malloc_from n q w s = (case morecore n s of None \<Rightarrow> None
         | Some (q, s1) \<Rightarrow> if q = 0 then Some (0, s1) else malloc_from n q (h_ptr s1 q) s1)"
        using False w by (subst malloc_from.simps) simp
      then show ?thesis using False True by (intro disjI2) (simp only: list.sel list.set ball_simps, simp)
    next
      case ne: False
      have "w \<noteq> freep s" using Cons.prems(4) ne by simp
      moreover have "h_ptr s w = hd ws" using Cons.prems(1) ne by (cases ws) auto
      ultimately have "malloc_from n q w s = malloc_from n w (hd ws) s"
        using False by (simp add: malloc_from.simps [of n q w])
      moreover have "links s (w # ws) e" "last ws = freep s" "freep s \<notin> set (butlast ws)"
        using Cons.prems ne by simp_all
      ultimately show ?thesis using Cons.IH [of w] ne False by auto
    qed
  qed
qed simp

lemma free_ring_scan:
  assumes "free_ring s as" "0 < n"
  shows "(\<exists>prev \<in> set (base_at s # as). n \<le> h_size s (h_ptr s prev) \<and>
      malloc_from n (freep s) (h_ptr s (freep s)) s = Some (take_block n prev (h_ptr s prev) s)) \<or>
    (\<forall>x \<in> set as. h_size s x < n) \<and>
      malloc_from n (freep s) (h_ptr s (freep s)) s = (case morecore n s of None \<Rightarrow> None
         | Some (q, s1) \<Rightarrow> if q = 0 then Some (0, s1) else malloc_from n q (h_ptr s1 q) s1)"
proof -
  let ?f = "freep s" and ?b = "base_at s"
  have r: "links s (?b # as) ?b" "apart s (?b # as)" "?f \<in> set (?b # as)" using assms(1) unfolding free_ring_def by auto
  obtain us vs where split: "?b # as = us @ ?f # vs" using split_list [OF r(3)] by blast
  let ?ws = "vs @ us @ [?f]"
  have l: "links s us ?f" "links s (?f # vs) ?b" using r(1) unfolding split by (simp_all add: links_append)
  have "links s (?f # ?ws) (h_ptr s ?f)"
  proof (cases us)
    case Nil
    then have "?f = ?b" using split by simp
    then show ?thesis using l(2) Nil links_append [of s "?f # vs" ?f "[]" "h_ptr s ?f"] by simp
  next
    case (Cons u us')
    then have "u = ?b" using split by simp
    then show ?thesis using l Cons links_append [of s "?f # vs" u "us' @ [?f]" "h_ptr s ?f"]
        links_append [of s "u # us'" ?f "[]" "h_ptr s ?f"] by simp
  qed
  moreover have "?f \<notin> set (butlast ?ws)" using apart_distinct [OF r(2)] unfolding split by (simp add: butlast_append)
  moreover have "h_ptr s ?f = hd ?ws" using calculation(1) by (cases ?ws) auto
  moreover have "set (?f # butlast ?ws) = set (?b # as)" unfolding split by (auto simp: butlast_append)
  moreover have "set as \<subseteq> set ?ws" using arg_cong [OF split, of set] by auto
  moreover have "?ws \<noteq> []" "last ?ws = ?f" by simp_all
  ultimately have l: "links s (?f # ?ws) (h_ptr s ?f)" "?ws \<noteq> []" "last ?ws = ?f" "?f \<notin> set (butlast ?ws)"
    and h: "h_ptr s ?f = hd ?ws" and e: "set (?f # butlast ?ws) = set (?b # as)" and sub: "set as \<subseteq> set ?ws" by iprover+
  show ?thesis
    using scan_order [OF l, of n] unfolding h [symmetric] e
  proof (elim disjE)
    assume "(\<forall>x \<in> set ?ws. h_size s x < n) \<and>
      malloc_from n ?f (h_ptr s ?f) s = (case morecore n s of None \<Rightarrow> None
         | Some (q, s1) \<Rightarrow> if q = 0 then Some (0, s1) else malloc_from n q (h_ptr s1 q) s1)"
    then show ?thesis using sub by (meson subsetD)
  qed (rule disjI1)
qed

section \<open>More memory\<close>

lemma sbrk_grow:
  assumes "8 * n < 2 ^ 31"
  shows "sbrk (of_nat n * 8) s = (if brk_max s < brk s + n then None else Some (brk s, s\<lparr>brk := brk s + n\<rparr>))"
proof -
  have "(of_nat n * 8 :: i32) = of_nat (8 * n)" by simp
  then have "sint (of_nat n * 8 :: i32) = int (8 * n)" using sint_of_nat32 [of "8 * n"] assms by (simp del: of_nat_mult)
  then show ?thesis by (simp add: sbrk_def Let_def nat_add_distrib)
qed

lemma morecore_ring:
  assumes "free_ring s as" "0 < n" "8 * n < 2 ^ 31"
  shows "morecore n s = Some (0, s) \<and> brk_max s < brk s + max n 4096 \<or>
    (\<exists>s2 as2. morecore n s = Some (freep s2, s2) \<and> free_ring s2 as2 \<and> brk s \<le> brk s2 \<and>
       free_units s2 as2 = free_units s as \<union> {brk s..<brk s2} \<and> base_at s2 = base_at s \<and>
       (\<forall>x. x < brk s \<longrightarrow> x \<notin> set (base_at s # as) \<longrightarrow> h_size s2 x = h_size s x \<and> h_ptr s2 x = h_ptr s x) \<and>
       set as2 \<subseteq> insert (brk s) (set as) \<and> (\<exists>a \<in> set as2. n \<le> h_size s2 a))"
proof -
  define nu where "nu = (if n < 4096 then 4096 else n)"
  have nu: "n \<le> nu" "0 < nu" "8 * nu < 2 ^ 31" using assms(2,3) by (auto simp: nu_def)
  show ?thesis
  proof (cases "brk_max s < brk s + nu")
    case True
    then have "morecore n s = Some (0, s)" using sbrk_grow [OF nu(3), of s] by (simp add: morecore_def flip: nu_def)
    moreover have "nu = max n 4096" by (simp add: nu_def)
    ultimately show ?thesis using True by blast
  next
    case False
    let ?hp = "brk s"
    define t where "t = s\<lparr>brk := ?hp + nu, h_size := (h_size s)(?hp := nu)\<rparr>"
    have r: "0 < base_at s" "base_at s < brk s" "h_size s (base_at s) = 0" "links s (base_at s # as) (base_at s)"
      "apart s (base_at s # as)" "\<And>a. a \<in> set as \<Longrightarrow> 0 < h_size s a \<and> a + h_size s a \<le> brk s" "freep s \<in> set (base_at s # as)"
      using assms(1) unfolding free_ring_def by auto
    have lt: "a < ?hp" if "a \<in> set (base_at s # as)" for a using r(2) r(6) [of a] that by auto
    have sz: "\<forall>a \<in> set (base_at s # as). h_size t a = h_size s a"
    proof
      show "h_size t a = h_size s a" if "a \<in> set (base_at s # as)" for a using lt [OF that] by (simp add: t_def)
    qed
    have "free_ring t as"
      unfolding free_ring_def
    proof (intro conjI)
      show "links t (base_at t # as) (base_at t)" using links_cong [of "base_at s # as" t s "base_at s"] r(4) by (simp add: t_def)
      show "apart t (base_at t # as)" using apart_cong [OF sz] r(5) by (simp add: t_def)
      show "\<forall>a \<in> set as. 0 < h_size t a \<and> a + h_size t a \<le> brk t"
      proof
        show "0 < h_size t a \<and> a + h_size t a \<le> brk t" if "a \<in> set as" for a
          using sz r(6) [OF that] that by (simp add: t_def)
      qed
      show "h_size t (base_at t) = 0" using sz r(3) by (simp add: t_def)
    qed (use r in \<open>auto simp: t_def\<close>)
    moreover have fu: "free_units t as = free_units s as" by (rule free_units_cong) (use sz in auto)
    moreover have uh: "units t ?hp = {?hp..<?hp + nu}" by (simp add: units_def t_def)
    moreover have "units t ?hp \<inter> free_units t as = {}" unfolding fu uh using r(6) by (auto simp: free_units_def units_def) fastforce
    moreover have "?hp \<notin> set as" using lt by fastforce
    moreover have "base_at t < ?hp" "0 < h_size t ?hp" "?hp + h_size t ?hp \<le> brk t" "h_size t ?hp = nu"
      "base_at t = base_at s" "brk t = ?hp + nu"
      using r(2) nu(2) by (simp_all add: t_def)
    ultimately obtain s2 as2 where s2: "u_free (?hp + 1) t = Some s2" "free_ring s2 as2"
      "free_units s2 as2 = free_units s as \<union> {?hp..<?hp + nu}" "base_at s2 = base_at s" "brk s2 = ?hp + nu"
      "set as2 \<subseteq> insert ?hp (set as)" "\<forall>x. x \<notin> set (?hp # base_at s # as) \<longrightarrow> h_size s2 x = h_size t x \<and> h_ptr s2 x = h_ptr t x"
      "\<exists>a \<in> set as2. nu \<le> h_size s2 a"
      using u_free_ring [of t as ?hp] by metis
    have "morecore n s = Some (freep s2, s2)"
      using False sbrk_grow [OF nu(3), of s] s2(1) by (simp add: morecore_def t_def flip: nu_def)
    moreover have "\<forall>x. x < brk s \<longrightarrow> x \<notin> set (base_at s # as) \<longrightarrow> h_size s2 x = h_size s x \<and> h_ptr s2 x = h_ptr s x"
      using s2(7) by (auto simp: t_def)
    moreover have "\<exists>a \<in> set as2. n \<le> h_size s2 a" using s2(8) nu(1) by (meson order_trans)
    ultimately show ?thesis using s2(2-6) by (intro disjI2 exI [of _ s2] exI [of _ as2]) simp
  qed
qed

section \<open>Allocation\<close>

text \<open>What \<open>malloc\<close> gives: null, or a block of free or new memory.\<close>

definition gives :: "uheap \<Rightarrow> nat list \<Rightarrow> nat \<Rightarrow> nat \<Rightarrow> uheap \<Rightarrow> bool" where
  "gives s as n r s' \<longleftrightarrow>
     (\<exists>q as'. r = q + 1 \<and> free_ring s' as' \<and> base_at s < q \<and> q + n \<le> brk s' \<and> h_size s' q = n \<and>
        {q..<q + n} \<subseteq> free_units s as \<union> {brk s..<brk s'} \<and>
        free_units s' as' = (free_units s as \<union> {brk s..<brk s'}) - {q..<q + n} \<and>
        base_at s' = base_at s \<and> brk s \<le> brk s' \<and>
        (\<forall>x. x < brk s \<longrightarrow> x \<notin> set (q # base_at s # as) \<longrightarrow> h_size s' x = h_size s x \<and> h_ptr s' x = h_ptr s x))"

lemma take_block_gives:
  assumes "free_ring s as" "prev \<in> set (base_at s # as)" "0 < n" "n \<le> h_size s (h_ptr s prev)"
    "take_block n prev (h_ptr s prev) s = (r, s')"
  shows "gives s as n r s'"
proof -
  obtain q as' where t: "r = q + 1" "free_ring s' as'" "base_at s < q" "q + n \<le> brk s" "h_size s' q = n"
    "{q..<q + n} \<subseteq> free_units s as" "free_units s' as' = free_units s as - {q..<q + n}" "base_at s' = base_at s" "brk s' = brk s"
    "\<forall>x. x \<notin> set (q # base_at s # as) \<longrightarrow> h_size s' x = h_size s x \<and> h_ptr s' x = h_ptr s x"
    using take_block_ring [OF assms] by (elim exE conjE) (rule that; assumption)
  then show ?thesis unfolding gives_def by (intro exI [of _ q] exI [of _ as']) auto
qed

lemma malloc_gives:
  assumes "free_ring s as" "0 < n" "8 * n < 2 ^ 31"
  shows "\<exists>r s'. malloc_from n (freep s) (h_ptr s (freep s)) s = Some (r, s') \<and>
    (r = 0 \<and> s' = s \<and> brk_max s < brk s + max n 4096 \<or> gives s as n r s')"
  using free_ring_scan [OF assms(1,2)]
proof (elim disjE bexE conjE)
  fix prev
  assume "prev \<in> set (base_at s # as)" "n \<le> h_size s (h_ptr s prev)"
    "malloc_from n (freep s) (h_ptr s (freep s)) s = Some (take_block n prev (h_ptr s prev) s)"
  then show ?thesis using take_block_gives [OF assms(1) _ assms(2)]
    by (cases "take_block n prev (h_ptr s prev) s") auto
next
  assume small: "\<forall>x \<in> set as. h_size s x < n" and m: "malloc_from n (freep s) (h_ptr s (freep s)) s =
    (case morecore n s of None \<Rightarrow> None | Some (q, s1) \<Rightarrow> if q = 0 then Some (0, s1) else malloc_from n q (h_ptr s1 q) s1)"
  show ?thesis
    using morecore_ring [OF assms]
  proof (elim disjE exE conjE)
    assume "morecore n s = Some (0, s)" "brk_max s < brk s + max n 4096"
    then show ?thesis using m small by simp
  next
    fix s2 as2
    assume mc: "morecore n s = Some (freep s2, s2)" and r2: "free_ring s2 as2" and b: "brk s \<le> brk s2"
      and fu: "free_units s2 as2 = free_units s as \<union> {brk s..<brk s2}" and base: "base_at s2 = base_at s"
      and same: "\<forall>x. x < brk s \<longrightarrow> x \<notin> set (base_at s # as) \<longrightarrow> h_size s2 x = h_size s x \<and> h_ptr s2 x = h_ptr s x"
      and sub: "set as2 \<subseteq> insert (brk s) (set as)" and big: "\<exists>a \<in> set as2. n \<le> h_size s2 a"
    have "0 < freep s2" using r2 unfolding free_ring_def by (auto simp: sorted_wrt_append)
    then have m2: "malloc_from n (freep s) (h_ptr s (freep s)) s = malloc_from n (freep s2) (h_ptr s2 (freep s2)) s2"
      using m mc by simp
    have "\<not> (\<forall>x \<in> set as2. h_size s2 x < n)" using big by (meson not_le)
    then obtain prev where p: "prev \<in> set (base_at s2 # as2)" "n \<le> h_size s2 (h_ptr s2 prev)"
      "malloc_from n (freep s2) (h_ptr s2 (freep s2)) s2 = Some (take_block n prev (h_ptr s2 prev) s2)"
      using free_ring_scan [OF r2 assms(2)] by blast
    obtain r s' where t: "take_block n prev (h_ptr s2 prev) s2 = (r, s')" by (cases "take_block n prev (h_ptr s2 prev) s2")
    obtain q as' where q: "r = q + 1" "free_ring s' as'" "base_at s2 < q" "q + n \<le> brk s2" "h_size s' q = n"
      "{q..<q + n} \<subseteq> free_units s2 as2" "free_units s' as' = free_units s2 as2 - {q..<q + n}" "base_at s' = base_at s2" "brk s' = brk s2"
      "\<forall>x. x \<notin> set (q # base_at s2 # as2) \<longrightarrow> h_size s' x = h_size s2 x \<and> h_ptr s' x = h_ptr s2 x"
      using take_block_ring [OF r2 p(1) assms(2) p(2) t] by (elim exE conjE) (rule that; assumption)
    have "h_size s' x = h_size s x \<and> h_ptr s' x = h_ptr s x" if "x < brk s" "x \<notin> set (q # base_at s # as)" for x
    proof -
      have "x \<notin> set (q # base_at s2 # as2)" using that sub base by auto
      then show ?thesis using q(10) same that by auto
    qed
    then have "gives s as n r s'" unfolding gives_def using q fu base b by (intro exI [of _ q] exI [of _ as']) simp
    then show ?thesis using m2 p(3) t by simp
  qed
qed


lemma free_ring_cong:
  assumes "\<forall>x \<in> set (base_at s # as). h_ptr s' x = h_ptr s x" "\<forall>x \<in> set (base_at s # as). h_size s' x = h_size s x"
    "base_at s' = base_at s" "brk s' = brk s" "freep s' = freep s"
  shows "free_ring s' as = free_ring s as"
  using links_cong [OF assms(1), of "base_at s"] apart_cong [OF assms(2)] assms(2-5) unfolding free_ring_def by auto

lemma nunits_enough:
  assumes "unat nbytes < 2 ^ 31 - 16"
  shows "0 < nunits nbytes" "8 * nunits nbytes < 2 ^ 31" "unat nbytes \<le> 8 * (nunits nbytes - 1)"
proof -
  have a: "unat (nbytes + 8 - 1) = unat nbytes + 7"
  proof -
    have "nbytes + 8 - 1 = (of_nat (unat nbytes + 7) :: i32)" by simp
    then show ?thesis using assms by (simp only: unat_of_nat) simp
  qed
  have "unat ((nbytes + 8 - 1) div 8 + 1) = (unat nbytes + 7) div 8 + 1"
  proof -
    define w where "w = (nbytes + 8 - 1) div 8"
    have w: "unat w = (unat nbytes + 7) div 8" using a by (simp add: w_def unat_div_distrib)
    have "w + 1 = (of_nat (unat w + 1) :: i32)" by simp
    then have "unat (w + 1) = (unat w + 1) mod 2 ^ 32" by (simp only: unat_of_nat) simp
    then show ?thesis using assms w unfolding w_def [symmetric] by simp
  qed
  then show "0 < nunits nbytes" "8 * nunits nbytes < 2 ^ 31" "unat nbytes \<le> 8 * (nunits nbytes - 1)"
    using assms by (simp_all add: nunits_def)
qed

section \<open>A program that uses the heap\<close>

text \<open>The blocks a program holds lie in the memory, apart from one another and from the free ones.\<close>

definition held_ok :: "uheap \<Rightarrow> nat list \<Rightarrow> nat set \<Rightarrow> bool" where
  "held_ok s as H \<longleftrightarrow>
     (\<forall>b \<in> H. base_at s < b \<and> 0 < h_size s b \<and> b + h_size s b \<le> brk s \<and> units s b \<inter> free_units s as = {}) \<and>
     (\<forall>b \<in> H. \<forall>c \<in> H. b \<noteq> c \<longrightarrow> units s b \<inter> units s c = {})"

definition heap_ok :: "uheap \<Rightarrow> nat set \<Rightarrow> bool" where
  "heap_ok s H \<longleftrightarrow>
     freep s = 0 \<and> H = {} \<and> 0 < base_at s \<and> base_at s < brk s \<or> (\<exists>as. free_ring s as \<and> held_ok s as H)"

text \<open>The program allocates and frees, and writes only behind the headers of blocks it holds.\<close>

inductive heap_use :: "uheap \<Rightarrow> nat set \<Rightarrow> bool" where
  start: "\<lbrakk> freep s = 0; 0 < base_at s; base_at s < brk s \<rbrakk> \<Longrightarrow> heap_use s {}"
| alloc: "\<lbrakk> heap_use s H; unat nbytes < 2 ^ 31 - 16; u_malloc nbytes s = Some (r, s') \<rbrakk>
    \<Longrightarrow> heap_use s' (if r = 0 then H else insert (r - 1) H)"
| release: "\<lbrakk> heap_use s H; b \<in> H; u_free (b + 1) s = Some s' \<rbrakk> \<Longrightarrow> heap_use s' (H - {b})"
| writes: "\<lbrakk> heap_use s H; \<forall>x. (\<forall>b \<in> H. x \<notin> units s b - {b}) \<longrightarrow> f x = h_ptr s x \<and> g x = h_size s x \<rbrakk>
    \<Longrightarrow> heap_use (s\<lparr>h_ptr := f, h_size := g\<rparr>) H"

lemma held_not_free:
  assumes "free_ring s as" "held_ok s as H" "b \<in> H"
  shows "b \<notin> set as" "b \<noteq> base_at s" "b < brk s" "b \<in> units s b" "b \<notin> free_units s as"
proof -
  show u: "b \<in> units s b" and "b \<noteq> base_at s" "b < brk s" using assms(2,3) by (auto simp: held_ok_def units_def)
  then show n: "b \<notin> free_units s as" using assms(2,3) by (auto simp: held_ok_def)
  show "b \<notin> set as"
  proof
    assume "b \<in> set as"
    then have "b \<in> free_units s as" using u by (auto simp: free_units_def)
    then show False using n by simp
  qed
qed

lemma gives_held:
  assumes "free_ring s as" "held_ok s as H" "gives s as n r s'" "0 < n"
  shows "0 < r" "h_size s' (r - 1) = n" "r - 1 + n \<le> brk s'" "\<forall>b \<in> H. units s' b = units s b \<and> units s' (r - 1) \<inter> units s b = {}"
    "\<exists>as'. free_ring s' as' \<and> held_ok s' as' (insert (r - 1) H)"
proof -
  obtain q as' where g: "r = q + 1" "free_ring s' as'" "base_at s < q" "q + n \<le> brk s'" "h_size s' q = n"
    "{q..<q + n} \<subseteq> free_units s as \<union> {brk s..<brk s'}" "free_units s' as' = (free_units s as \<union> {brk s..<brk s'}) - {q..<q + n}"
    "base_at s' = base_at s" "brk s \<le> brk s'"
    "\<And>x. x < brk s \<Longrightarrow> x \<notin> set (q # base_at s # as) \<Longrightarrow> h_size s' x = h_size s x \<and> h_ptr s' x = h_ptr s x"
    using assms(3) unfolding gives_def by (elim exE conjE) (rule that; blast)
  show "0 < r" "h_size s' (r - 1) = n" "r - 1 + n \<le> brk s'" using g by simp_all
  have uq: "units s' q = {q..<q + n}" using g(5) by (simp add: units_def)
  have old: "units s b \<inter> (free_units s as \<union> {brk s..<brk s'}) = {}" if "b \<in> H" for b
    using assms(2) that by (auto simp: held_ok_def units_def)
  have keep: "h_size s' b = h_size s b" if b: "b \<in> H" for b
  proof -
    have "q \<in> {q..<q + n}" using assms(4) by simp
    then have "q \<in> free_units s as \<union> {brk s..<brk s'}" using g(6) by blast
    then have "b \<noteq> q" using old [OF b] held_not_free(4) [OF assms(1,2) b] by blast
    then show ?thesis using g(10) [of b] held_not_free [OF assms(1,2) b] by simp
  qed
  show new: "\<forall>b \<in> H. units s' b = units s b \<and> units s' (r - 1) \<inter> units s b = {}"
  proof (intro ballI conjI)
    fix b
    assume b: "b \<in> H"
    show "units s' b = units s b" using keep [OF b] by (simp add: units_def)
    show "units s' (r - 1) \<inter> units s b = {}" using old [OF b] g(1,6) uq by auto
  qed
  have "held_ok s' as' (insert q H)"
    unfolding held_ok_def
  proof (intro conjI ballI impI)
    fix b
    assume b: "b \<in> insert q H"
    show "base_at s' < b" using b g(3,8) assms(2) by (auto simp: held_ok_def)
    show "0 < h_size s' b" using b g(5) keep assms(2,4) by (auto simp: held_ok_def)
    show "b + h_size s' b \<le> brk s'" using b g(4,5,9) keep assms(2) by (fastforce simp: held_ok_def)
    show "units s' b \<inter> free_units s' as' = {}"
    proof (cases "b = q")
      case True
      then show ?thesis using uq g(7) by auto
    next
      case False
      then have h: "b \<in> H" using b by simp
      then have "units s' b = units s b" using new by blast
      then show ?thesis using old [OF h] g(7) by auto
    qed
    fix c
    assume c: "c \<in> insert q H" "b \<noteq> c"
    have u: "units s' x = units s x" "units s' q \<inter> units s x = {}" if "x \<in> H" for x using new that g(1) by simp_all
    show "units s' b \<inter> units s' c = {}"
    proof (cases "b = q \<or> c = q")
      case True
      then show ?thesis using b c u by (auto simp: Int_commute)
    next
      case False
      then have "units s b \<inter> units s c = {}" using b c assms(2) unfolding held_ok_def by blast
      then show ?thesis using False b c u(1) by simp
    qed
  qed
  then show "\<exists>as'. free_ring s' as' \<and> held_ok s' as' (insert (r - 1) H)" using g(1,2) by auto
qed

lemma malloc_ok:
  assumes "heap_ok s H" "unat nbytes < 2 ^ 31 - 16"
  shows "\<exists>r s'. u_malloc nbytes s = Some (r, s') \<and>
    (r = 0 \<and> heap_ok s' H \<and> brk s' = brk s \<and> brk_max s' = brk_max s \<and> brk_max s < brk s + max (nunits nbytes) 4096 \<or>
     0 < r \<and> heap_ok s' (insert (r - 1) H) \<and> h_size s' (r - 1) = nunits nbytes \<and> r - 1 + nunits nbytes \<le> brk s' \<and>
     (\<forall>b \<in> H. units s' b = units s b \<and> units s' (r - 1) \<inter> units s b = {}))"
proof -
  define t where "t = (if freep s = 0
    then s\<lparr>h_ptr := (h_ptr s)(base_at s := base_at s), freep := base_at s, h_size := (h_size s)(base_at s := 0)\<rparr> else s)"
  note n = nunits_enough [OF assms(2)]
  have m: "u_malloc nbytes s = malloc_from (nunits nbytes) (freep t) (h_ptr t (freep t)) t" by (simp add: u_malloc_def t_def)
  have brk: "brk t = brk s" "brk_max t = brk_max s" by (simp_all add: t_def)
  have "\<exists>as. free_ring t as \<and> held_ok t as H \<and> (\<forall>b \<in> H. units t b = units s b)"
    using assms(1) unfolding heap_ok_def
  proof (elim disjE exE conjE)
    assume "freep s = 0" "H = {}" "0 < base_at s" "base_at s < brk s"
    then show ?thesis by (intro exI [of _ "[]"]) (simp add: t_def free_ring_def held_ok_def)
  next
    fix as
    assume r: "free_ring s as" "held_ok s as H"
    then have "freep s \<noteq> 0" by (auto simp: free_ring_def)
    then show ?thesis using r by (intro exI [of _ as]) (simp add: t_def)
  qed
  then obtain as where r: "free_ring t as" "held_ok t as H" "\<forall>b \<in> H. units t b = units s b" by blast
  obtain x s' where x: "u_malloc nbytes s = Some (x, s')"
    "x = 0 \<and> s' = t \<and> brk_max t < brk t + max (nunits nbytes) 4096 \<or> gives t as (nunits nbytes) x s'"
    using malloc_gives [OF r(1) n(1,2)] unfolding m [symmetric] by (elim exE conjE) (rule that; assumption)
  from x(2) show ?thesis
  proof
    assume "x = 0 \<and> s' = t \<and> brk_max t < brk t + max (nunits nbytes) 4096"
    then show ?thesis using x(1) r(1,2) brk by (intro exI [of _ x] exI [of _ s']) (auto simp: heap_ok_def)
  next
    assume g: "gives t as (nunits nbytes) x s'"
    note gh = gives_held [OF r(1,2) g n(1)]
    have "heap_ok s' (insert (x - 1) H)" using gh(5) unfolding heap_ok_def by blast
    then show ?thesis using x(1) gh(1-4) r(3) by (intro exI [of _ x] exI [of _ s']) simp
  qed
qed

lemma release_ok:
  assumes "heap_ok s H" "b \<in> H"
  shows "\<exists>s'. u_free (b + 1) s = Some s' \<and> heap_ok s' (H - {b}) \<and> (\<forall>c \<in> H - {b}. units s' c = units s c)"
proof -
  obtain as where r: "free_ring s as" "held_ok s as H" using assms unfolding heap_ok_def by blast
  have b: "base_at s < b" "b \<notin> set as" "0 < h_size s b" "b + h_size s b \<le> brk s" "units s b \<inter> free_units s as = {}"
    using r(2) assms(2) held_not_free(1) [OF r assms(2)] by (auto simp: held_ok_def)
  obtain s' as' where f: "u_free (b + 1) s = Some s'" "free_ring s' as'" "free_units s' as' = free_units s as \<union> units s b"
    "base_at s' = base_at s" "brk s' = brk s" "\<forall>x. x \<notin> set (b # base_at s # as) \<longrightarrow> h_size s' x = h_size s x \<and> h_ptr s' x = h_ptr s x"
    using u_free_ring [OF r(1) b] by (elim exE conjE) (rule that; assumption)
  have sz: "h_size s' c = h_size s c" if "c \<in> H - {b}" for c
    using f(6) [rule_format, of c] held_not_free(1,2) [OF r, of c] that by auto
  then have u: "\<forall>c \<in> H - {b}. units s' c = units s c" by (simp add: units_def)
  have "held_ok s' as' (H - {b})"
    unfolding held_ok_def
  proof (intro conjI ballI impI)
    fix c
    assume c: "c \<in> H - {b}"
    then have h: "base_at s < c" "0 < h_size s c" "c + h_size s c \<le> brk s" "units s c \<inter> free_units s as = {}"
      "units s c \<inter> units s b = {}"
      using r(2) assms(2) by (auto simp: held_ok_def)
    show "base_at s' < c" "0 < h_size s' c" "c + h_size s' c \<le> brk s'" using h sz [OF c] f(4,5) by simp_all
    show "units s' c \<inter> free_units s' as' = {}" using h u c f(3) by auto
    fix d
    assume d: "d \<in> H - {b}" "c \<noteq> d"
    then have "units s c \<inter> units s d = {}" using c r(2) unfolding held_ok_def by blast
    then show "units s' c \<inter> units s' d = {}" using u c d by simp
  qed
  then show ?thesis using f(1,2) u unfolding heap_ok_def by blast
qed

lemma writes_ok:
  assumes "heap_ok s H" "\<forall>x. (\<forall>b \<in> H. x \<notin> units s b - {b}) \<longrightarrow> f x = h_ptr s x \<and> g x = h_size s x"
  shows "heap_ok (s\<lparr>h_ptr := f, h_size := g\<rparr>) H"
proof (cases "\<exists>as. free_ring s as \<and> held_ok s as H")
  case False
  then have "freep s = 0 \<and> H = {} \<and> 0 < base_at s \<and> base_at s < brk s" using assms(1) unfolding heap_ok_def by blast
  then show ?thesis by (simp add: heap_ok_def)
next
  case True
  then obtain as where r: "free_ring s as" "held_ok s as H" by blast
  let ?t = "s\<lparr>h_ptr := f, h_size := g\<rparr>"
  have free: "x \<notin> units s b" if "x \<in> set (base_at s # as)" "b \<in> H" for x b
  proof (cases "x = base_at s")
    case True
    then show ?thesis using r(2) that(2) by (auto simp: held_ok_def units_def)
  next
    case False
    then have "x \<in> free_units s as" using r(1) that(1) by (auto simp: free_ring_def free_units_def units_def)
    then show ?thesis using r(2) that(2) by (auto simp: held_ok_def)
  qed
  then have same: "\<forall>x \<in> set (base_at s # as). f x = h_ptr s x" "\<forall>x \<in> set (base_at s # as). g x = h_size s x"
    using assms(2) by blast+
  have held: "g b = h_size s b" if b: "b \<in> H" for b
  proof -
    have "b \<notin> units s c - {c}" if c: "c \<in> H" for c
    proof (cases "b = c")
      case False
      then have "units s b \<inter> units s c = {}" using r(2) b c unfolding held_ok_def by blast
      then show ?thesis using held_not_free(4) [OF r b] by blast
    qed simp
    then show ?thesis using assms(2) by blast
  qed
  have "free_ring ?t as" using free_ring_cong [of s as ?t] same r(1) by simp
  moreover have "held_ok ?t as H"
  proof -
    have "free_units ?t as = free_units s as" by (rule free_units_cong) (use same in simp)
    moreover have "\<forall>b \<in> H. units ?t b = units s b" using held by (simp add: units_def)
    ultimately show ?thesis using r(2) held by (simp add: held_ok_def)
  qed
  ultimately show ?thesis unfolding heap_ok_def by blast
qed

lemma heap_use_ok: "heap_use s H \<Longrightarrow> heap_ok s H"
proof (induction rule: heap_use.induct)
  case (alloc s H nbytes r s')
  then show ?case using malloc_ok [OF alloc.IH alloc.hyps(2)] by auto
next
  case (release s H b s')
  then show ?case using release_ok [OF release.IH release.hyps(2)] by auto
next
  case (writes s H f g)
  then show ?case by (intro writes_ok)
qed (simp add: heap_ok_def)

text \<open>C16: However a program allocates, frees and writes to the blocks it holds, these never overlap;
  \<open>free\<close> of one returns and leaves the others as they are; and \<open>malloc\<close> returns, for every request below two
  gigabytes: null only when the memory cannot grow, otherwise a block that has the bytes asked for
  and is apart from every block held.\<close>

theorem malloc_free_sound:
  assumes "heap_use s H"
  shows "(\<forall>b \<in> H. \<forall>c \<in> H. b \<noteq> c \<longrightarrow> units s b \<inter> units s c = {}) \<and>
    (\<forall>b \<in> H. \<exists>s'. u_free (b + 1) s = Some s' \<and> (\<forall>c \<in> H - {b}. units s' c = units s c)) \<and>
    (\<forall>nbytes. unat nbytes < 2 ^ 31 - 16 \<longrightarrow>
       (\<exists>r s'. u_malloc nbytes s = Some (r, s') \<and>
          (r = 0 \<and> brk_max s < brk s + max (nunits nbytes) 4096 \<or>
           0 < r \<and> unat nbytes \<le> 8 * (h_size s' (r - 1) - 1) \<and> r - 1 + h_size s' (r - 1) \<le> brk s' \<and>
           (\<forall>b \<in> H. units s' b = units s b \<and> units s' (r - 1) \<inter> units s b = {}))))"
proof (intro conjI ballI allI impI)
  note ok = heap_use_ok [OF assms]
  show "units s b \<inter> units s c = {}" if "b \<in> H" "c \<in> H" "b \<noteq> c" for b c
    using ok that unfolding heap_ok_def held_ok_def by blast
  show "\<exists>s'. u_free (b + 1) s = Some s' \<and> (\<forall>c \<in> H - {b}. units s' c = units s c)" if "b \<in> H" for b
    using release_ok [OF ok that] by blast
  fix nbytes :: i32
  assume n: "unat nbytes < 2 ^ 31 - 16"
  obtain r s' where m: "u_malloc nbytes s = Some (r, s')"
    "r = 0 \<and> brk_max s < brk s + max (nunits nbytes) 4096 \<or>
     0 < r \<and> h_size s' (r - 1) = nunits nbytes \<and> r - 1 + nunits nbytes \<le> brk s' \<and>
     (\<forall>b \<in> H. units s' b = units s b \<and> units s' (r - 1) \<inter> units s b = {})"
    using malloc_ok [OF ok n] by blast
  then show "\<exists>r s'. u_malloc nbytes s = Some (r, s') \<and>
          (r = 0 \<and> brk_max s < brk s + max (nunits nbytes) 4096 \<or>
           0 < r \<and> unat nbytes \<le> 8 * (h_size s' (r - 1) - 1) \<and> r - 1 + h_size s' (r - 1) \<le> brk s' \<and>
           (\<forall>b \<in> H. units s' b = units s b \<and> units s' (r - 1) \<inter> units s b = {}))"
    using nunits_enough(3) [OF n] by (intro exI [of _ r] exI [of _ s']) auto
qed

text \<open>Two blocks on a fresh heap, the first given back.\<close>

definition fresh_heap :: uheap where
  "fresh_heap = \<lparr>h_ptr = \<lambda>_. 0, h_size = \<lambda>_. 0, freep = 0, base_at = 5, brk = 10, brk_max = 100000\<rparr>"

lemma fresh_first:
  "\<exists>s. u_malloc 20 fresh_heap = Some (4103, s) \<and> heap_use s {4102}"
proof -
  have 0: "heap_use fresh_heap {}" by (rule heap_use.start) (simp_all add: fresh_heap_def)
  have "\<exists>s. u_malloc 20 fresh_heap = Some (4103, s)"
    by (simp add: u_malloc_def fresh_heap_def nunits_def malloc_from.simps find_slot.simps u_free_def morecore_def sbrk_def
        take_block_def join_next_def join_prev_def)
  then show ?thesis using heap_use.alloc [OF 0, of 20 4103] by force
qed

theorem malloc_free_sound_witness:
  "\<exists>s s'. heap_use s {4102} \<and> u_free 4103 s = Some s'"
proof -
  obtain s where s: "heap_use s {4102}" using fresh_first by blast
  then show ?thesis using malloc_free_sound [OF s] by auto
qed

end
