(* ===== verification/Spec2Isabelle.thy ===== *)
theory Spec2Isabelle
  imports Pipeline Trap Bpt_Main Permissions Pipe_Fifo Console_Line Refcounts Directories Grep Shell_Run
    Spinlock Ide Kbd Cprintf Wc Umalloc
begin

text \<open>
  The programs.  The repository holds course projects.  The C programs with a logic of their own are
  the tools of the LC-2K machine (\<open>computer architecture/project1\<close>, \<open>project2\<close>), an on-disk B+ tree
  (\<open>dbms/B+tree_development/disk_bpt\<close>) and two kernels that extend xv6: one with threads and
  schedulers (\<open>Operating system/thread,scheduler/xv6-public\<close>, "the thread kernel") and one with users and
  permissions (\<open>Operating system/file system/xv6-public\<close>, "the file-system kernel").

  Conventions.  \<open>Prelude\<close> has the integers (\<open>i32\<close> is \<open>32 word\<close>, so that additions wrap), the results
  \<open>'a kres\<close> of code that may panic, follow a null pointer or never return (\<open>kerror\<close>), sequencing
  (\<open>call\<close>), loops over arrays (\<open>scan\<close>) and array copies.  A definition has the name of the function it
  models; parts of a function are definitions of their own.  Names that both kernels define carry
  the suffix \<open>_t\<close> in the theories of the thread kernel.  State is passed explicitly in records.

  LC-2K.
  \<^item> \<open>C_Stdio\<close> is the part of the C library that the tools use (lines, numbers in texts).
  \<^item> \<open>Assembler\<close>: \<open>assemble.c\<close>.  Lines are parsed into fields, labels are collected, each line becomes a
    word, every exit with an error is a value.  The assembler equals a specification of its output,
    and a printed line is parsed back.
  \<^item> \<open>Lc2k_Fields\<close>: the layout of a machine word.
  \<^item> \<open>Simulator\<close>: \<open>project1/simulator.c\<close>.  Loading what the assembler wrote gives its words; a branch and
    a load to a label reach it; no program changes memory, since \<open>sw\<close> writes a register.  The run of
    a program has fuel, and the result says whether it ran out.
  \<^item> \<open>Pipeline\<close>: \<open>project2/simulator.c\<close>.  A cycle of the five stages refines one step of the sequential
    machine, and a run without a data hazard ends in the registers and the memory of that machine.

  The thread kernel.
  \<^item> \<open>Kalloc\<close>: \<open>kalloc.c\<close> on a memory of words; the free pages as a pool (locale \<open>page_pool\<close>).
  \<^item> \<open>Vm\<close>: \<open>vm.c\<close>, page directories and tables in that memory.  Growing and shrinking a process, and
    shrinking after growing, with the effect on mappings and on the pool.
  \<^item> \<open>Proc\<close>, \<open>Threads\<close>: \<open>proc.c\<close> and \<open>exec.c\<close> without the loading of the ELF file, the references of
    \<open>file.c\<close> and \<open>fs.c\<close>; \<open>Pipe\<close>: \<open>pipe.c\<close>.
  \<^item> \<open>Scheduler\<close>: one turn of each of the three schedulers.  The feedback queue runs the process kept from
    the turn before or the best one; a process that used its time is passed over unless it is init or
    the first runnable one.
  \<^item> \<open>Trap\<close>: \<open>trap.c\<close>, \<open>sysproc.c\<close>, \<open>syscall.c\<close>; the timer's accounting, and one running process as an
    invariant of the step relation of one processor, which alternates between the scheduler and a
    process; file system calls and device handlers take part with their wakeups and sleeps.
  \<^item> \<open>Fifo\<close> states bounded queues as a locale over rings with free-running indices; \<open>Pipe_Fifo\<close> shows
    that pipes are such queues and that bytes arrive in order over any run of writes and reads.

  The B+ tree.  \<open>Bpt_Disk\<close> is the file of pages, \<open>Bpt\<close> the operations of \<open>bpt.c\<close>, \<open>Bpt_Tree\<close> and \<open>Bpt_Spec\<close>
  the tree that the pages represent and what the operations do to its records, \<open>Bpt_Main\<close> the store of
  keys and values (locale \<open>map_store\<close>) and \<open>main.c\<close>.  Search has fuel for one page more than
  the file has: \<open>search_ends_at_leaf\<close> shows that this is enough for every well-formed table, and
  \<open>search_fuel_exact\<close> that a search which uses it up never ends.

  The file-system kernel.
  \<^item> \<open>Cstring\<close>: \<open>string.c\<close>, and the words in blocks.
  \<^item> \<open>Bio\<close>, \<open>Log\<close>: \<open>bio.c\<close>, \<open>sleeplock.c\<close>, the request part of \<open>ide.c\<close>, \<open>log.c\<close>.  \<open>Log_Spec\<close> and \<open>Log_Main\<close>
    show that a transaction is atomic over crashes between any two sector writes, recovery
    included, and that the log is full one block before what \<open>begin_op\<close> promises (locale \<open>block_store\<close>).
  \<^item> \<open>Fs\<close>, \<open>Users\<close>, \<open>Names\<close>: \<open>fs.c\<close>, on the blocks that the cache shows.  \<open>Fs_Content\<close>: what is written is
    read.  \<open>Directories\<close>: a directory is a map, and \<open>dirlink\<close> an update, or -1 for a name that is there.  \<open>Frame\<close> (locale \<open>untouched\<close>): what
    the file layer leaves alone.  \<open>Permissions\<close>: the user table and the permission check.
  \<^item> \<open>Files\<close>, \<open>Sysfile\<close>: \<open>file.c\<close>, \<open>pipe.c\<close>, \<open>sysfile.c\<close> for the running process.  \<open>Descriptors\<close> and \<open>Refcounts\<close>:
    the reference counts of open files along any run of calls.
  \<^item> \<open>Console\<close>, \<open>Console_Line\<close>: \<open>console.c\<close> as a line editor.  \<open>Screen\<close>: its CGA memory shows the lines that
    were printed.  \<open>Cprintf\<close>: \<open>cprintf\<close>, \<open>panic\<close> and \<open>uart.c\<close>; what is printed arrives at both devices.
    \<open>Kbd\<close>: \<open>kbd.c\<close>, \<open>kbd.h\<close>; the keys of a text give this text.
  \<^item> \<open>Ide\<close>: \<open>ide.c\<close>, the queue of requests with processes and interrupts interleaved, which refines the
    requests of \<open>Bio\<close> that are served at once.
  \<^item> \<open>Spinlock\<close>: \<open>spinlock.c\<close> on any number of processors, whose steps interleave; mutual exclusion and
    the nesting of disabled interrupts as an invariant of the step relation.
  \<^item> \<open>Ulib\<close>: \<open>ulib.c\<close>, \<open>printf.c\<close>.  \<open>Grep\<close>: \<open>grep.c\<close>, whose matcher decides the language of the pattern and
    whose loop, over the results of its reads, prints the lines that match.  \<open>Wc\<close>: the counters of \<open>wc.c\<close>.
  \<^item> \<open>Umalloc\<close>: \<open>umalloc.c\<close>, the ring of free blocks in memory, and what \<open>malloc\<close> and \<open>free\<close> promise a program
    along any run.  The searches in the ring are partial functions, shown to return.
  \<^item> \<open>Shell\<close>, \<open>Shell_Print\<close>, \<open>Shell_Run\<close>: \<open>sh.c\<close>.  The parser always returns, reads back every command that
    was printed, and \<open>runcmd\<close> gives every program the descriptors that the command means.  The
    mutual recursion has fuel; four calls for every character and four more are enough.

  Interaction.  The log rests on the buffer cache, the inode layer on the blocks in the cache during a
  transaction, the directories and the calls on the inode layer; traps call the scheduler and the
  processes, which use the page tables and the allocator; the shell hands its words to \<open>exec\<close> and
  its redirections to the descriptor calls.

  Not modelled.
  \<^item> Several processors outside \<open>Spinlock\<close> and \<open>Ide\<close>: the kernels run one processor, although
    the Makefile starts two, so a lock is never contended.
    In the calls of a single process a sleep that nobody ends is \<open>Diverge\<close>.
  \<^item> Buffers that one operation holds at the same time are taken to be different ones, as they
    are for different block numbers.
  \<^item> What only prints in \<open>fs.c\<close>, \<open>sysfile.c\<close> and the user programs; in the shell the closes and waits of the
    parent of a pipe or a list, and failing \<open>fork\<close> and \<open>exec\<close>.
  \<^item> Ports and registers but those of the disk, the keyboard, the screen and the serial line; boot code, the context switch, interrupt controllers.
  \<^item> The loading of programs from ELF files, and the file-system kernel's copies of the process,
    memory and trap code, which the thread kernel extends; its stock copies of the file system, the
    console and the shell are the files modelled for the file-system kernel without the changes.
  \<^item> The tools and programs that only call the kernel (\<open>mkfs.c\<close>, small user programs, tests).
  \<^item> The projects in other languages: Java, Python, C++, Standard ML, Racket, SQL.
\<close>

end
